(* ===== verification/Prelude.thy ===== *)
theory Prelude
  imports Main "HOL-Library.Word" "HOL-Library.Monad_Syntax"
begin

text \<open>
  Shared vocabulary of the development: the C integer types of \<^verbatim>\<open>sqliteInt.h\<close> as words, byte
  buffers as lists read through a bounds-checked access, the result codes the modelled
  functions return, the outcomes of memory allocation, and the generic lemmas on words, lists
  and options that the component theories use.
\<close>

unbundle bit_operations_syntax

section \<open>Integer types, buffers and result codes\<close>

type_synonym u8 = "8 word"
type_synonym u16 = "16 word"
type_synonym u32 = "32 word"
type_synonym u64 = "64 word"
type_synonym i64 = "64 word"
type_synonym bytes = "8 word list"

datatype rcode =
    SQLITE_OK | SQLITE_ERROR | SQLITE_NOMEM | SQLITE_IOERR_NOMEM | SQLITE_CORRUPT
  | SQLITE_CANTOPEN | SQLITE_BUSY | SQLITE_IOERR | SQLITE_TOOBIG | SQLITE_INTERRUPT | SQLITE_DONE
  | SQLITE_PROTOCOL | SQLITE_READONLY | SQLITE_READONLY_RECOVERY | SQLITE_READONLY_CANTLOCK
  | SQLITE_BUSY_RECOVERY | SQLITE_BUSY_SNAPSHOT

text \<open>
  \<open>rd p i\<close> is the C read \<^verbatim>\<open>p[i]\<close> from a buffer that ends after \<open>length p\<close> elements. A read
  past the end has no defined value in C, so it is \<open>None\<close> here and a whole computation that
  performs one is \<open>None\<close>: every theorem that shows a \<open>Some\<close> result also shows that the code
  stayed inside the buffer.
\<close>

definition rd :: "'a list \<Rightarrow> nat \<Rightarrow> 'a option" where
  "rd p i = (if i < length p then Some (p ! i) else None)"

text \<open>
  Each call of an allocator consumes one outcome: \<open>True\<close> is success and \<open>False\<close> is the NULL
  return. A script that is used up means that all later calls succeed, so every finite pattern
  of failures is a value of this type.
\<close>

type_synonym allocs = "bool list"

fun sqlite3_alloc :: "allocs \<Rightarrow> bool \<times> allocs" where
  "sqlite3_alloc [] = (True, [])"
| "sqlite3_alloc (b # bs) = (b, bs)"

section \<open>Collections\<close>

named_theorems rd_simps \<open>evaluation of bounds-checked buffer reads\<close>
named_theorems wbits \<open>bitwise evaluation of word expressions at a concrete index\<close>

section \<open>Buffer reads\<close>

lemma rd_Cons_0 [simp, rd_simps]: "rd (x # xs) 0 = Some x"
  by (simp add: rd_def)

lemma rd_Cons_Suc [simp, rd_simps]: "rd (x # xs) (Suc i) = rd xs i"
  by (simp add: rd_def)

lemma rd_Cons_numeral [simp, rd_simps]: "rd (x # xs) (numeral k) = rd xs (pred_numeral k)"
  by (simp add: rd_def numeral_eq_Suc)

lemma rd_Cons_1 [simp, rd_simps]: "rd (x # xs) 1 = rd xs 0"
  by (simp add: rd_def)

lemma rd_Nil [simp, rd_simps]: "rd [] i = None"
  by (simp add: rd_def)

lemma rd_in_range: "i < length p \<Longrightarrow> rd p i = Some (p ! i)"
  by (simp add: rd_def)

lemma rd_Some_iff: "rd p i = Some x \<longleftrightarrow> i < length p \<and> p ! i = x"
  by (auto simp: rd_def)

lemma rd_None_iff: "rd p i = None \<longleftrightarrow> length p \<le> i"
  by (auto simp: rd_def)

section \<open>Words\<close>

lemma unat_u8_less [simp]: "unat (x :: u8) < 256"
  using unsigned_less [of x, where 'a = nat] by simp

lemma unat_u32_less [simp]: "unat (x :: u32) < 4294967296"
  using unsigned_less [of x, where 'a = nat] by simp

text \<open>
  Equality of words bit by bit at concrete positions: the goal becomes one boolean equation per
  bit, each decided by the simplifier.
\<close>

lemma bit_u8_over: "8 \<le> n \<Longrightarrow> \<not> bit (x :: u8) n"
  using bit_imp_le_length [of x n] by auto

lemma bit_u32_over: "32 \<le> n \<Longrightarrow> \<not> bit (x :: u32) n"
  using bit_imp_le_length [of x n] by auto

lemma bit_u8_less: "bit (x :: u8) n \<Longrightarrow> n < 8"
  using bit_u8_over by (metis linorder_not_le)

lemma bit_u32_less: "bit (x :: u32) n \<Longrightarrow> n < 32"
  using bit_u32_over by (metis linorder_not_le)

lemma ucast_ucast_u32_u64 [simp]: "ucast (ucast (a :: u32) :: u64) = a"
  by (rule bit_word_eqI) (auto simp: bit_simps)

lemma drop_bit_0_iff: "drop_bit n (v :: 'a :: len word) = 0 \<longleftrightarrow> (\<forall>i\<ge>n. \<not> bit v i)"
proof
  assume z: "drop_bit n v = 0"
  show "\<forall>i\<ge>n. \<not> bit v i"
  proof (intro allI impI)
    fix i
    assume "n \<le> i"
    then obtain j where "i = n + j" by (auto simp: le_iff_add)
    moreover have "\<not> bit (drop_bit n v) j" using z by simp
    ultimately show "\<not> bit v i" by (simp add: bit_drop_bit_eq)
  qed
next
  assume "\<forall>i\<ge>n. \<not> bit v i"
  then show "drop_bit n v = 0" by (intro bit_word_eqI) (simp add: bit_drop_bit_eq)
qed

lemma upt_64:
  "[0..<64] = [0, 1, 2, 3, 4, 5, 6, 7, 8, 9, 10, 11, 12, 13, 14, 15, 16, 17, 18, 19,
    20, 21, 22, 23, 24, 25, 26, 27, 28, 29, 30, 31, 32, 33, 34, 35, 36, 37, 38, 39,
    40, 41, 42, 43, 44, 45, 46, 47, 48, 49, 50, 51, 52, 53, 54, 55, 56, 57, 58, 59,
    60, 61, 62, 63]"
  by code_simp

lemma bits_64:
  "list_all (\<lambda>n. bit a n = bit (b :: u64) n) [0, 1, 2, 3, 4, 5, 6, 7, 8, 9, 10, 11, 12, 13, 14, 15, 16, 17, 18, 19,
    20, 21, 22, 23, 24, 25, 26, 27, 28, 29, 30, 31, 32, 33, 34, 35, 36, 37, 38, 39,
    40, 41, 42, 43, 44, 45, 46, 47, 48, 49, 50, 51, 52, 53, 54, 55, 56, 57, 58, 59,
    60, 61, 62, 63] \<Longrightarrow> a = b"
  unfolding upt_64 [symmetric] by (rule bit_word_eqI) (simp add: list_all_iff)

lemma bits_8:
  "list_all (\<lambda>n. bit a n = bit (b :: u8) n) [0, 1, 2, 3, 4, 5, 6, 7] \<Longrightarrow> a = b"
proof (rule bit_word_eqI)
  fix n
  assume "list_all (\<lambda>n. bit a n = bit b n) [0, 1, 2, 3, 4, 5, 6, 7]" and "n < LENGTH(8)"
  moreover have "[0, 1, 2, 3, 4, 5, 6, 7] = [0..<8]" by code_simp
  ultimately show "bit a n = bit b n" by (simp only: list_all_iff) simp
qed

lemma bits_8_iff:
  "a = (b :: u8) \<longleftrightarrow> list_all (\<lambda>n. bit a n = bit b n) [0, 1, 2, 3, 4, 5, 6, 7]"
  using bits_8 [of a b] by auto

lemma upt_32:
  "[0..<32] = [0, 1, 2, 3, 4, 5, 6, 7, 8, 9, 10, 11, 12, 13, 14, 15, 16, 17, 18, 19,
    20, 21, 22, 23, 24, 25, 26, 27, 28, 29, 30, 31]"
  by code_simp

lemma bits_32:
  "list_all (\<lambda>n. bit a n = bit (b :: u32) n) [0, 1, 2, 3, 4, 5, 6, 7, 8, 9, 10, 11, 12, 13, 14, 15, 16, 17, 18, 19,
    20, 21, 22, 23, 24, 25, 26, 27, 28, 29, 30, 31] \<Longrightarrow> a = b"
  unfolding upt_32 [symmetric] by (rule bit_word_eqI) (simp add: list_all_iff)

lemmas [wbits] = bit_simps bit_u8_over bit_u32_over

lemma and_80_u8: "(x :: u8) AND 0x80 = 0 \<longleftrightarrow> \<not> bit x 7"
  using and_exp_eq_0_iff_not_bit [of x 7] by simp

lemma and_80_u32: "(x :: u32) AND 0x80 = 0 \<longleftrightarrow> \<not> bit x 7"
  using and_exp_eq_0_iff_not_bit [of x 7] by simp

section \<open>Arithmetic\<close>

lemma div_mod_eq_iff: "(j :: nat) div d = k div d \<Longrightarrow> j mod d = k mod d \<longleftrightarrow> j = k"
  using div_mult_mod_eq [of j d] div_mult_mod_eq [of k d] by metis

end
