(* ===== verification/Varint.thy ===== *)
theory Varint
  imports Prelude
begin

text \<open>
  The variable-length integers of \<^verbatim>\<open>util.c\<close>: the encoder \<open>sqlite3PutVarint\<close>, the hand-unrolled
  decoder \<open>sqlite3GetVarint\<close>, their 32-bit variants with the inlining macros of
  \<^verbatim>\<open>sqliteInt.h\<close>, \<open>sqlite3VarintLen\<close>, and the four-byte big-endian integers. An encoder returns
  the bytes it stores at \<^verbatim>\<open>p[0], p[1], ...\<close>; the C return value is their number. A decoder
  returns the number of bytes read and the value stored through its pointer argument, or
  \<open>None\<close> when it would read past the end of the buffer.
\<close>

section \<open>Encoding\<close>

text \<open>The loop that fills \<^verbatim>\<open>p[i-1] ... p[0]\<close>, highest index first, of the nine-byte case.\<close>

primrec putVarint9 :: "nat \<Rightarrow> u64 \<Rightarrow> bytes \<Rightarrow> bytes" where
  "putVarint9 0 v acc = acc"
| "putVarint9 (Suc i) v acc = putVarint9 i (drop_bit 7 v) (ucast ((v AND 0x7f) OR 0x80) # acc)"

text \<open>The \<^verbatim>\<open>do ... while( v!=0 )\<close> loop that fills \<^verbatim>\<open>buf[]\<close>, least significant group first.\<close>

function putVarintBuf :: "u64 \<Rightarrow> bytes" where
  "putVarintBuf v = ucast ((v AND 0x7f) OR 0x80) #
     (if drop_bit 7 v \<noteq> 0 then putVarintBuf (drop_bit 7 v) else [])"
  by pat_completeness auto
termination
proof (relation "measure unat")
  fix v :: u64
  assume "drop_bit 7 v \<noteq> 0"
  then have "v \<noteq> 0" by auto
  then have "unat v div 128 < unat v"
    by (simp add: unat_gt_0)
  then show "(drop_bit 7 v, v) \<in> measure unat"
    by (simp add: drop_bit_eq_div unat_div)
qed simp

declare putVarintBuf.simps [simp del]

definition sqlite3PutVarint :: "u64 \<Rightarrow> bytes" where
  "sqlite3PutVarint v =
     (if v AND push_bit 32 0xff000000 \<noteq> 0
      then putVarint9 8 (drop_bit 8 v) [ucast v]
      else let buf = putVarintBuf v;
               buf' = buf[0 := buf ! 0 AND 0x7f]
           in rev buf')"

definition sqlite3PutVarint32 :: "u32 \<Rightarrow> bytes" where
  "sqlite3PutVarint32 v =
     (if v AND NOT 0x3fff = 0
      then [ucast (drop_bit 7 v OR 0x80), ucast (v AND 0x7f)]
      else sqlite3PutVarint (ucast v))"

definition putVarint32 :: "u32 \<Rightarrow> bytes" where
  "putVarint32 v = (if v < 0x80 then [ucast v] else sqlite3PutVarint32 v)"

section \<open>Decoding\<close>

abbreviation SLOT_2_0 :: u32 where
  "SLOT_2_0 \<equiv> 0x001fc07f"

abbreviation SLOT_4_2_0 :: u32 where
  "SLOT_4_2_0 \<equiv> 0xf01fc07f"

definition join64 :: "u32 \<Rightarrow> u32 \<Rightarrow> u64" where
  "join64 s a = push_bit 32 (ucast s) OR ucast a"

definition sqlite3GetVarint :: "bytes \<Rightarrow> (nat \<times> u64) option" where
  "sqlite3GetVarint p = do {
     p0 \<leftarrow> rd p 0;
     let a = (ucast p0 :: u32);
     if a AND 0x80 = 0 then Some (1, ucast a) else do {
     p1 \<leftarrow> rd p 1;
     let b = (ucast p1 :: u32);
     if b AND 0x80 = 0 then
       (let a = a AND 0x7f; a = push_bit 7 a; a = a OR b in Some (2, ucast a)) else do {
     p2 \<leftarrow> rd p 2;
     let a = push_bit 14 a;
     let a = a OR ucast p2;
     if a AND 0x80 = 0 then
       (let a = a AND SLOT_2_0; b = b AND 0x7f; b = push_bit 7 b; a = a OR b
        in Some (3, ucast a)) else do {
     let a = a AND SLOT_2_0;
     p3 \<leftarrow> rd p 3;
     let b = push_bit 14 b;
     let b = b OR ucast p3;
     if b AND 0x80 = 0 then
       (let b = b AND SLOT_2_0; a = push_bit 7 a; a = a OR b in Some (4, ucast a)) else do {
     let b = b AND SLOT_2_0;
     let s = a;
     p4 \<leftarrow> rd p 4;
     let a = push_bit 14 a;
     let a = a OR ucast p4;
     if a AND 0x80 = 0 then
       (let b = push_bit 7 b; a = a OR b; s = drop_bit 18 s in Some (5, join64 s a)) else do {
     let s = push_bit 7 s;
     let s = s OR b;
     p5 \<leftarrow> rd p 5;
     let b = push_bit 14 b;
     let b = b OR ucast p5;
     if b AND 0x80 = 0 then
       (let a = a AND SLOT_2_0; a = push_bit 7 a; a = a OR b; s = drop_bit 18 s
        in Some (6, join64 s a)) else do {
     p6 \<leftarrow> rd p 6;
     let a = push_bit 14 a;
     let a = a OR ucast p6;
     if a AND 0x80 = 0 then
       (let a = a AND SLOT_4_2_0; b = b AND SLOT_2_0; b = push_bit 7 b; a = a OR b;
            s = drop_bit 11 s
        in Some (7, join64 s a)) else do {
     let a = a AND SLOT_2_0;
     p7 \<leftarrow> rd p 7;
     let b = push_bit 14 b;
     let b = b OR ucast p7;
     if b AND 0x80 = 0 then
       (let b = b AND SLOT_4_2_0; a = push_bit 7 a; a = a OR b; s = drop_bit 4 s
        in Some (8, join64 s a)) else do {
     p8 \<leftarrow> rd p 8;
     let a = push_bit 15 a;
     let a = a OR ucast p8;
     let b = b AND SLOT_2_0;
     let b = push_bit 8 b;
     let a = a OR b;
     let s = push_bit 4 s;
     let b = (ucast p4 :: u32);
     let b = b AND 0x7f;
     let b = drop_bit 3 b;
     let s = s OR b;
     Some (9, join64 s a)
     }}}}}}}}}"

definition sqlite3GetVarint32 :: "bytes \<Rightarrow> (nat \<times> u32) option" where
  "sqlite3GetVarint32 p = do {
     p0 \<leftarrow> rd p 0;
     let a = (ucast p0 :: u32);
     p1 \<leftarrow> rd p 1;
     let b = (ucast p1 :: u32);
     if b AND 0x80 = 0 then
       (let a = a AND 0x7f; a = push_bit 7 a in Some (2, a OR b)) else do {
     p2 \<leftarrow> rd p 2;
     let a = push_bit 14 a;
     let a = a OR ucast p2;
     if a AND 0x80 = 0 then
       (let a = a AND (push_bit 14 0x7f OR 0x7f); b = b AND 0x7f; b = push_bit 7 b
        in Some (3, a OR b)) else do {
     (n, v64) \<leftarrow> sqlite3GetVarint p;
     if v64 AND 0xffffffff \<noteq> v64 then Some (n, 0xffffffff) else Some (n, ucast v64)
     }}}"

definition getVarint32 :: "bytes \<Rightarrow> (nat \<times> u32) option" where
  "getVarint32 p = do {
     p0 \<leftarrow> rd p 0;
     if p0 < 0x80 then Some (1, ucast p0) else sqlite3GetVarint32 p
   }"

text \<open>The length loop runs at most nine times: its counter is the guard \<open>ALWAYS(i<9)\<close>.\<close>

function varintLenLoop :: "nat \<Rightarrow> u64 \<Rightarrow> nat" where
  "varintLenLoop i v =
     (let i' = Suc i; v' = drop_bit 7 v
      in if v' \<noteq> 0 \<and> i' < 9 then varintLenLoop i' v' else i')"
  by pat_completeness auto
termination
  by (relation "measure (\<lambda>(i, v). 9 - i)") auto

declare varintLenLoop.simps [simp del]

definition sqlite3VarintLen :: "u64 \<Rightarrow> nat" where
  "sqlite3VarintLen v = varintLenLoop 0 v"

section \<open>Four-byte integers\<close>

definition sqlite3Get4byte :: "bytes \<Rightarrow> u32 option" where
  "sqlite3Get4byte p = do {
     p0 \<leftarrow> rd p 0; p1 \<leftarrow> rd p 1; p2 \<leftarrow> rd p 2; p3 \<leftarrow> rd p 3;
     Some (push_bit 24 (ucast p0) OR push_bit 16 (ucast p1) OR push_bit 8 (ucast p2) OR ucast p3)
   }"

definition sqlite3Put4byte :: "u32 \<Rightarrow> bytes" where
  "sqlite3Put4byte v =
     [ucast (drop_bit 24 v), ucast (drop_bit 16 v), ucast (drop_bit 8 v), ucast v]"

section \<open>Reference decoder\<close>

text \<open>
  The format as the comment above the code states it: up to eight bytes carry seven bits each
  and a continuation flag, the ninth carries eight bits.
\<close>

fun varint_ref :: "nat \<Rightarrow> u64 \<Rightarrow> bytes \<Rightarrow> (nat \<times> u64) option" where
  "varint_ref i acc [] = None"
| "varint_ref i acc (b # bs) =
     (if i = 8 then Some (9, push_bit 8 acc OR ucast b)
      else if b AND 0x80 = 0 then Some (Suc i, push_bit 7 acc OR ucast b)
      else varint_ref (Suc i) (push_bit 7 acc OR ucast (b AND 0x7f)) bs)"

section \<open>Encoding and decoding are inverse\<close>

definition varint_group :: "u64 \<Rightarrow> nat \<Rightarrow> u8" where
  "varint_group v j = ucast ((drop_bit (7 * j) v AND 0x7f) OR 0x80)"

definition varint_groups :: "nat \<Rightarrow> u64 \<Rightarrow> bytes" where
  "varint_groups k v = map (varint_group v) (rev [0..<k])"

lemma and_7f_take_bit: "(w :: 'a :: len word) AND 0x7f = take_bit 7 w"
  using take_bit_eq_mask [of 7 w] by (simp add: mask_eq_exp_minus_1)

lemma varint_groups_0 [simp]: "varint_groups 0 v = []"
  by (simp add: varint_groups_def)

lemma varint_groups_Suc: "varint_groups (Suc k) v = varint_group v k # varint_groups k v"
  by (simp add: varint_groups_def)

lemma length_varint_groups [simp]: "length (varint_groups k v) = k"
  by (simp add: varint_groups_def)

lemma varint_group_drop: "varint_group (drop_bit 7 v) j = varint_group v (Suc j)"
  by (simp add: varint_group_def add.commute)

lemma varint_groups_snoc:
  "varint_groups (Suc k) v = varint_groups k (drop_bit 7 v) @ [varint_group v 0]"
  by (induction k) (simp_all add: varint_groups_Suc varint_group_drop)

lemma varint_group_flag [simp]: "bit (varint_group v j) 7"
  by (simp add: varint_group_def bit_simps)

lemma bit_80_u64: "bit (0x80 :: u64) n \<longleftrightarrow> n = 7"
  using bit_exp_iff [where 'a = u64, of 7 n] by auto

lemma bit_80_u8: "bit (0x80 :: u8) n \<longleftrightarrow> n = 7"
  using bit_exp_iff [where 'a = u8, of 7 n] by auto

lemma bit_80_int: "bit (0x80 :: int) n \<longleftrightarrow> n = 7"
  using bit_exp_iff [where 'a = int, of 7 n] by auto

lemma varint_group_value:
  "ucast (varint_group v j AND 0x7f) = take_bit 7 (drop_bit (7 * j) v)"
  by (rule bit_word_eqI)
    (auto simp: varint_group_def and_7f_take_bit bit_80_u64 bit_80_u8 bit_80_int bit_simps)

text \<open>Reading \<open>k\<close> continuation bytes appends \<open>7 * k\<close> bits to the accumulator.\<close>

lemma varint_ref_groups:
  "i + k \<le> 8 \<Longrightarrow>
   varint_ref i acc (varint_groups k v @ rest) =
   varint_ref (i + k) (push_bit (7 * k) acc OR take_bit (7 * k) v) rest"
proof (induction k arbitrary: i acc)
  case 0
  then show ?case by simp
next
  case (Suc k)
  let ?acc = "push_bit 7 acc OR take_bit 7 (drop_bit (7 * k) v)"
  have "varint_ref i acc (varint_groups (Suc k) v @ rest) =
        varint_ref (Suc i) ?acc (varint_groups k v @ rest)"
    using Suc.prems by (simp add: varint_groups_Suc and_80_u8 varint_group_value)
  also have "\<dots> = varint_ref (Suc i + k) (push_bit (7 * k) ?acc OR take_bit (7 * k) v) rest"
    using Suc.prems by (intro Suc.IH) simp
  also have "push_bit (7 * k) ?acc OR take_bit (7 * k) v =
             push_bit (7 * k + 7) acc OR take_bit (7 * k + 7) v"
    by (rule bit_word_eqI) (auto simp: bit_simps)
  finally show ?case by (simp add: add.commute)
qed

lemma putVarint9_groups: "putVarint9 k v acc = varint_groups k v @ acc"
  by (induction k arbitrary: v acc) (simp_all add: varint_groups_snoc varint_group_def)

lemma putVarintBuf_groups:
  "putVarintBuf v = rev (varint_groups (length (putVarintBuf v)) v)"
proof (induction v rule: putVarintBuf.induct)
  case (1 v)
  show ?case
  proof (cases "drop_bit 7 v = 0")
    case True
    then show ?thesis
      by (simp add: putVarintBuf.simps [of v] varint_groups_snoc varint_group_def)
  next
    case False
    with "1.IH" have "putVarintBuf (drop_bit 7 v) =
        rev (varint_groups (length (putVarintBuf (drop_bit 7 v))) (drop_bit 7 v))" by simp
    with False show ?thesis
      by (simp add: putVarintBuf.simps [of v] varint_groups_snoc varint_group_def)
  qed
qed

lemma putVarintBuf_length:
  "0 < length (putVarintBuf v) \<and> drop_bit (7 * length (putVarintBuf v)) v = 0 \<and>
   (1 < length (putVarintBuf v) \<longrightarrow> drop_bit (7 * (length (putVarintBuf v) - 1)) v \<noteq> 0)"
proof (induction v rule: putVarintBuf.induct)
  case (1 v)
  show ?case
  proof (cases "drop_bit 7 v = 0")
    case True
    then show ?thesis by (simp add: putVarintBuf.simps [of v])
  next
    case False
    with "1.IH" have IH: "0 < length (putVarintBuf (drop_bit 7 v))"
      "drop_bit (7 * length (putVarintBuf (drop_bit 7 v))) (drop_bit 7 v) = 0"
      "1 < length (putVarintBuf (drop_bit 7 v)) \<longrightarrow>
         drop_bit (7 * (length (putVarintBuf (drop_bit 7 v)) - 1)) (drop_bit 7 v) \<noteq> 0"
      by simp_all
    have len: "length (putVarintBuf v) = Suc (length (putVarintBuf (drop_bit 7 v)))"
      using False by (simp add: putVarintBuf.simps [of v])
    show ?thesis
      using IH False unfolding len
      by (cases "length (putVarintBuf (drop_bit 7 v))") (auto simp: add.commute algebra_simps)
  qed
qed

lemma high_byte_zero: "(v :: u64) AND push_bit 32 0xff000000 = 0 \<longleftrightarrow> drop_bit 56 v = 0"
  (is "?l = 0 \<longleftrightarrow> _")
proof -
  have m: "push_bit 32 0xff000000 = (push_bit 56 (mask 8) :: u64)"
    by (simp add: mask_eq_exp_minus_1)
  have bits: "bit ?l n \<longleftrightarrow> 56 \<le> n \<and> bit v n" for n
    unfolding m using bit_imp_le_length [of v n] by (auto simp: bit_simps)
  show ?thesis
  proof
    assume "?l = 0"
    then have "\<not> bit v (56 + n)" for n using bits [of "56 + n"] by simp
    then show "drop_bit 56 v = 0" by (simp add: bit_eq_iff bit_simps)
  next
    assume "drop_bit 56 v = 0"
    then have "\<not> bit (drop_bit 56 v) n" for n by simp
    then have "\<not> bit v (56 + n)" for n by (simp add: bit_drop_bit_eq)
    then have "\<not> bit ?l n" for n using bits [of n] le_Suc_ex [of 56 n] by auto
    then show "?l = 0" by (intro bit_word_eqI) simp
  qed
qed

lemma putVarintBuf_short:
  assumes "drop_bit 56 v = 0"
  shows "length (putVarintBuf v) \<le> 8"
proof (rule ccontr)
  assume long: "\<not> length (putVarintBuf v) \<le> 8"
  define d where "d = 7 * (length (putVarintBuf v) - 1) - 56"
  have d: "7 * (length (putVarintBuf v) - 1) = d + 56"
    using long unfolding d_def by linarith
  have "drop_bit (d + 56) v = 0"
    using assms by (simp flip: drop_bit_drop_bit)
  with d long putVarintBuf_length [of v] show False by simp
qed

lemma putVarintBuf_long:
  assumes "drop_bit 56 v \<noteq> 0"
  shows "9 \<le> length (putVarintBuf v)"
proof (rule ccontr)
  assume "\<not> 9 \<le> length (putVarintBuf v)"
  moreover define d where "d = 56 - 7 * length (putVarintBuf v)"
  ultimately have d: "56 = d + 7 * length (putVarintBuf v)" by simp
  have "drop_bit 56 v = drop_bit d (drop_bit (7 * length (putVarintBuf v)) v)"
    by (simp add: d)
  with assms putVarintBuf_length [of v] show False by simp
qed

lemma putVarint_small:
  assumes "drop_bit 56 v = 0"
  shows "\<exists>k. length (putVarintBuf v) = Suc k \<and> k \<le> 7 \<and>
     sqlite3PutVarint v = varint_groups k (drop_bit 7 v) @ [varint_group v 0 AND 0x7f]"
proof -
  obtain k where k: "length (putVarintBuf v) = Suc k"
    using putVarintBuf_length [of v] by (cases "length (putVarintBuf v)") auto
  have buf: "putVarintBuf v = varint_group v 0 # rev (varint_groups k (drop_bit 7 v))"
    by (subst putVarintBuf_groups) (simp add: k varint_groups_snoc)
  have "sqlite3PutVarint v = rev ((putVarintBuf v)[0 := putVarintBuf v ! 0 AND 0x7f])"
    unfolding sqlite3PutVarint_def high_byte_zero using assms by (simp add: Let_def)
  also have "\<dots> = varint_groups k (drop_bit 7 v) @ [varint_group v 0 AND 0x7f]"
    by (simp add: buf)
  finally show ?thesis
    using k putVarintBuf_short [OF assms] by auto
qed

lemma putVarint_big:
  assumes "drop_bit 56 v \<noteq> 0"
  shows "sqlite3PutVarint v = varint_groups 8 (drop_bit 8 v) @ [ucast v]"
  unfolding sqlite3PutVarint_def high_byte_zero using assms by (simp add: putVarint9_groups)

lemma length_putVarint: "length (sqlite3PutVarint v) = min 9 (length (putVarintBuf v))"
proof (cases "drop_bit 56 v = 0")
  case True
  then show ?thesis using putVarint_small [OF True] by auto
next
  case False
  then show ?thesis using putVarintBuf_long [OF False] by (simp add: putVarint_big)
qed

lemma varintLenLoop_min: "i < 9 \<Longrightarrow> varintLenLoop i v = min 9 (i + length (putVarintBuf v))"
proof (induction i v rule: varintLenLoop.induct)
  case (1 i v)
  show ?case
  proof (cases "drop_bit 7 v \<noteq> 0 \<and> Suc i < 9")
    case True
    with 1 show ?thesis
      by (simp add: varintLenLoop.simps [of i] putVarintBuf.simps [of v])
  next
    case False
    with 1 show ?thesis
      by (auto simp: varintLenLoop.simps [of i] putVarintBuf.simps [of v])
  qed
qed

lemma take_bit_of_drop: "drop_bit n v = 0 \<Longrightarrow> take_bit n v = (v :: 'a :: len word)"
  by (metis bits_ident push_bit_of_0 add_0)

lemma varint_ref_putVarint:
  "varint_ref 0 0 (sqlite3PutVarint v @ rest) = Some (length (sqlite3PutVarint v), v)"
proof (cases "drop_bit 56 v = 0")
  case True
  then obtain k where k: "length (putVarintBuf v) = Suc k" "k \<le> 7"
    and put: "sqlite3PutVarint v = varint_groups k (drop_bit 7 v) @ [varint_group v 0 AND 0x7f]"
    using putVarint_small by blast
  have "drop_bit (7 * k + 7) v = 0"
    using putVarintBuf_length [of v] k by (simp add: add.commute)
  then have "take_bit (7 * k + 7) v = v" by (rule take_bit_of_drop)
  moreover have "push_bit 7 (take_bit (7 * k) (drop_bit 7 v)) OR take_bit 7 v = take_bit (7 * k + 7) v"
    by (rule bit_word_eqI) (auto simp: bit_simps)
  ultimately show ?thesis
    using k by (simp add: put varint_ref_groups and_80_u8 bit_simps varint_group_value [of v 0, simplified])
next
  case False
  have "push_bit 8 (take_bit 56 (drop_bit 8 v)) OR ucast (ucast v :: u8) = v"
    by (rule bit_word_eqI) (auto simp: bit_simps)
  with False show ?thesis
    by (simp add: putVarint_big varint_ref_groups)
qed

section \<open>The 32-bit variants\<close>

lemma u8_less_80: "(x :: u8) < 0x80 \<longleftrightarrow> \<not> bit x 7"
proof -
  have "bit x 7 \<longleftrightarrow> bit (unat x) 7"
    by (simp add: bit_simps)
  also have "\<dots> \<longleftrightarrow> odd (unat x div 128)"
    by (simp add: bit_iff_odd)
  also have "unat x div 128 = (if 128 \<le> unat x then 1 else 0)"
    using unat_u8_less [of x] by (auto intro!: div_nat_eqI)
  also have "odd (if 128 \<le> unat x then 1 else 0 :: nat) \<longleftrightarrow> 128 \<le> unat x"
    by simp
  finally show ?thesis by (simp add: word_less_nat_alt linorder_not_le)
qed

lemma u32_less_80: "(x :: u32) < 0x80 \<longleftrightarrow> drop_bit 7 x = 0"
  by (simp add: word_less_nat_alt drop_bit_eq_div word_unat_eq_iff unat_div div_eq_0_iff)

text \<open>The value \<open>sqlite3GetVarint32\<close> stores when the varint has the 64-bit value \<open>v\<close>.\<close>

definition saturate32 :: "u64 \<Rightarrow> u32" where
  "saturate32 v = (if v AND 0xffffffff \<noteq> v then 0xffffffff else ucast v)"

lemma and_ffffffff: "(v :: u64) AND 0xffffffff = take_bit 32 v"
  using take_bit_eq_mask [of 32 v] by (simp add: mask_eq_exp_minus_1)

lemma saturate32_ucast [simp]: "saturate32 (ucast (a :: u32)) = a"
proof -
  have "take_bit 32 (ucast a :: u64) = ucast a"
    by (rule bit_word_eqI) (auto simp: bit_simps dest: bit_u32_less)
  then show ?thesis by (simp add: saturate32_def and_ffffffff)
qed

lemma getVarint32_eq:
  "getVarint32 p = map_option (\<lambda>(n, v). (n, saturate32 v)) (sqlite3GetVarint p)"
proof (cases p)
  case Nil
  then show ?thesis by (simp add: getVarint32_def sqlite3GetVarint_def)
next
  case p: (Cons b0 q)
  show ?thesis
  proof (cases "bit b0 7")
    case False
    have "ucast b0 = (ucast (ucast b0 :: u32) :: u64)"
      by (rule bit_word_eqI) (auto simp: bit_simps dest: bit_u8_less)
    with False p show ?thesis
      by (simp add: getVarint32_def sqlite3GetVarint_def u8_less_80 and_80_u32 bit_simps)
  next
    case b0: True
    show ?thesis
    proof (cases "\<exists>b1 b2 r. q = b1 # b2 # r \<and> bit b1 7 \<and> bit b2 7")
      case True
      then obtain b1 b2 r where q: "q = b1 # b2 # r" "bit b1 7" "bit b2 7" by blast
      show ?thesis
      proof -
        have "getVarint32 p = sqlite3GetVarint p \<bind>
            (\<lambda>(n, v). if v AND 0xffffffff \<noteq> v then Some (n, 0xffffffff) else Some (n, ucast v))"
          using b0 p q
          by (simp add: getVarint32_def sqlite3GetVarint32_def u8_less_80 and_80_u32 Let_def bit_simps)
        then show ?thesis
          by (cases "sqlite3GetVarint p") (auto simp: saturate32_def)
      qed
    next
      case False
      then consider "q = []" | b1 r where "q = b1 # r" "\<not> bit b1 7" | b1 where "q = [b1]" "bit b1 7"
        | b1 b2 r where "q = b1 # b2 # r" "bit b1 7" "\<not> bit b2 7"
        by (metis list.exhaust)
      then show ?thesis
        using b0 p
        by cases (simp_all add: getVarint32_def sqlite3GetVarint32_def sqlite3GetVarint_def
            u8_less_80 and_80_u32 Let_def bit_simps)
    qed
  qed
qed

lemma putVarint32_eq: "putVarint32 v = sqlite3PutVarint (ucast v)"
proof -
  let ?w = "ucast v :: u64"
  have bit_w: "bit ?w n \<longleftrightarrow> bit v n" for n
    by (auto simp: bit_simps dest: bit_u32_less)
  have d: "drop_bit n ?w = 0 \<longleftrightarrow> drop_bit n v = 0" for n
    by (simp add: drop_bit_0_iff bit_w)
  have hi: "drop_bit 56 ?w = 0"
    by (rule bit_word_eqI) (auto simp: bit_simps dest: bit_u32_less)
  have put: "sqlite3PutVarint ?w = rev ((putVarintBuf ?w)[0 := putVarintBuf ?w ! 0 AND 0x7f])"
    unfolding sqlite3PutVarint_def high_byte_zero using hi by (simp add: Let_def)
  have m: "v AND NOT 0x3fff = 0 \<longleftrightarrow> drop_bit 14 v = 0"
  proof -
    have "0x3fff = (mask 14 :: u32)" by (simp add: mask_eq_exp_minus_1)
    then show ?thesis
      by (auto simp only: drop_bit_0_iff)
        (auto simp: bit_eq_iff bit_simps dest: bit_u32_less)
  qed
  show ?thesis
  proof (cases "drop_bit 7 v = 0")
    case True
    then have "\<not> bit v 7" by (simp add: drop_bit_0_iff)
    then have "(ucast v :: u8) = ucast ((?w AND 0x7f) OR 0x80) AND 0x7f"
      by (intro bits_8, simp only: list.pred_inject, intro conjI TrueI; simp add: wbits)
    with True show ?thesis
      by (simp add: putVarint32_def u32_less_80 put putVarintBuf.simps d)
  next
    case False
    show ?thesis
    proof (cases "drop_bit 14 v = 0")
      case True
      have "ucast (drop_bit 7 v OR 0x80) = (ucast ((drop_bit 7 ?w AND 0x7f) OR 0x80) :: u8)"
        "(ucast (v AND 0x7f) :: u8) = ucast ((?w AND 0x7f) OR 0x80) AND 0x7f"
        by (rule bits_8, simp only: list.pred_inject, intro conjI TrueI; simp add: wbits)+
      with True False show ?thesis
        by (simp add: putVarint32_def sqlite3PutVarint32_def u32_less_80 put m [simplified]
            putVarintBuf.simps [of ?w] putVarintBuf.simps [of "drop_bit 7 ?w"] d)
    next
      case long: False
      with False show ?thesis
        by (simp add: putVarint32_def sqlite3PutVarint32_def u32_less_80 m [simplified])
    qed
  qed
qed

section \<open>Four-byte integers\<close>

lemma length_put4byte [simp]: "length (sqlite3Put4byte v) = 4"
  by (simp add: sqlite3Put4byte_def)

lemma get4byte_put4byte [simp]: "sqlite3Get4byte (sqlite3Put4byte v @ rest) = Some v"
proof -
  have "push_bit 24 (ucast (ucast (drop_bit 24 v) :: u8)) OR push_bit 16 (ucast (ucast (drop_bit 16 v) :: u8))
      OR push_bit 8 (ucast (ucast (drop_bit 8 v) :: u8)) OR ucast (ucast v :: u8) = v"
    by (rule bits_32, simp only: list.pred_inject, intro conjI TrueI; simp add: wbits)
  then show ?thesis by (simp add: sqlite3Get4byte_def sqlite3Put4byte_def)
qed

lemma put4byte_get4byte:
  assumes "sqlite3Get4byte p = Some v"
  shows "take 4 p = sqlite3Put4byte v"
proof -
  from assms have "4 \<le> length p"
    by (auto simp: sqlite3Get4byte_def rd_def split: if_splits)
  then obtain a b c d q where p: "p = a # b # c # d # q"
    by (auto simp: Suc_le_length_iff numeral_eq_Suc)
  let ?w = "push_bit 24 (ucast a) OR push_bit 16 (ucast b) OR push_bit 8 (ucast c) OR ucast d :: u32"
  have "ucast (drop_bit 24 ?w) = a" "ucast (drop_bit 16 ?w) = b" "ucast (drop_bit 8 ?w) = c" "ucast ?w = d"
    by (rule bits_8, simp only: list.pred_inject, intro conjI TrueI; simp add: wbits)+
  with assms show ?thesis
    by (auto simp: p sqlite3Get4byte_def sqlite3Put4byte_def)
qed

section \<open>Length of a decoded varint\<close>

lemma varint_ref_bounds:
  "varint_ref i acc p = Some (n, v) \<Longrightarrow> i \<le> 8 \<Longrightarrow> drop_bit (7 * i) acc = 0 \<Longrightarrow>
   i < n \<and> n \<le> 9 \<and> n \<le> i + length p \<and> (n < 9 \<longrightarrow> drop_bit (7 * n) v = 0)"
proof (induction i acc p rule: varint_ref.induct)
  case (1 i acc)
  then show ?case by simp
next
  case (2 i acc b bs)
  have z: "drop_bit (7 * Suc i) (push_bit 7 acc OR ucast (b AND 0x7f)) = 0" for b :: u8
  proof -
    have "\<not> bit acc j" if "7 * i \<le> j" for j
      using "2.prems"(3) that by (simp add: drop_bit_0_iff)
    then show ?thesis
      unfolding drop_bit_0_iff and_7f_take_bit by (auto simp: bit_simps)
  qed
  show ?case
  proof (cases "i = 8")
    case True
    with "2.prems" show ?thesis by simp
  next
    case False
    show ?thesis
    proof (cases "bit b 7")
      case True
      with False "2.prems" "2.IH" z [of b] show ?thesis by (auto simp: and_80_u8)
    next
      case stop: False
      then have "(ucast (b AND 0x7f) :: u64) = ucast b"
        by (intro bits_64, simp only: list.pred_inject, intro conjI TrueI; simp add: wbits)
      with False stop "2.prems" z [of b] show ?thesis by (auto simp: and_80_u8)
    qed
  qed
qed

lemma varintLen_eq: "sqlite3VarintLen v = length (sqlite3PutVarint v)"
  by (simp add: sqlite3VarintLen_def varintLenLoop_min length_putVarint)

lemma varintLen_le: "drop_bit (7 * n) v = 0 \<Longrightarrow> 0 < n \<Longrightarrow> sqlite3VarintLen v \<le> n"
proof (rule ccontr)
  assume z: "drop_bit (7 * n) v = 0" and n: "0 < n" and "\<not> sqlite3VarintLen v \<le> n"
  then have l: "n < length (putVarintBuf v)"
    by (simp add: varintLen_eq length_putVarint)
  then have "drop_bit (7 * (length (putVarintBuf v) - 1)) v \<noteq> 0"
    using putVarintBuf_length [of v] n by auto
  moreover have "7 * n \<le> 7 * (length (putVarintBuf v) - 1)"
    using l by simp
  ultimately show False using z by (auto simp: drop_bit_0_iff)
qed

lemma saturate32_compare: "saturate32 v = (if v > 0xffffffff then 0xffffffff else ucast v)"
proof -
  have "take_bit 32 v = v \<longleftrightarrow> unat v mod 2 ^ 32 = unat v"
    by (simp add: word_unat_eq_iff take_bit_eq_mod unat_mod)
  also have "\<dots> \<longleftrightarrow> unat v < 2 ^ 32"
    by (metis mod_less mod_less_divisor zero_less_numeral zero_less_power)
  also have "\<dots> \<longleftrightarrow> \<not> v > 0xffffffff"
    by (simp add: word_less_nat_alt) linarith
  finally show ?thesis by (simp add: saturate32_def and_ffffffff)
qed

end
