(* ===== verification/Varint_Decode.thy ===== *)
theory Varint_Decode
  imports Varint
begin

text \<open>
  The decoder \<open>sqlite3GetVarint\<close> of \<^verbatim>\<open>util.c\<close> is unrolled by hand over two interleaved 32-bit
  accumulators. This theory shows, exit by exit, that it computes the reference decoder, and
  states the properties of the varint code.
\<close>

section \<open>The unrolled decoder equals the reference decoder\<close>

text \<open>
  One lemma per exit of the code: the eight early returns, the reads that would leave a buffer
  that ends inside a varint, and the nine-byte case.
\<close>

lemmas getVarint_unfold = sqlite3GetVarint_def Let_def and_80_u32 and_80_u8

lemma getVarint_stop:
  shows "\<lbrakk>\<not> bit b0 7\<rbrakk> \<Longrightarrow>
     sqlite3GetVarint (b0 # p) = varint_ref 0 0 (b0 # p)"
    and "\<lbrakk>bit b0 7; \<not> bit b1 7\<rbrakk> \<Longrightarrow>
     sqlite3GetVarint (b0 # b1 # p) = varint_ref 0 0 (b0 # b1 # p)"
    and "\<lbrakk>bit b0 7; bit b1 7; \<not> bit b2 7\<rbrakk> \<Longrightarrow>
     sqlite3GetVarint (b0 # b1 # b2 # p) = varint_ref 0 0 (b0 # b1 # b2 # p)"
    and "\<lbrakk>bit b0 7; bit b1 7; bit b2 7; \<not> bit b3 7\<rbrakk> \<Longrightarrow>
     sqlite3GetVarint (b0 # b1 # b2 # b3 # p) = varint_ref 0 0 (b0 # b1 # b2 # b3 # p)"
    and "\<lbrakk>bit b0 7; bit b1 7; bit b2 7; bit b3 7; \<not> bit b4 7\<rbrakk> \<Longrightarrow>
     sqlite3GetVarint (b0 # b1 # b2 # b3 # b4 # p) = varint_ref 0 0 (b0 # b1 # b2 # b3 # b4 # p)"
    and "\<lbrakk>bit b0 7; bit b1 7; bit b2 7; bit b3 7; bit b4 7; \<not> bit b5 7\<rbrakk> \<Longrightarrow>
     sqlite3GetVarint (b0 # b1 # b2 # b3 # b4 # b5 # p) = varint_ref 0 0 (b0 # b1 # b2 # b3 # b4 # b5 # p)"
    and "\<lbrakk>bit b0 7; bit b1 7; bit b2 7; bit b3 7; bit b4 7; bit b5 7; \<not> bit b6 7\<rbrakk> \<Longrightarrow>
     sqlite3GetVarint (b0 # b1 # b2 # b3 # b4 # b5 # b6 # p) = varint_ref 0 0 (b0 # b1 # b2 # b3 # b4 # b5 # b6 # p)"
    and "\<lbrakk>bit b0 7; bit b1 7; bit b2 7; bit b3 7; bit b4 7; bit b5 7; bit b6 7; \<not> bit b7 7\<rbrakk> \<Longrightarrow>
     sqlite3GetVarint (b0 # b1 # b2 # b3 # b4 # b5 # b6 # b7 # p) = varint_ref 0 0 (b0 # b1 # b2 # b3 # b4 # b5 # b6 # b7 # p)"
  by (simp_all add: getVarint_unfold wbits,
      simp_all only: join64_def,
      (rule bits_64, simp only: list.pred_inject, intro conjI TrueI; simp add: wbits)+)

lemma getVarint_short:
  shows "\<lbrakk>bit b0 7\<rbrakk> \<Longrightarrow> sqlite3GetVarint [b0] = varint_ref 0 0 [b0]"
    and "\<lbrakk>bit b0 7; bit b1 7\<rbrakk> \<Longrightarrow> sqlite3GetVarint [b0, b1] = varint_ref 0 0 [b0, b1]"
    and "\<lbrakk>bit b0 7; bit b1 7; bit b2 7\<rbrakk> \<Longrightarrow> sqlite3GetVarint [b0, b1, b2] = varint_ref 0 0 [b0, b1, b2]"
    and "\<lbrakk>bit b0 7; bit b1 7; bit b2 7; bit b3 7\<rbrakk> \<Longrightarrow> sqlite3GetVarint [b0, b1, b2, b3] = varint_ref 0 0 [b0, b1, b2, b3]"
    and "\<lbrakk>bit b0 7; bit b1 7; bit b2 7; bit b3 7; bit b4 7\<rbrakk> \<Longrightarrow> sqlite3GetVarint [b0, b1, b2, b3, b4] = varint_ref 0 0 [b0, b1, b2, b3, b4]"
    and "\<lbrakk>bit b0 7; bit b1 7; bit b2 7; bit b3 7; bit b4 7; bit b5 7\<rbrakk> \<Longrightarrow> sqlite3GetVarint [b0, b1, b2, b3, b4, b5] = varint_ref 0 0 [b0, b1, b2, b3, b4, b5]"
    and "\<lbrakk>bit b0 7; bit b1 7; bit b2 7; bit b3 7; bit b4 7; bit b5 7; bit b6 7\<rbrakk> \<Longrightarrow> sqlite3GetVarint [b0, b1, b2, b3, b4, b5, b6] = varint_ref 0 0 [b0, b1, b2, b3, b4, b5, b6]"
    and "\<lbrakk>bit b0 7; bit b1 7; bit b2 7; bit b3 7; bit b4 7; bit b5 7; bit b6 7; bit b7 7\<rbrakk> \<Longrightarrow> sqlite3GetVarint [b0, b1, b2, b3, b4, b5, b6, b7] = varint_ref 0 0 [b0, b1, b2, b3, b4, b5, b6, b7]"
  by (simp_all add: getVarint_unfold wbits)

lemma getVarint_nil: "sqlite3GetVarint [] = varint_ref 0 0 []"
  by (simp add: sqlite3GetVarint_def)

lemma getVarint_nine:
  "\<lbrakk>bit b0 7; bit b1 7; bit b2 7; bit b3 7; bit b4 7; bit b5 7; bit b6 7; bit b7 7\<rbrakk> \<Longrightarrow>
     sqlite3GetVarint (b0 # b1 # b2 # b3 # b4 # b5 # b6 # b7 # b8 # p) = varint_ref 0 0 (b0 # b1 # b2 # b3 # b4 # b5 # b6 # b7 # b8 # p)"
  by (simp add: getVarint_unfold wbits, simp only: join64_def,
      rule bits_64, simp only: list.pred_inject, intro conjI TrueI; simp add: wbits)

lemma getVarint_ref: "sqlite3GetVarint p = varint_ref 0 0 p"
proof -
  let ?Q = "\<lambda>p. sqlite3GetVarint p = varint_ref 0 0 p"
  have q8: "\<lbrakk>bit b0 7; bit b1 7; bit b2 7; bit b3 7; bit b4 7; bit b5 7; bit b6 7; bit b7 7\<rbrakk> \<Longrightarrow>
      ?Q (b0 # b1 # b2 # b3 # b4 # b5 # b6 # b7 # q)" for b0 b1 b2 b3 b4 b5 b6 b7 q
    by (cases q) (simp_all only: simp_thms getVarint_short(8) getVarint_nine)
  have q7: "\<lbrakk>bit b0 7; bit b1 7; bit b2 7; bit b3 7; bit b4 7; bit b5 7; bit b6 7\<rbrakk> \<Longrightarrow> ?Q (b0 # b1 # b2 # b3 # b4 # b5 # b6 # q)"
    for b0 b1 b2 b3 b4 b5 b6 q
    by (cases q; cases "bit (hd q) 7") (simp_all only: simp_thms list.sel getVarint_short(7) getVarint_stop(8) q8)
  have q6: "\<lbrakk>bit b0 7; bit b1 7; bit b2 7; bit b3 7; bit b4 7; bit b5 7\<rbrakk> \<Longrightarrow> ?Q (b0 # b1 # b2 # b3 # b4 # b5 # q)"
    for b0 b1 b2 b3 b4 b5 q
    by (cases q; cases "bit (hd q) 7") (simp_all only: simp_thms list.sel getVarint_short(6) getVarint_stop(7) q7)
  have q5: "\<lbrakk>bit b0 7; bit b1 7; bit b2 7; bit b3 7; bit b4 7\<rbrakk> \<Longrightarrow> ?Q (b0 # b1 # b2 # b3 # b4 # q)"
    for b0 b1 b2 b3 b4 q
    by (cases q; cases "bit (hd q) 7") (simp_all only: simp_thms list.sel getVarint_short(5) getVarint_stop(6) q6)
  have q4: "\<lbrakk>bit b0 7; bit b1 7; bit b2 7; bit b3 7\<rbrakk> \<Longrightarrow> ?Q (b0 # b1 # b2 # b3 # q)"
    for b0 b1 b2 b3 q
    by (cases q; cases "bit (hd q) 7") (simp_all only: simp_thms list.sel getVarint_short(4) getVarint_stop(5) q5)
  have q3: "\<lbrakk>bit b0 7; bit b1 7; bit b2 7\<rbrakk> \<Longrightarrow> ?Q (b0 # b1 # b2 # q)"
    for b0 b1 b2 q
    by (cases q; cases "bit (hd q) 7") (simp_all only: simp_thms list.sel getVarint_short(3) getVarint_stop(4) q4)
  have q2: "\<lbrakk>bit b0 7; bit b1 7\<rbrakk> \<Longrightarrow> ?Q (b0 # b1 # q)"
    for b0 b1 q
    by (cases q; cases "bit (hd q) 7") (simp_all only: simp_thms list.sel getVarint_short(2) getVarint_stop(3) q3)
  have q1: "\<lbrakk>bit b0 7\<rbrakk> \<Longrightarrow> ?Q (b0 # q)"
    for b0 q
    by (cases q; cases "bit (hd q) 7") (simp_all only: simp_thms list.sel getVarint_short(1) getVarint_stop(2) q2)
  show ?thesis
    by (cases p; cases "bit (hd p) 7")
      (simp_all only: simp_thms list.sel getVarint_nil getVarint_stop(1) q1)
qed

section \<open>Properties\<close>

text \<open>C34. The unrolled decoder agrees with the documented format on every buffer: same value, same
  number of bytes, and it reads past the end of the buffer exactly when the format needs a byte
  that is not there.\<close>

theorem sqlite3GetVarint_correct: "sqlite3GetVarint p = varint_ref 0 0 p"
  by (rule getVarint_ref)

text \<open>C35. Decoding the bytes written by \<open>sqlite3PutVarint\<close> gives the value back, whatever follows
  them; the number of bytes written, the number read and \<open>sqlite3VarintLen\<close> agree and lie between
  one and nine.\<close>

theorem sqlite3PutVarint_roundtrip:
  "sqlite3GetVarint (sqlite3PutVarint v @ rest) = Some (sqlite3VarintLen v, v) \<and>
   length (sqlite3PutVarint v) = sqlite3VarintLen v \<and>
   1 \<le> sqlite3VarintLen v \<and> sqlite3VarintLen v \<le> 9"
proof -
  have "1 \<le> length (putVarintBuf v)"
    using putVarintBuf_length [of v] by linarith
  then show ?thesis
    by (simp add: getVarint_ref varint_ref_putVarint varintLen_eq length_putVarint)
qed

text \<open>The encoding is minimal: no byte sequence that decodes to \<open>v\<close> is shorter than the one
  \<open>sqlite3PutVarint\<close> writes, and the decoder never looks at more than nine bytes.\<close>

theorem sqlite3PutVarint_minimal:
  assumes "sqlite3GetVarint p = Some (n, v)"
  shows "sqlite3VarintLen v \<le> n \<and> n \<le> 9 \<and> n \<le> length p"
proof -
  from assms have "varint_ref 0 0 p = Some (n, v)" by (simp add: getVarint_ref)
  then have b: "0 < n" "n \<le> 9" "n \<le> length p" "n < 9 \<longrightarrow> drop_bit (7 * n) v = 0"
    using varint_ref_bounds [of 0 0 p n v] by simp_all
  have "sqlite3VarintLen v \<le> n"
  proof (cases "n < 9")
    case True
    with b show ?thesis by (intro varintLen_le) simp_all
  next
    case False
    with b show ?thesis by (simp add: varintLen_eq length_putVarint)
  qed
  with b show ?thesis by simp
qed

theorem sqlite3PutVarint_minimal_witness:
  "sqlite3GetVarint [0x80, 0x01] = Some (2, 1) \<and> sqlite3VarintLen 1 \<le> 2"
proof -
  have h: "sqlite3GetVarint [0x80, 0x01] = Some (2, 1)"
    by (simp add: sqlite3GetVarint_def)
  show ?thesis using h sqlite3PutVarint_minimal [OF h] by simp
qed

text \<open>The 32-bit encoder with its inlined one-byte case writes the same bytes as the 64-bit
  encoder, and the 32-bit decoder returns the same length as the 64-bit decoder and its value
  clamped to \<open>0xffffffff\<close>.\<close>

theorem varint32_equivalent:
  "putVarint32 w = sqlite3PutVarint (ucast w) \<and>
   getVarint32 p = map_option (\<lambda>(n, v). (n, if v > 0xffffffff then 0xffffffff else ucast v))
     (sqlite3GetVarint p)"
  unfolding putVarint32_eq getVarint32_eq saturate32_compare by simp

end
