(* ===== verification/Probing.thy ===== *)
theory Probing
  imports Prelude
begin

text \<open>
  Open-addressing hash tables with linear probing, as used by two components: the hash form of a
  \<^verbatim>\<open>Bitvec\<close> (\<^verbatim>\<open>bitvec.c\<close>) and the hash tables of the wal-index (\<^verbatim>\<open>wal.c\<close>). A table is a list of
  \<open>N\<close> slots, 0 marks an unused slot, and an entry sits in the first slot that was unused when the
  probe sequence of its home slot reached it. The locale \<open>probing\<close> states what a client has to
  provide, the home slot of every entry, and proves once what both clients need: a scan from the
  home slot meets every stored entry, and a store into the slot where a probe stopped keeps the
  table well formed.
\<close>

section \<open>Probe sequences\<close>

definition slot :: "nat \<Rightarrow> nat \<Rightarrow> nat \<Rightarrow> nat" where
  "slot N h j = (h + j) mod N"

text \<open>
  \<open>probe_ok N home R a\<close>: every entry lies on the probe sequence of its home slot, and all slots
  passed on the way hold entries that are related to it by \<open>R\<close>.
\<close>

definition probe_ok :: "nat \<Rightarrow> (nat \<Rightarrow> nat) \<Rightarrow> (nat \<Rightarrow> nat \<Rightarrow> bool) \<Rightarrow> nat list \<Rightarrow> bool" where
  "probe_ok N home R a \<longleftrightarrow> length a = N \<and>
     (\<forall>k<N. a ! k \<noteq> 0 \<longrightarrow>
        (\<exists>d<N. slot N (home (a ! k)) d = k \<and>
           (\<forall>j<d. a ! slot N (home (a ! k)) j \<noteq> 0 \<and> R (a ! slot N (home (a ! k)) j) (a ! k))))"

text \<open>The entries a scan meets, in order, and the slot where it stops.\<close>

primrec scan :: "nat \<Rightarrow> nat \<Rightarrow> nat list \<Rightarrow> nat \<Rightarrow> nat list" where
  "scan N 0 a h = []"
| "scan N (Suc f) a h = (if a ! h = 0 then [] else a ! h # scan N f a (Suc h mod N))"

primrec free_slot :: "nat \<Rightarrow> nat \<Rightarrow> nat list \<Rightarrow> nat \<Rightarrow> nat option" where
  "free_slot N 0 a h = None"
| "free_slot N (Suc f) a h = (if a ! h = 0 then Some h else free_slot N f a (Suc h mod N))"

lemma slot_less [simp]: "0 < N \<Longrightarrow> slot N h j < N"
  by (simp add: slot_def)

lemma slot_0 [simp]: "h < N \<Longrightarrow> slot N h 0 = h"
  by (simp add: slot_def)

lemma slot_Suc: "slot N (Suc h mod N) j = slot N h (Suc j)"
  by (simp add: slot_def mod_add_left_eq)

lemma slot_surj: "\<lbrakk>h < N; k < N\<rbrakk> \<Longrightarrow> \<exists>d<N. slot N h d = k"
proof -
  assume h: "h < N" and k: "k < N"
  show ?thesis
  proof (cases "h \<le> k")
    case True
    with h k show ?thesis by (intro exI [of _ "k - h"]) (simp add: slot_def)
  next
    case False
    with h k show ?thesis by (intro exI [of _ "k + N - h"]) (simp add: slot_def)
  qed
qed

lemma slot_inj: "\<lbrakk>d < N; e < N; slot N h d = slot N h e\<rbrakk> \<Longrightarrow> d = e"
proof -
  assume d: "d < N" and e: "e < N" and eq: "slot N h d = slot N h e"
  have "slot N h x = (if h mod N + x < N then h mod N + x else h mod N + x - N)" if "x < N" for x
  proof -
    have "slot N h x = (h mod N + x) mod N" by (simp add: slot_def mod_add_left_eq)
    moreover have "h mod N < N" using that by simp
    ultimately show ?thesis
      using that by (cases "h mod N + x < N") (simp_all add: le_mod_geq)
  qed
  with d e eq show "d = e" by (simp split: if_splits)
qed

lemma scan_member:
  "\<lbrakk>h < N; d < f; a ! slot N h d \<noteq> 0; \<And>j. j < d \<Longrightarrow> a ! slot N h j \<noteq> 0\<rbrakk> \<Longrightarrow>
   scan N f a h ! d = a ! slot N h d \<and> d < length (scan N f a h)"
proof (induction f arbitrary: h d)
  case 0
  then show ?case by simp
next
  case (Suc f)
  show ?case
  proof (cases d)
    case 0
    with Suc.prems show ?thesis by simp
  next
    case d: (Suc e)
    have "a ! h \<noteq> 0" using Suc.prems(4) [of 0] Suc.prems(1) d by simp
    moreover have "Suc h mod N < N" using Suc.prems(1) by simp
    ultimately show ?thesis
      using Suc.IH [of "Suc h mod N" e] Suc.prems d by (simp add: slot_Suc)
  qed
qed

lemma scan_nth:
  "\<lbrakk>h < N; d < length (scan N f a h)\<rbrakk> \<Longrightarrow>
   scan N f a h ! d = a ! slot N h d \<and> d < f \<and> (\<forall>j\<le>d. a ! slot N h j \<noteq> 0)"
proof (induction f arbitrary: h d)
  case 0
  then show ?case by simp
next
  case (Suc f)
  then have nz: "a ! h \<noteq> 0" by (auto split: if_splits)
  show ?case
  proof (cases d)
    case 0
    with nz Suc.prems show ?thesis by simp
  next
    case d: (Suc e)
    with nz Suc have "scan N f a (Suc h mod N) ! e = a ! slot N (Suc h mod N) e \<and> e < f \<and>
        (\<forall>j\<le>e. a ! slot N (Suc h mod N) j \<noteq> 0)"
      by (intro Suc.IH) simp_all
    with nz d Suc.prems(1) show ?thesis
      by (auto simp: slot_Suc) (metis Suc_le_mono slot_0 old.nat.exhaust)
  qed
qed

lemma free_slot_Some:
  "\<lbrakk>h < N; free_slot N f a h = Some k\<rbrakk> \<Longrightarrow>
   \<exists>d<f. slot N h d = k \<and> a ! k = 0 \<and> (\<forall>j<d. a ! slot N h j \<noteq> 0)"
proof (induction f arbitrary: h)
  case 0
  then show ?case by simp
next
  case (Suc f)
  show ?case
  proof (cases "a ! h = 0")
    case True
    with Suc.prems show ?thesis by (intro exI [of _ 0]) simp
  next
    case False
    with Suc.prems obtain d where "d < f" "slot N (Suc h mod N) d = k" "a ! k = 0"
      "\<forall>j<d. a ! slot N (Suc h mod N) j \<noteq> 0"
      using Suc.IH [of "Suc h mod N"] by auto
    with False Suc.prems(1) show ?thesis
      by (intro exI [of _ "Suc d"]) (auto simp: slot_Suc less_Suc_eq_0_disj)
  qed
qed

lemma free_slot_exists:
  "\<lbrakk>h < N; d < f; a ! slot N h d = 0\<rbrakk> \<Longrightarrow> \<exists>k. free_slot N f a h = Some k"
proof (induction f arbitrary: h d)
  case 0
  then show ?case by simp
next
  case (Suc f)
  show ?case
  proof (cases d)
    case 0
    with Suc.prems show ?thesis by simp
  next
    case (Suc e)
    with Suc.prems Suc.IH [of "Suc h mod N" e] show ?thesis by (simp add: slot_Suc)
  qed
qed

section \<open>The interface and its consequences\<close>

locale probing =
  fixes N :: nat and home :: "nat \<Rightarrow> nat" and R :: "nat \<Rightarrow> nat \<Rightarrow> bool"
  assumes home_less: "home v < N"
begin

lemma N_pos: "0 < N"
  using home_less [of 0] by simp

lemma probe_ok_empty: "probe_ok N home R (replicate N 0)"
  by (simp add: probe_ok_def)

lemma scan_finds:
  assumes "probe_ok N home R a" "k < N" "a ! k \<noteq> 0"
  shows "a ! k \<in> set (scan N N a (home (a ! k)))"
proof -
  from assms obtain d where "d < N" "slot N (home (a ! k)) d = k"
    "\<forall>j<d. a ! slot N (home (a ! k)) j \<noteq> 0"
    unfolding probe_ok_def by blast
  then have "scan N N a (home (a ! k)) ! d = a ! k \<and> d < length (scan N N a (home (a ! k)))"
    using scan_member [of "home (a ! k)" N d N a] home_less assms(3) by metis
  then show ?thesis by (metis nth_mem)
qed

lemma scan_sound:
  assumes "length a = N" "h < N" "v \<in> set (scan N f a h)"
  shows "v \<noteq> 0 \<and> (\<exists>k<N. a ! k = v)"
proof -
  from assms(3) obtain d where "d < length (scan N f a h)" "scan N f a h ! d = v"
    by (auto simp: in_set_conv_nth)
  then show ?thesis
    using scan_nth [of h N d f a] assms(2) N_pos slot_less by (metis order_refl)
qed

lemma scan_iff:
  assumes "probe_ok N home R a" "v \<noteq> 0"
  shows "v \<in> set (scan N N a (home v)) \<longleftrightarrow> v \<in> set a"
proof
  assume "v \<in> set (scan N N a (home v))"
  with assms show "v \<in> set a"
    using scan_sound [of a "home v" v N] home_less by (auto simp: probe_ok_def in_set_conv_nth)
next
  assume "v \<in> set a"
  then obtain k where "k < length a" "a ! k = v" by (auto simp: in_set_conv_nth)
  with assms show "v \<in> set (scan N N a (home v))"
    using scan_finds [of a k] by (auto simp: probe_ok_def)
qed

lemma free_slot_found:
  assumes "k < N" "a ! k = 0" "h < N"
  shows "\<exists>k'. free_slot N N a h = Some k'"
  using slot_surj [OF assms(3,1)] free_slot_exists [OF assms(3)] assms(2) by auto

lemma probe_ok_store:
  assumes ok: "probe_ok N home R a" and free: "free_slot N N a (home v) = Some k" and v: "v \<noteq> 0"
    and R: "\<And>x. x \<in> set a \<Longrightarrow> x \<noteq> 0 \<Longrightarrow> R x v"
  shows "probe_ok N home R (a[k := v])"
proof -
  from ok have len: "length a = N" by (simp add: probe_ok_def)
  obtain d where d: "d < N" "slot N (home v) d = k" "a ! k = 0" "\<forall>j<d. a ! slot N (home v) j \<noteq> 0"
    using free_slot_Some [OF home_less free] by blast
  have kN: "k < N" using d(2) N_pos by auto
  have "\<exists>e<N. slot N (home (a[k := v] ! i)) e = i \<and>
      (\<forall>j<e. a[k := v] ! slot N (home (a[k := v] ! i)) j \<noteq> 0 \<and>
             R (a[k := v] ! slot N (home (a[k := v] ! i)) j) (a[k := v] ! i))"
    if i: "i < N" and nz: "a[k := v] ! i \<noteq> 0" for i
  proof (cases "i = k")
    case True
    have "a[k := v] ! slot N (home v) j = a ! slot N (home v) j \<and> R (a ! slot N (home v) j) v"
      if "j < d" for j
    proof -
      have "slot N (home v) j \<noteq> k" using d(3,4) that by auto
      moreover have "a ! slot N (home v) j \<in> set a" using len N_pos by (simp add: nth_mem)
      ultimately show ?thesis using R d(4) that by auto
    qed
    with True d len kN show ?thesis by (intro exI [of _ d]) auto
  next
    case False
    then have same: "a[k := v] ! i = a ! i" by simp
    with ok i nz obtain e where e: "e < N" "slot N (home (a ! i)) e = i"
      "\<forall>j<e. a ! slot N (home (a ! i)) j \<noteq> 0 \<and> R (a ! slot N (home (a ! i)) j) (a ! i)"
      unfolding probe_ok_def by metis
    have "a[k := v] ! slot N (home (a ! i)) j = a ! slot N (home (a ! i)) j" if "j < e" for j
    proof -
      have "slot N (home (a ! i)) j \<noteq> k" using d(3) e(3) that by auto
      then show ?thesis by simp
    qed
    with e show ?thesis unfolding same by (intro exI [of _ e]) auto
  qed
  with len show ?thesis unfolding probe_ok_def by simp
qed

end

end
