(* ===== verification/Bitvec.thy ===== *)
theory Bitvec
  imports Probing
begin

text \<open>
  The bitmaps of \<^verbatim>\<open>bitvec.c\<close>, which the pager uses to record the pages journalled by a
  transaction. A \<^verbatim>\<open>Bitvec\<close> holds bits 1 to \<^verbatim>\<open>iSize\<close> in one of three forms: a bitmap, a hash
  table of the set bits, or an array of sub-bitmaps of \<^verbatim>\<open>iDivisor\<close> bits each. The sizes are those
  of a build with 8-byte pointers. Sub-bitmaps are owned by their parent, so the pointer structure
  is a tree. The 32-bit fields are natural numbers; the one sum that can leave the 32-bit range, in the
  computation of \<^verbatim>\<open>iDivisor\<close>, has the type \<^verbatim>\<open>size_t\<close> of 64 bits and does not wrap around.
\<close>

section \<open>Data\<close>

abbreviation "BITVEC_SZ \<equiv> (512 :: nat)"
abbreviation "BITVEC_USIZE \<equiv> (((BITVEC_SZ - 3 * 4) div 8) * 8 :: nat)"
abbreviation "BITVEC_SZELEM \<equiv> (8 :: nat)"
abbreviation "BITVEC_NELEM \<equiv> (BITVEC_USIZE div 1 :: nat)"

definition BITVEC_NBIT :: nat where "BITVEC_NBIT = BITVEC_NELEM * BITVEC_SZELEM"
definition BITVEC_NINT :: nat where "BITVEC_NINT = BITVEC_USIZE div 4"
definition BITVEC_MXHASH :: nat where "BITVEC_MXHASH = BITVEC_NINT div 2"
definition BITVEC_NPTR :: nat where "BITVEC_NPTR = BITVEC_USIZE div 8"

definition BITVEC_HASH :: "nat \<Rightarrow> nat" where
  "BITVEC_HASH X = (X * 1) mod BITVEC_NINT"

datatype bitvec = Bitvec (iSize: nat) (nSet: nat) (iDivisor: nat) (u: bitvec_u)
and bitvec_u = aBitmap "u8 list" | aHash "nat list" | apSub "bitvec option list"

lemma size_sub_bitvec [termination_simp]:
  assumes "k < length ps" "ps ! k = Some q"
  shows "size q < Suc (Suc (size_list (size_option size) ps))"
proof -
  have "Some q \<in> set ps" using assms by (metis nth_mem)
  then have "size q < size_list (size_option size) ps"
    by (rule size_list_estimation) simp
  then show ?thesis by simp
qed

section \<open>Operations\<close>

text \<open>
  A fresh object is zeroed memory. Which member of the union the code reads first is decided by
  \<^verbatim>\<open>iSize\<close>, and the zeroed union is that member with all elements 0.
\<close>

definition sqlite3BitvecCreate :: "allocs \<Rightarrow> nat \<Rightarrow> bitvec option \<times> allocs" where
  "sqlite3BitvecCreate al sz =
     (case sqlite3_alloc al of (ok, al') \<Rightarrow>
        (if ok then Some (Bitvec sz 0 0
            (if sz \<le> BITVEC_NBIT then aBitmap (replicate BITVEC_NELEM 0)
             else aHash (replicate BITVEC_NINT 0)))
         else None, al'))"

text \<open>
  The probe loop of the test. The home slot and the table are fixed, so a loop that has not
  stopped after \<^verbatim>\<open>BITVEC_NINT\<close> rounds has seen every slot and never stops: \<open>None\<close>.
\<close>

primrec bitvecTestProbe :: "nat \<Rightarrow> nat list \<Rightarrow> nat \<Rightarrow> nat \<Rightarrow> bool option" where
  "bitvecTestProbe 0 a i h = None"
| "bitvecTestProbe (Suc n) a i h = do {
     x \<leftarrow> rd a h;
     if x = 0 then Some False
     else if x = i then Some True
     else bitvecTestProbe n a i ((h + 1) mod BITVEC_NINT)
   }"

text \<open>The descent through the sub-bitmaps, with the zero-based index \<open>i\<close>.\<close>

fun bitvecTestWalk :: "bitvec \<Rightarrow> nat \<Rightarrow> bool option" where
  "bitvecTestWalk (Bitvec sz ns d uu) i =
     (if d \<noteq> 0 then
        (case uu of
           apSub ps \<Rightarrow>
             (if i div d < length ps then
                (case ps ! (i div d) of
                   None \<Rightarrow> Some False
                 | Some p \<Rightarrow> bitvecTestWalk p (i mod d))
              else None)
         | _ \<Rightarrow> None)
      else if sz \<le> BITVEC_NBIT then
        (case uu of
           aBitmap m \<Rightarrow> do {
             w \<leftarrow> rd m (i div BITVEC_SZELEM);
             Some (w AND push_bit (i AND (BITVEC_SZELEM - 1)) 1 \<noteq> 0) }
         | _ \<Rightarrow> None)
      else
        (case uu of
           aHash a \<Rightarrow> bitvecTestProbe BITVEC_NINT a (i + 1) (BITVEC_HASH i)
         | _ \<Rightarrow> None))"

definition sqlite3BitvecTest :: "bitvec option \<Rightarrow> nat \<Rightarrow> bool option" where
  "sqlite3BitvecTest po i =
     (case po of
        None \<Rightarrow> Some False
      | Some p \<Rightarrow> if i > iSize p \<or> i = 0 then Some False else bitvecTestWalk p (i - 1))"

text \<open>
  The collision loop of the set operation, entered with a used slot: \<open>(True, h)\<close> when the value
  is found in slot \<open>h\<close>, \<open>(False, h)\<close> when \<open>h\<close> is the first unused slot.
\<close>

primrec bitvecSetProbe :: "nat \<Rightarrow> nat list \<Rightarrow> nat \<Rightarrow> nat \<Rightarrow> (bool \<times> nat) option" where
  "bitvecSetProbe 0 a i h = None"
| "bitvecSetProbe (Suc n) a i h = do {
     x \<leftarrow> rd a h;
     if x = i then Some (True, h) else do {
       let h1 = h + 1;
       let h2 = (if h1 \<ge> BITVEC_NINT then 0 else h1);
       y \<leftarrow> rd a h2;
       if y \<noteq> 0 then bitvecSetProbe n a i h2 else Some (False, h2) }
   }"

text \<open>\<^verbatim>\<open>rc |= ...\<close> on the two codes the operation returns, 0 and 7.\<close>

definition rc_or :: "rcode \<Rightarrow> rcode \<Rightarrow> rcode" where
  "rc_or r s = (if r = SQLITE_OK then s else r)"

text \<open>
  The part of the set operation that works on the hash form, up to the two labels it jumps to:
  the value is present, it goes to a slot (\<^verbatim>\<open>bitvec_set_end\<close>), or the table is to be subdivided
  (\<^verbatim>\<open>bitvec_set_rehash\<close> with \<^verbatim>\<open>nSet\<close> at the limit). Here \<open>i\<close> is the one-based value.
\<close>

datatype hash_step = Present | Store nat | Subdivide

definition bitvecHashStep :: "nat list \<Rightarrow> nat \<Rightarrow> nat \<Rightarrow> hash_step option" where
  "bitvecHashStep a ns i = do {
     let h = BITVEC_HASH (i - 1);
     x \<leftarrow> rd a h;
     if x = 0 then
       (if ns < BITVEC_NINT - 1 then Some (Store h)
        else Some (if ns \<ge> BITVEC_MXHASH then Subdivide else Store h))
     else do {
       (found, h) \<leftarrow> bitvecSetProbe BITVEC_NINT a i h;
       Some (if found then Present else if ns \<ge> BITVEC_MXHASH then Subdivide else Store h) }
   }"

text \<open>
  The loop that puts the old values into the subdivided bitmap, over the set operation \<open>f\<close>.
\<close>

primrec bitvecRehash :: "(allocs \<Rightarrow> bitvec \<Rightarrow> nat \<Rightarrow> (rcode \<times> bitvec \<times> allocs) option) \<Rightarrow>
    nat list \<Rightarrow> rcode \<Rightarrow> bitvec \<Rightarrow> allocs \<Rightarrow> (rcode \<times> bitvec \<times> allocs) option" where
  "bitvecRehash f [] rc p al = Some (rc, p, al)"
| "bitvecRehash f (v # vs) rc p al =
     (if v \<noteq> 0 then do {
        (rc', p', al') \<leftarrow> f al p v;
        bitvecRehash f vs (rc_or rc rc') p' al' }
      else bitvecRehash f vs rc p al)"

text \<open>
  The set operation. The loop over the sub-bitmaps and the recursive calls of the rehash branch
  are both recursive calls here; \<open>bitvecSet n\<close> allows \<open>n\<close> nested ones, and \<open>None\<close> means that
  the bound was reached or that the code would leave an array. Each level of the tree takes two.
\<close>

primrec bitvecSet :: "nat \<Rightarrow> allocs \<Rightarrow> bitvec \<Rightarrow> nat \<Rightarrow> (rcode \<times> bitvec \<times> allocs) option" where
  "bitvecSet 0 al p i1 = None"
| "bitvecSet (Suc n) al p i1 =
     (let i = i1 - 1; sz = iSize p; ns = nSet p; d = iDivisor p in
      if sz > BITVEC_NBIT \<and> d \<noteq> 0 then
        (case u p of
           apSub ps \<Rightarrow> do {
             let bin = i div d;
             let i = i mod d;
             sub \<leftarrow> rd ps bin;
             (case (case sub of None \<Rightarrow> sqlite3BitvecCreate al d | Some q \<Rightarrow> (Some q, al)) of
                (None, al') \<Rightarrow> Some (SQLITE_NOMEM, p, al')
              | (Some q, al') \<Rightarrow> do {
                  (rc, q', al'') \<leftarrow> bitvecSet n al' q (i + 1);
                  Some (rc, Bitvec sz ns d (apSub (ps[bin := Some q'])), al'') }) }
         | _ \<Rightarrow> None)
      else if sz \<le> BITVEC_NBIT then
        (case u p of
           aBitmap m \<Rightarrow> do {
             w \<leftarrow> rd m (i div BITVEC_SZELEM);
             Some (SQLITE_OK,
               Bitvec sz ns d (aBitmap (m[i div BITVEC_SZELEM :=
                 w OR push_bit (i AND (BITVEC_SZELEM - 1)) 1])), al) }
         | _ \<Rightarrow> None)
      else
        (case u p of
           aHash a \<Rightarrow> do {
             let i = i + 1;
             st \<leftarrow> bitvecHashStep a ns i;
             (case st of
                Present \<Rightarrow> Some (SQLITE_OK, p, al)
              | Store h \<Rightarrow> Some (SQLITE_OK, Bitvec sz (ns + 1) d (aHash (a[h := i])), al)
              | Subdivide \<Rightarrow>
                  (case sqlite3_alloc al of
                     (False, al') \<Rightarrow> Some (SQLITE_NOMEM, p, al')
                   | (True, al') \<Rightarrow> do {
                       let p' = Bitvec sz ns ((sz + BITVEC_NPTR - 1) div BITVEC_NPTR)
                                  (apSub (replicate BITVEC_NPTR None));
                       (rc, p'', al'') \<leftarrow> bitvecSet n al' p' i;
                       bitvecRehash (bitvecSet n) a rc p'' al'' })) }
         | _ \<Rightarrow> None))"

definition sqlite3BitvecSet :: "nat \<Rightarrow> allocs \<Rightarrow> bitvec option \<Rightarrow> nat \<Rightarrow>
    (rcode \<times> bitvec option \<times> allocs) option" where
  "sqlite3BitvecSet n al po i =
     (case po of
        None \<Rightarrow> Some (SQLITE_OK, None, al)
      | Some p \<Rightarrow> map_option (\<lambda>(rc, p', al'). (rc, Some p', al')) (bitvecSet n al p i))"

text \<open>The inner loop of the clear operation, which looks for an unused slot.\<close>

primrec bitvecClearProbe :: "nat \<Rightarrow> nat list \<Rightarrow> nat \<Rightarrow> nat option" where
  "bitvecClearProbe 0 a h = None"
| "bitvecClearProbe (Suc n) a h = do {
     x \<leftarrow> rd a h;
     if x \<noteq> 0 then
       (let h1 = h + 1 in bitvecClearProbe n a (if h1 \<ge> BITVEC_NINT then 0 else h1))
     else Some h
   }"

fun bitvecClearLoop :: "nat list \<Rightarrow> nat \<Rightarrow> nat \<Rightarrow> nat list \<Rightarrow> (nat \<times> nat list) option" where
  "bitvecClearLoop [] i ns a = Some (ns, a)"
| "bitvecClearLoop (v # vs) i ns a =
     (if v \<noteq> 0 \<and> v \<noteq> i + 1 then do {
        h \<leftarrow> bitvecClearProbe BITVEC_NINT a (BITVEC_HASH (v - 1));
        bitvecClearLoop vs i (ns + 1) (a[h := v]) }
      else bitvecClearLoop vs i ns a)"

fun bitvecClearWalk :: "bitvec \<Rightarrow> nat \<Rightarrow> bitvec option" where
  "bitvecClearWalk (Bitvec sz ns d uu) i =
     (if d \<noteq> 0 then
        (case uu of
           apSub ps \<Rightarrow>
             (if i div d < length ps then
                (case ps ! (i div d) of
                   None \<Rightarrow> Some (Bitvec sz ns d (apSub ps))
                 | Some p \<Rightarrow> map_option (\<lambda>p'. Bitvec sz ns d (apSub (ps[i div d := Some p'])))
                     (bitvecClearWalk p (i mod d)))
              else None)
         | _ \<Rightarrow> None)
      else if sz \<le> BITVEC_NBIT then
        (case uu of
           aBitmap m \<Rightarrow>
             (if i div BITVEC_SZELEM < length m then
                Some (Bitvec sz ns d (aBitmap (m[i div BITVEC_SZELEM :=
                  m ! (i div BITVEC_SZELEM) AND NOT (push_bit (i AND (BITVEC_SZELEM - 1)) 1)])))
              else None)
         | _ \<Rightarrow> None)
      else
        (case uu of
           aHash a \<Rightarrow>
             map_option (\<lambda>(ns', a'). Bitvec sz ns' d (aHash a'))
               (bitvecClearLoop a i 0 (replicate BITVEC_NINT 0))
         | _ \<Rightarrow> None))"

definition sqlite3BitvecClear :: "bitvec option \<Rightarrow> nat \<Rightarrow> bitvec option option" where
  "sqlite3BitvecClear po i =
     (case po of
        None \<Rightarrow> Some None
      | Some p \<Rightarrow> map_option Some (bitvecClearWalk p (i - 1)))"

definition sqlite3BitvecSize :: "bitvec \<Rightarrow> nat" where
  "sqlite3BitvecSize p = iSize p"

section \<open>The hash form\<close>

lemma bitvec_consts:
  "BITVEC_NINT = 124" "BITVEC_NBIT = 3968" "BITVEC_MXHASH = 62" "BITVEC_NPTR = 62"
  by (simp_all add: BITVEC_NINT_def BITVEC_NBIT_def BITVEC_MXHASH_def BITVEC_NPTR_def)

abbreviation "bv_home \<equiv> \<lambda>v. BITVEC_HASH (v - 1)"
abbreviation "any_rel \<equiv> \<lambda>(x::nat) (y::nat). True"

interpretation bh: probing BITVEC_NINT bv_home any_rel
  by unfold_locales (simp add: BITVEC_HASH_def bitvec_consts)

definition hash_ok :: "nat \<Rightarrow> nat \<Rightarrow> nat list \<Rightarrow> bool" where
  "hash_ok sz ns a \<longleftrightarrow> probe_ok BITVEC_NINT bv_home any_rel a \<and>
     ns = length (filter (\<lambda>v. v \<noteq> 0) a) \<and> ns < BITVEC_NINT \<and> (\<forall>v\<in>set a. v \<le> sz)"

lemma length_filter_upd:
  "\<lbrakk>k < length xs; \<not> P (xs ! k); P v\<rbrakk> \<Longrightarrow> length (filter P (xs[k := v])) = Suc (length (filter P xs))"
  by (induction xs arbitrary: k) (auto split: nat.splits)

lemma set_upd_unused:
  "\<lbrakk>k < length a; a ! k = (0 :: nat); v \<noteq> 0; x \<noteq> 0\<rbrakk> \<Longrightarrow> x \<in> set (a[k := v]) \<longleftrightarrow> x = v \<or> x \<in> set a"
  by (induction a arbitrary: k) (auto split: nat.splits)

lemma unused_slot_exists:
  assumes "length (filter (\<lambda>v. v \<noteq> 0) a) < length a"
  shows "\<exists>k<length a. a ! k = (0 :: nat)"
proof (rule ccontr)
  assume "\<not> ?thesis"
  then have "\<forall>v\<in>set a. v \<noteq> 0" by (auto simp: in_set_conv_nth)
  then have "filter (\<lambda>v. v \<noteq> 0) a = a" by simp
  with assms show False by simp
qed

lemma unused_slot_distance:
  fixes a :: "nat list"
  assumes "length a = N" "h < N" "length (filter (\<lambda>v. v \<noteq> 0) a) < N"
  shows "\<exists>d<N. a ! slot N h d = 0"
  using unused_slot_exists [of a] slot_surj [of h N] assms by metis

text \<open>The three probe loops in terms of the scan of the table.\<close>

lemma testProbe_scan:
  "\<lbrakk>length a = BITVEC_NINT; h < BITVEC_NINT; i \<noteq> 0; d < g; g \<le> f; a ! slot BITVEC_NINT h d = 0\<rbrakk> \<Longrightarrow>
   bitvecTestProbe f a i h = Some (i \<in> set (scan BITVEC_NINT g a h))"
proof (induction g arbitrary: f h d)
  case 0
  then show ?case by simp
next
  case (Suc g)
  then obtain f' where f: "f = Suc f'" by (cases f) auto
  show ?case
  proof (cases "a ! h = 0")
    case True
    with Suc.prems f show ?thesis by (simp add: rd_def)
  next
    case False
    with Suc.prems obtain e where d: "d = Suc e" by (cases d) auto
    have "Suc h mod BITVEC_NINT < BITVEC_NINT" using bh.N_pos by simp
    then have "bitvecTestProbe f' a i (Suc h mod BITVEC_NINT) =
        Some (i \<in> set (scan BITVEC_NINT g a (Suc h mod BITVEC_NINT)))"
      using Suc.prems d f by (intro Suc.IH [of _ e]) (simp_all add: slot_Suc)
    with False Suc.prems f show ?thesis by (simp add: rd_def)
  qed
qed

lemma setProbe_scan:
  "\<lbrakk>length a = BITVEC_NINT; h < BITVEC_NINT; a ! h \<noteq> 0; i \<noteq> 0; d < g; g \<le> Suc f;
    a ! slot BITVEC_NINT h d = 0\<rbrakk> \<Longrightarrow>
   \<exists>b k. bitvecSetProbe f a i h = Some (b, k) \<and> (b \<longleftrightarrow> i \<in> set (scan BITVEC_NINT g a h)) \<and>
     (\<not> b \<longrightarrow> free_slot BITVEC_NINT g a h = Some k)"
proof (induction g arbitrary: f h d)
  case 0
  then show ?case by simp
next
  case (Suc g)
  let ?h = "Suc h mod BITVEC_NINT"
  from Suc.prems obtain e where d: "d = Suc e" by (cases d) auto
  then obtain f' where f: "f = Suc f'" using Suc.prems by (cases f) auto
  have h: "?h < BITVEC_NINT" using bh.N_pos by simp
  show ?case
  proof (cases "a ! h = i")
    case True
    with Suc.prems f show ?thesis by (intro exI [of _ True]) (simp add: rd_def)
  next
    case neq: False
    have step: "bitvecSetProbe f a i h =
        (if a ! ?h \<noteq> 0 then bitvecSetProbe f' a i ?h else Some (False, ?h))"
      using Suc.prems(1,2) h neq by (cases "Suc h = BITVEC_NINT") (simp_all add: f rd_def)
    obtain g' where g: "g = Suc g'" using Suc.prems d by (cases g) auto
    show ?thesis
    proof (cases "a ! ?h = 0")
      case True
      with step neq Suc.prems g show ?thesis by (intro exI [of _ False]) simp
    next
      case False
      then have "\<exists>b k. bitvecSetProbe f' a i ?h = Some (b, k) \<and>
          (b \<longleftrightarrow> i \<in> set (scan BITVEC_NINT g a ?h)) \<and> (\<not> b \<longrightarrow> free_slot BITVEC_NINT g a ?h = Some k)"
        using Suc.prems d f h by (intro Suc.IH [of ?h e]) (simp_all add: slot_Suc)
      with step neq False Suc.prems show ?thesis by auto
    qed
  qed
qed

lemma clearProbe_scan:
  "\<lbrakk>length a = BITVEC_NINT; h < BITVEC_NINT; d < g; g \<le> f; a ! slot BITVEC_NINT h d = 0\<rbrakk> \<Longrightarrow>
   bitvecClearProbe f a h = free_slot BITVEC_NINT g a h"
proof (induction g arbitrary: f h d)
  case 0
  then show ?case by simp
next
  case (Suc g)
  then obtain f' where f: "f = Suc f'" by (cases f) auto
  show ?case
  proof (cases "a ! h = 0")
    case True
    with Suc.prems f show ?thesis by (simp add: rd_def)
  next
    case False
    with Suc.prems obtain e where d: "d = Suc e" by (cases d) auto
    have "Suc h mod BITVEC_NINT < BITVEC_NINT" using bh.N_pos by simp
    then have "bitvecClearProbe f' a (Suc h mod BITVEC_NINT) =
        free_slot BITVEC_NINT g a (Suc h mod BITVEC_NINT)"
      using Suc.prems d f by (intro Suc.IH [of _ e]) (simp_all add: slot_Suc)
    moreover have "bitvecClearProbe f a h = bitvecClearProbe f' a (Suc h mod BITVEC_NINT)"
      using False Suc.prems f by (cases "Suc h = BITVEC_NINT") (simp_all add: rd_def)
    ultimately show ?thesis using False by simp
  qed
qed

lemma hash_okD:
  assumes "hash_ok sz ns a"
  shows "length a = BITVEC_NINT" "probe_ok BITVEC_NINT bv_home any_rel a"
    "\<And>h. h < BITVEC_NINT \<Longrightarrow> \<exists>d<BITVEC_NINT. a ! slot BITVEC_NINT h d = 0"
  using assms unused_slot_distance [of a BITVEC_NINT] by (auto simp: hash_ok_def probe_ok_def)

lemma testProbe_mem:
  assumes "hash_ok sz ns a"
  shows "bitvecTestProbe BITVEC_NINT a (i + 1) (BITVEC_HASH i) = Some (i + 1 \<in> set a)"
proof -
  have h: "BITVEC_HASH i < BITVEC_NINT" using bh.home_less [of "i + 1"] by simp
  then obtain d where "d < BITVEC_NINT" "a ! slot BITVEC_NINT (BITVEC_HASH i) d = 0"
    using hash_okD(3) [OF assms] by blast
  then have "bitvecTestProbe BITVEC_NINT a (i + 1) (BITVEC_HASH i) =
      Some (i + 1 \<in> set (scan BITVEC_NINT BITVEC_NINT a (BITVEC_HASH i)))"
    using h hash_okD(1) [OF assms] by (intro testProbe_scan) simp_all
  then show ?thesis using bh.scan_iff [OF hash_okD(2) [OF assms], of "i + 1"] by simp
qed

lemma hashStep_cases:
  assumes ok: "hash_ok sz ns a" and i: "0 < i"
  obtains "bitvecHashStep a ns i = Some Present" "i \<in> set a"
  | k where "bitvecHashStep a ns i = Some (Store k)" "i \<notin> set a"
      "free_slot BITVEC_NINT BITVEC_NINT a (bv_home i) = Some k" "Suc ns < BITVEC_NINT"
  | "bitvecHashStep a ns i = Some Subdivide"
proof -
  let ?h = "bv_home i"
  note N = hash_okD(1) [OF ok]
  have h: "?h < BITVEC_NINT" by (rule bh.home_less)
  have mem: "i \<in> set (scan BITVEC_NINT BITVEC_NINT a ?h) \<longleftrightarrow> i \<in> set a"
    using bh.scan_iff [OF hash_okD(2) [OF ok], of i] i by simp
  obtain N' where N': "BITVEC_NINT = Suc N'" using bh.N_pos by (cases BITVEC_NINT) auto
  show thesis
  proof (cases "a ! ?h = 0")
    case True
    then have "i \<notin> set a" "free_slot BITVEC_NINT BITVEC_NINT a ?h = Some ?h"
      using mem by (simp_all add: N')
    with True h N that show thesis
      by (cases "ns < BITVEC_NINT - 1") (auto simp: bitvecHashStep_def rd_def bitvec_consts)
  next
    case False
    obtain d where "d < BITVEC_NINT" "a ! slot BITVEC_NINT ?h d = 0"
      using hash_okD(3) [OF ok h] by blast
    then obtain b k where "bitvecSetProbe BITVEC_NINT a i ?h = Some (b, k)"
      "b \<longleftrightarrow> i \<in> set (scan BITVEC_NINT BITVEC_NINT a ?h)"
      "\<not> b \<longrightarrow> free_slot BITVEC_NINT BITVEC_NINT a ?h = Some k"
      using setProbe_scan [OF N h False, of i d BITVEC_NINT BITVEC_NINT] i by auto
    with False h N mem that show thesis
      by (cases "ns \<ge> BITVEC_MXHASH") (auto simp: bitvecHashStep_def rd_def bitvec_consts split: if_splits)
  qed
qed

lemma hash_ok_store:
  assumes ok: "hash_ok sz ns a" and i: "0 < i" "i \<le> sz"
    and k: "free_slot BITVEC_NINT BITVEC_NINT a (bv_home i) = Some k" and ns: "Suc ns < BITVEC_NINT"
  shows "hash_ok sz (Suc ns) (a[k := i])" "set (a[k := i]) - {0} = insert i (set a - {0})"
proof -
  obtain d where "slot BITVEC_NINT (bv_home i) d = k" and z: "a ! k = 0"
    using free_slot_Some [OF bh.home_less k] by blast
  then have kl: "k < length a" using hash_okD(1) [OF ok] bh.N_pos by auto
  have "probe_ok BITVEC_NINT bv_home any_rel (a[k := i])"
    using i by (intro bh.probe_ok_store [OF hash_okD(2) [OF ok] k]) auto
  moreover have "length (filter (\<lambda>v. v \<noteq> 0) (a[k := i])) = Suc (length (filter (\<lambda>v. v \<noteq> 0) a))"
    using kl z i by (intro length_filter_upd) auto
  moreover have "\<forall>v\<in>set (a[k := i]). v \<le> sz"
    using ok i set_update_subset_insert [of a k i] by (auto simp: hash_ok_def)
  ultimately show "hash_ok sz (Suc ns) (a[k := i])"
    using ok ns by (simp add: hash_ok_def)
  show "set (a[k := i]) - {0} = insert i (set a - {0})"
    using set_upd_unused [OF kl z] i by auto
qed

section \<open>Well-formed bitmaps\<close>

fun bv_ok :: "bitvec \<Rightarrow> bool" where
  "bv_ok (Bitvec sz ns d uu) \<longleftrightarrow>
     sz < 2 ^ 32 \<and>
     (if d \<noteq> 0 then
        sz > BITVEC_NBIT \<and> d = (sz + BITVEC_NPTR - 1) div BITVEC_NPTR \<and>
        (case uu of
           apSub ps \<Rightarrow> length ps = BITVEC_NPTR \<and>
             (\<forall>x\<in>set ps. case x of None \<Rightarrow> True | Some q \<Rightarrow> bv_ok q \<and> iSize q = d)
         | _ \<Rightarrow> False)
      else if sz \<le> BITVEC_NBIT then
        (case uu of aBitmap m \<Rightarrow> length m = BITVEC_NELEM | _ \<Rightarrow> False)
      else (case uu of aHash a \<Rightarrow> hash_ok sz ns a | _ \<Rightarrow> False))"

definition bv_mem :: "bitvec \<Rightarrow> nat \<Rightarrow> bool" where
  "bv_mem p i \<longleftrightarrow> bitvecTestWalk p i = Some True"

lemma bin_less: "i < sz \<Longrightarrow> i div ((sz + BITVEC_NPTR - 1) div BITVEC_NPTR) < BITVEC_NPTR"
proof -
  assume i: "i < sz"
  have "sz \<le> BITVEC_NPTR * ((sz + BITVEC_NPTR - 1) div BITVEC_NPTR)"
    using div_mult_mod_eq [of "sz + BITVEC_NPTR - 1" BITVEC_NPTR]
      mod_less_divisor [of BITVEC_NPTR "sz + BITVEC_NPTR - 1"]
    by (simp add: bitvec_consts)
  with i show ?thesis by (simp add: less_mult_imp_div_less mult.commute)
qed

lemma sub_ok:
  assumes "bv_ok (Bitvec sz ns d uu)" "d \<noteq> 0"
  obtains ps where "uu = apSub ps" "length ps = BITVEC_NPTR" "BITVEC_NBIT < sz"
    "d = (sz + BITVEC_NPTR - 1) div BITVEC_NPTR"
    "\<And>k q. \<lbrakk>k < BITVEC_NPTR; ps ! k = Some q\<rbrakk> \<Longrightarrow> bv_ok q \<and> iSize q = d"
proof -
  from assms obtain ps where ps: "uu = apSub ps" "length ps = BITVEC_NPTR" "BITVEC_NBIT < sz"
      "d = (sz + BITVEC_NPTR - 1) div BITVEC_NPTR"
      "\<forall>x\<in>set ps. case x of None \<Rightarrow> True | Some q \<Rightarrow> bv_ok q \<and> iSize q = d"
    by (auto split: bitvec_u.splits)
  have "bv_ok q \<and> iSize q = d" if "k < BITVEC_NPTR" "ps ! k = Some q" for k q
  proof -
    have "ps ! k \<in> set ps" using ps(2) that(1) by simp
    with ps(5) have "case ps ! k of None \<Rightarrow> True | Some q \<Rightarrow> bv_ok q \<and> iSize q = d" by blast
    with that(2) show ?thesis by simp
  qed
  with ps that show thesis by blast
qed

lemma i_and_7: "(i :: nat) AND 7 = i mod 8"
  using take_bit_eq_mask [of 3 i] by (simp add: mask_eq_exp_minus_1 take_bit_eq_mod)

text \<open>A test inside the range is defined: no read leaves an array and every probe stops.\<close>

lemma testWalk_defined: "bv_ok p \<Longrightarrow> i < iSize p \<Longrightarrow> bitvecTestWalk p i = Some (bv_mem p i)"
proof (induction p i rule: bitvecTestWalk.induct)
  case (1 sz ns d uu i)
  have "\<exists>b. bitvecTestWalk (Bitvec sz ns d uu) i = Some b"
  proof (cases "d = 0")
    case True
    show ?thesis
    proof (cases "sz \<le> BITVEC_NBIT")
      case small: True
      with True "1.prems" obtain m where "uu = aBitmap m" "length m = BITVEC_NELEM"
        by (auto split: bitvec_u.splits)
      with small True "1.prems" show ?thesis by (auto simp: rd_def bitvec_consts)
    next
      case False
      with True "1.prems" obtain a where "uu = aHash a" "hash_ok sz ns a"
        by (auto split: bitvec_u.splits)
      with False True show ?thesis using testProbe_mem by auto
    qed
  next
    case False
    obtain ps where ps: "uu = apSub ps" "length ps = BITVEC_NPTR"
        "d = (sz + BITVEC_NPTR - 1) div BITVEC_NPTR"
        "\<And>k q. \<lbrakk>k < BITVEC_NPTR; ps ! k = Some q\<rbrakk> \<Longrightarrow> bv_ok q \<and> iSize q = d"
      using sub_ok [OF "1.prems"(1) False] by metis
    have bin: "i div d < BITVEC_NPTR" using "1.prems"(2) ps(3) bin_less by simp
    show ?thesis
    proof (cases "ps ! (i div d)")
      case None
      with False bin ps show ?thesis by (intro exI [of _ False]) simp
    next
      case (Some q)
      then have "bitvecTestWalk q (i mod d) = Some (bv_mem q (i mod d))"
        using "1.IH" [OF False ps(1) _ Some] ps(4) [OF bin Some] bin ps(2) False by simp
      with Some False bin ps show ?thesis by simp
    qed
  qed
  then show ?case by (auto simp: bv_mem_def)
qed

lemma bv_mem_bitmap:
  "\<lbrakk>sz \<le> BITVEC_NBIT; i < sz; length m = BITVEC_NELEM\<rbrakk> \<Longrightarrow>
   bv_mem (Bitvec sz ns 0 (aBitmap m)) i \<longleftrightarrow> bit (m ! (i div 8)) (i mod 8)"
  by (simp add: bv_mem_def rd_def bitvec_consts i_and_7 and_exp_eq_0_iff_not_bit less_mult_imp_div_less)
   
lemma bv_mem_hash:
  "\<lbrakk>BITVEC_NBIT < sz; hash_ok sz ns a\<rbrakk> \<Longrightarrow> bv_mem (Bitvec sz ns' 0 (aHash a)) i \<longleftrightarrow> i + 1 \<in> set a"
  using testProbe_mem [of sz ns a i] by (simp add: bv_mem_def)

lemma bv_mem_sub:
  "\<lbrakk>d \<noteq> 0; i div d < length ps\<rbrakk> \<Longrightarrow> bv_mem (Bitvec sz ns d (apSub ps)) i \<longleftrightarrow>
     (case ps ! (i div d) of None \<Rightarrow> False | Some q \<Rightarrow> bv_mem q (i mod d))"
  by (simp add: bv_mem_def split: option.splits)

lemma create_ok:
  assumes "sqlite3BitvecCreate al sz = (Some p, al')" "sz < 2 ^ 32"
  shows "bv_ok p \<and> iSize p = sz \<and> iDivisor p = 0 \<and> (\<forall>i < sz. \<not> bv_mem p i)"
proof (cases "sz \<le> BITVEC_NBIT")
  case True
  with assms have p: "p = Bitvec sz 0 0 (aBitmap (replicate BITVEC_NELEM 0))"
    by (auto simp: sqlite3BitvecCreate_def split: prod.splits if_splits)
  have "i div 8 < BITVEC_NELEM" if "i < sz" for i
    using that True by (simp add: bitvec_consts)
  with True assms(2) show ?thesis by (simp add: p bv_mem_bitmap)
next
  case False
  with assms have p: "p = Bitvec sz 0 0 (aHash (replicate BITVEC_NINT 0))"
    by (auto simp: sqlite3BitvecCreate_def split: prod.splits if_splits)
  have "hash_ok sz 0 (replicate BITVEC_NINT 0)"
    using bh.probe_ok_empty bh.N_pos by (simp add: hash_ok_def)
  with False assms(2) show ?thesis by (simp add: p bv_mem_hash)
qed

section \<open>Setting a bit\<close>

text \<open>The nesting a set operation needs: two calls per level that is not a bitmap, one for it.\<close>

function bv_depth :: "nat \<Rightarrow> nat" where
  "bv_depth sz = (if sz \<le> BITVEC_NBIT then 1
     else 2 + bv_depth ((sz + BITVEC_NPTR - 1) div BITVEC_NPTR))"
  by pat_completeness auto
termination
  by (relation "measure id") (auto simp: bitvec_consts less_mult_imp_div_less)

declare bv_depth.simps [simp del]

definition bv_need :: "bitvec \<Rightarrow> nat" where
  "bv_need p = (if iSize p \<le> BITVEC_NBIT then 1
     else (if iDivisor p \<noteq> 0 then 1 else 2) +
       bv_depth ((iSize p + BITVEC_NPTR - 1) div BITVEC_NPTR))"

lemma bv_need_depth: "bv_need p \<le> bv_depth (iSize p)"
  by (simp add: bv_need_def bv_depth.simps [of "iSize p"])

text \<open>
  What a set operation guarantees: the bitmap stays well formed, no bit but the given one
  appears, and on success exactly that one is added. Without allocation failures it succeeds.
\<close>

definition set_post :: "allocs \<Rightarrow> bitvec \<Rightarrow> nat set \<Rightarrow> rcode \<Rightarrow> bitvec \<Rightarrow> allocs \<Rightarrow> bool" where
  "set_post al p S rc p' al' \<longleftrightarrow>
     bv_ok p' \<and> iSize p' = iSize p \<and> (iDivisor p \<noteq> 0 \<longrightarrow> iDivisor p' = iDivisor p) \<and>
     (rc = SQLITE_OK \<or> rc = SQLITE_NOMEM) \<and>
     (\<forall>j < iSize p. bv_mem p' j \<longrightarrow> bv_mem p j \<or> j + 1 \<in> S) \<and>
     (rc = SQLITE_OK \<longrightarrow> (\<forall>j < iSize p. bv_mem p' j \<longleftrightarrow> bv_mem p j \<or> j + 1 \<in> S)) \<and>
     (al = [] \<longrightarrow> rc = SQLITE_OK \<and> al' = [])"

definition sets_bits :: "nat \<Rightarrow> (allocs \<Rightarrow> bitvec \<Rightarrow> nat \<Rightarrow> (rcode \<times> bitvec \<times> allocs) option) \<Rightarrow> bool" where
  "sets_bits n f \<longleftrightarrow> (\<forall>al p i. bv_ok p \<longrightarrow> 0 < i \<longrightarrow> i \<le> iSize p \<longrightarrow> bv_need p \<le> n \<longrightarrow>
     (\<exists>rc p' al'. f al p i = Some (rc, p', al') \<and> set_post al p {i} rc p' al'))"

lemma sets_bitsD:
  assumes "sets_bits n f" "bv_ok p" "0 < i" "i \<le> iSize p" "bv_need p \<le> n"
  obtains rc p' al' where "f al p i = Some (rc, p', al')" "set_post al p {i} rc p' al'"
  using assms unfolding sets_bits_def by blast

lemma set_post_need: "set_post al p S rc p' al' \<Longrightarrow> iDivisor p \<noteq> 0 \<Longrightarrow> bv_need p' = bv_need p"
  by (auto simp: set_post_def bv_need_def)

lemma set_post_0: "set_post al p (insert 0 S) rc p' al' \<longleftrightarrow> set_post al p S rc p' al'"
  by (simp add: set_post_def)

lemma set_postD:
  assumes "set_post al p S rc p' al'"
  shows "bv_ok p'" "iSize p' = iSize p" "iDivisor p \<noteq> 0 \<Longrightarrow> iDivisor p' = iDivisor p"
    "rc = SQLITE_OK \<or> rc = SQLITE_NOMEM"
    "\<And>j. \<lbrakk>j < iSize p; bv_mem p' j\<rbrakk> \<Longrightarrow> bv_mem p j \<or> j + 1 \<in> S"
    "\<And>j. \<lbrakk>rc = SQLITE_OK; j < iSize p\<rbrakk> \<Longrightarrow> bv_mem p' j \<longleftrightarrow> bv_mem p j \<or> j + 1 \<in> S"
    "al = [] \<Longrightarrow> rc = SQLITE_OK \<and> al' = []"
  using assms unfolding set_post_def by auto

lemma set_post_trans:
  assumes A: "set_post al p S rc1 p1 al1" and B: "set_post b p1 T rc2 p2 al2"
    and ok: "rc2 = SQLITE_OK \<Longrightarrow> rc1 = SQLITE_OK"
    and al: "al0 = [] \<Longrightarrow> al = []" "\<lbrakk>al0 = []; rc1 = SQLITE_OK; al1 = []\<rbrakk> \<Longrightarrow> b = []"
  shows "set_post al0 p (S \<union> T) rc2 p2 al2"
proof -
  note a = set_postD [OF A] and b = set_postD [OF B]
  have "bv_mem p j \<or> j + 1 \<in> S \<union> T" if "j < iSize p" "bv_mem p2 j" for j
    using a(5) [OF that(1)] b(5) [of j] a(2) that by auto
  moreover have "bv_mem p2 j \<longleftrightarrow> bv_mem p j \<or> j + 1 \<in> S \<union> T" if "rc2 = SQLITE_OK" "j < iSize p" for j
    using a(6) [OF ok [OF that(1)] that(2)] b(6) [OF that(1), of j] a(2) that(2) by auto
  moreover have "rc2 = SQLITE_OK \<and> al2 = []" if "al0 = []"
    using a(7) [OF al(1) [OF that]] al(2) [OF that] b(7) by blast
  ultimately show ?thesis
    using a(2,3) b(1-4) unfolding set_post_def by auto
qed

lemma rehash_post:
  assumes f: "sets_bits n f"
  shows "\<lbrakk>bv_ok p; iDivisor p \<noteq> 0; bv_need p \<le> n; \<forall>v\<in>set vs. v \<le> iSize p;
          rc = SQLITE_OK \<or> rc = SQLITE_NOMEM\<rbrakk> \<Longrightarrow>
    \<exists>rc' p' al'. bitvecRehash f vs rc p al = Some (rc', p', al') \<and>
      set_post (if rc = SQLITE_OK then al else [False]) p (set vs) rc' p' al' \<and>
      (rc' = SQLITE_OK \<longrightarrow> rc = SQLITE_OK)"
proof (induction vs arbitrary: rc p al)
  case Nil
  then show ?case by (auto simp: set_post_def)
next
  case (Cons v vs)
  show ?case
  proof (cases "v = 0")
    case True
    obtain rc' p' al' where "bitvecRehash f vs rc p al = Some (rc', p', al')"
      "set_post (if rc = SQLITE_OK then al else [False]) p (set vs) rc' p' al'"
      "rc' = SQLITE_OK \<longrightarrow> rc = SQLITE_OK"
      using Cons.IH [of p rc al] Cons.prems by auto
    with True show ?thesis by (simp add: set_post_0)
  next
    case False
    have v: "0 < v" "v \<le> iSize p" using False Cons.prems(4) by simp_all
    obtain rc1 p1 al1 where 1: "f al p v = Some (rc1, p1, al1)" "set_post al p {v} rc1 p1 al1"
      by (rule sets_bitsD [OF f Cons.prems(1) v Cons.prems(3)])
    then have p1: "bv_ok p1" "iSize p1 = iSize p" "iDivisor p1 = iDivisor p"
        "rc1 = SQLITE_OK \<or> rc1 = SQLITE_NOMEM"
      using Cons.prems(2) by (auto simp: set_post_def)
    have rc2: "rc_or rc rc1 = SQLITE_OK \<or> rc_or rc rc1 = SQLITE_NOMEM"
      using Cons.prems(5) p1(4) by (auto simp: rc_or_def)
    obtain rc' p' al' where 2: "bitvecRehash f vs (rc_or rc rc1) p1 al1 = Some (rc', p', al')"
      "set_post (if rc_or rc rc1 = SQLITE_OK then al1 else [False]) p1 (set vs) rc' p' al'"
      "rc' = SQLITE_OK \<longrightarrow> rc_or rc rc1 = SQLITE_OK"
      using Cons.IH [OF p1(1) _ _ _ rc2, of al1] Cons.prems p1 set_post_need [OF 1(2)] by auto
    have "rc' = SQLITE_OK \<longrightarrow> rc = SQLITE_OK \<and> rc1 = SQLITE_OK"
      using 2(3) by (auto simp: rc_or_def split: if_splits)
    moreover have "set_post (if rc = SQLITE_OK then al else [False]) p (set (v # vs)) rc' p' al'"
    proof -
      have "set_post (if rc = SQLITE_OK then al else [False]) p ({v} \<union> set vs) rc' p' al'"
        using calculation by (intro set_post_trans [OF 1(2) 2(2)]) (auto simp: rc_or_def split: if_splits)
      then show ?thesis by simp
    qed
    ultimately show ?thesis using 1(1) 2(1) False by auto
  qed
qed

text \<open>The three forms of the bitmap, one lemma each.\<close>

lemma setBitmap_post:
  assumes ok: "bv_ok p" and i: "0 < i" "i \<le> iSize p" and small: "iSize p \<le> BITVEC_NBIT"
  shows "\<exists>p'. bitvecSet (Suc n) al p i = Some (SQLITE_OK, p', al) \<and> set_post al p {i} SQLITE_OK p' al"
proof -
  obtain sz ns d uu where p: "p = Bitvec sz ns d uu" by (cases p) auto
  from ok small obtain m where m: "d = 0" "uu = aBitmap m" "length m = BITVEC_NELEM"
    by (auto simp: p split: bitvec_u.splits if_splits)
  let ?k = "(i - 1) div 8" and ?b = "(i - 1) mod 8"
  let ?m = "m[?k := m ! ?k OR push_bit ?b 1]"
  have k: "?k < BITVEC_NELEM" using i small by (simp add: p bitvec_consts less_mult_imp_div_less)
  have set: "bitvecSet (Suc n) al p i = Some (SQLITE_OK, Bitvec sz ns 0 (aBitmap ?m), al)"
    using small k m by (simp add: p rd_def i_and_7 Let_def)
  have "bit (?m ! (j div 8)) (j mod 8) \<longleftrightarrow> bit (m ! (j div 8)) (j mod 8) \<or> j + 1 = i" for j
  proof (cases "j div 8 = ?k")
    case True
    have "j mod 8 = ?b \<longleftrightarrow> j + 1 = i"
      using div_mod_eq_iff [OF True] i(1) by auto
    moreover have "j mod 8 < 8" by simp
    ultimately show ?thesis using True k m by (auto simp: bit_simps)
  next
    case False
    then show ?thesis using i by auto
  qed
  then have "set_post al p {i} SQLITE_OK (Bitvec sz ns 0 (aBitmap ?m)) al"
    using ok small m by (simp add: p set_post_def bv_mem_bitmap)
  with set show ?thesis by blast
qed

lemma setSub_post:
  assumes IH: "sets_bits n (bitvecSet n)"
    and ok: "bv_ok p" and i: "0 < i" "i \<le> iSize p" and sub: "iDivisor p \<noteq> 0" and need: "bv_need p \<le> Suc n"
  shows "\<exists>rc p' al'. bitvecSet (Suc n) al p i = Some (rc, p', al') \<and> set_post al p {i} rc p' al'"
proof -
  obtain sz ns d uu where p: "p = Bitvec sz ns d uu" by (cases p) auto
  obtain ps where ps: "uu = apSub ps" "length ps = BITVEC_NPTR" "BITVEC_NBIT < sz"
      "d = (sz + BITVEC_NPTR - 1) div BITVEC_NPTR"
      "\<And>k q. \<lbrakk>k < BITVEC_NPTR; ps ! k = Some q\<rbrakk> \<Longrightarrow> bv_ok q \<and> iSize q = d"
    using sub_ok [of sz ns d uu] ok sub by (metis p bitvec.sel(3))
  have d0: "d \<noteq> 0" using sub by (simp add: p)
  have szd: "sz < 2 ^ 32" "d < 2 ^ 32"
  proof -
    show a: "sz < 2 ^ 32" using ok by (simp add: p)
    have "d \<le> sz" using ps(3,4) by (simp add: bitvec_consts)
    with a show "d < 2 ^ 32" by simp
  qed
  let ?bin = "(i - 1) div d" and ?i = "(i - 1) mod d"
  have bin: "?bin < BITVEC_NPTR" using i ps(4) bin_less [of "i - 1" sz] by (simp add: p)
  define cr where "cr = (case ps ! ?bin of None \<Rightarrow> sqlite3BitvecCreate al d | Some q \<Rightarrow> (Some q, al))"
  show ?thesis
  proof (cases "fst cr")
    case None
    then have "al \<noteq> []"
      by (auto simp: cr_def sqlite3BitvecCreate_def split: option.splits prod.splits)
    moreover have "bitvecSet (Suc n) al p i = Some (SQLITE_NOMEM, p, snd cr)"
      using None ps(1-3) bin d0 by (cases cr) (simp add: p rd_def cr_def)
    ultimately show ?thesis using ok by (auto simp: set_post_def)
  next
    case (Some q)
    then obtain al1 where cr: "cr = (Some q, al1)" by (cases cr) auto
    have q: "bv_ok q" "iSize q = d" "\<forall>j<d. bv_mem q j = (case ps ! ?bin of None \<Rightarrow> False | Some q \<Rightarrow> bv_mem q j)"
        "al = [] \<longrightarrow> al1 = []"
      using cr ps(5) [OF bin] create_ok [of al d q al1] szd(2)
      by (auto simp: cr_def sqlite3BitvecCreate_def split: option.splits prod.splits)
    have "bv_need q \<le> n"
      using bv_need_depth [of q] need ps(3,4) d0 by (simp add: bv_need_def p q(2))
    moreover have "?i < d" using d0 by simp
    then have "?i + 1 \<le> iSize q" using q(2) by linarith
    ultimately obtain rc q' al2 where r: "bitvecSet n al1 q (?i + 1) = Some (rc, q', al2)"
        "set_post al1 q {?i + 1} rc q' al2"
      using sets_bitsD [OF IH q(1), of "?i + 1" al1] by (metis add_gr_0 less_one)
    let ?p' = "Bitvec sz ns d (apSub (ps[?bin := Some q']))"
    have set: "bitvecSet (Suc n) al p i = Some (rc, ?p', al2)"
      using ps(1-3) bin d0 cr r(1) by (simp add: p rd_def cr_def)
    have same: "j mod d = ?i \<longleftrightarrow> j + 1 = i" if "j div d = ?bin" for j
      using div_mod_eq_iff [OF that] i(1) by auto
    have mem: "(j div d = ?bin \<longrightarrow> bv_mem ?p' j = bv_mem q' (j mod d) \<and> bv_mem p j = bv_mem q (j mod d)) \<and>
        (j div d \<noteq> ?bin \<longrightarrow> bv_mem ?p' j = bv_mem p j)" if "j < sz" for j
    proof -
      have "j div d < BITVEC_NPTR" using that ps(4) bin_less by simp
      then show ?thesis using d0 ps(1,2) bin q(3) by (auto simp: p bv_mem_sub)
    qed
    have q': "bv_ok q'" "iSize q' = d" "rc = SQLITE_OK \<or> rc = SQLITE_NOMEM"
        "al1 = [] \<longrightarrow> rc = SQLITE_OK \<and> al2 = []"
        "\<And>j. j < d \<Longrightarrow> bv_mem q' j \<Longrightarrow> bv_mem q j \<or> j = ?i"
        "\<And>j. rc = SQLITE_OK \<Longrightarrow> j < d \<Longrightarrow> bv_mem q' j \<longleftrightarrow> bv_mem q j \<or> j = ?i"
      using r(2) q(2) by (auto simp: set_post_def)
    have md: "j mod d < d" for j using d0 by simp
    have "bv_ok ?p'"
      using ok q'(1,2) ps(1-3) d0 set_update_subset_insert [of ps ?bin "Some q'"] by (auto simp: p)
    moreover have "bv_mem ?p' j \<longrightarrow> bv_mem p j \<or> j + 1 \<in> {i}" if "j < sz" for j
      using mem [OF that] q'(5) [OF md] same [of j] i(1) by auto
    moreover have "rc = SQLITE_OK \<Longrightarrow> bv_mem ?p' j \<longleftrightarrow> bv_mem p j \<or> j + 1 \<in> {i}" if "j < sz" for j
      using mem [OF that] q'(6) [OF _ md] same [of j] i(1) by auto
    ultimately have "set_post al p {i} rc ?p' al2"
      using q'(3,4) q(4) unfolding set_post_def p by (simp del: bv_ok.simps)
    with set show ?thesis by blast
  qed
qed

lemma setHash_post:
  assumes IH: "sets_bits n (bitvecSet n)"
    and ok: "bv_ok p" and i: "0 < i" "i \<le> iSize p" and big: "iDivisor p = 0" "BITVEC_NBIT < iSize p"
    and need: "bv_need p \<le> Suc n"
  shows "\<exists>rc p' al'. bitvecSet (Suc n) al p i = Some (rc, p', al') \<and> set_post al p {i} rc p' al'"
proof -
  obtain sz ns d uu where p: "p = Bitvec sz ns d uu" by (cases p) auto
  from ok big obtain a where a: "uu = aHash a" "hash_ok sz ns a" "d = 0"
    by (auto simp: p split: bitvec_u.splits)
  have sz: "BITVEC_NBIT < sz" "sz < 2 ^ 32" using ok big by (simp_all add: p)
  have memp: "bv_mem p j \<longleftrightarrow> j + 1 \<in> set a" for j
    using sz a by (simp add: p bv_mem_hash)
  show ?thesis
  proof (cases rule: hashStep_cases [OF a(2) i(1)])
    case 1
    then have "bitvecSet (Suc n) al p i = Some (SQLITE_OK, p, al)"
      using sz a i by (simp add: p)
    then show ?thesis using ok 1(2) memp by (auto simp: set_post_def)
  next
    case (2 k)
    let ?p' = "Bitvec sz (Suc ns) 0 (aHash (a[k := i]))"
    have isz: "i \<le> sz" using i by (simp add: p)
    note ok' = hash_ok_store [OF a(2) i(1) isz 2(3,4)]
    have "bitvecSet (Suc n) al p i = Some (SQLITE_OK, ?p', al)"
      using sz a i 2(1) by (simp add: p)
    moreover have "bv_mem ?p' j \<longleftrightarrow> bv_mem p j \<or> j + 1 = i" for j
    proof -
      have "j + 1 \<in> set (a[k := i]) - {0} \<longleftrightarrow> j + 1 = i \<or> j + 1 \<in> set a - {0}"
        unfolding ok'(2) by blast
      then show ?thesis using sz ok'(1) memp by (auto simp: bv_mem_hash)
    qed
    ultimately show ?thesis using ok ok'(1) sz a by (auto simp: p set_post_def)
  next
    case 3
    show ?thesis
    proof (cases "sqlite3_alloc al")
      case al: (Pair b al1)
      show ?thesis
      proof (cases b)
        case False
        then have "bitvecSet (Suc n) al p i = Some (SQLITE_NOMEM, p, al1)" "al \<noteq> []"
          using sz a i 3 al by (auto simp: p)
        then show ?thesis using ok by (auto simp: set_post_def)
      next
        case True
        let ?d = "(sz + BITVEC_NPTR - 1) div BITVEC_NPTR"
        let ?p0 = "Bitvec sz ns ?d (apSub (replicate BITVEC_NPTR None))"
        have d0: "?d \<noteq> 0" using sz by (simp add: bitvec_consts div_eq_0_iff)
        have p0: "bv_ok ?p0" "\<forall>j < sz. \<not> bv_mem ?p0 j"
          using sz d0 bin_less [of _ sz] by (simp_all add: bv_mem_sub)
        have n0: "bv_need ?p0 \<le> n" using need sz d0 a by (simp add: p bv_need_def)
        obtain rc1 p1 al2 where 1: "bitvecSet n al1 ?p0 i = Some (rc1, p1, al2)"
            "set_post al1 ?p0 {i} rc1 p1 al2"
          using sets_bitsD [OF IH p0(1) i(1) _ n0] i(2) by (metis p bitvec.sel(1))
        have p1: "bv_ok p1" "iDivisor p1 \<noteq> 0" "iSize p1 = sz" "rc1 = SQLITE_OK \<or> rc1 = SQLITE_NOMEM"
            "bv_need p1 \<le> n"
          using 1(2) d0 n0 set_post_need [OF 1(2)] by (auto simp: set_post_def)
        have "\<forall>v\<in>set a. v \<le> iSize p1" using a(2) p1(3) by (simp add: hash_ok_def)
        then obtain rc2 p2 al3 where 2: "bitvecRehash (bitvecSet n) a rc1 p1 al2 = Some (rc2, p2, al3)"
            "set_post (if rc1 = SQLITE_OK then al2 else [False]) p1 (set a) rc2 p2 al3"
            "rc2 = SQLITE_OK \<longrightarrow> rc1 = SQLITE_OK"
          using rehash_post [OF IH p1(1,2,5) _ p1(4)] by blast
        have "bitvecSet (Suc n) al p i = Some (rc2, p2, al3)"
          using sz a i 3 al True 1(1) 2(1) by (simp add: p)
        moreover have "set_post al ?p0 ({i} \<union> set a) rc2 p2 al3"
          using al 2(3) by (intro set_post_trans [OF 1(2) 2(2)]) auto
        then have "set_post al p {i} rc2 p2 al3"
          using p0(2) a(3) memp unfolding set_post_def p by auto
        ultimately show ?thesis by blast
      qed
    qed
  qed
qed

lemma bitvecSet_sets: "sets_bits n (bitvecSet n)"
proof (induction n)
  case 0
  have "bv_need p \<noteq> 0" for p by (simp add: bv_need_def)
  then show ?case by (simp add: sets_bits_def)
next
  case (Suc n)
  show ?case
    unfolding sets_bits_def
  proof (intro allI impI)
    fix al p i
    assume A: "bv_ok p" "0 < i" "i \<le> iSize p" "bv_need p \<le> Suc n"
    consider "iSize p \<le> BITVEC_NBIT" | "iDivisor p \<noteq> 0" | "iDivisor p = 0" "BITVEC_NBIT < iSize p"
      by linarith
    then show "\<exists>rc p' al'. bitvecSet (Suc n) al p i = Some (rc, p', al') \<and> set_post al p {i} rc p' al'"
      using setBitmap_post [OF A(1-3)] setSub_post [OF Suc A(1-3) _ A(4)] setHash_post [OF Suc A(1-3) _ _ A(4)]
      by cases blast+
  qed
qed

section \<open>Clearing a bit\<close>

lemma clearLoop_ok:
  "\<lbrakk>hash_ok sz ns a; ns + length (filter (\<lambda>v. v \<noteq> 0) vs) < BITVEC_NINT; \<forall>v\<in>set vs. v \<le> sz\<rbrakk> \<Longrightarrow>
   \<exists>ns' a'. bitvecClearLoop vs i ns a = Some (ns', a') \<and> hash_ok sz ns' a' \<and>
     set a' - {0} = (set a \<union> (set vs - {i + 1})) - {0}"
proof (induction vs arbitrary: ns a)
  case Nil
  then show ?case by simp
next
  case (Cons v vs)
  show ?case
  proof (cases "v \<noteq> 0 \<and> v \<noteq> i + 1")
    case True
    have h: "bv_home v < BITVEC_NINT" by (rule bh.home_less)
    obtain d where "d < BITVEC_NINT" "a ! slot BITVEC_NINT (bv_home v) d = 0"
      using hash_okD(3) [OF Cons.prems(1) h] by blast
    then have probe: "bitvecClearProbe BITVEC_NINT a (bv_home v) = free_slot BITVEC_NINT BITVEC_NINT a (bv_home v)"
      and "\<exists>k. free_slot BITVEC_NINT BITVEC_NINT a (bv_home v) = Some k"
      using hash_okD(1) [OF Cons.prems(1)] h
      by (auto intro!: clearProbe_scan free_slot_exists)
    then obtain k where k: "free_slot BITVEC_NINT BITVEC_NINT a (bv_home v) = Some k" by blast
    have ns: "Suc ns < BITVEC_NINT" "Suc ns + length (filter (\<lambda>v. v \<noteq> 0) vs) < BITVEC_NINT"
      using Cons.prems(2) True by simp_all
    have v: "0 < v" "v \<le> sz" using True Cons.prems(3) by simp_all
    note st = hash_ok_store [OF Cons.prems(1) v k ns(1)]
    obtain ns' a' where "bitvecClearLoop vs i (Suc ns) (a[k := v]) = Some (ns', a')" "hash_ok sz ns' a'"
        "set a' - {0} = (set (a[k := v]) \<union> (set vs - {i + 1})) - {0}"
      using Cons.IH [OF st(1) ns(2)] Cons.prems(3) by auto
    then show ?thesis using True k probe st(2) by (auto simp: Un_Diff)
  next
    case False
    have "ns + length (filter (\<lambda>v. v \<noteq> 0) vs) < BITVEC_NINT" using Cons.prems(2) by (simp split: if_splits)
    then obtain ns' a' where "bitvecClearLoop vs i ns a = Some (ns', a')" "hash_ok sz ns' a'"
        "set a' - {0} = (set a \<union> (set vs - {i + 1})) - {0}"
      using Cons.IH [OF Cons.prems(1)] Cons.prems(3) by auto
    with False show ?thesis by auto
  qed
qed

lemma clearWalk_ok:
  "\<lbrakk>bv_ok p; i < iSize p\<rbrakk> \<Longrightarrow> \<exists>p'. bitvecClearWalk p i = Some p' \<and> bv_ok p' \<and> iSize p' = iSize p \<and>
     (\<forall>j < iSize p. bv_mem p' j \<longleftrightarrow> bv_mem p j \<and> j \<noteq> i)"
proof (induction p i rule: bitvecClearWalk.induct)
  case (1 sz ns d uu i)
  have i: "i < sz" using "1.prems" by simp
  show ?case
  proof (cases "d = 0")
    case True
    show ?thesis
    proof (cases "sz \<le> BITVEC_NBIT")
      case small: True
      with True "1.prems" obtain m where m: "uu = aBitmap m" "length m = BITVEC_NELEM"
        by (auto split: bitvec_u.splits)
      let ?k = "i div 8" and ?b = "i mod 8"
      let ?m = "m[?k := m ! ?k AND NOT (push_bit ?b 1)]"
      have k: "?k < BITVEC_NELEM" using i small by (simp add: bitvec_consts less_mult_imp_div_less)
      have cl: "bitvecClearWalk (Bitvec sz ns d uu) i = Some (Bitvec sz ns 0 (aBitmap ?m))"
        using small k m True by (simp add: i_and_7)
      have "bit (?m ! (j div 8)) (j mod 8) \<longleftrightarrow> bit (m ! (j div 8)) (j mod 8) \<and> j \<noteq> i" for j
      proof (cases "j div 8 = ?k")
        case eq: True
        have "j mod 8 < 8" by simp
        then show ?thesis using eq k m div_mod_eq_iff [OF eq] by (auto simp: bit_simps)
      next
        case False
        then show ?thesis by auto
      qed
      with cl "1.prems" small m True show ?thesis by (auto simp: bv_mem_bitmap)
    next
      case False
      with True "1.prems" obtain a where a: "uu = aHash a" "hash_ok sz ns a"
        by (auto split: bitvec_u.splits)
      have "hash_ok sz 0 (replicate BITVEC_NINT 0)"
        using bh.probe_ok_empty bh.N_pos by (simp add: hash_ok_def)
      then obtain ns' a' where r: "bitvecClearLoop a i 0 (replicate BITVEC_NINT 0) = Some (ns', a')"
          "hash_ok sz ns' a'" "set a' - {0} = (set (replicate BITVEC_NINT 0) \<union> (set a - {i + 1})) - {0}"
        using clearLoop_ok [of sz 0 "replicate BITVEC_NINT 0" a i] a(2) by (auto simp: hash_ok_def)
      have "j + 1 \<in> set a' \<longleftrightarrow> j + 1 \<in> set a \<and> j \<noteq> i" for j
      proof -
        have "j + 1 \<in> set a' - {0} \<longleftrightarrow> j + 1 \<in> (set (replicate BITVEC_NINT 0) \<union> (set a - {i + 1})) - {0}"
          unfolding r(3) ..
        then show ?thesis by auto
      qed
      with False True a r "1.prems" show ?thesis by (auto simp: bv_mem_hash [of sz ns] bv_mem_hash [of sz ns'])
    qed
  next
    case False
    obtain ps where ps: "uu = apSub ps" "length ps = BITVEC_NPTR" "BITVEC_NBIT < sz"
        "d = (sz + BITVEC_NPTR - 1) div BITVEC_NPTR"
        "\<And>k q. \<lbrakk>k < BITVEC_NPTR; ps ! k = Some q\<rbrakk> \<Longrightarrow> bv_ok q \<and> iSize q = d"
      using sub_ok [OF "1.prems"(1) False] by metis
    have bin: "j div d < BITVEC_NPTR" if "j < sz" for j using that ps(4) bin_less by simp
    show ?thesis
    proof (cases "ps ! (i div d)")
      case None
      have "bitvecClearWalk (Bitvec sz ns d uu) i = Some (Bitvec sz ns d uu)"
        using None False bin [OF i] ps by simp
      moreover have "\<not> bv_mem (Bitvec sz ns d uu) i"
        using None False bin [OF i] ps(1,2) by (simp add: bv_mem_sub)
      ultimately show ?thesis using "1.prems" by auto
    next
      case (Some q)
      note q = ps(5) [OF bin [OF i] Some]
      have "i mod d < iSize q" using q False by simp
      then obtain q' where q': "bitvecClearWalk q (i mod d) = Some q'" "bv_ok q'" "iSize q' = d"
          "\<forall>j<d. bv_mem q' j \<longleftrightarrow> bv_mem q j \<and> j \<noteq> i mod d"
        using "1.IH" [OF False ps(1) _ Some] q bin [OF i] ps(2) by auto
      let ?p' = "Bitvec sz ns d (apSub (ps[i div d := Some q']))"
      have cl: "bitvecClearWalk (Bitvec sz ns d uu) i = Some ?p'"
        using Some False bin [OF i] ps q'(1) by simp
      have ok: "bv_ok ?p'"
        using "1.prems"(1) q'(2,3) ps(1,2) False set_update_subset_insert [of ps "i div d" "Some q'"] by auto
      have "bv_mem ?p' j \<longleftrightarrow> bv_mem (Bitvec sz ns d uu) j \<and> j \<noteq> i" if "j < sz" for j
      proof (cases "j div d = i div d")
        case True
        have "j mod d < d" using False by simp
        then show ?thesis
          using True False Some bin [OF that] ps(1,2) q'(4) div_mod_eq_iff [OF True] by (auto simp: bv_mem_sub)
      next
        case ne: False
        then show ?thesis using False bin [OF that] ps(1,2) by (auto simp: bv_mem_sub)
      qed
      with cl ok show ?thesis by (auto simp del: bv_ok.simps)
    qed
  qed
qed

section \<open>The contract of a bitmap\<close>

text \<open>
  What the pager relies on: a bitmap of size \<open>n\<close> behaves like a set of page numbers between 1 and
  \<open>n\<close>. The locale is interpreted on the operations of \<^verbatim>\<open>bitvec.c\<close> below.
\<close>

datatype bit_op = SetBit nat | ClearBit nat

fun ref_step :: "bit_op \<Rightarrow> nat set \<Rightarrow> nat set" where
  "ref_step (SetBit i) S = insert i S"
| "ref_step (ClearBit i) S = S - {i}"

fun op_index :: "bit_op \<Rightarrow> nat" where
  "op_index (SetBit i) = i"
| "op_index (ClearBit i) = i"

locale page_bitmap =
  fixes new :: "nat \<Rightarrow> 's" and test :: "'s \<Rightarrow> nat \<Rightarrow> bool" and add :: "'s \<Rightarrow> nat \<Rightarrow> 's"
    and del :: "'s \<Rightarrow> nat \<Rightarrow> 's" and invar :: "nat \<Rightarrow> 's \<Rightarrow> bool" and limit :: nat
  assumes new_invar: "n < limit \<Longrightarrow> invar n (new n)"
    and new_test: "n < limit \<Longrightarrow> \<not> test (new n) j"
    and add_invar: "\<lbrakk>invar n s; 0 < i; i \<le> n\<rbrakk> \<Longrightarrow> invar n (add s i)"
    and add_test: "\<lbrakk>invar n s; 0 < i; i \<le> n\<rbrakk> \<Longrightarrow> test (add s i) j \<longleftrightarrow> j = i \<or> test s j"
    and del_invar: "\<lbrakk>invar n s; 0 < i; i \<le> n\<rbrakk> \<Longrightarrow> invar n (del s i)"
    and del_test: "\<lbrakk>invar n s; 0 < i; i \<le> n\<rbrakk> \<Longrightarrow> test (del s i) j \<longleftrightarrow> test s j \<and> j \<noteq> i"
begin

lemma ops_ref:
  "\<lbrakk>invar n s; \<forall>x\<in>set ops. 0 < op_index x \<and> op_index x \<le> n\<rbrakk> \<Longrightarrow>
   invar n (fold (\<lambda>x s. case x of SetBit i \<Rightarrow> add s i | ClearBit i \<Rightarrow> del s i) ops s) \<and>
   {j. test (fold (\<lambda>x s. case x of SetBit i \<Rightarrow> add s i | ClearBit i \<Rightarrow> del s i) ops s) j} =
     fold ref_step ops {j. test s j}"
proof (induction ops arbitrary: s)
  case Nil
  then show ?case by simp
next
  case (Cons x ops)
  show ?case
  proof (cases x)
    case (SetBit i)
    then have i: "0 < i" "i \<le> n" using Cons.prems(2) by simp_all
    have "{j. test (add s i) j} = insert i {j. test s j}"
      using add_test [OF Cons.prems(1) i] by auto
    then show ?thesis
      using Cons.IH [OF add_invar [OF Cons.prems(1) i]] Cons.prems(2) SetBit by simp
  next
    case (ClearBit i)
    then have i: "0 < i" "i \<le> n" using Cons.prems(2) by simp_all
    have "{j. test (del s i) j} = {j. test s j} - {i}"
      using del_test [OF Cons.prems(1) i] by auto
    then show ?thesis
      using Cons.IH [OF del_invar [OF Cons.prems(1) i]] Cons.prems(2) ClearBit by simp
  qed
qed

lemma new_ops_ref:
  assumes "n < limit" "\<forall>x\<in>set ops. 0 < op_index x \<and> op_index x \<le> n"
  shows "{j. test (fold (\<lambda>x s. case x of SetBit i \<Rightarrow> add s i | ClearBit i \<Rightarrow> del s i) ops (new n)) j} =
    fold ref_step ops {}"
  using ops_ref [OF new_invar [OF assms(1)] assms(2)] new_test [OF assms(1)] by simp

end

text \<open>
  Nine nested calls are enough for every size below \<open>2 ^ 32\<close>.
\<close>

lemma bv_depth_step:
  assumes "sz \<le> B" "(B + 61) div 62 \<le> C" "\<And>s. s \<le> C \<Longrightarrow> bv_depth s \<le> k" "1 \<le> k"
  shows "bv_depth sz \<le> k + 2"
proof -
  have "(sz + BITVEC_NPTR - 1) div BITVEC_NPTR \<le> C"
    using div_le_mono [of "sz + 61" "B + 61" 62] assms(1,2) by (simp add: bitvec_consts)
  then show ?thesis using assms(3,4) by (simp add: bv_depth.simps [of sz])
qed

lemma bv_depth_9: "sz < 2 ^ 32 \<Longrightarrow> bv_depth sz \<le> 9"
proof -
  assume sz: "sz < 2 ^ 32"
  have 1: "bv_depth s \<le> 1" if "s \<le> 3968" for s
    using that by (simp add: bv_depth.simps bitvec_consts)
  have 3: "bv_depth s \<le> 3" if "s \<le> 18023" for s
    using bv_depth_step [of s 18023 3968 1, OF that _ 1] by simp
  have 5: "bv_depth s \<le> 5" if "s \<le> 1117319" for s
    using bv_depth_step [of s 1117319 18023 3, OF that _ 3] by simp
  have 7: "bv_depth s \<le> 7" if "s \<le> 69273667" for s
    using bv_depth_step [of s 69273667 1117319 5, OF that _ 5] by simp
  show ?thesis
    using bv_depth_step [of sz "4294967295" 69273667 7, OF _ _ 7] sz by (simp add: bitvec_consts)
qed

lemma bv_ok_range: "bv_ok p \<Longrightarrow> iSize p < 2 ^ 32"
  by (cases p) simp

lemma test_eq: "bv_ok p \<Longrightarrow> sqlite3BitvecTest (Some p) j = Some (0 < j \<and> j \<le> iSize p \<and> bv_mem p (j - 1))"
  using testWalk_defined [of p "j - 1"] by (auto simp: sqlite3BitvecTest_def)

lemma set_eq:
  assumes "bv_ok p" "0 < i" "i \<le> iSize p"
  shows "\<exists>rc p' al'. sqlite3BitvecSet 9 al (Some p) i = Some (rc, Some p', al') \<and> set_post al p {i} rc p' al'"
proof -
  have "bv_need p \<le> 9"
    using bv_need_depth [of p] bv_depth_9 [OF bv_ok_range [OF assms(1)]] by simp
  then show ?thesis
    using sets_bitsD [OF bitvecSet_sets assms] by (metis (mono_tags, lifting) sqlite3BitvecSet_def
        case_prod_conv option.simps(5) option.simps(9))
qed

text \<open>The operations as the pager sees them when no allocation fails.\<close>

definition bv_new :: "nat \<Rightarrow> bitvec" where
  "bv_new n = the (fst (sqlite3BitvecCreate [] n))"

definition bv_test :: "bitvec \<Rightarrow> nat \<Rightarrow> bool" where
  "bv_test p i \<longleftrightarrow> sqlite3BitvecTest (Some p) i = Some True"

definition bv_add :: "bitvec \<Rightarrow> nat \<Rightarrow> bitvec" where
  "bv_add p i = (case sqlite3BitvecSet 9 [] (Some p) i of Some (rc, Some p', al) \<Rightarrow> p' | _ \<Rightarrow> p)"

definition bv_del :: "bitvec \<Rightarrow> nat \<Rightarrow> bitvec" where
  "bv_del p i = (case sqlite3BitvecClear (Some p) i of Some (Some p') \<Rightarrow> p' | _ \<Rightarrow> p)"

lemma bv_new_ok: "n < 2 ^ 32 \<Longrightarrow> bv_ok (bv_new n) \<and> iSize (bv_new n) = n \<and> \<not> bv_test (bv_new n) j"
proof -
  assume n: "n < 2 ^ 32"
  obtain p where p: "sqlite3BitvecCreate [] n = (Some p, [])"
    by (simp add: sqlite3BitvecCreate_def)
  note c = create_ok [OF p n]
  then have "\<not> bv_test p j" using test_eq [of p j] by (auto simp: bv_test_def)
  with c p show ?thesis by (simp add: bv_new_def)
qed

lemma bv_add_ok:
  assumes "bv_ok p" "0 < i" "i \<le> iSize p"
  shows "bv_ok (bv_add p i) \<and> iSize (bv_add p i) = iSize p \<and> (bv_test (bv_add p i) j \<longleftrightarrow> j = i \<or> bv_test p j)"
proof -
  obtain rc p' al' where r: "sqlite3BitvecSet 9 [] (Some p) i = Some (rc, Some p', al')"
      "set_post [] p {i} rc p' al'"
    using set_eq [OF assms] by blast
  note d = set_postD [OF r(2)]
  have "bv_test p' j \<longleftrightarrow> j = i \<or> bv_test p j"
    using d(1,2,7) d(6) [of "j - 1"] assms test_eq [OF d(1), of j] test_eq [OF assms(1), of j]
    by (cases "j = 0") (auto simp: bv_test_def)
  with d r(1) show ?thesis by (simp add: bv_add_def)
qed

lemma bv_del_ok:
  assumes "bv_ok p" "0 < i" "i \<le> iSize p"
  shows "bv_ok (bv_del p i) \<and> iSize (bv_del p i) = iSize p \<and> (bv_test (bv_del p i) j \<longleftrightarrow> bv_test p j \<and> j \<noteq> i)"
proof -
  have "i - 1 < iSize p" using assms by simp
  then obtain p' where p': "bitvecClearWalk p (i - 1) = Some p'" "bv_ok p'" "iSize p' = iSize p"
      "\<forall>j < iSize p. bv_mem p' j \<longleftrightarrow> bv_mem p j \<and> j \<noteq> i - 1"
    using clearWalk_ok [OF assms(1)] by blast
  then have "bv_test p' j \<longleftrightarrow> bv_test p j \<and> j \<noteq> i"
    using assms test_eq [OF p'(2), of j] test_eq [OF assms(1), of j]
    by (cases "j = 0") (auto simp: bv_test_def)
  with p' show ?thesis by (simp add: bv_del_def sqlite3BitvecClear_def)
qed

interpretation bv: page_bitmap bv_new bv_test bv_add bv_del "\<lambda>n p. bv_ok p \<and> iSize p = n" "2 ^ 32"
  by unfold_locales (use bv_new_ok bv_add_ok bv_del_ok in \<open>auto simp del: bv_ok.simps\<close>)

section \<open>Properties\<close>

text \<open>C29. Setting a bit of a well-formed bitmap returns within nine nested calls, in all three
  representations and across the conversion from one to the next, for every pattern of allocation
  failures: the result is well formed, on \<^verbatim>\<open>SQLITE_OK\<close> exactly the given bit is added, on
  \<^verbatim>\<open>SQLITE_NOMEM\<close> no other bit appears, and without failures the operation succeeds.\<close>

theorem sqlite3BitvecSet_correct:
  assumes "bv_ok p" "0 < i" "i \<le> iSize p"
  shows "\<exists>rc p' al'. sqlite3BitvecSet 9 al (Some p) i = Some (rc, Some p', al') \<and>
    bv_ok p' \<and> iSize p' = iSize p \<and>
    (rc = SQLITE_OK \<longrightarrow> (\<forall>j. sqlite3BitvecTest (Some p') j =
        Some (j = i \<or> sqlite3BitvecTest (Some p) j = Some True))) \<and>
    (rc \<noteq> SQLITE_OK \<longrightarrow> rc = SQLITE_NOMEM \<and>
      (\<forall>j. sqlite3BitvecTest (Some p') j = Some True \<longrightarrow> j = i \<or> sqlite3BitvecTest (Some p) j = Some True)) \<and>
    (al = [] \<longrightarrow> rc = SQLITE_OK)"
proof -
  obtain rc p' al' where r: "sqlite3BitvecSet 9 al (Some p) i = Some (rc, Some p', al')"
      "set_post al p {i} rc p' al'"
    using set_eq [OF assms] by blast
  note d = set_postD [OF r(2)]
  have "sqlite3BitvecTest (Some p') j = Some (j = i \<or> sqlite3BitvecTest (Some p) j = Some True)"
    if "rc = SQLITE_OK" for j
    using d(6) [OF that, of "j - 1"] d(2) assms test_eq [OF d(1), of j] test_eq [OF assms(1), of j]
    by (cases "j = 0") auto
  moreover have "j = i \<or> sqlite3BitvecTest (Some p) j = Some True"
    if "sqlite3BitvecTest (Some p') j = Some True" for j
    using that d(5) [of "j - 1"] d(2) test_eq [OF d(1), of j] test_eq [OF assms(1), of j] by auto
  ultimately show ?thesis using r(1) d(1,2,4,7) by blast
qed

theorem sqlite3BitvecSet_correct_witness:
  "\<exists>rc p' al'. sqlite3BitvecSet 9 [] (Some (bv_new 5000)) 4321 = Some (rc, Some p', al') \<and>
    rc = SQLITE_OK \<and> sqlite3BitvecTest (Some p') 4321 = Some True \<and> sqlite3BitvecTest (Some p') 1 = Some False"
proof -
  have n: "bv_ok (bv_new 5000)" "iSize (bv_new 5000) = 5000" "\<not> bv_test (bv_new 5000) 1"
    using bv_new_ok [of 5000 1] by simp_all
  show ?thesis
    using sqlite3BitvecSet_correct [of "bv_new 5000" 4321 "[]"] n by (auto simp: bv_test_def)
qed

text \<open>Clearing a bit of a well-formed bitmap keeps it well formed and removes exactly that bit,
  also in the hash form, where the table is rebuilt.\<close>

theorem sqlite3BitvecClear_correct:
  assumes "bv_ok p" "0 < i" "i \<le> iSize p"
  shows "\<exists>p'. sqlite3BitvecClear (Some p) i = Some (Some p') \<and> bv_ok p' \<and> iSize p' = iSize p \<and>
    (\<forall>j. sqlite3BitvecTest (Some p') j = Some (j \<noteq> i \<and> sqlite3BitvecTest (Some p) j = Some True))"
proof -
  have "i - 1 < iSize p" using assms by simp
  then obtain p' where p': "bitvecClearWalk p (i - 1) = Some p'" "bv_ok p'" "iSize p' = iSize p"
      "\<forall>j < iSize p. bv_mem p' j \<longleftrightarrow> bv_mem p j \<and> j \<noteq> i - 1"
    using clearWalk_ok [OF assms(1)] by blast
  have "sqlite3BitvecTest (Some p') j = Some (j \<noteq> i \<and> sqlite3BitvecTest (Some p) j = Some True)" for j
    using p'(3,4) assms test_eq [OF p'(2), of j] test_eq [OF assms(1), of j] by (cases "j = 0") auto
  with p' show ?thesis by (auto simp: sqlite3BitvecClear_def)
qed

theorem sqlite3BitvecClear_correct_witness:
  "\<exists>p'. sqlite3BitvecClear (Some (bv_add (bv_new 5000) 17)) 17 = Some (Some p') \<and>
     sqlite3BitvecTest (Some p') 17 = Some False"
proof -
  have n: "bv_ok (bv_new 5000)" "iSize (bv_new 5000) = 5000" using bv_new_ok [of 5000 1] by simp_all
  then have "bv_ok (bv_add (bv_new 5000) 17)" "iSize (bv_add (bv_new 5000) 17) = 5000"
    using bv_add_ok [of "bv_new 5000" 17] by simp_all
  then show ?thesis using sqlite3BitvecClear_correct [of "bv_add (bv_new 5000) 17" 17] by auto
qed

text \<open>C28. A bitmap refines a set of page numbers: after any sequence of set and clear operations on
  a fresh bitmap, without allocation failures, the bits that test true are those of the set that
  the same operations give.\<close>

theorem bitvec_refines_set:
  assumes "n < 2 ^ 32" "\<forall>x\<in>set ops. 0 < op_index x \<and> op_index x \<le> n"
  shows "{j. bv_test (fold (\<lambda>x s. case x of SetBit i \<Rightarrow> bv_add s i | ClearBit i \<Rightarrow> bv_del s i) ops (bv_new n)) j} =
    fold ref_step ops {}"
  using bv.new_ops_ref [OF assms] .

theorem bitvec_refines_set_witness:
  "{j. bv_test (fold (\<lambda>x s. case x of SetBit i \<Rightarrow> bv_add s i | ClearBit i \<Rightarrow> bv_del s i)
      [SetBit 3, SetBit 99999, ClearBit 3] (bv_new 100000)) j} = {99999}"
  using bitvec_refines_set [of 100000 "[SetBit 3, SetBit 99999, ClearBit 3]"]
  by (simp add: insert_Diff_if)

end
