(* ===== verification/Rowset.thy ===== *)
theory Rowset
  imports Prelude "HOL-Library.Tree"
begin

text \<open>
  \<^verbatim>\<open>rowset.c\<close>: collections of rowids. Inserted rowids go to a list; a test with a new batch number
  sorts the list into a forest of search trees, and \<^verbatim>\<open>sqlite3RowSetNext\<close> extracts the elements
  in ascending order. The theory holds the merge, the bucket sort, the conversions between lists
  and trees and the operations of the module, and relates them to sets of rowids.

  Entries are owned by exactly one list or tree at a time, so a chain of \<^verbatim>\<open>pRight\<close> pointers is a
  list and a tree of \<^verbatim>\<open>pLeft\<close>/\<^verbatim>\<open>pRight\<close> pointers a tree; \<^const>\<open>Leaf\<close> is the null pointer. The
  module compares rowids and does no arithmetic on them, so an \<^verbatim>\<open>i64\<close> is an \<^typ>\<open>int\<close> here.
\<close>

section \<open>The state\<close>

type_synonym rowid = int

text \<open>
  \<open>pLast\<close> is the value of the last entry of the \<^verbatim>\<open>pEntry\<close> list, \<open>None\<close> for the null pointer; the
  chunk list is represented by its length, and \<open>forest\<close> lists the \<^verbatim>\<open>pLeft\<close> trees of the entries
  on the \<^verbatim>\<open>pForest\<close> list. The two bits of \<^verbatim>\<open>rsFlags\<close> are two booleans.
\<close>

record rowset =
  nChunk :: nat
  pEntry :: "rowid list"
  pLast :: "rowid option"
  nFresh :: nat
  pForest :: "rowid tree list"
  ROWSET_SORTED :: bool
  ROWSET_NEXT :: bool
  iBatch :: u8

definition ROWSET_ALLOCATION_SIZE :: nat where
  "ROWSET_ALLOCATION_SIZE = 1024"

definition sizeof_RowSetEntry :: nat where
  "sizeof_RowSetEntry = 24"

definition sizeof_RowSet :: nat where
  "sizeof_RowSet = 56"

definition ROWSET_ENTRY_PER_CHUNK :: nat where
  "ROWSET_ENTRY_PER_CHUNK = (ROWSET_ALLOCATION_SIZE - 8) div sizeof_RowSetEntry"

definition sqlite3RowSetInit :: "nat \<Rightarrow> rowset" where
  "sqlite3RowSetInit N = \<lparr> nChunk = 0, pEntry = [], pLast = None,
     nFresh = ((N - sizeof_RowSet) div sizeof_RowSetEntry) mod 2 ^ 16,
     pForest = [], ROWSET_SORTED = True, ROWSET_NEXT = False, iBatch = 0 \<rparr>"


text \<open>The boolean says whether an entry was obtained.\<close>

definition rowSetEntryAlloc :: "rowset \<Rightarrow> allocs \<Rightarrow> bool \<times> rowset \<times> allocs" where
  "rowSetEntryAlloc p al =
     (if nFresh p = 0 then
        (case sqlite3_alloc al of (ok, al') \<Rightarrow>
           if \<not> ok then (False, p, al')
           else (True, p \<lparr> nChunk := nChunk p + 1, nFresh := ROWSET_ENTRY_PER_CHUNK - 1 \<rparr>, al'))
      else (True, p \<lparr> nFresh := nFresh p - 1 \<rparr>, al))"

definition sqlite3RowSetInsert :: "rowset \<Rightarrow> rowid \<Rightarrow> allocs \<Rightarrow> rowset \<times> allocs" where
  "sqlite3RowSetInsert p rowid al =
     (case rowSetEntryAlloc p al of (ok, p, al) \<Rightarrow>
        if \<not> ok then (p, al)
        else case pLast p of
          None \<Rightarrow> (p \<lparr> pEntry := [rowid], pLast := Some rowid \<rparr>, al)
        | Some l \<Rightarrow>
            (p \<lparr> ROWSET_SORTED := (if ROWSET_SORTED p \<and> rowid \<le> l then False else ROWSET_SORTED p),
                 pEntry := pEntry p @ [rowid], pLast := Some rowid \<rparr>, al))"

section \<open>Merging and sorting\<close>

fun rowSetEntryMerge :: "rowid list \<Rightarrow> rowid list \<Rightarrow> rowid list" where
  "rowSetEntryMerge (a # pA) (b # pB) =
     (if a < b then a # rowSetEntryMerge pA (b # pB)
      else if b < a then b # rowSetEntryMerge (a # pA) pB
      else rowSetEntryMerge pA (b # pB))"
| "rowSetEntryMerge [] pB = pB"
| "rowSetEntryMerge pA [] = pA"

text \<open>
  One round of the sort: carry the run \<open>pIn\<close> through the occupied buckets to the first free one.
  \<open>None\<close> is the read past the end of \<^verbatim>\<open>aBucket\<close>.
\<close>

fun rowSetBucketAdd :: "rowid list list \<Rightarrow> rowid list \<Rightarrow> rowid list list option" where
  "rowSetBucketAdd [] pIn = None"
| "rowSetBucketAdd (b # bs) pIn =
     (if b = [] then Some (pIn # bs)
      else map_option (Cons []) (rowSetBucketAdd bs (rowSetEntryMerge b pIn)))"

fun rowSetBuckets :: "rowid list list \<Rightarrow> rowid list \<Rightarrow> rowid list list option" where
  "rowSetBuckets aBucket [] = Some aBucket"
| "rowSetBuckets aBucket (v # pNext) =
     do { aBucket \<leftarrow> rowSetBucketAdd aBucket [v]; rowSetBuckets aBucket pNext }"

definition rowSetEntrySort :: "rowid list \<Rightarrow> rowid list option" where
  "rowSetEntrySort pIn =
     do { aBucket \<leftarrow> rowSetBuckets (replicate 40 []) pIn;
          Some (fold (\<lambda>b p. rowSetEntryMerge p b) aBucket []) }"

section \<open>Lists and trees\<close>

fun rowSetTreeToList :: "rowid tree \<Rightarrow> rowid list" where
  "rowSetTreeToList Leaf = []"
| "rowSetTreeToList (Node pLeft v pRight) =
     (if pLeft \<noteq> Leaf then rowSetTreeToList pLeft @ [v] else [v])
     @ (if pRight \<noteq> Leaf then rowSetTreeToList pRight else [])"

text \<open>The depth argument is at least 1 in every call of the C code.\<close>

fun rowSetNDeepTree :: "rowid list \<Rightarrow> nat \<Rightarrow> rowid tree \<times> rowid list" where
  "rowSetNDeepTree [] iDepth = (Leaf, [])"
| "rowSetNDeepTree (v # pList) 0 = (Leaf, v # pList)"
| "rowSetNDeepTree (v # pList) (Suc 0) = (Node Leaf v Leaf, pList)"
| "rowSetNDeepTree (v # pList) (Suc (Suc d)) =
     (case rowSetNDeepTree (v # pList) (Suc d) of (pLeft, rest) \<Rightarrow>
        (case rest of
           [] \<Rightarrow> (pLeft, [])
         | w # rest' \<Rightarrow>
             (case rowSetNDeepTree rest' (Suc d) of (pRight, rest'') \<Rightarrow>
                (Node pLeft w pRight, rest''))))"

lemma rowSetNDeepTree_shorter: "length (snd (rowSetNDeepTree xs d)) \<le> length xs"
  by (induction xs d rule: rowSetNDeepTree.induct)
     (force split: prod.splits list.splits)+

function rowSetGrowTree :: "rowid tree \<Rightarrow> rowid list \<Rightarrow> nat \<Rightarrow> rowid tree" where
  "rowSetGrowTree p [] iDepth = p"
| "rowSetGrowTree p (v # pList) iDepth =
     (case rowSetNDeepTree pList iDepth of (pRight, rest) \<Rightarrow>
        rowSetGrowTree (Node p v pRight) rest (iDepth + 1))"
  by pat_completeness auto
termination
proof (relation "measure (\<lambda>(p, xs, d). length xs)", simp_all)
  fix pList :: "rowid list" and d r rest
  assume "(r, rest) = rowSetNDeepTree pList d"
  then show "length rest < Suc (length pList)"
    using rowSetNDeepTree_shorter [of pList d] by (metis le_imp_less_Suc snd_conv)
qed

definition rowSetListToTree :: "rowid list \<Rightarrow> rowid tree" where
  "rowSetListToTree xs =
     (case xs of [] \<Rightarrow> Leaf | v # pList \<Rightarrow> rowSetGrowTree (Node Leaf v Leaf) pList 1)"

section \<open>Extraction and membership\<close>



text \<open>
  The loop over the forest on the first test of a batch: merge the trees met on the way into the
  list, and store the list as a tree in the first empty position. The second component is the list
  when the forest ends first.
\<close>

fun rowSetForestAdd :: "rowid tree list \<Rightarrow> rowid list \<Rightarrow> rowid tree list \<times> rowid list option" where
  "rowSetForestAdd [] p = ([], Some p)"
| "rowSetForestAdd (t # ts) p =
     (if t = Leaf then (rowSetListToTree p # ts, None)
      else case rowSetForestAdd ts (rowSetEntryMerge (rowSetTreeToList t) p) of
             (ts', r) \<Rightarrow> (Leaf # ts', r))"

definition rowSetNewBatch :: "rowset \<Rightarrow> allocs \<Rightarrow> (rowset \<times> allocs) option" where
  "rowSetNewBatch rs al =
     do { p \<leftarrow> (if \<not> ROWSET_SORTED rs then rowSetEntrySort (pEntry rs) else Some (pEntry rs));
          let (ts, over) = rowSetForestAdd (pForest rs) p;
          let (rs, al) =
            (case over of
               None \<Rightarrow> (rs \<lparr> pForest := ts \<rparr>, al)
             | Some p \<Rightarrow>
                 (case rowSetEntryAlloc rs al of (ok, rs, al) \<Rightarrow>
                    (rs \<lparr> pForest := (if ok then ts @ [rowSetListToTree p] else ts) \<rparr>, al)));
          Some (rs \<lparr> pEntry := [], pLast := None, ROWSET_SORTED := True \<rparr>, al) }"

fun rowSetSearch :: "rowid tree \<Rightarrow> rowid \<Rightarrow> bool" where
  "rowSetSearch Leaf iRowid = False"
| "rowSetSearch (Node l v r) iRowid =
     (if v < iRowid then rowSetSearch r iRowid
      else if v > iRowid then rowSetSearch l iRowid
      else True)"

definition sqlite3RowSetTest ::
    "rowset \<Rightarrow> u8 \<Rightarrow> rowid \<Rightarrow> allocs \<Rightarrow> (bool \<times> rowset \<times> allocs) option" where
  "sqlite3RowSetTest rs iBatch' iRowid al =
     do { (rs, al) \<leftarrow>
            (if iBatch' \<noteq> iBatch rs then
               do { (rs, al) \<leftarrow> (if pEntry rs \<noteq> [] then rowSetNewBatch rs al else Some (rs, al));
                    Some (rs \<lparr> iBatch := iBatch' \<rparr>, al) }
             else Some (rs, al));
          Some (list_ex (\<lambda>t. rowSetSearch t iRowid) (pForest rs), rs, al) }"

section \<open>Correctness of the merge and the sort\<close>

lemma set_rowSetEntryMerge [simp]: "set (rowSetEntryMerge xs ys) = set xs \<union> set ys"
  by (induction xs ys rule: rowSetEntryMerge.induct) auto

lemma rowSetEntryMerge_Nil2 [simp]: "rowSetEntryMerge xs [] = xs"
  by (cases xs) auto

lemma rowSetEntryMerge_eq_Nil [simp]: "rowSetEntryMerge xs ys = [] \<longleftrightarrow> xs = [] \<and> ys = []"
  using set_rowSetEntryMerge [of xs ys] by (metis Un_empty set_empty)

lemma strict_sorted_rowSetEntryMerge:
  "sorted_wrt (<) xs \<Longrightarrow> sorted_wrt (<) ys \<Longrightarrow> sorted_wrt (<) (rowSetEntryMerge xs ys)"
  by (induction xs ys rule: rowSetEntryMerge.induct) auto

lemma strict_sorted_unique:
  "sorted_wrt (<) xs \<Longrightarrow> set xs = S \<Longrightarrow> xs = sorted_list_of_set (S :: rowid set)"
  by (metis sorted_list_of_set.idem_if_sorted_distinct strict_sorted_iff)

primrec bucketsOcc :: "rowid list list \<Rightarrow> nat" where
  "bucketsOcc [] = 0"
| "bucketsOcc (b # bs) = (if b = [] then 0 else 1) + 2 * bucketsOcc bs"

text \<open>The occupied buckets count in binary the rowids that were put in.\<close>

lemma rowSetBucketAdd_Some:
  assumes "bucketsOcc bs + 1 < 2 ^ length bs" and "x \<noteq> []"
  shows "\<exists>bs'. rowSetBucketAdd bs x = Some bs' \<and> length bs' = length bs
           \<and> bucketsOcc bs' = bucketsOcc bs + 1
           \<and> \<Union> (set ` set bs') = \<Union> (set ` set bs) \<union> set x
           \<and> ((\<forall>b\<in>set bs. sorted_wrt (<) b) \<longrightarrow> sorted_wrt (<) x \<longrightarrow> (\<forall>b\<in>set bs'. sorted_wrt (<) b))"
  using assms
proof (induction bs arbitrary: x)
  case (Cons b bs)
  show ?case
  proof (cases "b = []")
    case False
    then have "bucketsOcc bs + 1 < 2 ^ length bs" using Cons.prems by simp
    from Cons.IH [OF this, of "rowSetEntryMerge b x"] False
    show ?thesis by (auto simp: strict_sorted_rowSetEntryMerge)
  qed (use Cons.prems in auto)
qed simp

lemma rowSetBuckets_Some:
  assumes "bucketsOcc bs + length xs < 2 ^ length bs" and "\<forall>b\<in>set bs. sorted_wrt (<) b"
  shows "\<exists>bs'. rowSetBuckets bs xs = Some bs' \<and> \<Union> (set ` set bs') = \<Union> (set ` set bs) \<union> set xs
           \<and> (\<forall>b\<in>set bs'. sorted_wrt (<) b)"
  using assms
proof (induction xs arbitrary: bs)
  case (Cons v xs)
  from rowSetBucketAdd_Some [of bs "[v]"] Cons.prems
  obtain bs' where "rowSetBucketAdd bs [v] = Some bs'" "length bs' = length bs"
    "bucketsOcc bs' = bucketsOcc bs + 1" "\<Union> (set ` set bs') = \<Union> (set ` set bs) \<union> {v}"
    "\<forall>b\<in>set bs'. sorted_wrt (<) b"
    by auto
  then show ?case using Cons.IH [of bs'] Cons.prems by auto
qed simp

lemma fold_rowSetEntryMerge:
  assumes "\<forall>b\<in>set bs. sorted_wrt (<) b" and "sorted_wrt (<) p"
  shows "sorted_wrt (<) (fold (\<lambda>b p. rowSetEntryMerge p b) bs p)
       \<and> set (fold (\<lambda>b p. rowSetEntryMerge p b) bs p) = set p \<union> \<Union> (set ` set bs)"
  using assms by (induction bs arbitrary: p) (auto simp: strict_sorted_rowSetEntryMerge)

lemma bucketsOcc_replicate [simp]: "bucketsOcc (replicate n []) = 0"
  by (induction n) auto

lemma rowSetEntrySort_eq:
  assumes "length xs < 2 ^ 40"
  shows "rowSetEntrySort xs = Some (sorted_list_of_set (set xs))"
proof -
  from rowSetBuckets_Some [of "replicate 40 []" xs] assms
  obtain bs where bs: "rowSetBuckets (replicate 40 []) xs = Some bs"
    "\<Union> (set ` set bs) = set xs" "\<forall>b\<in>set bs. sorted_wrt (<) b"
    by auto
  then show ?thesis
    using fold_rowSetEntryMerge [of bs "[]"] by (simp add: rowSetEntrySort_def strict_sorted_unique)
qed

section \<open>Correctness of the tree conversions\<close>

lemma rowSetTreeToList_inorder [simp]: "rowSetTreeToList t = inorder t"
  by (induction t) auto

lemma rowSetNDeepTree_inorder:
  "rowSetNDeepTree xs d = (t, rest) \<Longrightarrow> inorder t @ rest = xs"
  by (induction xs d arbitrary: t rest rule: rowSetNDeepTree.induct)
     (force split: prod.splits list.splits)+

lemma rowSetNDeepTree_height:
  "rowSetNDeepTree xs d = (t, rest) \<Longrightarrow> height t \<le> d \<and> (rest \<noteq> [] \<longrightarrow> complete t \<and> height t = d)"
proof (induction xs d arbitrary: t rest rule: rowSetNDeepTree.induct)
  case (4 v pList d)
  then show ?case by (fastforce split: prod.splits list.splits)
qed auto

lemma rowSetGrowTree_inorder: "inorder (rowSetGrowTree p xs d) = inorder p @ xs"
proof (induction p xs d rule: rowSetGrowTree.induct)
  case (2 p v pList d)
  then show ?case
    by (auto split: prod.splits dest!: rowSetNDeepTree_inorder)
qed simp

lemma rowSetListToTree_inorder [simp]: "inorder (rowSetListToTree xs) = xs"
  by (simp add: rowSetListToTree_def rowSetGrowTree_inorder split: list.splits)

lemma inorder_eq_Nil: "inorder t = [] \<longleftrightarrow> t = Leaf"
  by (cases t) auto

lemma rowSetListToTree_Leaf [simp]: "rowSetListToTree xs = Leaf \<longleftrightarrow> xs = []"
  using inorder_eq_Nil [of "rowSetListToTree xs"] by simp

lemma set_tree_rowSetListToTree [simp]: "set_tree (rowSetListToTree xs) = set xs"
  using set_inorder [of "rowSetListToTree xs"] by simp

lemma rowSetSearch_iff:
  "sorted_wrt (<) (inorder t) \<Longrightarrow> rowSetSearch t v \<longleftrightarrow> v \<in> set_tree t"
  by (induction t) (auto simp: sorted_wrt_append simp flip: set_inorder)

text \<open>
  The trees built from a list have logarithmic depth: with the depth counter at \<open>d\<close>, the tree so
  far is complete of height \<open>d\<close> as long as elements are over.
\<close>

lemma rowSetGrowTree_height:
  assumes "complete p" and "height p = d" and "1 \<le> d"
  shows "2 ^ (height (rowSetGrowTree p xs d) - 1) \<le> size p + length xs + 1"
  using assms
proof (induction p xs d rule: rowSetGrowTree.induct)
  case (1 p d)
  then show ?case using size_if_complete [of p] by (cases d) auto
next
  case (2 p v pList d)
  obtain t rest where t: "rowSetNDeepTree pList d = (t, rest)" by fastforce
  note ht = rowSetNDeepTree_height [OF t]
  have len: "size t + length rest = length pList"
    using rowSetNDeepTree_inorder [OF t] by (metis length_append length_inorder)
  have sp: "size p + 1 = 2 ^ d" using 2 size1_if_complete [of p] by (simp add: size1_size)
  show ?case
  proof (cases "rest = []")
    case True
    have "height (Node p v t) = d + 1" using ht 2 by simp
    then show ?thesis using t True sp by simp
  next
    case False
    then have "complete (Node p v t)" "height (Node p v t) = d + 1" using ht 2 by auto
    from 2(1) [OF t [symmetric] this] show ?thesis using t len by simp
  qed
qed

section \<open>The invariant and the abstraction to sets\<close>

definition visible :: "rowset \<Rightarrow> rowid set" where
  "visible rs = \<Union> (set_tree ` set (pForest rs))"

definition pending :: "rowset \<Rightarrow> rowid set" where
  "pending rs = set (pEntry rs)"

definition rowset_ok :: "rowset \<Rightarrow> bool" where
  "rowset_ok rs \<longleftrightarrow>
     \<not> ROWSET_NEXT rs
     \<and> pLast rs = (if pEntry rs = [] then None else Some (last (pEntry rs)))
     \<and> (ROWSET_SORTED rs \<longrightarrow> sorted_wrt (<) (pEntry rs))
     \<and> (\<forall>t\<in>set (pForest rs). sorted_wrt (<) (inorder t))"

definition mem_ok :: "allocs \<Rightarrow> bool" where
  "mem_ok al = list_all (\<lambda>b. b) al"

lemma mem_ok_alloc: "mem_ok al \<Longrightarrow> sqlite3_alloc al = (ok, al') \<Longrightarrow> ok \<and> mem_ok al'"
  by (cases al) (auto simp: mem_ok_def)

lemma rowSetEntryAlloc_frame:
  assumes "rowSetEntryAlloc p al = (ok, p', al')"
  shows "pEntry p' = pEntry p" "pLast p' = pLast p" "pForest p' = pForest p"
    "ROWSET_SORTED p' = ROWSET_SORTED p" "ROWSET_NEXT p' = ROWSET_NEXT p" "iBatch p' = iBatch p"
    "mem_ok al \<Longrightarrow> ok \<and> mem_ok al'" "\<not> ok \<Longrightarrow> p' = p"
  using assms mem_ok_alloc
  by (auto simp: rowSetEntryAlloc_def split: prod.splits if_splits)

lemma sqlite3RowSetInsert_cases:
  assumes "rowset_ok p" and "sqlite3RowSetInsert p v al = (p', al')"
  shows "rowset_ok p' \<and> visible p' = visible p \<and> iBatch p' = iBatch p
       \<and> (p' = p \<or> pEntry p' = pEntry p @ [v])
       \<and> (mem_ok al \<longrightarrow> mem_ok al' \<and> pEntry p' = pEntry p @ [v])"
proof -
  obtain ok q bl where a: "rowSetEntryAlloc p al = (ok, q, bl)" by (metis prod_cases3)
  note fr = rowSetEntryAlloc_frame [OF a]
  have srt: "sorted_wrt (<) (xs @ [v])" if "sorted_wrt (<) xs" "xs \<noteq> []" "last xs < v"
    for xs :: "rowid list"
    using that
    by (induction xs) (auto simp: sorted_wrt_append split: if_splits, metis last_in_set less_trans)
  show ?thesis
    using assms a fr srt [of "pEntry p"]
    by (auto simp: sqlite3RowSetInsert_def rowset_ok_def visible_def split: option.splits if_splits)
qed

lemma rowSetForestAdd_ok:
  assumes "\<forall>t\<in>set ts. sorted_wrt (<) (inorder t)" and "sorted_wrt (<) p"
    and "rowSetForestAdd ts p = (ts', over)"
  shows "(\<forall>t\<in>set ts'. sorted_wrt (<) (inorder t))
       \<and> \<Union> (set_tree ` set ts') \<union> (case over of None \<Rightarrow> {} | Some q \<Rightarrow> set q)
         = \<Union> (set_tree ` set ts) \<union> set p
       \<and> (\<forall>q. over = Some q \<longrightarrow> sorted_wrt (<) q)"
  using assms
proof (induction ts p arbitrary: ts' over rule: rowSetForestAdd.induct)
  case (2 t ts p)
  show ?case
  proof (cases "t = Leaf")
    case False
    obtain us l where r: "rowSetForestAdd ts (rowSetEntryMerge (inorder t) p) = (us, l)"
      by fastforce
    then have "ts' = Leaf # us" "over = l" using 2(4) False by auto
    then show ?thesis
      using 2(1) [OF False, of us l] 2(2,3) r
      by (auto simp: strict_sorted_rowSetEntryMerge)
  qed (use 2 in auto)
qed auto

lemma rowset_sorted_entries:
  assumes "rowset_ok rs" and "length (pEntry rs) < 2 ^ 40"
  shows "(if \<not> ROWSET_SORTED rs then rowSetEntrySort (pEntry rs) else Some (pEntry rs))
       = Some (sorted_list_of_set (pending rs))"
  using assms rowSetEntrySort_eq [of "pEntry rs"] strict_sorted_unique [of "pEntry rs"]
  by (simp add: rowset_ok_def pending_def)

lemma rowSetNewBatch_ok:
  assumes "rowset_ok rs" and "length (pEntry rs) < 2 ^ 40"
  shows "\<exists>rs' al'. rowSetNewBatch rs al = Some (rs', al') \<and> rowset_ok rs' \<and> pEntry rs' = []
           \<and> visible rs' \<subseteq> visible rs \<union> pending rs
           \<and> (mem_ok al \<longrightarrow> mem_ok al' \<and> visible rs' = visible rs \<union> pending rs)"
proof -
  let ?p = "sorted_list_of_set (pending rs)"
  obtain ts over where f: "rowSetForestAdd (pForest rs) ?p = (ts, over)" by fastforce
  have fin: "finite (pending rs)" by (simp add: pending_def)
  have "sorted_wrt (<) ?p" by (rule strict_sorted_list_of_set)
  note fo = rowSetForestAdd_ok [OF _ this f, simplified set_sorted_list_of_set [OF fin]]
  show ?thesis
  proof (cases over)
    case None
    with fo f assms show ?thesis
      by (auto simp: rowSetNewBatch_def rowset_sorted_entries [OF assms] rowset_ok_def visible_def)
  next
    case (Some q)
    obtain ok rs1 al1 where a: "rowSetEntryAlloc rs al = (ok, rs1, al1)" by (metis prod_cases3)
    note fr = rowSetEntryAlloc_frame [OF a]
    from Some fo f assms a fr show ?thesis
      by (auto simp: rowSetNewBatch_def rowset_sorted_entries [OF assms] rowset_ok_def visible_def)
  qed
qed

lemma rowset_search_visible:
  "rowset_ok rs \<Longrightarrow> list_ex (\<lambda>t. rowSetSearch t v) (pForest rs) \<longleftrightarrow> v \<in> visible rs"
  by (auto simp: rowset_ok_def visible_def list_ex_iff rowSetSearch_iff)

section \<open>Sequences of operations\<close>

text \<open>
  A history of a batched set of rowids is a list of insertions \<open>Inl v\<close> and tests \<open>Inr (b, v)\<close>.
  \<open>runBatched\<close> executes one on a state with given operations and collects the answers of the tests;
  \<open>specBatched\<close> says what the answers have to be, from the visible and the pending rowids.
\<close>

fun runBatched :: "('s \<Rightarrow> rowid \<Rightarrow> 's) \<Rightarrow> ('s \<Rightarrow> 'b \<Rightarrow> rowid \<Rightarrow> (bool \<times> 's) option)
    \<Rightarrow> 's \<Rightarrow> (rowid + 'b \<times> rowid) list \<Rightarrow> bool list option" where
  "runBatched ins tst s [] = Some []"
| "runBatched ins tst s (Inl v # ops) = runBatched ins tst (ins s v) ops"
| "runBatched ins tst s (Inr (b, v) # ops) =
     do { (r, s) \<leftarrow> tst s b v; rs \<leftarrow> runBatched ins tst s ops; Some (r # rs) }"

fun specBatched :: "rowid set \<Rightarrow> rowid set \<Rightarrow> 'b \<Rightarrow> (rowid + 'b \<times> rowid) list \<Rightarrow> bool list" where
  "specBatched V P b [] = []"
| "specBatched V P b (Inl v # ops) = specBatched V (insert v P) b ops"
| "specBatched V P b (Inr (b', v) # ops) =
     (if b' = b then (v \<in> V) # specBatched V P b ops
      else (v \<in> V \<union> P) # specBatched (V \<union> P) {} b' ops)"

definition rowSetIns :: "rowset \<times> allocs \<Rightarrow> rowid \<Rightarrow> rowset \<times> allocs" where
  "rowSetIns s v = sqlite3RowSetInsert (fst s) v (snd s)"

definition rowSetTst :: "rowset \<times> allocs \<Rightarrow> u8 \<Rightarrow> rowid \<Rightarrow> (bool \<times> rowset \<times> allocs) option" where
  "rowSetTst s b v = sqlite3RowSetTest (fst s) b v (snd s)"


text \<open>
  The contract over any state: insertion adds to the pending rowids, a test with a new batch number
  makes them visible, and a test answers from the visible ones. \<open>room\<close> bounds the insertions the
  state still accepts.
\<close>

locale batched_set =
  fixes ins :: "'s \<Rightarrow> rowid \<Rightarrow> 's"
    and tst :: "'s \<Rightarrow> 'b \<Rightarrow> rowid \<Rightarrow> (bool \<times> 's) option"
    and inv :: "'s \<Rightarrow> bool"
    and vis :: "'s \<Rightarrow> rowid set"
    and pend :: "'s \<Rightarrow> rowid set"
    and batch :: "'s \<Rightarrow> 'b"
    and room :: "'s \<Rightarrow> nat"
  assumes ins_law: "inv s \<Longrightarrow>
      inv (ins s v) \<and> vis (ins s v) = vis s \<and> pend (ins s v) = insert v (pend s)
      \<and> batch (ins s v) = batch s \<and> room s \<le> Suc (room (ins s v))"
    and tst_law: "inv s \<Longrightarrow> 0 < room s \<Longrightarrow>
      \<exists>s'. tst s b v = Some (v \<in> vis s', s') \<and> inv s' \<and> batch s' = b
           \<and> vis s' = (if b = batch s then vis s else vis s \<union> pend s)
           \<and> pend s' = (if b = batch s then pend s else {}) \<and> room s \<le> room s'"
begin

lemma run_eq_spec:
  "inv s \<Longrightarrow> length ops < room s \<Longrightarrow>
   runBatched ins tst s ops = Some (specBatched (vis s) (pend s) (batch s) ops)"
proof (induction ops arbitrary: s)
  case (Cons op ops)
  show ?case
  proof (cases op)
    case (Inl v)
    have "length ops < room (ins s v)" using ins_law [of s v] Cons.prems by simp
    then show ?thesis using Inl Cons.IH [of "ins s v"] ins_law [of s v] Cons.prems by simp
  next
    case (Inr q)
    obtain b v where q: "q = (b, v)" by fastforce
    obtain s' where s': "tst s b v = Some (v \<in> vis s', s')" "inv s'" "batch s' = b"
      "vis s' = (if b = batch s then vis s else vis s \<union> pend s)"
      "pend s' = (if b = batch s then pend s else {})" "room s \<le> room s'"
      using tst_law [of s b v] Cons.prems by auto
    then have "length ops < room s'" using Cons.prems by simp
    with s' show ?thesis using Inr q Cons.IH [of s'] by auto
  qed
qed simp

end

lemma sqlite3RowSetTest_ok:
  assumes "rowset_ok rs" and "length (pEntry rs) < 2 ^ 40"
  shows "\<exists>rs' al'. sqlite3RowSetTest rs b v al = Some (v \<in> visible rs', rs', al')
           \<and> rowset_ok rs' \<and> iBatch rs' = b
           \<and> (if b = iBatch rs then rs' = rs \<and> al' = al
              else pEntry rs' = [] \<and> visible rs' \<subseteq> visible rs \<union> pending rs
                \<and> (mem_ok al \<longrightarrow> mem_ok al' \<and> visible rs' = visible rs \<union> pending rs))"
proof (cases "b = iBatch rs \<or> pEntry rs = []")
  case True
  moreover have ok: "rowset_ok (rs \<lparr> iBatch := b \<rparr>)" using assms by (simp add: rowset_ok_def)
  ultimately show ?thesis
    using rowset_search_visible [OF assms(1), of v] assms(1)
    by (auto simp: sqlite3RowSetTest_def visible_def pending_def)
next
  case False
  from rowSetNewBatch_ok [OF assms, of al] obtain rs1 al1 where
    n: "rowSetNewBatch rs al = Some (rs1, al1)" "rowset_ok rs1" "pEntry rs1 = []"
    "visible rs1 \<subseteq> visible rs \<union> pending rs"
    "mem_ok al \<longrightarrow> mem_ok al1 \<and> visible rs1 = visible rs \<union> pending rs"
    by blast
  let ?r = "rs1 \<lparr> iBatch := b \<rparr>"
  have ok: "rowset_ok ?r" and v: "visible ?r = visible rs1"
    using n(2) by (auto simp: rowset_ok_def visible_def)
  have "sqlite3RowSetTest rs b v al = Some (v \<in> visible ?r, ?r, al1)"
    using False n(1) rowset_search_visible [OF ok, of v] by (simp add: sqlite3RowSetTest_def)
  then show ?thesis
    by (intro exI [of _ ?r] exI [of _ al1]) (use False n ok v in auto)
qed

interpretation rs: batched_set rowSetIns rowSetTst
  "\<lambda>s. rowset_ok (fst s) \<and> mem_ok (snd s)" "\<lambda>s. visible (fst s)" "\<lambda>s. pending (fst s)"
  "\<lambda>s. iBatch (fst s)" "\<lambda>s. 2 ^ 40 - length (pEntry (fst s))"
proof (unfold_locales, goal_cases)
  case (1 s v)
  then show ?case
    using sqlite3RowSetInsert_cases [of "fst s" v "snd s" "fst (rowSetIns s v)" "snd (rowSetIns s v)"]
    by (auto simp: rowSetIns_def pending_def)
next
  case (2 s b v)
  then have "length (pEntry (fst s)) < 2 ^ 40" by simp
  from sqlite3RowSetTest_ok [OF _ this, of b v "snd s"] 2 obtain rs' al' where
    "sqlite3RowSetTest (fst s) b v (snd s) = Some (v \<in> visible rs', rs', al')"
    "rowset_ok rs'" "iBatch rs' = b" "mem_ok al'"
    "visible rs' = (if b = iBatch (fst s) then visible (fst s) else visible (fst s) \<union> pending (fst s))"
    "pEntry rs' = (if b = iBatch (fst s) then pEntry (fst s) else [])"
    by (cases "b = iBatch (fst s)") (auto simp: prod_eq_iff)
  then show ?case
    by (intro exI [of _ "(rs', al')"]) (auto simp: rowSetTst_def pending_def)
qed

lemma sqlite3RowSetInit_ok [simp]:
  "rowset_ok (sqlite3RowSetInit N)" "visible (sqlite3RowSetInit N) = {}"
  "pending (sqlite3RowSetInit N) = {}" "pEntry (sqlite3RowSetInit N) = []"
  "iBatch (sqlite3RowSetInit N) = 0"
  by (auto simp: sqlite3RowSetInit_def rowset_ok_def visible_def pending_def)


section \<open>Properties\<close>

text \<open>The bucket sort of fewer than \<open>2 ^ 40\<close> entries stays inside its forty buckets, and its
  result is the strictly ascending list of the rowids of the input, duplicates removed.\<close>

theorem rowSetEntrySort_correct:
  assumes "length pIn < 2 ^ 40"
  shows "\<exists>xs. rowSetEntrySort pIn = Some xs \<and> sorted_wrt (<) xs \<and> set xs = set pIn"
  using rowSetEntrySort_eq [OF assms] strict_sorted_list_of_set by fastforce

theorem rowSetEntrySort_correct_witness:
  "\<exists>xs. rowSetEntrySort [5, -3, 5, 0] = Some xs \<and> sorted_wrt (<) xs \<and> set xs = set [5, -3, 5, 0]"
  by (rule rowSetEntrySort_correct) simp

text \<open>A list turned into a tree keeps its elements in order, the tree built is the list again
  when it is flattened, and its depth is logarithmic: \<open>2 ^ (depth - 1)\<close> exceeds the length of the
  list by at most one.\<close>

theorem rowSetListToTree_correct:
  "rowSetTreeToList (rowSetListToTree xs) = xs
   \<and> 2 ^ (height (rowSetListToTree xs) - 1) \<le> length xs + 1"
proof (cases xs)
  case (Cons v ys)
  then show ?thesis
    using rowSetGrowTree_height [of "Node Leaf v Leaf" 1 ys] rowSetListToTree_inorder [of xs]
    by (simp add: rowSetListToTree_def)
qed (simp add: rowSetListToTree_def)

text \<open>C32. In a history of fewer than \<open>2 ^ 40\<close> insertions and tests on a new row set, as long as
  memory allocation succeeds, every test answers exactly whether its rowid was inserted before the
  last change of the batch number.\<close>

theorem sqlite3RowSetTest_history:
  assumes "length ops < 2 ^ 40" and "mem_ok al"
  shows "runBatched rowSetIns rowSetTst (sqlite3RowSetInit N, al) ops = Some (specBatched {} {} 0 ops)"
  using rs.run_eq_spec [of "(sqlite3RowSetInit N, al)" ops] assms by simp

theorem sqlite3RowSetTest_history_witness:
  "runBatched rowSetIns rowSetTst (sqlite3RowSetInit 56, [])
     [Inl 7, Inl 3, Inr (0, 3), Inr (1, 3), Inl 9, Inr (1, 9), Inr (2, 9)]
   = Some [False, True, False, True]"
  by (subst sqlite3RowSetTest_history) (auto simp: mem_ok_def)



end
