(* ===== verification/Memjournal.thy ===== *)
theory Memjournal
  imports Prelude
begin

text \<open>
  \<^verbatim>\<open>memjournal.c\<close>: the in-memory rollback journal, a file kept as a linked list of fixed-size
  chunks with a write cursor at its end and a read cursor after the last read. The theory holds
  all methods of the file object and shows that the journal is a byte sequence that is appended
  to and read by offset.

  Chunks are only added at the end of the list and only freed all together, so a chunk pointer
  is the position of the chunk in the list, and \<open>None\<close> is the null pointer. A cell that has been
  allocated and not written is \<open>None\<close>: its content is indeterminate. A null pointer that is
  dereferenced makes the whole operation \<open>None\<close>.
\<close>

section \<open>The state and the methods\<close>

type_synonym fileChunk = "u8 option list"

record filePoint =
  iOffset :: nat
  pChunk :: "nat option"

record memJournal =
  chunks :: "fileChunk list"
  endpoint :: filePoint
  readpoint :: filePoint

definition JOURNAL_CHUNKSIZE :: nat where
  "JOURNAL_CHUNKSIZE = 1024 - 8"

definition sqlite3MemJournalOpen :: memJournal where
  "sqlite3MemJournalOpen = \<lparr> chunks = [], endpoint = \<lparr> iOffset = 0, pChunk = None \<rparr>,
     readpoint = \<lparr> iOffset = 0, pChunk = None \<rparr> \<rparr>"

definition chunkNext :: "fileChunk list \<Rightarrow> nat \<Rightarrow> nat option" where
  "chunkNext cs k = (if Suc k < length cs then Some (Suc k) else None)"

text \<open>The scan from \<^verbatim>\<open>pFirst\<close> for the chunk that holds offset \<open>iOfst\<close>.\<close>

function memjrnlSeek :: "fileChunk list \<Rightarrow> nat \<Rightarrow> nat \<Rightarrow> nat \<Rightarrow> nat option" where
  "memjrnlSeek cs k iOff iOfst =
     (if k < length cs then
        (if iOff + JOURNAL_CHUNKSIZE \<le> iOfst
         then memjrnlSeek cs (Suc k) (iOff + JOURNAL_CHUNKSIZE) iOfst
         else Some k)
      else None)"
  by pat_completeness auto
termination
  by (relation "measure (\<lambda>(cs, k, _). length cs - k)") auto

text \<open>The \<^verbatim>\<open>do ... while\<close> loop of the read: the cells copied and the chunk the loop ends on.\<close>

function memjrnlCopy :: "fileChunk list \<Rightarrow> nat \<Rightarrow> int \<Rightarrow> nat \<Rightarrow> fileChunk \<times> nat option" where
  "memjrnlCopy cs k nRead iChunkOffset =
     (let iSpace = JOURNAL_CHUNKSIZE - iChunkOffset;
          nCopy = nat (min nRead (int iSpace));
          zOut = take nCopy (drop iChunkOffset (cs ! k));
          nRead = nRead - int iSpace
      in if nRead \<ge> 0 then
           (case chunkNext cs k of
              None \<Rightarrow> (zOut, None)
            | Some k' \<Rightarrow>
                if nRead > 0 then
                  (case memjrnlCopy cs k' nRead 0 of (zMore, pc) \<Rightarrow> (zOut @ zMore, pc))
                else (zOut, Some k'))
         else (zOut, Some k))"
  by pat_completeness auto
termination
  by (relation "measure (\<lambda>(cs, k, _). length cs - k)") (auto simp: chunkNext_def split: if_splits)

definition memjrnlRead :: "memJournal \<Rightarrow> nat \<Rightarrow> nat \<Rightarrow> (fileChunk \<times> memJournal) option" where
  "memjrnlRead p iAmt iOfst =
     (let pc = (if iOffset (readpoint p) \<noteq> iOfst \<or> iOfst = 0
                then memjrnlSeek (chunks p) 0 0 iOfst
                else pChunk (readpoint p))
      in case pc of
           None \<Rightarrow> None
         | Some k \<Rightarrow>
             (case memjrnlCopy (chunks p) k (int iAmt) (iOfst mod JOURNAL_CHUNKSIZE) of
                (zBuf, pc) \<Rightarrow>
                  Some (zBuf, p \<lparr> readpoint := \<lparr> iOffset = iOfst + iAmt, pChunk = pc \<rparr> \<rparr>)))"

definition memcpyChunk :: "fileChunk \<Rightarrow> nat \<Rightarrow> bytes \<Rightarrow> fileChunk" where
  "memcpyChunk ch off z = take off ch @ map Some z @ drop (off + length z) ch"

text \<open>
  One round of the write loop up to the copy: link a new chunk when the end of the file is on a
  chunk boundary. \<open>None\<close> is the failed allocation.
\<close>

definition memjrnlExtend :: "memJournal \<Rightarrow> allocs \<Rightarrow> memJournal option \<times> allocs" where
  "memjrnlExtend p al =
     (if iOffset (endpoint p) mod JOURNAL_CHUNKSIZE = 0 then
        (case sqlite3_alloc al of (ok, al) \<Rightarrow>
           if \<not> ok then (None, al)
           else
             (let cs = (case pChunk (endpoint p) of None \<Rightarrow> [] | Some k \<Rightarrow> take (Suc k) (chunks p));
                  new = replicate JOURNAL_CHUNKSIZE None
              in (Some (p \<lparr> chunks := cs @ [new],
                            endpoint := (endpoint p) \<lparr> pChunk := Some (length cs) \<rparr> \<rparr>), al)))
      else (Some p, al))"

function memjrnlWrite :: "memJournal \<Rightarrow> bytes \<Rightarrow> allocs \<Rightarrow> (rcode \<times> memJournal \<times> allocs) option" where
  "memjrnlWrite p zWrite al =
     (if zWrite = [] then Some (SQLITE_OK, p, al)
      else
        let iChunkOffset = iOffset (endpoint p) mod JOURNAL_CHUNKSIZE;
            iSpace = min (length zWrite) (JOURNAL_CHUNKSIZE - iChunkOffset)
        in case memjrnlExtend p al of
             (None, al) \<Rightarrow> Some (SQLITE_IOERR_NOMEM, p, al)
           | (Some p, al) \<Rightarrow>
               (case pChunk (endpoint p) of
                  None \<Rightarrow> None
                | Some k \<Rightarrow>
                    memjrnlWrite
                      (p \<lparr> chunks := (chunks p)[k := memcpyChunk (chunks p ! k) iChunkOffset (take iSpace zWrite)],
                           endpoint := (endpoint p) \<lparr> iOffset := iOffset (endpoint p) + iSpace \<rparr> \<rparr>)
                      (drop iSpace zWrite) al))"
  by pat_completeness auto
termination
proof (relation "measure (\<lambda>(_, z, _). length z)", simp, goal_cases)
  case (1 p z al off n r al' p' k)
  have "n > 0" using 1(1,2,3) by (simp add: JOURNAL_CHUNKSIZE_def)
  then show ?case using 1(1) by simp
qed

definition memjrnlTruncate :: "memJournal \<Rightarrow> memJournal" where
  "memjrnlTruncate p = sqlite3MemJournalOpen"

definition memjrnlClose :: "memJournal \<Rightarrow> memJournal" where
  "memjrnlClose p = memjrnlTruncate p"

definition memjrnlFileSize :: "memJournal \<Rightarrow> nat" where
  "memjrnlFileSize p = iOffset (endpoint p)"

declare memjrnlSeek.simps [simp del] memjrnlCopy.simps [simp del] memjrnlWrite.simps [simp del]

section \<open>The journal as a byte sequence\<close>

text \<open>
  \<open>journal_ok p c\<close>: the chunks hold exactly the bytes \<open>c\<close>, and the write cursor is at their end.
  \<open>cursor_ok\<close> says that the read cursor, when it has a chunk, has the chunk of its offset.
\<close>

definition journal_ok :: "memJournal \<Rightarrow> bytes \<Rightarrow> bool" where
  "journal_ok p c \<longleftrightarrow>
     (\<forall>ch\<in>set (chunks p). length ch = JOURNAL_CHUNKSIZE)
     \<and> length c \<le> JOURNAL_CHUNKSIZE * length (chunks p)
     \<and> JOURNAL_CHUNKSIZE * length (chunks p) < length c + JOURNAL_CHUNKSIZE
     \<and> take (length c) (concat (chunks p)) = map Some c
     \<and> iOffset (endpoint p) = length c
     \<and> pChunk (endpoint p) = (if chunks p = [] then None else Some (length (chunks p) - 1))"

definition cursor_ok :: "memJournal \<Rightarrow> bool" where
  "cursor_ok p \<longleftrightarrow>
     (\<forall>k. pChunk (readpoint p) = Some k \<longrightarrow>
        k < length (chunks p) \<and> k = iOffset (readpoint p) div JOURNAL_CHUNKSIZE)"

lemma chunksize_pos [simp]: "0 < JOURNAL_CHUNKSIZE"
  by (simp add: JOURNAL_CHUNKSIZE_def)

lemma drop_concat_chunks:
  "\<forall>ch\<in>set cs. length ch = n \<Longrightarrow> drop (n * k) (concat cs) = concat (drop k cs)"
proof (induction cs arbitrary: k)
  case (Cons c cs)
  then show ?case by (cases k) auto
qed simp

lemma length_concat_chunks:
  "\<forall>ch\<in>set cs. length ch = n \<Longrightarrow> length (concat cs) = n * length cs"
  by (induction cs) auto

lemma memjrnlSeek_finds:
  assumes "iOff = k * JOURNAL_CHUNKSIZE" and "iOff \<le> iOfst"
    and "iOfst div JOURNAL_CHUNKSIZE < length cs"
  shows "memjrnlSeek cs k iOff iOfst = Some (iOfst div JOURNAL_CHUNKSIZE)"
  using assms
proof (induction cs k iOff iOfst rule: memjrnlSeek.induct)
  case (1 cs k iOff iOfst)
  have kle: "k \<le> iOfst div JOURNAL_CHUNKSIZE"
    using 1(2,3) by (simp add: less_eq_div_iff_mult_less_eq)
  show ?case
  proof (cases "iOff + JOURNAL_CHUNKSIZE \<le> iOfst")
    case True
    then show ?thesis using 1 kle by (simp add: memjrnlSeek.simps [of cs k])
  next
    case False
    then have "iOfst div JOURNAL_CHUNKSIZE = k"
      using 1(2,3) by (intro div_nat_eqI) (auto simp: algebra_simps)
    then show ?thesis using False 1(4) by (simp add: memjrnlSeek.simps [of cs k])
  qed
qed

lemma memjrnlCopy_slice:
  assumes "\<forall>ch\<in>set cs. length ch = JOURNAL_CHUNKSIZE" and "k < length cs"
    and "off < JOURNAL_CHUNKSIZE" and "0 < n"
    and "k * JOURNAL_CHUNKSIZE + off + n \<le> JOURNAL_CHUNKSIZE * length cs"
    and "e = k * JOURNAL_CHUNKSIZE + off + n"
  shows "memjrnlCopy cs k (int n) off
       = (take n (drop (k * JOURNAL_CHUNKSIZE + off) (concat cs)),
          if e div JOURNAL_CHUNKSIZE < length cs then Some (e div JOURNAL_CHUNKSIZE) else None)"
  using assms
proof (induction "length cs - k" arbitrary: k n off)
  case (Suc m)
  let ?C = JOURNAL_CHUNKSIZE
  have len: "length (cs ! k) = ?C" using Suc.prems by simp
  have flat: "drop (k * ?C + off) (concat cs) = drop off (cs ! k) @ concat (drop (Suc k) cs)"
  proof -
    have "drop (k * ?C + off) (concat cs) = drop off (concat (drop k cs))"
      using drop_concat_chunks [OF Suc.prems(1), of k] by (metis add.commute drop_drop mult.commute)
    also have "drop k cs = cs ! k # drop (Suc k) cs" using Suc.prems(2) by (simp add: Cons_nth_drop_Suc)
    finally show ?thesis using Suc.prems(3) len by simp
  qed
  consider (inside) "off + n < ?C" | (edge) "off + n = ?C" | (over) "?C < off + n" by linarith
  then show ?case
  proof cases
    case inside
    then have "e div ?C = k" using Suc.prems by (intro div_nat_eqI) (auto simp: algebra_simps)
    moreover have "min (int n) (int (?C - off)) = int n" "int n - int (?C - off) < 0"
      using inside by auto
    ultimately show ?thesis
      using inside Suc.prems(2) len flat
      unfolding memjrnlCopy.simps [of cs k] Let_def by simp
  next
    case edge
    then have "e = Suc k * ?C" using Suc.prems(6) by simp
    have i: "min (int n) (int (?C - off)) = int n" "int n - int (?C - off) = 0"
      using edge by auto
    from \<open>e = Suc k * ?C\<close> have "e div ?C = Suc k" by (simp only: nonzero_mult_div_cancel_right chunksize_pos less_imp_neq [symmetric] not_False_eq_True)
    then show ?thesis
      using edge Suc.prems(2,3) len flat i
      unfolding memjrnlCopy.simps [of cs k] Let_def i by (simp add: chunkNext_def)
  next
    case over
    let ?n = "off + n - ?C"
    have more: "Suc k < length cs"
    proof (rule ccontr)
      assume "\<not> Suc k < length cs"
      then have "length cs = Suc k" using Suc.prems(2) by simp
      then show False using Suc.prems(5) over by (simp add: algebra_simps)
    qed
    have rec: "memjrnlCopy cs (Suc k) (int ?n) 0
      = (take ?n (drop (Suc k * ?C + 0) (concat cs)),
         if e div ?C < length cs then Some (e div ?C) else None)"
    proof (rule Suc.hyps(1))
      show "m = length cs - Suc k" using Suc.hyps(2) by simp
      show "e = Suc k * ?C + 0 + ?n" using Suc.prems(6) over by simp
      then show "Suc k * ?C + 0 + ?n \<le> ?C * length cs" using Suc.prems(5,6) by simp
    qed (use Suc.prems more over in auto)
    have i: "int n - int (?C - off) = int ?n" using over Suc.prems(3) by simp
    have d: "drop (Suc k * ?C + 0) (concat cs) = concat (drop (Suc k) cs)"
      using drop_concat_chunks [OF Suc.prems(1), of "Suc k"] by (simp add: mult.commute)
    have "min (int n) (int (?C - off)) = int (?C - off)" using over by simp
    then show ?thesis
      using rec over more len flat Suc.prems(3)
      unfolding memjrnlCopy.simps [of cs k] Let_def i d
      by (simp add: chunkNext_def add.commute)
  qed
qed simp

lemma memjrnlRead_slice:
  assumes ok: "journal_ok p c" and cur: "cursor_ok p"
    and rng: "iOfst + iAmt \<le> length c" "0 < iAmt"
    and fresh: "iOfst \<noteq> 0 \<longrightarrow> iOffset (readpoint p) = iOfst \<longrightarrow> pChunk (readpoint p) \<noteq> None"
  shows "\<exists>p'. memjrnlRead p iAmt iOfst = Some (map Some (take iAmt (drop iOfst c)), p')
           \<and> journal_ok p' c \<and> cursor_ok p'"
proof -
  let ?C = JOURNAL_CHUNKSIZE
  let ?k = "iOfst div ?C"
  let ?e = "iOfst + iAmt"
  have len: "?e \<le> ?C * length (chunks p)" and all: "\<forall>ch\<in>set (chunks p). length ch = ?C"
    and flat: "take (length c) (concat (chunks p)) = map Some c"
    using ok rng by (auto simp: journal_ok_def)
  have k: "?k < length (chunks p)"
    using len rng(2) by (simp add: div_less_iff_less_mult mult.commute)
  have pc: "(if iOffset (readpoint p) \<noteq> iOfst \<or> iOfst = 0 then memjrnlSeek (chunks p) 0 0 iOfst
             else pChunk (readpoint p)) = Some ?k"
    using memjrnlSeek_finds [of 0 0 iOfst "chunks p"] k cur fresh
    by (auto simp: cursor_ok_def)
  have e: "?k * ?C + iOfst mod ?C = iOfst" by simp
  have "memjrnlCopy (chunks p) ?k (int iAmt) (iOfst mod ?C)
      = (take iAmt (drop (?k * ?C + iOfst mod ?C) (concat (chunks p))),
         if ?e div ?C < length (chunks p) then Some (?e div ?C) else None)"
    by (rule memjrnlCopy_slice [OF all k]) (use e len rng in auto)
  moreover have "take iAmt (drop iOfst (concat (chunks p))) = map Some (take iAmt (drop iOfst c))"
  proof -
    have "take iAmt (drop iOfst (concat (chunks p)))
        = take iAmt (drop iOfst (take (length c) (concat (chunks p))))"
      using rng(1) by (simp add: drop_take)
    then show ?thesis by (simp add: flat take_map drop_map)
  qed
  ultimately show ?thesis
    using pc ok by (auto simp: memjrnlRead_def journal_ok_def cursor_ok_def Let_def)
qed

lemma memjrnlExtend_ok:
  assumes "journal_ok p c" and "memjrnlExtend p al = (Some q, bl)"
  shows "iOffset (endpoint q) = length c \<and> readpoint q = readpoint p
       \<and> (\<exists>bs ch. chunks q = bs @ [ch] \<and> pChunk (endpoint q) = Some (length bs)
            \<and> (\<forall>x\<in>set (bs @ [ch]). length x = JOURNAL_CHUNKSIZE)
            \<and> length c = JOURNAL_CHUNKSIZE * length bs + length c mod JOURNAL_CHUNKSIZE
            \<and> concat bs @ take (length c mod JOURNAL_CHUNKSIZE) ch = map Some c
            \<and> length (chunks p) \<le> length (chunks q))"
proof (cases "length c mod JOURNAL_CHUNKSIZE = 0")
  case True
  let ?C = JOURNAL_CHUNKSIZE
  from True obtain m where m: "length c = ?C * m" by (auto elim: dvdE)
  have "length (chunks p) = m"
  proof -
    have "m \<le> length (chunks p)" using assms(1) m by (simp add: journal_ok_def)
    moreover have "length (chunks p) < Suc m"
    proof -
      have "?C * length (chunks p) < ?C * Suc m" using assms(1) m by (simp add: journal_ok_def)
      then show ?thesis by (simp only: mult_less_cancel1)
    qed
    ultimately show ?thesis by simp
  qed
  moreover have "length (concat (chunks p)) = ?C * length (chunks p)"
    using assms(1) length_concat_chunks [of "chunks p" ?C] by (simp add: journal_ok_def)
  ultimately have "concat (chunks p) = map Some c" and l: "length c = ?C * length (chunks p)"
    using assms(1) m by (auto simp: journal_ok_def)
  moreover have "q = p \<lparr> chunks := chunks p @ [replicate ?C None],
                   endpoint := (endpoint p) \<lparr> pChunk := Some (length (chunks p)) \<rparr> \<rparr>"
    using assms True
    by (auto simp: memjrnlExtend_def journal_ok_def Let_def split: prod.splits if_splits)
  ultimately show ?thesis using assms(1) True by (auto simp: journal_ok_def)
next
  case False
  let ?C = JOURNAL_CHUNKSIZE
  have q: "q = p" using assms False by (auto simp: memjrnlExtend_def journal_ok_def)
  have ne: "chunks p \<noteq> []" using assms(1) False by (auto simp: journal_ok_def)
  then obtain bs ch where bc: "chunks p = bs @ [ch]" by (metis append_butlast_last_id)
  then have "?C * length bs \<le> length c" "length c \<le> ?C * length bs + ?C"
    using assms(1) by (auto simp: journal_ok_def)
  moreover from this have "length c \<noteq> ?C * length bs + ?C" using False
    by (metis mod_mult_self1_is_0 mult.commute mult_Suc_right add.commute)
  ultimately have d: "length c div ?C = length bs" by (intro div_nat_eqI) (auto simp: algebra_simps)
  then have lc: "length c = ?C * length bs + length c mod ?C" by (metis mult_div_mod_eq)
  have "length (concat bs) = ?C * length bs"
    using assms(1) bc length_concat_chunks [of bs ?C] by (simp add: journal_ok_def)
  then have "take (length c) (concat (chunks p)) = concat bs @ take (length c mod ?C) ch"
    using bc lc by (simp add: take_all) (metis add_diff_cancel_left')
  then show ?thesis using assms(1) q bc lc by (auto simp: journal_ok_def)
qed

lemma memjrnlWrite_append:
  assumes "journal_ok p c" and "cursor_ok p"
  shows "\<exists>rc p' al' w. memjrnlWrite p z al = Some (rc, p', al') \<and> journal_ok p' (c @ w)
           \<and> cursor_ok p' \<and> readpoint p' = readpoint p
           \<and> (rc = SQLITE_OK \<and> w = z \<or> rc = SQLITE_IOERR_NOMEM \<and> (\<exists>v. z = w @ v \<and> v \<noteq> []) \<and> \<not> list_all id al)
           \<and> (list_all id al \<longrightarrow> list_all id al')"
  using assms
proof (induction "length z" arbitrary: z p c al rule: less_induct)
  case less
  let ?C = JOURNAL_CHUNKSIZE
  let ?off = "length c mod ?C"
  let ?n = "min (length z) (?C - ?off)"
  let ?w = "take ?n z"
  have off: "iOffset (endpoint p) = length c" using less.prems by (simp add: journal_ok_def)
  show ?case
  proof (cases "z = []")
    case True
    then show ?thesis using less.prems by (auto simp: memjrnlWrite.simps [of p])
  next
    case ne: False
    obtain r bl where x: "memjrnlExtend p al = (r, bl)" by fastforce
    have bl: "list_all id al \<longrightarrow> r \<noteq> None \<and> list_all id bl"
      using x by (cases al) (auto simp: memjrnlExtend_def Let_def split: if_splits)
    show ?thesis
    proof (cases r)
      case None
      then show ?thesis using less.prems ne x bl
        by (intro exI [of _ SQLITE_IOERR_NOMEM] exI [of _ p] exI [of _ bl] exI [of _ "[]"])
           (auto simp: memjrnlWrite.simps [of p] Let_def)
    next
      case (Some q)
      from memjrnlExtend_ok [OF less.prems(1) x [unfolded Some]] obtain bs ch where
        q: "iOffset (endpoint q) = length c" "readpoint q = readpoint p" "chunks q = bs @ [ch]"
          "pChunk (endpoint q) = Some (length bs)" "\<forall>x\<in>set (bs @ [ch]). length x = ?C"
          "length c = ?C * length bs + ?off" "concat bs @ take ?off ch = map Some c"
          "length (chunks p) \<le> length (chunks q)"
        by blast
      let ?ch = "memcpyChunk ch ?off ?w"
      let ?q = "q \<lparr> chunks := bs @ [?ch], endpoint := (endpoint q) \<lparr> iOffset := length c + ?n \<rparr> \<rparr>"
      have less: "?off < ?C" by simp
      have wl: "length ?w = ?n" "?off + ?n \<le> ?C" "0 < ?n"
        using ne less min.cobounded2 [of "length z" "?C - ?off"] by (simp, linarith, simp)
      have lch: "length ?ch = ?C" using q(5) wl by (simp add: memcpyChunk_def)
      have flat: "take (length (c @ ?w)) (concat (bs @ [?ch])) = map Some (c @ ?w)"
      proof -
        have "concat (bs @ [?ch]) = map Some (c @ ?w) @ drop (?off + length ?w) ch"
          using q(7) by (simp add: memcpyChunk_def)
        then show ?thesis by (metis append_eq_conv_conj length_map)
      qed
      have ok: "journal_ok ?q (c @ ?w)"
        unfolding journal_ok_def
      proof (intro conjI)
        have lq: "?C * length (chunks ?q) = ?C * length bs + ?C" by simp
        have lw: "length (c @ ?w) = length c + ?n" using wl(1) by simp
        show "length (c @ ?w) \<le> ?C * length (chunks ?q)"
          unfolding lq lw using q(6) wl(2) by linarith
        show "?C * length (chunks ?q) < length (c @ ?w) + ?C"
          unfolding lq lw using q(6) wl(3) by linarith
        show "\<forall>x\<in>set (chunks ?q). length x = ?C" using q(5) lch by auto
      qed (use flat q(1,3,4) wl(1) in \<open>simp_all del: take_append concat_append\<close>)
      have cur: "cursor_ok ?q" using less.prems(2) q by (auto simp: cursor_ok_def)
      have "length (drop ?n z) < length z" using wl ne by simp
      from less.hyps [OF this ok cur, of bl] obtain rc p' al' w where
        h: "memjrnlWrite ?q (drop ?n z) bl = Some (rc, p', al')" "journal_ok p' ((c @ ?w) @ w)"
          "cursor_ok p'" "readpoint p' = readpoint ?q"
          "rc = SQLITE_OK \<and> w = drop ?n z \<or> rc = SQLITE_IOERR_NOMEM
             \<and> (\<exists>v. drop ?n z = w @ v \<and> v \<noteq> []) \<and> \<not> list_all id bl"
          "list_all id bl \<longrightarrow> list_all id al'"
        by blast
      have "memjrnlWrite p z al = memjrnlWrite ?q (drop ?n z) bl"
        using ne x Some q off by (simp add: memjrnlWrite.simps [of p] Let_def)
      moreover have "rc = SQLITE_OK \<and> ?w @ w = z \<or>
          rc = SQLITE_IOERR_NOMEM \<and> (\<exists>v. z = (?w @ w) @ v \<and> v \<noteq> []) \<and> \<not> list_all id al"
        using h(5)
      proof (elim disjE conjE exE)
        fix v
        assume r: "rc = SQLITE_IOERR_NOMEM" "drop ?n z = w @ v" "v \<noteq> []" "\<not> list_all id bl"
        have "z = (?w @ w) @ v" using append_take_drop_id [of ?n z] r(2) by simp
        with r bl show ?thesis by blast
      qed simp
      moreover have "journal_ok p' (c @ ?w @ w)" "readpoint p' = readpoint p" using h(2,4) q(2) by simp_all
      moreover have "list_all id al \<longrightarrow> list_all id al'" using h(6) bl by blast
      ultimately show ?thesis using h(1,3)
        by (intro exI [of _ rc] exI [of _ p'] exI [of _ al'] exI [of _ "?w @ w"]) (simp only: simp_thms)
    qed
  qed
qed

section \<open>The journal as an append-only file\<close>

text \<open>
  The contract of an append-only file: a state stands for a byte sequence, a write that succeeds
  appends, the size is the length and a read in range returns the bytes asked for.
\<close>

locale append_file =
  fixes holds :: "'s \<Rightarrow> bytes \<Rightarrow> bool"
    and wr :: "'s \<Rightarrow> bytes \<Rightarrow> 's option"
    and sz :: "'s \<Rightarrow> nat"
    and rdat :: "'s \<Rightarrow> nat \<Rightarrow> nat \<Rightarrow> u8 option list option"
  assumes wr_law: "holds s c \<Longrightarrow> \<exists>s'. wr s z = Some s' \<and> holds s' (c @ z)"
    and sz_law: "holds s c \<Longrightarrow> sz s = length c"
    and rd_law: "holds s c \<Longrightarrow> 0 < n \<Longrightarrow> i + n \<le> length c \<Longrightarrow>
      rdat s n i = Some (map Some (take n (drop i c)))"
begin

lemma writes_hold:
  "holds s c \<Longrightarrow> \<exists>s'. foldl (\<lambda>r z. Option.bind r (\<lambda>s. wr s z)) (Some s) zs = Some s' \<and> holds s' (c @ concat zs)"
proof (induction zs arbitrary: s c)
  case (Cons z zs)
  then obtain s' where "wr s z = Some s'" "holds s' (c @ z)" using wr_law by blast
  with Cons.IH [of s' "c @ z"] show ?case by simp
qed simp

lemma writes_read:
  assumes "holds s c" and "c @ concat zs = a @ b @ d" and "b \<noteq> []"
  shows "\<exists>s'. foldl (\<lambda>r z. Option.bind r (\<lambda>s. wr s z)) (Some s) zs = Some s'
            \<and> sz s' = length (c @ concat zs) \<and> rdat s' (length b) (length a) = Some (map Some b)"
proof -
  from writes_hold [OF assms(1), of zs] obtain s' where
    s': "foldl (\<lambda>r z. Option.bind r (\<lambda>s. wr s z)) (Some s) zs = Some s'" "holds s' (c @ concat zs)"
    by blast
  moreover have "rdat s' (length b) (length a) = Some (map Some b)"
    using rd_law [OF s'(2), of "length b" "length a"] assms(2,3) by simp
  ultimately show ?thesis using sz_law by blast
qed

end

text \<open>
  The journal with memory available is such a file, as long as it is only written and the read
  cursor is at its initial position.
\<close>

definition memjrnlAppend :: "memJournal \<Rightarrow> bytes \<Rightarrow> memJournal option" where
  "memjrnlAppend p z = map_option (\<lambda>(rc, p, al). p) (memjrnlWrite p z [])"

definition memjrnlReadBytes :: "memJournal \<Rightarrow> nat \<Rightarrow> nat \<Rightarrow> u8 option list option" where
  "memjrnlReadBytes p n i = map_option fst (memjrnlRead p n i)"

definition memjrnlWrites :: "bytes list \<Rightarrow> memJournal option" where
  "memjrnlWrites zs = foldl (\<lambda>r z. Option.bind r (\<lambda>p. memjrnlAppend p z)) (Some sqlite3MemJournalOpen) zs"

definition journal_written :: "memJournal \<Rightarrow> bytes \<Rightarrow> bool" where
  "journal_written p c \<longleftrightarrow> journal_ok p c \<and> readpoint p = \<lparr> iOffset = 0, pChunk = None \<rparr>"

lemma sqlite3MemJournalOpen_ok [simp]:
  "journal_ok sqlite3MemJournalOpen []" "cursor_ok sqlite3MemJournalOpen"
  "journal_written sqlite3MemJournalOpen []"
  by (simp_all add: journal_ok_def cursor_ok_def sqlite3MemJournalOpen_def journal_written_def)

interpretation mj: append_file journal_written memjrnlAppend memjrnlFileSize memjrnlReadBytes
proof (unfold_locales, goal_cases)
  case (1 s c z)
  then have "journal_ok s c" "cursor_ok s" by (auto simp: journal_written_def cursor_ok_def)
  from memjrnlWrite_append [OF this, of z "[]"] 1 show ?case
    by (auto simp: memjrnlAppend_def journal_written_def)
next
  case (2 s c)
  then show ?case by (simp add: journal_written_def journal_ok_def memjrnlFileSize_def)
next
  case (3 s c n i)
  then have "journal_ok s c" "cursor_ok s" "i \<noteq> 0 \<longrightarrow> iOffset (readpoint s) = i \<longrightarrow> pChunk (readpoint s) \<noteq> None"
    by (auto simp: journal_written_def cursor_ok_def)
  from memjrnlRead_slice [OF this(1,2) 3(3,2) this(3)] show ?case
    by (auto simp: memjrnlReadBytes_def)
qed

section \<open>Properties\<close>

text \<open>A write to a well-formed journal returns. If no allocation fails it reports success and the
  journal is the old content followed by the whole buffer; if one fails it reports
  \<^verbatim>\<open>SQLITE_IOERR_NOMEM\<close> and the journal is well formed and holds the old content and a proper
  prefix of the buffer. The read cursor is left alone.\<close>

theorem memjrnlWrite_correct:
  assumes "journal_ok p c" and "cursor_ok p"
  shows "\<exists>rc p' al' w. memjrnlWrite p z al = Some (rc, p', al') \<and> journal_ok p' (c @ w)
           \<and> cursor_ok p' \<and> readpoint p' = readpoint p \<and> memjrnlFileSize p' = length c + length w
           \<and> (rc = SQLITE_OK \<and> w = z
              \<or> rc = SQLITE_IOERR_NOMEM \<and> (\<exists>v. z = w @ v \<and> v \<noteq> []) \<and> \<not> list_all id al)"
proof -
  from memjrnlWrite_append [OF assms, of z al] obtain rc p' al' w where
    w: "memjrnlWrite p z al = Some (rc, p', al')" "journal_ok p' (c @ w)"
    "cursor_ok p'" "readpoint p' = readpoint p"
    "rc = SQLITE_OK \<and> w = z \<or> rc = SQLITE_IOERR_NOMEM \<and> (\<exists>v. z = w @ v \<and> v \<noteq> []) \<and> \<not> list_all id al"
    by blast
  then have "memjrnlFileSize p' = length c + length w" by (simp add: journal_ok_def memjrnlFileSize_def)
  with w show ?thesis by blast
qed

theorem memjrnlWrite_correct_witness:
  "\<exists>rc p' al' w. memjrnlWrite sqlite3MemJournalOpen [7, 8] [False] = Some (rc, p', al')
     \<and> journal_ok p' w \<and> memjrnlFileSize p' = length w
     \<and> (rc = SQLITE_OK \<and> w = [7, 8] \<or> rc = SQLITE_IOERR_NOMEM)"
  using memjrnlWrite_correct [OF sqlite3MemJournalOpen_ok(1,2), of "[7, 8]" "[False]"] by auto

text \<open>C37. Whatever sequence of buffers is written to a new journal, its size is their total length,
  and a read of any range of the concatenated content returns exactly the bytes there, across
  chunk boundaries.\<close>

theorem memjrnl_writes_read:
  assumes "concat zs = a @ b @ d" and "b \<noteq> []"
  shows "\<exists>p. memjrnlWrites zs = Some p \<and> memjrnlFileSize p = length (concat zs)
           \<and> memjrnlReadBytes p (length b) (length a) = Some (map Some b)"
  using mj.writes_read [of sqlite3MemJournalOpen "[]" zs a b d] assms by (simp add: memjrnlWrites_def)

theorem memjrnl_writes_read_witness:
  "\<exists>p. memjrnlWrites [replicate 1000 1, replicate 30 2] = Some p \<and> memjrnlFileSize p = 1030
     \<and> memjrnlReadBytes p 30 1000 = Some (map Some (replicate 30 2))"
  using memjrnl_writes_read [of "[replicate 1000 1, replicate 30 2]" "replicate 1000 1" "replicate 30 2" "[]"]
  by simp

text \<open>A read of a range inside the journal returns the bytes of the range and leaves a
  well-formed journal with the same content, from any position of the read cursor, unless the
  cursor has the offset asked for and lost its chunk.\<close>

theorem memjrnlRead_correct:
  assumes "journal_ok p c" and "cursor_ok p" and "iOfst + iAmt \<le> length c" and "0 < iAmt"
    and "iOfst \<noteq> 0 \<longrightarrow> iOffset (readpoint p) = iOfst \<longrightarrow> pChunk (readpoint p) \<noteq> None"
  shows "\<exists>p'. memjrnlRead p iAmt iOfst = Some (map Some (take iAmt (drop iOfst c)), p')
           \<and> journal_ok p' c \<and> cursor_ok p'"
  by (rule memjrnlRead_slice [OF assms])

theorem memjrnlRead_correct_witness:
  "\<exists>p p'. memjrnlWrites [[1, 2, 3]] = Some p \<and> memjrnlRead p 2 1 = Some ([Some 2, Some 3], p')"
proof -
  obtain p where p: "memjrnlWrites [[1, 2, 3]] = Some p" "journal_written p [1, 2, 3]"
    using mj.writes_hold [of sqlite3MemJournalOpen "[]" "[[1, 2, 3]]"] by (auto simp: memjrnlWrites_def)
  then have "journal_ok p [1, 2, 3]" "cursor_ok p" "(1 :: nat) \<noteq> 0 \<longrightarrow> iOffset (readpoint p) = 1 \<longrightarrow> pChunk (readpoint p) \<noteq> None"
    by (auto simp: journal_written_def cursor_ok_def)
  from memjrnlRead_correct [OF this(1,2) _ _ this(3), of 2] p(1) show ?thesis
    by (auto simp: numeral_2_eq_2)
qed

text \<open>C38. The read cursor can lose its chunk: when the file ends on a chunk boundary and a read ends
  there, the cursor keeps the offset with a null chunk pointer. If the file then grows, a read at
  that offset, which is inside the file, dereferences the null pointer.\<close>

theorem memjrnlRead_lost_chunk:
  assumes "length z = JOURNAL_CHUNKSIZE" and "x \<noteq> []"
  shows "\<exists>p1 p2 p3. memjrnlAppend sqlite3MemJournalOpen z = Some p1
           \<and> memjrnlRead p1 JOURNAL_CHUNKSIZE 0 = Some (map Some z, p2)
           \<and> memjrnlAppend p2 x = Some p3
           \<and> memjrnlFileSize p3 = JOURNAL_CHUNKSIZE + length x
           \<and> memjrnlRead p3 (length x) JOURNAL_CHUNKSIZE = None"
proof -
  let ?C = JOURNAL_CHUNKSIZE
  from mj.wr_law [of sqlite3MemJournalOpen "[]" z] obtain p1 where
    p1: "memjrnlAppend sqlite3MemJournalOpen z = Some p1" "journal_written p1 z" by auto
  then have ok1: "journal_ok p1 z" "cursor_ok p1" by (auto simp: journal_written_def cursor_ok_def)
  have l1: "length (chunks p1) = 1"
  proof -
    have "?C * 1 \<le> ?C * length (chunks p1)" "?C * length (chunks p1) < ?C + ?C"
      using ok1(1) assms(1) by (simp_all add: journal_ok_def)
    then have "1 \<le> length (chunks p1)" "length (chunks p1) < 2"
      by (simp_all only: mult_2_right [symmetric] mult_less_cancel1 mult_le_cancel1 chunksize_pos)
    then show ?thesis by simp
  qed
  have al1: "\<forall>ch\<in>set (chunks p1). length ch = ?C" and f1: "concat (chunks p1) = map Some z"
    using ok1(1) assms(1) l1 length_concat_chunks [of "chunks p1" ?C] by (auto simp: journal_ok_def)
  let ?p2 = "p1 \<lparr> readpoint := \<lparr> iOffset = ?C, pChunk = None \<rparr> \<rparr>"
  have "memjrnlCopy (chunks p1) 0 (int ?C) 0 = (map Some z, None)"
    using memjrnlCopy_slice [OF al1, of 0 0 ?C ?C] l1 f1 assms(1) by simp
  moreover have "memjrnlSeek (chunks p1) 0 0 0 = Some 0"
    using memjrnlSeek_finds [of 0 0 0 "chunks p1"] l1 by simp
  ultimately have r2: "memjrnlRead p1 ?C 0 = Some (map Some z, ?p2)"
    by (simp add: memjrnlRead_def Let_def)
  have "journal_ok ?p2 z" "cursor_ok ?p2" using ok1(1) by (auto simp: journal_ok_def cursor_ok_def)
  from memjrnlWrite_append [OF this, of x "[]"] obtain p3 al where
    p3: "memjrnlWrite ?p2 x [] = Some (SQLITE_OK, p3, al)" "journal_ok p3 (z @ x)"
    "readpoint p3 = readpoint ?p2" by auto
  have "memjrnlRead p3 (length x) ?C = None"
    using p3(3) by (simp add: memjrnlRead_def less_imp_neq [OF chunksize_pos, symmetric])
  moreover have "memjrnlFileSize p3 = ?C + length x"
    using p3(2) assms(1) by (simp add: memjrnlFileSize_def journal_ok_def)
  ultimately show ?thesis using p1(1) r2 p3(1) by (auto simp: memjrnlAppend_def)
qed

theorem memjrnlRead_lost_chunk_witness:
  "\<exists>p1 p2 p3. memjrnlAppend sqlite3MemJournalOpen (replicate 1016 0) = Some p1
     \<and> memjrnlRead p1 1016 0 = Some (map Some (replicate 1016 0), p2)
     \<and> memjrnlAppend p2 [9] = Some p3 \<and> memjrnlFileSize p3 = 1017
     \<and> memjrnlRead p3 1 1016 = None"
  using memjrnlRead_lost_chunk [of "replicate 1016 0" "[9]"]
  by (simp add: JOURNAL_CHUNKSIZE_def del: map_replicate)

end
