(* ===== verification/Strings.thy ===== *)
theory Strings
  imports Prelude
begin

text \<open>
  The character tables of \<^verbatim>\<open>global.c\<close> with the character class macros of \<^verbatim>\<open>sqliteInt.h\<close>, and the
  string functions of \<^verbatim>\<open>util.c\<close>: bounded string length, case-insensitive comparison, removal of
  quotes, hexadecimal blobs and the conversions of decimal text to integers. Strings are buffers
  of bytes read through \<^const>\<open>rd\<close>; a read past the end of the buffer makes the result \<open>None\<close>, so a
  theorem that gives a result also shows that the code stays inside the buffer.
\<close>

section \<open>Character tables and classes\<close>

definition sqlite3UpperToLower :: "nat list" where
  "sqlite3UpperToLower =
  [0, 1, 2, 3, 4, 5, 6, 7, 8, 9, 10, 11, 12, 13, 14, 15,
   16, 17, 18, 19, 20, 21, 22, 23, 24, 25, 26, 27, 28, 29, 30, 31,
   32, 33, 34, 35, 36, 37, 38, 39, 40, 41, 42, 43, 44, 45, 46, 47,
   48, 49, 50, 51, 52, 53, 54, 55, 56, 57, 58, 59, 60, 61, 62, 63,
   64, 97, 98, 99, 100, 101, 102, 103, 104, 105, 106, 107, 108, 109, 110, 111,
   112, 113, 114, 115, 116, 117, 118, 119, 120, 121, 122, 91, 92, 93, 94, 95,
   96, 97, 98, 99, 100, 101, 102, 103, 104, 105, 106, 107, 108, 109, 110, 111,
   112, 113, 114, 115, 116, 117, 118, 119, 120, 121, 122, 123, 124, 125, 126, 127,
   128, 129, 130, 131, 132, 133, 134, 135, 136, 137, 138, 139, 140, 141, 142, 143,
   144, 145, 146, 147, 148, 149, 150, 151, 152, 153, 154, 155, 156, 157, 158, 159,
   160, 161, 162, 163, 164, 165, 166, 167, 168, 169, 170, 171, 172, 173, 174, 175,
   176, 177, 178, 179, 180, 181, 182, 183, 184, 185, 186, 187, 188, 189, 190, 191,
   192, 193, 194, 195, 196, 197, 198, 199, 200, 201, 202, 203, 204, 205, 206, 207,
   208, 209, 210, 211, 212, 213, 214, 215, 216, 217, 218, 219, 220, 221, 222, 223,
   224, 225, 226, 227, 228, 229, 230, 231, 232, 233, 234, 235, 236, 237, 238, 239,
   240, 241, 242, 243, 244, 245, 246, 247, 248, 249, 250, 251, 252, 253, 254, 255]"

definition sqlite3CtypeMap :: "nat list" where
  "sqlite3CtypeMap =
  [0, 0, 0, 0, 0, 0, 0, 0, 0, 1, 1, 1, 1, 1, 0, 0,
   0, 0, 0, 0, 0, 0, 0, 0, 0, 0, 0, 0, 0, 0, 0, 0,
   1, 0, 0, 0, 64, 0, 0, 0, 0, 0, 0, 0, 0, 0, 0, 0,
   12, 12, 12, 12, 12, 12, 12, 12, 12, 12, 0, 0, 0, 0, 0, 0,
   0, 10, 10, 10, 10, 10, 10, 2, 2, 2, 2, 2, 2, 2, 2, 2,
   2, 2, 2, 2, 2, 2, 2, 2, 2, 2, 2, 0, 0, 0, 0, 64,
   0, 42, 42, 42, 42, 42, 42, 34, 34, 34, 34, 34, 34, 34, 34, 34,
   34, 34, 34, 34, 34, 34, 34, 34, 34, 34, 34, 0, 0, 0, 0, 0,
   64, 64, 64, 64, 64, 64, 64, 64, 64, 64, 64, 64, 64, 64, 64, 64,
   64, 64, 64, 64, 64, 64, 64, 64, 64, 64, 64, 64, 64, 64, 64, 64,
   64, 64, 64, 64, 64, 64, 64, 64, 64, 64, 64, 64, 64, 64, 64, 64,
   64, 64, 64, 64, 64, 64, 64, 64, 64, 64, 64, 64, 64, 64, 64, 64,
   64, 64, 64, 64, 64, 64, 64, 64, 64, 64, 64, 64, 64, 64, 64, 64,
   64, 64, 64, 64, 64, 64, 64, 64, 64, 64, 64, 64, 64, 64, 64, 64,
   64, 64, 64, 64, 64, 64, 64, 64, 64, 64, 64, 64, 64, 64, 64, 64,
   64, 64, 64, 64, 64, 64, 64, 64, 64, 64, 64, 64, 64, 64, 64, 64]"

definition UpperToLower :: "u8 \<Rightarrow> u8" where
  "UpperToLower c = word_of_nat (sqlite3UpperToLower ! unat c)"

definition ctype :: "u8 \<Rightarrow> u8" where
  "ctype c = word_of_nat (sqlite3CtypeMap ! unat c)"

definition sqlite3Isspace :: "u8 \<Rightarrow> bool" where
  "sqlite3Isspace x \<longleftrightarrow> ctype x AND 0x01 \<noteq> 0"

definition sqlite3Isalnum :: "u8 \<Rightarrow> bool" where
  "sqlite3Isalnum x \<longleftrightarrow> ctype x AND 0x06 \<noteq> 0"

definition sqlite3Isalpha :: "u8 \<Rightarrow> bool" where
  "sqlite3Isalpha x \<longleftrightarrow> ctype x AND 0x02 \<noteq> 0"

definition sqlite3Isdigit :: "u8 \<Rightarrow> bool" where
  "sqlite3Isdigit x \<longleftrightarrow> ctype x AND 0x04 \<noteq> 0"

definition sqlite3Isxdigit :: "u8 \<Rightarrow> bool" where
  "sqlite3Isxdigit x \<longleftrightarrow> ctype x AND 0x08 \<noteq> 0"

definition sqlite3Toupper :: "u8 \<Rightarrow> u8" where
  "sqlite3Toupper x = x AND NOT (ctype x AND 0x20)"

section \<open>Length, comparison, quotes\<close>

fun strlenLoop :: "bytes \<Rightarrow> nat \<Rightarrow> nat option" where
  "strlenLoop [] n = None"
| "strlenLoop (c # z) n = (if c \<noteq> 0 then strlenLoop z (n + 1) else Some n)"

definition sqlite3Strlen30 :: "bytes option \<Rightarrow> u32 option" where
  "sqlite3Strlen30 z =
     (case z of None \<Rightarrow> Some 0
      | Some z \<Rightarrow> map_option (\<lambda>n. 0x3fffffff AND word_of_nat n) (strlenLoop z 0))"

fun sqlite3_stricmp :: "bytes \<Rightarrow> bytes \<Rightarrow> int option" where
  "sqlite3_stricmp (a # zLeft) (b # zRight) =
     (if a \<noteq> 0 \<and> UpperToLower a = UpperToLower b then sqlite3_stricmp zLeft zRight
      else Some (uint (UpperToLower a) - uint (UpperToLower b)))"
| "sqlite3_stricmp _ _ = None"

fun sqlite3_strnicmp :: "bytes \<Rightarrow> bytes \<Rightarrow> nat \<Rightarrow> int option" where
  "sqlite3_strnicmp zLeft zRight 0 = Some 0"
| "sqlite3_strnicmp (a # zLeft) (b # zRight) (Suc N) =
     (if a \<noteq> 0 \<and> UpperToLower a = UpperToLower b then sqlite3_strnicmp zLeft zRight N
      else Some (uint (UpperToLower a) - uint (UpperToLower b)))"
| "sqlite3_strnicmp _ _ (Suc N) = None"

text \<open>The loop of \<^verbatim>\<open>sqlite3Dequote\<close> works in place: it reads at \<open>i\<close> and writes at \<open>j\<close>.\<close>

function dequoteLoop :: "bytes \<Rightarrow> u8 \<Rightarrow> nat \<Rightarrow> nat \<Rightarrow> (bytes \<times> nat) option" where
  "dequoteLoop z quote i j =
     (if i < length z then
        (if z ! i = quote then
           (if i + 1 < length z then
              (if z ! (i + 1) = quote then dequoteLoop (z[j := quote]) quote (i + 2) (j + 1)
               else Some (z[j := 0], j))
            else None)
         else dequoteLoop (z[j := z ! i]) quote (i + 1) (j + 1))
      else None)"
  by pat_completeness auto
termination
  by (relation "measure (\<lambda>(z, q, i, j). length z - i)") auto

declare dequoteLoop.simps [simp del]

text \<open>The return value is the dequoted length, or \<open>-1\<close> when nothing was done.\<close>

definition sqlite3Dequote :: "bytes option \<Rightarrow> (bytes option \<times> int) option" where
  "sqlite3Dequote z =
     (case z of None \<Rightarrow> Some (None, -1)
      | Some z \<Rightarrow>
          do { q \<leftarrow> rd z 0;
               if q = 0x27 \<or> q = 0x22 \<or> q = 0x60 \<or> q = 0x5b then
                 map_option (\<lambda>(z, j). (Some z, int j)) (dequoteLoop z (if q = 0x5b then 0x5d else q) 1 0)
               else Some (Some z, -1) })"

section \<open>Hexadecimal\<close>

definition sqlite3HexToInt :: "u8 \<Rightarrow> u8" where
  "sqlite3HexToInt h = (h + 9 * (1 AND drop_bit 6 h)) AND 0xf"

function hexToBlobLoop :: "bytes \<Rightarrow> int \<Rightarrow> nat \<Rightarrow> bytes option" where
  "hexToBlobLoop z n i =
     (if int i < n then
        do { a \<leftarrow> rd z i;
             b \<leftarrow> rd z (i + 1);
             rest \<leftarrow> hexToBlobLoop z n (i + 2);
             Some ((push_bit 4 (sqlite3HexToInt a) OR sqlite3HexToInt b) # rest) }
      else Some [0])"
  by pat_completeness auto
termination
  by (relation "measure (\<lambda>(z, n, i). nat (n - int i))") auto

declare hexToBlobLoop.simps [simp del]

text \<open>The inner \<open>None\<close> is the null pointer of a failed allocation; the last byte is the terminator.\<close>

definition sqlite3HexToBlob :: "bytes \<Rightarrow> int \<Rightarrow> allocs \<Rightarrow> (bytes option \<times> allocs) option" where
  "sqlite3HexToBlob z n al =
     (case sqlite3_alloc al of (ok, al) \<Rightarrow>
        if ok then map_option (\<lambda>b. (Some b, al)) (hexToBlobLoop z (n - 1) 0)
        else Some (None, al))"

section \<open>Lemmas on the tables\<close>

lemma UpperToLower_table: "sqlite3UpperToLower = [0..<65] @ [97..<123] @ [91..<256]"
  unfolding sqlite3UpperToLower_def by (simp add: upt_conv_Cons)

lemma nth_upt_upt_upt:
  assumes "n - a - (d - b) < f - e"
  shows "([0..<a] @ [b..<d] @ [e..<f]) ! n
       = (if n < a then n else if n - a < d - b then b + (n - a) else e + (n - a - (d - b)))"
  using assms by (auto simp: nth_append)

lemma UpperToLower_unat:
  "unat (UpperToLower c) = (if 65 \<le> unat c \<and> unat c < 91 then unat c + 32 else unat c)"
proof -
  have c: "unat c < 256" by simp
  have "sqlite3UpperToLower ! unat c
      = (if unat c < 65 then unat c else if unat c - 65 < 123 - 97 then 97 + (unat c - 65)
         else 91 + (unat c - 65 - (123 - 97)))"
    unfolding UpperToLower_table by (rule nth_upt_upt_upt) (use c in linarith)
  also have "\<dots> = (if 65 \<le> unat c \<and> unat c < 91 then unat c + 32 else unat c)" by auto
  finally show ?thesis
    using c by (simp add: UpperToLower_def unat_of_nat take_bit_eq_mod del: unat_u8_less)
qed

lemma UpperToLower_eq_0 [simp]: "UpperToLower c = 0 \<longleftrightarrow> c = 0"
  using UpperToLower_unat [of c] by (auto simp: unat_eq_zero [symmetric] simp del: unat_eq_0)

lemma UpperToLower_0 [simp]: "UpperToLower 0 = 0"
  by simp

text \<open>The character map as runs of equal entries, and the class bits of a run.\<close>

primrec runsList :: "(nat \<times> nat) list \<Rightarrow> nat list" where
  "runsList [] = []"
| "runsList (r # rs) = replicate (fst r) (snd r) @ runsList rs"

primrec runsNth :: "(nat \<times> nat) list \<Rightarrow> nat \<Rightarrow> nat" where
  "runsNth [] n = 0"
| "runsNth (r # rs) n = (if n < fst r then snd r else runsNth rs (n - fst r))"

lemma runsList_nth: "n < length (runsList rs) \<Longrightarrow> runsList rs ! n = runsNth rs n"
  by (induction rs arbitrary: n) (auto simp: nth_append)

definition ctypeRuns :: "(nat \<times> nat) list" where
  "ctypeRuns = [(9, 0), (5, 1), (18, 0), (1, 1), (3, 0), (1, 64), (11, 0), (10, 12), (7, 0), (6, 10), (20, 2), (4, 0), (1, 64), (1, 0), (6, 42), (20, 34), (5, 0), (128, 64)]"

lemma ctype_table: "sqlite3CtypeMap = runsList ctypeRuns"
  by code_simp

lemma ctype_nth: "sqlite3CtypeMap ! unat (c :: u8) = runsNth ctypeRuns (unat c)"
proof -
  have "length (runsList ctypeRuns) = 256" by (simp add: ctypeRuns_def)
  then show ?thesis using runsList_nth [of "unat c" ctypeRuns] unat_u8_less [of c]
    by (simp add: ctype_table del: unat_u8_less)
qed

text \<open>Check a property of every entry run by run.\<close>

primrec runsAll :: "(nat \<Rightarrow> nat \<Rightarrow> bool) \<Rightarrow> nat \<Rightarrow> (nat \<times> nat) list \<Rightarrow> bool" where
  "runsAll Q lo [] = True"
| "runsAll Q lo (r # rs) = ((\<forall>n. lo \<le> n \<and> n < lo + fst r \<longrightarrow> Q n (snd r)) \<and> runsAll Q (lo + fst r) rs)"

lemma runsAll_nth:
  "runsAll Q lo rs \<Longrightarrow> n < length (runsList rs) \<Longrightarrow> Q (lo + n) (runsNth rs n)"
proof (induction rs arbitrary: lo n)
  case (Cons r rs)
  show ?case
  proof (cases "n < fst r")
    case False
    then show ?thesis using Cons.IH [of "lo + fst r" "n - fst r"] Cons.prems by simp
  qed (use Cons.prems in simp)
qed simp

definition ctypeEntry :: "nat \<Rightarrow> nat \<Rightarrow> bool" where
  "ctypeEntry n t \<longleftrightarrow>
     (odd t \<longleftrightarrow> 9 \<le> n \<and> n \<le> 13 \<or> n = 32)
     \<and> (odd (t div 2) \<longleftrightarrow> 65 \<le> n \<and> n \<le> 90 \<or> 97 \<le> n \<and> n \<le> 122)
     \<and> (odd (t div 4) \<longleftrightarrow> 48 \<le> n \<and> n \<le> 57)
     \<and> (odd (t div 8) \<longleftrightarrow> 48 \<le> n \<and> n \<le> 57 \<or> 65 \<le> n \<and> n \<le> 70 \<or> 97 \<le> n \<and> n \<le> 102)
     \<and> (odd (t div 32) \<longleftrightarrow> 97 \<le> n \<and> n \<le> 122)
     \<and> (odd (t div 64) \<longleftrightarrow> n = 36 \<or> n = 95 \<or> 128 \<le> n)"

lemma ctypeRuns_entries: "runsAll ctypeEntry 0 ctypeRuns"
  unfolding ctypeRuns_def runsAll.simps fst_conv snd_conv
  by (intro conjI allI impI; simp add: ctypeEntry_def; linarith?)

lemma ctypeEntry_nth: "ctypeEntry (unat c) (sqlite3CtypeMap ! unat (c :: u8))"
proof -
  have "length (runsList ctypeRuns) = 256" by (simp add: ctypeRuns_def)
  then show ?thesis using runsAll_nth [OF ctypeRuns_entries, of "unat c"] unat_u8_less [of c]
    by (simp add: ctype_nth del: unat_u8_less)
qed

lemma bit_ctype: "bit (ctype c) k \<longleftrightarrow> k < 8 \<and> odd (sqlite3CtypeMap ! unat c div 2 ^ k)"
  by (auto simp: ctype_def bit_of_nat_iff possible_bit_word bit_iff_odd [where 'a = nat])

lemma ctype_masks:
  "(x :: u8) AND 1 \<noteq> 0 \<longleftrightarrow> bit x 0" "x AND 2 \<noteq> 0 \<longleftrightarrow> bit x 1" "x AND 4 \<noteq> 0 \<longleftrightarrow> bit x 2"
  "x AND 8 \<noteq> 0 \<longleftrightarrow> bit x 3" "x AND 6 \<noteq> 0 \<longleftrightarrow> bit x 1 \<or> bit x 2"
  by (simp_all add: bits_8_iff wbits)

lemma ctype_class:
  "sqlite3Isspace c \<longleftrightarrow> 9 \<le> unat c \<and> unat c \<le> 13 \<or> unat c = 32"
  "sqlite3Isdigit c \<longleftrightarrow> 48 \<le> unat c \<and> unat c \<le> 57"
  "sqlite3Isalpha c \<longleftrightarrow> 65 \<le> unat c \<and> unat c \<le> 90 \<or> 97 \<le> unat c \<and> unat c \<le> 122"
  "sqlite3Isxdigit c \<longleftrightarrow> 48 \<le> unat c \<and> unat c \<le> 57 \<or> 65 \<le> unat c \<and> unat c \<le> 70
     \<or> 97 \<le> unat c \<and> unat c \<le> 102"
  "sqlite3Isalnum c \<longleftrightarrow> sqlite3Isalpha c \<or> sqlite3Isdigit c"
  using ctypeEntry_nth [of c]
  by (simp_all add: sqlite3Isspace_def sqlite3Isdigit_def sqlite3Isalpha_def sqlite3Isxdigit_def
      sqlite3Isalnum_def ctype_masks bit_ctype ctypeEntry_def)

section \<open>Length and comparison\<close>

text \<open>The C string in a buffer: the bytes before the terminator.\<close>

definition cstr :: "bytes \<Rightarrow> bytes" where
  "cstr z = takeWhile (\<lambda>c. c \<noteq> 0) z"

lemma cstr_simps [simp]:
  "cstr [] = []" "cstr (c # z) = (if c = 0 then [] else c # cstr z)"
  by (simp_all add: cstr_def)

lemma cstr_append [simp]: "0 \<notin> set s \<Longrightarrow> cstr (s @ 0 # r) = s"
  by (induction s) auto

definition lower :: "bytes \<Rightarrow> bytes" where
  "lower z = map UpperToLower z"

lemma lower_simps [simp]:
  "lower [] = []" "lower (c # z) = UpperToLower c # lower z"
  by (simp_all add: lower_def)

lemma uint_less_u8:
  "uint (a :: u8) < uint b \<longleftrightarrow> a < b" "uint a = uint b \<longleftrightarrow> a = b" "uint a = 0 \<longleftrightarrow> a = 0"
  "0 < uint a \<longleftrightarrow> a \<noteq> 0"
proof -
  show "uint a = uint b \<longleftrightarrow> a = b" by (rule word_uint_eq_iff [symmetric])
  show e: "uint a = 0 \<longleftrightarrow> a = 0" by (rule uint_0_iff)
  show "0 < uint a \<longleftrightarrow> a \<noteq> 0" using e uint_ge_0 [of a] by linarith
qed (simp add: word_less_def)

lemma strlenLoop_eq: "0 \<in> set z \<Longrightarrow> strlenLoop z n = Some (n + length (cstr z))"
  by (induction z n rule: strlenLoop.induct) auto

lemma sqlite3_stricmp_sign:
  assumes "0 \<in> set a" and "0 \<in> set b"
  shows "\<exists>r. sqlite3_stricmp a b = Some r \<and> (r = 0 \<longleftrightarrow> lower (cstr a) = lower (cstr b))
           \<and> (r < 0 \<longleftrightarrow> ord_class.lexordp (lower (cstr a)) (lower (cstr b)))"
  using assms
proof (induction a b rule: sqlite3_stricmp.induct)
  case (1 a zl b zr)
  show ?case
  proof (cases "a \<noteq> 0 \<and> UpperToLower a = UpperToLower b")
    case True
    then have "b \<noteq> 0" using UpperToLower_eq_0 [of a] UpperToLower_eq_0 [of b] by auto
    then show ?thesis using 1 True by auto
  next
    case False
    then show ?thesis
      using UpperToLower_eq_0 [of a] UpperToLower_eq_0 [of b]
      by (cases "a = 0"; cases "b = 0")
         (auto simp: uint_less_u8 word_gt_0)
  qed
qed auto

lemma sqlite3_strnicmp_take:
  "N \<le> length a \<Longrightarrow> N \<le> length b \<Longrightarrow>
   \<exists>r. sqlite3_strnicmp a b N = Some r
     \<and> (r = 0 \<longleftrightarrow> lower (cstr (take N a)) = lower (cstr (take N b)))"
proof (induction a b N rule: sqlite3_strnicmp.induct)
  case (2 a zl b zr N)
  show ?case
  proof (cases "a \<noteq> 0 \<and> UpperToLower a = UpperToLower b")
    case True
    then have "b \<noteq> 0" using UpperToLower_eq_0 [of a] UpperToLower_eq_0 [of b] by auto
    then show ?thesis using 2 True by auto
  next
    case False
    then show ?thesis
      using UpperToLower_eq_0 [of a] UpperToLower_eq_0 [of b]
      by (cases "a = 0"; cases "b = 0")
         (auto simp: uint_less_u8 word_gt_0)
  qed
qed auto

section \<open>Removing quotes\<close>

text \<open>The quoted form of a string: the closing quote character doubled inside, quotes around.\<close>

definition quoteBody :: "u8 \<Rightarrow> bytes \<Rightarrow> bytes" where
  "quoteBody q s = concat (map (\<lambda>c. if c = q then [q, q] else [c]) s)"

lemma quoteBody_simps [simp]:
  "quoteBody q [] = []" "quoteBody q (c # s) = (if c = q then [q, q] else [c]) @ quoteBody q s"
  by (simp_all add: quoteBody_def)

lemma drop_eq_ConsD: "drop i z = c # r \<Longrightarrow> i < length z \<and> z ! i = c \<and> drop (i + 1) z = r"
proof -
  assume a: "drop i z = c # r"
  then have i: "i < length z" by (metis drop_all linorder_not_less list.distinct(1))
  then show ?thesis using a Cons_nth_drop_Suc [OF i] by simp
qed

lemma dequoteLoop_quoted:
  assumes "drop i z = quoteBody q s @ q # x # r" and "x \<noteq> q" and "j < i"
  shows "\<exists>rest. dequoteLoop z q i j = Some (take j z @ s @ 0 # rest, j + length s)
           \<and> length (take j z @ s @ 0 # rest) = length z"
  using assms
proof (induction s arbitrary: z i j)
  case Nil
  from drop_eq_ConsD [of i z q "x # r"] drop_eq_ConsD [of "i + 1" z x r] Nil
  have "i < length z" "z ! i = q" "i + 1 < length z" "z ! (i + 1) = x" by auto
  then show ?case using Nil
    by (auto simp: dequoteLoop.simps [of z] upd_conv_take_nth_drop)
next
  case (Cons c s)
  show ?case
  proof (cases "c = q")
    case True
    let ?z = "z[j := q]"
    from Cons.prems True drop_eq_ConsD [of i z q "q # quoteBody q s @ q # x # r"]
      drop_eq_ConsD [of "i + 1" z q "quoteBody q s @ q # x # r"]
    have i: "i < length z" "z ! i = q" "i + 1 < length z" "z ! (i + 1) = q"
      "drop (i + 2) ?z = quoteBody q s @ q # x # r" by auto
    from Cons.IH [OF i(5) Cons.prems(2), of "j + 1"] Cons.prems(3)
    obtain rest where "dequoteLoop ?z q (i + 2) (j + 1)
        = Some (take (j + 1) ?z @ s @ 0 # rest, j + 1 + length s)"
      "length (take (j + 1) ?z @ s @ 0 # rest) = length z" by auto
    moreover have "take (j + 1) ?z = take j z @ [q]"
      using i Cons.prems(3) by (simp add: take_Suc_conv_app_nth)
    ultimately show ?thesis using i True Cons.prems(3) by (auto simp: dequoteLoop.simps [of z])
  next
    case False
    let ?z = "z[j := c]"
    from Cons.prems False drop_eq_ConsD [of i z c "quoteBody q s @ q # x # r"]
    have i: "i < length z" "z ! i = c" "drop (i + 1) ?z = quoteBody q s @ q # x # r" by auto
    from Cons.IH [OF i(3) Cons.prems(2), of "j + 1"] Cons.prems(3)
    obtain rest where "dequoteLoop ?z q (i + 1) (j + 1)
        = Some (take (j + 1) ?z @ s @ 0 # rest, j + 1 + length s)"
      "length (take (j + 1) ?z @ s @ 0 # rest) = length z" by auto
    moreover have "take (j + 1) ?z = take j z @ [c]"
      using i Cons.prems(3) by (simp add: take_Suc_conv_app_nth)
    ultimately show ?thesis using i False Cons.prems(3) by (auto simp: dequoteLoop.simps [of z])
  qed
qed

section \<open>Hexadecimal blobs\<close>

definition hexDigit :: "bool \<Rightarrow> nat \<Rightarrow> u8" where
  "hexDigit up n = (if n < 10 then word_of_nat (48 + n) else word_of_nat ((if up then 55 else 87) + n))"

lemma sqlite3HexToInt_hexDigit:
  assumes "n < 16"
  shows "sqlite3HexToInt (hexDigit up n) = word_of_nat n"
proof -
  have "list_all (\<lambda>n. sqlite3HexToInt (hexDigit True n) = word_of_nat n
      \<and> sqlite3HexToInt (hexDigit False n) = word_of_nat n) [0..<16]"
    by code_simp
  then have "sqlite3HexToInt (hexDigit True n) = word_of_nat n
      \<and> sqlite3HexToInt (hexDigit False n) = word_of_nat n"
    using assms by (simp only: list_all_iff set_upt atLeastLessThan_iff) simp
  then show ?thesis by (cases up) auto
qed

definition hexText :: "bool \<Rightarrow> bytes \<Rightarrow> bytes" where
  "hexText up bs = concat (map (\<lambda>b. [hexDigit up (unat b div 16), hexDigit up (unat b mod 16)]) bs)"

lemma nibbles: "push_bit 4 (word_of_nat (unat b div 16)) OR word_of_nat (unat b mod 16) = (b :: u8)"
proof -
  have "word_of_nat (unat b div 16) = drop_bit 4 b" "word_of_nat (unat b mod 16) = take_bit 4 b"
    by (simp_all add: drop_bit_eq_div take_bit_eq_mod unat_div unat_mod word_arith_nat_div word_arith_nat_mod)
  then show ?thesis by (simp add: bits_8_iff wbits bit_simps)
qed

lemma length_hexText [simp]: "length (hexText up bs) = 2 * length bs"
  by (induction bs) (auto simp: hexText_def)

lemma hexToBlobLoop_hexText:
  assumes "drop i z = hexText up bs @ r" and "i + 2 * length bs = nat n \<or> i + 2 * length bs = nat n + 1"
    and "0 \<le> n"
  shows "hexToBlobLoop z n i = Some (bs @ [0])"
  using assms
proof (induction bs arbitrary: i)
  case Nil
  then have "\<not> int i < n" by (auto split: if_splits)
  then show ?case by (simp add: hexToBlobLoop.simps [of z n i])
next
  case (Cons b bs)
  let ?h = "hexDigit up (unat b div 16)" and ?l = "hexDigit up (unat b mod 16)"
  have d: "drop i z = ?h # ?l # hexText up bs @ r" using Cons.prems(1) by (simp add: hexText_def)
  from drop_eq_ConsD [OF d] drop_eq_ConsD [of "i + 1" z ?l "hexText up bs @ r"]
  have i: "i < length z" "z ! i = ?h" "i + 1 < length z" "z ! (i + 1) = ?l"
    "drop (i + 2) z = hexText up bs @ r" by auto
  have "hexToBlobLoop z n (i + 2) = Some (bs @ [0])"
    by (rule Cons.IH) (use i Cons.prems in auto)
  moreover have "int i < n" using Cons.prems by auto
  moreover have "unat b div 16 < 16" using unat_u8_less [of b] by linarith
  ultimately show ?case
    using i nibbles [of b] by (simp add: hexToBlobLoop.simps [of z n i] rd_def sqlite3HexToInt_hexDigit)
qed

section \<open>Properties\<close>

text \<open>The character tables agree with the C locale: the class macros test exactly the ASCII
  ranges, and the case folding table maps the upper-case letters to lower case and every other
  byte to itself.\<close>

theorem character_tables_correct:
  "(sqlite3Isspace c \<longleftrightarrow> 9 \<le> unat c \<and> unat c \<le> 13 \<or> unat c = 32)
   \<and> (sqlite3Isdigit c \<longleftrightarrow> 48 \<le> unat c \<and> unat c \<le> 57)
   \<and> (sqlite3Isalpha c \<longleftrightarrow> 65 \<le> unat c \<and> unat c \<le> 90 \<or> 97 \<le> unat c \<and> unat c \<le> 122)
   \<and> (sqlite3Isxdigit c \<longleftrightarrow> 48 \<le> unat c \<and> unat c \<le> 57 \<or> 65 \<le> unat c \<and> unat c \<le> 70
        \<or> 97 \<le> unat c \<and> unat c \<le> 102)
   \<and> (sqlite3Isalnum c \<longleftrightarrow> sqlite3Isalpha c \<or> sqlite3Isdigit c)
   \<and> unat (UpperToLower c) = (if 65 \<le> unat c \<and> unat c < 91 then unat c + 32 else unat c)"
  using ctype_class [of c] UpperToLower_unat [of c] by blast

text \<open>On two terminated strings \<^verbatim>\<open>sqlite3_stricmp\<close> returns with a number whose sign is that of the
  lexicographic comparison of the case-folded strings, and it does not read past a terminator.\<close>

theorem sqlite3_stricmp_correct:
  assumes "0 \<in> set zLeft" and "0 \<in> set zRight"
  shows "\<exists>r. sqlite3_stricmp zLeft zRight = Some r
           \<and> (r = 0 \<longleftrightarrow> lower (cstr zLeft) = lower (cstr zRight))
           \<and> (r < 0 \<longleftrightarrow> ord_class.lexordp (lower (cstr zLeft)) (lower (cstr zRight)))"
  by (rule sqlite3_stricmp_sign [OF assms])

theorem sqlite3_stricmp_correct_witness:
  "\<exists>r. sqlite3_stricmp [83, 113, 0] [115, 81, 0] = Some r \<and> r = 0"
proof -
  have "lower (cstr [83, 113, 0]) = lower (cstr [115, 81, 0])" by code_simp
  with sqlite3_stricmp_correct [of "[83, 113, 0]" "[115, 81, 0]"] show ?thesis by fastforce
qed

text \<open>Dequoting inverts quoting: for each of the four quote styles, a string with the closing
  quote doubled inside and quotes around it is turned back in place into the string, terminated,
  and its length is returned; the buffer keeps its size.\<close>

theorem sqlite3Dequote_roundtrip:
  assumes "(q, q') \<in> {(0x27, 0x27), (0x22, 0x22), (0x60, 0x60), (0x5b, 0x5d)}" and "0 \<notin> set s"
  shows "\<exists>z. sqlite3Dequote (Some (q # quoteBody q' s @ [q', 0])) = Some (Some z, int (length s))
           \<and> cstr z = s \<and> length z = length (quoteBody q' s) + 3"
proof -
  have "\<exists>rest. dequoteLoop (q # quoteBody q' s @ [q', 0]) q' 1 0 = Some (s @ 0 # rest, length s)
      \<and> length (s @ 0 # rest) = length (quoteBody q' s) + 3"
    using dequoteLoop_quoted [of 1 "q # quoteBody q' s @ [q', 0]" q' s 0 "[]" 0] assms(1) by auto
  then show ?thesis using assms by (auto simp: sqlite3Dequote_def)
qed

theorem sqlite3Dequote_roundtrip_witness:
  "\<exists>z. sqlite3Dequote (Some [0x5b, 0x61, 0x5d, 0x5d, 0x62, 0x5d, 0]) = Some (Some z, 3)
     \<and> cstr z = [0x61, 0x5d, 0x62] \<and> length z = 7"
  using sqlite3Dequote_roundtrip [of "0x5b" "0x5d" "[0x61, 0x5d, 0x62]"] by simp

text \<open>Hexadecimal text in either case is decoded to the bytes it spells, followed by a zero
  byte; when the allocation fails the result is the null pointer.\<close>

theorem sqlite3HexToBlob_roundtrip:
  "sqlite3HexToBlob (hexText up bs @ q # r) (int (2 * length bs) + 1) al
   = (case sqlite3_alloc al of (ok, al') \<Rightarrow> Some (if ok then Some (bs @ [0]) else None, al'))"
proof -
  have "hexToBlobLoop (hexText up bs @ q # r) (int (2 * length bs)) 0 = Some (bs @ [0])"
    by (rule hexToBlobLoop_hexText [where up = up]) (auto simp: nat_mult_distrib)
  then show ?thesis by (simp add: sqlite3HexToBlob_def split: prod.split)
qed

end
