(* ===== verification/Numbers.thy ===== *)
theory Numbers
  imports Strings "HOL-Library.Signed_Division"
begin

text \<open>
  The numeric part of \<^verbatim>\<open>util.c\<close>: 64-bit arithmetic with overflow detection, absolute values,
  logarithmic estimates, and the conversion of decimal text to 32-bit and 64-bit integers. Signed
  C integers are \<^typ>\<open>int\<close> values; an operation whose exact result does not fit the C type has
  undefined behaviour and is \<open>None\<close>, so a theorem that gives a result also shows that no
  intermediate value overflows. Unsigned integers are words.
\<close>

section \<open>Checked 64-bit arithmetic\<close>

definition LARGEST_INT64 :: int where
  "LARGEST_INT64 = 0x7fffffffffffffff"

definition SMALLEST_INT64 :: int where
  "SMALLEST_INT64 = -1 - LARGEST_INT64"

definition in_int64 :: "int \<Rightarrow> bool" where
  "in_int64 x \<longleftrightarrow> SMALLEST_INT64 \<le> x \<and> x \<le> LARGEST_INT64"

definition ck :: "int \<Rightarrow> int option" where
  "ck x = (if in_int64 x then Some x else None)"

text \<open>The result is the return code and the new value of \<^verbatim>\<open>*pA\<close>.\<close>

definition sqlite3AddInt64 :: "int \<Rightarrow> int \<Rightarrow> (nat \<times> int) option" where
  "sqlite3AddInt64 iA iB =
     do { over \<leftarrow>
            (if iB \<ge> 0 then
               (if iA > 0 then do { d \<leftarrow> ck (LARGEST_INT64 - iA); Some (d < iB) } else Some False)
             else
               (if iA < 0 then
                  do { s \<leftarrow> ck (iA + LARGEST_INT64); m \<leftarrow> ck (- s); t \<leftarrow> ck (iB + 1); Some (m > t) }
                else Some False));
          if over then Some (1, iA)
          else do { r \<leftarrow> ck (iA + iB); Some (0, r) } }"

definition sqlite3SubInt64 :: "int \<Rightarrow> int \<Rightarrow> (nat \<times> int) option" where
  "sqlite3SubInt64 iA iB =
     (if iB = SMALLEST_INT64 then
        (if iA \<ge> 0 then Some (1, iA) else do { r \<leftarrow> ck (iA - iB); Some (0, r) })
      else do { m \<leftarrow> ck (- iB); sqlite3AddInt64 iA m })"

definition TWOPOWER32 :: int where
  "TWOPOWER32 = 2 ^ 32"

definition TWOPOWER31 :: int where
  "TWOPOWER31 = 2 ^ 31"

text \<open>
  The end of the multiplication: \<open>r\<close> is the product of a high and a low half, \<open>t\<close> the checked
  product of the low halves.
\<close>

definition mulInt64Finish :: "int \<Rightarrow> int \<Rightarrow> int option \<Rightarrow> (nat \<times> int) option" where
  "mulInt64Finish iA r t =
     (if r < - TWOPOWER31 \<or> r \<ge> TWOPOWER31 then Some (1, iA)
      else do { r \<leftarrow> ck (r * TWOPOWER32);
                t \<leftarrow> t;
                (rc, r) \<leftarrow> sqlite3AddInt64 r t;
                Some (if rc \<noteq> 0 then (1, iA) else (0, r)) })"

definition sqlite3MulInt64 :: "int \<Rightarrow> int \<Rightarrow> (nat \<times> int) option" where
  "sqlite3MulInt64 iA iB =
     (let iA1 = iA sdiv TWOPOWER32; iA0 = iA smod TWOPOWER32;
          iB1 = iB sdiv TWOPOWER32; iB0 = iB smod TWOPOWER32
      in if iA1 = 0 then
           (if iB1 = 0 then do { r \<leftarrow> ck (iA * iB); Some (0, r) }
            else do { r \<leftarrow> ck (iA0 * iB1); mulInt64Finish iA r (ck (iA0 * iB0)) })
         else if iB1 = 0 then do { r \<leftarrow> ck (iA1 * iB0); mulInt64Finish iA r (ck (iA0 * iB0)) }
         else Some (1, iA))"

definition sqlite3AbsInt32 :: "int \<Rightarrow> int" where
  "sqlite3AbsInt32 x = (if x \<ge> 0 then x else if x = - 0x80000000 then 0x7fffffff else - x)"

section \<open>Logarithmic estimates\<close>

definition logEstTab :: "int list" where
  "logEstTab = [10, 10, 9, 9, 8, 8, 7, 7, 7, 6, 6, 6, 5, 5, 5, 4, 4, 4, 4, 3, 3, 3, 3, 3, 3,
                2, 2, 2, 2, 2, 2, 2]"

definition sqlite3LogEstAdd :: "int \<Rightarrow> int \<Rightarrow> int" where
  "sqlite3LogEstAdd a b =
     (if a \<ge> b then
        (if a > b + 49 then a else if a > b + 31 then a + 1 else a + logEstTab ! nat (a - b))
      else
        (if b > a + 49 then b else if b > a + 31 then b + 1 else b + logEstTab ! nat (b - a)))"

function logEstUp :: "nat \<Rightarrow> int \<Rightarrow> nat \<times> int" where
  "logEstUp x y = (if 0 < x \<and> x < 8 then logEstUp (2 * x) (y - 10) else (x, y))"
  by pat_completeness auto
termination by (relation "measure (\<lambda>(x, y). 8 - x)") auto

function logEstDown4 :: "nat \<Rightarrow> int \<Rightarrow> nat \<times> int" where
  "logEstDown4 x y = (if x > 255 then logEstDown4 (x div 16) (y + 40) else (x, y))"
  by pat_completeness auto
termination by (relation "measure fst") auto

function logEstDown1 :: "nat \<Rightarrow> int \<Rightarrow> nat \<times> int" where
  "logEstDown1 x y = (if x > 15 then logEstDown1 (x div 2) (y + 10) else (x, y))"
  by pat_completeness auto
termination by (relation "measure fst") auto

declare logEstUp.simps [simp del] logEstDown4.simps [simp del] logEstDown1.simps [simp del]

definition sqlite3LogEst :: "nat \<Rightarrow> int" where
  "sqlite3LogEst x =
     (if x < 2 then 0
      else
        let (x, y) = (if x < 8 then logEstUp x 40
                      else (case logEstDown4 x 40 of (x, y) \<Rightarrow> logEstDown1 x y))
        in [0, 2, 3, 5, 6, 7, 8, 9] ! (x mod 8) + y - 10)"

definition sqlite3LogEstToInt :: "int \<Rightarrow> u64" where
  "sqlite3LogEstToInt x =
     (if x < 10 then 1
      else
        let n = x mod 10; x = x div 10;
            n = (if n \<ge> 5 then n - 2 else if n \<ge> 1 then n - 1 else n)
        in if x \<ge> 3 then
             (if x > 60 then word_of_int LARGEST_INT64 else push_bit (nat (x - 3)) (word_of_int (n + 8)))
           else drop_bit (nat (3 - x)) (word_of_int (n + 8)))"

section \<open>Decimal text to 32-bit integers\<close>

fun skipZeros :: "bytes \<Rightarrow> bytes option" where
  "skipZeros [] = None"
| "skipZeros (c # z) = (if c = 48 then skipZeros z else Some (c # z))"

text \<open>\<^verbatim>\<open>i\<close> digits have been read and \<^verbatim>\<open>v\<close> is their value; at most eleven are read.\<close>

fun getInt32Loop :: "nat \<Rightarrow> bytes \<Rightarrow> int \<Rightarrow> (nat \<times> int) option" where
  "getInt32Loop i z v =
     (if i < 11 then
        (case z of
           [] \<Rightarrow> None
         | d # z' \<Rightarrow>
             let c = sint d - 48
             in if c \<ge> 0 \<and> c \<le> 9 then do { v \<leftarrow> ck (v * 10 + c); getInt32Loop (i + 1) z' v }
                else Some (i, v))
      else Some (i, v))"

declare getInt32Loop.simps [simp del]

text \<open>The inner option is the stored value; \<open>Some None\<close> is the return value false.\<close>

definition sqlite3GetInt32 :: "bytes \<Rightarrow> int option option" where
  "sqlite3GetInt32 z =
     do { c \<leftarrow> rd z 0;
          let neg = (c = 0x2d);
          z \<leftarrow> skipZeros (if c = 0x2d \<or> c = 0x2b then tl z else z);
          (i, v) \<leftarrow> getInt32Loop 0 z 0;
          Some (if i > 10 then None
                else if v - (if neg then 1 else 0) > 2147483647 then None
                else Some (if neg then - v else v)) }"

definition sqlite3Atoi :: "bytes option \<Rightarrow> int option" where
  "sqlite3Atoi z =
     (case z of None \<Rightarrow> Some 0
      | Some z \<Rightarrow> map_option (\<lambda>r. case r of None \<Rightarrow> 0 | Some x \<Rightarrow> x) (sqlite3GetInt32 z))"

section \<open>Correctness of the arithmetic\<close>

lemmas int64_defs = in_int64_def LARGEST_INT64_def SMALLEST_INT64_def ck_def

lemma sqlite3AddInt64_eq:
  assumes "in_int64 a" and "in_int64 b"
  shows "sqlite3AddInt64 a b = Some (if in_int64 (a + b) then (0, a + b) else (1, a))"
  using assms by (auto simp: sqlite3AddInt64_def int64_defs)

lemma sqlite3SubInt64_eq:
  assumes "in_int64 a" and "in_int64 b"
  shows "sqlite3SubInt64 a b = Some (if in_int64 (a - b) then (0, a - b) else (1, a))"
  using assms sqlite3AddInt64_eq [of a "- b"] by (auto simp: sqlite3SubInt64_def int64_defs)

lemma sdiv_smod_32:
  "x sdiv TWOPOWER32 * TWOPOWER32 + x smod TWOPOWER32 = x"
  "\<bar>x smod TWOPOWER32\<bar> < TWOPOWER32" "0 \<le> x \<Longrightarrow> 0 \<le> x sdiv TWOPOWER32 \<and> 0 \<le> x smod TWOPOWER32"
  "x \<le> 0 \<Longrightarrow> x sdiv TWOPOWER32 \<le> 0 \<and> x smod TWOPOWER32 \<le> 0"
proof -
  have "- x div 4294967296 * 4294967296 + - x mod 4294967296 = - x" by (rule div_mult_mod_eq)
  then have "- (- x div 4294967296 * 4294967296) - - x mod 4294967296 = x" by linarith
  then show "x sdiv TWOPOWER32 * TWOPOWER32 + x smod TWOPOWER32 = x"
    by (auto simp: TWOPOWER32_def signed_divide_int_def signed_modulo_int_def sgn_if abs_if)
qed (auto simp: TWOPOWER32_def signed_divide_int_def signed_modulo_int_def sgn_if abs_if
      split: if_splits)

lemma mulInt64Finish_eq:
  assumes x: "\<bar>x\<bar> < TWOPOWER32" and y0: "\<bar>y0\<bar> < TWOPOWER32" and y1: "y1 \<noteq> 0"
    and sgn: "0 < y1 \<Longrightarrow> 0 \<le> y0" "y1 < 0 \<Longrightarrow> y0 \<le> 0"
    and ab: "a * b = x * y1 * TWOPOWER32 + x * y0"
  shows "mulInt64Finish a (x * y1) (ck (x * y0)) = Some (if in_int64 (a * b) then (0, a * b) else (1, a))"
proof -
  have same: "0 \<le> x * y1 \<Longrightarrow> 0 \<le> x * y0" "x * y1 < 0 \<Longrightarrow> x * y0 \<le> 0"
    using sgn y1 by (auto simp: zero_le_mult_iff mult_less_0_iff mult_le_0_iff)
  show ?thesis
  proof (cases "x * y1 < - TWOPOWER31 \<or> TWOPOWER31 \<le> x * y1")
    case True
    then have "\<not> in_int64 (a * b)"
      unfolding ab using same by (auto simp: int64_defs TWOPOWER31_def TWOPOWER32_def)
    then show ?thesis using True by (auto simp: mulInt64Finish_def)
  next
    case False
    have "1 \<le> \<bar>y1\<bar>" using y1 by simp
    then have "\<bar>x\<bar> * 1 \<le> \<bar>x\<bar> * \<bar>y1\<bar>" by (intro mult_left_mono) auto
    also have "\<dots> \<le> TWOPOWER31" using False by (simp add: abs_mult [symmetric] abs_le_iff)
    finally have "\<bar>x\<bar> \<le> TWOPOWER31" by simp
    then have "\<bar>x\<bar> * \<bar>y0\<bar> \<le> TWOPOWER31 * (TWOPOWER32 - 1)"
      using y0 by (intro mult_mono) (auto simp: TWOPOWER31_def)
    then have t: "in_int64 (x * y0)"
      by (auto simp: abs_mult [symmetric] int64_defs TWOPOWER31_def TWOPOWER32_def abs_le_iff)
    have r: "in_int64 (x * y1 * TWOPOWER32)"
      using False by (auto simp: int64_defs TWOPOWER31_def TWOPOWER32_def)
    show ?thesis
      using False sqlite3AddInt64_eq [OF r t] r t ab by (simp add: mulInt64Finish_def ck_def)
  qed
qed

lemma half_product_in_int64:
  assumes "\<bar>x\<bar> < TWOPOWER32" and "\<bar>y\<bar> \<le> TWOPOWER31"
  shows "in_int64 (x * y)"
proof -
  have "\<bar>x\<bar> * \<bar>y\<bar> \<le> (TWOPOWER32 - 1) * TWOPOWER31"
    using assms by (intro mult_mono) (auto simp: TWOPOWER32_def)
  then show ?thesis
    by (auto simp: abs_mult [symmetric] int64_defs TWOPOWER31_def TWOPOWER32_def abs_le_iff)
qed

lemma sdiv_32_bounds:
  assumes "in_int64 x"
  shows "\<bar>x sdiv TWOPOWER32\<bar> \<le> TWOPOWER31"
  using sdiv_smod_32 [of x] assms
  by (cases "0 \<le> x") (auto simp: int64_defs TWOPOWER31_def TWOPOWER32_def)

lemma both_large_overflow:
  assumes "TWOPOWER32 \<le> \<bar>a\<bar>" and "TWOPOWER32 \<le> \<bar>b\<bar>"
  shows "\<not> in_int64 (a * b)"
proof -
  have "TWOPOWER32 * TWOPOWER32 \<le> \<bar>a\<bar> * \<bar>b\<bar>"
    using assms by (intro mult_mono) (auto simp: TWOPOWER32_def)
  then show ?thesis by (auto simp: abs_mult [symmetric] int64_defs TWOPOWER32_def abs_if split: if_splits)
qed

lemma sdiv_32_eq_0: "x sdiv TWOPOWER32 = 0 \<longleftrightarrow> \<bar>x\<bar> < TWOPOWER32"
proof (cases "0 \<le> x")
  case True
  then show ?thesis using sdiv_smod_32 [of x] by (auto simp: TWOPOWER32_def)
next
  case False
  then show ?thesis using sdiv_smod_32 [of x] by (auto simp: TWOPOWER32_def)
qed

lemma sqlite3MulInt64_eq:
  assumes a: "in_int64 a" and b: "in_int64 b"
  shows "sqlite3MulInt64 a b =
      (if in_int64 (a * b) then Some (0, a * b)
       else if \<bar>a\<bar> < TWOPOWER32 \<and> \<bar>b\<bar> < TWOPOWER32 then None
       else Some (1, a))"
proof -
  define a1 a0 b1 b0 where d: "a1 = a sdiv TWOPOWER32" "a0 = a smod TWOPOWER32"
    "b1 = b sdiv TWOPOWER32" "b0 = b smod TWOPOWER32"
  note A = sdiv_smod_32 [of a, folded d] and B = sdiv_smod_32 [of b, folded d]
  note z = sdiv_32_eq_0 [of a, folded d] sdiv_32_eq_0 [of b, folded d]
  note bd = sdiv_32_bounds [OF a, folded d] sdiv_32_bounds [OF b, folded d]
  consider "a1 = 0" "b1 = 0" | (ah) "a1 \<noteq> 0" "b1 = 0" | (bh) "a1 = 0" "b1 \<noteq> 0" | (both) "a1 \<noteq> 0" "b1 \<noteq> 0"
    by blast
  then show ?thesis
  proof cases
    case ah
    have "mulInt64Finish a (b0 * a1) (ck (b0 * a0)) = Some (if in_int64 (a * b) then (0, a * b) else (1, a))"
    proof (rule mulInt64Finish_eq)
      show "a * b = b0 * a1 * TWOPOWER32 + b0 * a0"
        using A(1) B(1) ah(2) by (simp add: algebra_simps) (metis distrib_left mult.assoc mult.commute)
      show "0 < a1 \<Longrightarrow> 0 \<le> a0" "a1 < 0 \<Longrightarrow> a0 \<le> 0" using A(3,4) by linarith+
    qed (use A B ah in auto)
    then show ?thesis
      using ah half_product_in_int64 [OF B(2) bd(1)] z
      by (simp add: sqlite3MulInt64_def d [symmetric] ck_def mult.commute [of _ b0])
  next
    case bh
    have "mulInt64Finish a (a0 * b1) (ck (a0 * b0)) = Some (if in_int64 (a * b) then (0, a * b) else (1, a))"
    proof (rule mulInt64Finish_eq)
      show "a * b = a0 * b1 * TWOPOWER32 + a0 * b0"
        using A(1) B(1) bh(1) by (simp add: algebra_simps) (metis distrib_left mult.assoc mult.commute)
      show "0 < b1 \<Longrightarrow> 0 \<le> b0" "b1 < 0 \<Longrightarrow> b0 \<le> 0" using B(3,4) by linarith+
    qed (use A B bh in auto)
    then show ?thesis
      using bh half_product_in_int64 [OF A(2) bd(2)] z
      by (simp add: sqlite3MulInt64_def d [symmetric] ck_def)
  next
    case both
    then show ?thesis
      using z both_large_overflow [of a b] by (simp add: sqlite3MulInt64_def d [symmetric] not_less)
  qed (use z in \<open>simp add: sqlite3MulInt64_def d [symmetric] ck_def\<close>)
qed

section \<open>Correctness of the logarithmic estimate\<close>

text \<open>The loops shift out bits and count ten for each of them.\<close>

lemma logEstDown1_shift:
  "8 \<le> x \<Longrightarrow> \<exists>k. logEstDown1 x y = (x div 2 ^ k, y + 10 * int k) \<and> 8 \<le> x div 2 ^ k \<and> x div 2 ^ k \<le> 15"
proof (induction x y rule: logEstDown1.induct)
  case (1 x y)
  show ?case
  proof (cases "x > 15")
    case True
    then have "8 \<le> x div 2" by linarith
    with True obtain k where "logEstDown1 (x div 2) (y + 10) = (x div 2 div 2 ^ k, y + 10 + 10 * int k)"
      "8 \<le> x div 2 div 2 ^ k" "x div 2 div 2 ^ k \<le> 15"
      using 1 by auto
    then show ?thesis using True
      by (intro exI [of _ "Suc k"]) (auto simp: logEstDown1.simps [of x] div_mult2_eq)
  next
    case False
    then show ?thesis using 1 by (intro exI [of _ 0]) (auto simp: logEstDown1.simps [of x])
  qed
qed

lemma logEstDown4_shift:
  "8 \<le> x \<Longrightarrow> \<exists>k. logEstDown4 x y = (x div 2 ^ k, y + 10 * int k) \<and> 8 \<le> x div 2 ^ k"
proof (induction x y rule: logEstDown4.induct)
  case (1 x y)
  show ?case
  proof (cases "x > 255")
    case True
    then have "8 \<le> x div 16" by linarith
    with True obtain k where "logEstDown4 (x div 16) (y + 40) = (x div 16 div 2 ^ k, y + 40 + 10 * int k)"
      "8 \<le> x div 16 div 2 ^ k"
      using 1 by auto
    moreover have "x div 16 div 2 ^ k = x div 2 ^ (k + 4)"
      by (simp add: power_add mult.commute flip: div_mult2_eq)
    ultimately show ?thesis using True
      by (intro exI [of _ "k + 4"]) (auto simp: logEstDown4.simps [of x])
  next
    case False
    then show ?thesis using 1 by (intro exI [of _ 0]) (auto simp: logEstDown4.simps [of x])
  qed
qed

lemma sqlite3LogEst_shift:
  assumes "8 \<le> x"
  shows "\<exists>k d. sqlite3LogEst x = [0, 2, 3, 5, 6, 7, 8, 9] ! d + 30 + 10 * int k \<and> d < 8
           \<and> (8 + d) * 2 ^ k \<le> x \<and> x < (9 + d) * 2 ^ k"
proof -
  from logEstDown4_shift [OF assms, of 40] obtain k where
    k: "logEstDown4 x 40 = (x div 2 ^ k, 40 + 10 * int k)" "8 \<le> x div 2 ^ k" by blast
  from logEstDown1_shift [OF k(2), of "40 + 10 * int k"] obtain j where
    j: "logEstDown1 (x div 2 ^ k) (40 + 10 * int k) = (x div 2 ^ k div 2 ^ j, 40 + 10 * int k + 10 * int j)"
    "8 \<le> x div 2 ^ k div 2 ^ j" "x div 2 ^ k div 2 ^ j \<le> 15" by blast
  let ?x = "x div 2 ^ (k + j)"
  have e: "x div 2 ^ k div 2 ^ j = ?x" by (simp add: div_mult2_eq power_add)
  define d where "d = ?x - 8"
  have d: "d < 8" "?x = 8 + d" using j(2,3) e by (auto simp: d_def)
  have "?x mod 8 = d" using d by (simp add: mod_add_self1)
  then have "sqlite3LogEst x = [0, 2, 3, 5, 6, 7, 8, 9] ! d + 30 + 10 * int (k + j)"
    using assms k j e by (simp add: sqlite3LogEst_def)
  moreover have "(8 + d) * 2 ^ (k + j) \<le> x"
    using div_times_less_eq_dividend [of x "2 ^ (k + j)"] d by simp
  moreover have "x < (9 + d) * 2 ^ (k + j)"
    using dividend_less_div_times [of "2 ^ (k + j)" x] d by (simp add: algebra_simps)
  ultimately show ?thesis using d by blast
qed

lemma logEst_digit:
  assumes "d < 8"
  shows "2 ^ nat ([0, 2, 3, 5, 6, 7, 8, 9] ! d + 30 :: int) \<le> 2 * ((8 + d) :: nat) ^ 10
       \<and> ((9 + d) :: nat) ^ 10 \<le> 4 * 2 ^ nat ([0, 2, 3, 5, 6, 7, 8, 9] ! d + 30 :: int)"
proof -
  have "d = 0 \<or> d = 1 \<or> d = 2 \<or> d = 3 \<or> d = 4 \<or> d = 5 \<or> d = 6 \<or> d = 7" using assms by auto
  then show ?thesis by (elim disjE) (simp_all add: nat_numeral)
qed

lemma sqlite3LogEst_bounds:
  assumes "1 \<le> x"
  shows "0 \<le> sqlite3LogEst x \<and> 2 ^ nat (sqlite3LogEst x) \<le> 2 * x ^ 10 \<and> x ^ 10 \<le> 4 * 2 ^ nat (sqlite3LogEst x)"
proof (cases "8 \<le> x")
  case True
  then obtain k d where e: "sqlite3LogEst x = [0, 2, 3, 5, 6, 7, 8, 9] ! d + 30 + 10 * int k" "d < 8"
    "(8 + d) * 2 ^ k \<le> x" "x < (9 + d) * 2 ^ k"
    using sqlite3LogEst_shift by blast
  let ?t = "[0, 2, 3, 5, 6, 7, 8, 9] ! d + 30 :: int"
  have t0: "0 \<le> ?t" using e(2) by (auto simp: less_Suc_eq numeral_eq_Suc)
  then have "nat (sqlite3LogEst x) = nat ?t + 10 * k" using e(1) by (simp add: nat_add_distrib nat_mult_distrib)
  moreover have "(2 :: nat) ^ (10 * k) = (2 ^ k) ^ 10" by (metis mult.commute power_mult)
  ultimately have p: "(2 :: nat) ^ nat (sqlite3LogEst x) = 2 ^ nat ?t * (2 ^ k) ^ 10"
    by (simp add: power_add)
  have "((8 + d) * 2 ^ k) ^ 10 \<le> x ^ 10" "x ^ 10 \<le> ((9 + d) * 2 ^ k) ^ 10"
    using e(3,4) by (auto intro: power_mono)
  then have lo: "(8 + d) ^ 10 * (2 ^ k) ^ 10 \<le> x ^ 10" and hi: "x ^ 10 \<le> (9 + d) ^ 10 * (2 ^ k) ^ 10"
    by (simp_all only: power_mult_distrib)
  have "2 ^ nat ?t * (2 ^ k) ^ 10 \<le> 2 * (8 + d) ^ 10 * (2 ^ k :: nat) ^ 10"
    "(9 + d) ^ 10 * (2 ^ k) ^ 10 \<le> 4 * 2 ^ nat ?t * (2 ^ k :: nat) ^ 10"
    using logEst_digit [OF e(2)] by (auto intro: mult_right_mono)
  moreover have "0 \<le> sqlite3LogEst x" using e(1) t0 by linarith
  ultimately show ?thesis unfolding p using lo hi by linarith
next
  case False
  then have "x = 1 \<or> x = 2 \<or> x = 3 \<or> x = 4 \<or> x = 5 \<or> x = 6 \<or> x = 7" using assms by linarith
  then show ?thesis by (elim disjE) (simp_all add: sqlite3LogEst_def logEstUp.simps)
qed

section \<open>Correctness of the 32-bit conversion\<close>

definition isdig :: "u8 \<Rightarrow> bool" where
  "isdig d \<longleftrightarrow> 48 \<le> unat d \<and> unat d \<le> 57"

definition digVal :: "u8 \<Rightarrow> nat" where
  "digVal d = unat d - 48"

primrec decVal :: "nat \<Rightarrow> bytes \<Rightarrow> nat" where
  "decVal v [] = v"
| "decVal v (d # ds) = decVal (v * 10 + digVal d) ds"

lemma decVal_acc: "decVal v ds = v * 10 ^ length ds + decVal 0 ds"
proof (induction ds arbitrary: v)
  case (Cons d ds)
  from Cons.IH [of "v * 10 + digVal d"] Cons.IH [of "digVal d"] show ?case
    by (simp add: algebra_simps)
qed simp

lemma decVal_less:
  assumes "list_all isdig ds"
  shows "decVal 0 ds < 10 ^ length ds"
  using assms
proof (induction ds)
  case (Cons d ds)
  have "digVal d \<le> 9" using Cons.prems by (auto simp: digVal_def isdig_def)
  then have "digVal d * 10 ^ length ds \<le> 9 * 10 ^ length ds" by simp
  moreover have "decVal 0 ds < 10 ^ length ds" using Cons by simp
  ultimately have "digVal d * 10 ^ length ds + decVal 0 ds < 10 * 10 ^ length ds" by linarith
  then show ?case using decVal_acc [of "digVal d" ds] by simp
qed simp

lemma sint_u8: "sint (x :: u8) = (if unat x < 128 then int (unat x) else int (unat x) - 256)"
proof -
  define n where "n = unat x"
  have u: "uint x = int n" and n: "n < 256" by (simp_all add: n_def)
  have "(int n + 128) mod 256 - 128 = (if n < 128 then int n else int n - 256)"
  proof (cases "n < 128")
    case False
    have "(int n - 128 + 256) mod 256 = (int n - 128) mod 256" by (rule mod_add_self2)
    also have "\<dots> = int n - 128" using n False by (intro mod_pos_pos_trivial) auto
    finally show ?thesis using False by (simp add: add.commute)
  qed simp
  moreover have "sint x = (uint x + 128) mod 256 - 128"
    by (simp add: sint_uint signed_take_bit_eq_take_bit_shift take_bit_eq_mod)
  ultimately show ?thesis unfolding n_def [symmetric] u by simp
qed

lemma isdig_sint: "isdig d \<longleftrightarrow> 0 \<le> sint d - 48 \<and> sint d - 48 \<le> 9"
proof -
  have "unat d < 256" by simp
  then show ?thesis unfolding isdig_def sint_u8 by (simp only: split: if_splits) linarith
qed

lemma isdig_val: "isdig d \<Longrightarrow> sint d - 48 = int (digVal d)"
  unfolding isdig_def digVal_def sint_u8 by (simp only: of_nat_diff split: if_splits) linarith

lemma getInt32Loop_digits:
  assumes "list_all isdig ds" and "\<not> isdig x" and "i + length ds \<le> 10" and "v < 10 ^ i"
  shows "getInt32Loop i (ds @ x # r) (int v) = Some (i + length ds, int (decVal v ds))"
  using assms
proof (induction ds arbitrary: i v)
  case Nil
  then show ?case by (auto simp: getInt32Loop.simps [of i] isdig_sint Let_def)
next
  case (Cons d ds)
  have i: "i \<le> 9" and d: "isdig d" using Cons.prems by auto
  have dv: "digVal d \<le> 9" using d by (auto simp: digVal_def isdig_def)
  then have v: "v * 10 + digVal d < 10 ^ Suc i" using Cons.prems(4) by simp
  have "(10 :: nat) ^ Suc i \<le> 10 ^ 10" using i by (intro power_increasing) auto
  then have "in_int64 (int (v * 10 + digVal d))" using v by (auto simp: int64_defs)
  then have "ck (int v * 10 + int (digVal d)) = Some (int (v * 10 + digVal d))"
    by (simp add: ck_def)
  then show ?case
    using Cons.IH [of "Suc i" "v * 10 + digVal d"] Cons.prems d i v isdig_val [OF d] isdig_sint [of d]
    by (simp add: getInt32Loop.simps [of i] Let_def)
qed

lemma getInt32Loop_long:
  assumes "list_all isdig ds" and "i \<le> 11" and "11 \<le> i + length ds" and "v < 10 ^ i"
  shows "\<exists>w. getInt32Loop i (ds @ r) (int v) = Some (11, w)"
  using assms
proof (induction ds arbitrary: i v)
  case Nil
  then show ?case by (auto simp: getInt32Loop.simps [of 11])
next
  case (Cons d ds)
  show ?case
  proof (cases "i < 11")
    case True
    have d: "isdig d" using Cons.prems by auto
    have dv: "digVal d \<le> 9" using d by (auto simp: digVal_def isdig_def)
    then have v: "v * 10 + digVal d < 10 ^ Suc i" using Cons.prems(4) by simp
    have "(10 :: nat) ^ Suc i \<le> 10 ^ 11" using True by (intro power_increasing) auto
    then have "in_int64 (int (v * 10 + digVal d))" using v by (auto simp: int64_defs)
    then have "ck (int v * 10 + int (digVal d)) = Some (int (v * 10 + digVal d))"
      by (simp add: ck_def)
    then show ?thesis
      using Cons.IH [of "Suc i" "v * 10 + digVal d"] Cons.prems d True v isdig_val [OF d] isdig_sint [of d]
      by (auto simp: getInt32Loop.simps [of i] Let_def)
  qed (use Cons.prems in \<open>auto simp: getInt32Loop.simps [of 11]\<close>)
qed

lemma skipZeros_digits:
  "x \<noteq> 48 \<Longrightarrow> skipZeros (ds @ x # r) = Some (dropWhile (\<lambda>c. c = 48) ds @ x # r)"
  by (induction ds) auto

lemma decVal_dropWhile: "decVal 0 (dropWhile (\<lambda>c. c = 48) ds) = decVal 0 ds"
  by (induction ds) (auto simp: digVal_def)

lemma decVal_large:
  assumes "list_all isdig ds" and "ds = d # ds'" and "d \<noteq> 48"
  shows "10 ^ (length ds - 1) \<le> decVal 0 ds"
proof -
  have "digVal d \<ge> 1"
  proof -
    have "unat d \<noteq> unat (48 :: u8)" using assms(3) by (metis word_unat_eq_iff)
    then show ?thesis using assms(1,2) by (auto simp: digVal_def isdig_def)
  qed
  then have "1 * 10 ^ length ds' \<le> digVal d * 10 ^ length ds'" by (intro mult_right_mono) auto
  then have "10 ^ length ds' \<le> decVal (digVal d) ds'"
    unfolding decVal_acc [of "digVal d" ds'] by linarith
  then show ?thesis using assms(2) by simp
qed

definition in_int32 :: "int \<Rightarrow> bool" where
  "in_int32 x \<longleftrightarrow> - 2147483648 \<le> x \<and> x \<le> 2147483647"

lemma sqlite3GetInt32_digits:
  assumes ds: "list_all isdig ds" and x: "\<not> isdig x" and z: "z = sg @ ds @ x # r"
    and sg: "sg = [0x2d] \<and> neg \<or> sg = [0x2b] \<and> \<not> neg \<or> sg = [] \<and> \<not> neg \<and> (ds = [] \<longrightarrow> x \<noteq> 0x2d \<and> x \<noteq> 0x2b)"
  shows "sqlite3GetInt32 z =
    (let v = (if neg then - int (decVal 0 ds) else int (decVal 0 ds)) in
     Some (if in_int32 v then Some v else None))"
proof -
  let ?e = "dropWhile (\<lambda>c. c = 48) ds"
  have x48: "x \<noteq> 48" using x by (auto simp: isdig_def)
  have e: "list_all isdig ?e" using ds by (auto simp: list_all_iff dest: set_dropWhileD)
  have sk: "skipZeros (ds @ x # r) = Some (?e @ x # r)" by (rule skipZeros_digits [OF x48])
  obtain c where c: "rd z 0 = Some c" "(c = 0x2d \<longleftrightarrow> neg)"
    "(if c = 0x2d \<or> c = 0x2b then tl z else z) = ds @ x # r"
  proof (cases "sg = []")
    case False
    then show thesis using that sg z by auto
  next
    case True
    then have "hd (ds @ [x]) \<noteq> 0x2d \<and> hd (ds @ [x]) \<noteq> 0x2b"
      using sg ds by (cases ds) (auto simp: isdig_def)
    then show thesis using that True sg z by (cases ds) auto
  qed
  have dv: "decVal 0 ?e = decVal 0 ds" by (rule decVal_dropWhile)
  show ?thesis
  proof (cases "length ?e \<le> 10")
    case True
    then have "getInt32Loop 0 (?e @ x # r) (int 0) = Some (length ?e, int (decVal 0 ds))"
      using getInt32Loop_digits [OF e x, of 0 0 r] dv by simp
    then show ?thesis
      using True c sk by (auto simp: sqlite3GetInt32_def in_int32_def Let_def)
  next
    case False
    then obtain d e' where de: "?e = d # e'" by (cases ?e) auto
    then have "d \<noteq> 48" using hd_dropWhile [of "\<lambda>c. c = 48" ds] by force
    from decVal_large [OF e de this] have "10 ^ (length ?e - 1) \<le> decVal 0 ds" using dv by simp
    moreover have "(10 :: nat) ^ 10 \<le> 10 ^ (length ?e - 1)" using False by (intro power_increasing) auto
    ultimately have "10 ^ 10 \<le> decVal 0 ds" by linarith
    moreover obtain w where "getInt32Loop 0 (?e @ x # r) (int 0) = Some (11, w)"
      using getInt32Loop_long [OF e, of 0 0 "x # r"] False by auto
    ultimately show ?thesis
      using c sk by (auto simp: sqlite3GetInt32_def in_int32_def Let_def)
  qed
qed

section \<open>Properties\<close>

text \<open>Addition and subtraction of 64-bit signed integers are exact: the sum or difference is
  stored and 0 returned when it fits, otherwise the operand is left unchanged and 1 returned; no
  intermediate value overflows.\<close>

theorem int64_add_sub_correct:
  assumes "in_int64 iA" and "in_int64 iB"
  shows "sqlite3AddInt64 iA iB = Some (if in_int64 (iA + iB) then (0, iA + iB) else (1, iA))
       \<and> sqlite3SubInt64 iA iB = Some (if in_int64 (iA - iB) then (0, iA - iB) else (1, iA))"
  using sqlite3AddInt64_eq [OF assms] sqlite3SubInt64_eq [OF assms] by blast

theorem int64_add_sub_correct_witness:
  "sqlite3AddInt64 9223372036854775807 1 = Some (1, 9223372036854775807)
   \<and> sqlite3SubInt64 (-9223372036854775808) 1 = Some (1, -9223372036854775808)"
  using int64_add_sub_correct [of 9223372036854775807 1] int64_add_sub_correct [of "-9223372036854775808" 1]
  by (simp add: int64_defs)

text \<open>C39. Multiplication of 64-bit signed integers. When one factor is at least \<open>2 ^ 32\<close> in absolute
  value, or the product fits, the result is exact and an overflow is reported. When both factors
  are below \<open>2 ^ 32\<close> in absolute value and their product does not fit, the code multiplies them
  without a check: the multiplication overflows.\<close>

theorem sqlite3MulInt64_exact_or_overflow:
  assumes "in_int64 iA" and "in_int64 iB"
  shows "sqlite3MulInt64 iA iB =
      (if in_int64 (iA * iB) then Some (0, iA * iB)
       else if \<bar>iA\<bar> < 2 ^ 32 \<and> \<bar>iB\<bar> < 2 ^ 32 then None
       else Some (1, iA))"
  using sqlite3MulInt64_eq [OF assms] by (simp add: TWOPOWER32_def)

theorem sqlite3MulInt64_exact_or_overflow_witness:
  "sqlite3MulInt64 4294967295 4294967295 = None
   \<and> sqlite3MulInt64 4294967296 2147483648 = Some (1, 4294967296)
   \<and> sqlite3MulInt64 (-4294967296) 2147483648 = Some (0, -9223372036854775808)"
  using sqlite3MulInt64_exact_or_overflow [of 4294967295 4294967295]
    sqlite3MulInt64_exact_or_overflow [of 4294967296 2147483648]
    sqlite3MulInt64_exact_or_overflow [of "-4294967296" 2147483648]
  by (simp add: int64_defs)

text \<open>\<^verbatim>\<open>sqlite3GetInt32\<close> on an optional sign, any digits and a byte that is not a digit succeeds
  exactly when the number fits in 32 bits, and then stores it; without digits the number is 0. It
  reads no further than the byte after the digits.\<close>

theorem sqlite3GetInt32_correct:
  assumes "list_all isdig ds" and "\<not> isdig x"
    and "sg = [0x2d] \<and> neg \<or> sg = [0x2b] \<and> \<not> neg \<or> sg = [] \<and> \<not> neg \<and> (ds = [] \<longrightarrow> x \<noteq> 0x2d \<and> x \<noteq> 0x2b)"
  shows "sqlite3GetInt32 (sg @ ds @ [x]) =
    (let v = (if neg then - int (decVal 0 ds) else int (decVal 0 ds)) in
     Some (if in_int32 v then Some v else None))"
  by (rule sqlite3GetInt32_digits [OF assms(1,2) refl assms(3)])

theorem sqlite3GetInt32_correct_witness:
  "sqlite3GetInt32 [0x2d, 0x32, 0x31, 0x34, 0x37, 0x34, 0x38, 0x33, 0x36, 0x34, 0x38, 0] = Some (Some (-2147483648))
   \<and> sqlite3GetInt32 [0x61] = Some (Some 0)"
  using sqlite3GetInt32_correct [of "[0x32, 0x31, 0x34, 0x37, 0x34, 0x38, 0x33, 0x36, 0x34, 0x38]" 0 "[0x2d]" True]
    sqlite3GetInt32_correct [of "[]" "0x61" "[]" False]
  by (simp add: isdig_def digVal_def in_int32_def)

text \<open>The logarithmic estimate \<open>e\<close> of \<open>x \<ge> 1\<close> approximates \<open>10 log\<^sub>2 x\<close>: it is at most one above
  and at most two below, stated over the integers as bounds of \<open>2 ^ e\<close> by \<open>x ^ 10\<close>.\<close>

theorem sqlite3LogEst_approximates:
  assumes "1 \<le> x"
  shows "0 \<le> sqlite3LogEst x \<and> 2 ^ nat (sqlite3LogEst x) \<le> 2 * x ^ 10
       \<and> x ^ 10 \<le> 4 * 2 ^ nat (sqlite3LogEst x)"
  by (rule sqlite3LogEst_bounds [OF assms])

theorem sqlite3LogEst_approximates_witness:
  "2 ^ nat (sqlite3LogEst 1000000) \<le> 2 * (1000000 :: nat) ^ 10"
  using sqlite3LogEst_approximates [of 1000000] by (simp only: one_le_numeral)

end
