(* ===== verification/Atoi.thy ===== *)
theory Atoi
  imports Numbers
begin

text \<open>
  \<^verbatim>\<open>sqlite3Atoi64\<close> of \<^verbatim>\<open>util.c\<close>: decimal text in UTF-8 or UTF-16 to a 64-bit integer, with the
  comparison against \<open>2 ^ 63\<close> it uses for numbers of nineteen digits. Pointers into the text are
  positions in its buffer.
\<close>

datatype enc = SQLITE_UTF8 | SQLITE_UTF16LE | SQLITE_UTF16BE

definition encNum :: "enc \<Rightarrow> nat" where
  "encNum enc = (case enc of SQLITE_UTF8 \<Rightarrow> 1 | SQLITE_UTF16LE \<Rightarrow> 2 | SQLITE_UTF16BE \<Rightarrow> 3)"

definition pow63 :: bytes where
  "pow63 = [57, 50, 50, 51, 51, 55, 50, 48, 51, 54, 56, 53, 52, 55, 55, 53, 56, 48]"

text \<open>The loop of \<^verbatim>\<open>compare2pow63\<close>, over the remaining digits of the constant; \<open>i\<close> is the index.\<close>

fun compareLoop :: "bytes \<Rightarrow> nat \<Rightarrow> nat \<Rightarrow> nat \<Rightarrow> bytes \<Rightarrow> int option" where
  "compareLoop z p incr i [] = Some 0"
| "compareLoop z p incr i (d # ds) =
     do { c \<leftarrow> rd z (p + i * incr);
          let c = (sint c - sint d) * 10;
          if c = 0 then compareLoop z p incr (i + 1) ds else Some c }"

definition compare2pow63 :: "bytes \<Rightarrow> nat \<Rightarrow> nat \<Rightarrow> int option" where
  "compare2pow63 z p incr =
     do { c \<leftarrow> compareLoop z p incr 0 pow63;
          if c = 0 then do { d \<leftarrow> rd z (p + 18 * incr); Some (sint d - 0x38) } else Some c }"

text \<open>The scan for the first byte of UTF-16 text that shows a character beyond Latin-1.\<close>

function utf16Scan :: "bytes \<Rightarrow> nat \<Rightarrow> nat \<Rightarrow> nat option" where
  "utf16Scan z i len =
     (if i < len then (case rd z i of None \<Rightarrow> None | Some c \<Rightarrow> if c = 0 then utf16Scan z (i + 2) len else Some i)
      else Some i)"
  by pat_completeness auto
termination by (relation "measure (\<lambda>(z, i, len). len - i)") auto

function skipWhile :: "(u8 \<Rightarrow> bool) \<Rightarrow> bytes \<Rightarrow> nat \<Rightarrow> nat \<Rightarrow> nat \<Rightarrow> nat option" where
  "skipWhile P z p zEnd incr =
     (if p < zEnd then
        (case rd z p of None \<Rightarrow> None
         | Some c \<Rightarrow> if P c then skipWhile P z (p + Suc incr) zEnd incr else Some p)
      else Some p)"
  by pat_completeness auto
termination by (relation "measure (\<lambda>(P, z, p, zEnd, incr). zEnd - p)") auto

text \<open>The digit loop: the value so far, the index \<open>i\<close> and the last byte read into \<^verbatim>\<open>c\<close>.\<close>

function atoi64Loop :: "bytes \<Rightarrow> nat \<Rightarrow> nat \<Rightarrow> nat \<Rightarrow> u64 \<Rightarrow> nat \<Rightarrow> int \<Rightarrow> (u64 \<times> nat \<times> int) option" where
  "atoi64Loop z p zEnd incr u i c =
     (if p + i < zEnd then
        (case rd z (p + i) of None \<Rightarrow> None
         | Some d \<Rightarrow>
             let c = sint d
             in if c \<ge> 48 \<and> c \<le> 57
                then atoi64Loop z p zEnd incr (u * 10 + word_of_int c - 48) (i + Suc incr) c
                else Some (u, i, c))
      else Some (u, i, c))"
  by pat_completeness auto
termination by (relation "measure (\<lambda>(z, p, zEnd, incr, u, i, c). zEnd - (p + i))") auto

declare utf16Scan.simps [simp del] skipWhile.simps [simp del] atoi64Loop.simps [simp del]

text \<open>
  The start of the text and its end for each encoding: the increment, whether the text is cut short,
  the end and the start. The loops take the increment minus one, so that every round advances.
\<close>

definition atoi64Setup :: "bytes \<Rightarrow> nat \<Rightarrow> enc \<Rightarrow> (nat \<times> bool \<times> nat \<times> nat) option" where
  "atoi64Setup z len enc =
     (if enc = SQLITE_UTF8 then Some (0, False, len, 0)
      else do { i \<leftarrow> utf16Scan z (3 - encNum enc) len;
                Some (1, i < len, i + encNum enc - 3, if odd (encNum enc) then 1 else 0) })"

definition atoi64Sign :: "bytes \<Rightarrow> nat \<Rightarrow> nat \<Rightarrow> nat \<Rightarrow> (bool \<times> nat) option" where
  "atoi64Sign z p zEnd incr =
     (if p < zEnd then
        do { c \<leftarrow> rd z p;
             Some (if c = 0x2d then (True, p + Suc incr)
                   else if c = 0x2b then (False, p + Suc incr) else (False, p)) }
      else Some (False, p))"

definition atoi64Num :: "bool \<Rightarrow> u64 \<Rightarrow> int" where
  "atoi64Num neg u =
     (if uint u > LARGEST_INT64 then (if neg then SMALLEST_INT64 else LARGEST_INT64)
      else if neg then - uint u else uint u)"

definition atoi64Finish ::
    "bytes \<Rightarrow> nat \<Rightarrow> bool \<Rightarrow> nat \<Rightarrow> bool \<Rightarrow> nat \<Rightarrow> nat \<Rightarrow> u64 \<times> nat \<times> int \<Rightarrow> (nat \<times> int) option" where
  "atoi64Finish z incr nonNum zEnd neg zStart p r =
     (case r of (u, i, c) \<Rightarrow>
        if c \<noteq> 0 \<and> p + i < zEnd \<or> i = 0 \<and> zStart = p \<or> i > 19 * Suc incr \<or> nonNum
        then Some (1, atoi64Num neg u)
        else if i < 19 * Suc incr then Some (0, atoi64Num neg u)
        else do { c \<leftarrow> compare2pow63 z p (Suc incr);
                  Some (if c < 0 then 0 else if c > 0 then 1 else if neg then 0 else 2, atoi64Num neg u) })"

text \<open>The result is the return code and the stored value.\<close>

definition sqlite3Atoi64 :: "bytes \<Rightarrow> nat \<Rightarrow> enc \<Rightarrow> (nat \<times> int) option" where
  "sqlite3Atoi64 z len enc =
     do { (incr, nonNum, zEnd, p) \<leftarrow> atoi64Setup z len enc;
          p \<leftarrow> skipWhile sqlite3Isspace z p zEnd incr;
          (neg, zStart) \<leftarrow> atoi64Sign z p zEnd incr;
          p \<leftarrow> skipWhile (\<lambda>c. c = 0x30) z zStart zEnd incr;
          r \<leftarrow> atoi64Loop z p zEnd incr 0 0 0;
          atoi64Finish z incr nonNum zEnd neg zStart p r }"

section \<open>The characters of a text\<close>

text \<open>
  \<open>view z e S p cs\<close>: reading \<open>z\<close> from position \<open>p\<close> in steps of \<open>S\<close> up to the end \<open>e\<close> gives the
  characters \<open>cs\<close>.
\<close>

primrec view :: "bytes \<Rightarrow> nat \<Rightarrow> nat \<Rightarrow> nat \<Rightarrow> bytes \<Rightarrow> bool" where
  "view z e S p [] \<longleftrightarrow> \<not> p < e"
| "view z e S p (c # cs) \<longleftrightarrow> p < e \<and> rd z p = Some c \<and> view z e S (p + S) cs"

definition encode :: "enc \<Rightarrow> bytes \<Rightarrow> bytes" where
  "encode enc cs = (case enc of SQLITE_UTF8 \<Rightarrow> cs
     | SQLITE_UTF16LE \<Rightarrow> concat (map (\<lambda>c. [c, 0]) cs)
     | SQLITE_UTF16BE \<Rightarrow> concat (map (\<lambda>c. [0, c]) cs))"

lemma length_encode: "length (encode enc cs) = (if enc = SQLITE_UTF8 then length cs else 2 * length cs)"
  by (cases enc) (auto simp: encode_def length_concat comp_def sum_list_triv)

lemma rd_append: "rd (pre @ c # r) (length pre) = Some c"
  by (simp add: rd_def)

lemma view_utf8: "view (pre @ cs) (length pre + length cs) 1 (length pre) cs"
proof (induction cs arbitrary: pre)
  case (Cons c cs)
  from Cons [of "pre @ [c]"] show ?case by (simp add: rd_append)
qed simp

lemma view_utf16le:
  "view (pre @ encode SQLITE_UTF16LE cs) (length pre + 2 * length cs) 2 (length pre) cs
   \<and> utf16Scan (pre @ encode SQLITE_UTF16LE cs) (length pre + 1) (length pre + 2 * length cs)
       = Some (length pre + 2 * length cs + 1)"
proof (induction cs arbitrary: pre)
  case (Cons c cs)
  have "rd (pre @ c # 0 # encode SQLITE_UTF16LE cs) (Suc (length pre)) = Some 0"
    by (simp add: rd_def nth_append)
  with Cons [of "pre @ [c, 0]"] show ?case
    by (simp add: rd_append encode_def utf16Scan.simps [of _ "Suc (length pre)"])
qed (simp add: encode_def utf16Scan.simps)

lemma view_utf16be:
  "view (pre @ encode SQLITE_UTF16BE cs) (length pre + 2 * length cs) 2 (length pre + 1) cs
   \<and> utf16Scan (pre @ encode SQLITE_UTF16BE cs) (length pre) (length pre + 2 * length cs)
       = Some (length pre + 2 * length cs)"
proof (induction cs arbitrary: pre)
  case (Cons c cs)
  have "rd (pre @ 0 # c # encode SQLITE_UTF16BE cs) (Suc (length pre)) = Some c"
    by (simp add: rd_def nth_append)
  with Cons [of "pre @ [0, c]"] show ?case
    by (simp add: rd_append encode_def utf16Scan.simps [of _ "length pre"])
qed (simp add: encode_def utf16Scan.simps)

section \<open>The loops\<close>

lemma skipWhile_view:
  "view z e (Suc incr) p cs \<Longrightarrow>
   \<exists>q. skipWhile P z p e incr = Some q \<and> q = p + Suc incr * length (takeWhile P cs)
     \<and> view z e (Suc incr) q (dropWhile P cs)"
proof (induction cs arbitrary: p)
  case Nil
  then show ?case by (simp add: skipWhile.simps [of P z p])
next
  case (Cons c cs)
  then show ?case using Cons.IH [of "p + Suc incr"]
    by (auto simp: skipWhile.simps [of P z p] add_ac)
qed

lemma isdig_range: "isdig d \<longleftrightarrow> 48 \<le> sint d \<and> sint d \<le> 57"
  using isdig_sint [of d] by auto

lemma sint_u8_0: "sint (x :: u8) = 0 \<longleftrightarrow> x = 0"
proof -
  have "unat x < 256" by simp
  then have "sint x = 0 \<longleftrightarrow> unat x = 0" unfolding sint_u8 by (simp only: split: if_splits) linarith
  then show ?thesis by (simp add: unat_eq_zero)
qed

lemma digit_step:
  assumes "isdig d"
  shows "(word_of_nat v :: u64) * 10 + word_of_int (sint d) - 48 = word_of_nat (v * 10 + digVal d)"
proof -
  have s: "sint d = int (digVal d) + 48" using isdig_val [OF assms] by simp
  show ?thesis unfolding s by simp
qed

lemma atoi64Loop_view:
  assumes "view z e (Suc incr) (p + i) (ds @ rest)" and "list_all isdig ds" and "rest = [] \<or> \<not> isdig (hd rest)"
  shows "\<exists>c'. atoi64Loop z p e incr (word_of_nat v) i c
              = Some (word_of_nat (decVal v ds), i + Suc incr * length ds, c')
            \<and> (\<forall>x r. rest = x # r \<longrightarrow> c' = sint x)"
  using assms
proof (induction ds arbitrary: i v c)
  case Nil
  show ?case
  proof (cases rest)
    case Nil
    then show ?thesis using Nil.prems by (simp add: atoi64Loop.simps [of z p])
  next
    case (Cons x r)
    then have "p + i < e" "rd z (p + i) = Some x" "\<not> (48 \<le> sint x \<and> sint x \<le> 57)"
      using Nil.prems isdig_range [of x] by auto
    then show ?thesis using Cons
      by (auto simp: atoi64Loop.simps [of z p e incr "word_of_nat v" i c] Let_def)
  qed
next
  case (Cons d ds)
  have "p + i < e" "rd z (p + i) = Some d" "48 \<le> sint d \<and> sint d \<le> 57"
    using Cons.prems isdig_range [of d] by auto
  moreover have "view z e (Suc incr) (p + (i + Suc incr)) (ds @ rest)"
    using Cons.prems(1) by (simp add: add.assoc)
  moreover have "isdig d" using Cons.prems by simp
  ultimately have "atoi64Loop z p e incr (word_of_nat v) i c
      = atoi64Loop z p e incr (word_of_nat (v * 10 + digVal d)) (i + Suc incr) (sint d)"
    unfolding atoi64Loop.simps [of z p e incr "word_of_nat v"] Let_def
    by (simp only: digit_step if_True option.case simp_thms)
  moreover have "i + Suc incr * length (d # ds) = i + Suc incr + Suc incr * length ds" by simp
  ultimately show ?case
    using Cons.IH [of "i + Suc incr" "v * 10 + digVal d" "sint d"] Cons.prems
    by (simp only: decVal.simps) (simp add: add.assoc)
qed

lemma digVal_le: "isdig d \<Longrightarrow> digVal d \<le> 9"
  by (auto simp: isdig_def digVal_def)

lemma compareLoop_view:
  assumes "view z e S (p + i * S) cs" and "length ps \<le> length cs"
    and "list_all isdig cs" and "list_all isdig ps"
  shows "\<exists>c. compareLoop z p S i ps = Some c
           \<and> (c < 0 \<longleftrightarrow> decVal 0 (take (length ps) cs) < decVal 0 ps)
           \<and> (c = 0 \<longleftrightarrow> decVal 0 (take (length ps) cs) = decVal 0 ps)"
  using assms
proof (induction ps arbitrary: i cs)
  case (Cons d ds)
  from Cons.prems(2) obtain x xs where cs: "cs = x # xs" by (cases cs) auto
  let ?n = "length ds"
  have dx: "isdig x" "isdig d" using Cons.prems cs by auto
  have sx: "sint x = int (digVal x) + 48" "sint d = int (digVal d) + 48"
    using isdig_val [OF dx(1)] isdig_val [OF dx(2)] by auto
  have r: "rd z (p + i * S) = Some x" using Cons.prems(1) cs by simp
  have lx: "decVal 0 (take ?n xs) < 10 ^ ?n"
    using decVal_less [of "take ?n xs"] Cons.prems cs by (auto simp: list_all_iff dest: in_set_takeD)
  have ld: "decVal 0 ds < 10 ^ ?n" using decVal_less [of ds] Cons.prems by simp
  have tx: "decVal 0 (take (length (d # ds)) cs) = digVal x * 10 ^ ?n + decVal 0 (take ?n xs)"
    using decVal_acc [of "digVal x" "take ?n xs"] cs Cons.prems(2) by simp
  have td: "decVal 0 (d # ds) = digVal d * 10 ^ ?n + decVal 0 ds"
    using decVal_acc [of "digVal d" ds] by simp
  have sep: "a * 10 ^ ?n + y < b * 10 ^ ?n + w" if "a < b" "y < 10 ^ ?n" for a b y w :: nat
  proof -
    have "Suc a * 10 ^ ?n \<le> b * 10 ^ ?n" using that(1) by (intro mult_right_mono) auto
    then show ?thesis using that(2) by simp
  qed
  consider "digVal x = digVal d" | "digVal x < digVal d" | "digVal d < digVal x" by linarith
  then show ?case
  proof cases
    case 1
    have "view z e S (p + Suc i * S) xs" using Cons.prems(1) cs by (simp add: algebra_simps)
    then have "\<exists>c. compareLoop z p S (Suc i) ds = Some c
        \<and> (c < 0 \<longleftrightarrow> decVal 0 (take ?n xs) < decVal 0 ds) \<and> (c = 0 \<longleftrightarrow> decVal 0 (take ?n xs) = decVal 0 ds)"
      using Cons.IH Cons.prems cs by auto
    then show ?thesis unfolding tx td using 1 r sx by auto
  next
    case 2
    show ?thesis unfolding tx td using 2 r sx sep [OF 2 lx, of "decVal 0 ds"] by auto
  next
    case 3
    show ?thesis unfolding tx td using 3 r sx sep [OF 3 ld, of "decVal 0 (take ?n xs)"] by auto
  qed
qed simp

lemma pow63_val: "decVal 0 pow63 = 922337203685477580" "length pow63 = 18" "list_all isdig pow63"
  by (simp_all add: pow63_def digVal_def isdig_def)

lemma compare2pow63_view:
  assumes "view z e S p cs" and "length cs = 19" and "list_all isdig cs"
  shows "\<exists>c. compare2pow63 z p S = Some c \<and> (c < 0 \<longleftrightarrow> decVal 0 cs < 2 ^ 63) \<and> (c = 0 \<longleftrightarrow> decVal 0 cs = 2 ^ 63)"
proof -
  obtain xs x where cs: "cs = xs @ [x]" "length xs = 18"
    using assms(2) by (cases cs rule: rev_cases) auto
  have v: "decVal 0 cs = decVal 0 xs * 10 + digVal x"
  proof -
    have "decVal v (ys @ [x]) = decVal v ys * 10 + digVal x" for v ys by (induction ys arbitrary: v) auto
    then show ?thesis using cs by simp
  qed
  have rx: "rd z (p + 18 * S) = Some x"
  proof -
    have "view z e S p (ys @ [x]) \<Longrightarrow> rd z (p + length ys * S) = Some x" for ys
      by (induction ys arbitrary: p) (auto, metis add.assoc)
    from this [of xs] show ?thesis using assms(1) cs by simp
  qed
  have dx: "isdig x" using assms(3) cs by simp
  from compareLoop_view [of z e S p 0 cs pow63] assms pow63_val cs obtain c where
    c: "compareLoop z p S 0 pow63 = Some c" "c < 0 \<longleftrightarrow> decVal 0 xs < 922337203685477580"
      "c = 0 \<longleftrightarrow> decVal 0 xs = 922337203685477580"
    by auto
  show ?thesis
  proof (cases "c = 0")
    case True
    then show ?thesis
      using c v rx isdig_val [OF dx] by (auto simp: compare2pow63_def)
  next
    case False
    then show ?thesis using c v digVal_le [OF dx] by (auto simp: compare2pow63_def)
  qed
qed

section \<open>The conversion\<close>

lemma atoi64Setup_encode:
  "\<exists>incr e p. atoi64Setup (encode enc cs) (length (encode enc cs)) enc = Some (incr, False, e, p)
     \<and> view (encode enc cs) e (Suc incr) p cs"
proof (cases enc)
  case SQLITE_UTF8
  then show ?thesis using view_utf8 [of "[]" cs] by (simp add: atoi64Setup_def encode_def)
next
  case SQLITE_UTF16LE
  have "view (encode enc cs) (2 * length cs) (Suc 1) 0 cs" "utf16Scan (encode enc cs) 1 (2 * length cs) = Some (2 * length cs + 1)"
    using view_utf16le [of "[]" cs] SQLITE_UTF16LE by (simp_all add: numeral_2_eq_2)
  then show ?thesis using SQLITE_UTF16LE by (auto simp: atoi64Setup_def length_encode encNum_def)
next
  case SQLITE_UTF16BE
  have "view (encode enc cs) (2 * length cs) (Suc 1) 1 cs" "utf16Scan (encode enc cs) 0 (2 * length cs) = Some (2 * length cs)"
    using view_utf16be [of "[]" cs] SQLITE_UTF16BE by (simp_all add: numeral_2_eq_2)
  then show ?thesis using SQLITE_UTF16BE by (auto simp: atoi64Setup_def length_encode encNum_def)
qed

lemma view_end: "view z e S q (xs @ ys) \<Longrightarrow> q + S * length xs < e \<longleftrightarrow> ys \<noteq> []"
proof (induction xs arbitrary: q)
  case Nil
  then show ?case by (cases ys) auto
next
  case (Cons x xs)
  then show ?case using Cons.IH [of "q + S"] by (simp add: add.assoc)
qed

text \<open>Spaces, a sign and digits: where the code finds the first digit that is not a zero.\<close>

lemma takeWhile_prefix:
  "list_all P xs \<Longrightarrow> (ys = [] \<or> \<not> P (hd ys)) \<Longrightarrow> takeWhile P (xs @ ys) = xs \<and> dropWhile P (xs @ ys) = ys"
  by (induction xs) (auto, (cases ys; auto)+)

lemma isdig_not_space: "isdig d \<Longrightarrow> \<not> sqlite3Isspace d"
  by (auto simp: isdig_def ctype_class)

lemma isdig_not_sign: "isdig d \<Longrightarrow> d \<noteq> 0x2d \<and> d \<noteq> 0x2b"
  by (auto simp: isdig_def)

definition atoi64Text :: "bytes \<Rightarrow> bytes \<Rightarrow> bool \<Rightarrow> bytes \<Rightarrow> bool" where
  "atoi64Text sp sg neg ds \<longleftrightarrow> list_all sqlite3Isspace sp \<and> list_all isdig ds \<and> ds \<noteq> []
     \<and> (sg = [0x2d] \<and> neg \<or> sg = [0x2b] \<and> \<not> neg \<or> sg = [] \<and> \<not> neg)"

lemma sqlite3Atoi64_digits:
  assumes t: "atoi64Text sp sg neg ds" and rest: "rest = [] \<or> \<not> isdig (hd rest)"
    and es: "es = dropWhile (\<lambda>c. c = 0x30) ds"
  shows "\<exists>z e S q.
    sqlite3Atoi64 (encode enc (sp @ sg @ ds @ rest)) (length (encode enc (sp @ sg @ ds @ rest))) enc =
      (let num = atoi64Num neg (word_of_nat (decVal 0 ds))
       in if rest \<noteq> [] \<and> hd rest \<noteq> 0 \<or> length es > 19 then Some (1, num)
          else if length es < 19 then Some (0, num)
          else do { c \<leftarrow> compare2pow63 z q S;
                    Some (if c < 0 then 0 else if c > 0 then 1 else if neg then 0 else 2, num) })
    \<and> view z e S q (es @ rest)"
proof -
  let ?cs = "sp @ sg @ ds @ rest" and ?es = "dropWhile (\<lambda>c :: u8. c = 0x30) ds"
  let ?z = "encode enc ?cs"
  obtain incr e p where su: "atoi64Setup ?z (length ?z) enc = Some (incr, False, e, p)"
    and v0: "view ?z e (Suc incr) p ?cs"
    using atoi64Setup_encode by blast
  have ds: "list_all isdig ds" "ds \<noteq> []" "list_all sqlite3Isspace sp" using t by (auto simp: atoi64Text_def)
  obtain d ds' where dd: "ds = d # ds'" "isdig d" using ds by (cases ds) auto
  have "sg @ ds @ rest = [] \<or> \<not> sqlite3Isspace (hd (sg @ ds @ rest))"
    using t dd isdig_not_space [of d] by (auto simp: atoi64Text_def ctype_class)
  then have tw: "takeWhile sqlite3Isspace ?cs = sp" "dropWhile sqlite3Isspace ?cs = sg @ ds @ rest"
    using takeWhile_prefix [OF ds(3)] by auto
  from skipWhile_view [OF v0, of sqlite3Isspace] obtain p1 where
    p1: "skipWhile sqlite3Isspace ?z p e incr = Some p1" "view ?z e (Suc incr) p1 (sg @ ds @ rest)"
    by (auto simp only: tw)
  obtain p2 where p2: "atoi64Sign ?z p1 e incr = Some (neg, p2)" "view ?z e (Suc incr) p2 (ds @ rest)"
    using p1(2) t dd isdig_not_sign [of d] by (auto simp: atoi64Text_def atoi64Sign_def)
  have r48: "rest = [] \<or> hd rest \<noteq> 0x30" using rest by (auto simp: isdig_def)
  have dz: "dropWhile (\<lambda>c. c = 0x30) (ds @ rest) = ?es @ rest"
    "takeWhile (\<lambda>c. c = 0x30) (ds @ rest) = takeWhile (\<lambda>c. c = 0x30) ds"
    using r48 by (cases rest; induction ds; auto)+
  from skipWhile_view [OF p2(2), of "\<lambda>c. c = 0x30"] obtain q where
    q: "skipWhile (\<lambda>c. c = 0x30) ?z p2 e incr = Some q"
      "q = p2 + Suc incr * length (takeWhile (\<lambda>c. c = 0x30) ds)"
      "view ?z e (Suc incr) q (?es @ rest)"
    by (auto simp only: dz)
  have des: "list_all isdig ?es" using ds(1) by (auto simp: list_all_iff dest: set_dropWhileD)
  have "view ?z e (Suc incr) (q + 0) (?es @ rest)" using q(3) by simp
  from atoi64Loop_view [OF this des rest, of 0 0] obtain c where
    c: "atoi64Loop ?z q e incr 0 0 0 = Some (word_of_nat (decVal 0 ds), Suc incr * length ?es, c)"
       "\<forall>x r. rest = x # r \<longrightarrow> c = sint x"
    by (auto simp: decVal_dropWhile)
  have pe: "q + Suc incr * length ?es < e \<longleftrightarrow> rest \<noteq> []"
    by (rule view_end [OF q(3)])
  have c0: "rest \<noteq> [] \<Longrightarrow> c \<noteq> 0 \<longleftrightarrow> hd rest \<noteq> 0" using c(2) by (cases rest) (auto simp: sint_u8_0)
  have stay: "length ?es = 0 \<and> p2 = q \<longleftrightarrow> False"
  proof (intro iffI; elim conjE FalseE)
    assume "length ?es = 0" and "p2 = q"
    then have tk: "takeWhile (\<lambda>c. c = 0x30) ds = ds"
      using takeWhile_dropWhile_id [of "\<lambda>c. c = 0x30" ds] by simp
    have "q = p2 + Suc incr * length ds" using q(2) unfolding tk .
    then show False using \<open>p2 = q\<close> ds(2) by simp
  qed
  have len: "Suc incr * length ?es > 19 * Suc incr \<longleftrightarrow> length ?es > 19"
    "Suc incr * length ?es < 19 * Suc incr \<longleftrightarrow> length ?es < 19"
    by (simp_all only: mult.commute [of "Suc incr"] mult_less_cancel2 zero_less_Suc simp_thms)
  have fin: "atoi64Finish ?z incr False e neg p2 q (word_of_nat (decVal 0 ds), Suc incr * length ?es, c) =
      (let num = atoi64Num neg (word_of_nat (decVal 0 ds))
       in if rest \<noteq> [] \<and> hd rest \<noteq> 0 \<or> length ?es > 19 then Some (1, num)
          else if length ?es < 19 then Some (0, num)
          else do { c \<leftarrow> compare2pow63 ?z q (Suc incr);
                    Some (if c < 0 then 0 else if c > 0 then 1 else if neg then 0 else 2, num) })"
    using c0 stay unfolding atoi64Finish_def prod.case pe len Let_def
    by (cases "rest = []") auto
  have "sqlite3Atoi64 ?z (length ?z) enc
      = atoi64Finish ?z incr False e neg p2 q (word_of_nat (decVal 0 ds), Suc incr * length ?es, c)"
    using su p1(1) p2(1) q(1) c(1) by (simp add: sqlite3Atoi64_def)
  then show ?thesis
    unfolding es fin using q(3)
    by (intro exI [of _ ?z] exI [of _ e] exI [of _ "Suc incr"] exI [of _ q] conjI)
qed

lemma uint_small: "n < 2 ^ 64 \<Longrightarrow> uint (word_of_nat n :: u64) = int n"
  by (simp add: unsigned_of_nat take_bit_eq_mod)

lemma sqlite3Atoi64_value:
  assumes t: "atoi64Text sp sg neg ds" and v: "v = (if neg then - int (decVal 0 ds) else int (decVal 0 ds))"
    and z: "z = encode enc (sp @ sg @ ds)"
  shows "\<exists>rc num. sqlite3Atoi64 z (length z) enc = Some (rc, num)
           \<and> (if in_int64 v then rc = 0 \<and> num = v else if v = 2 ^ 63 then rc = 2 \<and> num = LARGEST_INT64 else rc = 1)"
proof -
  let ?es = "dropWhile (\<lambda>c :: u8. c = 0x30) ds" and ?num = "atoi64Num neg (word_of_nat (decVal 0 ds))"
  from sqlite3Atoi64_digits [OF t, of "[]" ?es enc] obtain y e S q where
    r: "sqlite3Atoi64 z (length z) enc =
         (if length ?es > 19 then Some (1, ?num)
          else if length ?es < 19 then Some (0, ?num)
          else do { c \<leftarrow> compare2pow63 y q S;
                    Some (if c < 0 then 0 else if c > 0 then 1 else if neg then 0 else 2, ?num) })"
    and vw: "view y e S q ?es"
    unfolding z by (auto simp: Let_def)
  have des: "list_all isdig ?es" using t by (auto simp: atoi64Text_def list_all_iff dest: set_dropWhileD)
  have dv: "decVal 0 ?es = decVal 0 ds" by (rule decVal_dropWhile)
  have less: "decVal 0 ds < 10 ^ length ?es" using decVal_less [OF des] dv by simp
  have num: "?num = (if decVal 0 ds \<ge> 2 ^ 63 then (if neg then SMALLEST_INT64 else LARGEST_INT64) else v)"
    if "length ?es \<le> 19"
  proof -
    have "(10 :: nat) ^ length ?es \<le> 10 ^ 19" using that by (intro power_increasing) auto
    then have "decVal 0 ds < 2 ^ 64" using less by simp
    from uint_small [OF this] show ?thesis unfolding atoi64Num_def v by (auto simp: LARGEST_INT64_def)
  qed
  consider "length ?es < 19" | "length ?es = 19" | "19 < length ?es" by linarith
  then show ?thesis
  proof cases
    case 1
    have "(10 :: nat) ^ length ?es \<le> 10 ^ 18" using 1 by (intro power_increasing) auto
    then have "decVal 0 ds < 2 ^ 63" using less by simp
    then show ?thesis using 1 r num v by (auto simp: int64_defs)
  next
    case 2
    from compare2pow63_view [OF vw 2 des] dv obtain c where
      "compare2pow63 y q S = Some c" "c < 0 \<longleftrightarrow> decVal 0 ds < 2 ^ 63" "c = 0 \<longleftrightarrow> decVal 0 ds = 2 ^ 63" by auto
    then show ?thesis using 2 r num v by (auto simp: int64_defs)
  next
    case 3
    then obtain d e' where de: "?es = d # e'" by (cases ?es) auto
    then have "d \<noteq> 48" using hd_dropWhile [of "\<lambda>c. c = 48" ds] by force
    from decVal_large [OF des de this] have "10 ^ (length ?es - 1) \<le> decVal 0 ds" using dv by simp
    moreover have "(10 :: nat) ^ 19 \<le> 10 ^ (length ?es - 1)" using 3 by (intro power_increasing) auto
    ultimately have "10 ^ 19 \<le> decVal 0 ds" by linarith
    then show ?thesis using 3 r v by (auto simp: int64_defs)
  qed
qed

section \<open>Properties\<close>

text \<open>C40. In each of the three encodings, text made of spaces, an optional sign and digits is
  converted exactly: code 0 and the number when it fits in 64 bits, code 2 for \<open>2 ^ 63\<close>, and
  code 1 for every other number, however many digits it has.\<close>

theorem sqlite3Atoi64_correct:
  assumes "atoi64Text sp sg neg ds" and "v = (if neg then - int (decVal 0 ds) else int (decVal 0 ds))"
    and "z = encode enc (sp @ sg @ ds)"
  shows "\<exists>rc num. sqlite3Atoi64 z (length z) enc = Some (rc, num)
           \<and> (if in_int64 v then rc = 0 \<and> num = v else if v = 2 ^ 63 then rc = 2 \<and> num = LARGEST_INT64 else rc = 1)"
  by (rule sqlite3Atoi64_value [OF assms])

theorem sqlite3Atoi64_correct_witness:
  "\<exists>rc num. sqlite3Atoi64 [0x20, 0, 0x2d, 0, 0x34, 0, 0x32, 0]
     (length [0x20, 0, 0x2d, 0, 0x34, 0, 0x32, 0 :: u8]) SQLITE_UTF16LE = Some (rc, num) \<and> rc = 0 \<and> num = -42"
  using sqlite3Atoi64_correct [of "[0x20]" "[0x2d]" True "[0x34, 0x32]" "-42"
      "[0x20, 0, 0x2d, 0, 0x34, 0, 0x32, 0]" SQLITE_UTF16LE]
  by (simp add: atoi64Text_def isdig_def ctype_class digVal_def encode_def int64_defs)

text \<open>Text after the digits is reported: when the digits are followed by a byte that is neither a
  digit nor zero, the code is 1.\<close>

theorem sqlite3Atoi64_trailing_text:
  assumes "atoi64Text sp sg neg ds" and "\<not> isdig x" and "x \<noteq> 0" and "z = encode enc (sp @ sg @ ds @ x # r)"
  shows "\<exists>num. sqlite3Atoi64 z (length z) enc = Some (1, num)"
  using sqlite3Atoi64_digits [OF assms(1), of "x # r" _ enc] assms(2-4) by (auto simp: Let_def)

theorem sqlite3Atoi64_trailing_text_witness:
  "\<exists>num. sqlite3Atoi64 [0x31, 0x20] (length [0x31, 0x20 :: u8]) SQLITE_UTF8 = Some (1, num)"
  using sqlite3Atoi64_trailing_text [of "[]" "[]" False "[0x31]" "0x20" "[0x31, 0x20]" SQLITE_UTF8 "[]"]
  by (simp add: atoi64Text_def isdig_def encode_def)

end
