(* ===== verification/Hash.thy ===== *)
theory Hash
  imports Strings
begin

text \<open>
  \<^verbatim>\<open>hash.c\<close>: the hash table from names to objects that the schema, function and collation tables
  use. All elements are on one doubly linked list; a bucket points to the first of its elements,
  which are consecutive on that list, and counts them. Small tables have no buckets. The theory
  shows that a table is a finite map from case-folded names.

  The linked list is the list of its elements in order, and an element pointer is the number the
  element got when it was allocated. A key is the list of its \<^verbatim>\<open>nKey\<close> bytes. The size that the
  allocator really provides for a request is a parameter \<open>msize\<close> (\<^verbatim>\<open>sqlite3MallocSize\<close> asks the
  configured memory allocator for it).
\<close>

section \<open>The table and its operations\<close>

record 'd hashElem =
  addr :: nat
  pKey :: bytes
  data :: 'd

record bucket =
  bcount :: nat
  chain :: "nat option"

record 'd hash =
  htsize :: nat
  hcount :: nat
  elems :: "'d hashElem list"
  ht :: "bucket list option"
  nextAddr :: nat

definition sqlite3HashInit :: "nat \<Rightarrow> 'd hash" where
  "sqlite3HashInit n = \<lparr> htsize = 0, hcount = 0, elems = [], ht = None, nextAddr = n \<rparr>"

definition sqlite3HashClear :: "'d hash \<Rightarrow> 'd hash" where
  "sqlite3HashClear pH = pH \<lparr> elems := [], ht := None, htsize := 0, hcount := 0 \<rparr>"

fun strHashLoop :: "u32 \<Rightarrow> bytes \<Rightarrow> u32" where
  "strHashLoop h [] = h"
| "strHashLoop h (c # z) = strHashLoop (push_bit 3 h XOR h XOR ucast (UpperToLower c)) z"

definition strHash :: "bytes \<Rightarrow> nat" where
  "strHash z = unat (strHashLoop 0 z)"

text \<open>Insertion before the element with a given address.\<close>

fun insertBefore :: "nat \<Rightarrow> 'd hashElem \<Rightarrow> 'd hashElem list \<Rightarrow> 'd hashElem list" where
  "insertBefore a x [] = [x]"
| "insertBefore a x (y # ys) = (if addr y = a then x # y # ys else y # insertBefore a x ys)"

definition insertElement :: "'d hash \<Rightarrow> nat option \<Rightarrow> 'd hashElem \<Rightarrow> 'd hash" where
  "insertElement pH pEntry new =
     (case (ht pH, pEntry) of
        (Some t, Some h) \<Rightarrow>
          (let b = t ! h;
               pHead = (if bcount b \<noteq> 0 then chain b else None);
               t = t[h := \<lparr> bcount = bcount b + 1, chain = Some (addr new) \<rparr>]
           in pH \<lparr> ht := Some t,
                   elems := (case pHead of None \<Rightarrow> new # elems pH
                             | Some a \<Rightarrow> insertBefore a new (elems pH)) \<rparr>)
      | _ \<Rightarrow> pH \<lparr> elems := new # elems pH \<rparr>)"

definition sizeof_ht :: nat where
  "sizeof_ht = 16"

definition SQLITE_MALLOC_SOFT_LIMIT :: nat where
  "SQLITE_MALLOC_SOFT_LIMIT = 1024"

text \<open>The boolean says whether the table was resized.\<close>

definition rehash :: "(nat \<Rightarrow> nat) \<Rightarrow> 'd hash \<Rightarrow> nat \<Rightarrow> allocs \<Rightarrow> bool \<times> 'd hash \<times> allocs" where
  "rehash msize pH new_size al =
     (let new_size = (if new_size * sizeof_ht > SQLITE_MALLOC_SOFT_LIMIT
                      then SQLITE_MALLOC_SOFT_LIMIT div sizeof_ht else new_size)
      in if new_size = htsize pH then (False, pH, al)
         else case sqlite3_alloc al of (ok, al) \<Rightarrow>
           if \<not> ok then (False, pH, al)
           else
             let n = msize (new_size * sizeof_ht) div sizeof_ht;
                 pH' = pH \<lparr> ht := Some (replicate n \<lparr> bcount = 0, chain = None \<rparr>), htsize := n, elems := [] \<rparr>
             in (True, foldl (\<lambda>t e. insertElement t (Some (strHash (pKey e) mod n)) e) pH' (elems pH), al))"

definition keyMatch :: "bytes \<Rightarrow> 'd hashElem \<Rightarrow> bool" where
  "keyMatch key e \<longleftrightarrow> length (pKey e) = length key \<and> sqlite3_strnicmp (pKey e) key (length key) = Some 0"

definition findElementGivenHash :: "'d hash \<Rightarrow> bytes \<Rightarrow> nat \<Rightarrow> 'd hashElem option" where
  "findElementGivenHash pH key h =
     (let start = (case ht pH of
                     Some t \<Rightarrow> (case chain (t ! h) of None \<Rightarrow> []
                                 | Some a \<Rightarrow> take (bcount (t ! h)) (dropWhile (\<lambda>e. addr e \<noteq> a) (elems pH)))
                   | None \<Rightarrow> take (hcount pH) (elems pH))
      in find (keyMatch key) start)"

definition nextOf :: "nat \<Rightarrow> 'd hashElem list \<Rightarrow> nat option" where
  "nextOf a es = (case dropWhile (\<lambda>e. addr e \<noteq> a) es of _ # e # _ \<Rightarrow> Some (addr e) | _ \<Rightarrow> None)"

definition removeElementGivenHash :: "'d hash \<Rightarrow> 'd hashElem \<Rightarrow> nat \<Rightarrow> 'd hash" where
  "removeElementGivenHash pH elem h =
     (let t = (case ht pH of
                 None \<Rightarrow> None
               | Some t \<Rightarrow>
                   Some (t[h := \<lparr> bcount = bcount (t ! h) - 1,
                                  chain = (if chain (t ! h) = Some (addr elem)
                                           then nextOf (addr elem) (elems pH) else chain (t ! h)) \<rparr>]));
          pH = pH \<lparr> elems := filter (\<lambda>e. addr e \<noteq> addr elem) (elems pH), ht := t, hcount := hcount pH - 1 \<rparr>
      in if hcount pH = 0 then sqlite3HashClear pH else pH)"

definition sqlite3HashFind :: "'d hash \<Rightarrow> bytes \<Rightarrow> 'd option" where
  "sqlite3HashFind pH key =
     (let h = (if ht pH \<noteq> None then strHash key mod htsize pH else 0)
      in map_option data (findElementGivenHash pH key h))"

text \<open>The result is the returned pointer, the table and the remaining allocation outcomes.\<close>

definition sqlite3HashInsert ::
    "(nat \<Rightarrow> nat) \<Rightarrow> 'd hash \<Rightarrow> bytes \<Rightarrow> 'd option \<Rightarrow> allocs \<Rightarrow> 'd option \<times> 'd hash \<times> allocs" where
  "sqlite3HashInsert msize pH key d al =
     (let h = (if htsize pH \<noteq> 0 then strHash key mod htsize pH else 0)
      in case findElementGivenHash pH key h of
           Some elem \<Rightarrow>
             (case d of
                None \<Rightarrow> (Some (data elem), removeElementGivenHash pH elem h, al)
              | Some v \<Rightarrow>
                  (Some (data elem),
                   pH \<lparr> elems := map (\<lambda>e. if addr e = addr elem then e \<lparr> data := v, pKey := key \<rparr> else e) (elems pH) \<rparr>,
                   al))
         | None \<Rightarrow>
             (case d of
                None \<Rightarrow> (None, pH, al)
              | Some v \<Rightarrow>
                  (case sqlite3_alloc al of (ok, al) \<Rightarrow>
                     if \<not> ok then (d, pH, al)
                     else
                       let new = \<lparr> addr = nextAddr pH, pKey = key, data = v \<rparr>;
                           pH = pH \<lparr> nextAddr := nextAddr pH + 1, hcount := hcount pH + 1 \<rparr>;
                           (h, pH, al) =
                             (if hcount pH \<ge> 10 \<and> hcount pH > 2 * htsize pH
                              then (case rehash msize pH (hcount pH * 2) al of (done, pH, al) \<Rightarrow>
                                      (if done then strHash key mod htsize pH else h, pH, al))
                              else (h, pH, al))
                       in (None, insertElement pH (if ht pH \<noteq> None then Some h else None) new, al))))"

section \<open>Consecutive elements\<close>

text \<open>\<open>contig P xs\<close>: the elements with \<open>P\<close> are consecutive in \<open>xs\<close>; \<open>contig2\<close> starts inside the run.\<close>

fun contig2 :: "('a \<Rightarrow> bool) \<Rightarrow> 'a list \<Rightarrow> bool" where
  "contig2 P [] = True"
| "contig2 P (x # xs) = (if P x then contig2 P xs else (\<forall>y\<in>set xs. \<not> P y))"

fun contig :: "('a \<Rightarrow> bool) \<Rightarrow> 'a list \<Rightarrow> bool" where
  "contig P [] = True"
| "contig P (x # xs) = (if P x then contig2 P xs else contig P xs)"

lemma contig_none: "\<forall>y\<in>set xs. \<not> P y \<Longrightarrow> contig P xs \<and> contig2 P xs"
  by (induction xs) auto

lemma contig2_contig: "contig2 P xs \<Longrightarrow> contig P xs"
  by (cases xs) (auto simp: contig_none)

lemma contig2_split: "contig2 P xs \<Longrightarrow> \<exists>b c. xs = b @ c \<and> (\<forall>x\<in>set b. P x) \<and> (\<forall>x\<in>set c. \<not> P x)"
proof (induction xs)
  case (Cons x xs)
  show ?case
  proof (cases "P x")
    case True
    then obtain b c where "xs = b @ c" "\<forall>x\<in>set b. P x" "\<forall>x\<in>set c. \<not> P x" using Cons by auto
    then show ?thesis using True by (intro exI [of _ "x # b"] exI [of _ c]) auto
  next
    case False
    then show ?thesis using Cons.prems by (intro exI [of _ "[]"] exI [of _ "x # xs"]) auto
  qed
qed simp

lemma contig_split:
  "contig P xs \<Longrightarrow> \<exists>a b c. xs = a @ b @ c \<and> (\<forall>x\<in>set a. \<not> P x) \<and> (\<forall>x\<in>set b. P x) \<and> (\<forall>x\<in>set c. \<not> P x)"
proof (induction xs)
  case (Cons x xs)
  show ?case
  proof (cases "P x")
    case True
    then obtain b c where "xs = b @ c" "\<forall>x\<in>set b. P x" "\<forall>x\<in>set c. \<not> P x"
      using Cons.prems contig2_split [of P xs] by auto
    then show ?thesis using True by (intro exI [of _ "[]"] exI [of _ "x # b"] exI [of _ c]) auto
  next
    case False
    then obtain a b c where "xs = a @ b @ c" "\<forall>x\<in>set a. \<not> P x" "\<forall>x\<in>set b. P x" "\<forall>x\<in>set c. \<not> P x"
      using Cons by auto
    then show ?thesis using False by (intro exI [of _ "x # a"] exI [of _ b] exI [of _ c]) auto
  qed
qed simp

lemma contig2_insert: "contig2 P (l @ y # r) \<Longrightarrow> P x = P y \<Longrightarrow> contig2 P (l @ x # y # r)"
  by (induction l) (auto split: if_splits)

lemma contig_insert: "contig P (l @ y # r) \<Longrightarrow> P x = P y \<Longrightarrow> contig P (l @ x # y # r)"
  by (induction l) (auto simp: contig2_insert split: if_splits)

lemma contig2_delete: "contig2 P (l @ x # r) \<Longrightarrow> contig2 P (l @ r)"
  by (induction l) (auto simp: contig_none split: if_splits)

lemma contig_delete: "contig P (l @ x # r) \<Longrightarrow> contig P (l @ r)"
  by (induction l) (auto simp: contig2_delete contig2_contig split: if_splits)

lemma distinct_before: "distinct (map addr (l @ y # r)) \<Longrightarrow> \<forall>e\<in>set l. addr e \<noteq> addr y"
  by (induction l) (auto simp: image_iff)

lemma contig_run:
  assumes "contig P es" and "filter P es \<noteq> []" and "distinct (map addr es)"
  shows "take (length (filter P es)) (dropWhile (\<lambda>e. addr e \<noteq> addr (hd (filter P es))) es) = filter P es"
proof -
  from contig_split [OF assms(1)] obtain a b c where
    s: "es = a @ b @ c" "\<forall>x\<in>set a. \<not> P x" "\<forall>x\<in>set b. P x" "\<forall>x\<in>set c. \<not> P x" by blast
  have f: "filter P es = b" using s by (simp add: filter_empty_conv [THEN iffD2])
  then obtain y b' where y: "b = y # b'" using assms(2) by (cases b) auto
  have "\<forall>x\<in>set a. addr x \<noteq> addr y" using assms(3) s(1) y distinct_before [of a y "b' @ c"] by simp
  then have "dropWhile (\<lambda>e. addr e \<noteq> addr y) es = b @ c"
    using s(1) y by (simp add: dropWhile_append2)
  then show ?thesis using f y by simp
qed

section \<open>The invariant\<close>

definition inBucket :: "nat \<Rightarrow> nat \<Rightarrow> 'd hashElem \<Rightarrow> bool" where
  "inBucket n h e \<longleftrightarrow> strHash (pKey e) mod n = h"

definition buckets_ok :: "nat \<Rightarrow> bucket list \<Rightarrow> 'd hashElem list \<Rightarrow> bool" where
  "buckets_ok n t es \<longleftrightarrow> 0 < n \<and> length t = n
     \<and> (\<forall>h<n. contig (inBucket n h) es \<and> bcount (t ! h) = length (filter (inBucket n h) es)
          \<and> (0 < bcount (t ! h) \<longrightarrow> chain (t ! h) = Some (addr (hd (filter (inBucket n h) es)))))"

definition elems_ok :: "nat \<Rightarrow> 'd hashElem list \<Rightarrow> bool" where
  "elems_ok a es \<longleftrightarrow> distinct (map addr es) \<and> (\<forall>e\<in>set es. addr e < a \<and> 0 \<notin> set (pKey e))
     \<and> distinct (map (\<lambda>e. lower (pKey e)) es)"

definition table_ok :: "'d hash \<Rightarrow> bool" where
  "table_ok pH \<longleftrightarrow> elems_ok (nextAddr pH) (elems pH)
     \<and> (case ht pH of None \<Rightarrow> htsize pH = 0 | Some t \<Rightarrow> buckets_ok (htsize pH) t (elems pH))"

definition htable_ok :: "'d hash \<Rightarrow> bool" where
  "htable_ok pH \<longleftrightarrow> table_ok pH \<and> hcount pH = length (elems pH)"

definition entries :: "'d hashElem list \<Rightarrow> (bytes \<times> 'd) list" where
  "entries es = map (\<lambda>e. (lower (pKey e), data e)) es"

definition hmap :: "'d hash \<Rightarrow> bytes \<rightharpoonup> 'd" where
  "hmap pH = map_of (entries (elems pH))"

lemma insertBefore_split:
  "\<forall>e\<in>set l. addr e \<noteq> addr y \<Longrightarrow> insertBefore (addr y) x (l @ y # r) = l @ x # y # r"
  by (induction l) auto

text \<open>Where \<^verbatim>\<open>insertElement\<close> puts the new element, and the bucket array it leaves.\<close>

lemma insertElement_buckets:
  assumes ok: "buckets_ok n t es" and d: "distinct (map addr es)"
    and new: "addr x \<notin> addr ` set es" and h: "h = strHash (pKey x) mod n"
    and pH: "ht pH = Some t" "elems pH = es"
  shows "\<exists>l r t'. es = l @ r \<and> insertElement pH (Some h) x = pH \<lparr> ht := Some t', elems := l @ x # r \<rparr>
           \<and> buckets_ok n t' (l @ x # r)"
proof -
  let ?P = "inBucket n h" and ?t = "t[h := \<lparr> bcount = bcount (t ! h) + 1, chain = Some (addr x) \<rparr>]"
  have n: "0 < n" "length t = n" and hn: "h < n" using ok h by (auto simp: buckets_ok_def)
  have px: "inBucket n k x \<longleftrightarrow> k = h" for k using h by (auto simp: inBucket_def)
  have hb: "contig ?P es" "bcount (t ! h) = length (filter ?P es)"
    "0 < bcount (t ! h) \<Longrightarrow> chain (t ! h) = Some (addr (hd (filter ?P es)))"
    using ok hn by (auto simp: buckets_ok_def)
  obtain l r where lr: "es = l @ r" "\<forall>e\<in>set l. \<not> ?P e" "r = [] \<and> filter ?P es = [] \<and> l = [] \<or> filter ?P es = [] \<and> l = [] \<or> (\<exists>y r'. r = y # r' \<and> ?P y)"
  proof (cases "filter ?P es")
    case Nil
    then show thesis using that [of "[]" es] by auto
  next
    case (Cons y ys)
    then obtain l r' where "es = l @ y # r'" "\<forall>e\<in>set l. \<not> ?P e" "?P y"
      by (auto simp: filter_eq_Cons_iff)
    then show thesis using that [of l "y # r'"] by auto
  qed
  have fl: "filter ?P es = filter ?P r" using lr(1,2) by (simp add: filter_empty_conv [THEN iffD2])
  have ins: "insertElement pH (Some h) x = pH \<lparr> ht := Some ?t, elems := l @ x # r \<rparr>"
  proof (cases "filter ?P es = []")
    case True
    then have "l = []" "bcount (t ! h) = 0" using lr fl hb(2) by auto
    then show ?thesis using pH lr(1) by (simp add: insertElement_def Let_def)
  next
    case False
    then obtain y r' where y: "r = y # r'" "?P y" using lr(3) by auto
    then have hd: "hd (filter ?P es) = y" using fl by simp
    have "\<forall>e\<in>set l. addr e \<noteq> addr y" using d lr(1) y(1) distinct_before [of l y r'] by simp
    then have "insertBefore (addr y) x es = l @ x # r" using insertBefore_split lr(1) y(1) by simp
    moreover have "0 < bcount (t ! h)" using False hb(2) by simp
    ultimately show ?thesis using pH hb(3) hd by (simp add: insertElement_def Let_def)
  qed
  have "buckets_ok n ?t (l @ x # r)"
    unfolding buckets_ok_def
  proof (intro conjI allI impI)
    fix k
    assume k: "k < n"
    have ck: "contig (inBucket n k) (l @ r)" using ok k lr(1) by (auto simp: buckets_ok_def)
    show "contig (inBucket n k) (l @ x # r)"
    proof (cases "\<exists>y r'. r = y # r' \<and> ?P y")
      case True
      then obtain y r' where y: "r = y # r'" "?P y" by blast
      then have "inBucket n k x = inBucket n k y" using px [of k] by (auto simp: inBucket_def)
      then show ?thesis using contig_insert [of "inBucket n k" l y r' x] ck y by simp
    next
      case False
      then have "l = []" "filter ?P es = []" using lr(3) by auto
      then show ?thesis using ck px [of k] lr(1) by (auto simp: filter_empty_conv contig_none)
    qed
    have nth: "?t ! k = (if k = h then \<lparr> bcount = bcount (t ! h) + 1, chain = Some (addr x) \<rparr> else t ! k)"
      using hn n by (simp add: nth_list_update)
    have fk: "filter (inBucket n k) (l @ x # r) = (if k = h then x # filter ?P es else filter (inBucket n k) es)"
      using px [of k] lr(1,2) fl by (auto simp: filter_empty_conv [THEN iffD2])
    show "bcount (?t ! k) = length (filter (inBucket n k) (l @ x # r))"
      unfolding nth fk using ok k hb(2) by (auto simp: buckets_ok_def)
    show "0 < bcount (?t ! k) \<Longrightarrow> chain (?t ! k) = Some (addr (hd (filter (inBucket n k) (l @ x # r))))"
      unfolding nth fk using ok k by (auto simp: buckets_ok_def)
  qed (use n in auto)
  then show ?thesis using ins lr(1) by blast
qed

section \<open>Lookup\<close>

lemma strHashLoop_lower: "lower a = lower b \<Longrightarrow> strHashLoop h a = strHashLoop h b"
proof (induction a arbitrary: b h)
  case (Cons c a)
  then obtain d b' where "b = d # b'" "UpperToLower c = UpperToLower d" "lower a = lower b'"
    by (cases b) auto
  then show ?case using Cons.IH by simp
qed (simp add: lower_def)

lemma strHash_lower: "lower a = lower b \<Longrightarrow> strHash a = strHash b"
  using strHashLoop_lower [of a b 0] by (simp add: strHash_def)

lemma cstr_nonzero: "0 \<notin> set z \<Longrightarrow> cstr z = z"
  by (induction z) auto

lemma keyMatch_lower:
  assumes "0 \<notin> set (pKey e)" and "0 \<notin> set key"
  shows "keyMatch key e \<longleftrightarrow> lower (pKey e) = lower key"
proof (cases "length (pKey e) = length key")
  case True
  then obtain r where "sqlite3_strnicmp (pKey e) key (length key) = Some r"
    "r = 0 \<longleftrightarrow> lower (cstr (take (length key) (pKey e))) = lower (cstr (take (length key) key))"
    using sqlite3_strnicmp_take [of "length key" "pKey e" key] by auto
  then show ?thesis using True by (simp add: keyMatch_def cstr_nonzero assms)
next
  case False
  then have "lower (pKey e) \<noteq> lower key" by (metis length_map lower_def)
  then show ?thesis using False by (simp add: keyMatch_def)
qed

lemma find_filter: "(\<And>x. x \<in> set xs \<Longrightarrow> Q x \<Longrightarrow> P x) \<Longrightarrow> find Q (filter P xs) = find Q xs"
  by (induction xs) auto

lemma findElement_eq:
  assumes "table_ok pH" and "ht pH = None \<Longrightarrow> hcount pH = length (elems pH)" and "0 \<notin> set key"
    and "h = (if htsize pH \<noteq> 0 then strHash key mod htsize pH else 0)"
  shows "findElementGivenHash pH key h = find (\<lambda>e. lower (pKey e) = lower key) (elems pH)"
proof -
  have nz: "\<forall>e\<in>set (elems pH). 0 \<notin> set (pKey e)" and d: "distinct (map addr (elems pH))"
    using assms(1) by (auto simp: table_ok_def elems_ok_def)
  have m: "find (keyMatch key) (elems pH) = find (\<lambda>e. lower (pKey e) = lower key) (elems pH)"
    by (rule find_cong) (use nz assms(3) keyMatch_lower in auto)
  show ?thesis
  proof (cases "ht pH")
    case None
    then show ?thesis using assms(2) m by (simp add: findElementGivenHash_def)
  next
    case (Some t)
    let ?n = "htsize pH" and ?P = "inBucket (htsize pH) h"
    have ok: "buckets_ok ?n t (elems pH)" using assms(1) Some by (simp add: table_ok_def)
    then have hn: "h < ?n" "h = strHash key mod ?n" using assms(4) by (auto simp: buckets_ok_def)
    then have b: "contig ?P (elems pH)" "bcount (t ! h) = length (filter ?P (elems pH))"
      "0 < bcount (t ! h) \<Longrightarrow> chain (t ! h) = Some (addr (hd (filter ?P (elems pH))))"
      using ok by (auto simp: buckets_ok_def)
    have "(case chain (t ! h) of None \<Rightarrow> []
            | Some a \<Rightarrow> take (bcount (t ! h)) (dropWhile (\<lambda>e. addr e \<noteq> a) (elems pH))) = filter ?P (elems pH)"
    proof (cases "filter ?P (elems pH) = []")
      case True
      then have z: "bcount (t ! h) = 0" using b(2) by simp
      show ?thesis unfolding z True by (cases "chain (t ! h)") simp_all
    next
      case False
      then have "chain (t ! h) = Some (addr (hd (filter ?P (elems pH))))" using b by simp
      then show ?thesis using contig_run [OF b(1) False d] b(2) by simp
    qed
    moreover have "find (keyMatch key) (filter ?P (elems pH)) = find (keyMatch key) (elems pH)"
    proof (rule find_filter)
      fix e
      assume "e \<in> set (elems pH)" and "keyMatch key e"
      then have "lower (pKey e) = lower key" using keyMatch_lower nz assms(3) by blast
      then show "?P e" using strHash_lower [of "pKey e" key] hn(2) by (simp add: inBucket_def)
    qed
    ultimately show ?thesis using Some m by (simp add: findElementGivenHash_def)
  qed
qed

lemma find_entries: "map_option data (find (\<lambda>e. lower (pKey e) = k) es) = map_of (entries es) k"
  by (induction es) (auto simp: entries_def)

lemma sqlite3HashFind_hmap:
  assumes "htable_ok pH" and "0 \<notin> set key"
  shows "sqlite3HashFind pH key = hmap pH (lower key)"
proof -
  have "ht pH \<noteq> None \<longleftrightarrow> htsize pH \<noteq> 0"
    using assms(1) by (auto simp: htable_ok_def table_ok_def buckets_ok_def split: option.splits)
  then show ?thesis
    using findElement_eq [of pH key] assms find_entries
    by (simp add: sqlite3HashFind_def hmap_def htable_ok_def)
qed

section \<open>Resizing, insertion and removal\<close>

lemma elems_ok_insert:
  assumes "elems_ok a (l @ r)" and "addr x \<notin> addr ` set (l @ r)" and "addr x < b" and "a \<le> b"
    and "0 \<notin> set (pKey x)" and "lower (pKey x) \<notin> (\<lambda>e. lower (pKey e)) ` set (l @ r)"
  shows "elems_ok b (l @ x # r)"
  using assms by (auto simp: elems_ok_def image_iff dest: less_le_trans)

lemma entries_insert:
  assumes "lower (pKey x) \<notin> (\<lambda>e. lower (pKey e)) ` set (l @ r)"
  shows "map_of (entries (l @ x # r)) = (map_of (entries (l @ r)))(lower (pKey x) \<mapsto> data x)"
proof -
  have "lower (pKey x) \<notin> dom (map_of (entries l))"
    using assms by (auto simp: entries_def dom_map_of_conv_image_fst image_image)
  then show ?thesis by (auto simp: entries_def map_of_append fun_eq_iff map_add_def dom_def split: option.splits)
qed

lemma foldl_insertElement:
  assumes "ht pH = Some t" and "buckets_ok n t (elems pH)" and "distinct (map addr (elems pH @ xs))"
  shows "\<exists>t' es. foldl (\<lambda>t e. insertElement t (Some (strHash (pKey e) mod n)) e) pH xs
             = pH \<lparr> ht := Some t', elems := es \<rparr>
           \<and> buckets_ok n t' es \<and> set es = set (elems pH) \<union> set xs \<and> length es = length (elems pH) + length xs"
  using assms
proof (induction xs arbitrary: pH t)
  case Nil
  then show ?case by (intro exI [of _ t] exI [of _ "elems pH"]) simp
next
  case (Cons x xs)
  have "distinct (map addr (elems pH))" "addr x \<notin> addr ` set (elems pH)" using Cons.prems(3) by auto
  from insertElement_buckets [OF Cons.prems(2) this refl Cons.prems(1) refl] obtain l r t1 where
    i: "elems pH = l @ r" "insertElement pH (Some (strHash (pKey x) mod n)) x = pH \<lparr> ht := Some t1, elems := l @ x # r \<rparr>"
      "buckets_ok n t1 (l @ x # r)" by blast
  let ?p = "pH \<lparr> ht := Some t1, elems := l @ x # r \<rparr>"
  have "ht ?p = Some t1" "buckets_ok n t1 (elems ?p)" "distinct (map addr (elems ?p @ xs))"
    using i Cons.prems(3) by auto
  from Cons.IH [OF this] i show ?case by auto
qed

lemma elems_ok_perm:
  assumes "elems_ok a es" and "set es' = set es" and "length es' = length es"
  shows "elems_ok a es' \<and> map_of (entries es') = map_of (entries es)"
proof -
  have d: "distinct es" using assms(1) by (auto simp: elems_ok_def distinct_map)
  then have "distinct es'" using assms(2,3) by (metis card_distinct distinct_card)
  moreover have "inj_on addr (set es)" "inj_on (\<lambda>e. lower (pKey e)) (set es)"
    using assms(1) by (auto simp: elems_ok_def distinct_map)
  ultimately have ok: "elems_ok a es'"
    using assms(1,2) by (auto simp: elems_ok_def distinct_map)
  have dk: "distinct (map fst (entries es))" "distinct (map fst (entries es'))"
    using assms(1) ok by (auto simp: elems_ok_def entries_def comp_def)
  have "set (entries es') = set (entries es)" using assms(2) by (simp add: entries_def)
  then have "map_of (entries es') = map_of (entries es)"
    using map_of_inject_set [OF dk(2,1)] by simp
  with ok show ?thesis ..
qed

lemma buckets_ok_empty: "0 < n \<Longrightarrow> buckets_ok n (replicate n \<lparr> bcount = 0, chain = None \<rparr>) []"
  by (simp add: buckets_ok_def)

lemma rehash_ok:
  assumes ok: "table_ok pH" and sz: "10 \<le> new_size" and ms: "\<And>n. n \<le> msize n"
    and r: "rehash msize pH new_size al = (done, p', al')"
  shows "table_ok p' \<and> map_of (entries (elems p')) = map_of (entries (elems pH))
       \<and> set (elems p') = set (elems pH) \<and> length (elems p') = length (elems pH)
       \<and> hcount p' = hcount pH \<and> nextAddr p' = nextAddr pH
       \<and> (done \<longrightarrow> ht p' \<noteq> None) \<and> (\<not> done \<longrightarrow> p' = pH)"
proof (cases "done")
  case False
  then have "p' = pH" using r by (auto simp: rehash_def Let_def split: if_splits prod.splits)
  then show ?thesis using ok False by simp
next
  case True
  define ns where "ns = (if new_size * sizeof_ht > SQLITE_MALLOC_SOFT_LIMIT
                      then SQLITE_MALLOC_SOFT_LIMIT div sizeof_ht else new_size)"
  define n where "n = msize (ns * sizeof_ht) div sizeof_ht"
  let ?q = "pH \<lparr> ht := Some (replicate n \<lparr> bcount = 0, chain = None \<rparr>), htsize := n, elems := [] \<rparr>"
  have "ns * sizeof_ht div sizeof_ht \<le> n" unfolding n_def by (intro div_le_mono ms)
  moreover have "10 \<le> ns" using sz by (auto simp: ns_def sizeof_ht_def SQLITE_MALLOC_SOFT_LIMIT_def)
  ultimately have n: "0 < n" by (simp add: sizeof_ht_def)
  have p': "p' = foldl (\<lambda>t e. insertElement t (Some (strHash (pKey e) mod n)) e) ?q (elems pH)"
    using r True unfolding rehash_def Let_def ns_def [symmetric] n_def [symmetric]
    by (auto split: if_splits prod.splits)
  have "distinct (map addr (elems ?q @ elems pH))" using ok by (simp add: table_ok_def elems_ok_def)
  from foldl_insertElement [OF _ _ this, of "replicate n \<lparr> bcount = 0, chain = None \<rparr>" n]
  obtain t' es where f: "p' = ?q \<lparr> ht := Some t', elems := es \<rparr>" "buckets_ok n t' es" "set es = set (elems pH)"
    "length es = length (elems pH)"
    unfolding p' by (auto simp: buckets_ok_empty [OF n])
  have "elems_ok (nextAddr pH) (elems pH)" using ok by (simp add: table_ok_def)
  from elems_ok_perm [OF this f(3,4)] f show ?thesis by (auto simp: table_ok_def True)
qed

lemma insertElement_ok:
  assumes ok: "table_ok pH" and a: "nextAddr pH = Suc (addr x)" and new: "\<forall>e\<in>set (elems pH). addr e < addr x"
    and nz: "0 \<notin> set (pKey x)" and k: "lower (pKey x) \<notin> (\<lambda>e. lower (pKey e)) ` set (elems pH)"
    and h: "h = strHash (pKey x) mod htsize pH"
  shows "table_ok (insertElement pH (if ht pH \<noteq> None then Some h else None) x)
       \<and> hmap (insertElement pH (if ht pH \<noteq> None then Some h else None) x) = (hmap pH)(lower (pKey x) \<mapsto> data x)
       \<and> length (elems (insertElement pH (if ht pH \<noteq> None then Some h else None) x)) = Suc (length (elems pH))
       \<and> hcount (insertElement pH (if ht pH \<noteq> None then Some h else None) x) = hcount pH"
proof -
  have eo: "elems_ok (nextAddr pH) (elems pH)" using ok by (simp add: table_ok_def)
  have na: "addr x \<notin> addr ` set (elems pH)" using new by auto
  have grow: "elems_ok (nextAddr pH) (l @ x # r) \<and> map_of (entries (l @ x # r)) = (hmap pH)(lower (pKey x) \<mapsto> data x)"
    if "elems pH = l @ r" for l r
    using elems_ok_insert [of "nextAddr pH" l r x "nextAddr pH"] entries_insert [of x l r] eo na nz k a that
    by (simp add: hmap_def)
  show ?thesis
  proof (cases "ht pH")
    case None
    then show ?thesis
      using grow [of "[]" "elems pH"] ok by (simp add: insertElement_def table_ok_def hmap_def)
  next
    case (Some t)
    have b: "buckets_ok (htsize pH) t (elems pH)" "distinct (map addr (elems pH))"
      using ok Some by (auto simp: table_ok_def elems_ok_def)
    from insertElement_buckets [OF b na h Some refl] obtain l r t' where
      "elems pH = l @ r" "insertElement pH (Some h) x = pH \<lparr> ht := Some t', elems := l @ x # r \<rparr>"
      "buckets_ok (htsize pH) t' (l @ x # r)" by blast
    then show ?thesis using Some grow [of l r] by (simp add: table_ok_def hmap_def)
  qed
qed

lemma filter_addr_split:
  assumes "distinct (map addr (l @ x # r))"
  shows "filter (\<lambda>e. addr e \<noteq> addr x) (l @ x # r) = l @ r"
proof -
  have "addr x \<notin> addr ` set l" "addr x \<notin> addr ` set r" using assms by auto
  then have "filter (\<lambda>e. addr e \<noteq> addr x) l = l" "filter (\<lambda>e. addr e \<noteq> addr x) r = r"
    by (auto intro!: filter_True) (metis image_eqI)+
  then show ?thesis by simp
qed

lemma nextOf_split:
  assumes "distinct (map addr (l @ x # r))"
  shows "nextOf (addr x) (l @ x # r) = (case r of [] \<Rightarrow> None | y # _ \<Rightarrow> Some (addr y))"
proof -
  have "dropWhile (\<lambda>e. addr e \<noteq> addr x) (l @ x # r) = x # r"
    using distinct_before [OF assms] by (simp add: dropWhile_append2)
  then show ?thesis by (auto simp: nextOf_def split: list.splits)
qed

text \<open>Removing an element of bucket \<open>h\<close>: what is left of each bucket.\<close>

lemma contig_hd_after:
  assumes "contig P (l @ x # r)" and "\<forall>y\<in>set l. \<not> P y" and "P x" and "filter P r \<noteq> []"
  shows "\<exists>y r'. r = y # r' \<and> P y"
proof -
  have "contig2 P r" using assms(1,2,3) by (induction l) auto
  then show ?thesis using assms(4) by (cases r) (auto simp: filter_empty_conv split: if_splits)
qed

lemma remove_buckets:
  assumes ok: "buckets_ok n t (l @ x # r)" and d: "distinct (map addr (l @ x # r))"
    and h: "h = strHash (pKey x) mod n"
  shows "buckets_ok n (t[h := \<lparr> bcount = bcount (t ! h) - 1,
            chain = (if chain (t ! h) = Some (addr x) then nextOf (addr x) (l @ x # r) else chain (t ! h)) \<rparr>]) (l @ r)"
    (is "buckets_ok n ?t _")
  unfolding buckets_ok_def
proof (intro conjI allI impI)
  let ?P = "inBucket n h"
  have n: "0 < n" "length t = n" and hn: "h < n" using ok h by (auto simp: buckets_ok_def)
  then show "0 < n" "length ?t = n" by auto
  have px: "inBucket n k x \<longleftrightarrow> k = h" for k using h by (auto simp: inBucket_def)
  fix k
  assume k: "k < n"
  have kb: "contig (inBucket n k) (l @ x # r)" "bcount (t ! k) = length (filter (inBucket n k) (l @ x # r))"
    "0 < bcount (t ! k) \<Longrightarrow> chain (t ! k) = Some (addr (hd (filter (inBucket n k) (l @ x # r))))"
    using ok k by (auto simp: buckets_ok_def)
  show "contig (inBucket n k) (l @ r)" by (rule contig_delete [OF kb(1)])
  show "bcount (?t ! k) = length (filter (inBucket n k) (l @ r))"
    using kb(2) px [of k] hn n by (cases "k = h") (auto simp: nth_list_update)
  show "chain (?t ! k) = Some (addr (hd (filter (inBucket n k) (l @ r))))" if "0 < bcount (?t ! k)"
  proof (cases "k = h")
    case False
    then show ?thesis using that kb px [of k] by simp
  next
    case True
    then have c: "chain (t ! h) = Some (addr (hd (filter ?P (l @ x # r))))" and p: "?P x" using kb px by auto
    have ne: "filter ?P (l @ r) \<noteq> []" using that True kb(2) px [of h] hn n by auto
    show ?thesis
    proof (cases "filter ?P l")
      case Nil
      then have "chain (t ! h) = Some (addr x)" "filter ?P r \<noteq> []" using c p ne by auto
      moreover obtain y r' where "r = y # r'" "?P y"
        using contig_hd_after [of ?P l x r] kb(1) True p Nil \<open>filter ?P r \<noteq> []\<close> by (auto simp: filter_empty_conv)
      ultimately show ?thesis using True hn n nextOf_split [OF d] Nil by simp
    next
      case (Cons y ys)
      then have "y \<in> set l" using filter_is_subset [of ?P l] by auto
      then have "addr y \<noteq> addr x" using distinct_before [OF d] by blast
      then show ?thesis using True hn n c Cons by simp
    qed
  qed
qed

lemma entries_delete:
  assumes "elems_ok a (l @ x # r)"
  shows "elems_ok a (l @ r) \<and> map_of (entries (l @ r)) = (map_of (entries (l @ x # r)))(lower (pKey x) := None)"
proof -
  have ok: "elems_ok a (l @ r)" using assms by (auto simp: elems_ok_def)
  have nk: "lower (pKey x) \<notin> (\<lambda>e. lower (pKey e)) ` set (l @ r)" using assms by (auto simp: elems_ok_def)
  then have "lower (pKey x) \<notin> dom (map_of (entries (l @ r)))"
    by (auto simp: entries_def dom_map_of_conv_image_fst image_image)
  then have "map_of (entries (l @ r)) (lower (pKey x)) = None" by blast
  then show ?thesis using ok entries_insert [OF nk] by (simp add: fun_upd_idem)
qed

lemma removeElement_ok:
  assumes ok: "htable_ok pH" and e: "elem \<in> set (elems pH)"
    and h: "h = (if htsize pH \<noteq> 0 then strHash (pKey elem) mod htsize pH else 0)"
  shows "htable_ok (removeElementGivenHash pH elem h)
       \<and> hmap (removeElementGivenHash pH elem h) = (hmap pH)(lower (pKey elem) := None)"
proof -
  obtain l r where lr: "elems pH = l @ elem # r" using e by (meson split_list)
  have eo: "elems_ok (nextAddr pH) (l @ elem # r)" and d: "distinct (map addr (l @ elem # r))"
    using ok lr by (auto simp: htable_ok_def table_ok_def elems_ok_def)
  note del = entries_delete [OF eo] and fil = filter_addr_split [OF d]
  have cnt: "hcount pH - 1 = length (l @ r)" using ok lr by (simp add: htable_ok_def)
  show ?thesis
  proof (cases "l @ r = []")
    case True
    then show ?thesis
      using cnt del lr
      by (simp add: removeElementGivenHash_def Let_def sqlite3HashClear_def htable_ok_def table_ok_def
          elems_ok_def hmap_def entries_def)
  next
    case False
    then have nz: "hcount pH - 1 \<noteq> 0" using cnt by simp
    show ?thesis
    proof (cases "ht pH")
      case None
      then show ?thesis
        using nz cnt del fil lr ok False
        by (auto simp: removeElementGivenHash_def Let_def htable_ok_def table_ok_def hmap_def)
    next
      case (Some t)
      then have b: "buckets_ok (htsize pH) t (l @ elem # r)" using ok lr by (simp add: htable_ok_def table_ok_def)
      then have "h = strHash (pKey elem) mod htsize pH" using h by (auto simp: buckets_ok_def)
      from remove_buckets [OF b d this] show ?thesis
        using Some nz cnt del fil lr False
        by (auto simp: removeElementGivenHash_def Let_def htable_ok_def table_ok_def hmap_def)
    qed
  qed
qed

lemma elems_ok_replace:
  assumes "elems_ok a (l @ x # r)" and "lower key = lower (pKey x)" and "0 \<notin> set key"
  shows "elems_ok a (l @ x \<lparr> data := v, pKey := key \<rparr> # r)
       \<and> map_of (entries (l @ x \<lparr> data := v, pKey := key \<rparr> # r)) = (map_of (entries (l @ x # r)))(lower key \<mapsto> v)"
proof -
  have nk: "lower (pKey x) \<notin> (\<lambda>e. lower (pKey e)) ` set (l @ r)" using assms by (auto simp: elems_ok_def)
  have "elems_ok a (l @ x \<lparr> data := v, pKey := key \<rparr> # r)" using assms by (auto simp: elems_ok_def)
  moreover have "lower (pKey (x \<lparr> data := v, pKey := key \<rparr>)) \<notin> (\<lambda>e. lower (pKey e)) ` set (l @ r)"
    using nk assms(2) by simp
  ultimately show ?thesis using entries_insert [OF nk] entries_insert [of "x \<lparr> data := v, pKey := key \<rparr>" l r] assms(2)
    by simp
qed

text \<open>Replacing the key by an equivalent one does not move an element to another bucket.\<close>

lemma contig2_map: "(\<And>x. x \<in> set xs \<Longrightarrow> P (f x) = P x) \<Longrightarrow> contig2 P (map f xs) = contig2 P xs"
  by (induction xs) auto

lemma contig_map: "(\<And>x. x \<in> set xs \<Longrightarrow> P (f x) = P x) \<Longrightarrow> contig P (map f xs) = contig P xs"
  by (induction xs) (auto simp: contig2_map)

lemma filter_map_same: "(\<And>x. x \<in> set xs \<Longrightarrow> P (f x) = P x) \<Longrightarrow> filter P (map f xs) = map f (filter P xs)"
  by (induction xs) auto

lemma buckets_ok_map:
  fixes f :: "'d hashElem \<Rightarrow> 'd hashElem"
  assumes "buckets_ok n t es" and "\<And>e. e \<in> set es \<Longrightarrow> addr (f e) = addr e \<and> strHash (pKey (f e)) = strHash (pKey e)"
  shows "buckets_ok n t (map f es)"
  unfolding buckets_ok_def
proof (intro conjI allI impI)
  fix h
  assume h: "h < n"
  have P: "inBucket n h (f e) = inBucket n h e" if "e \<in> set es" for e using assms(2) [OF that] by (simp add: inBucket_def)
  have b: "contig (inBucket n h) es" "bcount (t ! h) = length (filter (inBucket n h) es)"
    "0 < bcount (t ! h) \<Longrightarrow> chain (t ! h) = Some (addr (hd (filter (inBucket n h) es)))"
    using assms(1) h by (auto simp: buckets_ok_def)
  note fm = filter_map_same [of es "inBucket n h" f, OF P]
  show "contig (inBucket n h) (map f es)" using contig_map [of es "inBucket n h" f, OF P] b(1) by simp
  show "bcount (t ! h) = length (filter (inBucket n h) (map f es))" using b(2) fm by simp
  show "chain (t ! h) = Some (addr (hd (filter (inBucket n h) (map f es))))" if pos: "0 < bcount (t ! h)"
  proof -
    obtain y ys where y: "filter (inBucket n h) es = y # ys" using pos b(2) by (cases "filter (inBucket n h) es") auto
    then have "y \<in> set es" using filter_is_subset [of "inBucket n h" es] by auto
    then show ?thesis using b(3) [OF pos] fm y assms(2) by simp
  qed
qed (use assms(1) in \<open>auto simp: buckets_ok_def\<close>)

lemma replaceData_ok:
  assumes ok: "htable_ok pH" and e: "elem \<in> set (elems pH)" and k: "lower key = lower (pKey elem)" "0 \<notin> set key"
    and p: "p' = pH \<lparr> elems := map (\<lambda>e. if addr e = addr elem then e \<lparr> data := v, pKey := key \<rparr> else e) (elems pH) \<rparr>"
  shows "htable_ok p' \<and> hmap p' = (hmap pH)(lower key \<mapsto> v)"
proof -
  let ?f = "\<lambda>e. if addr e = addr elem then e \<lparr> data := v, pKey := key \<rparr> else e"
  obtain l r where lr: "elems pH = l @ elem # r" using e by (meson split_list)
  have eo: "elems_ok (nextAddr pH) (l @ elem # r)" and d: "distinct (map addr (l @ elem # r))"
    using ok lr by (auto simp: htable_ok_def table_ok_def elems_ok_def)
  have "addr elem \<notin> addr ` set l" "addr elem \<notin> addr ` set r" using d by auto
  then have "map ?f l = l" "map ?f r = r" by (auto intro!: map_idI) (metis image_eqI)+
  then have m: "map ?f (elems pH) = l @ elem \<lparr> data := v, pKey := key \<rparr> # r" using lr by simp
  have same: "addr (?f e) = addr e \<and> strHash (pKey (?f e)) = strHash (pKey e)" if "e \<in> set (elems pH)" for e
  proof (cases "addr e = addr elem")
    case True
    have "distinct (map addr (elems pH))" using d lr by simp
    then have "e = elem" using True that \<open>elem \<in> set (elems pH)\<close> by (metis distinct_map inj_onD)
    then show ?thesis using strHash_lower [OF k(1)] by simp
  qed simp
  from elems_ok_replace [OF eo k] m lr have
    "elems_ok (nextAddr pH) (map ?f (elems pH))"
    "map_of (entries (map ?f (elems pH))) = (hmap pH)(lower key \<mapsto> v)" by (simp_all add: hmap_def)
  moreover have "\<And>t. ht pH = Some t \<Longrightarrow> buckets_ok (htsize pH) t (map ?f (elems pH))"
    by (rule buckets_ok_map [OF _ same]) (use ok in \<open>simp_all add: htable_ok_def table_ok_def\<close>)
  ultimately show ?thesis
    unfolding p using ok by (auto simp: htable_ok_def table_ok_def hmap_def split: option.splits)
qed

lemma sqlite3HashInsert_hmap:
  assumes ok: "htable_ok pH" and nz: "0 \<notin> set key" and ms: "\<And>n. n \<le> msize n"
    and r: "sqlite3HashInsert msize pH key d al = (old, p', al')"
  shows "htable_ok p'
       \<and> (hmap p' = (hmap pH)(lower key := d) \<and> old = hmap pH (lower key)
          \<or> hmap pH (lower key) = None \<and> d \<noteq> None \<and> old = d \<and> p' = pH \<and> \<not> fst (sqlite3_alloc al))"
proof -
  define h where "h = (if htsize pH \<noteq> 0 then strHash key mod htsize pH else 0)"
  note r' = r [unfolded sqlite3HashInsert_def Let_def, folded h_def]
  have tok: "table_ok pH" and len: "hcount pH = length (elems pH)" using ok by (auto simp: htable_ok_def)
  have fe: "findElementGivenHash pH key h = find (\<lambda>e. lower (pKey e) = lower key) (elems pH)"
    by (rule findElement_eq [OF tok _ nz h_def]) (use len in simp)
  have hk: "hmap pH (lower key) = map_option data (findElementGivenHash pH key h)"
    using find_entries [of "lower key" "elems pH"] fe by (simp add: hmap_def)
  show ?thesis
  proof (cases "findElementGivenHash pH key h")
    case (Some elem)
    then have e: "elem \<in> set (elems pH)" "lower (pKey elem) = lower key" using fe by (auto simp: find_Some_iff)
    then have hh: "h = (if htsize pH \<noteq> 0 then strHash (pKey elem) mod htsize pH else 0)"
      using strHash_lower [of "pKey elem" key] by (simp add: h_def)
    show ?thesis
    proof (cases d)
      case None
      then show ?thesis
        using r' Some removeElement_ok [OF ok e(1) hh] e(2) hk by auto
    next
      case (Some v)
      then show ?thesis
        using r' \<open>findElementGivenHash pH key h = Some elem\<close> replaceData_ok [OF ok e(1) e(2) [symmetric] nz refl, of v] hk
        by auto
    qed
  next
    case None
    then have nk: "lower key \<notin> (\<lambda>e. lower (pKey e)) ` set (elems pH)" using fe by (auto simp: find_None_iff)
    show ?thesis
    proof (cases d)
      case dn: None
      then show ?thesis using r' None ok hk by (auto simp: fun_upd_idem)
    next
      case dv: (Some v)
      obtain okb al1 where al: "sqlite3_alloc al = (okb, al1)" by fastforce
      show ?thesis
      proof (cases okb)
        case False
        then show ?thesis using r' None dv al ok hk by auto
      next
        case True
        let ?x = "\<lparr> addr = nextAddr pH, pKey = key, data = v \<rparr>"
        let ?q = "pH \<lparr> nextAddr := nextAddr pH + 1, hcount := hcount pH + 1 \<rparr>"
        let ?big = "hcount ?q \<ge> 10 \<and> hcount ?q > 2 * htsize ?q"
        obtain dn q bl where rh: "rehash msize ?q (hcount ?q * 2) al1 = (dn, q, bl)" by (metis prod_cases3)
        define p1 where "p1 = (if ?big then q else ?q)"
        define h1 where "h1 = (if ?big \<and> dn then strHash key mod htsize q else h)"
        have qok: "table_ok ?q" using tok by (auto simp: table_ok_def elems_ok_def split: option.splits)
        have q: "?big \<Longrightarrow> table_ok q \<and> map_of (entries (elems q)) = map_of (entries (elems pH))
            \<and> set (elems q) = set (elems pH) \<and> length (elems q) = length (elems pH)
            \<and> hcount q = hcount pH + 1 \<and> nextAddr q = nextAddr pH + 1 \<and> (dn \<longrightarrow> ht q \<noteq> None) \<and> (\<not> dn \<longrightarrow> q = ?q)"
          using rehash_ok [OF qok _ ms rh] by auto
        have p1: "table_ok p1" "map_of (entries (elems p1)) = map_of (entries (elems pH))"
          "set (elems p1) = set (elems pH)" "length (elems p1) = length (elems pH)"
          "hcount p1 = hcount pH + 1" "nextAddr p1 = nextAddr pH + 1"
          using q qok by (auto simp: p1_def)
        have h1: "h1 = strHash key mod htsize p1" if "ht p1 \<noteq> None"
          using that q tok by (auto simp: h1_def p1_def h_def table_ok_def buckets_ok_def)
        have new: "\<forall>e\<in>set (elems p1). addr e < addr ?x" "lower (pKey ?x) \<notin> (\<lambda>e. lower (pKey e)) ` set (elems p1)"
          using tok nk p1(3) by (auto simp: table_ok_def elems_ok_def)
        have res: "(old, p', al') = (None, insertElement p1 (if ht p1 \<noteq> None then Some h1 else None) ?x, if ?big then bl else al1)"
          using r' None dv al True rh by (auto simp: p1_def h1_def split: if_splits)
        have ie: "insertElement p1 (if ht p1 \<noteq> None then Some h1 else None) ?x
            = insertElement p1 (if ht p1 \<noteq> None then Some (strHash (pKey ?x) mod htsize p1) else None) ?x"
          using h1 by simp
        from insertElement_ok [OF p1(1) _ new(1) _ new(2) refl] p1(6) nz
        have io: "table_ok p' \<and> hmap p' = (hmap p1)(lower key \<mapsto> v) \<and> length (elems p') = Suc (length (elems p1))
            \<and> hcount p' = hcount p1"
          using res ie by simp
        have "hmap p1 = hmap pH" using p1(2) by (simp add: hmap_def)
        then show ?thesis using io res p1(4,5) len dv None hk by (simp add: htable_ok_def)
      qed
    qed
  qed
qed

section \<open>The table as a finite map\<close>

text \<open>
  The contract of a map from names that are compared up to a key function: an insertion with
  a value binds the key, one without a value unbinds it, and a lookup sees the last insertion.
\<close>

locale name_map =
  fixes key :: "'k \<Rightarrow> 'f"
    and valid :: "'k \<Rightarrow> bool"
    and inv :: "'s \<Rightarrow> bool"
    and abs :: "'s \<Rightarrow> 'f \<rightharpoonup> 'd"
    and ins :: "'s \<Rightarrow> 'k \<Rightarrow> 'd option \<Rightarrow> 'd option \<times> 's"
    and lk :: "'s \<Rightarrow> 'k \<Rightarrow> 'd option"
  assumes lk_law: "inv s \<Longrightarrow> valid k \<Longrightarrow> lk s k = abs s (key k)"
    and ins_law: "inv s \<Longrightarrow> valid k \<Longrightarrow>
      inv (snd (ins s k d)) \<and> abs (snd (ins s k d)) = (abs s)(key k := d) \<and> fst (ins s k d) = abs s (key k)"
begin

lemma inserts_inv:
  "inv s \<Longrightarrow> list_all (\<lambda>(k, d). valid k) ops \<Longrightarrow>
   inv (foldl (\<lambda>s (k, d). snd (ins s k d)) s ops)
   \<and> abs (foldl (\<lambda>s (k, d). snd (ins s k d)) s ops) = foldl (\<lambda>m (k, d). m(key k := d)) (abs s) ops"
  using ins_law by (induction ops arbitrary: s) auto

lemma inserts_lookup:
  "inv s \<Longrightarrow> list_all (\<lambda>(k, d). valid k) ops \<Longrightarrow> valid k \<Longrightarrow>
   lk (foldl (\<lambda>s (k, d). snd (ins s k d)) s ops) k = foldl (\<lambda>m (k, d). m(key k := d)) (abs s) ops (key k)"
  using inserts_inv lk_law by metis

end

definition hashPut :: "'d hash \<Rightarrow> bytes \<Rightarrow> 'd option \<Rightarrow> 'd option \<times> 'd hash" where
  "hashPut pH key d = (case sqlite3HashInsert (\<lambda>n. n) pH key d [] of (old, p', al) \<Rightarrow> (old, p'))"

definition hashPuts :: "'d hash \<Rightarrow> (bytes \<times> 'd option) list \<Rightarrow> 'd hash" where
  "hashPuts pH ops = foldl (\<lambda>s (k, d). snd (hashPut s k d)) pH ops"

interpretation hm: name_map lower "\<lambda>k. 0 \<notin> set k" htable_ok hmap hashPut sqlite3HashFind
proof (unfold_locales, goal_cases)
  case (1 s k)
  then show ?case by (rule sqlite3HashFind_hmap)
next
  case (2 s k d)
  obtain old p' al where r: "sqlite3HashInsert (\<lambda>n. n) s k d [] = (old, p', al)" by (metis prod_cases3)
  from sqlite3HashInsert_hmap [OF 2 order.refl r] show ?case using r by (auto simp: hashPut_def)
qed

lemma sqlite3HashInit_ok [simp]: "htable_ok (sqlite3HashInit n)" "hmap (sqlite3HashInit n) = Map.empty"
  by (simp_all add: sqlite3HashInit_def htable_ok_def table_ok_def elems_ok_def hmap_def entries_def fun_eq_iff)

section \<open>Properties\<close>

text \<open>C31. Inserting into a well-formed table, with any outcome of the allocations for the element and
  for a larger bucket array, keeps it well formed. The table maps the case-folded name to the new
  object, or to nothing when the object is null, keeps every other name, and the object that was
  there before is returned; only when the element itself cannot be allocated the table is unchanged
  and the new object is returned.\<close>

theorem sqlite3HashInsert_correct:
  assumes "htable_ok pH" and "0 \<notin> set key" and "\<And>n. n \<le> msize n"
    and "sqlite3HashInsert msize pH key d al = (old, p', al')"
  shows "htable_ok p'
       \<and> (hmap p' = (hmap pH)(lower key := d) \<and> old = hmap pH (lower key)
          \<or> hmap pH (lower key) = None \<and> d \<noteq> None \<and> old = d \<and> p' = pH \<and> \<not> fst (sqlite3_alloc al))"
  by (rule sqlite3HashInsert_hmap [OF assms])

theorem sqlite3HashInsert_correct_witness:
  "\<exists>p' al'. sqlite3HashInsert (\<lambda>n. n + 8) (sqlite3HashInit 0) [65, 98] (Some True) [True] = (None, p', al')
     \<and> htable_ok p' \<and> hmap p' = [lower [65, 98] \<mapsto> True]"
proof -
  obtain old p' al' where r: "sqlite3HashInsert (\<lambda>n. n + 8) (sqlite3HashInit 0) [65, 98] (Some True) [True] = (old, p', al')"
    by (metis prod_cases3)
  have "htable_ok p'
      \<and> (hmap p' = (hmap (sqlite3HashInit 0))(lower [65, 98] := Some True) \<and> old = hmap (sqlite3HashInit 0) (lower [65, 98])
         \<or> hmap (sqlite3HashInit 0 :: bool hash) (lower [65, 98]) = None \<and> Some True \<noteq> None \<and> old = Some True
           \<and> p' = sqlite3HashInit 0 \<and> \<not> fst (sqlite3_alloc [True]))"
    by (rule sqlite3HashInsert_correct [OF _ _ _ r]) simp_all
  with r show ?thesis by simp
qed

text \<open>C30. After any sequence of insertions, replacements and removals on a new table, with memory
  available, a lookup returns the object last stored under the name, whatever the case of its
  letters; the growth of the bucket array is not visible.\<close>

theorem sqlite3Hash_refines_map:
  assumes "list_all (\<lambda>(k, d). 0 \<notin> set k) ops" and "0 \<notin> set key"
  shows "sqlite3HashFind (hashPuts (sqlite3HashInit n) ops) key
       = foldl (\<lambda>m (k, d). m(lower k := d)) Map.empty ops (lower key)"
  using hm.inserts_lookup [of "sqlite3HashInit n" ops key] assms by (simp add: hashPuts_def)

theorem sqlite3Hash_refines_map_witness:
  "sqlite3HashFind (hashPuts (sqlite3HashInit 0) [([97], Some 1), ([98], Some 2), ([97], Some (3 :: nat))]) [97] = Some 3"
  by (subst sqlite3Hash_refines_map) simp_all

end
