(* ===== verification/Wal_Index.thy ===== *)
theory Wal_Index
  imports Probing
begin

text \<open>
  The wal-index of \<^verbatim>\<open>wal.c\<close>: for every block of up to 4096 frames of the write-ahead log an array of
  page numbers and a hash table with linear probing. The theory holds the functions that add
  a frame, remove the frames of an abandoned transaction and look up the last frame of a page, and
  shows that together they keep an index of the log. Mapping a page of the wal-index is done by the
  operating system; the result code of that is a parameter \<open>rcMap\<close>.
\<close>

section \<open>Hash tables and frame numbers\<close>

definition HASHTABLE_NPAGE :: nat where
  "HASHTABLE_NPAGE = 4096"

definition HASHTABLE_NSLOT :: nat where
  "HASHTABLE_NSLOT = HASHTABLE_NPAGE * 2"

text \<open>Two copies of the 48 byte header, the 24 byte checkpoint information and 16 bytes for locks.\<close>

definition WALINDEX_HDR_SIZE :: nat where
  "WALINDEX_HDR_SIZE = 48 * 2 + 24 + 16"

definition HASHTABLE_NPAGE_ONE :: nat where
  "HASHTABLE_NPAGE_ONE = HASHTABLE_NPAGE - WALINDEX_HDR_SIZE div 4"

definition walHash :: "u32 \<Rightarrow> nat" where
  "walHash iPage = unat ((iPage * 383) AND 8191)"

definition walNextHash :: "nat \<Rightarrow> nat" where
  "walNextHash iPriorHash = (iPriorHash + 1) mod HASHTABLE_NSLOT"

text \<open>
  A page of the wal-index: \<open>pgnos ! i\<close> is \<^verbatim>\<open>aPgno[i+1]\<close>, the page number of the frame \<open>i + 1\<close> of the
  block, and \<open>slots\<close> is \<^verbatim>\<open>aHash\<close>. The first page holds fewer frames because of the header.
\<close>

record wiPage =
  pgnos :: "u32 list"
  slots :: "nat list"

definition walFramePage :: "nat \<Rightarrow> nat" where
  "walFramePage iFrame = (iFrame + HASHTABLE_NPAGE - HASHTABLE_NPAGE_ONE - 1) div HASHTABLE_NPAGE"

definition walIZero :: "nat \<Rightarrow> nat" where
  "walIZero iHash = (if iHash = 0 then 0 else HASHTABLE_NPAGE_ONE + (iHash - 1) * HASHTABLE_NPAGE)"

definition walNEntry :: "nat \<Rightarrow> nat" where
  "walNEntry iHash = (if iHash = 0 then HASHTABLE_NPAGE_ONE else HASHTABLE_NPAGE)"

text \<open>The handle: the pages of the wal-index and the cached header field \<^verbatim>\<open>hdr.mxFrame\<close>.\<close>

record walIndex =
  apWiData :: "nat \<Rightarrow> wiPage"
  mxFrame :: nat

definition walHashGet :: "(nat \<Rightarrow> rcode) \<Rightarrow> walIndex \<Rightarrow> nat \<Rightarrow> rcode + wiPage \<times> nat" where
  "walHashGet rcMap w iHash =
     (if rcMap iHash = SQLITE_OK then Inr (apWiData w iHash, walIZero iHash) else Inl (rcMap iHash))"

definition walFramePgno :: "walIndex \<Rightarrow> nat \<Rightarrow> u32" where
  "walFramePgno w iFrame =
     (let iHash = walFramePage iFrame
      in if iHash = 0 then pgnos (apWiData w 0) ! (iFrame - 1)
         else pgnos (apWiData w iHash) ! ((iFrame - 1 - HASHTABLE_NPAGE_ONE) mod HASHTABLE_NPAGE))"

section \<open>Operations\<close>

text \<open>The entries of one table that belong to frames after \<open>iLimit\<close> are zeroed.\<close>

definition cleanupPage :: "wiPage \<Rightarrow> nat \<Rightarrow> wiPage" where
  "cleanupPage t iLimit =
     \<lparr> pgnos = take iLimit (pgnos t) @ replicate (length (pgnos t) - iLimit) 0,
       slots = map (\<lambda>x. if x > iLimit then 0 else x) (slots t) \<rparr>"

definition walCleanupHash :: "walIndex \<Rightarrow> walIndex" where
  "walCleanupHash w =
     (if mxFrame w = 0 then w
      else let h = walFramePage (mxFrame w)
           in w \<lparr> apWiData := (apWiData w)(h := cleanupPage (apWiData w h) (mxFrame w - walIZero h)) \<rparr>)"

text \<open>The probe for an unused slot, with the collision counter \<^verbatim>\<open>nCollide\<close>.\<close>

primrec walProbe :: "nat list \<Rightarrow> nat \<Rightarrow> nat \<Rightarrow> nat option" where
  "walProbe aHash 0 iKey = (if aHash ! iKey = 0 then Some iKey else None)"
| "walProbe aHash (Suc nCollide) iKey =
     (if aHash ! iKey = 0 then Some iKey else walProbe aHash nCollide (walNextHash iKey))"

text \<open>
  Before an entry is written: the first entry of a table zeroes the whole table, and an entry left
  behind by a writer that exited in the middle of a transaction makes the code remove its remnants.
\<close>

definition walAppendPrepare :: "walIndex \<Rightarrow> nat \<Rightarrow> nat \<Rightarrow> walIndex" where
  "walAppendPrepare w h idx =
     (let t = (if idx = 1
               then \<lparr> pgnos = replicate (length (pgnos (apWiData w h))) 0, slots = replicate HASHTABLE_NSLOT 0 \<rparr>
               else apWiData w h);
          w = w \<lparr> apWiData := (apWiData w)(h := t) \<rparr>
      in if pgnos t ! (idx - 1) \<noteq> 0 then walCleanupHash w else w)"

definition walIndexAppend :: "(nat \<Rightarrow> rcode) \<Rightarrow> walIndex \<Rightarrow> nat \<Rightarrow> u32 \<Rightarrow> rcode \<times> walIndex" where
  "walIndexAppend rcMap w iFrame iPage =
     (let h = walFramePage iFrame
      in case walHashGet rcMap w h of
           Inl rc \<Rightarrow> (rc, w)
         | Inr (_, iZero) \<Rightarrow>
             let idx = iFrame - iZero;
                 w = walAppendPrepare w h idx;
                 t = apWiData w h
             in case walProbe (slots t) idx (walHash iPage) of
                  None \<Rightarrow> (SQLITE_CORRUPT, w)
                | Some iKey \<Rightarrow>
                    (SQLITE_OK,
                     w \<lparr> apWiData := (apWiData w)(h := \<lparr> pgnos = (pgnos t)[idx - 1 := iPage],
                                                        slots = (slots t)[iKey := idx] \<rparr>) \<rparr>))"

text \<open>The search of one hash table, from slot \<open>iKey\<close> with the collision counter.\<close>

primrec walFindLoop :: "wiPage \<Rightarrow> nat \<Rightarrow> nat \<Rightarrow> u32 \<Rightarrow> nat \<Rightarrow> nat \<Rightarrow> nat \<Rightarrow> rcode + nat" where
  "walFindLoop t iZero iLast pgno 0 iKey iRead =
     (if slots t ! iKey = 0 then Inr iRead else Inl SQLITE_CORRUPT)"
| "walFindLoop t iZero iLast pgno (Suc nCollide) iKey iRead =
     (if slots t ! iKey = 0 then Inr iRead
      else
        let iFrame = slots t ! iKey + iZero
        in walFindLoop t iZero iLast pgno nCollide (walNextHash iKey)
             (if iFrame \<le> iLast \<and> pgnos t ! (slots t ! iKey - 1) = pgno then iFrame else iRead))"

text \<open>The loop over the hash tables, the newest first; the tables \<open>0, \<dots>, n - 1\<close> are left.\<close>

primrec walFindTables :: "(nat \<Rightarrow> rcode) \<Rightarrow> walIndex \<Rightarrow> nat \<Rightarrow> u32 \<Rightarrow> nat \<Rightarrow> nat \<Rightarrow> rcode + nat" where
  "walFindTables rcMap w iLast pgno 0 iRead = Inr iRead"
| "walFindTables rcMap w iLast pgno (Suc iHash) iRead =
     (if iRead = 0 then
        (case walHashGet rcMap w iHash of
           Inl rc \<Rightarrow> Inl rc
         | Inr (t, iZero) \<Rightarrow>
             (case walFindLoop t iZero iLast pgno HASHTABLE_NSLOT (walHash pgno) iRead of
                Inl rc \<Rightarrow> Inl rc
              | Inr r \<Rightarrow> walFindTables rcMap w iLast pgno iHash r))
      else Inr iRead)"

text \<open>\<open>noWal\<close> is the case \<^verbatim>\<open>readLock==0\<close>, in which the reader ignores the log.\<close>

definition sqlite3WalFindFrame :: "(nat \<Rightarrow> rcode) \<Rightarrow> walIndex \<Rightarrow> bool \<Rightarrow> u32 \<Rightarrow> rcode + nat" where
  "sqlite3WalFindFrame rcMap w noWal pgno =
     (let iLast = mxFrame w
      in if iLast = 0 \<or> noWal then Inr 0
         else walFindTables rcMap w iLast pgno (walFramePage iLast + 1) 0)"

section \<open>Frames and tables\<close>

lemmas wal_consts = HASHTABLE_NPAGE_def HASHTABLE_NSLOT_def WALINDEX_HDR_SIZE_def HASHTABLE_NPAGE_ONE_def

lemma walHash_less: "walHash p < HASHTABLE_NSLOT"
proof -
  have "(p * 383) AND 8191 \<le> (8191 :: u32)" by (rule word_and_le1)
  then have "unat ((p * 383) AND 8191) \<le> 8191" by (simp add: word_le_nat_alt)
  then show ?thesis by (simp add: walHash_def wal_consts)
qed

lemma walFramePage_iff:
  "1 \<le> f \<Longrightarrow> walFramePage f = h \<longleftrightarrow> walIZero h < f \<and> f \<le> walIZero h + walNEntry h"
  by (cases h) (auto simp: walFramePage_def walIZero_def walNEntry_def wal_consts)

section \<open>The invariant of a table\<close>

text \<open>
  \<open>tab_ok n gs t\<close>: the table has room for \<open>n\<close> frames and holds those of the list \<open>gs\<close> of page
  numbers; every slot passed on the way to an entry holds a smaller entry.
\<close>

definition wal_home :: "u32 list \<Rightarrow> nat \<Rightarrow> nat" where
  "wal_home gs i = walHash (gs ! (i - 1))"

interpretation wh: probing HASHTABLE_NSLOT "wal_home gs" "(<)" for gs
  by unfold_locales (simp add: wal_home_def walHash_less)

definition tab_ok :: "nat \<Rightarrow> u32 list \<Rightarrow> wiPage \<Rightarrow> bool" where
  "tab_ok n gs t \<longleftrightarrow> n \<le> HASHTABLE_NPAGE \<and> length gs \<le> n \<and> 0 \<notin> set gs
     \<and> pgnos t = gs @ replicate (n - length gs) 0
     \<and> probe_ok HASHTABLE_NSLOT (wal_home gs) (<) (slots t)
     \<and> set (slots t) - {0} = {1..length gs}"

lemma probe_okD:
  "probe_ok N home R a \<Longrightarrow> k < N \<Longrightarrow> a ! k \<noteq> 0 \<Longrightarrow>
   \<exists>d<N. slot N (home (a ! k)) d = k \<and>
     (\<forall>j<d. a ! slot N (home (a ! k)) j \<noteq> 0 \<and> R (a ! slot N (home (a ! k)) j) (a ! k))"
  unfolding probe_ok_def by blast

lemma probe_ok_cong:
  assumes "probe_ok N home R a" and "\<And>x. x \<in> set a \<Longrightarrow> x \<noteq> 0 \<Longrightarrow> home x = home' x"
  shows "probe_ok N home' R a"
  unfolding probe_ok_def
proof (intro conjI allI impI)
  show "length a = N" using assms(1) by (simp add: probe_ok_def)
  fix k
  assume k: "k < N" "a ! k \<noteq> 0"
  then have e: "home (a ! k) = home' (a ! k)" using assms(2) \<open>length a = N\<close> by (simp add: nth_mem)
  show "\<exists>d<N. slot N (home' (a ! k)) d = k \<and>
      (\<forall>j<d. a ! slot N (home' (a ! k)) j \<noteq> 0 \<and> R (a ! slot N (home' (a ! k)) j) (a ! k))"
    using probe_okD [OF assms(1) k] unfolding e .
qed

text \<open>Zeroing the entries above a limit keeps every smaller entry reachable.\<close>

lemma probe_ok_limit:
  assumes "probe_ok N home (<) a" and "0 < N"
  shows "probe_ok N home (<) (map (\<lambda>x. if x > L then 0 else x) a)"
  unfolding probe_ok_def
proof (intro conjI allI impI)
  let ?a = "map (\<lambda>x. if x > L then 0 else x) a"
  show "length ?a = N" using assms(1) by (simp add: probe_ok_def)
  fix k
  assume k: "k < N" "?a ! k \<noteq> 0"
  have len: "length a = N" using assms(1) by (simp add: probe_ok_def)
  then have ak: "?a ! k = a ! k" "a ! k \<noteq> 0" "a ! k \<le> L" using k by (auto split: if_splits)
  obtain d where d: "d < N" "slot N (home (a ! k)) d = k"
    "\<forall>j<d. a ! slot N (home (a ! k)) j \<noteq> 0 \<and> a ! slot N (home (a ! k)) j < a ! k"
    using probe_okD [OF assms(1) k(1) ak(2)] by blast
  have "?a ! slot N (home (a ! k)) j = a ! slot N (home (a ! k)) j" if "j < d" for j
    using d(3) that ak(3) len assms(2) by fastforce
  then show "\<exists>d<N. slot N (home (?a ! k)) d = k \<and>
      (\<forall>j<d. ?a ! slot N (home (?a ! k)) j \<noteq> 0 \<and> ?a ! slot N (home (?a ! k)) j < ?a ! k)"
    unfolding ak(1) using d by (intro exI [of _ d]) simp
qed

lemma wal_home_take: "i \<noteq> 0 \<Longrightarrow> i \<le> L \<Longrightarrow> wal_home (take L gs) i = wal_home gs i"
  by (simp add: wal_home_def)

lemma cleanupPage_ok:
  assumes ok: "tab_ok n gs t" and L: "L \<le> length gs"
  shows "tab_ok n (take L gs) (cleanupPage t L)"
proof -
  let ?s = "map (\<lambda>x. if x > L then 0 else x) (slots t)"
  have st: "set ?s - {0} = {1..L}"
  proof -
    have e: "set (slots t) - {0} = {1..length gs}" using ok by (simp add: tab_ok_def)
    have "set ?s - {0} = {x \<in> set (slots t) - {0}. x \<le> L}" by (auto simp: image_iff)
    also have "\<dots> = {1..L}" unfolding e using L by auto
    finally show ?thesis .
  qed
  have "probe_ok HASHTABLE_NSLOT (wal_home gs) (<) ?s"
    using ok by (intro probe_ok_limit) (auto simp: tab_ok_def wal_consts)
  then have "probe_ok HASHTABLE_NSLOT (wal_home (take L gs)) (<) ?s"
  proof (rule probe_ok_cong)
    fix x
    assume "x \<in> set ?s" and "x \<noteq> 0"
    then have "x \<in> {1..L}" using st by blast
    then show "wal_home gs x = wal_home (take L gs) x" by (auto simp: wal_home_def)
  qed
  moreover have "0 \<notin> set (take L gs)" using ok by (auto simp: tab_ok_def dest: in_set_takeD)
  moreover have "take L (pgnos t) @ replicate (length (pgnos t) - L) 0 = take L gs @ replicate (n - L) 0"
    using ok L by (simp add: tab_ok_def)
  ultimately show ?thesis
    using ok L st by (simp add: tab_ok_def cleanupPage_def)
qed

lemma tab_ok_empty: "n \<le> HASHTABLE_NPAGE \<Longrightarrow>
  tab_ok n [] \<lparr> pgnos = replicate n 0, slots = replicate HASHTABLE_NSLOT 0 \<rparr>"
  using wh.probe_ok_empty [of "[]"] by (auto simp: tab_ok_def wal_consts)

lemma walNextHash_Suc: "walNextHash k = Suc k mod HASHTABLE_NSLOT"
  by (simp add: walNextHash_def)

lemma walProbe_free_slot: "walProbe a n k = free_slot HASHTABLE_NSLOT (Suc n) a k"
  by (induction n arbitrary: k) (auto simp: walNextHash_Suc)

text \<open>A probe of length \<open>i + 1\<close> ends when at most \<open>i\<close> slots are used.\<close>

lemma free_slot_few:
  assumes "h < N" and "length a = N" and "card {k. k < N \<and> a ! k \<noteq> 0} < m" and "m \<le> N"
  shows "\<exists>d<m. a ! slot N h d = 0"
proof (rule ccontr)
  assume "\<not> ?thesis"
  then have nz: "\<forall>d<m. a ! slot N h d \<noteq> 0" by simp
  have "inj_on (slot N h) {..<m}"
  proof (rule inj_onI)
    fix x y
    assume "x \<in> {..<m}" "y \<in> {..<m}" "slot N h x = slot N h y"
    then show "x = y" using slot_inj [of x N y h] assms(4) by simp
  qed
  then have "card (slot N h ` {..<m}) = m" by (simp add: card_image)
  moreover have "slot N h ` {..<m} \<subseteq> {k. k < N \<and> a ! k \<noteq> 0}" using nz assms(1) by auto
  ultimately have "m \<le> card {k. k < N \<and> a ! k \<noteq> 0}" by (metis card_mono finite_Collect_conjI finite_Collect_less_nat)
  then show False using assms(3) by simp
qed

text \<open>Each entry occupies one slot, because the slots on the way to it hold smaller entries.\<close>

lemma probe_ok_unique:
  assumes "probe_ok N home (<) a" and "i < N" and "j < N" and "a ! i = a ! j" and "a ! i \<noteq> 0"
  shows "i = j"
proof -
  obtain d where d: "d < N" "slot N (home (a ! i)) d = i" "\<forall>k<d. a ! slot N (home (a ! i)) k < a ! i"
    using probe_okD [OF assms(1,2,5)] by blast
  have "a ! j \<noteq> 0" using assms(4,5) by simp
  then obtain e where e: "e < N" "slot N (home (a ! j)) e = j" "\<forall>k<e. a ! slot N (home (a ! j)) k < a ! j"
    using probe_okD [OF assms(1) assms(3)] by blast
  have "\<not> d < e"
  proof
    assume "d < e"
    then have "a ! slot N (home (a ! j)) d < a ! j" using e(3) by blast
    then show False using d(2) assms(4) by simp
  qed
  moreover have "\<not> e < d"
  proof
    assume "e < d"
    then have "a ! slot N (home (a ! i)) e < a ! i" using d(3) by blast
    then show False using e(2) assms(4) by simp
  qed
  ultimately have "d = e" by simp
  show ?thesis using d(2) e(2) unfolding \<open>d = e\<close> assms(4) by (rule trans [OF sym])
qed

lemma tab_ok_used:
  assumes "tab_ok n gs t"
  shows "card {k. k < HASHTABLE_NSLOT \<and> slots t ! k \<noteq> 0} = length gs"
proof -
  let ?K = "{k. k < HASHTABLE_NSLOT \<and> slots t ! k \<noteq> 0}"
  have len: "length (slots t) = HASHTABLE_NSLOT" and po: "probe_ok HASHTABLE_NSLOT (wal_home gs) (<) (slots t)"
    using assms by (auto simp: tab_ok_def probe_ok_def)
  have "inj_on ((!) (slots t)) ?K" using probe_ok_unique [OF po] by (auto simp: inj_on_def)
  moreover have "(!) (slots t) ` ?K = set (slots t) - {0}" using len by (auto simp: in_set_conv_nth image_iff)
  moreover have "set (slots t) - {0} = {1..length gs}" using assms by (simp add: tab_ok_def)
  ultimately have "card ?K = card {1..length gs}" by (metis card_image)
  then show ?thesis by simp
qed

lemma append_table_ok:
  assumes ok: "tab_ok n gs t" and len: "length gs < n" and p: "p \<noteq> 0" and idx: "idx = Suc (length gs)"
  shows "\<exists>k. walProbe (slots t) idx (walHash p) = Some k
           \<and> tab_ok n (gs @ [p]) \<lparr> pgnos = (pgnos t)[idx - 1 := p], slots = (slots t)[k := idx] \<rparr>"
proof -
  let ?N = HASHTABLE_NSLOT and ?gs = "gs @ [p]"
  have st: "set (slots t) - {0} = {1..length gs}" and sl: "length (slots t) = ?N" and n: "n \<le> HASHTABLE_NPAGE"
    using ok by (auto simp: tab_ok_def probe_ok_def)
  have hm: "wal_home ?gs idx = walHash p" by (simp add: wal_home_def idx)
  have "\<exists>d<Suc idx. slots t ! slot ?N (walHash p) d = 0"
    by (rule free_slot_few [OF walHash_less sl]) (use tab_ok_used [OF ok] idx len n in \<open>auto simp: wal_consts\<close>)
  then obtain k where k: "free_slot ?N (Suc idx) (slots t) (walHash p) = Some k"
    using free_slot_exists [OF walHash_less] by blast
  have k2: "free_slot ?N ?N (slots t) (walHash p) = Some k"
  proof -
    have mono: "free_slot ?N f a h = Some k \<Longrightarrow> f \<le> g \<Longrightarrow> free_slot ?N g a h = Some k" for f g a h
    proof (induction f arbitrary: g h)
      case (Suc f)
      then show ?case by (cases g) (auto split: if_splits)
    qed simp
    show ?thesis by (rule mono [OF k]) (use idx len n in \<open>auto simp: wal_consts\<close>)
  qed
  have po: "probe_ok ?N (wal_home ?gs) (<) (slots t)"
  proof (rule probe_ok_cong)
    show "probe_ok ?N (wal_home gs) (<) (slots t)" using ok by (simp add: tab_ok_def)
    fix x
    assume "x \<in> set (slots t)" "x \<noteq> 0"
    then have "x \<in> {1..length gs}" using st by blast
    then show "wal_home gs x = wal_home ?gs x" by (auto simp: wal_home_def nth_append)
  qed
  have kN: "k < ?N" "slots t ! k = 0"
    using free_slot_Some [OF walHash_less k2] wh.N_pos by auto
  have "probe_ok ?N (wal_home ?gs) (<) ((slots t)[k := idx])"
  proof (rule wh.probe_ok_store [OF po])
    show "free_slot ?N ?N (slots t) (wal_home ?gs idx) = Some k" using k2 hm by simp
    show "idx \<noteq> 0" by (simp add: idx)
    fix x
    assume "x \<in> set (slots t)" "x \<noteq> 0"
    then have "x \<in> {1..length gs}" using st by blast
    then show "x < idx" using idx by simp
  qed
  moreover have "set ((slots t)[k := idx]) - {0} = {1..length ?gs}"
  proof -
    have "x \<in> set ((slots t)[k := idx]) \<and> x \<noteq> 0 \<longleftrightarrow> x = idx \<or> x \<in> set (slots t) - {0}" for x
    proof
      assume "x \<in> set ((slots t)[k := idx]) \<and> x \<noteq> 0"
      then show "x = idx \<or> x \<in> set (slots t) - {0}" using set_update_subset_insert [of "slots t" k idx] by auto
    next
      assume x: "x = idx \<or> x \<in> set (slots t) - {0}"
      then show "x \<in> set ((slots t)[k := idx]) \<and> x \<noteq> 0"
      proof
        assume "x = idx"
        then show ?thesis using kN(1) sl idx by (simp add: set_update_memI)
      next
        assume "x \<in> set (slots t) - {0}"
        then obtain i where i: "i < ?N" "slots t ! i = x" "x \<noteq> 0" using sl by (auto simp: in_set_conv_nth)
        then have "i \<noteq> k" using kN(2) by auto
        then have "(slots t)[k := idx] ! i = x" using i by simp
        then show ?thesis using i sl by (metis length_list_update nth_mem)
      qed
    qed
    then have "set ((slots t)[k := idx]) - {0} = insert idx {1..length gs}" using st by (auto simp: set_eq_iff)
    also have "\<dots> = {1..length ?gs}" using idx by auto
    finally show ?thesis .
  qed
  moreover have "(pgnos t)[idx - 1 := p] = ?gs @ replicate (n - length ?gs) 0"
  proof -
    have "replicate (n - length gs) 0 = 0 # replicate (n - Suc (length gs)) (0 :: u32)"
      using len by (metis Suc_diff_Suc replicate_Suc)
    then show ?thesis using ok idx by (simp add: tab_ok_def list_update_append)
  qed
  ultimately have "tab_ok n ?gs \<lparr> pgnos = (pgnos t)[idx - 1 := p], slots = (slots t)[k := idx] \<rparr>"
    using ok len p by (simp add: tab_ok_def)
  then show ?thesis using k by (auto simp: walProbe_free_slot)
qed

section \<open>Searching one table\<close>

lemma foldl_overwrite:
  "foldl (\<lambda>r x. if P x then f x else r) r xs = (if filter P xs = [] then r else f (last (filter P xs)))"
  by (induction xs rule: rev_induct) auto

lemma sorted_matches:
  assumes "\<And>i j. i < j \<Longrightarrow> j < length xs \<Longrightarrow> P (xs ! j) \<Longrightarrow> xs ! i < (xs ! j :: nat)"
  shows "sorted_wrt (<) (filter P xs)"
  using assms
proof (induction xs rule: rev_induct)
  case (snoc x xs)
  have "sorted_wrt (<) (filter P xs)"
  proof (rule snoc.IH)
    fix i j
    assume "i < j" "j < length xs" "P (xs ! j)"
    then show "xs ! i < xs ! j" using snoc.prems [of i j] by (simp add: nth_append)
  qed
  moreover have "y < x" if y: "y \<in> set xs" and x: "P x" for y
  proof -
    obtain i where "i < length xs" "xs ! i = y" using y by (auto simp: in_set_conv_nth)
    then show ?thesis using snoc.prems [of i "length xs"] x by (simp add: nth_append)
  qed
  ultimately show ?case by (auto simp: sorted_wrt_append)
qed simp

lemma last_sorted_Max:
  "sorted_wrt (<) xs \<Longrightarrow> (if xs = [] then 0 else last xs) = Max (insert 0 (set xs :: nat set))"
proof (induction xs rule: rev_induct)
  case (snoc x xs)
  have "Max (insert 0 (set (xs @ [x]))) = x"
    by (rule Max_eqI) (use snoc.prems in \<open>auto simp: sorted_wrt_append\<close>)
  then show ?case by simp
qed simp

lemma walFindLoop_scan:
  assumes "free_slot HASHTABLE_NSLOT (Suc c) (slots t) k = Some e"
  shows "walFindLoop t iZero iLast p c k r =
    Inr (foldl (\<lambda>r i. if i + iZero \<le> iLast \<and> pgnos t ! (i - 1) = p then i + iZero else r) r
          (scan HASHTABLE_NSLOT (Suc c) (slots t) k))"
  using assms
proof (induction c arbitrary: k r)
  case 0
  then show ?case by (simp split: if_splits)
next
  case (Suc c)
  show ?case
  proof (cases "slots t ! k = 0")
    case False
    then have "free_slot HASHTABLE_NSLOT (Suc c) (slots t) (walNextHash k) = Some e"
      using Suc.prems unfolding walNextHash_Suc by simp
    from Suc.IH [OF this] False show ?thesis by (simp add: Let_def walNextHash_Suc)
  qed simp
qed

lemma scan_Suc_subset: "set (scan N f a h) \<subseteq> set (scan N (Suc f) a h)"
proof (induction f arbitrary: h)
  case (Suc f)
  show ?case using Suc.IH [of "Suc h mod N"] by (auto split: if_splits)
qed simp

lemma tab_ok_free:
  assumes "tab_ok n gs t"
  shows "\<exists>e. free_slot HASHTABLE_NSLOT (Suc HASHTABLE_NSLOT) (slots t) h = Some e \<or> \<not> h < HASHTABLE_NSLOT"
proof (cases "h < HASHTABLE_NSLOT")
  case True
  have "\<exists>d<HASHTABLE_NSLOT. slots t ! slot HASHTABLE_NSLOT h d = 0"
    using True assms tab_ok_used [OF assms]
    by (intro free_slot_few) (auto simp: tab_ok_def probe_ok_def wal_consts)
  then show ?thesis using free_slot_exists [OF True] less_Suc_eq by blast
qed simp

lemma scan_increasing:
  assumes ok: "tab_ok n gs t" and ij: "i < j" "j < length (scan HASHTABLE_NSLOT f (slots t) (walHash p))"
    and p: "gs ! (scan HASHTABLE_NSLOT f (slots t) (walHash p) ! j - 1) = p"
  shows "scan HASHTABLE_NSLOT f (slots t) (walHash p) ! i < scan HASHTABLE_NSLOT f (slots t) (walHash p) ! j"
proof -
  let ?N = HASHTABLE_NSLOT and ?a = "slots t"
  let ?S = "scan ?N f ?a (walHash p)"
  have po: "probe_ok ?N (wal_home gs) (<) ?a" using ok by (simp add: tab_ok_def)
  have nth: "?S ! d = ?a ! slot ?N (walHash p) d \<and> ?a ! slot ?N (walHash p) d \<noteq> 0" if "d < length ?S" for d
    using scan_nth [OF walHash_less that] by blast
  have home: "wal_home gs (?S ! j) = walHash p" using p by (simp add: wal_home_def)
  have "slot ?N (walHash p) j < ?N" by (simp add: wal_consts)
  then obtain d where d: "d < ?N" "slot ?N (walHash p) d = slot ?N (walHash p) j"
    "\<forall>k<d. ?a ! slot ?N (walHash p) k < ?S ! j"
    using probe_okD [OF po, of "slot ?N (walHash p) j"] nth [OF ij(2)] home by metis
  have jN: "j \<le> d"
  proof (rule ccontr)
    assume "\<not> j \<le> d"
    text \<open>The slot of \<open>d\<close> is passed before \<open>j\<close> and would hold the same entry.\<close>
    then have "d < j" by simp
    have "\<exists>e<?N. ?a ! slot ?N (walHash p) e = 0" 
      using tab_ok_used [OF ok] ok walHash_less
      by (intro free_slot_few) (auto simp: tab_ok_def probe_ok_def wal_consts)
    then obtain e where e: "e < ?N" "?a ! slot ?N (walHash p) e = 0" by blast
    have "\<not> e \<le> j" using scan_nth [OF walHash_less ij(2)] e(2) by auto
    then have "j < ?N" using e(1) by simp
    then show False using slot_inj [OF d(1) _ d(2)] \<open>d < j\<close> by simp
  qed
  then show ?thesis using d(3) ij nth [of i] by simp
qed

definition lastMatch :: "u32 list \<Rightarrow> nat \<Rightarrow> u32 \<Rightarrow> nat" where
  "lastMatch gs m p = Max (insert 0 {i \<in> {1..length gs}. i \<le> m \<and> gs ! (i - 1) = p})"

lemma walFindLoop_correct:
  assumes ok: "tab_ok n gs t" and L: "iZero \<le> iLast"
  shows "walFindLoop t iZero iLast p HASHTABLE_NSLOT (walHash p) 0 =
    Inr (let m = lastMatch gs (iLast - iZero) p in if m = 0 then 0 else m + iZero)"
proof -
  let ?N = HASHTABLE_NSLOT and ?a = "slots t"
  let ?S = "scan ?N (Suc ?N) ?a (walHash p)"
  let ?P = "\<lambda>i. i + iZero \<le> iLast \<and> pgnos t ! (i - 1) = p"
  obtain e where e: "free_slot ?N (Suc ?N) ?a (walHash p) = Some e"
    using tab_ok_free [OF ok, of "walHash p"] walHash_less by auto
  have st: "set ?a - {0} = {1..length gs}" and po: "probe_ok ?N (wal_home gs) (<) ?a"
    using ok by (auto simp: tab_ok_def)
  have sS: "set ?S \<subseteq> {1..length gs}"
  proof
    fix x
    assume "x \<in> set ?S"
    moreover have "length ?a = ?N" using po by (simp add: probe_ok_def)
    ultimately have "x \<noteq> 0 \<and> (\<exists>k<?N. ?a ! k = x)" using wh.scan_sound walHash_less by blast
    then obtain k where "x \<noteq> 0" "k < length ?a" "?a ! k = x" using \<open>length ?a = ?N\<close> by auto
    then have "x \<in> set ?a - {0}" using nth_mem [of k ?a] by simp
    then show "x \<in> {1..length gs}" using st by simp
  qed
  have pg: "pgnos t ! (i - 1) = gs ! (i - 1)" if "i \<in> {1..length gs}" for i
  proof -
    have "pgnos t = gs @ replicate (n - length gs) 0" using ok by (simp add: tab_ok_def)
    then show ?thesis using that by (auto simp: nth_append)
  qed
  have mem: "i \<in> set ?S" if i: "i \<in> {1..length gs}" "gs ! (i - 1) = p" for i
  proof -
    have "i \<in> set ?a - {0}" using i(1) unfolding st .
    then have "i \<in> set ?a" "i \<noteq> 0" by simp_all
    then have "i \<in> set (scan ?N ?N ?a (walHash p))"
      using wh.scan_iff [OF po] i(2) by (auto simp: wal_home_def)
    then show ?thesis using scan_Suc_subset by blast
  qed
  have "sorted_wrt (<) (filter ?P ?S)"
  proof (rule sorted_matches)
    fix i j
    assume ij: "i < j" "j < length ?S" "?P (?S ! j)"
    then have "gs ! (?S ! j - 1) = p" using pg sS nth_mem by (metis subsetD)
    then show "?S ! i < ?S ! j" using scan_increasing [OF ok ij(1,2)] by simp
  qed
  moreover have "set (filter ?P ?S) = {i \<in> {1..length gs}. i \<le> iLast - iZero \<and> gs ! (i - 1) = p}"
  proof (rule set_eqI)
    fix i
    have "i \<in> set (filter ?P ?S) \<longleftrightarrow> i \<in> set ?S \<and> i + iZero \<le> iLast \<and> pgnos t ! (i - 1) = p"
      by (simp only: set_filter mem_Collect_eq)
    also have "\<dots> \<longleftrightarrow> i \<in> {1..length gs} \<and> i + iZero \<le> iLast \<and> gs ! (i - 1) = p"
      using subsetD [OF sS, of i] pg [of i] mem [of i] by metis
    also have "\<dots> \<longleftrightarrow> i \<in> {i \<in> {1..length gs}. i \<le> iLast - iZero \<and> gs ! (i - 1) = p}"
      using L by auto
    finally show "i \<in> set (filter ?P ?S) \<longleftrightarrow> i \<in> {i \<in> {1..length gs}. i \<le> iLast - iZero \<and> gs ! (i - 1) = p}" .
  qed
  ultimately have "(if filter ?P ?S = [] then 0 else last (filter ?P ?S)) = lastMatch gs (iLast - iZero) p"
    using last_sorted_Max [of "filter ?P ?S"] unfolding lastMatch_def by simp
  moreover have "last (filter ?P ?S) \<noteq> 0" if "filter ?P ?S \<noteq> []"
    using last_in_set [OF that] sS by auto
  ultimately have "(if filter ?P ?S = [] then 0 else last (filter ?P ?S) + iZero) =
      (let m = lastMatch gs (iLast - iZero) p in if m = 0 then 0 else m + iZero)"
    by (auto simp: Let_def split: if_splits)
  then show ?thesis using walFindLoop_scan [OF e] by (simp only: foldl_overwrite)
qed

section \<open>The whole index\<close>

text \<open>The frames of table \<open>h\<close> in a log with the page numbers \<open>fs\<close>.\<close>

definition walSegment :: "u32 list \<Rightarrow> nat \<Rightarrow> u32 list" where
  "walSegment fs h = take (walNEntry h) (drop (walIZero h) fs)"

text \<open>
  The index describes the log \<open>fs\<close>: every table that has a frame of the log is right, every page has
  its physical size. Tables beyond the end of the log may hold anything.
\<close>

definition wal_ok :: "walIndex \<Rightarrow> u32 list \<Rightarrow> bool" where
  "wal_ok w fs \<longleftrightarrow> (\<forall>h. length (pgnos (apWiData w h)) = walNEntry h) \<and>
     (\<forall>h. walIZero h < length fs \<longrightarrow> tab_ok (walNEntry h) (walSegment fs h) (apWiData w h))"

definition lastFrame :: "u32 list \<Rightarrow> u32 \<Rightarrow> nat" where
  "lastFrame fs p = Max (insert 0 {f \<in> {1..length fs}. fs ! (f - 1) = p})"

lemma walIZero_Suc: "walIZero (Suc h) = walIZero h + walNEntry h"
  by (cases h) (simp_all add: walIZero_def walNEntry_def wal_consts)

lemma walIZero_mono: "h \<le> k \<Longrightarrow> walIZero h \<le> walIZero k"
  by (auto simp: walIZero_def wal_consts)

lemma walNEntry_le: "0 < walNEntry h" "walNEntry h \<le> HASHTABLE_NPAGE"
  by (simp_all add: walNEntry_def wal_consts)

lemma walIZero_framePage: "1 \<le> f \<Longrightarrow> walIZero (walFramePage f) < f \<and> f \<le> walIZero (Suc (walFramePage f))"
  using walFramePage_iff [of f "walFramePage f"] by (simp add: walIZero_Suc)

lemma walFramePgno_correct:
  assumes ok: "wal_ok w fs" and f: "1 \<le> f" "f \<le> length fs"
  shows "walFramePgno w f = fs ! (f - 1)"
proof -
  define h where "h = walFramePage f"
  have h: "walIZero h < f" "f \<le> walIZero h + walNEntry h"
    using walFramePage_iff [OF f(1)] h_def by blast+
  have i: "f - 1 - walIZero h < length (walSegment fs h)" using h f by (auto simp: walSegment_def)
  have "pgnos (apWiData w h) ! (f - 1 - walIZero h) = walSegment fs h ! (f - 1 - walIZero h)"
    using ok h f i by (simp add: wal_ok_def tab_ok_def nth_append)
  also have "\<dots> = fs ! (f - 1)" using h f by (simp add: walSegment_def)
  finally have e: "pgnos (apWiData w h) ! (f - 1 - walIZero h) = fs ! (f - 1)" .
  show ?thesis
  proof (cases h)
    case 0
    then show ?thesis using e by (simp add: walFramePgno_def flip: h_def) (simp add: walIZero_def)
  next
    case (Suc k)
    have "(f - 1 - HASHTABLE_NPAGE_ONE) mod HASHTABLE_NPAGE = f - 1 - walIZero h"
    proof -
      have "f - 1 - HASHTABLE_NPAGE_ONE = (f - 1 - walIZero h) + k * HASHTABLE_NPAGE"
        using h(1) Suc by (simp add: walIZero_def)
      moreover have "f - 1 - walIZero h < HASHTABLE_NPAGE" using h walNEntry_le(2) [of h] by linarith
      ultimately show ?thesis by simp
    qed
    then show ?thesis using e Suc by (simp add: walFramePgno_def flip: h_def)
  qed
qed

text \<open>The last frame of a page lies in the newest table that holds the page.\<close>

lemma lastFrame_table:
  assumes m: "walIZero h \<le> m" "m \<le> length fs" "m \<le> walIZero (Suc h)"
  shows "lastFrame (take m fs) p =
    (let l = lastMatch (walSegment fs h) (m - walIZero h) p
     in if l = 0 then lastFrame (take (walIZero h) fs) p else l + walIZero h)"
proof -
  let ?z = "walIZero h"
  let ?A = "{f \<in> {1..?z}. fs ! (f - 1) = p}" and ?B = "{i \<in> {1..m - ?z}. fs ! (?z + i - 1) = p}"
  have seg: "walSegment fs h ! (i - 1) = fs ! (?z + i - 1)" if "1 \<le> i" "i \<le> m - ?z" for i
    using that m by (simp add: walSegment_def walIZero_Suc)
  have len: "m - ?z \<le> length (walSegment fs h)" using m by (auto simp: walSegment_def walIZero_Suc)
  have B: "{i \<in> {1..length (walSegment fs h)}. i \<le> m - ?z \<and> walSegment fs h ! (i - 1) = p} = ?B"
    using seg len by auto
  have split: "{f \<in> {1..length (take m fs)}. take m fs ! (f - 1) = p} = ?A \<union> (\<lambda>i. i + ?z) ` ?B"
  proof (intro set_eqI iffI)
    fix f
    assume f: "f \<in> {f \<in> {1..length (take m fs)}. take m fs ! (f - 1) = p}"
    show "f \<in> ?A \<union> (\<lambda>i. i + ?z) ` ?B"
    proof (cases "f \<le> ?z")
      case False
      then have "f - ?z \<in> ?B" using f m by auto
      then show ?thesis using False by (auto intro!: image_eqI [of _ _ "f - ?z"])
    qed (use f m in auto)
  next
    fix f
    assume "f \<in> ?A \<union> (\<lambda>i. i + ?z) ` ?B"
    then show "f \<in> {f \<in> {1..length (take m fs)}. take m fs ! (f - 1) = p}"
      using m by (auto simp: add.commute)
  qed
  have fin: "finite ?A" "finite ?B" by auto
  have z: "{f \<in> {1..length (take ?z fs)}. take ?z fs ! (f - 1) = p} = ?A" using m by auto
  have lm: "lastMatch (walSegment fs h) (m - ?z) p = Max (insert 0 ?B)"
    unfolding lastMatch_def B ..
  show ?thesis
  proof (cases "?B = {}")
    case True
    then show ?thesis unfolding lm Let_def unfolding lastFrame_def split z by (simp only: True) simp
  next
    case False
    then have M: "Max ?B \<in> ?B" using fin by (intro Max_in)
    then have pos: "Max (insert 0 ?B) = Max ?B" "Max ?B \<noteq> 0" using fin False by auto
    have "Max (insert 0 (?A \<union> (\<lambda>i. i + ?z) ` ?B)) = Max ?B + ?z"
    proof (rule Max_eqI)
      fix y
      assume "y \<in> insert 0 (?A \<union> (\<lambda>i. i + ?z) ` ?B)"
      then consider "y \<le> ?z" | i where "i \<in> ?B" "y = i + ?z" by auto
      then show "y \<le> Max ?B + ?z"
      proof cases
        case 2
        then show ?thesis using Max_ge [OF fin(2)] by simp
      qed simp
    qed (use M fin in auto)
    then show ?thesis unfolding lm Let_def unfolding lastFrame_def split z using pos by simp
  qed
qed

lemma walFindTables_correct:
  assumes ok: "wal_ok w fs" and rc: "\<forall>h. rcMap h = SQLITE_OK" and m: "m \<le> length fs"
    and h: "n \<le> Suc (walFramePage m)" "1 \<le> m"
  shows "walFindTables rcMap w m p n 0 = Inr (lastFrame (take (min m (walIZero n)) fs) p)"
  using h
proof (induction n)
  case 0
  then show ?case by (simp add: walIZero_def lastFrame_def)
next
  case (Suc h)
  have hm: "walIZero h < m"
    using walIZero_framePage [OF Suc.prems(2)] walIZero_mono [of h "walFramePage m"] Suc.prems(1) by simp
  let ?m = "min m (walIZero (Suc h))"
  have tab: "tab_ok (walNEntry h) (walSegment fs h) (apWiData w h)" using ok hm m by (simp add: wal_ok_def)
  let ?l = "lastMatch (walSegment fs h) (m - walIZero h) p"
  have l: "?l = lastMatch (walSegment fs h) (?m - walIZero h) p"
    unfolding lastMatch_def by (rule arg_cong [of _ _ "\<lambda>X. Max (insert 0 X)"])
      (auto simp: walSegment_def walIZero_Suc)
  have IH: "walFindTables rcMap w m p h 0 = Inr (lastFrame (take (walIZero h) fs) p)"
    using Suc hm by (simp add: min_def)
  have "walFindTables rcMap w m p (Suc h) 0 =
      Inr (let l = ?l in if l = 0 then lastFrame (take (walIZero h) fs) p else l + walIZero h)"
  proof (cases "?l = 0")
    case True
    then show ?thesis
      using walFindLoop_correct [OF tab less_imp_le [OF hm]] rc IH by (simp add: walHashGet_def Let_def)
  next
    case False
    have "walFindTables rcMap w m p h (?l + walIZero h) = Inr (?l + walIZero h)"
      using False by (cases h) simp_all
    then show ?thesis
      using walFindLoop_correct [OF tab less_imp_le [OF hm]] rc False by (simp add: walHashGet_def Let_def)
  qed
  also have "\<dots> = Inr (lastFrame (take ?m fs) p)"
    using lastFrame_table [of h ?m fs p] hm m l by (simp add: walIZero_Suc)
  finally show ?case .
qed

lemma lastFrame_Nil [simp]: "lastFrame [] p = 0"
  by (simp add: lastFrame_def)

lemma sqlite3WalFindFrame_lemma:
  assumes "wal_ok w fs" and "\<forall>h. rcMap h = SQLITE_OK" and "mxFrame w \<le> length fs"
  shows "sqlite3WalFindFrame rcMap w noWal p =
    Inr (if noWal then 0 else lastFrame (take (mxFrame w) fs) p)"
proof (cases "mxFrame w = 0 \<or> noWal")
  case True
  then show ?thesis by (auto simp: sqlite3WalFindFrame_def)
next
  case False
  then have "1 \<le> mxFrame w" by simp
  then show ?thesis
    using walFindTables_correct [OF assms(1,2,3), of "Suc (walFramePage (mxFrame w))" p]
      walIZero_framePage [of "mxFrame w"] False
    by (simp add: sqlite3WalFindFrame_def Let_def min_def)
qed

section \<open>Appending and undoing\<close>

lemma walSegment_prefix: "walIZero h < n \<Longrightarrow> n \<le> walIZero (Suc h) \<Longrightarrow> n \<le> length fs \<Longrightarrow>
    walSegment (take n fs) h = take (n - walIZero h) (walSegment fs h)"
  by (simp add: walSegment_def walIZero_Suc drop_take min_def)

lemma walSegment_same: "walIZero (Suc h) \<le> length fs \<Longrightarrow> walSegment (fs @ gs) h = walSegment fs h"
  by (simp add: walSegment_def walIZero_Suc)

lemma walSegment_full: "walIZero (Suc h) \<le> n \<Longrightarrow> walSegment (take n fs) h = walSegment fs h"
  by (simp add: walSegment_def walIZero_Suc drop_take min_def)

lemma cleanupPage_length: "L \<le> length (pgnos t) \<Longrightarrow> length (pgnos (cleanupPage t L)) = length (pgnos t)"
  by (simp add: cleanupPage_def)

text \<open>Tables are numbered by the frames they hold.\<close>

lemma walIZero_other: "walIZero h < n \<Longrightarrow> 1 \<le> n \<Longrightarrow> h \<noteq> walFramePage n \<Longrightarrow> walIZero (Suc h) \<le> n - 1 \<and> h < walFramePage n"
  using walFramePage_iff [of n h] walIZero_framePage [of n] walIZero_mono [of "Suc (walFramePage n)" h]
  by (cases "h < walFramePage n") (auto simp: walIZero_Suc)

lemma walCleanupHash_ok:
  assumes ok: "wal_ok w fs" and m: "mxFrame w \<le> length fs"
  shows "wal_ok (walCleanupHash w) (take (mxFrame w) fs)" "mxFrame (walCleanupHash w) = mxFrame w"
proof -
  let ?n = "mxFrame w"
  let ?h = "walFramePage ?n"
  show "mxFrame (walCleanupHash w) = ?n" by (simp add: walCleanupHash_def Let_def)
  show "wal_ok (walCleanupHash w) (take ?n fs)"
  proof (cases "?n = 0")
    case True
    then show ?thesis using ok by (simp add: wal_ok_def walCleanupHash_def)
  next
    case False
    then have n1: "1 \<le> ?n" by simp
    note z = walIZero_framePage [OF n1]
    have L: "?n - walIZero ?h \<le> walNEntry ?h" using z by (auto simp: walIZero_Suc)
    have tab: "tab_ok (walNEntry h) (walSegment (take ?n fs) h) (apWiData (walCleanupHash w) h)"
      if h: "walIZero h < ?n" for h
    proof (cases "h = ?h")
      case True
      have "tab_ok (walNEntry ?h) (walSegment fs ?h) (apWiData w ?h)" using ok z m by (simp add: wal_ok_def)
      then have "tab_ok (walNEntry ?h) (take (?n - walIZero ?h) (walSegment fs ?h)) (cleanupPage (apWiData w ?h) (?n - walIZero ?h))"
        by (rule cleanupPage_ok) (use L m in \<open>simp add: walSegment_def\<close>)
      then show ?thesis using True False z m by (simp add: walCleanupHash_def Let_def walSegment_prefix)
    next
      case other: False
      then have "walIZero (Suc h) \<le> ?n" using walIZero_other [OF h n1 other] by linarith
      then show ?thesis using ok h m other by (simp add: wal_ok_def walCleanupHash_def Let_def walSegment_full)
    qed
    then show ?thesis using ok L cleanupPage_length by (simp add: wal_ok_def walCleanupHash_def Let_def)
  qed
qed

lemma appended_ok:
  assumes len: "\<forall>k. length (pgnos (apWiData w k)) = walNEntry k"
    and low: "\<forall>k. walIZero k < length fs \<and> k \<noteq> walFramePage (Suc (length fs)) \<longrightarrow>
        tab_ok (walNEntry k) (walSegment fs k) (apWiData w k)"
    and tab: "tab_ok (walNEntry (walFramePage (Suc (length fs)))) (walSegment (fs @ [p]) (walFramePage (Suc (length fs)))) t"
  shows "wal_ok (w \<lparr> apWiData := (apWiData w)(walFramePage (Suc (length fs)) := t) \<rparr>) (fs @ [p])"
proof -
  let ?h = "walFramePage (Suc (length fs))"
  have "length (pgnos t) = walNEntry ?h" using tab by (simp add: tab_ok_def)
  moreover have "tab_ok (walNEntry k) (walSegment (fs @ [p]) k) (apWiData w k)"
    if k: "walIZero k < Suc (length fs)" "k \<noteq> ?h" for k
  proof -
    have z: "walIZero (Suc k) \<le> length fs" using walIZero_other [OF k(1) _ k(2)] by simp
    moreover have "walIZero k < walIZero (Suc k)" using walNEntry_le(1) [of k] by (simp add: walIZero_Suc)
    ultimately show ?thesis using low k(2) by (simp add: walSegment_same)
  qed
  ultimately show ?thesis using len tab by (auto simp: wal_ok_def)
qed

lemma walIndexAppend_lemma:
  assumes ok: "wal_ok w (fs @ gs)" and m: "mxFrame w \<le> length fs" and stale: "gs = [] \<or> mxFrame w = length fs"
    and p: "p \<noteq> 0" and rc: "\<forall>h. rcMap h = SQLITE_OK" and f: "f = Suc (length fs)"
  shows "\<exists>w'. walIndexAppend rcMap w f p = (SQLITE_OK, w') \<and> wal_ok w' (fs @ [p]) \<and> mxFrame w' = mxFrame w"
proof -
  define h where "h = walFramePage f"
  let ?z = "walIZero h" and ?n = "walNEntry h" and ?idx = "f - walIZero h"
  have h: "?z \<le> length fs" "f \<le> ?z + ?n" "h = walFramePage (Suc (length fs))"
    using walFramePage_iff [of f h] f h_def by auto
  have len: "\<forall>k. length (pgnos (apWiData w k)) = walNEntry k" using ok by (simp add: wal_ok_def)
  define t where "t = (if ?idx = 1 then \<lparr> pgnos = replicate (length (pgnos (apWiData w h))) 0, slots = replicate HASHTABLE_NSLOT 0 \<rparr>
                      else apWiData w h)"
  define w1 where "w1 = w \<lparr> apWiData := (apWiData w)(h := t) \<rparr>"
  define w2 where "w2 = (if pgnos t ! (?idx - 1) \<noteq> 0 then walCleanupHash w1 else w1)"
  have seg: "walSegment (fs @ [p]) h = walSegment fs h @ [p]" "length (walSegment fs h) = length fs - ?z"
    using h f by (auto simp: walSegment_def)
  have w2: "mxFrame w2 = mxFrame w \<and> (\<forall>k. length (pgnos (apWiData w2 k)) = walNEntry k) \<and>
      tab_ok ?n (walSegment fs h) (apWiData w2 h) \<and>
      (\<forall>k. walIZero k < length fs \<and> k \<noteq> h \<longrightarrow> tab_ok (walNEntry k) (walSegment fs k) (apWiData w2 k))"
  proof (cases "?idx = 1")
    case True
    then have "t = \<lparr> pgnos = replicate ?n 0, slots = replicate HASHTABLE_NSLOT 0 \<rparr>" using len by (simp add: t_def)
    moreover have "pgnos t ! (?idx - 1) = 0" using calculation True walNEntry_le(1) [of h] by simp
    moreover have "walSegment fs h = []" using True f by (simp add: walSegment_def)
    moreover have "tab_ok (walNEntry k) (walSegment fs k) (apWiData w k)" if "walIZero k < length fs" "k \<noteq> h" for k
    proof -
      have e: "walSegment (fs @ gs) k = walSegment fs k"
        using walIZero_other [of k "Suc (length fs)"] that h(3) by (simp add: walSegment_same)
      have "walIZero k < length (fs @ gs)" using that by simp
      then have "tab_ok (walNEntry k) (walSegment (fs @ gs) k) (apWiData w k)" using ok unfolding wal_ok_def by blast
      then show ?thesis unfolding e .
    qed
    ultimately show ?thesis
      using ok tab_ok_empty [OF walNEntry_le(2)] by (auto simp: w2_def w1_def wal_ok_def)
  next
    case False
    then have zl: "?z < length fs" using h f by simp
    have w1: "w1 = w" using False by (simp add: w1_def t_def)
    have t: "t = apWiData w h" using False by (simp add: t_def)
    have tab: "tab_ok ?n (walSegment (fs @ gs) h) t" using ok zl t by (simp add: wal_ok_def)
    have w2': "wal_ok w2 fs \<and> mxFrame w2 = mxFrame w"
    proof (cases gs)
      case Nil
      have "pgnos t ! (?idx - 1) = 0"
        using tab Nil f seg(2) h by (auto simp: tab_ok_def nth_append)
      then show ?thesis using ok Nil w1 by (simp add: w2_def)
    next
      case (Cons g gs')
      have i: "?idx - 1 < length (walSegment (fs @ gs) h)" "walSegment (fs @ gs) h ! (?idx - 1) = g"
        using h f zl Cons by (auto simp: walSegment_def nth_append)
      moreover have "0 \<notin> set (walSegment (fs @ gs) h)" using tab by (simp add: tab_ok_def)
      ultimately have "g \<noteq> 0" using nth_mem [OF i(1)] by metis
      then have "pgnos t ! (?idx - 1) \<noteq> 0" using tab i by (simp add: tab_ok_def nth_append)
      then have "w2 = walCleanupHash w" using w1 by (simp add: w2_def)
      then show ?thesis using walCleanupHash_ok [OF ok] stale Cons by simp
    qed
    then show ?thesis using zl by (simp add: wal_ok_def)
  qed
  have a: "tab_ok ?n (walSegment fs h) (apWiData w2 h)" "length (walSegment fs h) < ?n" "?idx = Suc (length (walSegment fs h))"
    using w2 seg(2) h(1,2) f by simp_all
  obtain k where k: "walProbe (slots (apWiData w2 h)) ?idx (walHash p) = Some k"
    "tab_ok ?n (walSegment fs h @ [p]) \<lparr> pgnos = (pgnos (apWiData w2 h))[?idx - 1 := p], slots = (slots (apWiData w2 h))[k := ?idx] \<rparr>"
    using append_table_ok [OF a(1,2) p a(3)] by blast
  let ?w = "w2 \<lparr> apWiData := (apWiData w2)(h := \<lparr> pgnos = (pgnos (apWiData w2 h))[?idx - 1 := p], slots = (slots (apWiData w2 h))[k := ?idx] \<rparr>) \<rparr>"
  have "walIndexAppend rcMap w f p = (SQLITE_OK, ?w)"
  proof -
    have "walAppendPrepare w h ?idx = w2"
      unfolding walAppendPrepare_def Let_def t_def [symmetric] w1_def [symmetric] w2_def ..
    then show ?thesis
      unfolding walIndexAppend_def walHashGet_def h_def [symmetric] Let_def using k(1) rc by simp
  qed
  moreover have "wal_ok ?w (fs @ [p])"
    using appended_ok [of w2 fs p] w2 k(2) seg(1) h(3) by simp
  ultimately show ?thesis using w2 by simp
qed

section \<open>Savepoints and rollback\<close>

text \<open>
  The part of the handle that a savepoint records. \<open>shared\<close> is the header in shared memory, which
  describes the last committed transaction; \<open>undone\<close> collects the pages passed to the callback.
\<close>

record walHdr =
  h_mxFrame :: nat
  h_cksum :: "u32 \<times> u32"

text \<open>\<open>h_mxFrame\<close> of the cached header is the field \<^const>\<open>mxFrame\<close> of the index.\<close>

record walHandle =
  idx :: walIndex
  cksum :: "u32 \<times> u32"
  nCkpt :: u32
  shared :: walHdr

type_synonym walSavepoint = "nat \<times> u32 \<times> u32 \<times> u32"

definition sqlite3WalSavepoint :: "walHandle \<Rightarrow> walSavepoint" where
  "sqlite3WalSavepoint pWal = (mxFrame (idx pWal), fst (cksum pWal), snd (cksum pWal), nCkpt pWal)"

definition sqlite3WalSavepointUndo :: "walHandle \<Rightarrow> walSavepoint \<Rightarrow> walHandle \<times> walSavepoint" where
  "sqlite3WalSavepointUndo pWal sp =
     (let (a0, a1, a2, a3) = sp;
          (a0, a3) = (if a3 \<noteq> nCkpt pWal then (0, nCkpt pWal) else (a0, a3));
          pWal = (if a0 < mxFrame (idx pWal)
                  then pWal \<lparr> idx := walCleanupHash (idx pWal \<lparr> mxFrame := a0 \<rparr>), cksum := (a1, a2) \<rparr>
                  else pWal)
      in (pWal, (a0, a1, a2, a3)))"

text \<open>The callback \<^verbatim>\<open>xUndo\<close> is a parameter; it is called on frames \<open>iFrame, iFrame + 1, \<dots>\<close> until it fails.\<close>

primrec walUndoLoop :: "('c \<Rightarrow> u32 \<Rightarrow> rcode \<times> 'c) \<Rightarrow> walIndex \<Rightarrow> nat \<Rightarrow> nat \<Rightarrow> 'c \<Rightarrow> rcode \<times> 'c" where
  "walUndoLoop xUndo w iFrame 0 c = (SQLITE_OK, c)"
| "walUndoLoop xUndo w iFrame (Suc n) c =
     (let (rc, c) = xUndo c (walFramePgno w iFrame)
      in if rc \<noteq> SQLITE_OK then (rc, c) else walUndoLoop xUndo w (iFrame + 1) n c)"

definition sqlite3WalUndo :: "('c \<Rightarrow> u32 \<Rightarrow> rcode \<times> 'c) \<Rightarrow> walHandle \<Rightarrow> 'c \<Rightarrow> rcode \<times> 'c \<times> walHandle" where
  "sqlite3WalUndo xUndo pWal c =
     (let iMax = mxFrame (idx pWal);
          iNew = h_mxFrame (shared pWal);
          pWal = pWal \<lparr> idx := idx pWal \<lparr> mxFrame := iNew \<rparr>, cksum := h_cksum (shared pWal) \<rparr>;
          (rc, c) = walUndoLoop xUndo (idx pWal) (iNew + 1) (iMax - iNew) c;
          pWal = (if iMax \<noteq> iNew then pWal \<lparr> idx := walCleanupHash (idx pWal) \<rparr> else pWal)
      in (rc, c, pWal))"

lemma wal_ok_mxFrame [simp]: "wal_ok (w \<lparr> mxFrame := m \<rparr>) fs = wal_ok w fs"
  by (simp add: wal_ok_def)

lemma walUndoLoop_fold:
  assumes "wal_ok w fs" and "i + n \<le> length fs" and "\<And>c p. fst (xUndo c p) = SQLITE_OK"
  shows "walUndoLoop xUndo w (i + 1) n c = (SQLITE_OK, foldl (\<lambda>c p. snd (xUndo c p)) c (take n (drop i fs)))"
  using assms(2)
proof (induction n arbitrary: i c)
  case (Suc n)
  have p: "walFramePgno w (i + 1) = fs ! i" using walFramePgno_correct [OF assms(1), of "i + 1"] Suc.prems by simp
  obtain c' where c': "xUndo c (fs ! i) = (SQLITE_OK, c')" using assms(3) [of c "fs ! i"] by (cases "xUndo c (fs ! i)") auto
  have "take (Suc n) (drop i fs) = fs ! i # take n (drop (Suc i) fs)"
    using Suc.prems by (simp flip: Cons_nth_drop_Suc)
  then show ?case using Suc.IH [of "i + 1" c'] Suc.prems p c' by simp
qed simp

text \<open>The loop of \<^verbatim>\<open>sqlite3WalFrames\<close> that enters the frames it has written, from \<open>iFrame + 1\<close>.\<close>

primrec walAppendList :: "(nat \<Rightarrow> rcode) \<Rightarrow> walIndex \<Rightarrow> nat \<Rightarrow> u32 list \<Rightarrow> rcode \<times> nat \<times> walIndex" where
  "walAppendList rcMap w iFrame [] = (SQLITE_OK, iFrame, w)"
| "walAppendList rcMap w iFrame (p # ps) =
     (case walIndexAppend rcMap w (iFrame + 1) p of
        (rc, w) \<Rightarrow> if rc = SQLITE_OK then walAppendList rcMap w (iFrame + 1) ps else (rc, iFrame + 1, w))"

lemma walAppendList_correct:
  assumes "wal_ok w (fs @ gs)" "mxFrame w \<le> length fs" "gs = [] \<or> mxFrame w = length fs" "0 \<notin> set ps"
    "\<forall>h. rcMap h = SQLITE_OK"
  shows "\<exists>w' gs'. walAppendList rcMap w (length fs) ps = (SQLITE_OK, length fs + length ps, w')
     \<and> wal_ok w' (fs @ ps @ gs') \<and> mxFrame w' = mxFrame w \<and> (ps \<noteq> [] \<longrightarrow> gs' = [])"
  using assms
proof (induction ps arbitrary: w fs gs)
  case Nil
  then show ?case by auto
next
  case (Cons p ps)
  obtain w1 where w1: "walIndexAppend rcMap w (Suc (length fs)) p = (SQLITE_OK, w1)"
    "wal_ok w1 (fs @ [p])" "mxFrame w1 = mxFrame w"
    using walIndexAppend_lemma [of w fs gs p rcMap] Cons.prems by auto
  obtain w' gs' where w': "walAppendList rcMap w1 (length (fs @ [p])) ps = (SQLITE_OK, length (fs @ [p]) + length ps, w')"
     "wal_ok w' ((fs @ [p]) @ ps @ gs')" "mxFrame w' = mxFrame w1 \<and> (ps \<noteq> [] \<longrightarrow> gs' = [])"
  proof -
    have "\<exists>w' gs'. walAppendList rcMap w1 (length (fs @ [p])) ps = (SQLITE_OK, length (fs @ [p]) + length ps, w')
        \<and> wal_ok w' ((fs @ [p]) @ ps @ gs') \<and> mxFrame w' = mxFrame w1 \<and> (ps \<noteq> [] \<longrightarrow> gs' = [])"
      by (rule Cons.IH [of w1 "fs @ [p]" "[]"]) (use Cons.prems w1(2,3) in simp_all)
    then show thesis using that by blast
  qed
  show ?case
  proof (cases ps)
    case Nil
    then show ?thesis using w1 by auto
  next
    case ps: (Cons q qs)
    then show ?thesis using w1 w' by (intro exI [of _ w'] exI [of _ gs']) simp
  qed
qed

section \<open>Histories of the log\<close>

text \<open>
  A writer adds frames and then publishes them, is lost after it has entered some frames without
  publishing them, or goes back to an earlier end of the log.
\<close>

datatype walAction = Write "u32 list" | Lost "u32 list" | Rollback nat

definition walWrite :: "walIndex \<Rightarrow> u32 list \<Rightarrow> walIndex" where
  "walWrite w ps = (case walAppendList (\<lambda>_. SQLITE_OK) w (mxFrame w) ps of (_, n, w) \<Rightarrow> w \<lparr> mxFrame := n \<rparr>)"

definition walLost :: "walIndex \<Rightarrow> u32 list \<Rightarrow> walIndex" where
  "walLost w ps = snd (snd (walAppendList (\<lambda>_. SQLITE_OK) w (mxFrame w) ps))"

definition walRollback :: "walIndex \<Rightarrow> nat \<Rightarrow> walIndex" where
  "walRollback w n =
     idx (fst (sqlite3WalSavepointUndo \<lparr> idx = w, cksum = (0, 0), nCkpt = 0, shared = \<lparr> h_mxFrame = 0, h_cksum = (0, 0) \<rparr> \<rparr>
       (n, 0, 0, 0)))"

fun actionPages :: "walAction \<Rightarrow> u32 list" where
  "actionPages (Write ps) = ps"
| "actionPages (Lost ps) = ps"
| "actionPages (Rollback n) = []"

fun logStep :: "u32 list \<Rightarrow> walAction \<Rightarrow> u32 list" where
  "logStep fs (Write ps) = fs @ ps"
| "logStep fs (Lost ps) = fs"
| "logStep fs (Rollback n) = take n fs"

text \<open>The contract of an index of the log, and what it gives over histories.\<close>

locale frame_index =
  fixes rep :: "'w \<Rightarrow> u32 list \<Rightarrow> bool"
    and wr :: "'w \<Rightarrow> u32 list \<Rightarrow> 'w" and lost :: "'w \<Rightarrow> u32 list \<Rightarrow> 'w" and roll :: "'w \<Rightarrow> nat \<Rightarrow> 'w"
    and find :: "'w \<Rightarrow> u32 \<Rightarrow> nat"
  assumes rep_wr: "rep w fs \<Longrightarrow> 0 \<notin> set ps \<Longrightarrow> rep (wr w ps) (fs @ ps)"
    and rep_lost: "rep w fs \<Longrightarrow> 0 \<notin> set ps \<Longrightarrow> rep (lost w ps) fs"
    and rep_roll: "rep w fs \<Longrightarrow> rep (roll w n) (take n fs)"
    and find_rep: "rep w fs \<Longrightarrow> find w p = lastFrame fs p"
begin

fun act :: "'w \<Rightarrow> walAction \<Rightarrow> 'w" where
  "act w (Write ps) = wr w ps"
| "act w (Lost ps) = lost w ps"
| "act w (Rollback n) = roll w n"

lemma rep_act: "rep w fs \<Longrightarrow> 0 \<notin> set (actionPages a) \<Longrightarrow> rep (act w a) (logStep fs a)"
  by (cases a) (simp_all add: rep_wr rep_lost rep_roll)

lemma rep_history:
  "rep w fs \<Longrightarrow> \<forall>a \<in> set acts. 0 \<notin> set (actionPages a) \<Longrightarrow> rep (foldl act w acts) (foldl logStep fs acts)"
  by (induction acts arbitrary: w fs) (simp_all add: rep_act)

lemma find_history:
  "rep w fs \<Longrightarrow> \<forall>a \<in> set acts. 0 \<notin> set (actionPages a) \<Longrightarrow>
   find (foldl act w acts) p = lastFrame (foldl logStep fs acts) p"
  by (rule find_rep [OF rep_history])

end

definition walRep :: "walIndex \<Rightarrow> u32 list \<Rightarrow> bool" where
  "walRep w fs \<longleftrightarrow> mxFrame w = length fs \<and> (\<exists>gs. wal_ok w (fs @ gs))"

definition walLookup :: "walIndex \<Rightarrow> u32 \<Rightarrow> nat" where
  "walLookup w p = (case sqlite3WalFindFrame (\<lambda>_. SQLITE_OK) w False p of Inl _ \<Rightarrow> 0 | Inr n \<Rightarrow> n)"

lemma walRollback_rep:
  assumes "walRep w fs"
  shows "walRep (walRollback w n) (take n fs)"
proof (cases "n < mxFrame w")
  case True
  obtain gs where gs: "wal_ok w (fs @ gs)" "mxFrame w = length fs" using assms by (auto simp: walRep_def)
  have "wal_ok (walCleanupHash (w \<lparr> mxFrame := n \<rparr>)) (take n (fs @ gs) @ [])" "mxFrame (walCleanupHash (w \<lparr> mxFrame := n \<rparr>)) = n"
    using walCleanupHash_ok [of "w \<lparr> mxFrame := n \<rparr>" "fs @ gs"] gs True by simp_all
  then show ?thesis using True gs(2)
    by (auto simp: walRep_def walRollback_def sqlite3WalSavepointUndo_def intro!: exI [of _ "[]"])
next
  case False
  then show ?thesis using assms by (auto simp: walRep_def walRollback_def sqlite3WalSavepointUndo_def)
qed

lemma walRep_append:
  assumes "walRep w fs" and "0 \<notin> set ps"
  obtains w' gs' where "walAppendList (\<lambda>_. SQLITE_OK) w (mxFrame w) ps = (SQLITE_OK, length fs + length ps, w')"
    and "wal_ok w' (fs @ ps @ gs')" and "mxFrame w' = length fs" and "ps \<noteq> [] \<longrightarrow> gs' = []"
proof -
  obtain gs where gs: "wal_ok w (fs @ gs)" "mxFrame w = length fs" using assms(1) by (auto simp: walRep_def)
  then show thesis using walAppendList_correct [OF gs(1), of ps "\<lambda>_. SQLITE_OK"] assms(2) that by auto
qed

lemma walWrite_ok:
  assumes "walRep w fs" and "0 \<notin> set ps"
  shows "walRep (walWrite w ps) (fs @ ps) \<and> (ps \<noteq> [] \<longrightarrow> wal_ok (walWrite w ps) (fs @ ps))"
  using assms by (rule walRep_append) (auto simp: walRep_def walWrite_def)

lemma walLost_rep: 
  assumes "walRep w fs" and "0 \<notin> set ps"
  shows "walRep (walLost w ps) fs"
  using assms by (rule walRep_append) (auto simp: walRep_def walLost_def)

lemma walLookup_rep: "walRep w fs \<Longrightarrow> walLookup w p = lastFrame fs p"
  using sqlite3WalFindFrame_lemma [of w "fs @ _" "\<lambda>_. SQLITE_OK" False p] by (auto simp: walRep_def walLookup_def)

interpretation fi: frame_index walRep walWrite walLost walRollback walLookup
  by unfold_locales (simp_all add: walWrite_ok walLost_rep walRollback_rep walLookup_rep)

fun walStep :: "walIndex \<Rightarrow> walAction \<Rightarrow> walIndex" where
  "walStep w (Write ps) = walWrite w ps"
| "walStep w (Lost ps) = walLost w ps"
| "walStep w (Rollback n) = walRollback w n"

lemma act_walStep: "fi.act = walStep"
proof (intro ext)
  show "fi.act w a = walStep w a" for w a by (cases a) simp_all
qed

text \<open>An empty log: no frame is published, the tables may hold anything of the right size.\<close>

definition walEmpty :: walIndex where
  "walEmpty = \<lparr> apWiData = (\<lambda>h. \<lparr> pgnos = replicate (walNEntry h) 0, slots = replicate HASHTABLE_NSLOT 0 \<rparr>), mxFrame = 0 \<rparr>"

lemma walRep_empty: "walRep walEmpty []"
  by (auto simp: walRep_def wal_ok_def walEmpty_def intro!: exI [of _ "[]"])

lemma walLookup_example: "lastFrame [5, 7, 5] 5 = 3"
  by code_simp

section \<open>Main results\<close>

text \<open>C13. A lookup in the wal-index returns the newest frame of the page among the frames of the
  reader's snapshot, or 0 if there is none, even while a writer has entered further frames; a
  reader that ignores the log always gets 0. The collision limit is never reached.\<close>

theorem sqlite3WalFindFrame_correct:
  assumes "wal_ok w (fs @ gs)" and "\<forall>h. rcMap h = SQLITE_OK" and "mxFrame w = length fs"
  shows "sqlite3WalFindFrame rcMap w noWal p = Inr (if noWal then 0 else lastFrame fs p)"
  using sqlite3WalFindFrame_lemma [OF assms(1,2), of noWal p] assms(3) by simp

theorem sqlite3WalFindFrame_correct_witness:
  "sqlite3WalFindFrame (\<lambda>_. SQLITE_OK) (walWrite walEmpty [5, 7, 5]) False 5 = Inr 3"
proof -
  have "wal_ok (walWrite walEmpty [5, 7, 5]) ([5, 7, 5] @ [])" "mxFrame (walWrite walEmpty [5, 7, 5]) = length [5, 7, 5 :: u32]"
    using walWrite_ok [OF walRep_empty, of "[5, 7, 5]"] by (simp_all add: walRep_def)
  then show ?thesis
    using sqlite3WalFindFrame_correct [of _ "[5, 7, 5]" "[]" "\<lambda>_. SQLITE_OK" False 5] walLookup_example by simp
qed

text \<open>Entering the next frame keeps the index right for the extended log, whatever a lost writer
  left behind after the published frames; it always finds a slot.\<close>

theorem walIndexAppend_correct:
  assumes "wal_ok w (fs @ gs)" and "mxFrame w \<le> length fs" and "gs = [] \<or> mxFrame w = length fs"
    and "p \<noteq> 0" and "\<forall>h. rcMap h = SQLITE_OK"
  shows "\<exists>w'. walIndexAppend rcMap w (Suc (length fs)) p = (SQLITE_OK, w') \<and> wal_ok w' (fs @ [p]) \<and> mxFrame w' = mxFrame w"
  by (rule walIndexAppend_lemma [OF assms refl])

theorem walIndexAppend_correct_witness:
  "\<exists>w'. walIndexAppend (\<lambda>_. SQLITE_OK) (walLost (walWrite walEmpty [5]) [7, 7]) 2 9 = (SQLITE_OK, w') \<and> wal_ok w' [5, 9]"
proof -
  have "walRep (walLost (walWrite walEmpty [5]) [7, 7]) [5]"
    using walLost_rep [of "walWrite walEmpty [5]" "[5]" "[7, 7]"] walWrite_ok [OF walRep_empty, of "[5]"] by simp
  then obtain gs where gs: "wal_ok (walLost (walWrite walEmpty [5]) [7, 7]) ([5] @ gs)"
    "mxFrame (walLost (walWrite walEmpty [5]) [7, 7]) = length [5 :: u32]" by (auto simp: walRep_def)
  have "\<exists>w'. walIndexAppend (\<lambda>_. SQLITE_OK) (walLost (walWrite walEmpty [5]) [7, 7]) (Suc (length [5 :: u32])) 9 = (SQLITE_OK, w')
      \<and> wal_ok w' ([5] @ [9]) \<and> mxFrame w' = mxFrame (walLost (walWrite walEmpty [5]) [7, 7])"
    by (rule walIndexAppend_correct [OF gs(1)]) (use gs(2) in simp_all)
  then show ?thesis unfolding numeral_2_eq_2 by (metis One_nat_def append_Cons append_Nil length_Cons list.size(3))
qed

text \<open>C10. After any history of published writes, lost writers and rollbacks to savepoints the wal-index
  finds for every page the newest frame of the log that the history leaves.\<close>

theorem wal_index_refines_log:
  assumes "\<forall>a \<in> set acts. 0 \<notin> set (actionPages a)"
  shows "walLookup (foldl walStep walEmpty acts) p = lastFrame (foldl logStep [] acts) p"
  using fi.find_history [OF walRep_empty assms] unfolding act_walStep .

theorem wal_index_refines_log_witness:
  "walLookup (foldl walStep walEmpty [Write [5, 7, 5], Lost [7, 7], Write [9], Rollback 3]) 5 = 3"
proof -
  have "walLookup (foldl walStep walEmpty [Write [5, 7, 5], Lost [7, 7], Write [9], Rollback 3]) 5
      = lastFrame (foldl logStep [] [Write [5, 7, 5], Lost [7, 7], Write [9], Rollback 3]) 5"
    by (rule wal_index_refines_log) simp
  also have "\<dots> = 3" by code_simp
  finally show ?thesis .
qed

text \<open>C14. Rolling back a transaction calls the callback on the pages of the frames written since the
  last commit, in order, restores the header and leaves an index of the committed frames alone.\<close>

theorem sqlite3WalUndo_correct:
  assumes "wal_ok (idx pWal) fs" and "mxFrame (idx pWal) = length fs" and "h_mxFrame (shared pWal) \<le> length fs"
    and "\<forall>c p. fst (xUndo c p) = SQLITE_OK"
  shows "\<exists>w'. sqlite3WalUndo xUndo pWal c =
      (SQLITE_OK, foldl (\<lambda>c p. snd (xUndo c p)) c (drop (h_mxFrame (shared pWal)) fs), w')
    \<and> wal_ok (idx w') (take (h_mxFrame (shared pWal)) fs)
    \<and> mxFrame (idx w') = h_mxFrame (shared pWal) \<and> cksum w' = h_cksum (shared pWal)"
  using walUndoLoop_fold [of "idx pWal \<lparr> mxFrame := h_mxFrame (shared pWal) \<rparr>" fs "h_mxFrame (shared pWal)"
      "length fs - h_mxFrame (shared pWal)" xUndo c]
    walCleanupHash_ok [of "idx pWal \<lparr> mxFrame := h_mxFrame (shared pWal) \<rparr>" fs] assms
  by (auto simp: sqlite3WalUndo_def Let_def)

theorem sqlite3WalUndo_correct_witness:
  "\<exists>w'. sqlite3WalUndo (\<lambda>c p. (SQLITE_OK, c @ [p])) \<lparr> idx = walWrite walEmpty [5, 7, 9], cksum = (1, 2), nCkpt = 0,
        shared = \<lparr> h_mxFrame = 1, h_cksum = (3, 4) \<rparr> \<rparr> [] = (SQLITE_OK, [7, 9], w') \<and> wal_ok (idx w') [5] \<and> cksum w' = (3, 4)"
proof -
  have "wal_ok (walWrite walEmpty [5, 7, 9]) [5, 7, 9]" "mxFrame (walWrite walEmpty [5, 7, 9]) = 3"
    using walWrite_ok [OF walRep_empty, of "[5, 7, 9]"] by (simp_all add: walRep_def)
  then show ?thesis
    using sqlite3WalUndo_correct [of "\<lparr> idx = walWrite walEmpty [5, 7, 9], cksum = (1, 2), nCkpt = 0,
          shared = \<lparr> h_mxFrame = 1, h_cksum = (3, 4) \<rparr> \<rparr>" "[5, 7, 9]" "\<lambda>c p. (SQLITE_OK, c @ [p])" "[]"]
    by auto
qed

end
