(* ===== verification/Wal_Frame.thy ===== *)
theory Wal_Frame
  imports Varint_Decode Wal_Index
begin

text \<open>
  The write-ahead log file of \<^verbatim>\<open>wal.c\<close>: the checksum, the encoding of frames, the routine that writes
  a set of frames, and the recovery of the wal-index from the file. The byte order of the host
  (\<^verbatim>\<open>SQLITE_BIGENDIAN\<close>) is the parameter \<open>hb\<close>. Reads of the file are a parameter with a
  result code, writes consume one outcome each from a script, as allocations do.
\<close>

section \<open>Checksums\<close>

definition BYTESWAP32 :: "u32 \<Rightarrow> u32" where
  "BYTESWAP32 x = push_bit 24 (x AND 0x000000FF) + push_bit 8 (x AND 0x0000FF00)
     + drop_bit 8 (x AND 0x00FF0000) + drop_bit 24 (x AND 0xFF000000)"

text \<open>The value of four bytes of memory read as a \<^verbatim>\<open>u32\<close> on a big-endian or little-endian host.\<close>

definition hostWord :: "bool \<Rightarrow> bytes \<Rightarrow> u32" where
  "hostWord hb a =
     (if hb then push_bit 24 (ucast (a ! 0)) OR push_bit 16 (ucast (a ! 1)) OR push_bit 8 (ucast (a ! 2)) OR ucast (a ! 3)
      else push_bit 24 (ucast (a ! 3)) OR push_bit 16 (ucast (a ! 2)) OR push_bit 8 (ucast (a ! 1)) OR ucast (a ! 0))"

definition cksumWord :: "bool \<Rightarrow> bool \<Rightarrow> bytes \<Rightarrow> u32" where
  "cksumWord hb nativeCksum a = (if nativeCksum then hostWord hb a else BYTESWAP32 (hostWord hb a))"

definition cksumStep :: "bool \<Rightarrow> bool \<Rightarrow> bytes \<Rightarrow> u32 \<times> u32 \<Rightarrow> u32 \<times> u32" where
  "cksumStep hb nativeCksum a s =
     (let s1 = fst s + (cksumWord hb nativeCksum a + snd s);
          s2 = snd s + (cksumWord hb nativeCksum (drop 4 a) + s1)
      in (s1, s2))"

function walChecksumLoop :: "bool \<Rightarrow> bool \<Rightarrow> bytes \<Rightarrow> u32 \<times> u32 \<Rightarrow> u32 \<times> u32" where
  "walChecksumLoop hb nativeCksum a s =
     (if length a < 8 then s else walChecksumLoop hb nativeCksum (drop 8 a) (cksumStep hb nativeCksum a s))"
  by pat_completeness auto
termination by (relation "measure (\<lambda>(_, _, a, _). length a)") auto

declare walChecksumLoop.simps [simp del]

text \<open>\<open>None\<close> is a read past the end of the buffer. The callers pass a positive multiple of 8 bytes.\<close>

definition walChecksumBytes :: "bool \<Rightarrow> bool \<Rightarrow> bytes \<Rightarrow> nat \<Rightarrow> (u32 \<times> u32) option \<Rightarrow> (u32 \<times> u32) option" where
  "walChecksumBytes hb nativeCksum a nByte aIn =
     (if nByte \<le> length a
      then Some (walChecksumLoop hb nativeCksum (take nByte a) (case aIn of None \<Rightarrow> (0, 0) | Some s \<Rightarrow> s))
      else None)"

section \<open>Frames\<close>

definition WAL_HDRSIZE :: nat where "WAL_HDRSIZE = 32"

definition WAL_FRAME_HDRSIZE :: nat where "WAL_FRAME_HDRSIZE = 24"

definition WAL_MAGIC :: u32 where "WAL_MAGIC = 0x377f0682"

definition WAL_MAX_VERSION :: u32 where "WAL_MAX_VERSION = 3007000"

definition SQLITE_MAX_PAGE_SIZE :: nat where "SQLITE_MAX_PAGE_SIZE = 65536"

definition walFrameOffset :: "nat \<Rightarrow> nat \<Rightarrow> nat" where
  "walFrameOffset iFrame szPage = WAL_HDRSIZE + (iFrame - 1) * (szPage + WAL_FRAME_HDRSIZE)"

text \<open>The checkpoint information in shared memory: \<open>aReadMark\<close> has \<^verbatim>\<open>WAL_NREADER\<close> entries.\<close>

definition WAL_NREADER :: nat where "WAL_NREADER = 5"

definition READMARK_NOT_USED :: nat where "READMARK_NOT_USED = 0xffffffff"

record walCkptInfo =
  nBackfill :: nat
  aReadMark :: "nat list"

text \<open>
  The handle with the rest of the fields of the cached header. \<open>szPage\<close> is the page size of the log,
  \<open>hdrSzPage\<close> its 16 bit form in the header. \<^const>\<open>cksum\<close> is the running frame checksum. \<open>heldReadLock\<close> is
  the number of the read lock that is held, \<^verbatim>\<open>readLock\<close>, and \<open>None\<close> is its value -1.
\<close>

record wal = walHandle +
  aSalt :: bytes
  bigEndCksum :: bool
  szPage :: nat
  hdrSzPage :: u16
  nPage :: u32
  iChange :: u32
  ckpt :: walCkptInfo
  truncateOnCommit :: bool
  iCallback :: nat
  heldReadLock :: "nat option"

definition walEncodeFrame :: "bool \<Rightarrow> wal \<Rightarrow> u32 \<Rightarrow> u32 \<Rightarrow> bytes \<Rightarrow> (bytes \<times> wal) option" where
  "walEncodeFrame hb pWal iPage nTruncate aData = do {
     let aFrame = sqlite3Put4byte iPage @ sqlite3Put4byte nTruncate @ aSalt pWal;
     let nativeCksum = (bigEndCksum pWal = hb);
     c \<leftarrow> walChecksumBytes hb nativeCksum aFrame 8 (Some (cksum pWal));
     c \<leftarrow> walChecksumBytes hb nativeCksum aData (szPage pWal) (Some c);
     Some (aFrame @ sqlite3Put4byte (fst c) @ sqlite3Put4byte (snd c), pWal \<lparr> cksum := c \<rparr>)
   }"

text \<open>The result is the page number and commit field of a valid frame; the running checksum is only
  changed when the salt and the page number are accepted.\<close>

definition walDecodeFrame :: "bool \<Rightarrow> wal \<Rightarrow> bytes \<Rightarrow> bytes \<Rightarrow> ((u32 \<times> u32) option \<times> wal) option" where
  "walDecodeFrame hb pWal aData aFrame =
     (if aSalt pWal \<noteq> take 8 (drop 8 aFrame) then Some (None, pWal)
      else do {
        pgno \<leftarrow> sqlite3Get4byte aFrame;
        if pgno = 0 then Some (None, pWal)
        else do {
          let nativeCksum = (bigEndCksum pWal = hb);
          c \<leftarrow> walChecksumBytes hb nativeCksum aFrame 8 (Some (cksum pWal));
          c \<leftarrow> walChecksumBytes hb nativeCksum aData (szPage pWal) (Some c);
          let pWal = pWal \<lparr> cksum := c \<rparr>;
          c1 \<leftarrow> sqlite3Get4byte (drop 16 aFrame);
          c2 \<leftarrow> sqlite3Get4byte (drop 20 aFrame);
          if fst c \<noteq> c1 \<or> snd c \<noteq> c2 then Some (None, pWal)
          else do {
            nTruncate \<leftarrow> sqlite3Get4byte (drop 4 aFrame);
            Some (Some (pgno, nTruncate), pWal)
          }
        }
      })"

section \<open>Recovery\<close>

text \<open>The 16 bit form of the page size: 65536 is stored as 1.\<close>

definition walSzPageCode :: "nat \<Rightarrow> u16" where
  "walSzPageCode sz = ucast ((word_of_nat sz AND 0xff00) OR drop_bit 16 (word_of_nat sz :: u32))"

definition walSzPageDecode :: "u16 \<Rightarrow> nat" where
  "walSzPageDecode sz = unat ((ucast sz AND 0xfe00) + push_bit 16 (ucast sz AND 0x0001) :: u32)"

text \<open>The header that the last commit left in shared memory is replaced by the cached one.\<close>

definition walIndexWriteHdr :: "wal \<Rightarrow> wal" where
  "walIndexWriteHdr pWal = pWal \<lparr> shared := \<lparr> h_mxFrame = mxFrame (idx pWal), h_cksum = cksum pWal \<rparr> \<rparr>"

text \<open>The loop over the frames of the file; \<open>saved\<close> is the checksum at the last commit.\<close>

function walRecoverLoop :: "bool \<Rightarrow> (nat \<Rightarrow> nat \<Rightarrow> rcode + bytes) \<Rightarrow> (nat \<Rightarrow> rcode) \<Rightarrow> nat \<Rightarrow> nat \<Rightarrow>
    nat \<Rightarrow> nat \<Rightarrow> wal \<Rightarrow> u32 \<times> u32 \<Rightarrow> (rcode \<times> wal \<times> (u32 \<times> u32)) option" where
  "walRecoverLoop hb osRead rcMap nSize szPg iOffset iFrame pWal saved =
     (if iOffset + (szPg + WAL_FRAME_HDRSIZE) \<le> nSize then
        (case osRead iOffset (szPg + WAL_FRAME_HDRSIZE) of
           Inl rc \<Rightarrow> Some (rc, pWal, saved)
         | Inr aFrame \<Rightarrow> do {
             (isValid, pWal) \<leftarrow> walDecodeFrame hb pWal (drop WAL_FRAME_HDRSIZE aFrame) aFrame;
             case isValid of
               None \<Rightarrow> Some (SQLITE_OK, pWal, saved)
             | Some (pgno, nTruncate) \<Rightarrow>
                 (case walIndexAppend rcMap (idx pWal) (iFrame + 1) pgno of
                    (rc, i) \<Rightarrow>
                      if rc \<noteq> SQLITE_OK then Some (rc, pWal \<lparr> idx := i \<rparr>, saved)
                      else if nTruncate \<noteq> 0 then
                        walRecoverLoop hb osRead rcMap nSize szPg (iOffset + (szPg + WAL_FRAME_HDRSIZE)) (iFrame + 1)
                          (pWal \<lparr> idx := i \<lparr> mxFrame := iFrame + 1 \<rparr>, nPage := nTruncate, hdrSzPage := walSzPageCode szPg \<rparr>)
                          (cksum pWal)
                      else
                        walRecoverLoop hb osRead rcMap nSize szPg (iOffset + (szPg + WAL_FRAME_HDRSIZE)) (iFrame + 1)
                          (pWal \<lparr> idx := i \<rparr>) saved)
           })
      else Some (SQLITE_OK, pWal, saved))"
  by pat_completeness auto
termination
  by (relation "measure (\<lambda>(hb, osRead, rcMap, nSize, szPg, iOffset, iFrame, pWal, saved). nSize - iOffset)")
    (auto simp: WAL_FRAME_HDRSIZE_def)

declare walRecoverLoop.simps [simp del]

text \<open>The end of a successful recovery, at the label \<^verbatim>\<open>finished\<close>.\<close>

definition walRecoverFinish :: "wal \<Rightarrow> u32 \<times> u32 \<Rightarrow> wal" where
  "walRecoverFinish pWal saved =
     (let pWal = walIndexWriteHdr (pWal \<lparr> cksum := saved \<rparr>);
          marks = 0 # replicate (WAL_NREADER - 1) READMARK_NOT_USED
      in pWal \<lparr> ckpt := \<lparr> nBackfill = 0,
                 aReadMark = (if mxFrame (idx pWal) \<noteq> 0 then marks[1 := mxFrame (idx pWal)] else marks) \<rparr> \<rparr>)"

text \<open>
  \<open>rcLock\<close>, \<open>fsize\<close> and \<open>osRead\<close> are the results of the operating system, \<open>mem\<close> says whether the frame
  buffer can be allocated. A header that is not of a log this library can read makes an empty log.
  The comparison of the page size is on unsigned numbers; a value that is negative as a C \<^verbatim>\<open>int\<close> fails
  either way.
\<close>

definition walRecoverFrames :: "bool \<Rightarrow> nat \<Rightarrow> (nat \<Rightarrow> nat \<Rightarrow> rcode + bytes) \<Rightarrow> bool \<Rightarrow> (nat \<Rightarrow> rcode) \<Rightarrow> bytes \<Rightarrow> u32 \<Rightarrow> wal \<Rightarrow>
    (rcode \<times> wal) option" where
  "walRecoverFrames hb nSize osRead mem rcMap aBuf version pWal =
     (if version \<noteq> WAL_MAX_VERSION then Some (SQLITE_CANTOPEN, pWal)
      else if \<not> mem then Some (SQLITE_NOMEM, pWal)
      else do {
        (rc, pWal, saved) \<leftarrow> walRecoverLoop hb osRead rcMap nSize (szPage pWal) WAL_HDRSIZE 0 pWal (0, 0);
        Some (rc, if rc = SQLITE_OK then walRecoverFinish pWal saved else pWal)
      })"

definition walRecoverHdr :: "bool \<Rightarrow> nat \<Rightarrow> (nat \<Rightarrow> nat \<Rightarrow> rcode + bytes) \<Rightarrow> bool \<Rightarrow> (nat \<Rightarrow> rcode) \<Rightarrow> bytes \<Rightarrow> wal \<Rightarrow>
    (rcode \<times> wal) option" where
  "walRecoverHdr hb nSize osRead mem rcMap aBuf pWal = do {
     magic \<leftarrow> sqlite3Get4byte aBuf;
     sz \<leftarrow> sqlite3Get4byte (drop 8 aBuf);
     if magic AND 0xFFFFFFFE \<noteq> WAL_MAGIC \<or> sz AND (sz - 1) \<noteq> 0 \<or> unat sz > SQLITE_MAX_PAGE_SIZE \<or> unat sz < 512
     then Some (SQLITE_OK, walRecoverFinish pWal (0, 0))
     else do {
       n \<leftarrow> sqlite3Get4byte (drop 12 aBuf);
       let big = (magic AND 1 = 1);
       c \<leftarrow> walChecksumBytes hb (big = hb) aBuf (WAL_HDRSIZE - 2 * 4) None;
       let pWal = pWal \<lparr> bigEndCksum := big, szPage := unat sz, nCkpt := n, aSalt := take 8 (drop 16 aBuf), cksum := c \<rparr>;
       c1 \<leftarrow> sqlite3Get4byte (drop 24 aBuf);
       c2 \<leftarrow> sqlite3Get4byte (drop 28 aBuf);
       if fst c \<noteq> c1 \<or> snd c \<noteq> c2 then Some (SQLITE_OK, walRecoverFinish pWal (0, 0))
       else do {
         version \<leftarrow> sqlite3Get4byte (drop 4 aBuf);
         walRecoverFrames hb nSize osRead mem rcMap aBuf version pWal
       }
     }
   }"

definition walHdrZero :: "wal \<Rightarrow> wal" where
  "walHdrZero pWal = pWal \<lparr> idx := idx pWal \<lparr> mxFrame := 0 \<rparr>, cksum := (0, 0), aSalt := replicate 8 0,
     bigEndCksum := False, hdrSzPage := 0, nPage := 0, iChange := 0 \<rparr>"

definition walIndexRecover :: "bool \<Rightarrow> rcode \<Rightarrow> rcode + nat \<Rightarrow> (nat \<Rightarrow> nat \<Rightarrow> rcode + bytes) \<Rightarrow> bool \<Rightarrow> (nat \<Rightarrow> rcode) \<Rightarrow> wal \<Rightarrow>
    (rcode \<times> wal) option" where
  "walIndexRecover hb rcLock fsize osRead mem rcMap pWal =
     (if rcLock \<noteq> SQLITE_OK then Some (rcLock, pWal)
      else let pWal = walHdrZero pWal in
        case fsize of
          Inl rc \<Rightarrow> Some (rc, pWal)
        | Inr nSize \<Rightarrow>
            if nSize > WAL_HDRSIZE then
              (case osRead 0 WAL_HDRSIZE of
                 Inl rc \<Rightarrow> Some (rc, pWal)
               | Inr aBuf \<Rightarrow> walRecoverHdr hb nSize osRead mem rcMap aBuf pWal)
            else Some (SQLITE_OK, walRecoverFinish pWal (0, 0)))"

section \<open>Facts about checksums\<close>

lemma BYTESWAP32_or:
  "BYTESWAP32 x = push_bit 24 (x AND 0x000000FF) OR push_bit 8 (x AND 0x0000FF00)
     OR drop_bit 8 (x AND 0x00FF0000) OR drop_bit 24 (x AND 0xFF000000)"
proof -
  let ?a = "push_bit 24 (x AND 0x000000FF)" and ?b = "push_bit 8 (x AND 0x0000FF00)"
    and ?c = "drop_bit 8 (x AND 0x00FF0000)" and ?d = "drop_bit 24 (x AND 0xFF000000)"
  have "?a AND ?b = 0" "(?a OR ?b) AND ?c = 0" "(?a OR ?b OR ?c) AND ?d = 0"
    by (rule bits_32, simp only: list.pred_inject, intro conjI TrueI; simp add: wbits)+
  then show ?thesis
    unfolding BYTESWAP32_def by (simp add: disjunctive_add_eq_or or.assoc)
qed

lemma BYTESWAP32_hostWord: "BYTESWAP32 (hostWord hb a) = hostWord (\<not> hb) a"
  unfolding BYTESWAP32_or
  by (rule bits_32, simp only: list.pred_inject, intro conjI TrueI; simp add: hostWord_def wbits)

text \<open>The value that enters the checksum depends on the byte order of the log only.\<close>

lemma cksumWord_host: "cksumWord hb (big = hb) a = hostWord big a"
  by (cases hb; cases big) (simp_all add: cksumWord_def BYTESWAP32_hostWord)

lemma cksumStep_host: "cksumStep hb (big = hb) = cksumStep big True"
  by (intro ext) (simp add: cksumStep_def cksumWord_host cksumWord_host [of big big, simplified])

lemma walChecksumLoop_host: "walChecksumLoop hb (big = hb) a s = walChecksumLoop big True a s"
proof (induction a arbitrary: s rule: measure_induct_rule [where f = length])
  case (less a)
  show ?case
    using less [of "drop 8 a" "cksumStep big True a s"] by (subst (1 2) walChecksumLoop.simps) (simp add: cksumStep_host)
qed

lemma walChecksumLoop_short [simp]: "length a < 8 \<Longrightarrow> walChecksumLoop hb n a s = s"
  by (simp add: walChecksumLoop.simps)

lemma hostWord_cong: "take 4 a = take 4 b \<Longrightarrow> 4 \<le> length a \<Longrightarrow> 4 \<le> length b \<Longrightarrow> hostWord hb a = hostWord hb b"
proof -
  assume e: "take 4 a = take 4 b" and l: "4 \<le> length a" "4 \<le> length b"
  have "a ! i = b ! i" if "i < 4" for i using e that by (metis nth_take)
  then show ?thesis by (simp add: hostWord_def)
qed

lemma cksumStep_append: "length b = 8 \<Longrightarrow> cksumStep hb n (b @ c) s = cksumStep hb n b s"
proof -
  assume b: "length b = 8"
  have "hostWord hb (b @ c) = hostWord hb b" "hostWord hb (drop 4 (b @ c)) = hostWord hb (drop 4 b)"
    using b by (auto intro!: hostWord_cong)
  then show ?thesis by (simp add: cksumStep_def cksumWord_def)
qed

lemma walChecksumLoop_block:
  "length b = 8 \<Longrightarrow> walChecksumLoop hb n (b @ c) s = walChecksumLoop hb n c (cksumStep hb n b s)"
  by (simp add: walChecksumLoop.simps [of hb n "b @ c"] cksumStep_append)

lemma walChecksumLoop_append:
  "8 dvd length a \<Longrightarrow> walChecksumLoop hb n (a @ c) s = walChecksumLoop hb n c (walChecksumLoop hb n a s)"
proof (induction a arbitrary: s rule: measure_induct_rule [where f = length])
  case (less a)
  show ?case
  proof (cases "a = []")
    case False
    with less.prems have l: "8 \<le> length a" by (auto elim: dvdE dest: dvd_imp_le)
    have split: "a = take 8 a @ drop 8 a" "length (take 8 a) = 8" using l by simp_all
    have IH: "walChecksumLoop hb n (drop 8 a @ c) s = walChecksumLoop hb n c (walChecksumLoop hb n (drop 8 a) s)" for s
      using less.IH [of "drop 8 a" s] less.prems l by (simp add: dvd_diff_nat)
    have "walChecksumLoop hb n (a @ c) s = walChecksumLoop hb n (drop 8 a @ c) (cksumStep hb n (take 8 a) s)"
      by (subst split(1)) (simp only: append_assoc walChecksumLoop_block [OF split(2)])
    also have "\<dots> = walChecksumLoop hb n c (walChecksumLoop hb n a s)"
      unfolding IH by (subst (2) split(1)) (simp only: walChecksumLoop_block [OF split(2)])
    finally show ?thesis .
  qed simp
qed

text \<open>A step can be undone, so different states stay different.\<close>

lemma cksumStep_inj: "cksumStep hb n a s = cksumStep hb n a t \<Longrightarrow> s = t"
proof -
  assume e: "cksumStep hb n a s = cksumStep hb n a t"
  let ?w = "cksumWord hb n a" and ?v = "cksumWord hb n (drop 4 a)"
  have 1: "fst s + (?w + snd s) = fst t + (?w + snd t)"
    and 2: "snd s + (?v + (fst s + (?w + snd s))) = snd t + (?v + (fst t + (?w + snd t)))"
    using e unfolding cksumStep_def Let_def prod.inject by blast+
  have "snd s = snd t" using 2 unfolding 1 by (simp only: add_right_cancel)
  moreover then have "fst s = fst t" using 1 by (simp only: add_right_cancel)
  ultimately show ?thesis by (simp add: prod_eq_iff)
qed

lemma walChecksumLoop_inj: "walChecksumLoop hb n a s = walChecksumLoop hb n a t \<Longrightarrow> s = t"
proof (induction a arbitrary: s t rule: measure_induct_rule [where f = length])
  case (less a)
  show ?case
  proof (cases "length a < 8")
    case False
    then have "walChecksumLoop hb n (drop 8 a) (cksumStep hb n a s) = walChecksumLoop hb n (drop 8 a) (cksumStep hb n a t)"
      using less.prems by (simp add: walChecksumLoop.simps [of hb n a])
    then have "cksumStep hb n a s = cksumStep hb n a t" using less.IH [of "drop 8 a"] False by simp
    then show ?thesis by (rule cksumStep_inj)
  qed (use less.prems in simp)
qed

lemma hostWord_inj:
  assumes "hostWord hb a = hostWord hb b" and "length a = 4" and "length b = 4"
  shows "a = b"
proof -
  have byte: "ucast (drop_bit 24 (w a0 a1 a2 a3)) = a0 \<and> ucast (drop_bit 16 (w a0 a1 a2 a3)) = a1 \<and>
      ucast (drop_bit 8 (w a0 a1 a2 a3)) = a2 \<and> ucast (w a0 a1 a2 a3) = a3"
    if "w = (\<lambda>a0 a1 a2 a3. push_bit 24 (ucast a0) OR push_bit 16 (ucast a1) OR push_bit 8 (ucast a2) OR ucast a3 :: u32)"
    for w and a0 a1 a2 a3 :: u8
    unfolding that by (intro conjI; rule bits_8, simp only: list.pred_inject, intro conjI TrueI; simp add: wbits)
  note B = byte [OF refl]
  have "a ! 0 = b ! 0 \<and> a ! 1 = b ! 1 \<and> a ! 2 = b ! 2 \<and> a ! 3 = b ! 3"
    using assms(1) B [of "a ! 0" "a ! 1" "a ! 2" "a ! 3"] B [of "b ! 0" "b ! 1" "b ! 2" "b ! 3"]
      B [of "a ! 3" "a ! 2" "a ! 1" "a ! 0"] B [of "b ! 3" "b ! 2" "b ! 1" "b ! 0"]
    unfolding hostWord_def by (cases hb) metis+
  then have "a ! i = b ! i" if "i < 4" for i
    using that by (auto simp: less_Suc_eq numeral_eq_Suc)
  then show ?thesis using assms(2,3) by (simp add: nth_equalityI)
qed

lemma cksumWord_inj:
  "cksumWord hb n a = cksumWord hb n b \<Longrightarrow> length a = 4 \<Longrightarrow> length b = 4 \<Longrightarrow> a = b"
  by (auto simp: cksumWord_def BYTESWAP32_hostWord split: if_splits dest: hostWord_inj)

lemma cksumStep_block_inj:
  assumes "cksumStep hb n a s = cksumStep hb n b s" and "length a = 8" and "length b = 8"
  shows "a = b"
proof -
  have w: "hostWord hb (take 4 x) = hostWord hb x" if "length x = 8" for x
    using that by (intro hostWord_cong) simp_all
  have "cksumWord hb n (take 4 a) = cksumWord hb n (take 4 b)"
    using assms by (auto simp: cksumStep_def Let_def cksumWord_def w)
  moreover have "cksumWord hb n (drop 4 a) = cksumWord hb n (drop 4 b)"
    using assms by (auto simp: cksumStep_def Let_def)
  ultimately have "take 4 a = take 4 b" "drop 4 a = drop 4 b" using assms(2,3) by (simp_all add: cksumWord_inj)
  then show ?thesis by (metis append_take_drop_id)
qed

text \<open>A change inside one aligned block of eight bytes changes the checksum.\<close>

lemma walChecksumLoop_detects:
  assumes "8 dvd length p" and "length b = 8" and "length b' = 8" and "b \<noteq> b'"
  shows "walChecksumLoop hb n (p @ b @ q) s \<noteq> walChecksumLoop hb n (p @ b' @ q) s"
proof
  assume "walChecksumLoop hb n (p @ b @ q) s = walChecksumLoop hb n (p @ b' @ q) s"
  then have "walChecksumLoop hb n q (cksumStep hb n b (walChecksumLoop hb n p s))
      = walChecksumLoop hb n q (cksumStep hb n b' (walChecksumLoop hb n p s))"
    unfolding walChecksumLoop_append [OF assms(1)] walChecksumLoop_block [OF assms(2)] walChecksumLoop_block [OF assms(3)] .
  then have "cksumStep hb n b (walChecksumLoop hb n p s) = cksumStep hb n b' (walChecksumLoop hb n p s)"
    by (rule walChecksumLoop_inj)
  then show False using cksumStep_block_inj assms by blast
qed

section \<open>Encoding and decoding\<close>

text \<open>The handle of an open log: an eight byte salt and a page size that the format allows.\<close>

definition szPage_ok :: "nat \<Rightarrow> bool" where
  "szPage_ok sz \<longleftrightarrow> 512 \<le> sz \<and> sz \<le> SQLITE_MAX_PAGE_SIZE \<and> (\<exists>k. sz = 2 ^ k)"

lemma put4byte_take [simp]: "take 8 (sqlite3Put4byte a @ sqlite3Put4byte b @ c) = sqlite3Put4byte a @ sqlite3Put4byte b"
  by simp

definition frameCksum :: "bool \<Rightarrow> wal \<Rightarrow> u32 \<Rightarrow> u32 \<Rightarrow> bytes \<Rightarrow> u32 \<times> u32" where
  "frameCksum hb pWal iPage nTruncate aData =
     walChecksumLoop hb (bigEndCksum pWal = hb) (take (szPage pWal) aData)
       (walChecksumLoop hb (bigEndCksum pWal = hb) (sqlite3Put4byte iPage @ sqlite3Put4byte nTruncate) (cksum pWal))"

definition frameHdr :: "wal \<Rightarrow> u32 \<Rightarrow> u32 \<Rightarrow> u32 \<times> u32 \<Rightarrow> bytes" where
  "frameHdr pWal iPage nTruncate c =
     sqlite3Put4byte iPage @ sqlite3Put4byte nTruncate @ aSalt pWal @ sqlite3Put4byte (fst c) @ sqlite3Put4byte (snd c)"

lemma length_frameHdr [simp]: "length (aSalt pWal) = 8 \<Longrightarrow> length (frameHdr pWal iPage nTruncate c) = WAL_FRAME_HDRSIZE"
  by (simp add: frameHdr_def WAL_FRAME_HDRSIZE_def)

lemma walEncodeFrame_eq:
  assumes "length (aSalt pWal) = 8" and "szPage pWal \<le> length aData"
  shows "walEncodeFrame hb pWal iPage nTruncate aData =
    (let c = frameCksum hb pWal iPage nTruncate aData in Some (frameHdr pWal iPage nTruncate c, pWal \<lparr> cksum := c \<rparr>))"
  using assms by (simp add: walEncodeFrame_def walChecksumBytes_def frameCksum_def frameHdr_def Let_def)

lemma walDecodeFrame_eq:
  assumes "length (aSalt pWal) = 8" and "szPage pWal \<le> length aData" and "iPage \<noteq> 0"
  shows "walDecodeFrame hb pWal aData (frameHdr pWal iPage nTruncate c @ rest) =
    (let c' = frameCksum hb pWal iPage nTruncate aData
     in Some (if c' = c then Some (iPage, nTruncate) else None, pWal \<lparr> cksum := c' \<rparr>))"
proof -
  have d: "drop 16 (frameHdr pWal iPage nTruncate c @ rest) = sqlite3Put4byte (fst c) @ sqlite3Put4byte (snd c) @ rest"
    "drop 20 (frameHdr pWal iPage nTruncate c @ rest) = sqlite3Put4byte (snd c) @ rest"
    "drop 4 (frameHdr pWal iPage nTruncate c @ rest) = sqlite3Put4byte nTruncate @ aSalt pWal @ sqlite3Put4byte (fst c) @ sqlite3Put4byte (snd c) @ rest"
    "take 8 (drop 8 (frameHdr pWal iPage nTruncate c @ rest)) = aSalt pWal"
    "take 8 (frameHdr pWal iPage nTruncate c @ rest) = sqlite3Put4byte iPage @ sqlite3Put4byte nTruncate"
    "sqlite3Get4byte (frameHdr pWal iPage nTruncate c @ rest) = Some iPage"
    "8 \<le> length (frameHdr pWal iPage nTruncate c @ rest)"
    using assms(1) by (simp_all add: frameHdr_def)
  show ?thesis
    using assms unfolding walDecodeFrame_def d walChecksumBytes_def
    by (auto simp: WAL_FRAME_HDRSIZE_def frameCksum_def Let_def prod_eq_iff)
qed

section \<open>Recovering a log\<close>

text \<open>A frame to be logged: page number, commit field and content.\<close>

type_synonym logFrame = "u32 \<times> u32 \<times> bytes"

text \<open>The bytes of a sequence of frames and the handle after they are encoded.\<close>

primrec walLogFrames :: "bool \<Rightarrow> wal \<Rightarrow> logFrame list \<Rightarrow> (bytes \<times> wal) option" where
  "walLogFrames hb pWal [] = Some ([], pWal)"
| "walLogFrames hb pWal (f # fs) = do {
     (h, pWal) \<leftarrow> walEncodeFrame hb pWal (fst f) (fst (snd f)) (snd (snd f));
     (b, pWal) \<leftarrow> walLogFrames hb pWal fs;
     Some (h @ snd (snd f) @ b, pWal)
   }"

definition frame_ok :: "nat \<Rightarrow> logFrame \<Rightarrow> bool" where
  "frame_ok sz f \<longleftrightarrow> fst f \<noteq> 0 \<and> length (snd (snd f)) = sz"

text \<open>What is known after reading frames: the last commit, its database size and its checksum.\<close>

primrec logCommit :: "bool \<Rightarrow> wal \<Rightarrow> nat \<Rightarrow> logFrame list \<Rightarrow> nat \<times> u32 \<times> (u32 \<times> u32) \<Rightarrow> nat \<times> u32 \<times> (u32 \<times> u32)" where
  "logCommit hb pWal i [] acc = acc"
| "logCommit hb pWal i (f # fs) acc =
     (let c = frameCksum hb pWal (fst f) (fst (snd f)) (snd (snd f))
      in logCommit hb (pWal \<lparr> cksum := c \<rparr>) (i + 1) fs
           (if fst (snd f) \<noteq> 0 then (i + 1, fst (snd f), c) else acc))"

lemma walLogFrames_Cons:
  assumes "length (aSalt pWal) = 8" and "frame_ok (szPage pWal) f"
  shows "walLogFrames hb pWal (f # fs) =
    (let c = frameCksum hb pWal (fst f) (fst (snd f)) (snd (snd f))
     in do { (b, w) \<leftarrow> walLogFrames hb (pWal \<lparr> cksum := c \<rparr>) fs;
             Some (frameHdr pWal (fst f) (fst (snd f)) c @ snd (snd f) @ b, w) })"
  using assms by (simp add: walEncodeFrame_eq frame_ok_def Let_def)

lemma walLogFrames_Some:
  assumes "length (aSalt pWal) = 8" and "list_all (frame_ok (szPage pWal)) fs"
  shows "\<exists>b w. walLogFrames hb pWal fs = Some (b, w) \<and> length b = length fs * (szPage pWal + WAL_FRAME_HDRSIZE)
     \<and> w = pWal \<lparr> cksum := cksum w \<rparr>"
  using assms
proof (induction fs arbitrary: pWal)
  case (Cons f fs)
  let ?c = "frameCksum hb pWal (fst f) (fst (snd f)) (snd (snd f))"
  obtain b w where "walLogFrames hb (pWal \<lparr> cksum := ?c \<rparr>) fs = Some (b, w)"
    "length b = length fs * (szPage pWal + WAL_FRAME_HDRSIZE)" "w = pWal \<lparr> cksum := cksum w \<rparr>"
    using Cons.IH [of "pWal \<lparr> cksum := ?c \<rparr>"] Cons.prems by auto
  then show ?case using Cons.prems
    by (simp add: walLogFrames_Cons Let_def del: walLogFrames.simps) (auto simp: frame_ok_def)
qed simp

text \<open>Encoding and decoding depend on four fields of the handle.\<close>

definition same_log :: "wal \<Rightarrow> wal \<Rightarrow> bool" where
  "same_log e w \<longleftrightarrow> aSalt e = aSalt w \<and> bigEndCksum e = bigEndCksum w \<and> szPage e = szPage w \<and> cksum e = cksum w"

lemma same_log_frame: "same_log e w \<Longrightarrow> frameCksum hb e = frameCksum hb w \<and> frameHdr e = frameHdr w"
  by (auto simp: same_log_def frameCksum_def frameHdr_def fun_eq_iff)

lemma walDecodeFrame_state: "walDecodeFrame hb w d f = Some (v, w') \<Longrightarrow> w' = w \<lparr> cksum := cksum w' \<rparr>"
  by (auto simp: walDecodeFrame_def Let_def bind_eq_Some_conv split: if_splits)

lemma same_log_decode: "same_log e w \<Longrightarrow> map_option fst (walDecodeFrame hb e d f) = map_option fst (walDecodeFrame hb w d f)"
  by (auto simp: same_log_def walDecodeFrame_def Let_def walChecksumBytes_def split: bind_splits)

text \<open>The rest of the file after the frames stops the loop: it is too short or not a valid frame.\<close>

definition log_stops :: "bool \<Rightarrow> wal \<Rightarrow> bytes \<Rightarrow> bool" where
  "log_stops hb pWal rest \<longleftrightarrow> length rest < szPage pWal + WAL_FRAME_HDRSIZE \<or>
     (let aFrame = take (szPage pWal + WAL_FRAME_HDRSIZE) rest
      in map_option fst (walDecodeFrame hb pWal (drop WAL_FRAME_HDRSIZE aFrame) aFrame) = Some None)"

text \<open>Reads inside the file return its bytes.\<close>

definition reads_file :: "(nat \<Rightarrow> nat \<Rightarrow> rcode + bytes) \<Rightarrow> bytes \<Rightarrow> bool" where
  "reads_file osRead file \<longleftrightarrow> (\<forall>off n. off + n \<le> length file \<longrightarrow> osRead off n = Inr (take n (drop off file)))"

lemma walRecoverLoop_stops:
  assumes stops: "log_stops hb e rest" and same: "same_log e w" and rf: "reads_file osRead (pre @ rest)" and nSize: "nSize = length pre + length rest"
    and off: "iOffset = length pre" and sz: "szPg = szPage w"
  shows "\<exists>c. walRecoverLoop hb osRead rcMap nSize szPg iOffset iFrame w saved = Some (SQLITE_OK, w \<lparr> cksum := c \<rparr>, saved)"
proof (cases "length rest < szPg + WAL_FRAME_HDRSIZE")
  case True
  then have "walRecoverLoop hb osRead rcMap nSize szPg iOffset iFrame w saved = Some (SQLITE_OK, w \<lparr> cksum := cksum w \<rparr>, saved)"
    using nSize off by (subst walRecoverLoop.simps) simp
  then show ?thesis by blast
next
  case False
  let ?f = "take (szPg + WAL_FRAME_HDRSIZE) rest"
  have rd: "osRead iOffset (szPg + WAL_FRAME_HDRSIZE) = Inr ?f"
    using rf False off by (simp add: reads_file_def)
  have "szPage e = szPg" using same sz by (simp add: same_log_def)
  then have "map_option fst (walDecodeFrame hb w (drop WAL_FRAME_HDRSIZE ?f) ?f) = Some None"
    using stops False same_log_decode [OF same, of hb] by (simp add: log_stops_def Let_def)
  then obtain w' where w': "walDecodeFrame hb w (drop WAL_FRAME_HDRSIZE ?f) ?f = Some (None, w')" by auto
  have "walRecoverLoop hb osRead rcMap nSize szPg iOffset iFrame w saved = Some (SQLITE_OK, w', saved)"
    using rd False nSize off w' by (subst walRecoverLoop.simps) simp
  then show ?thesis using walDecodeFrame_state [OF w'] by metis
qed

lemma walRecoverLoop_log:
  assumes "walLogFrames hb e fs = Some (b, e')" and "same_log e w" and "length (aSalt w) = 8" and "list_all (frame_ok (szPage w)) fs"
    and "log_stops hb e' rest" and "reads_file osRead (pre @ b @ rest)" and "\<forall>h. rcMap h = SQLITE_OK"
    and "wal_ok (idx w) ps" and "mxFrame (idx w) \<le> length ps"
    and "nSize = length (pre @ b @ rest)"
  shows "\<exists>w' saved'. walRecoverLoop hb osRead rcMap nSize (szPage w) (length pre) (length ps) w saved = Some (SQLITE_OK, w', saved')
    \<and> wal_ok (idx w') (ps @ map fst fs)
    \<and> (mxFrame (idx w'), nPage w', saved') = logCommit hb e (length ps) fs (mxFrame (idx w), nPage w, saved)
    \<and> aSalt w' = aSalt w \<and> bigEndCksum w' = bigEndCksum w \<and> szPage w' = szPage w \<and> nCkpt w' = nCkpt w"
  using assms
proof (induction fs arbitrary: e b w pre ps saved)
  case Nil
  then have e: "e' = e" "b = []" by auto
  obtain c where "walRecoverLoop hb osRead rcMap nSize (szPage w) (length pre) (length ps) w saved = Some (SQLITE_OK, w \<lparr> cksum := c \<rparr>, saved)"
    using walRecoverLoop_stops [of hb e rest w osRead pre nSize "length pre" "szPage w" rcMap "length ps" saved] Nil.prems e by auto
  then show ?case using Nil.prems(8,9,10) by (intro exI [of _ "w \<lparr> cksum := c \<rparr>"] exI [of _ saved]) simp
next
  case (Cons f fs)
  obtain p n d where f: "f = (p, n, d)" by (cases f) auto
  have d: "length d = szPage w" "p \<noteq> 0" using Cons.prems(4) f by (auto simp: frame_ok_def)
  have sl: "length (aSalt e) = 8" "szPage e = szPage w" using Cons.prems(2,3) by (auto simp: same_log_def)
  define c where "c = frameCksum hb w p n d"
  let ?e = "e \<lparr> cksum := c \<rparr>"
  have fe: "frameCksum hb e = frameCksum hb w" "frameHdr e = frameHdr w" using same_log_frame [OF Cons.prems(2)] by auto
  obtain b' where b': "walLogFrames hb ?e fs = Some (b', e')" "b = frameHdr w p n c @ d @ b'"
  proof -
    have "walLogFrames hb e (f # fs) = do { (b, w') \<leftarrow> walLogFrames hb ?e fs; Some (frameHdr w p n c @ d @ b, w') }"
      using walLogFrames_Cons [OF sl(1), of f hb fs] d f by (simp add: sl(2) frame_ok_def c_def fe Let_def del: walLogFrames.simps)
    then show thesis using Cons.prems(1) that
      by (cases "walLogFrames hb ?e fs") (auto simp del: walLogFrames.simps)
  qed
  let ?f = "frameHdr w p n c @ d"
  have lf: "length ?f = szPage w + WAL_FRAME_HDRSIZE" using d Cons.prems(3) by simp
  have rd: "osRead (length pre) (szPage w + WAL_FRAME_HDRSIZE) = Inr ?f"
    using Cons.prems(6) b' lf by (simp add: reads_file_def)
  have dec: "walDecodeFrame hb w (drop WAL_FRAME_HDRSIZE ?f) ?f = Some (Some (p, n), w \<lparr> cksum := c \<rparr>)"
    using walDecodeFrame_eq [OF Cons.prems(3), of d p hb n c d] d Cons.prems(3) by (simp add: c_def Let_def)
  obtain i where i: "walIndexAppend rcMap (idx w) (Suc (length ps)) p = (SQLITE_OK, i)" "wal_ok i (ps @ [p])" "mxFrame i = mxFrame (idx w)"
    using walIndexAppend_lemma [of "idx w" ps "[]" p rcMap] Cons.prems d by auto
  define w1 where "w1 = (if n \<noteq> 0 then w \<lparr> cksum := c, idx := i \<lparr> mxFrame := length ps + 1 \<rparr>, nPage := n, hdrSzPage := walSzPageCode (szPage w) \<rparr>
      else w \<lparr> cksum := c, idx := i \<rparr>)"
  let ?s = "if n \<noteq> 0 then c else saved"
  have step: "walRecoverLoop hb osRead rcMap nSize (szPage w) (length pre) (length ps) w saved =
      walRecoverLoop hb osRead rcMap nSize (szPage w1) (length (pre @ ?f)) (length (ps @ [p])) w1 ?s"
    using rd dec i(1) lf Cons.prems(10) b'(2)
    by (subst walRecoverLoop.simps) (simp add: w1_def add_ac del: walRecoverLoop.simps)
  have w1: "same_log ?e w1" "length (aSalt w1) = 8" "szPage w1 = szPage w" "wal_ok (idx w1) (ps @ [p])" "mxFrame (idx w1) \<le> length (ps @ [p])"
    "aSalt w1 = aSalt w \<and> bigEndCksum w1 = bigEndCksum w \<and> nCkpt w1 = nCkpt w"
    using Cons.prems(2,3,9) i by (auto simp: w1_def same_log_def)
  have "\<exists>w' saved'. walRecoverLoop hb osRead rcMap nSize (szPage w1) (length (pre @ ?f)) (length (ps @ [p])) w1 ?s = Some (SQLITE_OK, w', saved')
    \<and> wal_ok (idx w') ((ps @ [p]) @ map fst fs)
    \<and> (mxFrame (idx w'), nPage w', saved') = logCommit hb ?e (length (ps @ [p])) fs (mxFrame (idx w1), nPage w1, ?s)
    \<and> aSalt w' = aSalt w1 \<and> bigEndCksum w' = bigEndCksum w1 \<and> szPage w' = szPage w1 \<and> nCkpt w' = nCkpt w1"
    by (rule Cons.IH [OF b'(1) w1(1,2) _ Cons.prems(5) _ Cons.prems(7) w1(4,5)]) (use Cons.prems(4,6,10) b' w1(3) in simp_all)
  moreover have "logCommit hb e (length ps) (f # fs) (mxFrame (idx w), nPage w, saved) =
      logCommit hb ?e (length (ps @ [p])) fs (mxFrame (idx w1), nPage w1, ?s)"
    using i(3) by (simp add: f c_def w1_def fe Let_def)
  ultimately show ?case unfolding step using w1(3,6) f by auto
qed

text \<open>The header of the log file.\<close>

definition walHdrBody :: "bool \<Rightarrow> nat \<Rightarrow> u32 \<Rightarrow> bytes \<Rightarrow> bytes" where
  "walHdrBody hb sz n salt =
     sqlite3Put4byte (WAL_MAGIC OR (if hb then 1 else 0)) @ sqlite3Put4byte WAL_MAX_VERSION
     @ sqlite3Put4byte (word_of_nat sz) @ sqlite3Put4byte n @ salt"

definition walHdrCksum :: "bool \<Rightarrow> nat \<Rightarrow> u32 \<Rightarrow> bytes \<Rightarrow> u32 \<times> u32" where
  "walHdrCksum hb sz n salt = walChecksumLoop hb True (walHdrBody hb sz n salt) (0, 0)"

definition walHdrBytes :: "bool \<Rightarrow> nat \<Rightarrow> u32 \<Rightarrow> bytes \<Rightarrow> bytes" where
  "walHdrBytes hb sz n salt =
     walHdrBody hb sz n salt @ sqlite3Put4byte (fst (walHdrCksum hb sz n salt)) @ sqlite3Put4byte (snd (walHdrCksum hb sz n salt))"

lemma length_walHdrBytes [simp]: "length salt = 8 \<Longrightarrow> length (walHdrBytes hb sz n salt) = WAL_HDRSIZE"
  by (simp add: walHdrBytes_def walHdrBody_def WAL_HDRSIZE_def)

lemma szPage_ok_cases:
  assumes "szPage_ok sz"
  shows "sz \<in> {512, 1024, 2048, 4096, 8192, 16384, 32768, 65536}"
proof -
  obtain k where k: "sz = 2 ^ k" "512 \<le> sz" "sz \<le> 65536" using assms by (auto simp: szPage_ok_def SQLITE_MAX_PAGE_SIZE_def)
  have "9 \<le> k"
  proof (rule ccontr)
    assume "\<not> 9 \<le> k"
    then have "(2::nat) ^ k \<le> 2 ^ 8" by (intro power_increasing) simp_all
    then show False using k by simp
  qed
  moreover have "k \<le> 16"
  proof (rule ccontr)
    assume "\<not> k \<le> 16"
    then have "(2::nat) ^ 17 \<le> 2 ^ k" by (intro power_increasing) simp_all
    then show False using k by simp
  qed
  ultimately have "k \<in> {9, 10, 11, 12, 13, 14, 15, 16}" by auto
  then show ?thesis using k(1) by auto
qed

lemma szPage_word:
  assumes "szPage_ok sz"
  shows "unat (word_of_nat sz :: u32) = sz \<and> (word_of_nat sz :: u32) AND (word_of_nat sz - 1) = 0
    \<and> walSzPageDecode (walSzPageCode sz) = sz \<and> 8 dvd sz"
  using szPage_ok_cases [OF assms] by (auto simp: walSzPageDecode_def walSzPageCode_def)

lemma walMagic_bits:
  "(WAL_MAGIC OR (if hb then 1 else 0)) AND 0xFFFFFFFE = WAL_MAGIC"
  "((WAL_MAGIC OR (if hb then 1 else 0)) AND 1 = 1) = hb"
  by (cases hb; simp add: WAL_MAGIC_def)+

lemma walHdrBytes_fields:
  assumes "length salt = 8"
  shows "sqlite3Get4byte (walHdrBytes hb sz n salt) = Some (WAL_MAGIC OR (if hb then 1 else 0))"
    "sqlite3Get4byte (drop 4 (walHdrBytes hb sz n salt)) = Some WAL_MAX_VERSION"
    "sqlite3Get4byte (drop 8 (walHdrBytes hb sz n salt)) = Some (word_of_nat sz)"
    "sqlite3Get4byte (drop 12 (walHdrBytes hb sz n salt)) = Some n"
    "take 8 (drop 16 (walHdrBytes hb sz n salt)) = salt"
    "sqlite3Get4byte (drop 24 (walHdrBytes hb sz n salt)) = Some (fst (walHdrCksum hb sz n salt))"
    "sqlite3Get4byte (drop 28 (walHdrBytes hb sz n salt)) = Some (snd (walHdrCksum hb sz n salt))"
    "take 24 (walHdrBytes hb sz n salt) = walHdrBody hb sz n salt"
  using assms get4byte_put4byte [of "snd (walHdrCksum hb sz n salt)" "[]"] by (simp_all add: walHdrBytes_def walHdrBody_def)

text \<open>
  The handle that a fresh log written with byte order \<open>big\<close>, page size \<open>sz\<close>, checkpoint number \<open>n\<close> and
  salt \<open>salt\<close> starts from.
\<close>

definition logStart :: "bool \<Rightarrow> nat \<Rightarrow> u32 \<Rightarrow> bytes \<Rightarrow> wal \<Rightarrow> wal" where
  "logStart big sz n salt pWal = pWal \<lparr> bigEndCksum := big, szPage := sz, nCkpt := n, aSalt := salt, cksum := walHdrCksum big sz n salt \<rparr>"

lemma walRecoverHdr_log:
  assumes "length salt = 8" and "szPage_ok sz"
  shows "walRecoverHdr hb nSize osRead True rcMap (walHdrBytes big sz n salt) pWal =
    (do { (rc, w, saved) \<leftarrow> walRecoverLoop hb osRead rcMap nSize sz WAL_HDRSIZE 0 (logStart big sz n salt pWal) (0, 0);
          Some (rc, if rc = SQLITE_OK then walRecoverFinish w saved else w) })"
proof -
  note sz = szPage_word [OF assms(2)]
  have rng: "\<not> sz < 512" "\<not> SQLITE_MAX_PAGE_SIZE < sz" using assms(2) by (auto simp: szPage_ok_def)
  have len: "WAL_HDRSIZE - 2 * 4 \<le> length (walHdrBytes big sz n salt)" "WAL_HDRSIZE - 2 * 4 = 24"
    using assms(1) by (simp_all add: WAL_HDRSIZE_def)
  have ck: "walChecksumBytes hb (big = hb) (walHdrBytes big sz n salt) (WAL_HDRSIZE - 2 * 4) None = Some (walHdrCksum big sz n salt)"
    using len unfolding walChecksumBytes_def len(2) walHdrBytes_fields(8) [OF assms(1)]
    by (simp add: walChecksumLoop_host walHdrCksum_def)
  show ?thesis
    unfolding walRecoverHdr_def
    using sz rng by (simp add: walHdrBytes_fields [OF assms(1)] walMagic_bits ck [simplified] walRecoverFrames_def logStart_def Let_def)
qed

text \<open>The state recovery starts from and the file it reads.\<close>

definition pages_sized :: "wal \<Rightarrow> bool" where
  "pages_sized w \<longleftrightarrow> (\<forall>h. length (pgnos (apWiData (idx w) h)) = walNEntry h)"

lemma walIndexRecover_log:
  assumes salt: "length salt = 8" and sz: "szPage_ok sz" and fs: "list_all (frame_ok sz) fs"
    and log: "walLogFrames hb (logStart big sz n salt w) fs = Some (b, e')" and stops: "log_stops hb e' rest"
    and fl: "file = walHdrBytes big sz n salt @ b @ rest" and rf: "reads_file osRead file" and long: "length file > WAL_HDRSIZE"
    and rc: "\<forall>h. rcMap h = SQLITE_OK" and ps: "pages_sized w"
  shows "\<exists>w'. walIndexRecover hb SQLITE_OK (Inr (length file)) osRead True rcMap w = Some (SQLITE_OK, w')
    \<and> wal_ok (idx w') (map fst fs)
    \<and> (mxFrame (idx w'), nPage w', cksum w') = logCommit hb (logStart big sz n salt w) 0 fs (0, 0, (0, 0))
    \<and> aSalt w' = salt \<and> bigEndCksum w' = big \<and> szPage w' = sz \<and> nCkpt w' = n
    \<and> shared w' = \<lparr> h_mxFrame = mxFrame (idx w'), h_cksum = cksum w' \<rparr>"
proof -
  let ?w = "logStart big sz n salt (walHdrZero w)" and ?e = "logStart big sz n salt w"
  have len: "length (walHdrBytes big sz n salt) = WAL_HDRSIZE" using salt by simp
  have rd: "osRead 0 WAL_HDRSIZE = Inr (walHdrBytes big sz n salt)"
    using rf fl len by (simp add: reads_file_def)
  have "wal_ok (idx ?w) []" using ps by (simp add: wal_ok_def pages_sized_def logStart_def walHdrZero_def)
  moreover have "mxFrame (idx ?w) = 0" "nPage ?w = 0" by (simp_all add: logStart_def walHdrZero_def)
  moreover have "same_log ?e ?w" "length (aSalt ?w) = 8" "szPage ?w = sz" "list_all (frame_ok (szPage ?w)) fs"
    using salt fs by (simp_all add: same_log_def logStart_def)
  ultimately obtain w' saved' where w': "walRecoverLoop hb osRead rcMap (length file) sz WAL_HDRSIZE 0 ?w (0, 0) = Some (SQLITE_OK, w', saved')"
    "wal_ok (idx w') (map fst fs)" "(mxFrame (idx w'), nPage w', saved') = logCommit hb ?e 0 fs (0, 0, (0, 0))"
    "aSalt w' = aSalt ?w \<and> bigEndCksum w' = bigEndCksum ?w \<and> szPage w' = szPage ?w \<and> nCkpt w' = nCkpt ?w"
    using walRecoverLoop_log [OF log, of ?w rest osRead "walHdrBytes big sz n salt" rcMap "[]" "length file" "(0, 0)"]
      stops rf fl rc len by auto
  have "walIndexRecover hb SQLITE_OK (Inr (length file)) osRead True rcMap w = Some (SQLITE_OK, walRecoverFinish w' saved')"
    using rd long w'(1) walRecoverHdr_log [OF salt sz, of hb "length file" osRead rcMap big n "walHdrZero w"]
    by (simp add: walIndexRecover_def Let_def)
  then show ?thesis
    using w'(2,3,4) by (auto simp: walRecoverFinish_def walIndexWriteHdr_def Let_def logStart_def)
qed

text \<open>The last commit: all later frames have a zero commit field.\<close>

lemma logCommit_append: "logCommit hb e i (fs @ gs) acc =
   (case walLogFrames hb e fs of Some (b, e') \<Rightarrow> logCommit hb e' (i + length fs) gs (logCommit hb e i fs acc) | None \<Rightarrow> undefined)"
  if "length (aSalt e) = 8" "list_all (frame_ok (szPage e)) fs"
  using that
proof (induction fs arbitrary: e i acc)
  case (Cons f fs)
  let ?c = "frameCksum hb e (fst f) (fst (snd f)) (snd (snd f))"
  obtain b' w' where r: "walLogFrames hb (e \<lparr> cksum := ?c \<rparr>) fs = Some (b', w')"
    using walLogFrames_Some [of "e \<lparr> cksum := ?c \<rparr>" fs hb] Cons.prems by auto
  then show ?case
    using Cons.IH [of "e \<lparr> cksum := ?c \<rparr>" "i + 1" "if fst (snd f) \<noteq> 0 then (i + 1, fst (snd f), ?c) else acc"] Cons.prems
    by (simp add: walLogFrames_Cons Let_def del: walLogFrames.simps)
qed simp

lemma logCommit_uncommitted: "\<forall>f \<in> set fs. fst (snd f) = 0 \<Longrightarrow> logCommit hb e i fs acc = acc"
  by (induction fs arbitrary: e i) (simp_all add: Let_def)

section \<open>Main results on the format\<close>

lemma walLogFrames_append:
  "walLogFrames hb w (fs @ gs) = do { (b, w) \<leftarrow> walLogFrames hb w fs; (b', w) \<leftarrow> walLogFrames hb w gs; Some (b @ b', w) }"
  by (induction fs arbitrary: w) (auto split: bind_splits simp: Option.bind_assoc case_prod_unfold)

lemma walChecksumBytes_host: "walChecksumBytes hb (big = hb) a n i = walChecksumBytes big True a n i"
  by (simp add: walChecksumBytes_def walChecksumLoop_host)

lemma walEncodeFrame_host: "walEncodeFrame hb w p n d = walEncodeFrame hb' w p n d"
  unfolding walEncodeFrame_def Let_def walChecksumBytes_host ..

lemma walDecodeFrame_host: "walDecodeFrame hb w d f = walDecodeFrame hb' w d f"
  unfolding walDecodeFrame_def Let_def walChecksumBytes_host ..

lemma walLogFrames_host: "walLogFrames hb w fs = walLogFrames hb' w fs"
proof (induction fs arbitrary: w)
  case (Cons f fs)
  show ?case unfolding walLogFrames.simps walEncodeFrame_host [of hb _ _ _ _ hb'] Cons.IH ..
qed simp

lemma log_stops_host: "log_stops hb w rest = log_stops hb' w rest"
  unfolding log_stops_def walDecodeFrame_host [of hb _ _ _ hb'] ..

lemma logCommit_last:
  assumes "length (aSalt e) = 8" and "list_all (frame_ok (szPage e)) cs" and "cs = [] \<or> fst (snd (last cs)) \<noteq> 0"
    and "walLogFrames hb e cs = Some (b, e')"
  shows "logCommit hb e 0 cs (0, 0, (0, 0)) = (length cs, if cs = [] then 0 else fst (snd (last cs)), if cs = [] then (0, 0) else cksum e')"
proof (cases cs rule: rev_cases)
  case (snoc as a)
  let ?c = "\<lambda>e. frameCksum hb e (fst a) (fst (snd a)) (snd (snd a))"
  obtain b1 e1 where 1: "walLogFrames hb e as = Some (b1, e1)" "e1 = e \<lparr> cksum := cksum e1 \<rparr>"
    using walLogFrames_Some [of e as hb] assms(1,2) snoc by auto
  have fields: "aSalt e1 = aSalt e" "szPage e1 = szPage e" by (subst 1(2), simp)+
  have "walLogFrames hb e1 [a] = Some (frameHdr e1 (fst a) (fst (snd a)) (?c e1) @ snd (snd a), e1 \<lparr> cksum := ?c e1 \<rparr>)"
    using walLogFrames_Cons [of e1 a hb "[]"] assms(1,2) snoc fields by (simp add: Let_def)
  then have "e' = e1 \<lparr> cksum := ?c e1 \<rparr>"
    using assms(4) 1(1) snoc walLogFrames_append [of hb e as "[a]"] by (auto simp del: walLogFrames.simps)
  then show ?thesis
    using logCommit_append [of e as hb 0 "[a]"] assms(1,2,3) 1(1) snoc by (simp add: Let_def del: walLogFrames.simps)
qed simp

text \<open>C15. A frame whose content differs from the written one inside one aligned block of eight bytes is
  rejected by the checksum of the frame header, on every host.\<close>

theorem walDecodeFrame_detects_corruption:
  assumes "walEncodeFrame hb pWal iPage nTruncate (p @ b @ q) = Some (aFrame, pWal')"
    and "length (aSalt pWal) = 8" and "iPage \<noteq> 0" and "length (p @ b @ q) = szPage pWal"
    and "8 dvd length p" and "length b = 8" and "length b' = 8" and "b' \<noteq> b"
  shows "\<exists>w. walDecodeFrame hb' pWal (p @ b' @ q) aFrame = Some (None, w)"
proof -
  let ?c = "frameCksum hb pWal iPage nTruncate (p @ b @ q)"
  have f: "aFrame = frameHdr pWal iPage nTruncate ?c @ []"
    using assms(1) walEncodeFrame_eq [OF assms(2), of "p @ b @ q" hb iPage nTruncate] assms(4) by (simp add: Let_def)
  have t: "take (szPage pWal) (p @ b @ q) = p @ b @ q" "take (szPage pWal) (p @ b' @ q) = p @ b' @ q"
    using assms(4,6,7) by (simp_all flip: assms(4))
  have "frameCksum hb pWal iPage nTruncate (p @ b' @ q) \<noteq> ?c"
    unfolding frameCksum_def t by (rule walChecksumLoop_detects) (use assms(5,6,7,8) in auto)
  moreover have "szPage pWal \<le> length (p @ b' @ q)" using assms(4,6,7) by simp
  ultimately show ?thesis
    using walDecodeFrame_eq [OF assms(2) _ assms(3), of "p @ b' @ q" hb nTruncate ?c "[]"]
    unfolding f walDecodeFrame_host [of hb' _ _ _ hb] by (simp add: Let_def)
qed

definition wal0 :: wal where
  "wal0 = \<lparr> idx = walEmpty, cksum = (0, 0), nCkpt = 0, shared = \<lparr> h_mxFrame = 0, h_cksum = (0, 0) \<rparr>, aSalt = replicate 8 0,
     bigEndCksum = False, szPage = 512, hdrSzPage = 0, nPage = 0, iChange = 0, ckpt = \<lparr> nBackfill = 0, aReadMark = replicate 5 0 \<rparr>,
     truncateOnCommit = False, iCallback = 0, heldReadLock = Some 1 \<rparr>"

theorem walDecodeFrame_detects_corruption_witness:
  "\<exists>aFrame pWal' w. walEncodeFrame True wal0 3 0 (replicate 8 1 @ replicate 8 0 @ replicate 496 0) = Some (aFrame, pWal')
     \<and> walDecodeFrame False wal0 (replicate 8 1 @ replicate 8 7 @ replicate 496 0) aFrame = Some (None, w)"
proof -
  have l: "length (aSalt wal0) = 8" "szPage wal0 \<le> length (replicate 8 1 @ replicate 8 0 @ replicate 496 (0 :: u8))" by (simp_all add: wal0_def)
  obtain f w where e: "walEncodeFrame True wal0 3 0 (replicate 8 1 @ replicate 8 0 @ replicate 496 0) = Some (f, w)"
    using walEncodeFrame_eq [OF l, of True 3 0] by (auto simp: Let_def)
  moreover have "\<exists>w. walDecodeFrame False wal0 (replicate 8 1 @ replicate 8 7 @ replicate 496 0) f = Some (None, w)"
    by (rule walDecodeFrame_detects_corruption [OF e]) (use l in \<open>simp_all add: wal0_def\<close>)
  ultimately show ?thesis by blast
qed

text \<open>C9. Recovery of a log written on a host of either byte order rebuilds the wal-index: the snapshot
  ends with the last commit, later frames without a commit and anything that is not a valid frame are
  ignored, and a lookup finds the newest committed frame of every page.\<close>

theorem walIndexRecover_correct:
  assumes "length salt = 8" and "szPage_ok sz" and "list_all (frame_ok sz) (cs @ us)"
    and "cs = [] \<or> fst (snd (last cs)) \<noteq> 0" and "\<forall>f \<in> set us. fst (snd f) = 0"
    and "walLogFrames hbw (logStart hbw sz n salt pWal) (cs @ us) = Some (b, e')" and "log_stops hb e' rest"
    and "file = walHdrBytes hbw sz n salt @ b @ rest" and "reads_file osRead file" and "length file > WAL_HDRSIZE"
    and "\<forall>h. rcMap h = SQLITE_OK" and "pages_sized pWal"
  shows "\<exists>w'. walIndexRecover hb SQLITE_OK (Inr (length file)) osRead True rcMap pWal = Some (SQLITE_OK, w')
    \<and> mxFrame (idx w') = length cs \<and> nPage w' = (if cs = [] then 0 else fst (snd (last cs)))
    \<and> wal_ok (idx w') (map fst (cs @ us))
    \<and> (\<forall>p. sqlite3WalFindFrame rcMap (idx w') False p = Inr (lastFrame (map fst cs) p))"
proof -
  let ?e = "logStart hbw sz n salt pWal"
  have log: "walLogFrames hb ?e (cs @ us) = Some (b, e')" using assms(6) walLogFrames_host by metis
  obtain w' where w': "walIndexRecover hb SQLITE_OK (Inr (length file)) osRead True rcMap pWal = Some (SQLITE_OK, w')"
    "wal_ok (idx w') (map fst (cs @ us))"
    "(mxFrame (idx w'), nPage w', cksum w') = logCommit hb ?e 0 (cs @ us) (0, 0, (0, 0))"
    using walIndexRecover_log [OF assms(1,2,3) log assms(7-12)] by blast
  have e: "length (aSalt ?e) = 8" "list_all (frame_ok (szPage ?e)) cs" using assms(1,3) by (simp_all add: logStart_def)
  obtain b1 e1 where 1: "walLogFrames hb ?e cs = Some (b1, e1)" using walLogFrames_Some [OF e] by blast
  have "logCommit hb ?e 0 (cs @ us) (0, 0, (0, 0)) = logCommit hb ?e 0 cs (0, 0, (0, 0))"
    using logCommit_append [OF e, of hb 0 us] 1 logCommit_uncommitted [OF assms(5)] by simp
  also have "\<dots> = (length cs, if cs = [] then 0 else fst (snd (last cs)), if cs = [] then (0, 0) else cksum e1)"
    by (rule logCommit_last [OF e assms(4) 1])
  finally have mx: "mxFrame (idx w') = length cs" "nPage w' = (if cs = [] then 0 else fst (snd (last cs)))" using w'(3) by auto
  have "sqlite3WalFindFrame rcMap (idx w') False p = Inr (lastFrame (map fst cs) p)" for p
    using sqlite3WalFindFrame_lemma [OF w'(2) assms(11), of False p] mx(1) by simp
  then show ?thesis using w'(1,2) mx by blast
qed

theorem walIndexRecover_correct_witness:
  "\<exists>b w'. length b = 536
    \<and> walIndexRecover False SQLITE_OK (Inr (length (walHdrBytes True 512 0 (replicate 8 5) @ b)))
        (\<lambda>off n. Inr (take n (drop off (walHdrBytes True 512 0 (replicate 8 5) @ b)))) True (\<lambda>_. SQLITE_OK) wal0 = Some (SQLITE_OK, w')
    \<and> mxFrame (idx w') = 1 \<and> nPage w' = 4"
proof -
  let ?fs = "[(3, 4, replicate 512 7)] :: logFrame list" and ?s = "replicate 8 5 :: bytes"
  have salt: "length ?s = 8" and sz: "szPage_ok 512" and ok: "list_all (frame_ok 512) (?fs @ [])"
    by (simp_all add: szPage_ok_def SQLITE_MAX_PAGE_SIZE_def frame_ok_def exI [of _ 9])
  have c: "?fs = [] \<or> fst (snd (last ?fs)) \<noteq> 0" "\<forall>f \<in> set ([] :: logFrame list). fst (snd f) = 0" by simp_all
  obtain b e where b: "walLogFrames True (logStart True 512 0 ?s wal0) (?fs @ []) = Some (b, e)" "length b = 536"
    using walLogFrames_Some [of "logStart True 512 0 ?s wal0" "?fs @ []" True] ok by (auto simp: logStart_def WAL_FRAME_HDRSIZE_def)
  have stop: "log_stops False e []" by (simp add: log_stops_def WAL_FRAME_HDRSIZE_def)
  let ?f = "walHdrBytes True 512 0 ?s @ b @ []"
  have "\<exists>w'. walIndexRecover False SQLITE_OK (Inr (length ?f)) (\<lambda>off n. Inr (take n (drop off ?f))) True (\<lambda>_. SQLITE_OK) wal0 = Some (SQLITE_OK, w')
    \<and> mxFrame (idx w') = length ?fs \<and> nPage w' = (if ?fs = [] then 0 else fst (snd (last ?fs)))
    \<and> wal_ok (idx w') (map fst (?fs @ []))
    \<and> (\<forall>p. sqlite3WalFindFrame (\<lambda>_. SQLITE_OK) (idx w') False p = Inr (lastFrame (map fst ?fs) p))"
    by (rule walIndexRecover_correct [OF salt sz ok c b(1) stop refl])
      (use b(2) salt in \<open>simp_all add: reads_file_def pages_sized_def wal0_def walEmpty_def\<close>)
  then show ?thesis using b(2) by auto
qed

end
