(* ===== verification/Wal_Write.thy ===== *)
theory Wal_Write
  imports Wal_Frame
begin

text \<open>
  Writing a set of frames to the log, \<^verbatim>\<open>sqlite3WalFrames\<close> of \<^verbatim>\<open>wal.c\<close>, with the file, the running checksum
  and the wal-index. The restart of the log at the start of the function, \<^verbatim>\<open>walRestartLog\<close>, is included. Every
  write and sync of the operating system and every attempt to take a lock consumes one outcome of a script; a
  failed write may have stored a prefix of its buffer. The write lock is held, so that no other connection
  changes the header; that others do not change the read marks during the call is an assumption of this
  theory, the interleavings are the subject of the theories on the locking protocol.
\<close>

section \<open>The file\<close>

datatype ioResult = IoOk | IoFail rcode nat

type_synonym io = "ioResult list"

definition writeAt :: "bytes \<Rightarrow> nat \<Rightarrow> bytes \<Rightarrow> bytes" where
  "writeAt file off buf =
     (if buf = [] then file else take off (file @ replicate (off - length file) 0) @ buf @ drop (off + length buf) file)"

fun osWrite :: "io \<Rightarrow> bytes \<Rightarrow> bytes \<Rightarrow> nat \<Rightarrow> rcode \<times> io \<times> bytes" where
  "osWrite [] file buf off = (SQLITE_OK, [], writeAt file off buf)"
| "osWrite (IoOk # io) file buf off = (SQLITE_OK, io, writeAt file off buf)"
| "osWrite (IoFail rc k # io) file buf off = (rc, io, writeAt file off (take k buf))"

fun osSync :: "io \<Rightarrow> rcode \<times> io" where
  "osSync [] = (SQLITE_OK, [])"
| "osSync (IoOk # io) = (SQLITE_OK, io)"
| "osSync (IoFail rc k # io) = (rc, io)"

section \<open>Writing frames\<close>

text \<open>A write that reaches the sync point is split there, with a sync in between.\<close>

definition walWriteToLog :: "nat \<Rightarrow> io \<Rightarrow> bytes \<Rightarrow> bytes \<Rightarrow> nat \<Rightarrow> rcode \<times> io \<times> bytes" where
  "walWriteToLog iSyncPoint io file pContent iOffset =
     (if iOffset < iSyncPoint \<and> iOffset + length pContent \<ge> iSyncPoint then
        let iFirstAmt = iSyncPoint - iOffset;
            (rc, io, file) = osWrite io file (take iFirstAmt pContent) iOffset
        in if rc \<noteq> SQLITE_OK then (rc, io, file)
           else let (rc, io) = osSync io
                in if length pContent - iFirstAmt = 0 \<or> rc \<noteq> SQLITE_OK then (rc, io, file)
                   else osWrite io file (drop iFirstAmt pContent) (iOffset + iFirstAmt)
      else osWrite io file pContent iOffset)"

definition walWriteOneFrame :: "bool \<Rightarrow> nat \<Rightarrow> wal \<Rightarrow> io \<Rightarrow> bytes \<Rightarrow> u32 \<times> bytes \<Rightarrow> u32 \<Rightarrow> nat \<Rightarrow>
    (rcode \<times> wal \<times> io \<times> bytes) option" where
  "walWriteOneFrame hb iSyncPoint pWal io file pPage nTruncate iOffset = do {
     (aFrame, pWal) \<leftarrow> walEncodeFrame hb pWal (fst pPage) nTruncate (snd pPage);
     let (rc, io, file) = walWriteToLog iSyncPoint io file aFrame iOffset;
     if rc \<noteq> SQLITE_OK then Some (rc, pWal, io, file)
     else let (rc, io, file) = walWriteToLog iSyncPoint io file (take (szPage pWal) (snd pPage)) (iOffset + length aFrame)
          in Some (rc, pWal, io, file)
   }"

primrec walWriteFrames :: "bool \<Rightarrow> wal \<Rightarrow> io \<Rightarrow> bytes \<Rightarrow> (u32 \<times> bytes) list \<Rightarrow> u32 \<Rightarrow> nat \<Rightarrow>
    (rcode \<times> wal \<times> io \<times> bytes \<times> nat) option" where
  "walWriteFrames hb pWal io file [] nTruncate iOffset = Some (SQLITE_OK, pWal, io, file, iOffset)"
| "walWriteFrames hb pWal io file (p # pDirty) nTruncate iOffset = do {
     (rc, pWal, io, file) \<leftarrow> walWriteOneFrame hb 0 pWal io file p (if pDirty = [] then nTruncate else 0) iOffset;
     if rc \<noteq> SQLITE_OK then Some (rc, pWal, io, file, iOffset)
     else walWriteFrames hb pWal io file pDirty nTruncate (iOffset + (szPage pWal + WAL_FRAME_HDRSIZE))
   }"

text \<open>The commit frame is repeated up to the sync point; the last component counts the copies.\<close>

function walPadFrames :: "bool \<Rightarrow> nat \<Rightarrow> wal \<Rightarrow> io \<Rightarrow> bytes \<Rightarrow> u32 \<times> bytes \<Rightarrow> u32 \<Rightarrow> nat \<Rightarrow> nat \<Rightarrow> nat \<Rightarrow>
    (rcode \<times> wal \<times> io \<times> bytes \<times> nat) option" where
  "walPadFrames hb iSyncPoint pWal io file pLast nTruncate szPg iOffset nExtra =
     (if iOffset < iSyncPoint then do {
        (rc, pWal, io, file) \<leftarrow> walWriteOneFrame hb iSyncPoint pWal io file pLast nTruncate iOffset;
        if rc \<noteq> SQLITE_OK then Some (rc, pWal, io, file, nExtra)
        else walPadFrames hb iSyncPoint pWal io file pLast nTruncate szPg (iOffset + (szPg + WAL_FRAME_HDRSIZE)) (nExtra + 1)
      } else Some (SQLITE_OK, pWal, io, file, nExtra))"
  by pat_completeness auto
termination
  by (relation "measure (\<lambda>(hb, iSyncPoint, pWal, io, file, pLast, nTruncate, szPg, iOffset, nExtra). iSyncPoint - iOffset)")
    (auto simp: WAL_FRAME_HDRSIZE_def)

declare walPadFrames.simps [simp del]

text \<open>
  What the caller and the environment fix for one call: \<open>salt\<close> is what \<^verbatim>\<open>sqlite3_randomness\<close> returns,
  \<open>syncAny\<close> is \<^verbatim>\<open>sync_flags!=0\<close>, \<open>syncTx\<close> is the flag \<^verbatim>\<open>WAL_SYNC_TRANSACTIONS\<close>, \<open>sector\<close> is the sector size
  when \<^verbatim>\<open>padToSectorBoundary\<close> is set, and \<open>limit\<close> is \<^verbatim>\<open>mxWalSize\<close> unless that is negative. For a restart of the
  log, \<open>salt1\<close> is the random number and \<open>lockRc\<close> lists the answers to the attempts to take locks; when it is
  used up the locks are free.
\<close>

record walEnv =
  salt :: bytes
  salt1 :: bytes
  lockRc :: "rcode list"
  syncHeader :: bool
  syncAny :: bool
  syncTx :: bool
  sector :: "nat option"
  limit :: "nat option"

fun osLock :: "rcode list \<Rightarrow> rcode \<times> rcode list" where
  "osLock [] = (SQLITE_OK, [])"
| "osLock (rc # ls) = (rc, ls)"

text \<open>The search for the largest read mark that is not beyond the snapshot: the mark and its number.\<close>

fun walScanMarks :: "nat \<Rightarrow> nat list \<Rightarrow> nat list \<Rightarrow> nat \<times> nat \<Rightarrow> nat \<times> nat" where
  "walScanMarks mx marks [] (mxReadMark, mxI) = (mxReadMark, mxI)"
| "walScanMarks mx marks (i # is) (mxReadMark, mxI) =
     walScanMarks mx marks is (if mxReadMark \<le> marks ! i \<and> marks ! i \<le> mx then (marks ! i, i) else (mxReadMark, mxI))"

text \<open>The search for a read mark that can be set to the end of the snapshot. \<open>Inl\<close> leaves the function.\<close>

fun walRaiseMark :: "nat list \<Rightarrow> wal \<Rightarrow> rcode list \<Rightarrow> rcode \<Rightarrow> nat \<times> nat \<Rightarrow>
    rcode \<times> rcode list + rcode \<times> wal \<times> rcode list \<times> nat \<times> nat" where
  "walRaiseMark [] pWal ls rc m = Inr (rc, pWal, ls, m)"
| "walRaiseMark (i # is) pWal ls rc m =
     (case osLock ls of (rc, ls) \<Rightarrow>
        if rc = SQLITE_OK then
          Inr (rc, pWal \<lparr> ckpt := ckpt pWal \<lparr> aReadMark := (aReadMark (ckpt pWal))[i := mxFrame (idx pWal)] \<rparr> \<rparr>, ls,
            mxFrame (idx pWal), i)
        else if rc \<noteq> SQLITE_BUSY then Inl (rc, ls)
        else walRaiseMark is pWal ls rc m)"

text \<open>\<^verbatim>\<open>walTryBeginRead\<close> with \<^verbatim>\<open>useWal\<close> set, as the restart of the log calls it. \<open>None\<close> is \<^verbatim>\<open>WAL_RETRY\<close>. The wal-index
  of a connection that writes is not read-only.\<close>

definition walTryRead :: "wal \<Rightarrow> rcode list \<Rightarrow> rcode option \<times> wal \<times> rcode list" where
  "walTryRead pWal ls =
     (let mx = mxFrame (idx pWal); (mxReadMark, mxI) = walScanMarks mx (aReadMark (ckpt pWal)) [1..<WAL_NREADER] (0, 0)
      in case (if mxReadMark < mx \<or> mxI = 0 then walRaiseMark [1..<WAL_NREADER] pWal ls SQLITE_OK (mxReadMark, mxI)
               else Inr (SQLITE_OK, pWal, ls, mxReadMark, mxI)) of
           Inl (rc, ls) \<Rightarrow> (Some rc, pWal, ls)
         | Inr (rc, pWal, ls, mxReadMark, mxI) \<Rightarrow>
             if mxI = 0 then (if rc = SQLITE_BUSY then None else Some SQLITE_READONLY_CANTLOCK, pWal, ls)
             else
               (case osLock ls of (rc, ls) \<Rightarrow>
                  if rc \<noteq> SQLITE_OK then (if rc = SQLITE_BUSY then None else Some rc, pWal, ls)
                  else if aReadMark (ckpt pWal) ! mxI \<noteq> mxReadMark \<or> shared pWal \<noteq> \<lparr> h_mxFrame = mx, h_cksum = cksum pWal \<rparr>
                  then (None, pWal, ls)
                  else (Some rc, pWal \<lparr> heldReadLock := Some mxI \<rparr>, ls)))"

text \<open>The loop over \<^verbatim>\<open>WAL_RETRY\<close>: a hundred attempts, the next one returns \<^verbatim>\<open>SQLITE_PROTOCOL\<close>.\<close>

primrec walTryReadLoop :: "nat \<Rightarrow> wal \<Rightarrow> rcode list \<Rightarrow> rcode \<times> wal" where
  "walTryReadLoop 0 pWal ls = (SQLITE_PROTOCOL, pWal)"
| "walTryReadLoop (Suc n) pWal ls =
     (case walTryRead pWal ls of (None, pWal, ls) \<Rightarrow> walTryReadLoop n pWal ls | (Some rc, pWal, ls) \<Rightarrow> (rc, pWal))"

text \<open>The new start of the log: the next frames overwrite it, and the published header says that it is empty.\<close>

definition walResetLog :: "walEnv \<Rightarrow> wal \<Rightarrow> wal option" where
  "walResetLog env pWal = do {
     aSalt0 \<leftarrow> sqlite3Get4byte (aSalt pWal);
     let pWal = pWal \<lparr> nCkpt := nCkpt pWal + 1, idx := (idx pWal) \<lparr> mxFrame := 0 \<rparr>,
       aSalt := sqlite3Put4byte (1 + aSalt0) @ salt1 env \<rparr>;
     let pWal = walIndexWriteHdr pWal;
     Some (pWal \<lparr> ckpt := \<lparr> nBackfill = 0, aReadMark =
       (aReadMark (ckpt pWal)) [1 := 0, 2 := READMARK_NOT_USED, 3 := READMARK_NOT_USED, 4 := READMARK_NOT_USED] \<rparr> \<rparr>)
   }"

definition walRestart :: "walEnv \<Rightarrow> wal \<Rightarrow> (rcode \<times> wal) option" where
  "walRestart env pWal =
     (if heldReadLock pWal = Some 0 then do {
        (rc, pWal, ls) \<leftarrow>
          (if nBackfill (ckpt pWal) > 0 then
             case osLock (lockRc env) of (rc, ls) \<Rightarrow>
               if rc = SQLITE_OK then do { pWal \<leftarrow> walResetLog env pWal; Some (rc, pWal, ls) } else Some (rc, pWal, ls)
           else Some (SQLITE_OK, pWal, lockRc env));
        if rc \<noteq> SQLITE_OK \<and> rc \<noteq> SQLITE_BUSY then Some (rc, pWal)
        else Some (walTryReadLoop 100 (pWal \<lparr> heldReadLock := None \<rparr>) ls)
      } else Some (SQLITE_OK, pWal))"

definition walWriteHdr :: "bool \<Rightarrow> walEnv \<Rightarrow> wal \<Rightarrow> io \<Rightarrow> bytes \<Rightarrow> nat \<Rightarrow> (rcode \<times> wal \<times> io \<times> bytes) option" where
  "walWriteHdr hb env pWal io file szPg = do {
     let pWal = (if nCkpt pWal = 0 then pWal \<lparr> aSalt := salt env \<rparr> else pWal);
     let aWalHdr = sqlite3Put4byte (WAL_MAGIC OR (if hb then 1 else 0)) @ sqlite3Put4byte WAL_MAX_VERSION
           @ sqlite3Put4byte (word_of_nat szPg) @ sqlite3Put4byte (nCkpt pWal) @ aSalt pWal;
     aCksum \<leftarrow> walChecksumBytes hb True aWalHdr (WAL_HDRSIZE - 2 * 4) None;
     let aWalHdr = aWalHdr @ sqlite3Put4byte (fst aCksum) @ sqlite3Put4byte (snd aCksum);
     let pWal = pWal \<lparr> szPage := szPg, bigEndCksum := hb, cksum := aCksum, truncateOnCommit := True \<rparr>;
     let (rc, io, file) = osWrite io file aWalHdr 0;
     if rc \<noteq> SQLITE_OK then Some (rc, pWal, io, file)
     else if syncHeader env \<and> syncAny env then let (rc, io) = osSync io in Some (rc, pWal, io, file)
     else Some (SQLITE_OK, pWal, io, file)
   }"

text \<open>The padding and syncing at the end of a transaction; the last component is \<^verbatim>\<open>nExtra\<close>.\<close>

definition walFinishWrite :: "bool \<Rightarrow> walEnv \<Rightarrow> wal \<Rightarrow> io \<Rightarrow> bytes \<Rightarrow> u32 \<times> bytes \<Rightarrow> u32 \<Rightarrow> bool \<Rightarrow> nat \<Rightarrow>
    (rcode \<times> wal \<times> io \<times> bytes \<times> nat) option" where
  "walFinishWrite hb env pWal io file pLast nTruncate isCommit iOffset =
     (if isCommit \<and> syncTx env then
        (case sector env of
           Some sectorSize \<Rightarrow>
             walPadFrames hb ((iOffset + sectorSize - 1) div sectorSize * sectorSize) pWal io file pLast nTruncate (szPage pWal) iOffset 0
         | None \<Rightarrow> let (rc, io) = osSync io in Some (rc, pWal, io, file, 0))
      else Some (SQLITE_OK, pWal, io, file, 0))"

text \<open>\<^verbatim>\<open>walLimitSize\<close> truncates a longer file; its errors are ignored, so it may do nothing.\<close>

definition walLimitSize :: "io \<Rightarrow> bytes \<Rightarrow> nat \<Rightarrow> io \<times> bytes" where
  "walLimitSize io file nMax =
     (if length file > nMax then let (rc, io) = osSync io in (io, if rc = SQLITE_OK then take nMax file else file)
      else (io, file))"

definition walTruncate :: "walEnv \<Rightarrow> wal \<Rightarrow> io \<Rightarrow> bytes \<Rightarrow> bool \<Rightarrow> nat \<Rightarrow> wal \<times> io \<times> bytes" where
  "walTruncate env pWal io file isCommit iEnd =
     (case limit env of
        Some mx \<Rightarrow> if isCommit \<and> truncateOnCommit pWal
                   then (case walLimitSize io file (max mx iEnd) of (io, file) \<Rightarrow> (pWal \<lparr> truncateOnCommit := False \<rparr>, io, file))
                   else (pWal, io, file)
      | None \<Rightarrow> (pWal, io, file))"

definition walPublish :: "wal \<Rightarrow> walIndex \<Rightarrow> nat \<Rightarrow> u32 \<Rightarrow> bool \<Rightarrow> nat \<Rightarrow> wal" where
  "walPublish pWal i iFrame nTruncate isCommit szPg =
     (let pWal = pWal \<lparr> hdrSzPage := walSzPageCode szPg, idx := i \<lparr> mxFrame := iFrame \<rparr> \<rparr>
      in if isCommit then (walIndexWriteHdr (pWal \<lparr> iChange := iChange pWal + 1, nPage := nTruncate \<rparr>)) \<lparr> iCallback := iFrame \<rparr>
         else pWal)"

definition walAppendAll :: "(nat \<Rightarrow> rcode) \<Rightarrow> wal \<Rightarrow> (u32 \<times> bytes) list \<Rightarrow> nat \<Rightarrow> u32 \<Rightarrow> bool \<Rightarrow> nat \<Rightarrow> rcode \<times> wal" where
  "walAppendAll rcMap pWal pList nExtra nTruncate isCommit szPg =
     (let (rc, iFrame, i) = walAppendList rcMap (idx pWal) (mxFrame (idx pWal)) (map fst pList);
          (rc, iFrame, i) = (if rc = SQLITE_OK then walAppendList rcMap i iFrame (replicate nExtra (fst (last pList)))
                             else (rc, iFrame, i))
      in if rc = SQLITE_OK then (SQLITE_OK, walPublish pWal i iFrame nTruncate isCommit szPg)
         else (rc, pWal \<lparr> idx := i \<rparr>))"

text \<open>The function after the restart of the log.\<close>

definition walWriteSet :: "bool \<Rightarrow> walEnv \<Rightarrow> (nat \<Rightarrow> rcode) \<Rightarrow> wal \<Rightarrow> io \<Rightarrow> bytes \<Rightarrow> nat \<Rightarrow> (u32 \<times> bytes) list \<Rightarrow> u32 \<Rightarrow> bool \<Rightarrow>
    (rcode \<times> wal \<times> io \<times> bytes) option" where
  "walWriteSet hb env rcMap pWal io file szPg pList nTruncate isCommit = do {
     (rc, pWal, io, file) \<leftarrow> (if mxFrame (idx pWal) = 0 then walWriteHdr hb env pWal io file szPg
                            else Some (SQLITE_OK, pWal, io, file));
     if rc \<noteq> SQLITE_OK then Some (rc, pWal, io, file)
     else do {
       (rc, pWal, io, file, iOffset) \<leftarrow>
         walWriteFrames hb pWal io file pList (if isCommit then nTruncate else 0) (walFrameOffset (mxFrame (idx pWal) + 1) szPg);
       if rc \<noteq> SQLITE_OK then Some (rc, pWal, io, file)
       else do {
         (rc, pWal, io, file, nExtra) \<leftarrow> walFinishWrite hb env pWal io file (last pList) nTruncate isCommit iOffset;
         if rc \<noteq> SQLITE_OK \<and> sector env \<noteq> None then Some (rc, pWal, io, file)
         else do {
           let (pWal, io, file) = walTruncate env pWal io file isCommit
             (walFrameOffset (mxFrame (idx pWal) + length pList + nExtra + 1) szPg);
           if rc \<noteq> SQLITE_OK then Some (rc, pWal, io, file)
           else let (rc, pWal) = walAppendAll rcMap pWal pList nExtra nTruncate isCommit szPg in Some (rc, pWal, io, file)
         }
       }
     }
   }"

definition sqlite3WalFrames :: "bool \<Rightarrow> walEnv \<Rightarrow> (nat \<Rightarrow> rcode) \<Rightarrow> wal \<Rightarrow> io \<Rightarrow> bytes \<Rightarrow> nat \<Rightarrow> (u32 \<times> bytes) list \<Rightarrow> u32 \<Rightarrow> bool \<Rightarrow>
    (rcode \<times> wal \<times> io \<times> bytes) option" where
  "sqlite3WalFrames hb env rcMap pWal io file szPg pList nTruncate isCommit = do {
     (rc, pWal) \<leftarrow> walRestart env pWal;
     if rc \<noteq> SQLITE_OK then Some (rc, pWal, io, file)
     else walWriteSet hb env rcMap pWal io file szPg pList nTruncate isCommit
   }"

section \<open>Writing without failures\<close>

definition io_ok :: "io \<Rightarrow> bool" where
  "io_ok io \<longleftrightarrow> set io \<subseteq> {IoOk}"

lemma osWrite_ok: "io_ok io \<Longrightarrow> \<exists>io'. osWrite io file buf off = (SQLITE_OK, io', writeAt file off buf) \<and> io_ok io'"
  by (cases io) (auto simp: io_ok_def)

lemma osSync_ok: "io_ok io \<Longrightarrow> \<exists>io'. osSync io = (SQLITE_OK, io') \<and> io_ok io'"
  by (cases io) (auto simp: io_ok_def)

lemma writeAt_append [simp]: "writeAt (pre @ rest) (length pre) buf = pre @ buf @ drop (length buf) rest"
  by (simp add: writeAt_def)

lemma writeAt_append2: "off = length pre \<Longrightarrow> writeAt (pre @ rest) off buf = pre @ buf @ drop (length buf) rest"
  by simp

lemma walWriteToLog_append:
  assumes "io_ok io"
  shows "\<exists>io'. walWriteToLog s io (pre @ rest) c (length pre) = (SQLITE_OK, io', pre @ c @ drop (length c) rest) \<and> io_ok io'"
proof (cases "length pre < s \<and> length pre + length c \<ge> s")
  case True
  let ?n = "s - length pre"
  obtain io1 where 1: "osWrite io (pre @ rest) (take ?n c) (length pre) = (SQLITE_OK, io1, pre @ take ?n c @ drop ?n rest)" "io_ok io1"
    using osWrite_ok [OF assms, of "pre @ rest" "take ?n c" "length pre"] True by auto
  obtain io2 where 2: "osSync io1 = (SQLITE_OK, io2)" "io_ok io2" using osSync_ok [OF 1(2)] by auto
  obtain io3 where 3: "osWrite io2 (pre @ take ?n c @ drop ?n rest) (drop ?n c) (length pre + ?n) =
      (SQLITE_OK, io3, writeAt (pre @ take ?n c @ drop ?n rest) (length pre + ?n) (drop ?n c))" "io_ok io3"
    using osWrite_ok [OF 2(2)] by blast
  have w: "writeAt (pre @ take ?n c @ drop ?n rest) (length pre + ?n) (drop ?n c) = pre @ c @ drop (length c) rest"
  proof -
    have "length pre + ?n = length (pre @ take ?n c)" using True by auto
    then have "writeAt ((pre @ take ?n c) @ drop ?n rest) (length pre + ?n) (drop ?n c) =
        (pre @ take ?n c) @ drop ?n c @ drop (length (drop ?n c)) (drop ?n rest)" by (rule writeAt_append2)
    moreover have "take ?n c @ drop ?n c @ x = c @ x" for x by (metis append_assoc append_take_drop_id)
    ultimately show ?thesis using True by simp
  qed
  show ?thesis
  proof (cases "length c - ?n = 0")
    case e: True
    then have "take ?n c = c" "?n = length c" using True by auto
    then show ?thesis using 1 2 True e by (simp add: walWriteToLog_def)
  next
    case False
    then show ?thesis using 1 2 3 w True by (simp add: walWriteToLog_def)
  qed
next
  case False
  then show ?thesis using osWrite_ok [OF assms, of "pre @ rest" c "length pre"] by (auto simp: walWriteToLog_def)
qed

lemma walWriteOneFrame_append:
  assumes "io_ok io" and "length (aSalt w) = 8" and "length d = szPage w"
  shows "\<exists>io'. walWriteOneFrame hb s w io (pre @ rest) (p, d) n (length pre) =
    (let c = frameCksum hb w p n d
     in Some (SQLITE_OK, w \<lparr> cksum := c \<rparr>, io', pre @ (frameHdr w p n c @ d) @ drop (szPage w + WAL_FRAME_HDRSIZE) rest))
    \<and> io_ok io'"
proof -
  define c where "c = frameCksum hb w p n d"
  let ?h = "frameHdr w p n c"
  have lh: "length ?h = WAL_FRAME_HDRSIZE" using assms(2) by simp
  obtain io1 where 1: "walWriteToLog s io (pre @ rest) ?h (length pre) = (SQLITE_OK, io1, pre @ ?h @ drop (length ?h) rest)" "io_ok io1"
    using walWriteToLog_append [OF assms(1)] by blast
  obtain io2 where 2: "walWriteToLog s io1 ((pre @ ?h) @ drop (length ?h) rest) d (length (pre @ ?h)) =
      (SQLITE_OK, io2, (pre @ ?h) @ d @ drop (length d) (drop (length ?h) rest))" "io_ok io2"
    using walWriteToLog_append [OF 1(2)] by blast
  have "walWriteOneFrame hb s w io (pre @ rest) (p, d) n (length pre) =
    Some (SQLITE_OK, w \<lparr> cksum := c \<rparr>, io2, pre @ (?h @ d) @ drop (szPage w + WAL_FRAME_HDRSIZE) rest)"
    using 1 2 assms(3) lh walEncodeFrame_eq [OF assms(2), of d hb p n]
    by (simp add: walWriteOneFrame_def c_def [symmetric] Let_def add.commute)
  then show ?thesis using 2(2) by (simp add: c_def Let_def)
qed

text \<open>The frames that a list of dirty pages becomes.\<close>

primrec mkFrames :: "(u32 \<times> bytes) list \<Rightarrow> u32 \<Rightarrow> logFrame list" where
  "mkFrames [] n = []"
| "mkFrames (p # ps) n = (fst p, if ps = [] then n else 0, snd p) # mkFrames ps n"

lemma mkFrames_pages [simp]: "map fst (mkFrames ps n) = map fst ps"
  by (induction ps) auto

lemma mkFrames_length [simp]: "length (mkFrames ps n) = length ps"
  by (induction ps) auto

lemma mkFrames_ok: "list_all (\<lambda>p. fst p \<noteq> 0 \<and> length (snd p) = sz) ps \<Longrightarrow> list_all (frame_ok sz) (mkFrames ps n)"
  by (induction ps) (auto simp: frame_ok_def)

lemma walWriteFrames_log:
  assumes "io_ok io" and "length (aSalt w) = 8" and "list_all (\<lambda>p. fst p \<noteq> 0 \<and> length (snd p) = szPage w) ps"
  shows "\<exists>io' b w'. walWriteFrames hb w io (pre @ rest) ps n (length pre) = Some (SQLITE_OK, w', io', pre @ b @ drop (length b) rest, length pre + length b)
    \<and> walLogFrames hb w (mkFrames ps n) = Some (b, w') \<and> io_ok io'"
  using assms
proof (induction ps arbitrary: w io pre rest)
  case Nil
  then show ?case by simp
next
  case (Cons q ps)
  obtain p d where q: "q = (p, d)" by (cases q)
  define m where "m = (if ps = [] then n else 0)"
  define c where "c = frameCksum hb w p m d"
  let ?f = "frameHdr w p m c @ d"
  have d: "length d = szPage w" "p \<noteq> 0" using Cons.prems q by auto
  have lf: "length ?f = szPage w + WAL_FRAME_HDRSIZE" using d Cons.prems(2) by simp
  obtain io1 where 1: "walWriteOneFrame hb 0 w io (pre @ rest) (p, d) m (length pre) =
     Some (SQLITE_OK, w \<lparr> cksum := c \<rparr>, io1, (pre @ ?f) @ drop (szPage w + WAL_FRAME_HDRSIZE) rest)" "io_ok io1"
    using walWriteOneFrame_append [OF Cons.prems(1,2) d(1), of hb 0 pre rest p m] by (auto simp: c_def Let_def)
  obtain io2 b w' where 2: "walWriteFrames hb (w \<lparr> cksum := c \<rparr>) io1 ((pre @ ?f) @ drop (szPage w + WAL_FRAME_HDRSIZE) rest) ps n (length (pre @ ?f)) =
      Some (SQLITE_OK, w', io2, (pre @ ?f) @ b @ drop (length b) (drop (szPage w + WAL_FRAME_HDRSIZE) rest), length (pre @ ?f) + length b)"
    "walLogFrames hb (w \<lparr> cksum := c \<rparr>) (mkFrames ps n) = Some (b, w')" "io_ok io2"
    using Cons.IH [OF 1(2), of "w \<lparr> cksum := c \<rparr>" "pre @ ?f" "drop (szPage w + WAL_FRAME_HDRSIZE) rest"] Cons.prems by auto
  have "walLogFrames hb w (mkFrames (q # ps) n) = Some (?f @ b, w')"
    using 2(2) d q walLogFrames_Cons [OF Cons.prems(2), of "(p, m, d)" hb "mkFrames ps n"]
    by (simp add: frame_ok_def m_def [symmetric] c_def [symmetric] Let_def del: walLogFrames.simps)
  moreover have "walWriteFrames hb w io (pre @ rest) (q # ps) n (length pre) =
      Some (SQLITE_OK, w', io2, pre @ (?f @ b) @ drop (length (?f @ b)) rest, length pre + length (?f @ b))"
    using 1 2(1) d(1) Cons.prems(2) q by (simp add: m_def [symmetric] add_ac)
  ultimately show ?case using 2(3) by blast
qed

lemma walPadFrames_log:
  assumes "io_ok io" and "length (aSalt w) = 8" and "length d = szPage w" and "p \<noteq> 0" and "off = length pre"
  shows "\<exists>io' b w' k. walPadFrames hb s w io (pre @ rest) (p, d) n (szPage w) off j =
      Some (SQLITE_OK, w', io', pre @ b @ drop (length b) rest, j + k)
    \<and> walLogFrames hb w (replicate k (p, n, d)) = Some (b, w') \<and> io_ok io'"
  using assms
proof (induction "s - off" arbitrary: w io pre rest off j rule: less_induct)
  case less
  show ?case
  proof (cases "off < s")
    case False
    then have "walPadFrames hb s w io (pre @ rest) (p, d) n (szPage w) off j = Some (SQLITE_OK, w, io, pre @ [] @ drop (length []) rest, j + 0)
        \<and> walLogFrames hb w (replicate 0 (p, n, d)) = Some ([], w)"
      by (subst walPadFrames.simps) simp
    then show ?thesis using less.prems(1) by blast
  next
    case True
    define c where "c = frameCksum hb w p n d"
    let ?f = "frameHdr w p n c @ d" and ?w = "w \<lparr> cksum := c \<rparr>"
    have lf: "length ?f = szPage w + WAL_FRAME_HDRSIZE" using less.prems(2,3) by simp
    obtain io1 where 1: "walWriteOneFrame hb s w io (pre @ rest) (p, d) n off =
       Some (SQLITE_OK, ?w, io1, (pre @ ?f) @ drop (szPage w + WAL_FRAME_HDRSIZE) rest)" "io_ok io1"
      using walWriteOneFrame_append [OF less.prems(1,2,3), of hb s pre rest p n] less.prems(5) by (auto simp: c_def Let_def)
    let ?off = "off + (szPage w + WAL_FRAME_HDRSIZE)"
    have "s - ?off < s - off" using True by (simp add: WAL_FRAME_HDRSIZE_def)
    then obtain io2 b w' k where 2:
      "walPadFrames hb s ?w io1 ((pre @ ?f) @ drop (szPage w + WAL_FRAME_HDRSIZE) rest) (p, d) n (szPage ?w) ?off (j + 1) =
        Some (SQLITE_OK, w', io2, (pre @ ?f) @ b @ drop (length b) (drop (szPage w + WAL_FRAME_HDRSIZE) rest), j + 1 + k)"
      "walLogFrames hb ?w (replicate k (p, n, d)) = Some (b, w')" "io_ok io2"
      using less.hyps [of ?off io1 ?w "pre @ ?f" "drop (szPage w + WAL_FRAME_HDRSIZE) rest" "j + 1"] 1(2) less.prems lf by auto
    have "walLogFrames hb w (replicate (Suc k) (p, n, d)) = Some (?f @ b, w')"
      using 2(2) less.prems(3,4) walLogFrames_Cons [OF less.prems(2), of "(p, n, d)" hb "replicate k (p, n, d)"]
      by (simp add: frame_ok_def c_def [symmetric] Let_def del: walLogFrames.simps)
    moreover have "walPadFrames hb s w io (pre @ rest) (p, d) n (szPage w) off j =
        Some (SQLITE_OK, w', io2, pre @ (?f @ b) @ drop (length (?f @ b)) rest, j + Suc k)"
      using 1 2(1) True lf by (subst walPadFrames.simps) (simp add: add_ac)
    ultimately show ?thesis using 2(3) by blast
  qed
qed

section \<open>The log after a write\<close>

text \<open>
  \<open>log_file hb w file fs\<close>: the file holds the header and the frames \<open>fs\<close>, and the running checksum of the
  handle is the one after the last of them. Anything may follow in the file.
\<close>

definition logOf :: "wal \<Rightarrow> wal" where
  "logOf w = logStart (bigEndCksum w) (szPage w) (nCkpt w) (aSalt w) w"

definition log_file :: "bool \<Rightarrow> wal \<Rightarrow> bytes \<Rightarrow> logFrame list \<Rightarrow> bool" where
  "log_file hb w file fs \<longleftrightarrow> length (aSalt w) = 8 \<and> szPage_ok (szPage w) \<and> list_all (frame_ok (szPage w)) fs \<and>
     (\<exists>b e rest. walLogFrames hb (logOf w) fs = Some (b, e) \<and> cksum e = cksum w
        \<and> file = walHdrBytes (bigEndCksum w) (szPage w) (nCkpt w) (aSalt w) @ b @ rest)"

lemma same_log_walLogFrames:
  assumes "same_log e w" and "length (aSalt w) = 8" and "list_all (frame_ok (szPage w)) fs" and "walLogFrames hb w fs = Some (b, w')"
  shows "\<exists>e'. walLogFrames hb e fs = Some (b, e') \<and> same_log e' w'"
  using assms
proof (induction fs arbitrary: e w b)
  case (Cons f fs)
  define c where "c = frameCksum hb w (fst f) (fst (snd f)) (snd (snd f))"
  have sl: "length (aSalt e) = 8" "szPage e = szPage w" using Cons.prems(1,2) by (auto simp: same_log_def)
  have fe: "frameCksum hb e = frameCksum hb w" "frameHdr e = frameHdr w" using same_log_frame [OF Cons.prems(1)] by auto
  let ?h = "frameHdr w (fst f) (fst (snd f)) c @ snd (snd f)"
  obtain b1 where b1: "walLogFrames hb (w \<lparr> cksum := c \<rparr>) fs = Some (b1, w')" "b = ?h @ b1"
    using Cons.prems(4) walLogFrames_Cons [OF Cons.prems(2), of f hb fs] Cons.prems(3)
    by (cases "walLogFrames hb (w \<lparr> cksum := c \<rparr>) fs") (auto simp: c_def [symmetric] Let_def simp del: walLogFrames.simps)
  have "same_log (e \<lparr> cksum := c \<rparr>) (w \<lparr> cksum := c \<rparr>)" using Cons.prems(1) by (simp add: same_log_def)
  then obtain e' where "walLogFrames hb (e \<lparr> cksum := c \<rparr>) fs = Some (b1, e')" "same_log e' w'"
    using Cons.IH [of "e \<lparr> cksum := c \<rparr>" "w \<lparr> cksum := c \<rparr>" b1] Cons.prems b1(1) by auto
  then show ?case
    using walLogFrames_Cons [OF sl(1), of f hb fs] Cons.prems(3) b1(2)
    by (simp add: sl(2) fe c_def [symmetric] Let_def del: walLogFrames.simps)
qed auto

text \<open>Frames that are encoded from the handle extend the log.\<close>

lemma log_file_extend:
  assumes lf: "log_file hb w file fs" and ok: "list_all (frame_ok (szPage w)) gs" and enc: "walLogFrames hb w gs = Some (b', w')"
    and pre: "file = pre @ rest" "length pre = walFrameOffset (length fs + 1) (szPage w)"
  shows "log_file hb w' (pre @ b' @ rest') (fs @ gs) \<and> length (pre @ b') = walFrameOffset (length (fs @ gs) + 1) (szPage w)"
proof -
  let ?h = "walHdrBytes (bigEndCksum w) (szPage w) (nCkpt w) (aSalt w)"
  have salt: "length (aSalt w) = 8" and fs: "list_all (frame_ok (szPage w)) fs" and sz: "szPage_ok (szPage w)"
    using lf by (auto simp: log_file_def)
  obtain b e r where b: "walLogFrames hb (logOf w) fs = Some (b, e)" "cksum e = cksum w" "file = ?h @ b @ r"
    using lf by (auto simp: log_file_def)
  have le: "length b = length fs * (szPage w + WAL_FRAME_HDRSIZE)" "e = logOf w \<lparr> cksum := cksum e \<rparr>"
    using walLogFrames_Some [of "logOf w" fs hb] salt fs b(1) by (auto simp: logOf_def logStart_def)
  have "aSalt e = aSalt w \<and> bigEndCksum e = bigEndCksum w \<and> szPage e = szPage w"
    by (subst le(2), subst le(2), subst le(2)) (simp add: logOf_def logStart_def)
  then have same: "same_log e w" using b(2) by (simp add: same_log_def)
  obtain e' where e': "walLogFrames hb e gs = Some (b', e')" "same_log e' w'"
    using same_log_walLogFrames [OF same salt ok enc] by blast
  have w': "w' = w \<lparr> cksum := cksum w' \<rparr>" "length b' = length gs * (szPage w + WAL_FRAME_HDRSIZE)"
    using walLogFrames_Some [OF salt ok, of hb] enc by auto
  have f: "aSalt w' = aSalt w" "bigEndCksum w' = bigEndCksum w" "szPage w' = szPage w" "nCkpt w' = nCkpt w"
    by (subst w'(1), simp)+
  have "length pre = length (?h @ b)" using pre(2) le(1) salt by (simp add: walFrameOffset_def)
  then have p: "pre = ?h @ b" using pre(1) b(3) by (metis append_assoc append_eq_append_conv)
  have "walLogFrames hb (logOf w) (fs @ gs) = Some (b @ b', e')" using b(1) e'(1) by (simp add: walLogFrames_append)
  moreover have "same_log (logOf w) (logOf w')" by (simp add: same_log_def logOf_def logStart_def f)
  then have sl: "same_log (logOf w') (logOf w)" by (simp add: same_log_def)
  ultimately obtain e2 where e2: "walLogFrames hb (logOf w') (fs @ gs) = Some (b @ b', e2)" "same_log e2 e'"
    using same_log_walLogFrames [OF sl, of "fs @ gs" hb "b @ b'" e'] salt fs ok by (auto simp: logOf_def logStart_def)
  have "cksum e2 = cksum w'" using e2(2) e'(2) by (simp add: same_log_def)
  then have "log_file hb w' (pre @ b' @ rest') (fs @ gs)"
    using e2(1) salt sz fs ok p by (auto simp: log_file_def f)
  moreover have "length (pre @ b') = walFrameOffset (length (fs @ gs) + 1) (szPage w)"
    using pre(2) w'(2) by (simp add: walFrameOffset_def algebra_simps)
  ultimately show ?thesis by blast
qed

lemma walWriteHdr_ok:
  assumes "io_ok io" and "szPage_ok sz" and "length (salt env) = 8" and "length (aSalt w) = 8"
  shows "\<exists>w' io' file'. walWriteHdr hb env w io file sz = Some (SQLITE_OK, w', io', file') \<and> io_ok io'
    \<and> log_file hb w' file' [] \<and> szPage w' = sz \<and> idx w' = idx w \<and> shared w' = shared w
    \<and> length file' \<le> max (length file) WAL_HDRSIZE"
proof -
  define s where "s = (if nCkpt w = 0 then salt env else aSalt w)"
  define w' where "w' = w \<lparr> aSalt := s, szPage := sz, bigEndCksum := hb, cksum := walHdrCksum hb sz (nCkpt w) s, truncateOnCommit := True \<rparr>"
  have ls: "length s = 8" using assms(3,4) by (simp add: s_def)
  have salt: "(if nCkpt w = 0 then w \<lparr> aSalt := salt env \<rparr> else w) = w \<lparr> aSalt := s \<rparr>" by (simp add: s_def)
  have lb: "length (walHdrBody hb sz (nCkpt w) s) = 24" "WAL_HDRSIZE - 2 * 4 = 24"
    using ls by (simp_all add: walHdrBody_def WAL_HDRSIZE_def)
  have body: "sqlite3Put4byte (WAL_MAGIC OR (if hb then 1 else 0)) @ sqlite3Put4byte WAL_MAX_VERSION
      @ sqlite3Put4byte (word_of_nat sz) @ sqlite3Put4byte (nCkpt w) @ s = walHdrBody hb sz (nCkpt w) s"
    by (simp add: walHdrBody_def)
  have ck: "walChecksumBytes hb True (walHdrBody hb sz (nCkpt w) s) 24 None = Some (walHdrCksum hb sz (nCkpt w) s)"
    using lb(1) by (simp add: walChecksumBytes_def walHdrCksum_def)
  let ?b = "walHdrBytes hb sz (nCkpt w) s"
  have wr: "writeAt file 0 ?b = ?b @ drop (length ?b) file" using writeAt_append [of "[]" "file" ?b] by simp
  obtain io1 where 1: "osWrite io file ?b 0 = (SQLITE_OK, io1, ?b @ drop (length ?b) file)" "io_ok io1"
    using osWrite_ok [OF assms(1), of "file" ?b 0] wr by auto
  obtain io2 where 2: "osSync io1 = (SQLITE_OK, io2)" "io_ok io2" using osSync_ok [OF 1(2)] by auto
  define io3 where "io3 = (if syncHeader env \<and> syncAny env then io2 else io1)"
  have "walWriteHdr hb env w io file sz = Some (SQLITE_OK, w', io3, ?b @ drop (length ?b) file)"
    unfolding walWriteHdr_def Let_def salt lb(2)
    using 1(1) 2(1) by (simp add: body ck walHdrBytes_def w'_def io3_def)
  moreover have "log_file hb w' (?b @ drop (length ?b) file) []"
    using ls assms(2) by (auto simp: log_file_def w'_def logOf_def logStart_def)
  moreover have "io_ok io3" using 1(2) 2(2) by (simp add: io3_def)
  moreover have "length (?b @ drop (length ?b) file) \<le> max (length file) WAL_HDRSIZE" using ls by simp
  ultimately show ?thesis by (auto simp: w'_def)
qed

lemma walFinishWrite_log:
  assumes io: "io_ok io" and lf: "log_file hb w (pre @ rest) fs" and pre: "length pre = walFrameOffset (length fs + 1) (szPage w)"
    and p: "fst pl \<noteq> 0" "length (snd pl) = szPage w"
  shows "\<exists>io' k b w'. walFinishWrite hb env w io (pre @ rest) pl n isCommit (length pre) = Some (SQLITE_OK, w', io', pre @ b @ drop (length b) rest, k)
    \<and> io_ok io' \<and> log_file hb w' (pre @ b @ drop (length b) rest) (fs @ replicate k (fst pl, n, snd pl))
    \<and> length (pre @ b) = walFrameOffset (length fs + k + 1) (szPage w) \<and> w' = w \<lparr> cksum := cksum w' \<rparr> \<and> (isCommit \<or> k = 0)"
proof (cases "isCommit \<and> syncTx env \<and> sector env \<noteq> None")
  case True
  then obtain sec where sec: "sector env = Some sec" by auto
  let ?s = "(length pre + sec - 1) div sec * sec"
  have salt: "length (aSalt w) = 8" using lf by (simp add: log_file_def)
  obtain p' d where pl: "pl = (p', d)" by (cases pl)
  have pd: "length d = szPage w" "p' \<noteq> 0" using p pl by simp_all
  obtain io' b w' k where r: "walPadFrames hb ?s w io (pre @ rest) (p', d) n (szPage w) (length pre) 0 = Some (SQLITE_OK, w', io', pre @ b @ drop (length b) rest, 0 + k)"
    "walLogFrames hb w (replicate k (p', n, d)) = Some (b, w')" "io_ok io'"
    using walPadFrames_log [OF io salt pd refl, of hb ?s pre rest n 0] by blast
  have ok: "list_all (frame_ok (szPage w)) (replicate k (p', n, d))"
    using pd by (simp add: frame_ok_def list_all_iff)
  have "w' = w \<lparr> cksum := cksum w' \<rparr>" using walLogFrames_Some [OF salt ok, of hb] r(2) by auto
  moreover note log_file_extend [OF lf ok r(2) refl pre, of "drop (length b) rest"]
  moreover have "walFinishWrite hb env w io (pre @ rest) pl n isCommit (length pre) = Some (SQLITE_OK, w', io', pre @ b @ drop (length b) rest, k)"
    using True sec r(1) pl by (simp add: walFinishWrite_def)
  ultimately show ?thesis using r(3) True pl by (intro exI [of _ io'] exI [of _ k] exI [of _ b] exI [of _ w']) simp
next
  case False
  obtain io1 where 1: "osSync io = (SQLITE_OK, io1)" "io_ok io1" using osSync_ok [OF io] by auto
  define io2 where "io2 = (if isCommit \<and> syncTx env then io1 else io)"
  have "walFinishWrite hb env w io (pre @ rest) pl n isCommit (length pre) = Some (SQLITE_OK, w, io2, pre @ [] @ drop (length []) rest, 0)"
    using False 1(1) by (auto simp: walFinishWrite_def io2_def)
  moreover have "io_ok io2" using io 1(2) by (simp add: io2_def)
  ultimately show ?thesis using lf pre by (intro exI [of _ io2] exI [of _ 0] exI [of _ "[]"] exI [of _ w]) simp
qed

lemma walTruncate_log:
  assumes io: "io_ok io" and lf: "log_file hb w (pre @ rest) fs" and pre: "length pre = iEnd" "iEnd = walFrameOffset (length fs + 1) (szPage w)"
  shows "\<exists>w' io' rest'. walTruncate env w io (pre @ rest) isCommit iEnd = (w', io', pre @ rest') \<and> io_ok io' \<and> log_file hb w' (pre @ rest') fs
    \<and> (\<exists>t. w' = w \<lparr> truncateOnCommit := t \<rparr>) \<and> length rest' \<le> length rest"
proof -
  have keep: "log_file hb (w \<lparr> truncateOnCommit := t \<rparr>) (pre @ rest') fs" for t rest'
  proof -
    have "log_file hb w (pre @ [] @ rest') (fs @ [])"
      using log_file_extend [OF lf, of "[]" "[]" w pre rest rest'] pre by simp
    moreover have "same_log (logOf (w \<lparr> truncateOnCommit := t \<rparr>)) (logOf w)" by (simp add: same_log_def logOf_def logStart_def)
    ultimately show ?thesis
      using same_log_walLogFrames [of "logOf (w \<lparr> truncateOnCommit := t \<rparr>)" "logOf w" fs hb]
      by (fastforce simp: log_file_def logOf_def logStart_def same_log_def)
  qed
  have self: "w \<lparr> truncateOnCommit := truncateOnCommit w \<rparr> = w" by simp
  show ?thesis
  proof (cases "\<exists>mx. limit env = Some mx \<and> isCommit \<and> truncateOnCommit w \<and> length (pre @ rest) > max mx iEnd")
    case True
    then obtain mx where mx: "limit env = Some mx" "isCommit" "truncateOnCommit w" "length (pre @ rest) > max mx iEnd" by auto
    obtain io1 where 1: "osSync io = (SQLITE_OK, io1)" "io_ok io1" using osSync_ok [OF io] by auto
    have "take (max mx iEnd) (pre @ rest) = pre @ take (max mx iEnd - length pre) rest" using pre(1) by simp
    then have "walTruncate env w io (pre @ rest) isCommit iEnd = (w \<lparr> truncateOnCommit := False \<rparr>, io1, pre @ take (max mx iEnd - length pre) rest)"
      using mx 1(1) by (simp add: walTruncate_def walLimitSize_def)
    moreover have "length (take (max mx iEnd - length pre) rest) \<le> length rest" by simp
    ultimately show ?thesis using 1(2) keep by blast
  next
    case False
    then have "walTruncate env w io (pre @ rest) isCommit iEnd = (w, io, pre @ rest)
        \<or> walTruncate env w io (pre @ rest) isCommit iEnd = (w \<lparr> truncateOnCommit := False \<rparr>, io, pre @ rest)"
      by (cases "limit env") (auto simp: walTruncate_def walLimitSize_def)
    then show ?thesis
    proof
      assume "walTruncate env w io (pre @ rest) isCommit iEnd = (w, io, pre @ rest)"
      then show ?thesis using io lf self [symmetric] by blast
    next
      assume "walTruncate env w io (pre @ rest) isCommit iEnd = (w \<lparr> truncateOnCommit := False \<rparr>, io, pre @ rest)"
      then show ?thesis using io keep by blast
    qed
  qed
qed

lemma walAppendAll_ok:
  assumes "wal_ok (idx w) (fs @ gs)" and "mxFrame (idx w) = length fs" and "ps \<noteq> []" and "list_all (\<lambda>p. fst p \<noteq> 0) ps"
    and "\<forall>h. rcMap h = SQLITE_OK"
  shows "\<exists>i. walAppendAll rcMap w ps k n isCommit sz = (SQLITE_OK, walPublish w i (length fs + length ps + k) n isCommit sz)
    \<and> wal_ok i (fs @ map fst ps @ replicate k (fst (last ps)))"
proof -
  have z: "0 \<notin> set (map fst ps)" "fst (last ps) \<noteq> 0" using assms(3,4) by (force simp: list_all_iff)+
  obtain i1 gs1 where 1: "walAppendList rcMap (idx w) (length fs) (map fst ps) = (SQLITE_OK, length fs + length (map fst ps), i1)"
    "wal_ok i1 (fs @ map fst ps @ gs1)" "mxFrame i1 = mxFrame (idx w)" "map fst ps \<noteq> [] \<longrightarrow> gs1 = []"
    using walAppendList_correct [OF assms(1), of "map fst ps" rcMap] assms(2,5) z(1) by (auto simp del: length_map)
  have g: "gs1 = []" using 1(4) assms(3) by simp
  have le: "mxFrame i1 \<le> length (fs @ map fst ps)" using 1(3) assms(2) by simp
  obtain i2 gs2 where 2: "walAppendList rcMap i1 (length (fs @ map fst ps)) (replicate k (fst (last ps))) =
      (SQLITE_OK, length (fs @ map fst ps) + length (replicate k (fst (last ps))), i2)"
    "wal_ok i2 ((fs @ map fst ps) @ replicate k (fst (last ps)) @ gs2)" "replicate k (fst (last ps)) \<noteq> [] \<longrightarrow> gs2 = []"
    using walAppendList_correct [of i1 "fs @ map fst ps" "[]" "replicate k (fst (last ps))" rcMap] 1(2) g le assms(5) z(2)
    by (auto simp del: length_map length_append length_replicate)
  have "wal_ok i2 ((fs @ map fst ps) @ replicate k (fst (last ps)))"
  proof (cases k)
    case 0
    then show ?thesis using 2(1) 1(2) g by simp
  qed (use 2(2,3) in simp)
  then show ?thesis
    using 1(1) 2(1) assms(2) by (intro exI [of _ i2]) (simp add: walAppendAll_def Let_def add.assoc)
qed

text \<open>The handle is ready to write: a new log, or one that already has frames.\<close>

definition write_ready :: "bool \<Rightarrow> walEnv \<Rightarrow> wal \<Rightarrow> bytes \<Rightarrow> nat \<Rightarrow> logFrame list \<Rightarrow> bool" where
  "write_ready hb env w file sz fs \<longleftrightarrow> length (salt env) = 8 \<and> length (salt1 env) = 4 \<and> mxFrame (idx w) = length fs \<and>
     (if fs = [] then szPage_ok sz \<and> length (aSalt w) = 8 else szPage w = sz \<and> log_file hb w file fs)"

definition pages_ok :: "nat \<Rightarrow> (u32 \<times> bytes) list \<Rightarrow> bool" where
  "pages_ok sz ps \<longleftrightarrow> ps \<noteq> [] \<and> list_all (\<lambda>p. fst p \<noteq> 0 \<and> length (snd p) = sz) ps"

lemma log_file_frames:
  assumes lf: "log_file hb w file fs" and io: "io_ok io" and ps: "pages_ok (szPage w) ps"
  shows "\<exists>pre rest' w' io'. walWriteFrames hb w io file ps n (walFrameOffset (length fs + 1) (szPage w)) = Some (SQLITE_OK, w', io', pre @ rest', length pre)
    \<and> io_ok io' \<and> log_file hb w' (pre @ rest') (fs @ mkFrames ps n) \<and> length pre = walFrameOffset (length (fs @ mkFrames ps n) + 1) (szPage w)
    \<and> w' = w \<lparr> cksum := cksum w' \<rparr> \<and> length (pre @ rest') \<le> max (length file) (length pre)"
proof -
  let ?h = "walHdrBytes (bigEndCksum w) (szPage w) (nCkpt w) (aSalt w)"
  have salt: "length (aSalt w) = 8" and fs: "list_all (frame_ok (szPage w)) fs" using lf by (auto simp: log_file_def)
  obtain b e r where b: "walLogFrames hb (logOf w) fs = Some (b, e)" "file = (?h @ b) @ r" using lf by (auto simp: log_file_def)
  have lb: "length (?h @ b) = walFrameOffset (length fs + 1) (szPage w)"
    using walLogFrames_Some [of "logOf w" fs hb] salt fs b(1) by (auto simp: logOf_def logStart_def walFrameOffset_def)
  have ok: "list_all (frame_ok (szPage w)) (mkFrames ps n)" using ps by (auto simp: pages_ok_def intro: mkFrames_ok)
  obtain io' b' w' where r: "walWriteFrames hb w io ((?h @ b) @ r) ps n (length (?h @ b)) =
      Some (SQLITE_OK, w', io', (?h @ b) @ b' @ drop (length b') r, length (?h @ b) + length b')"
    "walLogFrames hb w (mkFrames ps n) = Some (b', w')" "io_ok io'"
    using walWriteFrames_log [OF io salt, of ps hb "?h @ b" r n] ps by (auto simp: pages_ok_def simp del: append_assoc)
  have "w' = w \<lparr> cksum := cksum w' \<rparr>" using walLogFrames_Some [OF salt ok, of hb] r(2) by auto
  moreover note log_file_extend [OF lf ok r(2) b(2) lb, of "drop (length b') r"]
  moreover have "length (((?h @ b) @ b') @ drop (length b') r) \<le> max (length file) (length ((?h @ b) @ b'))" by (simp add: b(2))
  ultimately show ?thesis
    using r(1,3) b(2) lb by (intro exI [of _ "(?h @ b) @ b'"] exI [of _ "drop (length b') r"] exI [of _ w'] exI [of _ io']) simp
qed

text \<open>Only the fields that the bytes of the log depend on matter.\<close>

lemma log_file_cong:
  assumes lf: "log_file hb w file fs"
    and f: "aSalt w' = aSalt w" "bigEndCksum w' = bigEndCksum w" "szPage w' = szPage w" "nCkpt w' = nCkpt w" "cksum w' = cksum w"
  shows "log_file hb w' file fs"
proof -
  have sl: "same_log (logOf w') (logOf w)" by (simp add: same_log_def logOf_def logStart_def f)
  obtain b e rest where b: "walLogFrames hb (logOf w) fs = Some (b, e)" "cksum e = cksum w"
      "file = walHdrBytes (bigEndCksum w) (szPage w) (nCkpt w) (aSalt w) @ b @ rest"
    using lf by (auto simp: log_file_def)
  obtain e' where "walLogFrames hb (logOf w') fs = Some (b, e')" "same_log e' e"
    using same_log_walLogFrames [OF sl _ _ b(1)] lf by (auto simp: log_file_def logOf_def logStart_def)
  then show ?thesis using lf b by (auto simp: log_file_def f same_log_def)
qed

lemma publish_log_file: "log_file hb w file fs \<Longrightarrow> log_file hb (walPublish w i f n c sz) file fs"
  by (erule log_file_cong) (simp_all add: walPublish_def walIndexWriteHdr_def Let_def)

lemma walWriteSet_lemma:
  assumes ready: "write_ready hb env w file sz fs" and idx: "wal_ok (idx w) (map fst fs @ gs)" and io: "io_ok io"
    and ps: "pages_ok sz ps" and rc: "\<forall>h. rcMap h = SQLITE_OK"
  shows "\<exists>w' io' file' k. walWriteSet hb env rcMap w io file sz ps n isCommit = Some (SQLITE_OK, w', io', file')
    \<and> (let new = mkFrames ps (if isCommit then n else 0) @ replicate k (fst (last ps), n, snd (last ps))
       in log_file hb w' file' (fs @ new) \<and> wal_ok (idx w') (map fst (fs @ new)) \<and> mxFrame (idx w') = length (fs @ new))
    \<and> (if isCommit then nPage w' = n \<and> shared w' = \<lparr> h_mxFrame = mxFrame (idx w'), h_cksum = cksum w' \<rparr>
       else k = 0 \<and> shared w' = shared w)
    \<and> length file' \<le> max (length file) (walFrameOffset (length fs + length ps + k + 1) sz) \<and> szPage w' = sz"
proof -
  let ?n = "if isCommit then n else 0"
  have mx: "mxFrame (idx w) = length fs" using ready by (simp add: write_ready_def)
  obtain w1 io1 file1 where 1:
    "(if mxFrame (idx w) = 0 then walWriteHdr hb env w io file sz else Some (SQLITE_OK, w, io, file)) = Some (SQLITE_OK, w1, io1, file1)"
    "io_ok io1" "log_file hb w1 file1 fs" "szPage w1 = sz" "idx w1 = idx w" "shared w1 = shared w"
    "length file1 \<le> max (length file) WAL_HDRSIZE"
  proof (cases "fs = []")
    case True
    then show thesis
      using walWriteHdr_ok [OF io, of sz env w hb "file"] ready that by (auto simp: write_ready_def)
  next
    case False
    then show thesis using that io ready by (auto simp: write_ready_def)
  qed
  obtain pre2 rest2 w2 io2 where 2:
    "walWriteFrames hb w1 io1 file1 ps ?n (walFrameOffset (length fs + 1) (szPage w1)) = Some (SQLITE_OK, w2, io2, pre2 @ rest2, length pre2)"
    "io_ok io2" "log_file hb w2 (pre2 @ rest2) (fs @ mkFrames ps ?n)" "length pre2 = walFrameOffset (length (fs @ mkFrames ps ?n) + 1) (szPage w1)"
    "w2 = w1 \<lparr> cksum := cksum w2 \<rparr>" "length (pre2 @ rest2) \<le> max (length file1) (length pre2)"
    using log_file_frames [OF 1(3,2), of ps ?n] ps 1(4) by auto
  have f2: "szPage w2 = sz" "idx w2 = idx w" "shared w2 = shared w" by (subst 2(5), simp add: 1(4,5,6))+
  have pl: "fst (last ps) \<noteq> 0" "length (snd (last ps)) = szPage w2" using ps f2(1) by (auto simp: pages_ok_def list_all_iff)
  have len2: "length pre2 = walFrameOffset (length (fs @ mkFrames ps ?n) + 1) (szPage w2)" using 2(4) 1(4) f2(1) by simp
  obtain io3 k b3 w3 where 3:
    "walFinishWrite hb env w2 io2 (pre2 @ rest2) (last ps) n isCommit (length pre2) = Some (SQLITE_OK, w3, io3, pre2 @ b3 @ drop (length b3) rest2, k)"
    "io_ok io3" "log_file hb w3 (pre2 @ b3 @ drop (length b3) rest2) ((fs @ mkFrames ps ?n) @ replicate k (fst (last ps), n, snd (last ps)))"
    "length (pre2 @ b3) = walFrameOffset (length (fs @ mkFrames ps ?n) + k + 1) (szPage w2)" "w3 = w2 \<lparr> cksum := cksum w3 \<rparr>" "isCommit \<or> k = 0"
    using walFinishWrite_log [OF 2(2,3) len2 pl, of env n isCommit] by blast
  have f3: "szPage w3 = sz" "idx w3 = idx w" "shared w3 = shared w" by (subst 3(5), simp add: f2)+
  let ?new = "mkFrames ps ?n @ replicate k (fst (last ps), n, snd (last ps))"
  let ?rest3 = "drop (length b3) rest2"
  let ?iEnd = "walFrameOffset (mxFrame (idx w3) + length ps + k + 1) sz"
  have lf3: "log_file hb w3 ((pre2 @ b3) @ ?rest3) (fs @ ?new)" using 3(3) by simp
  have e1: "length (pre2 @ b3) = ?iEnd" using 3(4) f2(1) f3(2) mx by (simp add: add.assoc)
  have e2: "?iEnd = walFrameOffset (length (fs @ ?new) + 1) (szPage w3)" using f3 mx by (simp add: add.assoc)
  obtain w4 io4 rest4 where 4: "walTruncate env w3 io3 ((pre2 @ b3) @ ?rest3) isCommit ?iEnd = (w4, io4, (pre2 @ b3) @ rest4)"
    "log_file hb w4 ((pre2 @ b3) @ rest4) (fs @ ?new)" "\<exists>t. w4 = w3 \<lparr> truncateOnCommit := t \<rparr>" "length rest4 \<le> length ?rest3"
    using walTruncate_log [OF 3(2) lf3 e1 e2] by blast
  have f4: "idx w4 = idx w" "shared w4 = shared w" using 4(3) f3 by auto
  obtain i where 5: "walAppendAll rcMap w4 ps k n isCommit sz = (SQLITE_OK, walPublish w4 i (length (map fst fs) + length ps + k) n isCommit sz)"
    "wal_ok i (map fst fs @ map fst ps @ replicate k (fst (last ps)))"
    using walAppendAll_ok [of w4 "map fst fs" gs ps rcMap k n isCommit sz] idx mx f4(1) ps rc by (auto simp: pages_ok_def list_all_iff)
  define w5 where "w5 = walPublish w4 i (length fs + length ps + k) n isCommit sz"
  have "walWriteSet hb env rcMap w io file sz ps n isCommit = Some (SQLITE_OK, w5, io4, (pre2 @ b3) @ rest4)"
    unfolding walWriteSet_def 1(1) using 2(1) 3(1) 4(1) 5(1) 1(4,5) mx f3 by (simp add: w5_def)
  moreover have "log_file hb w5 ((pre2 @ b3) @ rest4) (fs @ ?new)" using publish_log_file [OF 4(2)] by (simp add: w5_def)
  moreover have "wal_ok (idx w5) (map fst (fs @ ?new))" "mxFrame (idx w5) = length (fs @ ?new)"
    using 5(2) by (simp_all add: w5_def walPublish_def walIndexWriteHdr_def Let_def)
  moreover have "if isCommit then nPage w5 = n \<and> shared w5 = \<lparr> h_mxFrame = mxFrame (idx w5), h_cksum = cksum w5 \<rparr>
       else k = 0 \<and> shared w5 = shared w"
    using 3(6) f4(2) by (auto simp: w5_def walPublish_def walIndexWriteHdr_def Let_def)
  moreover have "length ((pre2 @ b3) @ rest4) \<le> max (length file) (walFrameOffset (length fs + length ps + k + 1) sz)"
  proof -
    have "WAL_HDRSIZE \<le> walFrameOffset (length fs + length ps + k + 1) sz" by (simp add: walFrameOffset_def)
    then show ?thesis using 1(7) 2(6) 4(4) e1 mx f3(2) by simp
  qed
  moreover have "szPage w5 = sz" using 4(3) f3(1) by (auto simp: w5_def walPublish_def walIndexWriteHdr_def Let_def)
  ultimately show ?thesis unfolding Let_def by blast
qed

section \<open>Failures\<close>

lemma walWriteOneFrame_frame:
  "walWriteOneFrame hb s w io file p n off = Some (rc, w', io', file') \<Longrightarrow> w' = w \<lparr> cksum := cksum w' \<rparr>"
  by (auto simp: walWriteOneFrame_def walEncodeFrame_def bind_eq_Some_conv Let_def case_prod_unfold split: if_splits)

lemma select_fields: "shared (w \<lparr> cksum := c \<rparr>) = shared w" "idx (w \<lparr> cksum := c \<rparr>) = idx w"
  by simp_all

lemma walWriteFrames_frame:
  "walWriteFrames hb w io file ps n off = Some (rc, w', io', file', off') \<Longrightarrow> shared w' = shared w \<and> idx w' = idx w"
proof (induction ps arbitrary: w io "file" off)
  case (Cons p ps)
  obtain rc1 w1 io1 file1 where 1: "walWriteOneFrame hb 0 w io file p (if ps = [] then n else 0) off = Some (rc1, w1, io1, file1)"
    using Cons.prems by (cases "walWriteOneFrame hb 0 w io file p (if ps = [] then n else 0) off") auto
  then have f: "shared w1 = shared w \<and> idx w1 = idx w" using walWriteOneFrame_frame [OF 1] by (metis select_fields)
  show ?case
  proof (cases "rc1 = SQLITE_OK")
    case True
    then have "walWriteFrames hb w1 io1 file1 ps n (off + (szPage w1 + WAL_FRAME_HDRSIZE)) = Some (rc, w', io', file', off')"
      using Cons.prems 1 by simp
    then show ?thesis using Cons.IH f by simp
  next
    case False
    then have "w' = w1" using Cons.prems 1 by simp
    then show ?thesis using f by simp
  qed
qed simp

lemma walPadFrames_frame:
  "walPadFrames hb s w io file p n sz off j = Some (rc, w', io', file', k) \<Longrightarrow> shared w' = shared w \<and> idx w' = idx w"
proof (induction "s - off" arbitrary: w io "file" off j rule: less_induct)
  case less
  show ?case
  proof (cases "off < s")
    case True
    obtain rc1 w1 io1 file1 where 1: "walWriteOneFrame hb s w io file p n off = Some (rc1, w1, io1, file1)"
      using less.prems True by (subst (asm) walPadFrames.simps) (cases "walWriteOneFrame hb s w io file p n off"; auto)
    have c: "shared w1 = shared w \<and> idx w1 = idx w" using walWriteOneFrame_frame [OF 1] by (metis select_fields)
    have d: "s - (off + (sz + WAL_FRAME_HDRSIZE)) < s - off" using True by (simp add: WAL_FRAME_HDRSIZE_def)
    show ?thesis
      using less.prems True 1 less.hyps [OF d, of w1 io1 file1 "j + 1"] c
      by (subst (asm) walPadFrames.simps) (auto split: if_splits)
  qed (use less.prems in \<open>subst (asm) walPadFrames.simps, simp\<close>)
qed

lemma walWriteHdr_frame:
  "walWriteHdr hb env w io file sz = Some (rc, w', io', file') \<Longrightarrow> shared w' = shared w \<and> idx w' = idx w"
  by (auto simp: walWriteHdr_def Let_def bind_eq_Some_conv case_prod_unfold split: if_splits)

lemma walFinishWrite_frame:
  "walFinishWrite hb env w io file p n isCommit off = Some (rc, w', io', file', k) \<Longrightarrow> shared w' = shared w \<and> idx w' = idx w"
  by (auto simp: walFinishWrite_def Let_def dest: walPadFrames_frame split: if_splits option.splits prod.splits)

lemma walTruncate_frame: "walTruncate env w io file isCommit e = (w', io', file') \<Longrightarrow> shared w' = shared w \<and> idx w' = idx w"
  by (auto simp: walTruncate_def split: option.splits if_splits prod.splits)

lemma walCleanupHash_mx: "mxFrame (walCleanupHash w) = mxFrame w"
  by (simp add: walCleanupHash_def Let_def)

lemma walAppendPrepare_mx: "mxFrame (walAppendPrepare w h i) = mxFrame w"
  by (simp add: walAppendPrepare_def Let_def walCleanupHash_mx)

lemma walIndexAppend_mx: "walIndexAppend rcMap w f p = (rc, w') \<Longrightarrow> mxFrame w' = mxFrame w"
  by (auto simp: walIndexAppend_def Let_def walAppendPrepare_mx split: sum.splits option.splits)

lemma walAppendList_mx: "walAppendList rcMap w f ps = (rc, n, w') \<Longrightarrow> mxFrame w' = mxFrame w"
  by (induction ps arbitrary: w f) (auto dest!: walIndexAppend_mx split: prod.splits if_splits)

lemma walAppendAll_fail:
  "walAppendAll rcMap w ps k n isCommit sz = (rc, w') \<Longrightarrow> rc \<noteq> SQLITE_OK \<Longrightarrow> shared w' = shared w \<and> mxFrame (idx w') = mxFrame (idx w)"
  by (auto simp: walAppendAll_def Let_def dest!: walAppendList_mx split: prod.splits if_splits)

lemma walWriteSet_failure:
  assumes run: "walWriteSet hb env rcMap w io file sz ps n isCommit = Some (rc, w', io', file')" and rc: "rc \<noteq> SQLITE_OK"
  shows "shared w' = shared w \<and> mxFrame (idx w') = mxFrame (idx w)"
proof -
  obtain rc1 w1 io1 file1 where 1:
    "(if mxFrame (idx w) = 0 then walWriteHdr hb env w io file sz else Some (SQLITE_OK, w, io, file)) = Some (rc1, w1, io1, file1)"
    using run unfolding walWriteSet_def
    by (cases "if mxFrame (idx w) = 0 then walWriteHdr hb env w io file sz else Some (SQLITE_OK, w, io, file)") auto
  then have f1: "shared w1 = shared w \<and> idx w1 = idx w" by (auto dest: walWriteHdr_frame split: if_splits)
  show ?thesis
  proof (cases "rc1 = SQLITE_OK")
    case False
    then show ?thesis using run 1 f1 by (simp add: walWriteSet_def)
  next
    case ok1: True
    let ?wf = "walWriteFrames hb w1 io1 file1 ps (if isCommit then n else 0) (walFrameOffset (mxFrame (idx w1) + 1) sz)"
    obtain rc2 w2 io2 file2 off2 where 2: "?wf = Some (rc2, w2, io2, file2, off2)"
      using run ok1 unfolding walWriteSet_def 1 by (cases ?wf) auto
    have f2: "shared w2 = shared w \<and> idx w2 = idx w" using walWriteFrames_frame [OF 2] f1 by simp
    show ?thesis
    proof (cases "rc2 = SQLITE_OK")
      case False
      then show ?thesis using run ok1 2 f2 unfolding walWriteSet_def 1 by simp
    next
      case ok2: True
      let ?ff = "walFinishWrite hb env w2 io2 file2 (last ps) n isCommit off2"
      obtain rc3 w3 io3 file3 k where 3: "?ff = Some (rc3, w3, io3, file3, k)"
        using run ok1 ok2 2 unfolding walWriteSet_def 1 by (cases ?ff) auto
      have f3: "shared w3 = shared w \<and> idx w3 = idx w" using walFinishWrite_frame [OF 3] f2 by simp
      obtain w4 io4 file4 where 4: "walTruncate env w3 io3 file3 isCommit (walFrameOffset (mxFrame (idx w3) + length ps + k + 1) sz) = (w4, io4, file4)"
        by (metis prod_cases3)
      have f4: "shared w4 = shared w \<and> idx w4 = idx w" using walTruncate_frame [OF 4] f3 by simp
      obtain rc5 w5 where 5: "walAppendAll rcMap w4 ps k n isCommit sz = (rc5, w5)" by (meson surj_pair)
      show ?thesis
        using run ok1 ok2 2 3 4 5 f3 f4 rc walAppendAll_fail [OF 5]
        unfolding walWriteSet_def 1 by (auto split: if_splits)
    qed
  qed
qed

section \<open>The restart of the log\<close>

text \<open>\<open>other_lock w w'\<close>: only the read marks and the read lock of the handle differ.\<close>

definition other_lock :: "wal \<Rightarrow> wal \<Rightarrow> bool" where
  "other_lock w w' \<longleftrightarrow> (\<exists>m l. w' = w \<lparr> ckpt := ckpt w \<lparr> aReadMark := m \<rparr>, heldReadLock := l \<rparr>)"

lemma other_lock_refl [simp]: "other_lock w w"
  unfolding other_lock_def by (intro exI [of _ "aReadMark (ckpt w)"] exI [of _ "heldReadLock w"]) simp

lemma other_lock_trans:
  assumes "other_lock w w1" and "other_lock w1 w2"
  shows "other_lock w w2"
proof -
  obtain m l m' l' where "w1 = w \<lparr> ckpt := ckpt w \<lparr> aReadMark := m \<rparr>, heldReadLock := l \<rparr>"
      "w2 = w1 \<lparr> ckpt := ckpt w1 \<lparr> aReadMark := m' \<rparr>, heldReadLock := l' \<rparr>"
    using assms by (auto simp: other_lock_def)
  then show ?thesis unfolding other_lock_def by (intro exI [of _ m'] exI [of _ l']) simp
qed

lemma other_lock_held [simp]: "other_lock w (w \<lparr> heldReadLock := l \<rparr>)"
  unfolding other_lock_def by (intro exI [of _ "aReadMark (ckpt w)"] exI [of _ l]) simp

lemma other_lock_marks [simp]: "other_lock w (w \<lparr> ckpt := ckpt w \<lparr> aReadMark := m \<rparr> \<rparr>)"
  unfolding other_lock_def by (intro exI [of _ m] exI [of _ "heldReadLock w"]) simp

lemma other_lock_fields:
  "other_lock w w' \<Longrightarrow> shared w' = shared w \<and> idx w' = idx w \<and> nCkpt w' = nCkpt w \<and> aSalt w' = aSalt w \<and> szPage w' = szPage w
     \<and> bigEndCksum w' = bigEndCksum w \<and> cksum w' = cksum w"
  by (auto simp: other_lock_def)

lemma walRaiseMark_other: "walRaiseMark is w ls rc m = Inr (rc', w', ls', m') \<Longrightarrow> other_lock w w'"
  by (induction "is" w ls rc m rule: walRaiseMark.induct) (auto split: prod.splits if_splits)

lemma walTryRead_other:
  assumes "walTryRead w ls = (r, w', ls')"
  shows "other_lock w w'"
  using assms
  by (auto simp: walTryRead_def Let_def split: prod.splits sum.splits if_splits
    dest!: walRaiseMark_other intro: other_lock_trans [OF _ other_lock_held])

lemma walTryReadLoop_other: "walTryReadLoop n w ls = (rc, w') \<Longrightarrow> other_lock w w'"
proof (induction n arbitrary: w ls)
  case (Suc n)
  obtain r w1 ls1 where 1: "walTryRead w ls = (r, w1, ls1)" by (metis prod_cases3)
  then show ?case
    using walTryRead_other [OF 1] Suc.prems Suc.IH [of w1 ls1] other_lock_trans by (cases r) auto
qed simp

text \<open>A restart either leaves the log as it is or starts a new one, and then the read lock 0 was held, frames
  had been copied to the database file, and no reader used the log.\<close>

lemma walRestart_cases:
  assumes "walRestart env w = Some (rc, w')"
  obtains (same) "other_lock w w'"
  | (restarted) w1 where "heldReadLock w = Some 0" "0 < nBackfill (ckpt w)" "fst (osLock (lockRc env)) = SQLITE_OK"
      "walResetLog env w = Some w1" "other_lock w1 w'"
proof (cases "heldReadLock w = Some 0")
  case lock: True
  have loop: "other_lock v w'" if "walTryReadLoop 100 (v \<lparr> heldReadLock := None \<rparr>) ls = (rc, w')" for v ls
    using walTryReadLoop_other [OF that] by (rule other_lock_trans [OF other_lock_held])
  obtain r ls where l: "osLock (lockRc env) = (r, ls)" by (metis surj_pair)
  show thesis
  proof (cases "0 < nBackfill (ckpt w) \<and> r = SQLITE_OK")
    case True
    then obtain w1 where w1: "walResetLog env w = Some w1" "walTryReadLoop 100 (w1 \<lparr> heldReadLock := None \<rparr>) ls = (rc, w')"
      using assms lock l by (auto simp: walRestart_def bind_eq_Some_conv simp del: walTryReadLoop.simps)
    show thesis by (rule restarted [OF lock _ _ w1(1) loop [OF w1(2)]]) (use True l in auto)
  next
    case False
    then have "w' = w \<or> (\<exists>ls. walTryReadLoop 100 (w \<lparr> heldReadLock := None \<rparr>) ls = (rc, w'))"
      using assms lock l by (auto simp: walRestart_def simp del: walTryReadLoop.simps split: if_splits)
    then show thesis using same loop by auto
  qed
qed (use assms same in \<open>simp add: walRestart_def\<close>)

lemma walResetLog_fields:
  assumes "walResetLog env w = Some w1"
  shows "mxFrame (idx w1) = 0 \<and> apWiData (idx w1) = apWiData (idx w) \<and> shared w1 = \<lparr> h_mxFrame = 0, h_cksum = cksum w \<rparr>
    \<and> length (aSalt w1) = 4 + length (salt1 env)"
  using assms by (auto simp: walResetLog_def Let_def bind_eq_Some_conv walIndexWriteHdr_def sqlite3Put4byte_def)

lemma walRestart_ready:
  assumes ready: "write_ready hb env w file sz fs" and "walRestart env w = Some (rc, w')" and "wal_ok (idx w) (map fst fs @ gs)"
  shows "\<exists>fs' gs'. write_ready hb env w' file sz fs' \<and> wal_ok (idx w') (map fst fs' @ gs')
    \<and> (fs' = fs \<or> fs' = [] \<and> heldReadLock w = Some 0 \<and> 0 < nBackfill (ckpt w))"
  using assms(2)
proof (cases rule: walRestart_cases)
  case same
  then have f: "idx w' = idx w" "aSalt w' = aSalt w" "szPage w' = szPage w" "bigEndCksum w' = bigEndCksum w" "nCkpt w' = nCkpt w"
      "cksum w' = cksum w" using other_lock_fields by blast+
  then have "write_ready hb env w' file sz fs" using ready log_file_cong [of hb w "file" fs w'] by (auto simp: write_ready_def)
  then show ?thesis using assms(3) f(1) by metis
next
  case (restarted w1)
  have f: "mxFrame (idx w') = 0" "apWiData (idx w') = apWiData (idx w)" "length (aSalt w') = 8"
    using walResetLog_fields [OF restarted(4)] other_lock_fields [OF restarted(5)] ready by (auto simp: write_ready_def)
  have "szPage_ok sz" using ready by (auto simp: write_ready_def log_file_def split: if_splits)
  then have "write_ready hb env w' file sz []" using f(1,3) ready by (auto simp: write_ready_def)
  moreover have "wal_ok (idx w') (map fst ([] :: logFrame list) @ map fst fs @ gs)" using assms(3) f(2) by (simp add: wal_ok_def)
  ultimately show ?thesis using restarted(1,2) by blast
qed

text \<open>When no reader uses the log, the connection goes on with the read lock 1, if it gets that.\<close>

lemma walRestart_granted:
  assumes "heldReadLock w = Some 0" and "0 < nBackfill (ckpt w)" and "4 \<le> length (aSalt w)"
    and "length (aReadMark (ckpt w)) = WAL_NREADER"
    and "osLock (lockRc env) = (SQLITE_OK, ls)" and "osLock ls = (rc, ls')" and "rc \<noteq> SQLITE_BUSY"
  shows "\<exists>w'. walRestart env w = Some (rc, w') \<and> heldReadLock w' = (if rc = SQLITE_OK then Some 1 else None)
    \<and> nCkpt w' = nCkpt w + 1 \<and> mxFrame (idx w') = 0 \<and> aSalt w' \<noteq> aSalt w"
proof -
  have "Suc (Suc (Suc (Suc 0))) \<le> length (aSalt w)" using assms(3) by simp
  then obtain v where v: "sqlite3Get4byte (aSalt w) = Some v"
    by (auto simp: Suc_le_length_iff sqlite3Get4byte_def rd_def)
  obtain w1 where w1: "walResetLog env w = Some w1" using v by (simp add: walResetLog_def Let_def)
  have f: "mxFrame (idx w1) = 0" "aReadMark (ckpt w1) ! 1 = 0" "aReadMark (ckpt w1) ! 2 = READMARK_NOT_USED"
      "aReadMark (ckpt w1) ! 3 = READMARK_NOT_USED" "aReadMark (ckpt w1) ! 4 = READMARK_NOT_USED"
      "shared w1 = \<lparr> h_mxFrame = 0, h_cksum = cksum w1 \<rparr>" "nCkpt w1 = nCkpt w + 1" "aSalt w1 = sqlite3Put4byte (1 + v) @ salt1 env"
    using w1 v assms(4) by (auto simp: walResetLog_def Let_def walIndexWriteHdr_def WAL_NREADER_def)
  have up: "[1..<WAL_NREADER] = [1, 2, 3, 4]" by (simp add: WAL_NREADER_def upt_rec)
  let ?w = "w1 \<lparr> heldReadLock := if rc = SQLITE_OK then Some 1 else None \<rparr>"
  have sc: "walScanMarks 0 (aReadMark (ckpt w1)) [1, 2, 3, 4] (0, 0) = (0, 1)"
    using f(2-5) by (simp add: READMARK_NOT_USED_def)
  have "walTryRead (w1 \<lparr> heldReadLock := None \<rparr>) ls = (Some rc, ?w, ls')"
    unfolding walTryRead_def up Let_def
    using f(1,2,6) sc assms(6,7) by (simp del: walScanMarks.simps)
  then have "walTryReadLoop (Suc 99) (w1 \<lparr> heldReadLock := None \<rparr>) ls = (rc, ?w)"
    unfolding walTryReadLoop.simps by simp
  then have "walTryReadLoop 100 (w1 \<lparr> heldReadLock := None \<rparr>) ls = (rc, ?w)" by simp
  then have "walRestart env w = Some (rc, ?w)"
    using assms(1,2,5) w1 by (simp add: walRestart_def del: walTryReadLoop.simps)
  moreover have "aSalt w1 \<noteq> aSalt w"
  proof
    assume "aSalt w1 = aSalt w"
    then have "sqlite3Get4byte (aSalt w) = Some (1 + v)" using f(8) get4byte_put4byte by metis
    then show False using v by simp
  qed
  ultimately show ?thesis using f by (intro exI [of _ ?w]) simp
qed

section \<open>Main results on writing\<close>

text \<open>The frames of the log are the last thing in the file that recovery can use.\<close>

definition log_ends :: "wal \<Rightarrow> bytes \<Rightarrow> logFrame list \<Rightarrow> bool" where
  "log_ends w file fs \<longleftrightarrow> (\<exists>hb b e rest. walLogFrames hb (logOf w) fs = Some (b, e)
     \<and> file = walHdrBytes (bigEndCksum w) (szPage w) (nCkpt w) (aSalt w) @ b @ rest \<and> log_stops hb e rest)"

lemma mkFrames_Nil [simp]: "mkFrames ps n = [] \<longleftrightarrow> ps = []"
  by (cases ps) simp_all

lemma last_commit_frames:
  assumes "ps \<noteq> []" and "n \<noteq> 0"
  shows "fst (snd (last (fs @ mkFrames ps n @ replicate k (fst (last ps), n, snd (last ps))))) = n"
proof -
  have l: "last (mkFrames ps n) = (fst (last ps), n, snd (last ps))" using assms(1) by (induction ps) auto
  show ?thesis using l assms(1) by (cases k) (simp_all add: last_append)
qed

lemma log_file_recovers:
  assumes lf: "log_file hb w file fs" and fs: "fs \<noteq> []" "fst (snd (last fs)) \<noteq> 0" and ends: "log_ends w file fs"
    and rf: "reads_file osRead file" and rc: "\<forall>h. rcMap h = SQLITE_OK" and ps: "pages_sized w0"
  shows "\<exists>w'. walIndexRecover hb' SQLITE_OK (Inr (length file)) osRead True rcMap w0 = Some (SQLITE_OK, w')
    \<and> mxFrame (idx w') = length fs \<and> nPage w' = fst (snd (last fs)) \<and> wal_ok (idx w') (map fst fs)"
proof -
  let ?e = "logStart (bigEndCksum w) (szPage w) (nCkpt w) (aSalt w) w0"
  obtain hb2 b e rest where b: "walLogFrames hb2 (logOf w) fs = Some (b, e)"
     "file = walHdrBytes (bigEndCksum w) (szPage w) (nCkpt w) (aSalt w) @ b @ rest" "log_stops hb2 e rest"
    using ends by (auto simp: log_ends_def)
  have salt: "length (aSalt w) = 8" and sz: "szPage_ok (szPage w)" and ok: "list_all (frame_ok (szPage w)) fs"
    using lf by (auto simp: log_file_def)
  have b1: "walLogFrames (bigEndCksum w) (logOf w) fs = Some (b, e)" using b(1) walLogFrames_host by metis
  have "same_log ?e (logOf w)" by (simp add: same_log_def logOf_def logStart_def)
  then obtain e' where e': "walLogFrames (bigEndCksum w) ?e fs = Some (b, e')" "same_log e' e"
    using same_log_walLogFrames [OF _ _ _ b1, of ?e] salt ok by (auto simp: logOf_def logStart_def)
  have stop: "log_stops hb' e' rest"
    using b(3) same_log_decode [OF e'(2)] e'(2) unfolding log_stops_host [of hb2 _ _ hb']
    by (auto simp: log_stops_def same_log_def Let_def)
  have len: "length file > WAL_HDRSIZE"
  proof -
    have "length b = length fs * (szPage w + WAL_FRAME_HDRSIZE)"
      using walLogFrames_Some [of "logOf w" fs "bigEndCksum w"] b1 salt ok by (auto simp: logOf_def logStart_def)
    then have "length b > 0" using fs(1) by (simp add: WAL_FRAME_HDRSIZE_def)
    then show ?thesis using b(2) salt by simp
  qed
  obtain w' where w': "walIndexRecover hb' SQLITE_OK (Inr (length file)) osRead True rcMap w0 = Some (SQLITE_OK, w')"
    "wal_ok (idx w') (map fst fs)" "(mxFrame (idx w'), nPage w', cksum w') = logCommit hb' ?e 0 fs (0, 0, (0, 0))"
    using walIndexRecover_log [OF salt sz ok _ stop b(2) rf len rc ps] e'(1) walLogFrames_host by metis
  have "length (aSalt ?e) = 8" "list_all (frame_ok (szPage ?e)) fs" using salt ok by (simp_all add: logStart_def)
  then have "logCommit hb' ?e 0 fs (0, 0, (0, 0)) = (length fs, fst (snd (last fs)), cksum e')"
    using logCommit_last [of ?e fs hb' b e'] fs e'(1) walLogFrames_host [of hb' ?e fs "bigEndCksum w"] by simp
  then show ?thesis using w' by auto
qed

text \<open>Nothing follows the frames when the file is not longer than they are.\<close>

lemma log_file_ends:
  assumes lf: "log_file hb w file fs" and len: "length file \<le> walFrameOffset (length fs + 1) (szPage w)"
  shows "log_ends w file fs"
proof -
  let ?h = "walHdrBytes (bigEndCksum w) (szPage w) (nCkpt w) (aSalt w)"
  obtain b e rest where b: "walLogFrames hb (logOf w) fs = Some (b, e)" "file = ?h @ b @ rest" and salt: "length (aSalt w) = 8"
      and ok: "list_all (frame_ok (szPage w)) fs"
    using lf by (auto simp: log_file_def)
  have "length b = length fs * (szPage w + WAL_FRAME_HDRSIZE)"
    using walLogFrames_Some [of "logOf w" fs hb] b(1) salt ok by (auto simp: logOf_def logStart_def)
  then have "rest = []" using len b(2) salt by (simp add: walFrameOffset_def)
  then have "log_stops hb e rest" by (simp add: log_stops_def WAL_FRAME_HDRSIZE_def)
  then show ?thesis using b unfolding log_ends_def by blast
qed

lemma walWriteSet_commits:
  assumes "write_ready hb env w1 file sz fs" and "wal_ok (idx w1) (map fst fs @ gs)" and "io_ok io"
    and ps: "pages_ok sz ps" and n: "n \<noteq> 0" and "\<forall>h. rcMap h = SQLITE_OK"
  shows "\<exists>w io' file' new. walWriteSet hb env rcMap w1 io file sz ps n True = Some (SQLITE_OK, w, io', file')
    \<and> take (length ps) new = mkFrames ps n \<and> log_file hb w file' (fs @ new)
    \<and> wal_ok (idx w) (map fst (fs @ new)) \<and> mxFrame (idx w) = length (fs @ new)
    \<and> shared w = \<lparr> h_mxFrame = length (fs @ new), h_cksum = cksum w \<rparr>
    \<and> fst (snd (last (fs @ new))) = n \<and> new \<noteq> []
    \<and> length file' \<le> max (length file) (walFrameOffset (length (fs @ new) + 1) sz) \<and> szPage w = sz"
proof -
  obtain w io' file' k where r: "walWriteSet hb env rcMap w1 io file sz ps n True = Some (SQLITE_OK, w, io', file')"
    and lf: "log_file hb w file' (fs @ mkFrames ps n @ replicate k (fst (last ps), n, snd (last ps)))"
    and ix: "wal_ok (idx w) (map fst (fs @ mkFrames ps n @ replicate k (fst (last ps), n, snd (last ps))))"
      "mxFrame (idx w) = length (fs @ mkFrames ps n @ replicate k (fst (last ps), n, snd (last ps)))"
      "shared w = \<lparr> h_mxFrame = mxFrame (idx w), h_cksum = cksum w \<rparr>"
    and len: "length file' \<le> max (length file) (walFrameOffset (length fs + length ps + k + 1) sz)" "szPage w = sz"
    using walWriteSet_lemma [OF assms(1,2,3,4,6), of n True] unfolding Let_def if_True by (elim exE conjE)
  define new where "new = mkFrames ps n @ replicate k (fst (last ps), n, snd (last ps))"
  have pne: "ps \<noteq> []" using ps by (simp add: pages_ok_def)
  have last: "fst (snd (last (fs @ new))) = n" unfolding new_def by (rule last_commit_frames [OF pne n])
  note folded = lf [folded new_def] ix [folded new_def]
  have sh: "shared w = \<lparr> h_mxFrame = length (fs @ new), h_cksum = cksum w \<rparr>" using folded(3,4) by simp
  have tk: "take (length ps) new = mkFrames ps n" "new \<noteq> []" using pne by (simp_all add: new_def)
  have "length new = length ps + k" by (simp add: new_def)
  then have le: "length file' \<le> max (length file) (walFrameOffset (length (fs @ new) + 1) sz)" using len(1) by (simp add: add.assoc)
  show ?thesis
    by (intro exI [of _ w] exI [of _ io'] exI [of _ file'] exI [of _ new] conjI r tk folded(1,2,3) sh last le len(2))
qed

text \<open>C7. A commit is durable: when the writes succeed and the restart of the log at the start of the function
  does not fail, the log file holds the new frames with the commit mark after the old ones (after none, when the
  log is restarted, which happens only under the read lock 0 and after frames were copied to the database
  file), the wal-index covers them and the header is published. Recovery from the file, by a process of either byte
  order and with any old wal-index, then finds the same snapshot, provided that what an earlier use of the
  log has left in the file behind the new frames is not by chance a valid next frame; when the file was not
  longer than the new log nothing is left there, and the provision is not needed.\<close>

theorem wal_commit_recovers:
  assumes "write_ready hb env pWal file sz fs" and "walRestart env pWal = Some (SQLITE_OK, w1)"
    and "wal_ok (idx pWal) (map fst fs @ gs)" and "io_ok io"
    and "pages_ok sz ps" and "n \<noteq> 0" and "\<forall>h. rcMap h = SQLITE_OK"
  shows "\<exists>w io' file' old new. sqlite3WalFrames hb env rcMap pWal io file sz ps n True = Some (SQLITE_OK, w, io', file')
    \<and> (old = fs \<or> old = [] \<and> heldReadLock pWal = Some 0 \<and> 0 < nBackfill (ckpt pWal))
    \<and> take (length ps) new = mkFrames ps n \<and> log_file hb w file' (old @ new)
    \<and> wal_ok (idx w) (map fst (old @ new)) \<and> mxFrame (idx w) = length (old @ new)
    \<and> shared w = \<lparr> h_mxFrame = length (old @ new), h_cksum = cksum w \<rparr>
    \<and> (\<forall>hb' osRead w0. (length file \<le> walFrameOffset (length (old @ new) + 1) sz \<or> log_ends w file' (old @ new))
          \<and> reads_file osRead file' \<and> pages_sized w0 \<longrightarrow>
        (\<exists>w'. walIndexRecover hb' SQLITE_OK (Inr (length file')) osRead True rcMap w0 = Some (SQLITE_OK, w')
          \<and> mxFrame (idx w') = length (old @ new) \<and> nPage w' = n \<and> wal_ok (idx w') (map fst (old @ new))))"
proof -
  obtain old gs' where old: "write_ready hb env w1 file sz old" "wal_ok (idx w1) (map fst old @ gs')"
      "old = fs \<or> old = [] \<and> heldReadLock pWal = Some 0 \<and> 0 < nBackfill (ckpt pWal)"
    using walRestart_ready [OF assms(1,2,3)] by blast
  obtain w io' file' new where r: "walWriteSet hb env rcMap w1 io file sz ps n True = Some (SQLITE_OK, w, io', file')"
      "take (length ps) new = mkFrames ps n" "log_file hb w file' (old @ new)" "wal_ok (idx w) (map fst (old @ new))"
      "mxFrame (idx w) = length (old @ new)" "shared w = \<lparr> h_mxFrame = length (old @ new), h_cksum = cksum w \<rparr>"
      "fst (snd (last (old @ new))) = n" "new \<noteq> []" "length file' \<le> max (length file) (walFrameOffset (length (old @ new) + 1) sz)"
      "szPage w = sz"
    using walWriteSet_commits [OF old(1,2) assms(4,5,6,7)] by blast
  have rec: "\<exists>w'. walIndexRecover hb' SQLITE_OK (Inr (length file')) osRead True rcMap w0 = Some (SQLITE_OK, w')
          \<and> mxFrame (idx w') = length (old @ new) \<and> nPage w' = n \<and> wal_ok (idx w') (map fst (old @ new))"
    if "length file \<le> walFrameOffset (length (old @ new) + 1) sz \<or> log_ends w file' (old @ new)" "reads_file osRead file'" "pages_sized w0"
    for hb' osRead w0
  proof -
    have "log_ends w file' (old @ new)" using that(1) r(9,10) log_file_ends [OF r(3)] by fastforce
    then show ?thesis using log_file_recovers [OF r(3) _ _ _ that(2) assms(7) that(3), of hb'] r(7,8) assms(6) by simp
  qed
  have run: "sqlite3WalFrames hb env rcMap pWal io file sz ps n True = Some (SQLITE_OK, w, io', file')"
    using assms(2) r(1) by (simp add: sqlite3WalFrames_def)
  have all: "\<forall>hb' osRead w0. (length file \<le> walFrameOffset (length (old @ new) + 1) sz \<or> log_ends w file' (old @ new))
          \<and> reads_file osRead file' \<and> pages_sized w0 \<longrightarrow>
        (\<exists>w'. walIndexRecover hb' SQLITE_OK (Inr (length file')) osRead True rcMap w0 = Some (SQLITE_OK, w')
          \<and> mxFrame (idx w') = length (old @ new) \<and> nPage w' = n \<and> wal_ok (idx w') (map fst (old @ new)))"
    using rec by blast
  show ?thesis
    by (intro exI [of _ w] exI [of _ io'] exI [of _ file'] exI [of _ old] exI [of _ new] conjI run old(3) r(2-6) all)
qed

theorem wal_commit_recovers_witness:
  "\<exists>w io' file' (new :: logFrame list) w'. sqlite3WalFrames True \<lparr> salt = replicate 8 9, salt1 = replicate 4 7, lockRc = [],
        syncHeader = True, syncAny = True, syncTx = True, sector = Some 4096, limit = Some 0 \<rparr>
        (\<lambda>_. SQLITE_OK) (wal0 \<lparr> heldReadLock := Some 0, ckpt := \<lparr> nBackfill = 1, aReadMark = replicate 5 0 \<rparr> \<rparr>)
        [] [] 512 [(1, replicate 512 3), (2, replicate 512 4)] 2 True = Some (SQLITE_OK, w, io', file')
    \<and> take 2 new = [(1, 0, replicate 512 3), (2, 2, replicate 512 4)] \<and> mxFrame (idx w) = length new
    \<and> walIndexRecover False SQLITE_OK (Inr (length file')) (\<lambda>off n. Inr (take n (drop off file'))) True (\<lambda>_. SQLITE_OK) wal0 = Some (SQLITE_OK, w')
    \<and> mxFrame (idx w') = length new \<and> nPage w' = 2"
proof -
  let ?env = "\<lparr> salt = replicate 8 9, salt1 = replicate 4 7, lockRc = [], syncHeader = True, syncAny = True, syncTx = True, sector = Some 4096, limit = Some 0 \<rparr>"
  let ?ps = "[(1, replicate 512 3), (2, replicate 512 4)] :: (u32 \<times> bytes) list"
  let ?w = "wal0 \<lparr> heldReadLock := Some 0, ckpt := \<lparr> nBackfill = 1, aReadMark = replicate 5 0 \<rparr> \<rparr>"
  obtain w1 where w1: "walRestart ?env ?w = Some (SQLITE_OK, w1)"
    using walRestart_granted [of ?w ?env "[]" SQLITE_OK "[]"] by (auto simp: wal0_def WAL_NREADER_def)
  have two: "(2 :: u32) \<noteq> 0" "\<forall>h :: nat. (\<lambda>_. SQLITE_OK) h = SQLITE_OK" by simp_all
  have ready: "write_ready True ?env ?w [] 512 []" "wal_ok (idx ?w) (map fst ([] :: logFrame list) @ [])" "io_ok []" "pages_ok 512 ?ps"
    by (simp_all add: write_ready_def wal0_def walEmpty_def szPage_ok_def SQLITE_MAX_PAGE_SIZE_def io_ok_def pages_ok_def wal_ok_def exI [of _ 9])
  from wal_commit_recovers [OF ready(1) w1 ready(2-4) two] obtain w io' file' old new where
    r: "sqlite3WalFrames True ?env (\<lambda>_. SQLITE_OK) ?w [] [] 512 ?ps 2 True = Some (SQLITE_OK, w, io', file')"
      "old = [] \<or> old = [] \<and> heldReadLock ?w = Some 0 \<and> 0 < nBackfill (ckpt ?w)"
      "take (length ?ps) new = mkFrames ?ps 2" "mxFrame (idx w) = length (old @ new)"
    and rec: "\<forall>hb' osRead w0. (length ([] :: bytes) \<le> walFrameOffset (length (old @ new) + 1) 512 \<or> log_ends w file' (old @ new))
          \<and> reads_file osRead file' \<and> pages_sized w0 \<longrightarrow>
        (\<exists>w'. walIndexRecover hb' SQLITE_OK (Inr (length file')) osRead True (\<lambda>_. SQLITE_OK) w0 = Some (SQLITE_OK, w')
          \<and> mxFrame (idx w') = length (old @ new) \<and> nPage w' = 2 \<and> wal_ok (idx w') (map fst (old @ new)))"
    by (elim exE conjE)
  have "reads_file (\<lambda>off n. Inr (take n (drop off file'))) file'" "pages_sized wal0"
    by (simp_all add: reads_file_def pages_sized_def wal0_def walEmpty_def)
  moreover have "length ([] :: bytes) \<le> walFrameOffset (length (old @ new) + 1) 512" by simp
  ultimately obtain w' where w': "walIndexRecover False SQLITE_OK (Inr (length file')) (\<lambda>off n. Inr (take n (drop off file'))) True (\<lambda>_. SQLITE_OK) wal0
      = Some (SQLITE_OK, w')" "mxFrame (idx w') = length (old @ new)" "nPage w' = 2"
    using rec by blast
  have "old = []" using r(2) by blast
  then show ?thesis using r(1,3,4) w'
    by (intro exI [of _ w] exI [of _ io'] exI [of _ file'] exI [of _ new] exI [of _ w']) (simp add: numeral_2_eq_2)
qed

text \<open>C8. A commit is all or nothing: whatever fails while frames are written, the published header and the
  end of the log of the handle are unchanged, so neither other connections nor this one see a part of
  the transaction. There is one exception, which does not show a part of the transaction either: when the log was
  restarted before the failure, the published header says that the log is empty. A restart needs the read
  lock 0, frames that are copied to the database file, and that no reader uses the log.\<close>

theorem sqlite3WalFrames_all_or_nothing:
  assumes "sqlite3WalFrames hb env rcMap pWal io file sz ps n isCommit = Some (rc, w, io', file')" and "rc \<noteq> SQLITE_OK"
  shows "shared w = shared pWal \<and> mxFrame (idx w) = mxFrame (idx pWal)
    \<or> heldReadLock pWal = Some 0 \<and> 0 < nBackfill (ckpt pWal) \<and> fst (osLock (lockRc env)) = SQLITE_OK
      \<and> shared w = \<lparr> h_mxFrame = 0, h_cksum = cksum pWal \<rparr> \<and> mxFrame (idx w) = 0"
proof -
  obtain rc1 w1 where r: "walRestart env pWal = Some (rc1, w1)"
    using assms(1) by (cases "walRestart env pWal") (auto simp: sqlite3WalFrames_def)
  have w: "shared w = shared w1 \<and> mxFrame (idx w) = mxFrame (idx w1)"
    using assms r walWriteSet_failure [of hb env rcMap w1 io "file" sz ps n isCommit rc w io' file']
    by (auto simp: sqlite3WalFrames_def split: if_splits)
  from r show ?thesis
  proof (cases rule: walRestart_cases)
    case same
    then show ?thesis using w other_lock_fields by auto
  next
    case (restarted v)
    then show ?thesis using w other_lock_fields [OF restarted(5)] walResetLog_fields [OF restarted(4)] by auto
  qed
qed

theorem sqlite3WalFrames_all_or_nothing_witness:
  "(\<exists>w file'. sqlite3WalFrames True \<lparr> salt = replicate 8 9, salt1 = replicate 4 7, lockRc = [], syncHeader = False, syncAny = False, syncTx = False, sector = None, limit = None \<rparr>
        (\<lambda>_. SQLITE_OK) wal0 [IoFail SQLITE_IOERR 3] [] 512 [(1, replicate 512 3)] 1 True = Some (SQLITE_IOERR, w, [], file')
     \<and> shared w = shared wal0 \<and> mxFrame (idx w) = 0)
   \<and> (\<exists>w. sqlite3WalFrames True \<lparr> salt = replicate 8 9, salt1 = replicate 4 7, lockRc = [SQLITE_OK, SQLITE_IOERR], syncHeader = False, syncAny = False, syncTx = False, sector = None, limit = None \<rparr>
        (\<lambda>_. SQLITE_OK) (wal0 \<lparr> idx := walEmpty \<lparr> mxFrame := 1 \<rparr>, heldReadLock := Some 0, ckpt := \<lparr> nBackfill = 1, aReadMark = replicate 5 0 \<rparr> \<rparr>)
        [] [] 512 [(1, replicate 512 3)] 1 True = Some (SQLITE_IOERR, w, [], [])
     \<and> (shared w = shared wal0 \<and> mxFrame (idx w) = 1 \<or> shared w = \<lparr> h_mxFrame = 0, h_cksum = (0, 0) \<rparr> \<and> mxFrame (idx w) = 0))"
proof
  let ?env = "\<lambda>ls. \<lparr> salt = replicate 8 9, salt1 = replicate 4 7, lockRc = ls, syncHeader = False, syncAny = False, syncTx = False, sector = None, limit = None \<rparr>"
  have "\<exists>w file'. sqlite3WalFrames True (?env []) (\<lambda>_. SQLITE_OK) wal0 [IoFail SQLITE_IOERR 3] [] 512 [(1, replicate 512 3)] 1 True
      = Some (SQLITE_IOERR, w, [], file')"
    by (simp add: sqlite3WalFrames_def walRestart_def walWriteSet_def wal0_def walEmpty_def walWriteHdr_def walChecksumBytes_def WAL_HDRSIZE_def Let_def)
  then obtain w file' where r: "sqlite3WalFrames True (?env []) (\<lambda>_. SQLITE_OK) wal0 [IoFail SQLITE_IOERR 3] [] 512 [(1, replicate 512 3)] 1 True
      = Some (SQLITE_IOERR, w, [], file')" by blast
  then show "\<exists>w file'. sqlite3WalFrames True (?env []) (\<lambda>_. SQLITE_OK) wal0 [IoFail SQLITE_IOERR 3] [] 512 [(1, replicate 512 3)] 1 True
      = Some (SQLITE_IOERR, w, [], file') \<and> shared w = shared wal0 \<and> mxFrame (idx w) = 0"
    using sqlite3WalFrames_all_or_nothing [OF r] by (auto simp: wal0_def walEmpty_def)
  let ?w = "wal0 \<lparr> idx := walEmpty \<lparr> mxFrame := 1 \<rparr>, heldReadLock := Some 0, ckpt := \<lparr> nBackfill = 1, aReadMark = replicate 5 0 \<rparr> \<rparr>"
  let ?run = "sqlite3WalFrames True (?env [SQLITE_OK, SQLITE_IOERR]) (\<lambda>_. SQLITE_OK) ?w [] [] 512 [(1, replicate 512 3)] 1 True"
  have "length (aReadMark (ckpt ?w)) = WAL_NREADER" by (simp add: WAL_NREADER_def)
  then have "\<exists>w. walRestart (?env [SQLITE_OK, SQLITE_IOERR]) ?w = Some (SQLITE_IOERR, w)"
    using walRestart_granted [of ?w "?env [SQLITE_OK, SQLITE_IOERR]" "[SQLITE_IOERR]" SQLITE_IOERR "[]"] by (auto simp: wal0_def)
  then have "\<exists>w. ?run = Some (SQLITE_IOERR, w, [], [])" by (auto simp: sqlite3WalFrames_def)
  then obtain w where r: "?run = Some (SQLITE_IOERR, w, [], [])" by blast
  then show "\<exists>w. ?run = Some (SQLITE_IOERR, w, [], []) \<and> (shared w = shared wal0 \<and> mxFrame (idx w) = 1
      \<or> shared w = \<lparr> h_mxFrame = 0, h_cksum = (0, 0) \<rparr> \<and> mxFrame (idx w) = 0)"
    using sqlite3WalFrames_all_or_nothing [OF r] by (auto simp: wal0_def walEmpty_def)
qed

end
