(* ===== verification/Wal_Sort.thy ===== *)
theory Wal_Sort
  imports Wal_Index
begin

text \<open>
  The merge sort of the wal-index iterator in \<^verbatim>\<open>wal.c\<close>. It sorts an array of positions in place by the page
  numbers at those positions and keeps of equal page numbers only the last position. Sublists are ranges of
  the one array, so the model has the array and pairs of a start and a length. A read or write outside
  \<^verbatim>\<open>aSub\<close> is \<open>None\<close>.
\<close>

section \<open>The merge\<close>

text \<open>What is left of the left and of the right list, and the output from here on.\<close>

function walMergeLoop :: "u32 list \<Rightarrow> nat list \<Rightarrow> nat list \<Rightarrow> nat list" where
  "walMergeLoop aContent aLeft aRight =
     (if aLeft = [] \<and> aRight = [] then []
      else
        let (logpage, aLeft, aRight) =
              (if aLeft \<noteq> [] \<and> (aRight = [] \<or> aContent ! hd aLeft < aContent ! hd aRight)
               then (hd aLeft, tl aLeft, aRight) else (hd aRight, aLeft, tl aRight));
            aLeft = (if aLeft \<noteq> [] \<and> aContent ! hd aLeft = aContent ! logpage then tl aLeft else aLeft)
        in logpage # walMergeLoop aContent aLeft aRight)"
  by pat_completeness auto
termination
  by (relation "measure (\<lambda>(c, l, r). length l + length r)") (auto split: if_splits simp: neq_Nil_conv)

declare walMergeLoop.simps [simp del]

definition subarray :: "'a list \<Rightarrow> nat \<times> nat \<Rightarrow> 'a list" where
  "subarray a r = take (snd r) (drop (fst r) a)"

text \<open>The output is assembled in \<^verbatim>\<open>aTmp\<close> and copied over the start of the left list.\<close>

definition walMerge :: "u32 list \<Rightarrow> nat list \<Rightarrow> nat \<times> nat \<Rightarrow> nat \<times> nat \<Rightarrow> nat list \<times> nat \<times> nat" where
  "walMerge aContent a left right =
     (let aTmp = walMergeLoop aContent (subarray a left) (subarray a right)
      in (take (fst left) a @ aTmp @ drop (fst left + length aTmp) a, (fst left, length aTmp)))"

section \<open>The sort\<close>

text \<open>The inner loop: as long as the bit \<open>iSub\<close> of \<open>iList\<close> is set, merge with that sublist.\<close>

function walMergeUp :: "u32 list \<Rightarrow> nat \<Rightarrow> (nat \<times> nat) list \<Rightarrow> nat list \<Rightarrow> nat \<times> nat \<Rightarrow> nat \<Rightarrow>
    (nat list \<times> (nat \<times> nat) \<times> nat) option" where
  "walMergeUp aContent iList aSub a aMerge iSub =
     (if bit iList iSub then do {
        p \<leftarrow> rd aSub iSub;
        let (a, aMerge) = walMerge aContent a p aMerge;
        walMergeUp aContent iList aSub a aMerge (iSub + 1)
      } else Some (a, aMerge, iSub))"
  by pat_completeness auto

lemma bit_nat_less: "bit (n :: nat) k \<Longrightarrow> k < n"
proof -
  assume "bit n k"
  then have "odd (n div 2 ^ k)" by (simp add: bit_iff_odd)
  then have "2 ^ k \<le> n" by (metis div_less dvd_0_right not_less)
  then show ?thesis using less_exp [of k] by linarith
qed

termination walMergeUp
  by (relation "measure (\<lambda>(c, i, s, a, m, k). i - k)") (auto dest: bit_nat_less)

declare walMergeUp.simps [simp del]

text \<open>The outer loop over the positions from \<open>iList\<close> on, \<open>n\<close> of them.\<close>

primrec walSortLoop :: "u32 list \<Rightarrow> nat \<Rightarrow> nat \<Rightarrow> (nat \<times> nat) list \<Rightarrow> nat list \<Rightarrow> nat \<times> nat \<Rightarrow> nat \<Rightarrow>
    ((nat \<times> nat) list \<times> nat list \<times> (nat \<times> nat) \<times> nat) option" where
  "walSortLoop aContent iList 0 aSub a aMerge iSub = Some (aSub, a, aMerge, iSub)"
| "walSortLoop aContent iList (Suc n) aSub a aMerge iSub = do {
     (a, aMerge, iSub) \<leftarrow> walMergeUp aContent iList aSub a (iList, 1) 0;
     if iSub < length aSub then walSortLoop aContent (iList + 1) n (aSub[iSub := aMerge]) a aMerge iSub else None
   }"

text \<open>The last loop merges the remaining sublists, \<open>n\<close> of them from \<open>iSub\<close> on.\<close>

primrec walSortFinal :: "u32 list \<Rightarrow> nat \<Rightarrow> (nat \<times> nat) list \<Rightarrow> nat \<Rightarrow> nat \<Rightarrow> nat list \<Rightarrow> nat \<times> nat \<Rightarrow>
    (nat list \<times> nat \<times> nat) option" where
  "walSortFinal aContent nList aSub 0 iSub a aMerge = Some (a, aMerge)"
| "walSortFinal aContent nList aSub (Suc n) iSub a aMerge =
     (if bit nList iSub then do {
        p \<leftarrow> rd aSub iSub;
        let (a, aMerge) = walMerge aContent a p aMerge;
        walSortFinal aContent nList aSub n (iSub + 1) a aMerge
      } else walSortFinal aContent nList aSub n (iSub + 1) a aMerge)"

text \<open>The result is the array with the range of the sorted list.\<close>

definition walMergesort :: "u32 list \<Rightarrow> nat list \<Rightarrow> nat \<Rightarrow> (nat list \<times> nat \<times> nat) option" where
  "walMergesort aContent aList nList = do {
     (aSub, a, aMerge, iSub) \<leftarrow> walSortLoop aContent 0 nList (replicate 13 (0, 0)) aList (0, 0) 0;
     walSortFinal aContent nList aSub (13 - (iSub + 1)) (iSub + 1) a aMerge
   }"

section \<open>Blocks\<close>

text \<open>\<open>block c lo hi xs\<close>: the positions in \<open>xs\<close> are those from \<open>lo\<close> to \<open>hi\<close> whose page number does not occur
  again before \<open>hi\<close>, in the order of the page numbers.\<close>

abbreviation by_page :: "u32 list \<Rightarrow> nat list \<Rightarrow> bool" where
  "by_page c \<equiv> sorted_wrt (\<lambda>i j. c ! i < c ! j)"

definition lasts :: "u32 list \<Rightarrow> nat \<Rightarrow> nat \<Rightarrow> nat set" where
  "lasts c lo hi = {i. lo \<le> i \<and> i < hi \<and> (\<forall>j. i < j \<and> j < hi \<longrightarrow> c ! j \<noteq> c ! i)}"

definition block :: "u32 list \<Rightarrow> nat \<Rightarrow> nat \<Rightarrow> nat list \<Rightarrow> bool" where
  "block c lo hi xs \<longleftrightarrow> by_page c xs \<and> set xs = lasts c lo hi"

lemma by_page_distinct: "by_page c xs \<Longrightarrow> distinct xs"
  by (induction xs) auto

lemma block_length:
  assumes "block c lo hi xs"
  shows "length xs \<le> hi - lo"
proof -
  have "length xs = card (set xs)"
    using assms distinct_card [OF by_page_distinct, of c xs] unfolding block_def by metis
  also have "\<dots> \<le> card {lo..<hi}" using assms by (intro card_mono) (auto simp: block_def lasts_def)
  finally show ?thesis by simp
qed

text \<open>The merge on sorted lists, without the test for a duplicate behind every output.\<close>

fun mergeRef :: "u32 list \<Rightarrow> nat list \<Rightarrow> nat list \<Rightarrow> nat list" where
  "mergeRef c [] rs = rs"
| "mergeRef c (l # ls) [] = l # ls"
| "mergeRef c (l # ls) (r # rs) =
     (if c ! l < c ! r then l # mergeRef c ls (r # rs)
      else if c ! l = c ! r then r # mergeRef c ls rs
      else r # mergeRef c (l # ls) rs)"

lemma walMergeLoop_left: "by_page c ls \<Longrightarrow> walMergeLoop c ls [] = ls"
proof (induction ls)
  case (Cons l ls)
  then have "ls \<noteq> [] \<Longrightarrow> c ! hd ls \<noteq> c ! l" by (cases ls) auto
  then show ?case using Cons by (subst walMergeLoop.simps) auto
qed (simp add: walMergeLoop.simps)

lemma walMergeLoop_right: "walMergeLoop c [] rs = rs"
  by (induction rs) (simp_all add: walMergeLoop.simps)

lemma walMergeLoop_ref: "by_page c ls \<Longrightarrow> by_page c rs \<Longrightarrow> walMergeLoop c ls rs = mergeRef c ls rs"
proof (induction c ls rs rule: mergeRef.induct)
  case (3 c l ls r rs)
  have "ls \<noteq> [] \<Longrightarrow> c ! hd ls \<noteq> c ! l" using 3(4) by (cases ls) auto
  then show ?case using 3 by (subst walMergeLoop.simps) auto
qed (simp_all add: walMergeLoop_left walMergeLoop_right)

lemma set_mergeRef:
  "by_page c ls \<Longrightarrow> by_page c rs \<Longrightarrow> set (mergeRef c ls rs) = set rs \<union> {l \<in> set ls. \<forall>r \<in> set rs. c ! r \<noteq> c ! l}"
proof (induction c ls rs rule: mergeRef.induct)
  case (3 c l ls r rs)
  consider "c ! l < c ! r" | "c ! l = c ! r" | "c ! r < c ! l" by fastforce
  then show ?case
  proof cases
    case 1
    then have "\<forall>x \<in> set (r # rs). c ! x \<noteq> c ! l" using 3(5) by fastforce
    then show ?thesis using 1 3 by auto
  next
    case 2
    then have "\<forall>x \<in> set ls. c ! r \<noteq> c ! x" using 3(4) by fastforce
    then show ?thesis using 2 3 by auto
  next
    case 3
    then have "\<forall>x \<in> set (l # ls). c ! r \<noteq> c ! x" using \<open>by_page c (l # ls)\<close> by fastforce
    then show ?thesis using 3 "3.IH" "3.prems" by auto
  qed
qed auto

lemma by_page_mergeRef: "by_page c ls \<Longrightarrow> by_page c rs \<Longrightarrow> by_page c (mergeRef c ls rs)"
proof (induction c ls rs rule: mergeRef.induct)
  case (3 c l ls r rs)
  then show ?case by (auto simp: set_mergeRef)
qed auto

lemma last_exists:
  assumes "lo \<le> j" and "j < hi"
  shows "\<exists>i \<in> lasts c lo hi. c ! i = c ! j"
proof -
  let ?S = "{i. lo \<le> i \<and> i < hi \<and> c ! i = c ! j}"
  have "finite ?S" by (rule finite_subset [of _ "{..<hi}"]) auto
  moreover have "j \<in> ?S" using assms by simp
  ultimately have "Max ?S \<in> ?S" "\<forall>i \<in> ?S. i \<le> Max ?S" using Max_in [of ?S] Max_ge [of ?S] by blast+
  then obtain m where m: "m \<in> ?S" "\<forall>i \<in> ?S. i \<le> m" by blast
  have "c ! i \<noteq> c ! m" if "m < i" "i < hi" for i
  proof
    assume "c ! i = c ! m"
    then have "i \<in> ?S" using m(1) that by simp
    then show False using m(2) that(1) by fastforce
  qed
  then have "m \<in> lasts c lo hi" using m(1) by (simp add: lasts_def)
  then show ?thesis using m(1) by blast
qed

lemma lasts_append:
  assumes "lo \<le> mid" and "mid \<le> hi"
  shows "lasts c lo hi = lasts c mid hi \<union> {l \<in> lasts c lo mid. \<forall>r \<in> lasts c mid hi. c ! r \<noteq> c ! l}"
proof (intro equalityI subsetI)
  fix i assume i: "i \<in> lasts c lo hi"
  show "i \<in> lasts c mid hi \<union> {l \<in> lasts c lo mid. \<forall>r \<in> lasts c mid hi. c ! r \<noteq> c ! l}"
  proof (cases "i < mid")
    case True
    then have "i \<in> lasts c lo mid" using i assms by (auto simp: lasts_def)
    moreover have "\<forall>r \<in> lasts c mid hi. c ! r \<noteq> c ! i" using i True by (auto simp: lasts_def)
    ultimately show ?thesis by blast
  qed (use i in \<open>auto simp: lasts_def\<close>)
next
  fix i assume i: "i \<in> lasts c mid hi \<union> {l \<in> lasts c lo mid. \<forall>r \<in> lasts c mid hi. c ! r \<noteq> c ! l}"
  show "i \<in> lasts c lo hi"
  proof (cases "i \<in> lasts c mid hi")
    case False
    then have l: "i \<in> lasts c lo mid" "\<forall>r \<in> lasts c mid hi. c ! r \<noteq> c ! i" using i by auto
    have "c ! j \<noteq> c ! i" if "i < j" "j < hi" for j
      using l last_exists [of mid j hi c] that by (cases "j < mid") (auto simp: lasts_def)
    then show ?thesis using l(1) assms by (auto simp: lasts_def)
  qed (use assms in \<open>auto simp: lasts_def\<close>)
qed

lemma block_merge:
  assumes "block c lo mid xs" and "block c mid hi ys" and "lo \<le> mid" and "mid \<le> hi"
  shows "block c lo hi (walMergeLoop c xs ys)"
  using assms lasts_append [OF assms(3,4), of c] by (simp add: block_def walMergeLoop_ref by_page_mergeRef set_mergeRef)

lemma block_single: "block c i (i + 1) [i]"
  by (auto simp: block_def lasts_def)

section \<open>Merging in the array\<close>

lemma subarray_prefix:
  assumes "take s a' = take s a" and "i + k \<le> s"
  shows "subarray a' (i, k) = subarray a (i, k)"
proof -
  have "subarray b (i, k) = take k (drop i (take s b))" for b :: "'a list"
    using assms(2) by (simp add: subarray_def drop_take min_def)
  then show ?thesis using assms(1) by simp
qed

lemma walMerge_block:
  assumes "block c s m (subarray a (s, k))" and "block c m e (subarray a (m, k'))" and "s \<le> m" and "m \<le> e" and "e \<le> length a"
  shows "\<exists>a' n. walMerge c a (s, k) (m, k') = (a', (s, n)) \<and> s + n \<le> e \<and> block c s e (subarray a' (s, n))
    \<and> length a' = length a \<and> take s a' = take s a \<and> drop e a' = drop e a"
proof -
  define out where "out = walMergeLoop c (subarray a (s, k)) (subarray a (m, k'))"
  define a' where "a' = take s a @ out @ drop (s + length out) a"
  have b: "block c s e out" unfolding out_def by (rule block_merge [OF assms(1-4)])
  have l: "s + length out \<le> e" using block_length [OF b] assms(3,4) by simp
  have s: "length (take s a) = s" using assms(3-5) by simp
  have "walMerge c a (s, k) (m, k') = (a', (s, length out))" by (simp add: walMerge_def a'_def out_def Let_def)
  moreover have "subarray a' (s, length out) = out" using s by (simp add: subarray_def a'_def)
  moreover have "length a' = length a" using s l assms(5) by (simp add: a'_def)
  moreover have "take s a' = take s a" using s by (simp add: a'_def)
  moreover have "drop e a' = drop e a" using s l assms(5) by (simp add: a'_def)
  ultimately show ?thesis using b l by (intro exI [of _ a'] exI [of _ "length out"]) simp
qed

section \<open>The binary counter\<close>

text \<open>\<open>fl i b\<close> is \<open>i\<close> with the lowest \<open>b\<close> bits cleared.\<close>

definition fl :: "nat \<Rightarrow> nat \<Rightarrow> nat" where
  "fl i b = i div 2 ^ b * 2 ^ b"

lemma fl_0 [simp]: "fl i 0 = i"
  by (simp add: fl_def)

lemma fl_le: "fl i b \<le> i"
  by (simp add: fl_def)

lemma fl_Suc_bit: "bit i b \<Longrightarrow> fl i b = fl i (Suc b) + 2 ^ b"
proof -
  assume "bit i b"
  then have "odd (i div 2 ^ b)" by (simp add: bit_iff_odd)
  then have "i div 2 ^ b = 2 * (i div 2 ^ b div 2) + 1" by (simp add: odd_two_times_div_two_succ)
  moreover have "i div 2 ^ Suc b = i div 2 ^ b div 2" by (simp add: div_mult2_eq [symmetric] mult.commute)
  ultimately show ?thesis unfolding fl_def by (metis add_mult_distrib mult.assoc mult.commute mult_1 power_Suc)
qed

lemma fl_Suc_no_bit: "\<not> bit i b \<Longrightarrow> fl i b = fl i (Suc b)"
proof -
  assume "\<not> bit i b"
  then have "even (i div 2 ^ b)" by (simp add: bit_iff_odd)
  then have "i div 2 ^ b = 2 * (i div 2 ^ b div 2)" by simp
  moreover have "i div 2 ^ Suc b = i div 2 ^ b div 2" by (simp add: div_mult2_eq [symmetric] mult.commute)
  ultimately show ?thesis unfolding fl_def by (metis mult.assoc mult.commute power_Suc)
qed

lemma fl_antimono: "b \<le> b' \<Longrightarrow> fl i b' \<le> fl i b"
proof (induction b' rule: dec_induct)
  case (step n)
  then show ?case using fl_Suc_bit [of i n] fl_Suc_no_bit [of i n] by (cases "bit i n") simp_all
qed simp

lemma bit_bound:
  assumes "bit (i :: nat) b" and "i < 2 ^ n"
  shows "b < n"
proof (rule ccontr)
  assume "\<not> b < n"
  then have "(2 :: nat) ^ n \<le> 2 ^ b" by simp
  then have "i < 2 ^ b" using assms(2) by (rule order.strict_trans2 [rotated])
  then have "i div 2 ^ b = 0" by simp
  then show False using assms(1) by (simp add: bit_iff_odd)
qed

text \<open>The sublists of the bits from \<open>b\<close> on.\<close>

definition subs_ok :: "u32 list \<Rightarrow> nat \<Rightarrow> nat \<Rightarrow> nat list \<Rightarrow> (nat \<times> nat) list \<Rightarrow> bool" where
  "subs_ok c i b a aSub \<longleftrightarrow> (\<forall>b' \<ge> b. bit i b' \<longrightarrow>
     (\<exists>k. aSub ! b' = (fl i (Suc b'), k) \<and> fl i (Suc b') + k \<le> fl i b'
        \<and> block c (fl i (Suc b')) (fl i b') (subarray a (fl i (Suc b'), k))))"

lemma subs_okD:
  "subs_ok c i b a aSub \<Longrightarrow> b \<le> b' \<Longrightarrow> bit i b' \<Longrightarrow>
   \<exists>k. aSub ! b' = (fl i (Suc b'), k) \<and> fl i (Suc b') + k \<le> fl i b'
     \<and> block c (fl i (Suc b')) (fl i b') (subarray a (fl i (Suc b'), k))"
  by (simp add: subs_ok_def)

lemma subs_ok_mono: "subs_ok c i b a aSub \<Longrightarrow> b \<le> b' \<Longrightarrow> subs_ok c i b' a aSub"
  unfolding subs_ok_def by (meson order_trans)

lemma subs_ok_frame:
  assumes "subs_ok c i b a aSub" and "take (fl i b) a' = take (fl i b) a"
  shows "subs_ok c i b a' aSub"
  unfolding subs_ok_def
proof (intro allI impI)
  fix b' assume b': "b \<le> b'" "bit i b'"
  then obtain k where k: "aSub ! b' = (fl i (Suc b'), k)" "fl i (Suc b') + k \<le> fl i b'"
      "block c (fl i (Suc b')) (fl i b') (subarray a (fl i (Suc b'), k))"
    using subs_okD [OF assms(1)] by blast
  have "fl i (Suc b') + k \<le> fl i b" using k(2) fl_antimono [OF b'(1), of i] by simp
  then have "subarray a' (fl i (Suc b'), k) = subarray a (fl i (Suc b'), k)" by (rule subarray_prefix [OF assms(2)])
  then show "\<exists>k. aSub ! b' = (fl i (Suc b'), k) \<and> fl i (Suc b') + k \<le> fl i b'
      \<and> block c (fl i (Suc b')) (fl i b') (subarray a' (fl i (Suc b'), k))"
    using k by simp
qed

text \<open>One merge with the sublist of bit \<open>b\<close>, in the inner loop and in the last loop.\<close>

lemma merge_step:
  assumes "subs_ok c i b a aSub" and "bit i b" and "block c (fl i b) e (subarray a (fl i b, k))"
    and "i \<le> e" and "e \<le> length a"
  shows "\<exists>a' n. walMerge c a (aSub ! b) (fl i b, k) = (a', (fl i (Suc b), n)) \<and> fl i (Suc b) + n \<le> e
    \<and> block c (fl i (Suc b)) e (subarray a' (fl i (Suc b), n))
    \<and> length a' = length a \<and> drop e a' = drop e a \<and> subs_ok c i (Suc b) a' aSub"
proof -
  obtain k' where k': "aSub ! b = (fl i (Suc b), k')" "block c (fl i (Suc b)) (fl i b) (subarray a (fl i (Suc b), k'))"
    using subs_okD [OF assms(1) order_refl assms(2)] by blast
  have le: "fl i (Suc b) \<le> fl i b" "fl i b \<le> e" using fl_antimono [of b "Suc b" i] fl_le [of i b] assms(4) by simp_all
  have sub: "subs_ok c i (Suc b) a aSub" using assms(1) by (simp add: subs_ok_def)
  show ?thesis
    using walMerge_block [OF k'(2) assms(3) le assms(5)] subs_ok_frame [OF sub] unfolding k'(1) by blast
qed

lemma walMergeUp_correct:
  assumes "subs_ok c i b a aSub" and "block c (fl i b) (i + 1) (subarray a (fl i b, k))" and "fl i b + k \<le> i + 1"
    and "i + 1 = fl i b + 2 ^ b" and "i < length a" and "length aSub = 13" and "i < 2 ^ 12"
  shows "\<exists>a' k' b'. walMergeUp c i aSub a (fl i b, k) b = Some (a', (fl i b', k'), b') \<and> \<not> bit i b'
    \<and> i + 1 = fl i b' + 2 ^ b' \<and> fl i b' + k' \<le> i + 1 \<and> block c (fl i b') (i + 1) (subarray a' (fl i b', k'))
    \<and> subs_ok c i b' a' aSub \<and> length a' = length a \<and> drop (i + 1) a' = drop (i + 1) a"
  using assms
proof (induction "13 - b" arbitrary: b a k rule: less_induct)
  case less
  show ?case
  proof (cases "bit i b")
    case True
    have b: "b < 12" using bit_bound [OF True less.prems(7)] .
    obtain a' n where m: "walMerge c a (aSub ! b) (fl i b, k) = (a', (fl i (Suc b), n))" "fl i (Suc b) + n \<le> i + 1"
        "block c (fl i (Suc b)) (i + 1) (subarray a' (fl i (Suc b), n))" "length a' = length a"
        "drop (i + 1) a' = drop (i + 1) a" "subs_ok c i (Suc b) a' aSub"
      using merge_step [OF less.prems(1) True less.prems(2)] less.prems(5) by auto
    have step: "walMergeUp c i aSub a (fl i b, k) b = walMergeUp c i aSub a' (fl i (Suc b), n) (Suc b)"
      using True b less.prems(6) m(1) by (subst walMergeUp.simps) (simp add: rd_def)
    have "i + 1 = fl i (Suc b) + 2 ^ Suc b" using less.prems(4) fl_Suc_bit [OF True] by simp
    then show ?thesis
      using less.hyps [of "Suc b" a' n] m b less.prems(5-7) unfolding step by auto
  next
    case False
    then show ?thesis using less.prems by (subst walMergeUp.simps) auto
  qed
qed

lemma counter_bits:
  assumes "i + 1 = fl i b + 2 ^ b" and "\<not> bit i b"
  shows "bit (i + 1) b" "fl (i + 1) b = i + 1" "fl (i + 1) (Suc b) = fl i b"
    and "n < b \<Longrightarrow> \<not> bit (i + 1) n" and "Suc b \<le> n \<Longrightarrow> fl (i + 1) n = fl i n" "Suc b \<le> n \<Longrightarrow> bit (i + 1) n \<longleftrightarrow> bit i n"
proof -
  define q where "q = i div 2 ^ Suc b"
  have "fl i b = q * 2 ^ Suc b" using fl_Suc_no_bit [OF assms(2)] by (simp add: fl_def q_def)
  then have i: "i + 1 = (2 * q + 1) * 2 ^ b" using assms(1) by (simp add: algebra_simps)
  then have d: "(i + 1) div 2 ^ b = 2 * q + 1" by simp
  then show "bit (i + 1) b" by (simp add: bit_iff_odd)
  show "fl (i + 1) b = i + 1" unfolding fl_def d using i by simp
  have "(i + 1) div 2 ^ Suc b = (i + 1) div 2 ^ b div 2" by (simp only: power_Suc2 div_mult2_eq)
  then have s: "(i + 1) div 2 ^ Suc b = q" unfolding d by simp
  then show "fl (i + 1) (Suc b) = fl i b" using \<open>fl i b = q * 2 ^ Suc b\<close> by (simp only: fl_def)
  have high: "(i + 1) div 2 ^ n = i div 2 ^ n" if "Suc b \<le> n" for n
  proof -
    have "(2 :: nat) ^ n = 2 ^ Suc b * 2 ^ (n - Suc b)" by (simp only: power_add [symmetric] le_add_diff_inverse [OF that])
    then show ?thesis using s unfolding q_def by (simp only: div_mult2_eq)
  qed
  then show "Suc b \<le> n \<Longrightarrow> fl (i + 1) n = fl i n" "Suc b \<le> n \<Longrightarrow> bit (i + 1) n \<longleftrightarrow> bit i n"
    by (simp_all only: fl_def bit_iff_odd)
  show "\<not> bit (i + 1) n" if "n < b"
  proof -
    obtain m where "b = Suc (n + m)" using less_imp_Suc_add [OF \<open>n < b\<close>] by blast
    then have "i + 1 = 2 * (2 ^ m * (2 * q + 1)) * 2 ^ n" using i by (simp only: power_Suc power_add ac_simps)
    then have "(i + 1) div 2 ^ n = 2 * (2 ^ m * (2 * q + 1))" by (simp only: nonzero_mult_div_cancel_right power_not_zero) simp
    then show ?thesis by (simp only: bit_iff_odd) simp
  qed
qed

lemma counter_step:
  assumes "i + 1 = fl i b + 2 ^ b" and "\<not> bit i b" and "subs_ok c i b a aSub" and "fl i b + k \<le> i + 1"
    and "block c (fl i b) (i + 1) (subarray a (fl i b, k))" and "b < length aSub"
  shows "subs_ok c (i + 1) 0 a (aSub[b := (fl i b, k)])"
  unfolding subs_ok_def
proof (intro allI impI)
  note cb = counter_bits [OF assms(1,2)]
  fix b' assume b': "0 \<le> b'" "bit (i + 1) b'"
  have "\<not> b' < b" using cb(4) b'(2) by blast
  then consider "b' = b" | "Suc b \<le> b'" by linarith
  then show "\<exists>k'. aSub[b := (fl i b, k)] ! b' = (fl (i + 1) (Suc b'), k') \<and> fl (i + 1) (Suc b') + k' \<le> fl (i + 1) b'
      \<and> block c (fl (i + 1) (Suc b')) (fl (i + 1) b') (subarray a (fl (i + 1) (Suc b'), k'))"
  proof cases
    case 1
    then show ?thesis using assms(4-6) cb(2,3) by (intro exI [of _ k]) simp
  next
    case 2
    then have "bit i b'" "b \<le> b'" using cb(6) [of b'] b'(2) by simp_all
    from subs_okD [OF assms(3) this(2,1)] show ?thesis using cb(5) [of b'] cb(5) [of "Suc b'"] 2 by simp
  qed
qed

lemma walSortLoop_correct:
  assumes "subs_ok c i 0 a aSub" and "drop i a = [i..<N]" and "length a = N" and "length aSub = 13" and "i + n = N" and "N \<le> 2 ^ 12"
    and "0 < n"
  shows "\<exists>aSub' a' k b. walSortLoop c i n aSub a m iSub = Some (aSub', a', (fl N (Suc b), k), b) \<and> b < 13
    \<and> subs_ok c N (Suc b) a' aSub' \<and> block c (fl N (Suc b)) N (subarray a' (fl N (Suc b), k))
    \<and> length a' = N \<and> length aSub' = 13 \<and> fl N (Suc b) + k \<le> N"
  using assms
proof (induction n arbitrary: i a aSub m iSub)
  case (Suc n)
  have i: "i < N" "i < 2 ^ 12" "i < length a" using Suc.prems(3,5,6) by simp_all
  have "a ! i = i" using Suc.prems(2,3) i by (metis hd_drop_conv_nth hd_upt)
  then have "subarray a (i, 1) = [i]" using i by (simp add: subarray_def take_Suc_conv_app_nth hd_drop_conv_nth take_Suc)
  then have "block c (fl i 0) (i + 1) (subarray a (fl i 0, 1))" using block_single [of c i] by simp
  then obtain a' k b where u: "walMergeUp c i aSub a (i, 1) 0 = Some (a', (fl i b, k), b)" "\<not> bit i b"
      "i + 1 = fl i b + 2 ^ b" "fl i b + k \<le> i + 1" "block c (fl i b) (i + 1) (subarray a' (fl i b, k))"
      "subs_ok c i b a' aSub" "length a' = length a" "drop (i + 1) a' = drop (i + 1) a"
    using walMergeUp_correct [OF Suc.prems(1), of 1] i Suc.prems(4) by auto
  have "2 ^ b \<le> (2 :: nat) ^ 12" using u(3) i by linarith
  then have b: "b < 13" by (metis linorder_not_less one_less_numeral_iff order_trans power_increasing_iff semiring_norm(76) Suc_n_not_le_n eval_nat_numeral(3) le_imp_less_Suc less_Suc_eq_le)
  let ?aSub = "aSub[b := (fl i b, k)]"
  have sub: "subs_ok c (i + 1) 0 a' ?aSub" using counter_step [OF u(3,2,6,4,5)] b Suc.prems(4) by simp
  have step: "walSortLoop c i (Suc n) aSub a m iSub = walSortLoop c (i + 1) n ?aSub a' (fl i b, k) b"
    using u(1) b Suc.prems(4) by simp
  note cb = counter_bits [OF u(3,2)]
  show ?case
  proof (cases n)
    case 0
    then have N: "N = i + 1" using Suc.prems(5) by simp
    have "subs_ok c N (Suc b) a' ?aSub" using subs_ok_mono [OF sub, of "Suc b"] by (simp add: N)
    then show ?thesis unfolding step using 0 u(4,5,7) b cb(3) Suc.prems(3,4) by (simp add: N)
  next
    case (Suc n')
    have "drop (i + 1) a' = [i + 1..<N]" using u(8) Suc.prems(2) i by (metis Suc_eq_plus1 drop_Suc tl_drop tl_upt)
    then show ?thesis unfolding step using Suc.IH [OF sub] u(7) Suc.prems Suc by simp
  qed
qed simp

lemma walSortFinal_correct:
  assumes "subs_ok c N b a aSub" and "block c (fl N b) N (subarray a (fl N b, k))"
    and "length a = N" and "length aSub = 13" and "b + n = 13" and "fl N b + k \<le> N"
  shows "\<exists>a' k'. walSortFinal c N aSub n b a (fl N b, k) = Some (a', (fl N 13, k'))
    \<and> block c (fl N 13) N (subarray a' (fl N 13, k')) \<and> length a' = N \<and> fl N 13 + k' \<le> N"
  using assms
proof (induction n arbitrary: b a k)
  case (Suc n)
  have b: "b < 13" "Suc b + n = 13" using Suc.prems(5) by simp_all
  show ?case
  proof (cases "bit N b")
    case True
    obtain a' k' where m: "walMerge c a (aSub ! b) (fl N b, k) = (a', (fl N (Suc b), k'))"
        "block c (fl N (Suc b)) N (subarray a' (fl N (Suc b), k'))" "length a' = length a" "subs_ok c N (Suc b) a' aSub"
        "fl N (Suc b) + k' \<le> N"
      using merge_step [OF Suc.prems(1) True Suc.prems(2)] Suc.prems(3) by auto
    then have "walSortFinal c N aSub (Suc n) b a (fl N b, k) = walSortFinal c N aSub n (Suc b) a' (fl N (Suc b), k')"
      using True b(1) Suc.prems(4) by (simp add: rd_def)
    then show ?thesis using Suc.IH [OF m(4,2) _ Suc.prems(4) b(2) m(5)] m(3) Suc.prems(3) by simp
  next
    case False
    have "subs_ok c N (Suc b) a aSub" by (rule subs_ok_mono [OF Suc.prems(1)]) simp
    then show ?thesis
      using Suc.IH [OF _ _ Suc.prems(3,4) b(2), of k] Suc.prems(2,6) False unfolding fl_Suc_no_bit [OF False] by simp
  qed
qed simp

text \<open>The sort stays inside its array and its thirteen sublists and returns, at the start of the array, the
  last position of every page number in the order of the page numbers.\<close>

lemma walMergesort_block:
  assumes "0 < N" and "N \<le> HASHTABLE_NPAGE"
  shows "\<exists>a k. walMergesort c [0..<N] N = Some (a, (0, k)) \<and> block c 0 N (take k a) \<and> length a = N \<and> k \<le> N"
proof -
  have N: "N \<le> 2 ^ 12" using assms(2) by (simp add: HASHTABLE_NPAGE_def)
  have "subs_ok c 0 0 [0..<N] (replicate 13 (0, 0))" by (simp add: subs_ok_def)
  then obtain aSub a k b where l: "walSortLoop c 0 N (replicate 13 (0, 0)) [0..<N] (0, 0) 0 = Some (aSub, a, (fl N (Suc b), k), b)"
      "b < 13" "subs_ok c N (Suc b) a aSub" "block c (fl N (Suc b)) N (subarray a (fl N (Suc b), k))" "length a = N" "length aSub = 13" "fl N (Suc b) + k \<le> N"
    using walSortLoop_correct [of c 0 "[0..<N]" "replicate 13 (0, 0)" N N "(0, 0)" 0] assms(1) N by auto
  have "fl N 13 = 0" using N by (simp add: fl_def)
  then obtain a' k' where "walSortFinal c N aSub (13 - (b + 1)) (Suc b) a (fl N (Suc b), k) = Some (a', (0, k'))"
      "block c 0 N (subarray a' (0, k'))" "length a' = N" "k' \<le> N"
    using walSortFinal_correct [OF l(3-6), of "13 - (b + 1)"] l(2,7) by auto
  then show ?thesis using l(1) by (simp add: walMergesort_def subarray_def)
qed

end
