(* ===== verification/Wal_Iter.thy ===== *)
theory Wal_Iter
  imports Wal_Sort
begin

text \<open>
  The iterator over the pages in the write-ahead log, used by the checkpoint: \<^verbatim>\<open>walIteratorInit\<close> sorts the
  frames of each block of the wal-index by page number, \<^verbatim>\<open>walIteratorNext\<close> merges the blocks. The theory shows
  that the iterator visits every page in the log once, in ascending order, with its last frame.
\<close>

section \<open>The iterator\<close>

record segment =
  iNext :: nat
  aIndex :: "nat list"
  aPgno :: "u32 list"
  nEntry :: nat
  iZero :: nat

record walIterator =
  iPrior :: u32
  aSegment :: "segment list"

text \<open>The loop over the blocks from \<open>i\<close> on, \<open>n\<close> of them.\<close>

primrec walInitSegments :: "(nat \<Rightarrow> rcode) \<Rightarrow> walIndex \<Rightarrow> nat \<Rightarrow> nat \<Rightarrow> nat \<Rightarrow> segment list \<Rightarrow> (rcode \<times> segment list) option" where
  "walInitSegments rcMap w nSegment i 0 segs = Some (SQLITE_OK, segs)"
| "walInitSegments rcMap w nSegment i (Suc n) segs =
     (case walHashGet rcMap w i of
        Inl rc \<Rightarrow> Some (rc, segs)
      | Inr (t, z) \<Rightarrow>
          let nEntry = (if i + 1 = nSegment then mxFrame w - z else walNEntry i) in
          do {
            (aIndex, _, nEntry) \<leftarrow> walMergesort (pgnos t) [0..<nEntry] nEntry;
            walInitSegments rcMap w nSegment (i + 1) n
              (segs @ [\<lparr> iNext = 0, aIndex = aIndex, aPgno = pgnos t, nEntry = nEntry, iZero = z + 1 \<rparr>])
          })"

definition walIteratorInit :: "(nat \<Rightarrow> rcode) \<Rightarrow> walIndex \<Rightarrow> allocs \<Rightarrow> (rcode \<times> walIterator option \<times> allocs) option" where
  "walIteratorInit rcMap w al =
     (let nSegment = walFramePage (mxFrame w) + 1 in
      case sqlite3_alloc al of
        (False, al) \<Rightarrow> Some (SQLITE_NOMEM, None, al)
      | (True, al) \<Rightarrow>
          (case sqlite3_alloc al of
             (False, al) \<Rightarrow> Some (SQLITE_NOMEM, None, al)
           | (True, al) \<Rightarrow> do {
               (rc, segs) \<leftarrow> walInitSegments rcMap w nSegment 0 nSegment [];
               Some (rc, if rc = SQLITE_OK then Some \<lparr> iPrior = 0, aSegment = segs \<rparr> else None, al)
             }))"

text \<open>The inner loop of \<^verbatim>\<open>walIteratorNext\<close> skips the entries up to \<open>iMin\<close>.\<close>

function walSegNext :: "u32 \<Rightarrow> segment \<Rightarrow> segment" where
  "walSegNext iMin s =
     (if iNext s < nEntry s \<and> \<not> aPgno s ! (aIndex s ! iNext s) > iMin
      then walSegNext iMin (s \<lparr> iNext := iNext s + 1 \<rparr>) else s)"
  by pat_completeness auto
termination
  by (relation "measure (\<lambda>(m, s). nEntry s - iNext s)") auto

declare walSegNext.simps [simp del]

text \<open>The loop over the segments \<open>i - 1, \<dots>, 0\<close> with the best page and its frame so far.\<close>

primrec walIterLoop :: "u32 \<Rightarrow> nat \<Rightarrow> segment list \<Rightarrow> u32 \<Rightarrow> nat \<Rightarrow> segment list \<times> u32 \<times> nat" where
  "walIterLoop iMin 0 segs iRet iFrame = (segs, iRet, iFrame)"
| "walIterLoop iMin (Suc i) segs iRet iFrame =
     (let s = walSegNext iMin (segs ! i);
          iPg = aPgno s ! (aIndex s ! iNext s);
          (iRet, iFrame) = (if iNext s < nEntry s \<and> iPg < iRet then (iPg, iZero s + aIndex s ! iNext s) else (iRet, iFrame))
      in walIterLoop iMin i (segs[i := s]) iRet iFrame)"

text \<open>The result is \<open>True\<close> at the end, the page, the frame (unchanged at the end) and the iterator.\<close>

definition walIteratorNext :: "walIterator \<Rightarrow> nat \<Rightarrow> bool \<times> u32 \<times> nat \<times> walIterator" where
  "walIteratorNext p iFrame =
     (let (segs, iRet, iFrame) = walIterLoop (iPrior p) (length (aSegment p)) (aSegment p) 0xFFFFFFFF iFrame
      in (iRet = 0xFFFFFFFF, iRet, iFrame, p \<lparr> iPrior := iRet, aSegment := segs \<rparr>))"

section \<open>Segments\<close>

text \<open>
  \<open>seg_ok fs h m s\<close>: the segment \<open>s\<close> holds the frames of block \<open>h\<close> of the log \<open>fs\<close>, sorted by page, and all
  entries before \<^const>\<open>iNext\<close> have pages up to \<open>m\<close>.
\<close>

definition segLen :: "u32 list \<Rightarrow> nat \<Rightarrow> nat" where
  "segLen fs h = min (walIZero (Suc h)) (length fs) - walIZero h"

definition seg_ok :: "u32 list \<Rightarrow> nat \<Rightarrow> u32 \<Rightarrow> segment \<Rightarrow> bool" where
  "seg_ok fs h m s \<longleftrightarrow> iZero s = walIZero h + 1 \<and> nEntry s \<le> length (aIndex s)
     \<and> block (aPgno s) 0 (segLen fs h) (take (nEntry s) (aIndex s))
     \<and> (\<forall>j < segLen fs h. aPgno s ! j = fs ! (walIZero h + j))
     \<and> iNext s \<le> nEntry s \<and> (\<forall>j < iNext s. aPgno s ! (aIndex s ! j) \<le> m)"

lemma seg_ok_mono: "seg_ok fs h m s \<Longrightarrow> m \<le> m' \<Longrightarrow> seg_ok fs h m' s"
  by (fastforce simp: seg_ok_def)

lemma walSegNext_ok:
  "seg_ok fs h m s \<Longrightarrow> seg_ok fs h m (walSegNext m s)
     \<and> (iNext (walSegNext m s) < nEntry (walSegNext m s) \<longrightarrow>
          m < aPgno (walSegNext m s) ! (aIndex (walSegNext m s) ! iNext (walSegNext m s)))"
proof (induction m s rule: walSegNext.induct)
  case (1 m s)
  show ?case
  proof (cases "iNext s < nEntry s \<and> \<not> aPgno s ! (aIndex s ! iNext s) > m")
    case True
    then have "seg_ok fs h m (s \<lparr> iNext := iNext s + 1 \<rparr>)" using 1(2) by (auto simp: seg_ok_def less_Suc_eq)
    from 1(1) [OF True this] show ?thesis using True by (subst (1 2 3 4 5 6) walSegNext.simps) simp
  qed (use 1(2) in \<open>subst (1 2 3 4 5 6) walSegNext.simps, auto\<close>)
qed

text \<open>\<open>f\<close> is the last frame of the page \<open>q\<close> among the frames after \<open>z\<close> up to \<open>e\<close>.\<close>

definition isLast :: "u32 list \<Rightarrow> nat \<Rightarrow> nat \<Rightarrow> u32 \<Rightarrow> nat \<Rightarrow> bool" where
  "isLast fs z e q f \<longleftrightarrow> z < f \<and> f \<le> e \<and> fs ! (f - 1) = q \<and> (\<forall>g. f < g \<and> g \<le> e \<longrightarrow> fs ! (g - 1) \<noteq> q)"

text \<open>\<open>q\<close> is the least page above \<open>m\<close> in these frames and \<open>f\<close> its last frame, or there is no such page.\<close>

definition nextPage :: "u32 list \<Rightarrow> u32 \<Rightarrow> nat \<Rightarrow> nat \<Rightarrow> u32 \<Rightarrow> nat \<Rightarrow> bool" where
  "nextPage fs m z e q f \<longleftrightarrow> m < q \<and> isLast fs z e q f \<and> (\<forall>g. z < g \<and> g \<le> e \<and> m < fs ! (g - 1) \<longrightarrow> q \<le> fs ! (g - 1))"

definition noPage :: "u32 list \<Rightarrow> u32 \<Rightarrow> nat \<Rightarrow> nat \<Rightarrow> bool" where
  "noPage fs m z e \<longleftrightarrow> (\<forall>g. z < g \<and> g \<le> e \<longrightarrow> fs ! (g - 1) \<le> m)"

lemma seg_entry:
  assumes "seg_ok fs h m s" and "walIZero h < g" and "g \<le> walIZero h + segLen fs h" and "m < fs ! (g - 1)"
  shows "\<exists>k. iNext s \<le> k \<and> k < nEntry s \<and> aPgno s ! (aIndex s ! k) = fs ! (g - 1)"
proof -
  let ?xs = "take (nEntry s) (aIndex s)"
  have b: "by_page (aPgno s) ?xs" "set ?xs = lasts (aPgno s) 0 (segLen fs h)" using assms(1) by (auto simp: seg_ok_def block_def)
  have j: "g - 1 - walIZero h < segLen fs h" using assms(2,3) by simp
  obtain i where i: "i \<in> set ?xs" "aPgno s ! i = aPgno s ! (g - 1 - walIZero h)"
    using last_exists [OF _ j, of 0 "aPgno s"] b(2) by auto
  then obtain k where k: "k < length ?xs" "?xs ! k = i" by (auto simp: in_set_conv_nth)
  have p: "aPgno s ! (aIndex s ! k) = fs ! (g - 1)" using i(2) k assms(1,2) j by (simp add: seg_ok_def)
  then have "\<not> k < iNext s" using assms(1,4) by (fastforce simp: seg_ok_def)
  then show ?thesis using p k(1) by (intro exI [of _ k]) (simp add: not_less)
qed

lemma seg_next:
  assumes "seg_ok fs h m s" and "\<not> iNext s < nEntry s \<or> m < aPgno s ! (aIndex s ! iNext s)"
  shows "if iNext s < nEntry s
    then nextPage fs m (walIZero h) (walIZero h + segLen fs h) (aPgno s ! (aIndex s ! iNext s)) (iZero s + aIndex s ! iNext s)
    else noPage fs m (walIZero h) (walIZero h + segLen fs h)"
proof (cases "iNext s < nEntry s")
  case True
  let ?xs = "take (nEntry s) (aIndex s)"
  let ?x = "aIndex s ! iNext s"
  have ok: "iZero s = walIZero h + 1" "nEntry s \<le> length (aIndex s)" "\<forall>j < segLen fs h. aPgno s ! j = fs ! (walIZero h + j)"
    and b: "by_page (aPgno s) ?xs" "set ?xs = lasts (aPgno s) 0 (segLen fs h)"
    using assms(1) by (auto simp: seg_ok_def block_def)
  have x: "?x \<in> lasts (aPgno s) 0 (segLen fs h)"
    using True ok(2) nth_mem [of "iNext s" ?xs] unfolding b(2) [symmetric] by simp
  have "isLast fs (walIZero h) (walIZero h + segLen fs h) (aPgno s ! ?x) (iZero s + ?x)"
  proof -
    have "fs ! (g - 1) \<noteq> aPgno s ! ?x" if "iZero s + ?x < g" "g \<le> walIZero h + segLen fs h" for g
      using x that ok(1,3) by (auto simp: lasts_def dest!: spec [of _ "g - 1 - walIZero h"])
    then show ?thesis using x ok(1,3) by (auto simp: isLast_def lasts_def)
  qed
  moreover have "aPgno s ! ?x \<le> fs ! (g - 1)" if g: "walIZero h < g" "g \<le> walIZero h + segLen fs h" "m < fs ! (g - 1)" for g
  proof -
    obtain k where k: "iNext s \<le> k" "k < nEntry s" "aPgno s ! (aIndex s ! k) = fs ! (g - 1)" using seg_entry [OF assms(1) g] by blast
    have "iNext s < k \<Longrightarrow> aPgno s ! ?x < aPgno s ! (aIndex s ! k)"
      using sorted_wrt_nth_less [OF b(1), of "iNext s" k] k ok(2) by simp
    then show ?thesis using k by (cases "iNext s = k") auto
  qed
  ultimately show ?thesis using True assms(2) by (simp add: nextPage_def)
next
  case False
  have "fs ! (g - 1) \<le> m" if "walIZero h < g" "g \<le> walIZero h + segLen fs h" for g
    using seg_entry [OF assms(1) that] False by (metis linorder_not_less order_trans)
  then show ?thesis using False by (simp add: noPage_def)
qed

text \<open>The candidate of an earlier block replaces the page found so far when it is smaller.\<close>

definition found :: "u32 list \<Rightarrow> u32 \<Rightarrow> nat \<Rightarrow> nat \<Rightarrow> u32 \<Rightarrow> nat \<Rightarrow> bool" where
  "found fs m z e r f \<longleftrightarrow> (if r = 0xFFFFFFFF then noPage fs m z e else nextPage fs m z e r f)"

lemma found_earlier:
  assumes "found fs m z e r f" and "z' \<le> z" and "z \<le> e"
    and "if c then nextPage fs m z' z q g \<and> q < 0xFFFFFFFF else noPage fs m z' z"
  shows "found fs m z' e (if c \<and> q < r then q else r) (if c \<and> q < r then g else f)"
proof -
  have split: "z' < x \<and> x \<le> e \<longleftrightarrow> z' < x \<and> x \<le> z \<or> z < x \<and> x \<le> e" for x using assms(2,3) by auto
  show ?thesis
  proof (cases "c \<and> q < r")
    case True
    then have q: "m < q" "isLast fs z' z q g" "\<forall>x. z' < x \<and> x \<le> z \<and> m < fs ! (x - 1) \<longrightarrow> q \<le> fs ! (x - 1)"
      using assms(4) by (auto simp: nextPage_def)
    have later: "q < fs ! (x - 1) \<or> fs ! (x - 1) \<le> m" if "z < x" "x \<le> e" for x
      using assms(1) True that by (fastforce simp: found_def noPage_def nextPage_def split: if_splits)
    have "fs ! (x - 1) \<noteq> q" if "g < x" "x \<le> e" for x
      using later [of x] q(1,2) that by (cases "x \<le> z") (auto simp: isLast_def)
    then have "isLast fs z' e q g" using q(2) assms(3) by (auto simp: isLast_def)
    moreover have "q \<le> fs ! (x - 1)" if "z' < x" "x \<le> e" "m < fs ! (x - 1)" for x
      using that q(3) later [of x] split [of x] by fastforce
    ultimately show ?thesis using True q(1) assms(4) by (auto simp: found_def nextPage_def)
  next
    case False
    have early: "r \<le> fs ! (x - 1) \<or> fs ! (x - 1) \<le> m" if "z' < x" "x \<le> z" for x
      using assms(4) False that by (fastforce simp: noPage_def nextPage_def split: if_splits)
    show ?thesis
    proof (cases "r = 0xFFFFFFFF")
      case True
      then have "\<not> c" using assms(4) False by auto
      then show ?thesis using True assms(1,4) split by (auto simp: found_def noPage_def)
    next
      case r: False
      then have "nextPage fs m z e r f" using assms(1) by (simp add: found_def)
      then have "nextPage fs m z' e r f"
        using early split assms(2) unfolding nextPage_def isLast_def by (meson leD le_less_trans not_le_imp_less)
      then show ?thesis using False r by (auto simp: found_def)
    qed
  qed
qed

section \<open>Stepping the iterator\<close>

definition nSegments :: "u32 list \<Rightarrow> nat" where
  "nSegments fs = walFramePage (length fs) + 1"

definition segs_ok :: "u32 list \<Rightarrow> u32 \<Rightarrow> segment list \<Rightarrow> bool" where
  "segs_ok fs m segs \<longleftrightarrow> length segs = nSegments fs \<and> (\<forall>h < nSegments fs. seg_ok fs h m (segs ! h))"

definition pages_valid :: "u32 list \<Rightarrow> bool" where
  "pages_valid fs \<longleftrightarrow> fs \<noteq> [] \<and> (\<forall>p \<in> set fs. p < 0xFFFFFFFF)"

lemma walIZero_nSegments:
  assumes "fs \<noteq> []"
  shows "h < nSegments fs \<longleftrightarrow> walIZero h < length fs" "length fs \<le> walIZero (nSegments fs)"
proof -
  let ?k = "walFramePage (length fs)"
  have k: "walIZero ?k < length fs" "length fs \<le> walIZero (Suc ?k)"
    using assms walFramePage_iff [of "length fs" ?k] by (simp_all add: walIZero_Suc Suc_le_eq)
  then show "length fs \<le> walIZero (nSegments fs)" by (simp add: nSegments_def)
  show "h < nSegments fs \<longleftrightarrow> walIZero h < length fs"
    using k walIZero_mono [of h ?k] walIZero_mono [of "Suc ?k" h] by (cases "h \<le> ?k") (simp_all add: nSegments_def)
qed

lemma segLen_end: "walIZero h \<le> length fs \<Longrightarrow> walIZero h + segLen fs h = min (walIZero (Suc h)) (length fs)"
  using walIZero_mono [of h "Suc h"] by (simp add: segLen_def)

lemma walIterLoop_ok:
  assumes "pages_valid fs" and "segs_ok fs m segs" and "i \<le> nSegments fs"
    and "found fs m (min (walIZero i) (length fs)) (length fs) r f"
  shows "\<exists>segs' r' f'. walIterLoop m i segs r f = (segs', r', f') \<and> segs_ok fs m segs' \<and> found fs m 0 (length fs) r' f'
    \<and> (r' = 0xFFFFFFFF \<longrightarrow> r = 0xFFFFFFFF)"
  using assms(2-4)
proof (induction i arbitrary: segs r f)
  case 0
  then show ?case by (simp add: walIZero_def)
next
  case (Suc i)
  have i: "i < nSegments fs" "walIZero i < length fs"
    using Suc.prems(2) walIZero_nSegments(1) [of fs i] assms(1) by (simp_all add: pages_valid_def)
  define s where "s = walSegNext m (segs ! i)"
  define q where "q = aPgno s ! (aIndex s ! iNext s)"
  define g where "g = iZero s + aIndex s ! iNext s"
  define c where "c \<longleftrightarrow> iNext s < nEntry s"
  have s: "seg_ok fs i m s" "\<not> c \<or> m < q"
    using walSegNext_ok [of fs i m "segs ! i"] Suc.prems(1) i(1) by (auto simp: segs_ok_def s_def q_def c_def)
  have e: "walIZero i + segLen fs i = min (walIZero (Suc i)) (length fs)" using segLen_end i(2) by simp
  have n: "if c then nextPage fs m (walIZero i) (min (walIZero (Suc i)) (length fs)) q g
      else noPage fs m (walIZero i) (min (walIZero (Suc i)) (length fs))"
    using seg_next [OF s(1)] s(2) unfolding e c_def q_def g_def by blast
  have "q < 0xFFFFFFFF" if c
  proof -
    have "q = fs ! (g - 1)" "g - 1 < length fs" using n that by (auto simp: nextPage_def isLast_def)
    then show ?thesis using assms(1) nth_mem [of "g - 1" fs] by (simp add: pages_valid_def)
  qed
  then have n': "if c then nextPage fs m (walIZero i) (min (walIZero (Suc i)) (length fs)) q g \<and> q < 0xFFFFFFFF
      else noPage fs m (walIZero i) (min (walIZero (Suc i)) (length fs))" using n by simp
  have "found fs m (walIZero i) (length fs) (if c \<and> q < r then q else r) (if c \<and> q < r then g else f)"
    using found_earlier [OF Suc.prems(3) _ _ n'] i(2) walIZero_mono [of i "Suc i"] by simp
  then have fd: "found fs m (min (walIZero i) (length fs)) (length fs) (if c \<and> q < r then q else r) (if c \<and> q < r then g else f)"
    using i(2) by (simp add: min_def)
  have sg: "segs_ok fs m (segs[i := s])" using Suc.prems(1) s(1) i(1) by (auto simp: segs_ok_def nth_list_update)
  have "walIterLoop m (Suc i) segs r f = walIterLoop m i (segs[i := s]) (if c \<and> q < r then q else r) (if c \<and> q < r then g else f)"
    by (simp add: s_def q_def g_def c_def Let_def)
  then show ?case using Suc.IH [OF sg _ fd] i(1) \<open>c \<Longrightarrow> q < 0xFFFFFFFF\<close> by (fastforce split: if_splits)
qed

text \<open>The pages of the log above \<open>m\<close> in ascending order.\<close>

definition pagesAfter :: "u32 list \<Rightarrow> u32 \<Rightarrow> u32 list" where
  "pagesAfter fs m = filter (\<lambda>p. m < p) (sorted_list_of_set (set fs))"

lemma pagesAfter_set: "set (pagesAfter fs m) = {p \<in> set fs. m < p}"
  by (auto simp: pagesAfter_def)

lemma pagesAfter_sorted: "sorted_wrt (<) (pagesAfter fs m)"
  by (simp add: pagesAfter_def sorted_wrt_filter)

lemma pagesAfter_Cons:
  assumes "q \<in> set fs" and "m < q" and "\<forall>p \<in> set fs. m < p \<longrightarrow> q \<le> p"
  shows "pagesAfter fs m = q # pagesAfter fs q"
proof (rule sorted_distinct_set_unique)
  show "sorted (pagesAfter fs m)" "distinct (pagesAfter fs m)"
    using pagesAfter_sorted [of fs m] by (auto simp: strict_sorted_iff)
  show "sorted (q # pagesAfter fs q)" "distinct (q # pagesAfter fs q)"
    using pagesAfter_sorted [of fs q] pagesAfter_set [of fs q] by (auto simp: strict_sorted_iff less_imp_le)
  show "set (pagesAfter fs m) = set (q # pagesAfter fs q)"
    using assms by (auto simp: pagesAfter_set)
qed

lemma isLast_lastFrame: "isLast fs 0 (length fs) q f \<Longrightarrow> f = lastFrame fs q"
proof -
  assume f: "isLast fs 0 (length fs) q f"
  have "g \<le> f" if "g \<in> insert 0 {f \<in> {1..length fs}. fs ! (f - 1) = q}" for g
    using f that by (auto simp: isLast_def) (meson leI)
  moreover have "f \<in> insert 0 {f \<in> {1..length fs}. fs ! (f - 1) = q}" using f by (auto simp: isLast_def)
  ultimately show ?thesis unfolding lastFrame_def by (intro Max_eqI [symmetric]) simp_all
qed

lemma frames_pages: "p \<in> set fs \<longleftrightarrow> (\<exists>g. 0 < g \<and> g \<le> length fs \<and> fs ! (g - 1) = p)"
  by (metis One_nat_def Suc_le_eq Suc_pred' diff_Suc_Suc in_set_conv_nth minus_nat.diff_0 zero_less_Suc)

definition iter_ok :: "u32 list \<Rightarrow> walIterator \<Rightarrow> bool" where
  "iter_ok fs p \<longleftrightarrow> pages_valid fs \<and> segs_ok fs (iPrior p) (aSegment p)"

lemma walIteratorNext_ok:
  assumes "iter_ok fs p"
  shows "case pagesAfter fs (iPrior p) of
      [] \<Rightarrow> fst (walIteratorNext p f0)
    | q # ps \<Rightarrow> \<exists>p'. walIteratorNext p f0 = (False, q, lastFrame fs q, p') \<and> iPrior p' = q \<and> iter_ok fs p' \<and> pagesAfter fs q = ps"
proof -
  let ?n = "length fs"
  have v: "pages_valid fs" "fs \<noteq> []" and sg: "segs_ok fs (iPrior p) (aSegment p)"
    using assms by (simp_all add: iter_ok_def pages_valid_def)
  have "min (walIZero (nSegments fs)) ?n = ?n" using walIZero_nSegments(2) [OF v(2)] by simp
  then have "found fs (iPrior p) (min (walIZero (nSegments fs)) ?n) ?n 0xFFFFFFFF f0" by (auto simp: found_def noPage_def)
  then obtain segs r f where l: "walIterLoop (iPrior p) (nSegments fs) (aSegment p) 0xFFFFFFFF f0 = (segs, r, f)"
      "segs_ok fs (iPrior p) segs" "found fs (iPrior p) 0 ?n r f"
    using walIterLoop_ok [OF v(1) sg order_refl] by blast
  have nx: "walIteratorNext p f0 = (r = 0xFFFFFFFF, r, f, p \<lparr> iPrior := r, aSegment := segs \<rparr>)"
    using l(1) sg by (simp add: walIteratorNext_def segs_ok_def)
  show ?thesis
  proof (cases "r = 0xFFFFFFFF")
    case True
    then have "fs ! (g - 1) \<le> iPrior p" if "0 < g" "g \<le> ?n" for g using l(3) that by (simp add: found_def noPage_def)
    then have "\<forall>x \<in> set fs. \<not> iPrior p < x" using frames_pages [of _ fs] by (metis leD)
    then have "set (pagesAfter fs (iPrior p)) = {}" unfolding pagesAfter_set by blast
    then have "pagesAfter fs (iPrior p) = []" by simp
    then show ?thesis using nx True by simp
  next
    case False
    then have r: "iPrior p < r" "isLast fs 0 ?n r f" "\<forall>g. 0 < g \<and> g \<le> ?n \<and> iPrior p < fs ! (g - 1) \<longrightarrow> r \<le> fs ! (g - 1)"
      using l(3) by (auto simp: found_def nextPage_def)
    have "fs ! (f - 1) = r" "0 < f" "f \<le> ?n" using r(2) by (simp_all add: isLast_def)
    then have m: "r \<in> set fs" using nth_mem [of "f - 1" fs] by simp
    have "\<forall>x \<in> set fs. iPrior p < x \<longrightarrow> r \<le> x"
    proof (intro ballI impI)
      fix x assume x: "x \<in> set fs" "iPrior p < x"
      then obtain g where "0 < g" "g \<le> ?n" "fs ! (g - 1) = x" using frames_pages [of x fs] by metis
      then show "r \<le> x" using r(3) x(2) by fast
    qed
    from pagesAfter_Cons [OF m r(1) this] have "pagesAfter fs (iPrior p) = r # pagesAfter fs r" .
    moreover have "segs_ok fs r segs" using l(2) r(1) by (auto simp: segs_ok_def intro: seg_ok_mono)
    ultimately show ?thesis using nx False v(1) isLast_lastFrame [OF r(2)] by (simp add: iter_ok_def)
  qed
qed

section \<open>Setting up the iterator\<close>

lemma walInitSegments_ok:
  assumes "wal_ok w (fs @ gs)" and "mxFrame w = length fs" and "fs \<noteq> []" and "\<forall>h. rcMap h = SQLITE_OK"
    and "length segs = i" and "i + n = nSegments fs" and "\<forall>h < i. seg_ok fs h 0 (segs ! h)"
  shows "\<exists>segs'. walInitSegments rcMap w (nSegments fs) i n segs = Some (SQLITE_OK, segs') \<and> segs_ok fs 0 segs'"
  using assms(5-7)
proof (induction n arbitrary: i segs)
  case (Suc n)
  have i: "i < nSegments fs" "walIZero i < length fs" using Suc.prems(2) walIZero_nSegments(1) [OF assms(3), of i] by simp_all
  let ?t = "apWiData w i"
  define N where "N = (if i + 1 = nSegments fs then mxFrame w - walIZero i else walNEntry i)"
  have N: "N = segLen fs i"
  proof (cases "i + 1 = nSegments fs")
    case True
    then show ?thesis using walIZero_nSegments(2) [OF assms(3)] assms(2) by (simp add: N_def segLen_def)
  next
    case False
    then have "walIZero (Suc i) < length fs" using i(1) walIZero_nSegments(1) [OF assms(3), of "Suc i"] by simp
    then show ?thesis using False by (simp add: N_def segLen_def walIZero_Suc)
  qed
  have "0 < N" "N \<le> HASHTABLE_NPAGE"
    using i(2) walIZero_Suc [of i] walNEntry_le [of i] by (auto simp: N segLen_def)
  then obtain a k where a: "walMergesort (pgnos ?t) [0..<N] N = Some (a, (0, k))" "block (pgnos ?t) 0 N (take k a)" "length a = N" "k \<le> N"
    using walMergesort_block by blast
  define s where "s = \<lparr> iNext = 0, aIndex = a, aPgno = pgnos ?t, nEntry = k, iZero = walIZero i + 1 \<rparr>"
  have "tab_ok (walNEntry i) (walSegment (fs @ gs) i) ?t" using assms(1) i(2) by (simp add: wal_ok_def)
  then have pg: "pgnos ?t = walSegment (fs @ gs) i @ replicate (walNEntry i - length (walSegment (fs @ gs) i)) 0"
    unfolding tab_ok_def by blast
  have p: "pgnos ?t ! j = fs ! (walIZero i + j)" if "j < segLen fs i" for j
  proof -
    have "j < walNEntry i" "walIZero i + j < length fs" using that by (auto simp: segLen_def walIZero_Suc)
    then have "j < walNEntry i" "j < length fs - walIZero i" by simp_all
    then show ?thesis unfolding pg by (simp add: nth_append walSegment_def)
  qed
  have "seg_ok fs i 0 s" using a p by (simp add: seg_ok_def s_def N [symmetric])
  then have "\<forall>h < i + 1. seg_ok fs h 0 ((segs @ [s]) ! h)" using Suc.prems(1,3) by (auto simp: nth_append less_Suc_eq)
  moreover have "walInitSegments rcMap w (nSegments fs) i (Suc n) segs = walInitSegments rcMap w (nSegments fs) (i + 1) n (segs @ [s])"
    using a(1) assms(4) unfolding N_def by (cases "i + 1 = nSegments fs") (simp_all add: walHashGet_def s_def Let_def)
  ultimately show ?case using Suc.IH [of "segs @ [s]" "i + 1"] Suc.prems(1,2) by simp
qed (simp add: segs_ok_def)

text \<open>Frames \<open>gs\<close> that another connection has appended after the end of the snapshot do not matter.\<close>

lemma walIteratorInit_ok:
  assumes "wal_ok w (fs @ gs)" and "mxFrame w = length fs" and "pages_valid fs" and "\<forall>h. rcMap h = SQLITE_OK"
  shows "\<exists>r. walIteratorInit rcMap w al = Some r \<and>
    (fst r = SQLITE_NOMEM \<and> fst (snd r) = None \<and> al \<noteq> []
     \<or> fst r = SQLITE_OK \<and> (\<exists>p. fst (snd r) = Some p \<and> iPrior p = 0 \<and> iter_ok fs p))"
proof -
  have ne: "fs \<noteq> []" using assms(3) by (simp add: pages_valid_def)
  obtain segs where segs: "walInitSegments rcMap w (nSegments fs) 0 (nSegments fs) [] = Some (SQLITE_OK, segs)" "segs_ok fs 0 segs"
    using walInitSegments_ok [OF assms(1,2) ne assms(4), of "[]" 0 "nSegments fs"] by auto
  have n: "walFramePage (mxFrame w) + 1 = nSegments fs" by (simp add: nSegments_def assms(2))
  show ?thesis
    using segs assms(3) unfolding walIteratorInit_def Let_def n
    by (cases al; cases "tl al") (auto simp: iter_ok_def split: bool.split)
qed

text \<open>Without any assumption on the segments a page that is returned is larger than the one before, so every
  loop over the iterator ends.\<close>

lemma walSegNext_stops: "iNext (walSegNext m s) < nEntry (walSegNext m s) \<Longrightarrow>
   m < aPgno (walSegNext m s) ! (aIndex (walSegNext m s) ! iNext (walSegNext m s))"
proof (induction m s rule: walSegNext.induct)
  case (1 m s)
  show ?case
  proof (cases "iNext s < nEntry s \<and> \<not> aPgno s ! (aIndex s ! iNext s) > m")
    case True
    then have "walSegNext m s = walSegNext m (s \<lparr> iNext := iNext s + 1 \<rparr>)" by (subst walSegNext.simps) simp
    then show ?thesis using 1(1) [OF True] 1(2) by simp
  next
    case False
    then have "walSegNext m s = s" by (subst walSegNext.simps) auto
    then show ?thesis using False 1(2) by simp
  qed
qed

lemma walIterLoop_above: "walIterLoop m i segs r f = (segs', r', f') \<Longrightarrow> r' = r \<or> m < r'"
proof (induction i arbitrary: segs r f)
  case (Suc i)
  let ?s = "walSegNext m (segs ! i)"
  let ?p = "aPgno ?s ! (aIndex ?s ! iNext ?s)"
  show ?case
  proof (cases "iNext ?s < nEntry ?s \<and> ?p < r")
    case True
    then have "m < ?p" using walSegNext_stops by blast
    then show ?thesis using Suc.IH [of "segs[i := ?s]" ?p] Suc.prems True by (fastforce simp: Let_def)
  next
    case False
    then have "walIterLoop m i (segs[i := ?s]) r f = (segs', r', f')" using Suc.prems by (auto simp: Let_def split: if_splits)
    then show ?thesis by (rule Suc.IH)
  qed
qed simp

lemma walIteratorNext_above:
  "walIteratorNext p f = (False, q, g, p') \<Longrightarrow> iPrior p < iPrior p' \<and> iPrior p' = q"
  using walIterLoop_above [of "iPrior p" "length (aSegment p)" "aSegment p" "0xFFFFFFFF" f]
  by (auto simp: walIteratorNext_def split: prod.splits)

end
