(* ===== verification/Wal_Checkpoint.thy ===== *)
theory Wal_Checkpoint
  imports Wal_Write Wal_Iter
begin

text \<open>
  The checkpoint, \<^verbatim>\<open>walCheckpoint\<close> of \<^verbatim>\<open>wal.c\<close>: it copies the newest frame of each page from the log to the
  database file, as far as the readers allow. The outcome of each attempt to take a lock is a parameter,
  with the answer of the busy handler; the reads of the log file are a parameter, writes and syncs of the
  database file consume a script as in the theory of the log writer. The theory shows that an undisturbed
  checkpoint leaves the snapshot in the database file, and that no checkpoint, whatever locks and writes
  fail, changes a page that an active reader takes from the database file.
\<close>

section \<open>Locks\<close>

text \<open>\<open>locks (i, n)\<close> lists the attempts to lock the \<open>n\<close> read locks from \<open>i\<close> on: the result and whether the
  busy handler asks for another attempt. When the list is used up the lock is free.\<close>

type_synonym locks = "nat \<times> nat \<Rightarrow> (rcode \<times> bool) list"

fun walBusyLock :: "bool \<Rightarrow> (rcode \<times> bool) list \<Rightarrow> rcode" where
  "walBusyLock xBusy [] = SQLITE_OK"
| "walBusyLock xBusy ((rc, retry) # as) =
     (if xBusy \<and> rc = SQLITE_BUSY \<and> retry then walBusyLock xBusy as else rc)"

text \<open>The loop over the read marks: the result code, whether the busy handler is still used, the read marks
  and the last frame that may be copied. \<open>Inl\<close> leaves the function.\<close>

fun ckptReaders :: "locks \<Rightarrow> nat list \<Rightarrow> rcode \<Rightarrow> bool \<Rightarrow> nat list \<Rightarrow> nat \<Rightarrow>
    rcode \<times> nat list + rcode \<times> bool \<times> nat list \<times> nat" where
  "ckptReaders locks [] rc xBusy marks mxSafeFrame = Inr (rc, xBusy, marks, mxSafeFrame)"
| "ckptReaders locks (i # is) rc xBusy marks mxSafeFrame =
     (let y = marks ! i in
      if mxSafeFrame > y then
        (let rc = walBusyLock xBusy (locks (i, 1)) in
         if rc = SQLITE_OK then
           ckptReaders locks is rc xBusy (marks[i := if i = 1 then mxSafeFrame else READMARK_NOT_USED]) mxSafeFrame
         else if rc = SQLITE_BUSY then ckptReaders locks is rc False marks y
         else Inl (rc, marks))
      else ckptReaders locks is rc xBusy marks mxSafeFrame)"

section \<open>Copying\<close>

definition walPagesize :: "wal \<Rightarrow> nat" where
  "walPagesize pWal = unat ((ucast (hdrSzPage pWal) AND 0xfe00) + push_bit 16 (ucast (hdrSzPage pWal) AND 0x0001) :: u32)"

fun osTruncate :: "io \<Rightarrow> bytes \<Rightarrow> nat \<Rightarrow> rcode \<times> io \<times> bytes" where
  "osTruncate [] file sz = (SQLITE_OK, [], take sz file @ replicate (sz - length file) 0)"
| "osTruncate (IoOk # io) file sz = (SQLITE_OK, io, take sz file @ replicate (sz - length file) 0)"
| "osTruncate (IoFail rc k # io) file sz = (rc, io, file)"

text \<open>The loop over the iterator.\<close>

function ckptCopy :: "(nat \<Rightarrow> nat \<Rightarrow> rcode + bytes) \<Rightarrow> nat \<Rightarrow> nat \<Rightarrow> nat \<Rightarrow> u32 \<Rightarrow> walIterator \<Rightarrow> nat \<Rightarrow> io \<Rightarrow> bytes \<Rightarrow>
    rcode \<times> io \<times> bytes" where
  "ckptCopy osRead szPg nBack mxSafeFrame mxPage pIter iFrame io db =
     (case walIteratorNext pIter iFrame of
        (True, iDbpage, iFrame, pIter) \<Rightarrow> (SQLITE_OK, io, db)
      | (False, iDbpage, iFrame, pIter) \<Rightarrow>
          if iFrame \<le> nBack \<or> iFrame > mxSafeFrame \<or> iDbpage > mxPage
          then ckptCopy osRead szPg nBack mxSafeFrame mxPage pIter iFrame io db
          else
            (case osRead (walFrameOffset iFrame szPg + WAL_FRAME_HDRSIZE) szPg of
               Inl rc \<Rightarrow> (rc, io, db)
             | Inr zBuf \<Rightarrow>
                 (case osWrite io db zBuf (unat (iDbpage - 1) * szPg) of
                    (rc, io, db) \<Rightarrow>
                      if rc \<noteq> SQLITE_OK then (rc, io, db)
                      else ckptCopy osRead szPg nBack mxSafeFrame mxPage pIter iFrame io db)))"
  by pat_completeness auto

lemma iPrior_decreases:
  assumes "(False, q, g, p') = walIteratorNext p f"
  shows "4294967296 - unat (iPrior p') < 4294967296 - unat (iPrior p)"
proof -
  have "unat (iPrior p) < unat (iPrior p')"
    using walIteratorNext_above [OF assms [symmetric]] by (auto simp: word_less_nat_alt)
  moreover have "unat (iPrior p') < 4294967296" by (rule unat_u32_less)
  ultimately show ?thesis by linarith
qed

termination ckptCopy
  by (relation "measure (\<lambda>(r, sz, b, m, mp, p, f, io, db). 4294967296 - unat (iPrior p))")
    (auto intro: iPrior_decreases)

declare ckptCopy.simps [simp del]

section \<open>The checkpoint\<close>

datatype ckptMode = CHECKPOINT_PASSIVE | CHECKPOINT_FULL | CHECKPOINT_RESTART

text \<open>What happens under the read lock 0; \<open>sync\<close> is \<^verbatim>\<open>sync_flags!=0\<close>. The query of the file size before the copy
  can only fail, its result is used for a hint to the operating system; like a sync it consumes one outcome.
  The result is the new \<^verbatim>\<open>nBackfill\<close>.\<close>

definition ckptBackfill :: "(nat \<Rightarrow> nat \<Rightarrow> rcode + bytes) \<Rightarrow> bool \<Rightarrow> wal \<Rightarrow> walIterator \<Rightarrow> nat \<Rightarrow> io \<Rightarrow> bytes \<Rightarrow>
    rcode \<times> nat \<times> io \<times> bytes" where
  "ckptBackfill osRead sync pWal pIter mxSafeFrame io db =
     (let nBack = nBackfill (ckpt pWal); szPg = walPagesize pWal;
          (rc, io) = (if sync then osSync io else (SQLITE_OK, io));
          (rc, io) = (if rc = SQLITE_OK then osSync io else (rc, io));
          (rc, io, db) = (if rc = SQLITE_OK then ckptCopy osRead szPg nBack mxSafeFrame (nPage pWal) pIter 0 io db
                          else (rc, io, db))
      in if rc \<noteq> SQLITE_OK then (rc, nBack, io, db)
         else
           let (rc, io, db) =
                 (if mxSafeFrame = h_mxFrame (shared pWal) then
                    (case osTruncate io db (unat (nPage pWal) * szPg) of
                       (rc, io, db) \<Rightarrow>
                         if rc = SQLITE_OK \<and> sync then (case osSync io of (rc, io) \<Rightarrow> (rc, io, db)) else (rc, io, db))
                  else (SQLITE_OK, io, db))
           in (rc, if rc = SQLITE_OK then mxSafeFrame else nBack, io, db))"

text \<open>The copy is attempted when there is something to copy and the read lock 0 is free.\<close>

definition ckptLocked :: "(nat \<Rightarrow> nat \<Rightarrow> rcode + bytes) \<Rightarrow> locks \<Rightarrow> bool \<Rightarrow> bool \<Rightarrow> wal \<Rightarrow> walIterator \<Rightarrow> nat \<Rightarrow> rcode \<Rightarrow> io \<Rightarrow> bytes \<Rightarrow>
    rcode \<times> wal \<times> io \<times> bytes" where
  "ckptLocked osRead locks xBusy sync pWal pIter mxSafeFrame rc io db =
     (if nBackfill (ckpt pWal) < mxSafeFrame then
        let rc = walBusyLock xBusy (locks (0, 1)) in
        if rc = SQLITE_OK then
          case ckptBackfill osRead sync pWal pIter mxSafeFrame io db of
            (rc, n, io, db) \<Rightarrow> (rc, pWal \<lparr> ckpt := ckpt pWal \<lparr> nBackfill := n \<rparr> \<rparr>, io, db)
        else (rc, pWal, io, db)
      else (rc, pWal, io, db))"

text \<open>The last part of the function, for the modes that wait for readers.\<close>

definition ckptFinish :: "locks \<Rightarrow> ckptMode \<Rightarrow> bool \<Rightarrow> wal \<Rightarrow> rcode \<Rightarrow> rcode" where
  "ckptFinish locks eMode xBusy pWal rc =
     (let rc = (if rc = SQLITE_BUSY then SQLITE_OK else rc) in
      if rc = SQLITE_OK \<and> eMode \<noteq> CHECKPOINT_PASSIVE then
        if nBackfill (ckpt pWal) < mxFrame (idx pWal) then SQLITE_BUSY
        else if eMode = CHECKPOINT_RESTART then walBusyLock xBusy (locks (1, WAL_NREADER - 1))
        else rc
      else rc)"

definition walCheckpoint :: "(nat \<Rightarrow> rcode) \<Rightarrow> (nat \<Rightarrow> nat \<Rightarrow> rcode + bytes) \<Rightarrow> locks \<Rightarrow> ckptMode \<Rightarrow> bool \<Rightarrow> bool \<Rightarrow>
    wal \<Rightarrow> allocs \<Rightarrow> io \<Rightarrow> bytes \<Rightarrow> (rcode \<times> wal \<times> allocs \<times> io \<times> bytes) option" where
  "walCheckpoint rcMap osRead locks eMode xBusyCall sync pWal al io db =
     (if nBackfill (ckpt pWal) \<ge> mxFrame (idx pWal) then Some (SQLITE_OK, pWal, al, io, db)
      else do {
        (rc, pIter, al) \<leftarrow> walIteratorInit rcMap (idx pWal) al;
        case pIter of
          None \<Rightarrow> Some (rc, pWal, al, io, db)
        | Some pIter \<Rightarrow>
            (case ckptReaders locks [1..<WAL_NREADER] SQLITE_OK (eMode \<noteq> CHECKPOINT_PASSIVE \<and> xBusyCall)
                    (aReadMark (ckpt pWal)) (mxFrame (idx pWal)) of
               Inl (rc, marks) \<Rightarrow> Some (rc, pWal \<lparr> ckpt := ckpt pWal \<lparr> aReadMark := marks \<rparr> \<rparr>, al, io, db)
             | Inr (rc, xBusy, marks, mxSafeFrame) \<Rightarrow>
                 let pWal = pWal \<lparr> ckpt := ckpt pWal \<lparr> aReadMark := marks \<rparr> \<rparr>;
                     (rc, pWal, io, db) = ckptLocked osRead locks xBusy sync pWal pIter mxSafeFrame rc io db
                 in Some (ckptFinish locks eMode xBusy pWal rc, pWal, al, io, db))
      })"

section \<open>Pages of the database file\<close>

text \<open>Bytes behind the end of the file read as zero.\<close>

definition byteAt :: "bytes \<Rightarrow> nat \<Rightarrow> u8" where
  "byteAt f i = (if i < length f then f ! i else 0)"

definition pageOf :: "bytes \<Rightarrow> nat \<Rightarrow> u32 \<Rightarrow> bytes" where
  "pageOf db sz q = map (byteAt db) [unat (q - 1) * sz..<unat (q - 1) * sz + sz]"

lemma byteAt_writeAt:
  "byteAt (writeAt f off buf) i = (if off \<le> i \<and> i < off + length buf then buf ! (i - off) else byteAt f i)"
  by (cases "off \<le> length f") (auto simp: byteAt_def writeAt_def nth_append not_less min_def)

lemma byteAt_osWrite:
  assumes "osWrite io f buf off = (rc, io', f')"
  shows "\<not> (off \<le> i \<and> i < off + length buf) \<Longrightarrow> byteAt f' i = byteAt f i"
    and "rc = SQLITE_OK \<Longrightarrow> io_ok io \<Longrightarrow> off \<le> i \<and> i < off + length buf \<Longrightarrow> byteAt f' i = buf ! (i - off)"
  using assms by (cases "(io, f, buf, off)" rule: osWrite.cases; auto simp: byteAt_writeAt io_ok_def)+

lemma page_ranges:
  assumes "a \<noteq> b"
  shows "\<not> (a * sz \<le> i \<and> i < a * sz + sz \<and> b * sz \<le> i \<and> i < b * sz + (sz :: nat))"
proof
  assume "a * sz \<le> i \<and> i < a * sz + sz \<and> b * sz \<le> i \<and> i < b * sz + sz"
  then have "i div sz = a" "i div sz = b" by (auto intro!: div_nat_eqI simp: algebra_simps)
  then show False using assms by simp
qed

lemma pageOf_other:
  assumes "osWrite io db buf (unat (p - 1) * sz) = (rc, io', db')" and "length buf \<le> sz" and "q \<noteq> p"
  shows "pageOf db' sz q = pageOf db sz q"
proof -
  have "q - 1 \<noteq> p - 1" using assms(3) by simp
  then have ne: "unat (q - 1) \<noteq> unat (p - 1)" by (metis word_unat_eq_iff)
  have "byteAt db' i = byteAt db i" if "unat (q - 1) * sz \<le> i" "i < unat (q - 1) * sz + sz" for i
    by (rule byteAt_osWrite(1) [OF assms(1)]) (use page_ranges [OF ne, of sz i] that assms(2) in linarith)
  then show ?thesis by (simp add: pageOf_def)
qed

lemma pageOf_written:
  assumes "osWrite io db buf (unat (p - 1) * sz) = (rc, io', db')" and "length buf = sz" and "io_ok io" and "rc = SQLITE_OK"
  shows "pageOf db' sz p = buf"
  by (rule nth_equalityI) (use assms byteAt_osWrite(2) [OF assms(1,4,3)] in \<open>auto simp: pageOf_def\<close>)

section \<open>The copy loop\<close>

text \<open>The loop as a recursion over the pages the iterator visits.\<close>

fun copyPages :: "(nat \<Rightarrow> nat \<Rightarrow> rcode + bytes) \<Rightarrow> nat \<Rightarrow> nat \<Rightarrow> nat \<Rightarrow> u32 \<Rightarrow> u32 list \<Rightarrow> u32 list \<Rightarrow> io \<Rightarrow> bytes \<Rightarrow>
    rcode \<times> io \<times> bytes" where
  "copyPages osRead sz nBack mxSafe mxPage fs [] io db = (SQLITE_OK, io, db)"
| "copyPages osRead sz nBack mxSafe mxPage fs (q # qs) io db =
     (let f = lastFrame fs q in
      if f \<le> nBack \<or> f > mxSafe \<or> q > mxPage then copyPages osRead sz nBack mxSafe mxPage fs qs io db
      else
        (case osRead (walFrameOffset f sz + WAL_FRAME_HDRSIZE) sz of
           Inl rc \<Rightarrow> (rc, io, db)
         | Inr zBuf \<Rightarrow>
             (case osWrite io db zBuf (unat (q - 1) * sz) of
                (rc, io, db) \<Rightarrow>
                  if rc \<noteq> SQLITE_OK then (rc, io, db) else copyPages osRead sz nBack mxSafe mxPage fs qs io db)))"

lemma ckptCopy_pages:
  assumes "iter_ok fs p"
  shows "ckptCopy osRead sz nBack mxSafe mxPage p f0 io db
    = copyPages osRead sz nBack mxSafe mxPage fs (pagesAfter fs (iPrior p)) io db"
  using assms
proof (induction "pagesAfter fs (iPrior p)" arbitrary: p f0 io db)
  case Nil
  then have "fst (walIteratorNext p f0)" using walIteratorNext_ok [OF Nil.prems, of f0] by (simp flip: Nil.hyps)
  then show ?case using Nil.hyps by (subst ckptCopy.simps) (auto split: prod.split)
next
  case (Cons q qs)
  obtain p' where p': "walIteratorNext p f0 = (False, q, lastFrame fs q, p')" "iPrior p' = q" "iter_ok fs p'" "pagesAfter fs q = qs"
    using walIteratorNext_ok [OF Cons.prems, of f0] by (auto simp flip: Cons.hyps(2))
  have IH: "ckptCopy osRead sz nBack mxSafe mxPage p' g io db = copyPages osRead sz nBack mxSafe mxPage fs qs io db" for g io db
    using Cons.hyps(1) [of p'] p' by simp
  show ?case
    unfolding Cons.hyps(2) [symmetric]
    by (subst ckptCopy.simps) (simp add: p'(1) IH Let_def split: sum.split prod.split)
qed

text \<open>A page is copied when its last frame is after the part that is already in the database file, no reader
  needs the page as it is there, and the page belongs to the database.\<close>

definition due :: "u32 list \<Rightarrow> nat \<Rightarrow> nat \<Rightarrow> u32 \<Rightarrow> u32 \<Rightarrow> bool" where
  "due fs nBack mxSafe mxPage q \<longleftrightarrow> q \<in> set fs \<and> nBack < lastFrame fs q \<and> lastFrame fs q \<le> mxSafe \<and> q \<le> mxPage"

definition reads_sized :: "(nat \<Rightarrow> nat \<Rightarrow> rcode + bytes) \<Rightarrow> bool" where
  "reads_sized osRead \<longleftrightarrow> (\<forall>off n b. osRead off n = Inr b \<longrightarrow> length b = n)"

lemma copyPages_skip:
  "x \<in> set fs \<Longrightarrow> \<not> due fs nBack mxSafe mxPage x \<Longrightarrow>
   copyPages osRead sz nBack mxSafe mxPage fs (x # xs) io db = copyPages osRead sz nBack mxSafe mxPage fs xs io db"
  by (auto simp: due_def Let_def)

lemma copyPages_due:
  "due fs nBack mxSafe mxPage x \<Longrightarrow>
   copyPages osRead sz nBack mxSafe mxPage fs (x # xs) io db =
     (case osRead (walFrameOffset (lastFrame fs x) sz + WAL_FRAME_HDRSIZE) sz of
        Inl rc \<Rightarrow> (rc, io, db)
      | Inr zBuf \<Rightarrow>
          (case osWrite io db zBuf (unat (x - 1) * sz) of
             (rc, io, db) \<Rightarrow>
               if rc \<noteq> SQLITE_OK then (rc, io, db) else copyPages osRead sz nBack mxSafe mxPage fs xs io db))"
  by (auto simp: due_def Let_def dest: leD)

declare copyPages.simps(2) [simp del]

lemma copyPages_other:
  assumes "copyPages osRead sz nBack mxSafe mxPage fs qs io db = (rc, io', db')" and "reads_sized osRead"
    and "set qs \<subseteq> set fs" and "\<not> due fs nBack mxSafe mxPage q"
  shows "pageOf db' sz q = pageOf db sz q"
  using assms(1,3)
proof (induction qs arbitrary: io db)
  case (Cons x xs)
  show ?case
  proof (cases "due fs nBack mxSafe mxPage x")
    case True
    then have ne: "q \<noteq> x" using assms(4) by auto
    note step = Cons.prems(1) [unfolded copyPages_due [OF True]]
    show ?thesis
    proof (cases "osRead (walFrameOffset (lastFrame fs x) sz + WAL_FRAME_HDRSIZE) sz")
      case (Inr b)
      obtain rc1 io1 db1 where w: "osWrite io db b (unat (x - 1) * sz) = (rc1, io1, db1)" by (metis prod_cases3)
      have "length b = sz" using assms(2) Inr by (simp add: reads_sized_def)
      then have "pageOf db1 sz q = pageOf db sz q" using pageOf_other [OF w _ ne] by simp
      then show ?thesis using Cons.IH [of io1 db1] Cons.prems(2) step Inr w by (auto split: if_splits)
    qed (use step in auto)
  next
    case False
    then show ?thesis using Cons.IH [of io db] Cons.prems copyPages_skip [OF _ False] by simp
  qed
qed simp

text \<open>Without failures every page that is due gets the content of its last frame.\<close>

lemma copyPages_copied:
  assumes "io_ok io" and "distinct qs" and "set qs \<subseteq> set fs"
    and "\<forall>q \<in> set qs. due fs nBack mxSafe mxPage q \<longrightarrow>
      osRead (walFrameOffset (lastFrame fs q) sz + WAL_FRAME_HDRSIZE) sz = Inr (content q) \<and> length (content q) = sz"
  shows "\<exists>io' db'. copyPages osRead sz nBack mxSafe mxPage fs qs io db = (SQLITE_OK, io', db') \<and> io_ok io'
    \<and> (\<forall>q. pageOf db' sz q = (if q \<in> set qs \<and> due fs nBack mxSafe mxPage q then content q else pageOf db sz q))"
  using assms
proof (induction qs arbitrary: io db)
  case (Cons x xs)
  show ?case
  proof (cases "due fs nBack mxSafe mxPage x")
    case True
    then have r: "osRead (walFrameOffset (lastFrame fs x) sz + WAL_FRAME_HDRSIZE) sz = Inr (content x)" "length (content x) = sz"
      using Cons.prems(4) by simp_all
    obtain io1 where w: "osWrite io db (content x) (unat (x - 1) * sz) = (SQLITE_OK, io1, writeAt db (unat (x - 1) * sz) (content x))"
        "io_ok io1"
      using osWrite_ok [OF Cons.prems(1)] by blast
    define db1 where "db1 = writeAt db (unat (x - 1) * sz) (content x)"
    note w1 = w(1) [folded db1_def]
    obtain io' db' where c: "copyPages osRead sz nBack mxSafe mxPage fs xs io1 db1 = (SQLITE_OK, io', db')" "io_ok io'"
        "\<forall>q. pageOf db' sz q = (if q \<in> set xs \<and> due fs nBack mxSafe mxPage q then content q else pageOf db1 sz q)"
      using Cons.IH [OF w(2), of db1] Cons.prems(2-4) by auto
    have "pageOf db1 sz q = (if q = x then content x else pageOf db sz q)" for q
      using pageOf_other [OF w1] pageOf_written [OF w1 r(2) Cons.prems(1)] r(2) by auto
    then show ?thesis using c Cons.prems(2) True
      by (intro exI [of _ io'] exI [of _ db']) (auto simp: copyPages_due [OF True] r(1) w1)
  next
    case False
    obtain io' db' where c: "copyPages osRead sz nBack mxSafe mxPage fs xs io db = (SQLITE_OK, io', db')" "io_ok io'"
        "\<forall>q. pageOf db' sz q = (if q \<in> set xs \<and> due fs nBack mxSafe mxPage q then content q else pageOf db sz q)"
      using Cons.IH [OF Cons.prems(1), of db] Cons.prems(2-4) by auto
    then show ?thesis using copyPages_skip [OF _ False] Cons.prems(3) False
      by (intro exI [of _ io'] exI [of _ db']) auto
  qed
qed simp

section \<open>The content of the log\<close>

lemma walLogFrames_nth:
  assumes "length (aSalt w) = 8" and "list_all (frame_ok (szPage w)) fs" and "walLogFrames hb w fs = Some (b, e)" and "f < length fs"
  shows "take (szPage w) (drop (f * (szPage w + WAL_FRAME_HDRSIZE) + WAL_FRAME_HDRSIZE) b) = snd (snd (fs ! f))
    \<and> f * (szPage w + WAL_FRAME_HDRSIZE) + WAL_FRAME_HDRSIZE + szPage w \<le> length b"
  using assms
proof (induction fs arbitrary: w b f)
  case (Cons x fs)
  let ?sz = "szPage w" and ?data = "snd (snd x)"
  define c where "c = frameCksum hb w (fst x) (fst (snd x)) ?data"
  have ok: "frame_ok ?sz x" "list_all (frame_ok (szPage (w \<lparr> cksum := c \<rparr>))) fs" using Cons.prems(2) by simp_all
  obtain b' where b': "walLogFrames hb (w \<lparr> cksum := c \<rparr>) fs = Some (b', e)" "b = frameHdr w (fst x) (fst (snd x)) c @ ?data @ b'"
    using Cons.prems(3) unfolding walLogFrames_Cons [OF Cons.prems(1) ok(1)] c_def
    by (auto simp: Let_def split: bind_splits)
  have l: "length (frameHdr w (fst x) (fst (snd x)) c) = WAL_FRAME_HDRSIZE" "length ?data = ?sz"
    using Cons.prems(1) ok(1) by (simp_all add: frame_ok_def)
  show ?case
  proof (cases f)
    case (Suc g)
    have "take ?sz (drop (g * (?sz + WAL_FRAME_HDRSIZE) + WAL_FRAME_HDRSIZE) b') = snd (snd (fs ! g))
        \<and> g * (?sz + WAL_FRAME_HDRSIZE) + WAL_FRAME_HDRSIZE + ?sz \<le> length b'"
      using Cons.IH [OF _ ok(2) b'(1), of g] Cons.prems(1,4) Suc by simp
    then show ?thesis using Suc l by (simp add: b'(2) algebra_simps)
  qed (use l in \<open>simp add: b'(2)\<close>)
qed simp

lemma log_file_read:
  assumes "log_file hb w file fs" and "0 < f" and "f \<le> length fs"
  shows "take (szPage w) (drop (walFrameOffset f (szPage w) + WAL_FRAME_HDRSIZE) file) = snd (snd (fs ! (f - 1)))"
    and "walFrameOffset f (szPage w) + WAL_FRAME_HDRSIZE + szPage w \<le> length file"
proof -
  let ?h = "walHdrBytes (bigEndCksum w) (szPage w) (nCkpt w) (aSalt w)"
  have salt: "length (aSalt w) = 8" and ok: "list_all (frame_ok (szPage w)) fs" using assms(1) by (auto simp: log_file_def)
  obtain b e r where b: "walLogFrames hb (logOf w) fs = Some (b, e)" "file = ?h @ b @ r" using assms(1) by (auto simp: log_file_def)
  have "length (aSalt (logOf w)) = 8" "szPage (logOf w) = szPage w" using salt by (simp_all add: logOf_def logStart_def)
  then have n: "take (szPage w) (drop ((f - 1) * (szPage w + WAL_FRAME_HDRSIZE) + WAL_FRAME_HDRSIZE) b) = snd (snd (fs ! (f - 1)))"
      "(f - 1) * (szPage w + WAL_FRAME_HDRSIZE) + WAL_FRAME_HDRSIZE + szPage w \<le> length b"
    using walLogFrames_nth [OF _ _ b(1), of "f - 1"] ok assms(2,3) by simp_all
  then show "take (szPage w) (drop (walFrameOffset f (szPage w) + WAL_FRAME_HDRSIZE) file) = snd (snd (fs ! (f - 1)))"
    "walFrameOffset f (szPage w) + WAL_FRAME_HDRSIZE + szPage w \<le> length file"
    using salt by (simp_all add: b(2) walFrameOffset_def add.assoc)
qed

section \<open>Readers\<close>

text \<open>A lock that another connection keeps: every attempt fails and the last one is not repeated.\<close>

definition held :: "(rcode \<times> bool) list \<Rightarrow> bool" where
  "held as \<longleftrightarrow> as \<noteq> [] \<and> (\<forall>a \<in> set as. fst a = SQLITE_BUSY) \<and> \<not> snd (last as)"

lemma walBusyLock_held: "held as \<Longrightarrow> walBusyLock xBusy as = SQLITE_BUSY"
  by (induction xBusy as rule: walBusyLock.induct) (auto simp: held_def split: if_splits)

lemma ckptReaders_le:
  "ckptReaders locks is rc xb marks mx = Inr (rc', xb', marks', mx') \<Longrightarrow> mx' \<le> mx"
proof (induction "locks" "is" rc xb marks mx rule: ckptReaders.induct)
  case (2 locks i "is" rc xb marks mx)
  then show ?case by (fastforce simp: Let_def split: if_splits)
qed simp

lemma ckptReaders_held:
  "ckptReaders locks is rc xb marks mx = Inr (rc', xb', marks', mx') \<Longrightarrow> distinct is \<Longrightarrow> j \<in> set is \<Longrightarrow> held (locks (j, 1))
   \<Longrightarrow> mx' \<le> marks ! j"
proof (induction "locks" "is" rc xb marks mx rule: ckptReaders.induct)
  case (2 locks i "is" rc xb marks mx)
  show ?case
  proof (cases "i = j")
    case True
    have "walBusyLock xb (locks (i, 1)) = SQLITE_BUSY" using walBusyLock_held "2.prems"(4) True by simp
    then show ?thesis using "2.prems"(1) True ckptReaders_le [of locks "is"] by (fastforce simp: Let_def split: if_splits)
  next
    case False
    then show ?thesis using 2 by (auto simp: Let_def split: if_splits)
  qed
qed simp

lemma ckptReaders_free:
  "\<forall>r. locks r = [] \<Longrightarrow> \<exists>marks'. ckptReaders locks is SQLITE_OK xb marks mx = Inr (SQLITE_OK, xb, marks', mx)"
  by (induction "is" arbitrary: marks) (auto simp: Let_def)

section \<open>Correctness\<close>

lemma pagesAfter_0: "0 \<notin> set fs \<Longrightarrow> set (pagesAfter fs 0) = set fs"
  by (auto simp: pagesAfter_set word_gt_0)

lemma byteAt_truncated: "i < sz \<Longrightarrow> byteAt (take sz f @ replicate (sz - length f) 0) i = byteAt f i"
  by (auto simp: byteAt_def nth_append)

lemma pageOf_truncated:
  assumes "q \<noteq> 0" and "q \<le> n" and "sz' = unat n * sz"
  shows "pageOf (take sz' f @ replicate (sz' - length f) 0) sz q = pageOf f sz q"
proof -
  have "unat (q - 1) + 1 = unat q" using assms(1) by (simp add: unat_minus_one unat_gt_0)
  moreover have "unat q \<le> unat n" using assms(2) by (simp add: word_le_nat_alt)
  ultimately have "(unat (q - 1) + 1) * sz \<le> unat n * sz" by (metis mult_le_mono1)
  then show ?thesis using assms(3) by (simp add: pageOf_def byteAt_truncated)
qed

text \<open>The bytes of the last frame of a page.\<close>

definition lastContent :: "logFrame list \<Rightarrow> u32 \<Rightarrow> bytes" where
  "lastContent fs q = snd (snd (fs ! (lastFrame (map fst fs) q - 1)))"

lemma lastFrame_in: "lastFrame fs q \<in> insert 0 {f \<in> {1..length fs}. fs ! (f - 1) = q}"
  unfolding lastFrame_def by (rule Max_in) auto

lemma lastFrame_nth: "0 < lastFrame fs q \<Longrightarrow> fs ! (lastFrame fs q - 1) = q \<and> lastFrame fs q - 1 < length fs"
  using lastFrame_in [of fs q] by (auto simp: Suc_le_eq)

lemma lastFrame_bounds: "lastFrame fs q \<le> length fs" "q \<in> set fs \<longleftrightarrow> 0 < lastFrame fs q"
proof -
  show "lastFrame fs q \<le> length fs" using lastFrame_in [of fs q] by auto
  show "q \<in> set fs \<longleftrightarrow> 0 < lastFrame fs q"
  proof
    assume "q \<in> set fs"
    then obtain g where g: "0 < g" "g \<le> length fs" "fs ! (g - 1) = q" using frames_pages [of q fs] by metis
    then have "g \<le> lastFrame fs q" unfolding lastFrame_def by (intro Max_ge) simp_all
    then show "0 < lastFrame fs q" using g(1) by linarith
  next
    assume "0 < lastFrame fs q"
    then show "q \<in> set fs" using lastFrame_nth [of fs q] nth_mem by metis
  qed
qed

text \<open>A handle whose cached header describes the log \<open>fs\<close>, with the page size in its encoded form.\<close>

definition ckpt_ready :: "bool \<Rightarrow> wal \<Rightarrow> bytes \<Rightarrow> logFrame list \<Rightarrow> u32 list \<Rightarrow> bool" where
  "ckpt_ready hb pWal file fs gs \<longleftrightarrow> log_file hb pWal file fs \<and> wal_ok (idx pWal) (map fst fs @ gs)
     \<and> mxFrame (idx pWal) = length fs \<and> pages_valid (map fst fs) \<and> walPagesize pWal = szPage pWal"

lemma ckpt_ready_pages: "ckpt_ready hb w file fs gs \<Longrightarrow> 0 \<notin> set (map fst fs)"
  by (auto simp: ckpt_ready_def log_file_def list_all_iff frame_ok_def)

lemma ckpt_ready_read:
  assumes "ckpt_ready hb w file fs gs" and "reads_file osRead file" and "q \<in> set (map fst fs)"
  shows "osRead (walFrameOffset (lastFrame (map fst fs) q) (szPage w) + WAL_FRAME_HDRSIZE) (szPage w) = Inr (lastContent fs q)"
    and "length (lastContent fs q) = szPage w"
proof -
  let ?f = "lastFrame (map fst fs) q"
  have f: "0 < ?f" "?f \<le> length fs" using lastFrame_bounds(1) [of "map fst fs" q] lastFrame_bounds(2) [of q "map fst fs"] assms(3) by simp_all
  have lf: "log_file hb w file fs" using assms(1) by (simp add: ckpt_ready_def)
  show "osRead (walFrameOffset ?f (szPage w) + WAL_FRAME_HDRSIZE) (szPage w) = Inr (lastContent fs q)"
    using log_file_read [OF lf f] assms(2) by (simp add: reads_file_def lastContent_def)
  have "frame_ok (szPage w) (fs ! (?f - 1))" using lf f by (auto simp: log_file_def list_all_length)
  then show "length (lastContent fs q) = szPage w" by (simp add: frame_ok_def lastContent_def)
qed

lemma ckptBackfill_complete:
  assumes "ckpt_ready hb w file fs gs" and "reads_file osRead file" and "io_ok io" and "iter_ok (map fst fs) p" and "iPrior p = 0"
    and "h_mxFrame (shared w) = length fs"
  shows "\<exists>io' db'. ckptBackfill osRead sync w p (length fs) io db = (SQLITE_OK, length fs, io', db')
    \<and> length db' = unat (nPage w) * szPage w
    \<and> (\<forall>q. q \<noteq> 0 \<and> q \<le> nPage w \<longrightarrow> pageOf db' (szPage w) q
         = (if q \<in> set (map fst fs) \<and> nBackfill (ckpt w) < lastFrame (map fst fs) q then lastContent fs q else pageOf db (szPage w) q))"
proof -
  let ?ps = "map fst fs" and ?sz = "szPage w" and ?nb = "nBackfill (ckpt w)"
  have sz: "walPagesize w = ?sz" using assms(1) by (simp add: ckpt_ready_def)
  obtain io1 where io1: "(if sync then osSync io else (SQLITE_OK, io)) = (SQLITE_OK, io1)" "io_ok io1"
    using osSync_ok [OF assms(3)] assms(3) by (cases sync) auto
  obtain io2 where io2: "osSync io1 = (SQLITE_OK, io2)" "io_ok io2" using osSync_ok [OF io1(2)] by blast
  have qs: "distinct (pagesAfter ?ps 0)" "set (pagesAfter ?ps 0) = set ?ps"
    using pagesAfter_sorted [of ?ps 0] pagesAfter_0 [OF ckpt_ready_pages [OF assms(1)]] by (auto simp: strict_sorted_iff)
  have "\<exists>io' db'. copyPages osRead ?sz ?nb (length fs) (nPage w) ?ps (pagesAfter ?ps 0) io2 db = (SQLITE_OK, io', db') \<and> io_ok io'
    \<and> (\<forall>q. pageOf db' ?sz q = (if q \<in> set (pagesAfter ?ps 0) \<and> due ?ps ?nb (length fs) (nPage w) q then lastContent fs q else pageOf db ?sz q))"
    using qs ckpt_ready_read [OF assms(1,2)] by (intro copyPages_copied [OF io2(2)]) (simp_all add: due_def)
  then obtain io3 db3 where c: "ckptCopy osRead ?sz ?nb (length fs) (nPage w) p 0 io2 db = (SQLITE_OK, io3, db3)" "io_ok io3"
      "\<forall>q. pageOf db3 ?sz q = (if q \<in> set ?ps \<and> due ?ps ?nb (length fs) (nPage w) q then lastContent fs q else pageOf db ?sz q)"
    unfolding ckptCopy_pages [OF assms(4)] assms(5) qs(2) by blast
  let ?n = "unat (nPage w) * ?sz"
  define db4 where "db4 = take ?n db3 @ replicate (?n - length db3) 0"
  obtain io4 where t: "osTruncate io3 db3 ?n = (SQLITE_OK, io4, db4)" "io_ok io4"
    using c(2) by (cases io3) (auto simp: io_ok_def db4_def)
  obtain io5 where io5: "osSync io4 = (SQLITE_OK, io5)" using osSync_ok [OF t(2)] by blast
  have "\<exists>io'. ckptBackfill osRead sync w p (length fs) io db = (SQLITE_OK, length fs, io', db4)"
    using io1(1) io2(1) c(1) t(1) io5 assms(6) by (cases sync) (simp_all add: ckptBackfill_def sz)
  moreover have "length db4 = ?n" by (simp add: db4_def)
  moreover have "pageOf db4 ?sz q = (if q \<in> set ?ps \<and> ?nb < lastFrame ?ps q then lastContent fs q else pageOf db ?sz q)"
    if "q \<noteq> 0" "q \<le> nPage w" for q
    using pageOf_truncated [OF that refl, of ?sz db3] c(3) that(2) lastFrame_bounds(1) [of ?ps q] by (auto simp: db4_def due_def)
  ultimately show ?thesis by blast
qed

lemma ckptCopy_other:
  assumes "ckptCopy osRead sz nBack mxSafe mxPage p 0 io db = (rc, io', db')" and "iter_ok fs p" and "reads_sized osRead"
    and "\<not> due fs nBack mxSafe mxPage q"
  shows "pageOf db' sz q = pageOf db sz q"
  using copyPages_other [OF _ assms(3) _ assms(4)] assms(1) pagesAfter_set [of fs "iPrior p"]
  unfolding ckptCopy_pages [OF assms(2)] by blast

lemma ckptBackfill_other:
  assumes "ckptBackfill osRead sync w p mxSafe io db = (rc, n, io', db')" and "iter_ok fs p" and "reads_sized osRead"
    and "\<not> due fs (nBackfill (ckpt w)) mxSafe (nPage w) q" and "mxSafe < h_mxFrame (shared w) \<or> q \<noteq> 0 \<and> q \<le> nPage w"
  shows "pageOf db' (walPagesize w) q = pageOf db (walPagesize w) q \<and> (n = nBackfill (ckpt w) \<or> n = mxSafe)"
proof -
  let ?nb = "nBackfill (ckpt w)" and ?sz = "walPagesize w"
  obtain rc1 io1 where 1: "(if sync then osSync io else (SQLITE_OK, io)) = (rc1, io1)" by fastforce
  obtain rc2 io2 where 2: "(if rc1 = SQLITE_OK then osSync io1 else (rc1, io1)) = (rc2, io2)" by fastforce
  obtain rc3 io3 db3 where 3: "(if rc2 = SQLITE_OK then ckptCopy osRead ?sz ?nb mxSafe (nPage w) p 0 io2 db else (rc2, io2, db)) = (rc3, io3, db3)"
    by (metis prod_cases3)
  have p3: "pageOf db3 ?sz q = pageOf db ?sz q"
    using 3 ckptCopy_other [OF _ assms(2,3,4)] by (auto split: if_splits)
  define b where "b = ckptBackfill osRead sync w p mxSafe io db"
  have bf: "b = (if rc3 \<noteq> SQLITE_OK then (rc3, ?nb, io3, db3)
         else
           let (rc, io, db) =
                 (if mxSafe = h_mxFrame (shared w) then
                    (case osTruncate io3 db3 (unat (nPage w) * ?sz) of
                       (rc, io, db) \<Rightarrow>
                         if rc = SQLITE_OK \<and> sync then (case osSync io of (rc, io) \<Rightarrow> (rc, io, db)) else (rc, io, db))
                  else (SQLITE_OK, io3, db3))
           in (rc, if rc = SQLITE_OK then mxSafe else ?nb, io, db))"
    unfolding b_def ckptBackfill_def Let_def 1 2 3 case_prod_conv ..
  obtain rc4 io4 db4 where 4: "osTruncate io3 db3 (unat (nPage w) * ?sz) = (rc4, io4, db4)" by (metis prod_cases3)
  have p4: "pageOf db4 ?sz q = pageOf db3 ?sz q" if "mxSafe = h_mxFrame (shared w)"
    using 4 that assms(5) pageOf_truncated [of q "nPage w" "unat (nPage w) * ?sz" ?sz db3]
    by (cases "(io3, db3, unat (nPage w) * ?sz)" rule: osTruncate.cases) auto
  have "b = (rc, n, io', db')" using assms(1) by (simp add: b_def)
  then show ?thesis using p3 p4 unfolding bf 4
    by (auto simp: Let_def split: if_splits prod.splits)
qed

text \<open>A reader whose snapshot ends at frame \<open>y\<close> takes the page \<open>q\<close> from the database file when no frame up to \<open>y\<close>
  holds it; such a page is never due below the mark of that reader.\<close>

lemma not_due_reader:
  assumes "lastFrame (take y fs) q = 0" and "mxSafe \<le> y"
  shows "\<not> due fs nBack mxSafe mxPage q"
proof
  assume d: "due fs nBack mxSafe mxPage q"
  let ?f = "lastFrame fs q"
  have f: "0 < ?f" "?f \<le> y" "?f \<le> length fs" using d assms(2) lastFrame_bounds(1) [of fs q] by (auto simp: due_def)
  have "fs ! (?f - 1) = q" using lastFrame_nth [OF f(1)] by simp
  then have "take y fs ! (?f - 1) = q" "?f - 1 < length (take y fs)" using f by auto
  then have "q \<in> set (take y fs)" using nth_mem by metis
  then show False using lastFrame_bounds(2) [of q "take y fs"] assms(1) by simp
qed

lemma log_file_ckpt: "log_file hb w file fs \<Longrightarrow> log_file hb (w \<lparr> ckpt := c \<rparr>) file fs"
  by (erule log_file_cong) simp_all

lemma ckpt_ready_ckpt: "ckpt_ready hb w file fs gs \<Longrightarrow> ckpt_ready hb (w \<lparr> ckpt := c \<rparr>) file fs gs"
  by (simp add: ckpt_ready_def log_file_ckpt walPagesize_def)

lemma walCheckpoint_init:
  assumes "ckpt_ready hb pWal file fs gs" and "\<forall>h. rcMap h = SQLITE_OK"
  shows "\<exists>r. walIteratorInit rcMap (idx pWal) al = Some r \<and>
    (fst r = SQLITE_NOMEM \<and> fst (snd r) = None \<and> al \<noteq> []
     \<or> fst r = SQLITE_OK \<and> (\<exists>p. fst (snd r) = Some p \<and> iPrior p = 0 \<and> iter_ok (map fst fs) p))"
  using walIteratorInit_ok [of "idx pWal" "map fst fs" gs rcMap al] assms by (simp add: ckpt_ready_def)

text \<open>What the part of the checkpoint after the read marks does to a page that is not due.\<close>

lemma ckptLocked_other:
  assumes "iter_ok fs p" and "reads_sized osRead" and "\<not> due fs (nBackfill (ckpt w)) mxSafe (nPage w) q"
    and "mxSafe < h_mxFrame (shared w) \<or> q \<noteq> 0 \<and> q \<le> nPage w"
  shows "\<exists>rc' w' io' db'. ckptLocked osRead locks xBusy sync w p mxSafe rc io db = (rc', w', io', db')
    \<and> pageOf db' (walPagesize w) q = pageOf db (walPagesize w) q
    \<and> (nBackfill (ckpt w') = nBackfill (ckpt w) \<or> nBackfill (ckpt w') = mxSafe)"
proof -
  obtain rc' n io' db' where b: "ckptBackfill osRead sync w p mxSafe io db = (rc', n, io', db')" by (metis prod_cases4)
  show ?thesis using b ckptBackfill_other [OF b assms] by (auto simp: ckptLocked_def Let_def)
qed

text \<open>A log of two frames, for the examples.\<close>

definition ckptLog :: "logFrame list" where
  "ckptLog = [(1, 0, replicate 512 3), (2, 2, replicate 512 4)]"

lemma ckpt_example:
  "\<exists>pWal file. ckpt_ready True pWal file ckptLog [] \<and> nPage pWal = 2 \<and> szPage pWal = 512
     \<and> h_mxFrame (shared pWal) = 2 \<and> ckpt pWal = c"
proof -
  have "wal_ok walEmpty ([] @ [])" by (simp add: wal_ok_def walEmpty_def)
  then obtain i where i: "wal_ok i [1, 2]"
    using walAppendList_correct [of walEmpty "[]" "[]" "[1, 2]" "\<lambda>_. SQLITE_OK"] by (auto simp: walEmpty_def)
  define w0 where "w0 = wal0 \<lparr> idx := i \<lparr> mxFrame := 2 \<rparr>, shared := \<lparr> h_mxFrame = 2, h_cksum = (0, 0) \<rparr>,
    hdrSzPage := walSzPageCode 512, nPage := 2, ckpt := c \<rparr>"
  have ok: "list_all (frame_ok 512) ckptLog" and sz: "szPage_ok 512"
    by (simp_all add: ckptLog_def frame_ok_def szPage_ok_def SQLITE_MAX_PAGE_SIZE_def exI [of _ 9])
  have salt: "length (aSalt w0) = 8" "szPage w0 = 512" by (simp_all add: w0_def wal0_def)
  obtain b e where b: "walLogFrames True (logOf w0) ckptLog = Some (b, e)"
    using walLogFrames_Some [of "logOf w0" ckptLog True] ok salt by (auto simp: logOf_def logStart_def)
  let ?w = "w0 \<lparr> cksum := cksum e \<rparr>"
  let ?f = "walHdrBytes (bigEndCksum w0) 512 (nCkpt w0) (aSalt w0) @ b"
  have "logOf ?w = logOf w0" by (simp add: logOf_def logStart_def)
  then have "log_file True ?w ?f ckptLog" using b ok sz salt by (simp add: log_file_def)
  moreover have "walPagesize ?w = 512" by (simp add: walPagesize_def w0_def walSzPageCode_def)
  ultimately have "ckpt_ready True ?w ?f ckptLog []"
    using i salt by (simp add: ckpt_ready_def w0_def pages_valid_def ckptLog_def)
  then show ?thesis using salt by (intro exI [of _ ?w] exI [of _ ?f]) (simp add: w0_def)
qed

lemma ckpt_example_frames:
  "lastFrame (map fst ckptLog) 2 = 2" "lastFrame (take 1 (map fst ckptLog)) 2 = 0" "lastFrame (map fst ckptLog) 1 = 1"
proof -
  have ps: "map fst ckptLog = [1, 2]" by (simp add: ckptLog_def)
  show "lastFrame (map fst ckptLog) 2 = 2" "lastFrame (take 1 (map fst ckptLog)) 2 = 0" "lastFrame (map fst ckptLog) 1 = 1"
    unfolding ps by code_simp+
qed

section \<open>Properties\<close>

text \<open>C12. An undisturbed checkpoint moves the snapshot into the database file: when no lock is held by a reader,
  no write fails and the pages whose last frame is in the part already copied are in the database file,
  then afterwards the file has the size of the database, every page that occurs in the log has the content
  of its newest frame, every other page is unchanged, and the whole log is marked as copied.\<close>

theorem walCheckpoint_complete:
  assumes "ckpt_ready hb pWal file fs gs" and "reads_file osRead file" and "io_ok io" and "\<forall>h. rcMap h = SQLITE_OK"
    and "\<forall>r. locks r = []" and "h_mxFrame (shared pWal) = length fs" and "nBackfill (ckpt pWal) < length fs"
    and "\<forall>q \<in> set (map fst fs). q \<le> nPage pWal \<and> lastFrame (map fst fs) q \<le> nBackfill (ckpt pWal) \<longrightarrow>
      pageOf db (szPage pWal) q = lastContent fs q"
  shows "\<exists>w al' io' db'. walCheckpoint rcMap osRead locks eMode xBusyCall sync pWal [] io db = Some (SQLITE_OK, w, al', io', db')
    \<and> nBackfill (ckpt w) = length fs \<and> length db' = unat (nPage pWal) * szPage pWal
    \<and> (\<forall>q. q \<noteq> 0 \<and> q \<le> nPage pWal \<longrightarrow>
         pageOf db' (szPage pWal) q = (if q \<in> set (map fst fs) then lastContent fs q else pageOf db (szPage pWal) q))"
proof -
  obtain al' p where i: "walIteratorInit rcMap (idx pWal) [] = Some (SQLITE_OK, Some p, al')" "iPrior p = 0" "iter_ok (map fst fs) p"
    using walCheckpoint_init [OF assms(1,4), of "[]"] by fastforce
  have mx: "mxFrame (idx pWal) = length fs" using assms(1) by (simp add: ckpt_ready_def)
  let ?xb = "eMode \<noteq> CHECKPOINT_PASSIVE \<and> xBusyCall"
  obtain marks where r: "ckptReaders locks [1..<WAL_NREADER] SQLITE_OK ?xb (aReadMark (ckpt pWal)) (length fs) = Inr (SQLITE_OK, ?xb, marks, length fs)"
    using ckptReaders_free [OF assms(5)] by blast
  define w where "w = pWal \<lparr> ckpt := ckpt pWal \<lparr> aReadMark := marks \<rparr> \<rparr>"
  have w: "ckpt_ready hb w file fs gs" "h_mxFrame (shared w) = length fs" "nPage w = nPage pWal" "szPage w = szPage pWal"
      "nBackfill (ckpt w) = nBackfill (ckpt pWal)"
    using ckpt_ready_ckpt [OF assms(1)] assms(6) by (simp_all add: w_def)
  obtain io' db' where b: "ckptBackfill osRead sync w p (length fs) io db = (SQLITE_OK, length fs, io', db')"
      "length db' = unat (nPage pWal) * szPage pWal"
      "\<forall>q. q \<noteq> 0 \<and> q \<le> nPage pWal \<longrightarrow> pageOf db' (szPage pWal) q = (if q \<in> set (map fst fs)
         \<and> nBackfill (ckpt pWal) < lastFrame (map fst fs) q then lastContent fs q else pageOf db (szPage pWal) q)"
    using ckptBackfill_complete [OF w(1) assms(2,3) i(3,2) w(2), of sync db] unfolding w(3-5) by blast
  have pg: "pageOf db' (szPage pWal) q = (if q \<in> set (map fst fs) then lastContent fs q else pageOf db (szPage pWal) q)"
    if "q \<noteq> 0" "q \<le> nPage pWal" for q
    using b(3) assms(8) that by (metis linorder_not_less)
  define w' where "w' = w \<lparr> ckpt := ckpt w \<lparr> nBackfill := length fs \<rparr> \<rparr>"
  have "ckptFinish locks eMode ?xb w' SQLITE_OK = SQLITE_OK" using assms(5) mx by (simp add: ckptFinish_def w'_def w_def)
  then have "walCheckpoint rcMap osRead locks eMode xBusyCall sync pWal [] io db = Some (SQLITE_OK, w', al', io', db')"
    using assms(5,7) i(1) r b(1) w(5) mx unfolding walCheckpoint_def
    by (simp add: ckptLocked_def w_def [symmetric] w'_def)
  then show ?thesis using b(2) pg by (auto simp: w'_def)
qed

theorem walCheckpoint_complete_witness:
  "\<exists>pWal osRead w al' io' db'. walCheckpoint (\<lambda>_. SQLITE_OK) osRead (\<lambda>_. []) CHECKPOINT_RESTART True True pWal [] [] []
      = Some (SQLITE_OK, w, al', io', db')
    \<and> nBackfill (ckpt w) = 2 \<and> length db' = 1024 \<and> pageOf db' 512 2 = replicate 512 4"
proof -
  obtain pWal "file" where p: "ckpt_ready True pWal file ckptLog []" "nPage pWal = 2" "szPage pWal = 512"
      "h_mxFrame (shared pWal) = 2" "ckpt pWal = \<lparr> nBackfill = 0, aReadMark = replicate 5 0 \<rparr>"
    using ckpt_example by blast
  let ?r = "\<lambda>off n. Inr (take n (drop off file)) :: rcode + bytes"
  have l: "length ckptLog = 2" "(2 :: u32) \<in> set (map fst ckptLog)" by (simp_all add: ckptLog_def)
  have r: "reads_file ?r file" "io_ok []" by (simp_all add: reads_file_def io_ok_def)
  have "\<exists>w al' io' db'. walCheckpoint (\<lambda>_. SQLITE_OK) ?r (\<lambda>_. []) CHECKPOINT_RESTART True True pWal [] [] [] = Some (SQLITE_OK, w, al', io', db')
    \<and> nBackfill (ckpt w) = length ckptLog \<and> length db' = unat (nPage pWal) * szPage pWal
    \<and> (\<forall>q. q \<noteq> 0 \<and> q \<le> nPage pWal \<longrightarrow>
         pageOf db' (szPage pWal) q = (if q \<in> set (map fst ckptLog) then lastContent ckptLog q else pageOf [] (szPage pWal) q))"
    by (rule walCheckpoint_complete [OF p(1) r])
      (use p l lastFrame_bounds(2) [of _ "map fst ckptLog"] in \<open>auto\<close>)
  then obtain w al' io' db' where e: "walCheckpoint (\<lambda>_. SQLITE_OK) ?r (\<lambda>_. []) CHECKPOINT_RESTART True True pWal [] [] []
      = Some (SQLITE_OK, w, al', io', db')" "nBackfill (ckpt w) = 2" "length db' = unat (2 :: u32) * 512"
    and q: "\<forall>q. q \<noteq> 0 \<and> q \<le> 2 \<longrightarrow> pageOf db' 512 q = (if q \<in> set (map fst ckptLog) then lastContent ckptLog q else pageOf [] 512 q)"
    unfolding p(2,3) l(1) by blast
  have "pageOf db' 512 2 = lastContent ckptLog 2" using q l(2) by simp
  also have "\<dots> = replicate 512 4" unfolding lastContent_def ckpt_example_frames by (simp add: ckptLog_def)
  finally show ?thesis using e by (intro exI [of _ pWal] exI [of _ ?r] exI [of _ w] exI [of _ al'] exI [of _ io'] exI [of _ db']) simp
qed

text \<open>The read lock 0 guards the copy: while it is held, the database file is not touched.\<close>

lemma ckptLocked_held:
  assumes "held (locks (0, 1))"
  shows "\<exists>rc'. ckptLocked osRead locks xBusy sync w p mxSafe rc io db = (rc', w, io, db)"
  using walBusyLock_held [OF assms, of xBusy] by (simp add: ckptLocked_def Let_def)

text \<open>The two kinds of readers: the page that is looked at stays, and on lock 0 nothing is written at all.\<close>

lemma ckptLocked_reader:
  assumes p: "iter_ok fs p" and "reads_sized osRead" and "held (locks (j, 1))" and "j \<noteq> 0 \<longrightarrow> mxSafe \<le> y"
    and reader: "j \<noteq> 0 \<longrightarrow> lastFrame (take y fs) q = 0 \<and> (y < length fs \<or> q \<noteq> 0 \<and> q \<le> nPage w)"
    and "length fs \<le> h_mxFrame (shared w)"
  shows "\<exists>rc' w' io' db'. ckptLocked osRead locks xBusy sync w p mxSafe rc io db = (rc', w', io', db')
    \<and> pageOf db' (walPagesize w) q = pageOf db (walPagesize w) q \<and> nBackfill (ckpt w') \<le> max (nBackfill (ckpt w)) y
    \<and> (j = 0 \<longrightarrow> db' = db \<and> nBackfill (ckpt w') = nBackfill (ckpt w))"
proof (cases "j = 0")
  case True
  then show ?thesis using ckptLocked_held [of locks osRead xBusy sync w p mxSafe rc io db] assms(3) by auto
next
  case False
  then have le: "mxSafe \<le> y" and q: "lastFrame (take y fs) q = 0" "y < length fs \<or> q \<noteq> 0 \<and> q \<le> nPage w"
    using assms(4) reader by auto
  have "\<not> due fs (nBackfill (ckpt w)) mxSafe (nPage w) q" by (rule not_due_reader [OF q(1) le])
  moreover have "mxSafe < h_mxFrame (shared w) \<or> q \<noteq> 0 \<and> q \<le> nPage w" using q(2) le assms(6) by auto
  ultimately obtain rc' w' io' db' where "ckptLocked osRead locks xBusy sync w p mxSafe rc io db = (rc', w', io', db')"
      "pageOf db' (walPagesize w) q = pageOf db (walPagesize w) q" "nBackfill (ckpt w') = nBackfill (ckpt w) \<or> nBackfill (ckpt w') = mxSafe"
    using ckptLocked_other [OF p assms(2), of w mxSafe q locks xBusy sync rc io db] by blast
  then show ?thesis using False le by auto
qed

text \<open>C11. A checkpoint never changes a page under an active reader: whatever locks are refused and whatever
  reads, writes and syncs fail, the checkpoint returns. While a reader holds the read lock 0, and so takes
  every page from the database file, the file and the number of copied frames do not change at all. While a
  reader with the mark \<open>y\<close> holds one of the other read locks, a page that this reader takes from the
  database file keeps its content there, and the part of the log that is marked as copied does not go beyond
  the mark. Pages behind the end of the current database are covered for readers of older snapshots, which
  may have been larger.\<close>

theorem walCheckpoint_safe:
  assumes "ckpt_ready hb pWal file fs gs" and "reads_sized osRead" and "\<forall>h. rcMap h = SQLITE_OK"
    and "length fs \<le> h_mxFrame (shared pWal)" and "j < WAL_NREADER" and "held (locks (j, 1))"
    and "y = aReadMark (ckpt pWal) ! j"
    and "j \<noteq> 0 \<longrightarrow> lastFrame (take y (map fst fs)) q = 0 \<and> (y < length fs \<or> q \<noteq> 0 \<and> q \<le> nPage pWal)"
  shows "\<exists>rc w al' io' db'. walCheckpoint rcMap osRead locks eMode xBusyCall sync pWal al io db = Some (rc, w, al', io', db')
    \<and> pageOf db' (szPage pWal) q = pageOf db (szPage pWal) q
    \<and> nBackfill (ckpt w) \<le> max (nBackfill (ckpt pWal)) y
    \<and> (j = 0 \<longrightarrow> db' = db \<and> nBackfill (ckpt w) = nBackfill (ckpt pWal))"
proof (cases "nBackfill (ckpt pWal) \<ge> mxFrame (idx pWal)")
  case False
  have sz: "walPagesize pWal = szPage pWal" using assms(1) by (simp add: ckpt_ready_def)
  obtain rc pi al' where i: "walIteratorInit rcMap (idx pWal) al = Some (rc, pi, al')" and
    i': "pi = None \<or> (\<exists>p. pi = Some p \<and> iter_ok (map fst fs) p)"
    using walCheckpoint_init [OF assms(1,3), of al] by fastforce
  show ?thesis
  proof (cases pi)
    case None
    then show ?thesis using False i by (simp add: walCheckpoint_def)
  next
    case (Some p)
    then have p: "iter_ok (map fst fs) p" using i' by simp
    let ?r = "ckptReaders locks [1..<WAL_NREADER] SQLITE_OK (eMode \<noteq> CHECKPOINT_PASSIVE \<and> xBusyCall) (aReadMark (ckpt pWal)) (mxFrame (idx pWal))"
    show ?thesis
    proof (cases ?r)
      case (Inl e)
      then show ?thesis using False i Some by (cases e) (simp add: walCheckpoint_def)
    next
      case (Inr e)
      then obtain rc1 xb marks mxSafe where e: "?r = Inr (rc1, xb, marks, mxSafe)" by (cases e) auto
      have le: "j \<noteq> 0 \<longrightarrow> mxSafe \<le> y" using ckptReaders_held [OF e] assms(5-7) by simp
      define w where "w = pWal \<lparr> ckpt := ckpt pWal \<lparr> aReadMark := marks \<rparr> \<rparr>"
      have w: "walPagesize w = szPage pWal" "nBackfill (ckpt w) = nBackfill (ckpt pWal)" using sz by (simp_all add: w_def walPagesize_def)
      obtain rc2 w' io' db' where a: "ckptLocked osRead locks xb sync w p mxSafe rc1 io db = (rc2, w', io', db')"
          "pageOf db' (walPagesize w) q = pageOf db (walPagesize w) q" "nBackfill (ckpt w') \<le> max (nBackfill (ckpt w)) y"
          "j = 0 \<longrightarrow> db' = db \<and> nBackfill (ckpt w') = nBackfill (ckpt w)"
        using ckptLocked_reader [OF p assms(2), of locks j mxSafe y q w xb sync rc1 io db] assms(4,6,8) le by (auto simp: w_def)
      have "\<exists>rc. walCheckpoint rcMap osRead locks eMode xBusyCall sync pWal al io db = Some (rc, w', al', io', db')"
        using False i Some e a(1) by (simp add: walCheckpoint_def w_def)
      then show ?thesis using a(2-4) unfolding w by blast
    qed
  qed
qed (simp add: walCheckpoint_def)

theorem walCheckpoint_safe_witness:
  "(\<exists>pWal rc w al' io' db'. walCheckpoint (\<lambda>_. SQLITE_OK) (\<lambda>off n. Inr (replicate n 0))
      (\<lambda>r. if r = (1, 1) then [(SQLITE_BUSY, False)] else []) CHECKPOINT_PASSIVE False True pWal [] [IoOk, IoFail SQLITE_IOERR 0] (replicate 1024 8)
      = Some (rc, w, al', io', db')
    \<and> pageOf db' 512 2 = pageOf (replicate 1024 8) 512 2 \<and> nBackfill (ckpt w) \<le> 1)
   \<and> (\<exists>pWal rc w al' io'. walCheckpoint (\<lambda>_. SQLITE_OK) (\<lambda>off n. Inr (replicate n 0))
      (\<lambda>r. if r = (0, 1) then [(SQLITE_BUSY, False)] else []) CHECKPOINT_PASSIVE False True pWal [] [] (replicate 1024 8)
      = Some (rc, w, al', io', replicate 1024 8)
    \<and> mxFrame (idx pWal) = 2 \<and> nBackfill (ckpt w) = 0)"
proof
  obtain pWal "file" where p: "ckpt_ready True pWal file ckptLog []" "nPage pWal = 2" "szPage pWal = 512"
      "h_mxFrame (shared pWal) = 2" "ckpt pWal = \<lparr> nBackfill = 0, aReadMark = [0, 1, 0, 0, 0] \<rparr>"
    using ckpt_example by blast
  let ?l = "\<lambda>j :: nat. \<lambda>r :: nat \<times> nat. if r = (j, 1) then [(SQLITE_BUSY, False)] else []"
  have "\<exists>rc w al' io' db'. walCheckpoint (\<lambda>_. SQLITE_OK) (\<lambda>off n. Inr (replicate n 0)) (?l 1) CHECKPOINT_PASSIVE False True pWal []
        [IoOk, IoFail SQLITE_IOERR 0] (replicate 1024 8) = Some (rc, w, al', io', db')
    \<and> pageOf db' (szPage pWal) 2 = pageOf (replicate 1024 8) (szPage pWal) 2 \<and> nBackfill (ckpt w) \<le> max (nBackfill (ckpt pWal)) 1
    \<and> ((1 :: nat) = 0 \<longrightarrow> db' = replicate 1024 8 \<and> nBackfill (ckpt w) = nBackfill (ckpt pWal))"
    by (rule walCheckpoint_safe [OF p(1)])
      (use p ckpt_example_frames(2) in \<open>simp_all add: reads_sized_def held_def WAL_NREADER_def ckptLog_def\<close>)
  moreover have "max (nBackfill (ckpt pWal)) 1 = 1" by (simp add: p(5))
  ultimately show "\<exists>pWal rc w al' io' db'. walCheckpoint (\<lambda>_. SQLITE_OK) (\<lambda>off n. Inr (replicate n 0)) (?l 1) CHECKPOINT_PASSIVE False True pWal []
        [IoOk, IoFail SQLITE_IOERR 0] (replicate 1024 8) = Some (rc, w, al', io', db')
    \<and> pageOf db' 512 2 = pageOf (replicate 1024 8) 512 2 \<and> nBackfill (ckpt w) \<le> 1"
    unfolding p(3) by (intro exI [of _ pWal]) simp
  have "\<exists>rc w al' io' db'. walCheckpoint (\<lambda>_. SQLITE_OK) (\<lambda>off n. Inr (replicate n 0)) (?l 0) CHECKPOINT_PASSIVE False True pWal []
        [] (replicate 1024 8) = Some (rc, w, al', io', db')
    \<and> pageOf db' (szPage pWal) 2 = pageOf (replicate 1024 8) (szPage pWal) 2 \<and> nBackfill (ckpt w) \<le> max (nBackfill (ckpt pWal)) 0
    \<and> ((0 :: nat) = 0 \<longrightarrow> db' = replicate 1024 8 \<and> nBackfill (ckpt w) = nBackfill (ckpt pWal))"
    by (rule walCheckpoint_safe [OF p(1)]) (use p in \<open>simp_all add: reads_sized_def held_def WAL_NREADER_def ckptLog_def\<close>)
  moreover have "mxFrame (idx pWal) = 2" using p(1) by (simp add: ckpt_ready_def ckptLog_def)
  ultimately show "\<exists>pWal rc w al' io'. walCheckpoint (\<lambda>_. SQLITE_OK) (\<lambda>off n. Inr (replicate n 0)) (?l 0) CHECKPOINT_PASSIVE False True pWal []
        [] (replicate 1024 8) = Some (rc, w, al', io', replicate 1024 8) \<and> mxFrame (idx pWal) = 2 \<and> nBackfill (ckpt w) = 0"
    by (intro exI [of _ pWal]) (auto simp: p(5))
qed

end
