(* ===== verification/Rely_Guarantee.thy ===== *)
theory Rely_Guarantee
  imports Prelude
begin

text \<open>
  Interleaving of sequential programs over a shared state, for the components of the library that several
  connections execute at the same time. A program is a tree of atomic accesses to the shared state; a
  system runs one program per connection, and a step lets one connection perform its next access. The
  locale \<open>rely_guarantee\<close> proves an invariant of such a system from one proof per program: an assertion at each
  point that the steps of the other connections keep, and a guarantee that each access fulfils.
\<close>

section \<open>Programs and their interleaving\<close>

text \<open>The first argument of an atomic access is the answer of the operating system in that access.\<close>

datatype (dead 's, 'r) prog = Done 'r | Atom "rcode \<Rightarrow> 's \<Rightarrow> 's \<times> ('s, 'r) prog"

type_synonym ('s, 'r) threads = "nat \<Rightarrow> ('s, 'r) prog"

text \<open>\<open>calls c s p\<close> says that the connection \<open>c\<close>, when it is idle, may start the program \<open>p\<close> in the state \<open>s\<close>;
  \<open>allowed c s s'\<close> restricts the accesses that are taken into account.\<close>

inductive sys_step :: "(nat \<Rightarrow> 's \<Rightarrow> ('s, 'r) prog \<Rightarrow> bool) \<Rightarrow> (nat \<Rightarrow> 's \<Rightarrow> 's \<Rightarrow> bool) \<Rightarrow>
    's \<times> ('s, 'r) threads \<Rightarrow> nat \<Rightarrow> 's \<times> ('s, 'r) threads \<Rightarrow> bool"
  for calls allowed where
  sys_access: "P c = Atom f \<Longrightarrow> f e s = (s', p) \<Longrightarrow> allowed c s s' \<Longrightarrow> sys_step calls allowed (s, P) c (s', P(c := p))"
| sys_call: "P c = Done r \<Longrightarrow> calls c s p \<Longrightarrow> sys_step calls allowed (s, P) c (s, P(c := p))"

inductive sys_reach :: "(nat \<Rightarrow> 's \<Rightarrow> ('s, 'r) prog \<Rightarrow> bool) \<Rightarrow> (nat \<Rightarrow> 's \<Rightarrow> 's \<Rightarrow> bool) \<Rightarrow>
    's \<times> ('s, 'r) threads \<Rightarrow> 's \<times> ('s, 'r) threads \<Rightarrow> bool"
  for calls allowed where
  reach_refl: "sys_reach calls allowed x x"
| reach_step: "sys_reach calls allowed x y \<Longrightarrow> sys_step calls allowed y c z \<Longrightarrow> sys_reach calls allowed x z"

section \<open>Proofs of programs under interference\<close>

locale rely_guarantee =
  fixes Inv :: "'s \<Rightarrow> bool"
    and guar :: "nat \<Rightarrow> 's \<Rightarrow> 's \<Rightarrow> bool"
    and allowed :: "nat \<Rightarrow> 's \<Rightarrow> 's \<Rightarrow> bool"
    and idle :: "nat \<Rightarrow> 's \<Rightarrow> bool"
begin

text \<open>An assertion is stable for \<open>c\<close> when no step of another connection invalidates it.\<close>

definition stable :: "nat \<Rightarrow> ('s \<Rightarrow> bool) \<Rightarrow> bool" where
  "stable c A \<longleftrightarrow> (\<forall>d s s'. d \<noteq> c \<longrightarrow> Inv s \<longrightarrow> Inv s' \<longrightarrow> guar d s s' \<longrightarrow> allowed d s s' \<longrightarrow> A s \<longrightarrow> A s')"

lemma stableD:
  assumes "stable c A" and "d \<noteq> c" and "Inv s" and "Inv s'" and "guar d s s'" and "allowed d s s'" and "A s"
  shows "A s'"
  using assms unfolding stable_def by blast

lemma stableI:
  assumes "\<And>d s s'. d \<noteq> c \<Longrightarrow> Inv s \<Longrightarrow> Inv s' \<Longrightarrow> guar d s s' \<Longrightarrow> allowed d s s' \<Longrightarrow> A s \<Longrightarrow> A s'"
  shows "stable c A"
  using assms unfolding stable_def by blast

lemma stable_conj: "stable c A \<Longrightarrow> stable c B \<Longrightarrow> stable c (\<lambda>s. A s \<and> B s)"
  unfolding stable_def by blast

text \<open>\<open>runs_ok c A p\<close>: started in a state with the assertion \<open>A\<close>, the program keeps the invariant and the
  guarantee whatever the other connections do, and ends idle.\<close>

inductive runs_ok :: "nat \<Rightarrow> ('s \<Rightarrow> bool) \<Rightarrow> ('s, 'r) prog \<Rightarrow> bool" for c where
  runs_Done: "stable c A \<Longrightarrow> (\<And>s. Inv s \<Longrightarrow> A s \<Longrightarrow> idle c s) \<Longrightarrow> runs_ok c A (Done r)"
| runs_Atom: "stable c A \<Longrightarrow>
    (\<And>e s s' p. Inv s \<Longrightarrow> A s \<Longrightarrow> f e s = (s', p) \<Longrightarrow> allowed c s s' \<Longrightarrow>
       Inv s' \<and> guar c s s' \<and> (\<exists>B. B s' \<and> runs_ok c B p)) \<Longrightarrow>
    runs_ok c A (Atom f)"

inductive_cases runs_ok_DoneE: "runs_ok c A (Done r)"
inductive_cases runs_ok_AtomE: "runs_ok c A (Atom f)"

lemma runs_stable: "runs_ok c A p \<Longrightarrow> stable c A"
  by (auto elim: runs_ok.cases)

lemma runs_pre:
  assumes "runs_ok c B p" and "stable c A" and "\<And>s. Inv s \<Longrightarrow> A s \<Longrightarrow> B s"
  shows "runs_ok c A p"
  using assms(1)
proof cases
  case (runs_Done r)
  then show ?thesis using assms(2,3) by (auto intro: runs_ok.runs_Done)
next
  case (runs_Atom f)
  show ?thesis
    unfolding runs_Atom(1) by (rule runs_ok.runs_Atom [OF assms(2)]) (rule runs_Atom(3) [OF _ assms(3)])
qed

text \<open>An access whose effect is known: the next program and its assertion depend on the answer and the
  old state.\<close>

lemma runs_access:
  assumes "stable c A"
    and "\<And>e s. Inv s \<Longrightarrow> A s \<Longrightarrow> allowed c s (fst (f e s)) \<Longrightarrow>
      Inv (fst (f e s)) \<and> guar c s (fst (f e s)) \<and> (\<exists>B. B (fst (f e s)) \<and> runs_ok c B (snd (f e s)))"
  shows "runs_ok c A (Atom f)"
  by (rule runs_Atom [OF assms(1)]) (metis assms(2) fst_conv snd_conv)

text \<open>The state of a system in which every connection is at a proved point.\<close>

definition sys_ok :: "'s \<times> ('s, 'r) threads \<Rightarrow> bool" where
  "sys_ok x \<longleftrightarrow> Inv (fst x) \<and> (\<forall>c. \<exists>A. A (fst x) \<and> runs_ok c A (snd x c))"

lemma sys_ok_access:
  assumes "sys_ok (s, P)" and "P c = Atom f" and "f e s = (s', p)" and "allowed c s s'"
  shows "sys_ok (s', P(c := p))" and "guar c s s'"
proof -
  obtain A where A: "A s" "runs_ok c A (Atom f)" using assms(1,2) by (auto simp: sys_ok_def dest: spec [of _ c])
  have inv: "Inv s" using assms(1) by (simp add: sys_ok_def)
  have *: "Inv s' \<and> guar c s s' \<and> (\<exists>B. B s' \<and> runs_ok c B p)"
    using A(2) by (rule runs_ok_AtomE) (use inv A(1) assms(3,4) in blast)
  then show "guar c s s'" by simp
  have "\<exists>B. B s' \<and> runs_ok d B ((P(c := p)) d)" for d
  proof (cases "d = c")
    case False
    obtain B where B: "B s" "runs_ok d B (P d)" using assms(1) by (auto simp: sys_ok_def)
    have "B s'" by (rule stableD [OF runs_stable [OF B(2)], of c]) (use False inv * assms(4) B(1) in auto)
    then show ?thesis using B(2) False by auto
  qed (use * in auto)
  then show "sys_ok (s', P(c := p))" using * by (simp add: sys_ok_def)
qed

lemma sys_ok_idle:
  assumes "sys_ok (s, P)" and "P c = Done r"
  shows "idle c s"
proof -
  obtain A where A: "A s" "runs_ok c A (Done r)" using assms by (auto simp: sys_ok_def dest: spec [of _ c])
  show ?thesis using A(2) by (rule runs_ok_DoneE) (use A(1) assms(1) in \<open>auto simp: sys_ok_def\<close>)
qed

end

text \<open>A client: every program that an idle connection may start is proved.\<close>

locale rg_client = rely_guarantee +
  fixes calls :: "nat \<Rightarrow> 'a \<Rightarrow> ('a, 'r) prog \<Rightarrow> bool"
  assumes call_ok: "Inv s \<Longrightarrow> idle c s \<Longrightarrow> calls c s p \<Longrightarrow> \<exists>A. A s \<and> runs_ok c A p"
begin

lemma sys_ok_step:
  assumes "sys_step calls allowed (s, P) c (s', P')" and "sys_ok (s, P)"
  shows "sys_ok (s', P') \<and> (s' = s \<or> guar c s s' \<and> allowed c s s')"
  using assms(1)
proof cases
  case (sys_access f e p)
  then show ?thesis using sys_ok_access [OF assms(2) sys_access(2-4)] by simp
next
  case (sys_call r p)
  obtain A where A: "A s" "runs_ok c A p"
    using call_ok [OF _ sys_ok_idle [OF assms(2) sys_call(3)] sys_call(4)] assms(2) by (auto simp: sys_ok_def)
  have "\<exists>B. B s \<and> runs_ok d B ((P(c := p)) d)" for d using A assms(2) by (cases "d = c") (auto simp: sys_ok_def)
  then show ?thesis using assms(2) sys_call by (simp add: sys_ok_def)
qed

lemma sys_ok_reach:
  assumes "sys_reach calls allowed x y" and "sys_ok x"
  shows "sys_ok y"
  using assms
proof (induction rule: sys_reach.induct)
  case (reach_step x y c z)
  then show ?case using sys_ok_step [of "fst y" "snd y" c "fst z" "snd z"] by simp
qed

end

end
