(* ===== verification/Wal_Locks.thy ===== *)
theory Wal_Locks
  imports Wal_Checkpoint Rely_Guarantee
begin

text \<open>
  The locking protocol of \<^verbatim>\<open>wal.c\<close>: read transactions with read marks, write transactions, the restart of
  the log and the checkpoint, as programs that several connections execute at the same time on one
  shared memory. Every access to shared memory, to the files and to the lock table is one atomic step, so
  the interleavings of the model are those of the code; a connection reads and writes its own fields
  (\<^verbatim>\<open>pWal->hdr\<close>, \<^verbatim>\<open>pWal->readLock\<close>) together with the access before.

  Functions are in continuation-passing style: the last argument is what the caller does with the
  result. The published header is read and written as a whole, since the code detects torn copies by its
  second copy and its checksum and then reads again (\<open>walIndexTryHdr\<close>). The change counter and the salt are
  naturals: the protocol compares headers for equality and relies on them not to repeat. The content of
  the wal-index and of the log file is the list of frames that the theories of the wal-index and of the log
  writer establish.
\<close>

section \<open>The shared state\<close>

record walIndexHdr =
  hSalt :: nat
  iChg :: nat
  mxFr :: nat
  nPg :: u32

datatype walAccess = WAL_RDWR | WAL_RDONLY | WAL_SHM_RDONLY

text \<open>A connection, with the masks of the locks it holds (\<^verbatim>\<open>unixShm\<close>). \<^verbatim>\<open>pWal->writeLock\<close> and \<^verbatim>\<open>pWal->ckptLock\<close> are set
  exactly while the lock is in the mask. The field \<open>snap\<close> is not part of the code: it is the published header of
  the transaction that the connection reads, for the specification.\<close>

record conn =
  chdr :: walIndexHdr
  readLock :: "nat option"
  readOnly :: walAccess
  sharedMask :: "nat set"
  exclMask :: "nat set"
  snap :: walIndexHdr

text \<open>Shared memory and files. The last three fields are for the specification: \<open>hist\<close> gives the content of the
  database for every header that was published, \<open>hw\<close> is the last frame of the current log that a
  checkpoint may have copied, and \<open>resetting\<close> marks the moment of a restart in which the header is
  published and \<^verbatim>\<open>nBackfill\<close> is not yet cleared.\<close>

record shm =
  nConn :: nat
  con :: "nat \<Rightarrow> conn"
  hdr :: walIndexHdr
  nBack :: nat
  marks :: "nat list"
  frames :: "(u32 \<times> bytes) list"
  dbFile :: "u32 \<Rightarrow> bytes"
  hist :: "walIndexHdr \<Rightarrow> (u32 \<Rightarrow> bytes) option"
  hw :: nat
  resetting :: bool

type_synonym wprog = "(shm, rcode) prog"

definition upd :: "nat \<Rightarrow> (conn \<Rightarrow> conn) \<Rightarrow> shm \<Rightarrow> shm" where
  "upd c f s = s \<lparr> con := (con s)(c := f (con s c)) \<rparr>"

section \<open>Locks\<close>

definition WAL_WRITE_LOCK :: nat where "WAL_WRITE_LOCK = 0"
definition WAL_CKPT_LOCK :: nat where "WAL_CKPT_LOCK = 1"
definition WAL_RECOVER_LOCK :: nat where "WAL_RECOVER_LOCK = 2"
definition WAL_READ_LOCK :: "nat \<Rightarrow> nat" where "WAL_READ_LOCK i = 3 + i"

text \<open>The three branches of \<^verbatim>\<open>unixShmLock\<close>; a lock is refused when a connection holds a conflicting one, or when the
  system call fails.\<close>

definition shmShared :: "nat \<Rightarrow> nat \<Rightarrow> rcode \<Rightarrow> shm \<Rightarrow> shm \<times> rcode" where
  "shmShared c ofst e s =
     (if \<not> list_all (\<lambda>x. ofst \<notin> exclMask (con s x)) [0..<nConn s] then (s, SQLITE_BUSY)
      else if e \<noteq> SQLITE_OK then (s, e)
      else (upd c (\<lambda>p. p \<lparr> sharedMask := insert ofst (sharedMask p) \<rparr>) s, SQLITE_OK))"

definition shmExclusive :: "nat \<Rightarrow> nat \<Rightarrow> nat \<Rightarrow> rcode \<Rightarrow> shm \<Rightarrow> shm \<times> rcode" where
  "shmExclusive c ofst n e s =
     (if \<not> list_all (\<lambda>x. {ofst..<ofst + n} \<inter> (exclMask (con s x) \<union> sharedMask (con s x)) = {}) [0..<nConn s] then (s, SQLITE_BUSY)
      else if e \<noteq> SQLITE_OK then (s, e)
      else (upd c (\<lambda>p. p \<lparr> exclMask := {ofst..<ofst + n} \<union> exclMask p \<rparr>) s, SQLITE_OK))"

text \<open>The operating system does not refuse the release of a lock: when it does, the code keeps its record of the
  locks unchanged and the callers ignore the result, which is not part of the model.\<close>

definition shmUnlock :: "nat \<Rightarrow> nat \<Rightarrow> nat \<Rightarrow> shm \<Rightarrow> shm" where
  "shmUnlock c ofst n s =
     upd c (\<lambda>p. p \<lparr> exclMask := exclMask p - {ofst..<ofst + n}, sharedMask := sharedMask p - {ofst..<ofst + n} \<rparr>) s"

definition walLockShared :: "nat \<Rightarrow> nat \<Rightarrow> (rcode \<Rightarrow> wprog) \<Rightarrow> wprog" where
  "walLockShared c l k = Atom (\<lambda>e s. case shmShared c l e s of (s, rc) \<Rightarrow> (s, k rc))"

definition walUnlockShared :: "nat \<Rightarrow> nat \<Rightarrow> wprog \<Rightarrow> wprog" where
  "walUnlockShared c l k = Atom (\<lambda>e s. (shmUnlock c l 1 s, k))"

definition walLockExclusive :: "nat \<Rightarrow> nat \<Rightarrow> nat \<Rightarrow> (rcode \<Rightarrow> wprog) \<Rightarrow> wprog" where
  "walLockExclusive c l n k = Atom (\<lambda>e s. case shmExclusive c l n e s of (s, rc) \<Rightarrow> (s, k rc))"

definition walUnlockExclusive :: "nat \<Rightarrow> nat \<Rightarrow> nat \<Rightarrow> wprog \<Rightarrow> wprog" where
  "walUnlockExclusive c l n k = Atom (\<lambda>e s. (shmUnlock c l n s, k))"

text \<open>A value of the shared state or of the connection.\<close>

definition look :: "(shm \<Rightarrow> 'a) \<Rightarrow> ('a \<Rightarrow> wprog) \<Rightarrow> wprog" where
  "look f k = Atom (\<lambda>e s. (s, k (f s)))"

definition change :: "(shm \<Rightarrow> shm) \<Rightarrow> wprog \<Rightarrow> wprog" where
  "change f k = Atom (\<lambda>e s. (f s, k))"

text \<open>A call of the operating system without an effect on the modelled state: it can fail.\<close>

definition osCall :: "(rcode \<Rightarrow> wprog) \<Rightarrow> wprog" where
  "osCall k = Atom (\<lambda>e s. (s, k e))"

text \<open>\<^verbatim>\<open>walBusyLock\<close>: the busy handler asks for another attempt at most \<open>n\<close> times.\<close>

primrec busyLock :: "nat \<Rightarrow> bool \<Rightarrow> nat \<Rightarrow> nat \<Rightarrow> nat \<Rightarrow> (rcode \<Rightarrow> wprog) \<Rightarrow> wprog" where
  "busyLock c xBusy 0 l m k = walLockExclusive c l m k"
| "busyLock c xBusy (Suc n) l m k =
     walLockExclusive c l m (\<lambda>rc. if xBusy \<and> rc = SQLITE_BUSY then busyLock c xBusy n l m k else k rc)"

section \<open>Read transactions\<close>

definition loadHdr :: "nat \<Rightarrow> shm \<Rightarrow> shm" where
  "loadHdr c s = upd c (\<lambda>p. p \<lparr> chdr := hdr s \<rparr>) s"

text \<open>The answer of the operating system stands for the outcome of the two comparisons: a torn header is seen
  when it is not \<open>SQLITE_OK\<close>. The continuation gets \<^verbatim>\<open>badHdr\<close> and \<^verbatim>\<open>*pChanged\<close>.\<close>

definition walIndexTryHdr :: "nat \<Rightarrow> (bool \<Rightarrow> bool \<Rightarrow> wprog) \<Rightarrow> wprog" where
  "walIndexTryHdr c k = Atom (\<lambda>e s.
     if e \<noteq> SQLITE_OK then (s, k True False) else (loadHdr c s, k False (chdr (con s c) \<noteq> hdr s)))"

text \<open>Page 0 of the wal-index is mapped when the connection has been opened, so that \<^verbatim>\<open>walIndexPage\<close> does not fail.
  Under the write lock nobody else writes the header, so the second attempt succeeds unless the file is
  damaged; recovery is in the theory of the log file. The version number of the format is not a variable.\<close>

definition walIndexReadHdr :: "nat \<Rightarrow> (rcode \<Rightarrow> bool \<Rightarrow> wprog) \<Rightarrow> wprog" where
  "walIndexReadHdr c k = walIndexTryHdr c (\<lambda>badHdr changed.
     if \<not> badHdr then k SQLITE_OK changed
     else look (\<lambda>s. readOnly (con s c)) (\<lambda>ro.
       if ro = WAL_SHM_RDONLY then
         walLockShared c WAL_WRITE_LOCK (\<lambda>rc.
           if rc = SQLITE_OK then walUnlockShared c WAL_WRITE_LOCK (k SQLITE_READONLY_RECOVERY False) else k rc False)
       else
         walLockExclusive c WAL_WRITE_LOCK 1 (\<lambda>rc.
           if rc = SQLITE_OK then
             Atom (\<lambda>e s. (loadHdr c s, walUnlockExclusive c WAL_WRITE_LOCK 1 (k SQLITE_OK (chdr (con s c) \<noteq> hdr s))))
           else k rc False)))"

text \<open>The largest read mark that does not exceed the header, with its index.\<close>

primrec scanMarks :: "nat \<Rightarrow> nat list \<Rightarrow> nat \<Rightarrow> nat \<Rightarrow> (nat \<Rightarrow> nat \<Rightarrow> wprog) \<Rightarrow> wprog" where
  "scanMarks c [] mxReadMark mxI k = k mxReadMark mxI"
| "scanMarks c (i # is) mxReadMark mxI k =
     look (\<lambda>s. (marks s ! i, mxFr (chdr (con s c)))) (\<lambda>(thisMark, mx).
       if mxReadMark \<le> thisMark \<and> thisMark \<le> mx then scanMarks c is thisMark i k
       else scanMarks c is mxReadMark mxI k)"

text \<open>An unused mark is moved to the end of the log; \<open>kerr\<close> returns an error.\<close>

primrec raiseMark :: "nat \<Rightarrow> nat list \<Rightarrow> rcode \<Rightarrow> nat \<Rightarrow> nat \<Rightarrow> (rcode \<Rightarrow> wprog) \<Rightarrow> (rcode \<Rightarrow> nat \<Rightarrow> nat \<Rightarrow> wprog) \<Rightarrow> wprog" where
  "raiseMark c [] rc mxReadMark mxI kerr k = k rc mxReadMark mxI"
| "raiseMark c (i # is) rc0 mxReadMark mxI kerr k =
     walLockExclusive c (WAL_READ_LOCK i) 1 (\<lambda>rc.
       if rc = SQLITE_OK then
         look (\<lambda>s. mxFr (chdr (con s c))) (\<lambda>mx.
           change (\<lambda>s. s \<lparr> marks := (marks s)[i := mx] \<rparr>)
             (walUnlockExclusive c (WAL_READ_LOCK i) 1 (k SQLITE_OK mx i)))
       else if rc \<noteq> SQLITE_BUSY then kerr rc
       else raiseMark c is rc mxReadMark mxI kerr k)"

text \<open>The lock on the chosen mark, and the check that neither the mark nor the header has changed; both
  comparisons are one access, since the mark cannot change under the lock. The continuation of a whole
  attempt gets \<open>None\<close> for \<^verbatim>\<open>WAL_RETRY\<close>.\<close>

definition startRead :: "nat \<Rightarrow> nat \<Rightarrow> shm \<Rightarrow> shm" where
  "startRead c i s = upd c (\<lambda>p. p \<lparr> readLock := Some i, snap := hdr s \<rparr>) s"

definition useMark :: "nat \<Rightarrow> nat \<Rightarrow> nat \<Rightarrow> (rcode option \<Rightarrow> wprog) \<Rightarrow> wprog" where
  "useMark c mxReadMark mxI k =
     walLockShared c (WAL_READ_LOCK mxI) (\<lambda>rc.
       if rc \<noteq> SQLITE_OK then k (if rc = SQLITE_BUSY then None else Some rc)
       else Atom (\<lambda>e s.
         if marks s ! mxI \<noteq> mxReadMark \<or> hdr s \<noteq> chdr (con s c)
         then (s, walUnlockShared c (WAL_READ_LOCK mxI) (k None))
         else (startRead c mxI s, k (Some SQLITE_OK))))"

definition tryMarks :: "nat \<Rightarrow> rcode \<Rightarrow> (rcode option \<Rightarrow> wprog) \<Rightarrow> wprog" where
  "tryMarks c rc k = scanMarks c [1..<WAL_NREADER] 0 0 (\<lambda>mxReadMark mxI.
     look (\<lambda>s. (readOnly (con s c), mxFr (chdr (con s c)))) (\<lambda>(ro, mx).
       let k' = (\<lambda>rc mxReadMark mxI. if mxI = 0 then k (if rc = SQLITE_BUSY then None else Some SQLITE_READONLY_CANTLOCK)
                                     else useMark c mxReadMark mxI k)
       in if ro \<noteq> WAL_SHM_RDONLY \<and> (mxReadMark < mx \<or> mxI = 0)
          then raiseMark c [1..<WAL_NREADER] rc mxReadMark mxI (\<lambda>rc. k (Some rc)) k'
          else k' rc mxReadMark mxI))"

text \<open>The case of a log that is completely in the database file.\<close>

definition tryLock0 :: "nat \<Rightarrow> (rcode option \<Rightarrow> wprog) \<Rightarrow> wprog" where
  "tryLock0 c k = look (\<lambda>s. nBack s = mxFr (chdr (con s c))) (\<lambda>backfilled.
     if backfilled then
       walLockShared c (WAL_READ_LOCK 0) (\<lambda>rc.
         if rc = SQLITE_OK then
           Atom (\<lambda>e s. if hdr s \<noteq> chdr (con s c) then (s, walUnlockShared c (WAL_READ_LOCK 0) (k None))
                       else (startRead c 0 s, k (Some SQLITE_OK)))
         else if rc \<noteq> SQLITE_BUSY then k (Some rc)
         else tryMarks c rc k)
     else tryMarks c SQLITE_OK k)"

text \<open>The delays of the first lines have no effect on the state.\<close>

definition walTryBeginRead :: "nat \<Rightarrow> bool \<Rightarrow> nat \<Rightarrow> (rcode option \<Rightarrow> wprog) \<Rightarrow> wprog" where
  "walTryBeginRead c useWal cnt k =
     (if cnt > 100 then k (Some SQLITE_PROTOCOL)
      else if useWal then tryMarks c SQLITE_OK k
      else walIndexReadHdr c (\<lambda>rc changed.
        if rc = SQLITE_BUSY then
          walLockShared c WAL_RECOVER_LOCK (\<lambda>rc.
            if rc = SQLITE_OK then walUnlockShared c WAL_RECOVER_LOCK (k None)
            else k (Some (if rc = SQLITE_BUSY then SQLITE_BUSY_RECOVERY else rc)))
        else if rc \<noteq> SQLITE_OK then k (Some rc)
        else tryLock0 c k))"

text \<open>The loop over \<^verbatim>\<open>WAL_RETRY\<close>: attempt number \<open>cnt\<close> is the one with \<open>101 - cnt\<close> attempts behind it. Attempt 101
  returns, so that the value for 0 is not reached.\<close>

primrec tryLoop :: "nat \<Rightarrow> bool \<Rightarrow> nat \<Rightarrow> (rcode \<Rightarrow> wprog) \<Rightarrow> wprog" where
  "tryLoop c useWal 0 k = k SQLITE_PROTOCOL"
| "tryLoop c useWal (Suc n) k = walTryBeginRead c useWal (101 - n) (\<lambda>r.
     case r of None \<Rightarrow> tryLoop c useWal n k | Some rc \<Rightarrow> k rc)"

definition sqlite3WalBeginReadTransaction :: "nat \<Rightarrow> wprog" where
  "sqlite3WalBeginReadTransaction c = tryLoop c False 101 Done"

definition endRead :: "nat \<Rightarrow> shm \<Rightarrow> shm" where
  "endRead c s = (case readLock (con s c) of None \<Rightarrow> s
     | Some i \<Rightarrow> upd c (\<lambda>p. p \<lparr> readLock := None \<rparr>) (shmUnlock c (WAL_READ_LOCK i) 1 s))"

definition endWrite :: "nat \<Rightarrow> wprog \<Rightarrow> wprog" where
  "endWrite c k = look (\<lambda>s. WAL_WRITE_LOCK \<in> exclMask (con s c)) (\<lambda>writeLock.
     if writeLock then walUnlockExclusive c WAL_WRITE_LOCK 1 k else k)"

definition sqlite3WalEndReadTransaction :: "nat \<Rightarrow> wprog" where
  "sqlite3WalEndReadTransaction c = endWrite c (change (endRead c) (Done SQLITE_OK))"

section \<open>Write transactions\<close>

definition sqlite3WalBeginWriteTransaction :: "nat \<Rightarrow> wprog" where
  "sqlite3WalBeginWriteTransaction c = look (\<lambda>s. readOnly (con s c)) (\<lambda>ro.
     if ro \<noteq> WAL_RDWR then Done SQLITE_READONLY
     else walLockExclusive c WAL_WRITE_LOCK 1 (\<lambda>rc.
       if rc \<noteq> SQLITE_OK then Done rc
       else look (\<lambda>s. chdr (con s c) \<noteq> hdr s) (\<lambda>differs.
         if differs then walUnlockExclusive c WAL_WRITE_LOCK 1 (Done SQLITE_BUSY_SNAPSHOT)
         else Done SQLITE_OK)))"

definition sqlite3WalEndWriteTransaction :: "nat \<Rightarrow> wprog" where
  "sqlite3WalEndWriteTransaction c = endWrite c (Done SQLITE_OK)"

text \<open>Rollback: the cached header is read again and the entries of the abandoned frames are removed.\<close>

definition undoWrite :: "nat \<Rightarrow> shm \<Rightarrow> shm" where
  "undoWrite c s = (loadHdr c s) \<lparr> frames := take (mxFr (hdr s)) (frames s) \<rparr>"

definition walUndo :: "nat \<Rightarrow> wprog" where
  "walUndo c = change (undoWrite c) (Done SQLITE_OK)"

text \<open>The accesses of a restart, in the order of the code.\<close>

definition restartHdr :: "nat \<Rightarrow> shm \<Rightarrow> shm" where
  "restartHdr c s =
     (let h = chdr (con s c) \<lparr> mxFr := 0, hSalt := hSalt (chdr (con s c)) + 1 \<rparr>
      in (upd c (\<lambda>p. p \<lparr> chdr := h, snap := h \<rparr>) s)
           \<lparr> hdr := h, hist := (hist s)(h := hist s (hdr s)), hw := 0, resetting := True \<rparr>)"

primrec clearMarks :: "nat list \<Rightarrow> wprog \<Rightarrow> wprog" where
  "clearMarks [] k = k"
| "clearMarks (i # is) k = change (\<lambda>s. s \<lparr> marks := (marks s)[i := READMARK_NOT_USED] \<rparr>) (clearMarks is k)"

definition walRestartLog :: "nat \<Rightarrow> (rcode \<Rightarrow> wprog) \<Rightarrow> wprog" where
  "walRestartLog c k = look (\<lambda>s. readLock (con s c) = Some 0) (\<lambda>lock0.
     if \<not> lock0 then k SQLITE_OK
     else
       let again = change (endRead c) (tryLoop c True 101 k)
       in look (\<lambda>s. nBack s > 0) (\<lambda>some.
            if some then
              walLockExclusive c (WAL_READ_LOCK 1) (WAL_NREADER - 1) (\<lambda>rc.
                if rc = SQLITE_OK then
                  change (restartHdr c)
                    (change (\<lambda>s. s \<lparr> nBack := 0, resetting := False \<rparr>)
                      (change (\<lambda>s. s \<lparr> marks := (marks s)[1 := 0] \<rparr>)
                        (clearMarks [2..<WAL_NREADER]
                          (walUnlockExclusive c (WAL_READ_LOCK 1) (WAL_NREADER - 1) again))))
                else if rc \<noteq> SQLITE_BUSY then k rc
                else again)
            else again))"

text \<open>Frames are written behind the last frame of the transaction. The content of the database after a
  commit is that of the published transaction with the frames of this one on top.\<close>

definition overlay :: "(u32 \<times> bytes) list \<Rightarrow> (u32 \<Rightarrow> bytes) \<Rightarrow> u32 \<Rightarrow> bytes" where
  "overlay fs v q = (let f = lastFrame (map fst fs) q in if f = 0 then v q else snd (fs ! (f - 1)))"

primrec writeFrames :: "nat \<Rightarrow> nat \<Rightarrow> (u32 \<times> bytes) list \<Rightarrow> (rcode \<Rightarrow> wprog) \<Rightarrow> wprog" where
  "writeFrames c iFrame [] k = k SQLITE_OK"
| "writeFrames c iFrame (p # ps) k = Atom (\<lambda>e s.
     if e \<noteq> SQLITE_OK then (s \<lparr> frames := take iFrame (frames s) \<rparr>, k e)
     else (s \<lparr> frames := take iFrame (frames s) @ [p] \<rparr>, writeFrames c (iFrame + 1) ps k))"

definition publish :: "nat \<Rightarrow> nat \<Rightarrow> u32 \<Rightarrow> bool \<Rightarrow> shm \<Rightarrow> shm" where
  "publish c iFrame nTruncate isCommit s =
     (let h = chdr (con s c) \<lparr> mxFr := iFrame \<rparr>;
          h' = (if isCommit then h \<lparr> iChg := iChg h + 1, nPg := nTruncate \<rparr> else h);
          new = drop (mxFr (hdr s)) (take iFrame (frames s))
      in if isCommit
         then (upd c (\<lambda>p. p \<lparr> chdr := h', snap := h' \<rparr>) s)
                \<lparr> hdr := h', hist := (hist s)(h' := map_option (overlay new) (hist s (hdr s))) \<rparr>
         else upd c (\<lambda>p. p \<lparr> chdr := h' \<rparr>) s)"

definition walFrames :: "nat \<Rightarrow> (u32 \<times> bytes) list \<Rightarrow> u32 \<Rightarrow> bool \<Rightarrow> wprog" where
  "walFrames c pList nTruncate isCommit = walRestartLog c (\<lambda>rc.
     if rc \<noteq> SQLITE_OK then Done rc
     else look (\<lambda>s. mxFr (chdr (con s c))) (\<lambda>mx.
       writeFrames c mx pList (\<lambda>rc.
         if rc \<noteq> SQLITE_OK then Done rc
         else change (publish c (mx + length pList) nTruncate isCommit) (Done SQLITE_OK))))"

section \<open>Checkpoints\<close>

text \<open>The loop over the read marks; \<open>kout\<close> is \<^verbatim>\<open>walcheckpoint_out\<close>.\<close>

primrec ckptMarks :: "nat \<Rightarrow> nat \<Rightarrow> nat list \<Rightarrow> rcode \<Rightarrow> bool \<Rightarrow> nat \<Rightarrow> (rcode \<Rightarrow> wprog) \<Rightarrow> (rcode \<Rightarrow> bool \<Rightarrow> nat \<Rightarrow> wprog) \<Rightarrow> wprog" where
  "ckptMarks c n [] rc xBusy mxSafeFrame kout k = k rc xBusy mxSafeFrame"
| "ckptMarks c n (i # is) rc0 xBusy mxSafeFrame kout k =
     look (\<lambda>s. marks s ! i) (\<lambda>y.
       if mxSafeFrame > y then
         busyLock c xBusy n (WAL_READ_LOCK i) 1 (\<lambda>rc.
           if rc = SQLITE_OK then
             change (\<lambda>s. s \<lparr> marks := (marks s)[i := if i = 1 then mxSafeFrame else READMARK_NOT_USED] \<rparr>)
               (walUnlockExclusive c (WAL_READ_LOCK i) 1 (ckptMarks c n is rc xBusy mxSafeFrame kout k))
           else if rc = SQLITE_BUSY then ckptMarks c n is rc False y kout k
           else kout rc)
       else ckptMarks c n is rc0 xBusy mxSafeFrame kout k)"

text \<open>The copy of the pages of the iterator. A write that fails may leave a torn page.\<close>

primrec copyLoop :: "nat \<Rightarrow> nat \<Rightarrow> nat \<Rightarrow> u32 \<Rightarrow> (u32 \<times> nat) list \<Rightarrow> (rcode \<Rightarrow> wprog) \<Rightarrow> wprog" where
  "copyLoop c nb mxSafeFrame mxPage [] k = k SQLITE_OK"
| "copyLoop c nb mxSafeFrame mxPage (x # xs) k =
     (let (iDbpage, iFrame) = x in
      if iFrame \<le> nb \<or> iFrame > mxSafeFrame \<or> iDbpage > mxPage
      then copyLoop c nb mxSafeFrame mxPage xs k
      else Atom (\<lambda>e s.
        (s, if e \<noteq> SQLITE_OK then k e
            else let zBuf = snd (frames s ! (iFrame - 1)) in
              Atom (\<lambda>e s.
                if e \<noteq> SQLITE_OK then (s \<lparr> dbFile := (dbFile s)(iDbpage := []) \<rparr>, k e)
                else (s \<lparr> dbFile := (dbFile s)(iDbpage := zBuf) \<rparr>, copyLoop c nb mxSafeFrame mxPage xs k)))))"

definition truncDb :: "u32 \<Rightarrow> shm \<Rightarrow> shm" where
  "truncDb n s = s \<lparr> dbFile := (\<lambda>q. if q \<le> n then dbFile s q else []) \<rparr>"

text \<open>The part under the read lock 0. The last argument of \<^verbatim>\<open>k\<close> is the result code.\<close>

definition backfill :: "nat \<Rightarrow> bool \<Rightarrow> nat \<Rightarrow> (u32 \<times> nat) list \<Rightarrow> (rcode \<Rightarrow> wprog) \<Rightarrow> wprog" where
  "backfill c sync mxSafeFrame pages k =
     Atom (\<lambda>e s. (s \<lparr> hw := max (hw s) mxSafeFrame \<rparr>,
       let nb = nBack s; mxPage = nPg (chdr (con s c));
           k' = (\<lambda>rc. walUnlockExclusive c (WAL_READ_LOCK 0) 1 (k rc));
           done = change (\<lambda>s. s \<lparr> nBack := mxSafeFrame \<rparr>) (k' SQLITE_OK);
           finish = look (\<lambda>s. mxSafeFrame = mxFr (hdr s)) (\<lambda>all.
             if all then
               Atom (\<lambda>e s. if e \<noteq> SQLITE_OK then (s, k' e)
                 else (truncDb mxPage s,
                   if sync then osCall (\<lambda>rc. if rc = SQLITE_OK then done else k' rc) else done))
             else done);
           copy = osCall (\<lambda>rc. if rc = SQLITE_OK then
             copyLoop c nb mxSafeFrame mxPage pages (\<lambda>rc. if rc = SQLITE_OK then finish else k' rc) else k' rc)
       in if sync then osCall (\<lambda>rc. if rc = SQLITE_OK then copy else k' rc) else copy))"

definition ckptWait :: "nat \<Rightarrow> nat \<Rightarrow> ckptMode \<Rightarrow> bool \<Rightarrow> rcode \<Rightarrow> (rcode \<Rightarrow> wprog) \<Rightarrow> wprog" where
  "ckptWait c n eMode xBusy rc k =
     (let rc = (if rc = SQLITE_BUSY then SQLITE_OK else rc) in
      if rc = SQLITE_OK \<and> eMode \<noteq> CHECKPOINT_PASSIVE then
        look (\<lambda>s. nBack s < mxFr (chdr (con s c))) (\<lambda>partial.
          if partial then k SQLITE_BUSY
          else if eMode = CHECKPOINT_RESTART then
            busyLock c xBusy n (WAL_READ_LOCK 1) (WAL_NREADER - 1) (\<lambda>rc.
              if rc = SQLITE_OK then walUnlockExclusive c (WAL_READ_LOCK 1) (WAL_NREADER - 1) (k rc) else k rc)
          else k rc)
      else k rc)"

definition ckptPages :: "nat \<Rightarrow> shm \<Rightarrow> (u32 \<times> nat) list" where
  "ckptPages c s = (let fs = map fst (take (mxFr (chdr (con s c))) (frames s))
                    in map (\<lambda>q. (q, lastFrame fs q)) (pagesAfter fs 0))"

text \<open>The whole function; the answer of the operating system in the second access is that of the allocation
  of the iterator.\<close>

definition checkpoint :: "nat \<Rightarrow> nat \<Rightarrow> ckptMode \<Rightarrow> bool \<Rightarrow> bool \<Rightarrow> (rcode \<Rightarrow> wprog) \<Rightarrow> wprog" where
  "checkpoint c n eMode xBusyCall sync k =
     look (\<lambda>s. nBack s \<ge> mxFr (chdr (con s c))) (\<lambda>complete.
       if complete then k SQLITE_OK
       else Atom (\<lambda>e s. (s, if e \<noteq> SQLITE_OK then k e else
         let pages = ckptPages c s; mx = mxFr (chdr (con s c)) in
         ckptMarks c n [1..<WAL_NREADER] SQLITE_OK (eMode \<noteq> CHECKPOINT_PASSIVE \<and> xBusyCall) mx k
           (\<lambda>rc xBusy mxSafeFrame.
             let k' = (\<lambda>rc. ckptWait c n eMode xBusy rc k) in
             look (\<lambda>s. nBack s < mxSafeFrame) (\<lambda>todo.
               if todo then
                 busyLock c xBusy n (WAL_READ_LOCK 0) 1 (\<lambda>rc.
                   if rc = SQLITE_OK then backfill c sync mxSafeFrame pages k' else k' rc)
               else k' rc)))))"

text \<open>The interface function. \<^verbatim>\<open>pnLog\<close> and \<^verbatim>\<open>pnCkpt\<close> are output values; the comparison of the page size is not part of
  this model.\<close>

definition sqlite3WalCheckpoint :: "nat \<Rightarrow> nat \<Rightarrow> ckptMode \<Rightarrow> bool \<Rightarrow> bool \<Rightarrow> wprog" where
  "sqlite3WalCheckpoint c n eMode xBusy sync = look (\<lambda>s. readOnly (con s c)) (\<lambda>ro.
     if ro \<noteq> WAL_RDWR then Done SQLITE_READONLY
     else walLockExclusive c WAL_CKPT_LOCK 1 (\<lambda>rc.
       if rc \<noteq> SQLITE_OK then Done rc
       else
         let release = (\<lambda>isChanged rc eMode2.
               let k = endWrite c (walUnlockExclusive c WAL_CKPT_LOCK 1
                     (Done (if rc = SQLITE_OK \<and> eMode \<noteq> eMode2 then SQLITE_BUSY else rc)))
               in if isChanged then change (upd c (\<lambda>p. p \<lparr> chdr := \<lparr> hSalt = 0, iChg = 0, mxFr = 0, nPg = 0 \<rparr> \<rparr>)) k else k);
             run = (\<lambda>eMode2. walIndexReadHdr c (\<lambda>rc isChanged.
               if rc = SQLITE_OK then checkpoint c n eMode2 xBusy sync (\<lambda>rc. release isChanged rc eMode2)
               else release isChanged rc eMode2))
         in if eMode = CHECKPOINT_PASSIVE then run eMode
            else busyLock c xBusy n WAL_WRITE_LOCK 1 (\<lambda>rc.
              if rc = SQLITE_OK then run eMode
              else if rc = SQLITE_BUSY then run CHECKPOINT_PASSIVE
              else release False rc eMode)))"

section \<open>Clients\<close>

text \<open>What a pager calls, and when: a checkpoint outside of a transaction, a write transaction inside of a read
  transaction; a commit that enlarges the database writes the new pages; a write transaction ends after a
  commit or a rollback.\<close>

datatype walCall = BeginRead | EndRead | BeginWrite | EndWrite | Undo
  | Frames "(u32 \<times> bytes) list" u32 bool | Checkpoint nat ckptMode bool bool

fun callProg :: "nat \<Rightarrow> walCall \<Rightarrow> wprog" where
  "callProg c BeginRead = sqlite3WalBeginReadTransaction c"
| "callProg c EndRead = sqlite3WalEndReadTransaction c"
| "callProg c BeginWrite = sqlite3WalBeginWriteTransaction c"
| "callProg c EndWrite = sqlite3WalEndWriteTransaction c"
| "callProg c Undo = walUndo c"
| "callProg c (Frames pList nTruncate isCommit) = walFrames c pList nTruncate isCommit"
| "callProg c (Checkpoint n eMode xBusy sync) = sqlite3WalCheckpoint c n eMode xBusy sync"

definition writing :: "nat \<Rightarrow> shm \<Rightarrow> bool" where
  "writing c s \<longleftrightarrow> WAL_WRITE_LOCK \<in> exclMask (con s c)"

fun callOk :: "nat \<Rightarrow> shm \<Rightarrow> walCall \<Rightarrow> bool" where
  "callOk c s BeginRead = (readLock (con s c) = None \<and> \<not> writing c s)"
| "callOk c s EndRead = (writing c s \<longrightarrow> chdr (con s c) = hdr s)"
| "callOk c s BeginWrite = (readLock (con s c) \<noteq> None \<and> \<not> writing c s)"
| "callOk c s EndWrite = (writing c s \<and> chdr (con s c) = hdr s)"
| "callOk c s Undo = writing c s"
| "callOk c s (Frames pList nTruncate isCommit) =
     (writing c s \<and> readLock (con s c) \<noteq> None \<and> pages_valid (map fst pList) \<and>
      (isCommit \<longrightarrow> list_all (\<lambda>i. of_nat i \<in> fst ` set (drop (mxFr (hdr s)) (take (mxFr (chdr (con s c))) (frames s)) @ pList))
         [unat (nPg (hdr s)) + 1..<unat nTruncate + 1]))"
| "callOk c s (Checkpoint n eMode xBusy sync) = (readLock (con s c) = None \<and> \<not> writing c s)"

inductive walCalls :: "nat \<Rightarrow> shm \<Rightarrow> wprog \<Rightarrow> bool" where
  "c < nConn s \<Longrightarrow> callOk c s call \<Longrightarrow> walCalls c s (callProg c call)"

text \<open>The page that a connection in a read transaction reads: \<^verbatim>\<open>sqlite3WalFindFrame\<close> and \<^verbatim>\<open>sqlite3WalReadFrame\<close>, or the
  database file.\<close>

definition readPage :: "nat \<Rightarrow> shm \<Rightarrow> u32 \<Rightarrow> bytes" where
  "readPage c s q =
     (let iRead = (if mxFr (chdr (con s c)) = 0 \<or> readLock (con s c) = Some 0 then 0
                   else lastFrame (map fst (take (mxFr (chdr (con s c))) (frames s))) q)
      in if iRead = 0 then dbFile s q else snd (frames s ! (iRead - 1)))"

text \<open>A system at the start: the log is empty.\<close>

definition conn0 :: conn where
  "conn0 = \<lparr> chdr = \<lparr> hSalt = 0, iChg = 0, mxFr = 0, nPg = 0 \<rparr>, readLock = None, readOnly = WAL_RDWR,
    sharedMask = {}, exclMask = {}, snap = \<lparr> hSalt = 0, iChg = 0, mxFr = 0, nPg = 0 \<rparr> \<rparr>"

definition shm0 :: "nat \<Rightarrow> u32 \<Rightarrow> (u32 \<Rightarrow> bytes) \<Rightarrow> (nat \<Rightarrow> walAccess) \<Rightarrow> shm" where
  "shm0 n np v ro =
     (let h = \<lparr> hSalt = 1, iChg = 1, mxFr = 0, nPg = np \<rparr>
      in \<lparr> nConn = n, con = (\<lambda>c. conn0 \<lparr> readOnly := ro c \<rparr>), hdr = h, nBack = 0,
           marks = 0 # replicate (WAL_NREADER - 1) READMARK_NOT_USED, frames = [],
           dbFile = v, hist = [h \<mapsto> v], hw = 0, resetting = False \<rparr>)"

end
