(* ===== verification/Wal_Snapshot.thy ===== *)
theory Wal_Snapshot
  imports Wal_Locks
begin

text \<open>
  The invariant of the locking protocol and the guarantee of each connection. The invariant says what a
  published header means: the content of the database that belongs to it can be put together from the log
  and the database file, as long as no frame beyond it has been copied. Each kind of access to the shared
  state has one lemma that it keeps the invariant and fulfils the guarantee.
\<close>

section \<open>The invariant\<close>

declare WAL_WRITE_LOCK_def [simp] WAL_CKPT_LOCK_def [simp] WAL_RECOVER_LOCK_def [simp] WAL_READ_LOCK_def [simp]

definition pagesTo :: "shm \<Rightarrow> walIndexHdr \<Rightarrow> u32 list" where
  "pagesTo s h = map fst (take (mxFr h) (frames s))"

definition content :: "shm \<Rightarrow> nat \<Rightarrow> bytes" where
  "content s f = snd (frames s ! (f - 1))"

text \<open>A header that was published for the log in use.\<close>

definition current :: "shm \<Rightarrow> walIndexHdr \<Rightarrow> bool" where
  "current s h \<longleftrightarrow> hist s h \<noteq> None \<and> hSalt h = hSalt (hdr s)"

definition pageIn :: "u32 \<Rightarrow> walIndexHdr \<Rightarrow> bool" where
  "pageIn q h \<longleftrightarrow> q \<noteq> 0 \<and> q \<le> nPg h"

definition lockInv :: "shm \<Rightarrow> bool" where
  "lockInv s \<longleftrightarrow>
     (\<forall>c d l. l \<in> exclMask (con s c) \<longrightarrow> l \<notin> sharedMask (con s d) \<and> (d \<noteq> c \<longrightarrow> l \<notin> exclMask (con s d))) \<and>
     (\<forall>c \<ge> nConn s. exclMask (con s c) = {} \<and> sharedMask (con s c) = {})"

definition logInv :: "shm \<Rightarrow> bool" where
  "logInv s \<longleftrightarrow> mxFr (hdr s) \<le> length (frames s) \<and> length (marks s) = WAL_NREADER"

definition histInv :: "shm \<Rightarrow> bool" where
  "histInv s \<longleftrightarrow> hist s (hdr s) \<noteq> None \<and> (\<forall>h. hist s h \<noteq> None \<longrightarrow> hSalt h \<le> hSalt (hdr s))
     \<and> (\<forall>h. current s h \<longrightarrow> mxFr h \<le> mxFr (hdr s))"

text \<open>The content that belongs to a header: the last frame of the page, or the database file if nothing behind
  the header has been copied.\<close>

definition viewInv :: "shm \<Rightarrow> bool" where
  "viewInv s \<longleftrightarrow> (\<forall>h v q. hist s h = Some v \<and> hSalt h = hSalt (hdr s) \<and> pageIn q h \<longrightarrow>
     (let f = lastFrame (pagesTo s h) q
      in if f = 0 then hw s \<le> mxFr h \<longrightarrow> dbFile s q = v q else v q = content s f))"

text \<open>Pages that were added to the database after a header have a frame after it.\<close>

definition growInv :: "shm \<Rightarrow> bool" where
  "growInv s \<longleftrightarrow> (\<forall>h h' q. current s h \<and> current s h' \<and> mxFr h \<le> mxFr h' \<and> nPg h < q \<and> q \<le> nPg h' \<longrightarrow>
     mxFr h < lastFrame (pagesTo s h') q)"

definition fillInv :: "shm \<Rightarrow> bool" where
  "fillInv s \<longleftrightarrow> hw s \<le> mxFr (hdr s) \<and> (resetting s \<longrightarrow> mxFr (hdr s) = 0 \<and> 0 < nBack s) \<and>
     (\<not> resetting s \<longrightarrow> nBack s \<le> hw s \<and>
       (\<forall>q. pageIn q (hdr s) \<longrightarrow> (let f = lastFrame (pagesTo s (hdr s)) q
          in 0 < f \<and> f \<le> nBack s \<longrightarrow> dbFile s q = content s f)))"

text \<open>What a read lock guarantees. With the lock 0 the database file is the snapshot; with another lock the
  header belongs to the log in use and no frame behind it has been copied.\<close>

definition snapOk :: "shm \<Rightarrow> walIndexHdr \<Rightarrow> nat \<Rightarrow> bool" where
  "snapOk s h j \<longleftrightarrow> hist s h \<noteq> None \<and>
     (if j = 0 then (\<forall>q. pageIn q h \<longrightarrow> dbFile s q = the (hist s h) q) \<and>
        (hSalt h = hSalt (hdr s) \<longrightarrow> mxFr h = (if resetting s then 0 else nBack s))
      else hSalt h = hSalt (hdr s) \<and> hw s \<le> mxFr h \<and> marks s ! j \<le> mxFr h)"

definition readOk :: "shm \<Rightarrow> conn \<Rightarrow> nat \<Rightarrow> bool" where
  "readOk s p j \<longleftrightarrow> j < WAL_NREADER \<and> WAL_READ_LOCK j \<in> sharedMask p \<and> snapOk s (snap p) j"

definition readInv :: "shm \<Rightarrow> bool" where
  "readInv s \<longleftrightarrow> (\<forall>d j. readLock (con s d) = Some j \<longrightarrow> readOk s (con s d) j)"

definition resetInv :: "shm \<Rightarrow> bool" where
  "resetInv s \<longleftrightarrow> (resetting s \<longrightarrow> (\<exists>d. WAL_WRITE_LOCK \<in> exclMask (con s d) \<and> WAL_READ_LOCK 1 \<in> exclMask (con s d)))"

definition walInv :: "shm \<Rightarrow> bool" where
  "walInv s \<longleftrightarrow> lockInv s \<and> logInv s \<and> histInv s \<and> viewInv s \<and> growInv s \<and> fillInv s \<and> readInv s \<and> resetInv s"

section \<open>The guarantee\<close>

definition walGuar :: "nat \<Rightarrow> shm \<Rightarrow> shm \<Rightarrow> bool" where
  "walGuar c s s' \<longleftrightarrow>
     nConn s' = nConn s \<and> (\<forall>d. d \<noteq> c \<longrightarrow> con s' d = con s d) \<and> hist s \<subseteq>\<^sub>m hist s' \<and>
     (hdr s' \<noteq> hdr s \<longrightarrow> WAL_WRITE_LOCK \<in> exclMask (con s c) \<and> hist s (hdr s') = None) \<and>
     (frames s' \<noteq> frames s \<longrightarrow> WAL_WRITE_LOCK \<in> exclMask (con s c)) \<and>
     (resetting s' \<noteq> resetting s \<longrightarrow> WAL_WRITE_LOCK \<in> exclMask (con s c)) \<and>
     (hSalt (hdr s') = hSalt (hdr s) \<longrightarrow> mxFr (hdr s) \<le> mxFr (hdr s') \<and> hw s \<le> hw s'
        \<and> take (mxFr (hdr s)) (frames s') = take (mxFr (hdr s)) (frames s)) \<and>
     (dbFile s' \<noteq> dbFile s \<longrightarrow> WAL_READ_LOCK 0 \<in> exclMask (con s c)) \<and>
     (nBack s' \<noteq> nBack s \<longrightarrow> WAL_CKPT_LOCK \<in> exclMask (con s c) \<and> WAL_READ_LOCK 0 \<in> exclMask (con s c) \<and> nBack s \<le> nBack s'
        \<or> resetting s) \<and>
     (hdr s' = hdr s \<and> \<not> resetting s \<longrightarrow> \<not> resetting s') \<and>
     (\<forall>j > 0. readLock (con s' c) = Some j \<longrightarrow>
        readLock (con s c) = Some j \<and> snap (con s' c) = snap (con s c) \<or> snap (con s' c) = hdr s')"

text \<open>The restriction on interleavings: the log is not restarted while another connection holds the checkpoint
  lock.\<close>

definition walAllowed :: "nat \<Rightarrow> shm \<Rightarrow> shm \<Rightarrow> bool" where
  "walAllowed c s s' \<longleftrightarrow> (hSalt (hdr s') \<noteq> hSalt (hdr s) \<longrightarrow> (\<forall>d. d \<noteq> c \<longrightarrow> WAL_CKPT_LOCK \<notin> exclMask (con s d)))"

text \<open>An idle connection holds the lock of its read transaction and perhaps the write lock.\<close>

definition writerOk :: "shm \<Rightarrow> conn \<Rightarrow> bool" where
  "writerOk s p \<longleftrightarrow> (readLock p \<noteq> None \<longrightarrow> snap p = hdr s) \<and> hSalt (chdr p) = hSalt (hdr s) \<and> mxFr (hdr s) \<le> mxFr (chdr p)
     \<and> mxFr (chdr p) \<le> length (frames s) \<and> (readLock p = None \<or> readLock p = Some 0 \<longrightarrow> chdr p = hdr s)"

definition walIdle :: "nat \<Rightarrow> shm \<Rightarrow> bool" where
  "walIdle c s \<longleftrightarrow> (let p = con s c in
     sharedMask p = (case readLock p of None \<Rightarrow> {} | Some j \<Rightarrow> {WAL_READ_LOCK j}) \<and> exclMask p \<subseteq> {WAL_WRITE_LOCK} \<and>
     (if WAL_WRITE_LOCK \<in> exclMask p then writerOk s p else readLock p \<noteq> None \<longrightarrow> chdr p = snap p))"

interpretation wal: rely_guarantee walInv walGuar walAllowed walIdle .

section \<open>Accesses to the own connection\<close>

lemma upd_simps [simp]:
  "nConn (upd c f s) = nConn s" "hdr (upd c f s) = hdr s" "nBack (upd c f s) = nBack s" "marks (upd c f s) = marks s"
  "frames (upd c f s) = frames s" "dbFile (upd c f s) = dbFile s" "hist (upd c f s) = hist s" "hw (upd c f s) = hw s"
  "resetting (upd c f s) = resetting s" "con (upd c f s) = (con s)(c := f (con s c))"
  by (simp_all add: upd_def)

lemma current_upd [simp]: "current (upd c f s) = current s"
  by (simp add: current_def fun_eq_iff)

lemma pagesTo_upd [simp]: "pagesTo (upd c f s) = pagesTo s" and content_upd [simp]: "content (upd c f s) = content s"
  by (simp_all add: pagesTo_def content_def fun_eq_iff)

lemma inv_upd [simp]:
  "logInv (upd c f s) = logInv s" "histInv (upd c f s) = histInv s" "viewInv (upd c f s) = viewInv s"
  "growInv (upd c f s) = growInv s" "fillInv (upd c f s) = fillInv s"
  by (simp_all add: logInv_def histInv_def viewInv_def growInv_def fillInv_def)

lemma snapOk_upd [simp]: "snapOk (upd c f s) = snapOk s" and readOk_upd [simp]: "readOk (upd c f s) = readOk s"
  by (simp_all add: snapOk_def readOk_def fun_eq_iff)

lemma frames_same [simp]:
  "pagesTo (s \<lparr> marks := m \<rparr>) = pagesTo s" "content (s \<lparr> marks := m \<rparr>) = content s" "current (s \<lparr> marks := m \<rparr>) = current s"
  "pagesTo (s \<lparr> nBack := n, resetting := b \<rparr>) = pagesTo s" "content (s \<lparr> nBack := n, resetting := b \<rparr>) = content s"
  "current (s \<lparr> nBack := n, resetting := b \<rparr>) = current s"
  "pagesTo (s \<lparr> nBack := n \<rparr>) = pagesTo s" "content (s \<lparr> nBack := n \<rparr>) = content s" "current (s \<lparr> nBack := n \<rparr>) = current s"
  "pagesTo (s \<lparr> hw := n \<rparr>) = pagesTo s" "content (s \<lparr> hw := n \<rparr>) = content s" "current (s \<lparr> hw := n \<rparr>) = current s"
  "pagesTo (s \<lparr> dbFile := w \<rparr>) = pagesTo s" "content (s \<lparr> dbFile := w \<rparr>) = content s" "current (s \<lparr> dbFile := w \<rparr>) = current s"
  by (simp_all add: pagesTo_def content_def current_def fun_eq_iff)

lemma inv_same [simp]:
  "lockInv (s \<lparr> marks := m \<rparr>) = lockInv s" "histInv (s \<lparr> marks := m \<rparr>) = histInv s" "viewInv (s \<lparr> marks := m \<rparr>) = viewInv s"
  "growInv (s \<lparr> marks := m \<rparr>) = growInv s" "fillInv (s \<lparr> marks := m \<rparr>) = fillInv s" "resetInv (s \<lparr> marks := m \<rparr>) = resetInv s"
  "lockInv (s \<lparr> nBack := n, resetting := b \<rparr>) = lockInv s" "logInv (s \<lparr> nBack := n, resetting := b \<rparr>) = logInv s"
  "histInv (s \<lparr> nBack := n, resetting := b \<rparr>) = histInv s" "viewInv (s \<lparr> nBack := n, resetting := b \<rparr>) = viewInv s"
  "growInv (s \<lparr> nBack := n, resetting := b \<rparr>) = growInv s"
  "lockInv (s \<lparr> nBack := n \<rparr>) = lockInv s" "logInv (s \<lparr> nBack := n \<rparr>) = logInv s" "histInv (s \<lparr> nBack := n \<rparr>) = histInv s"
  "viewInv (s \<lparr> nBack := n \<rparr>) = viewInv s" "growInv (s \<lparr> nBack := n \<rparr>) = growInv s" "resetInv (s \<lparr> nBack := n \<rparr>) = resetInv s"
  "lockInv (s \<lparr> hw := n \<rparr>) = lockInv s" "logInv (s \<lparr> hw := n \<rparr>) = logInv s" "histInv (s \<lparr> hw := n \<rparr>) = histInv s"
  "growInv (s \<lparr> hw := n \<rparr>) = growInv s" "resetInv (s \<lparr> hw := n \<rparr>) = resetInv s"
  "lockInv (s \<lparr> dbFile := w \<rparr>) = lockInv s" "logInv (s \<lparr> dbFile := w \<rparr>) = logInv s" "histInv (s \<lparr> dbFile := w \<rparr>) = histInv s"
  "growInv (s \<lparr> dbFile := w \<rparr>) = growInv s" "resetInv (s \<lparr> dbFile := w \<rparr>) = resetInv s"
  by (simp_all add: lockInv_def logInv_def histInv_def viewInv_def growInv_def fillInv_def resetInv_def)

text \<open>The connection may change its cached header and its locks; it must keep the lock of a read
  transaction.\<close>

lemma step_own:
  assumes "walInv s" and "lockInv (upd c f s)"
    and "readLock (f (con s c)) = None \<or> readLock (f (con s c)) = readLock (con s c) \<and> snap (f (con s c)) = snap (con s c)
      \<and> (\<forall>j. readLock (con s c) = Some j \<longrightarrow> WAL_READ_LOCK j \<in> sharedMask (f (con s c)))"
    and "exclMask (con s c) \<subseteq> exclMask (f (con s c)) \<or> \<not> resetting s \<or> WAL_WRITE_LOCK \<notin> exclMask (con s c)"
  shows "walInv (upd c f s) \<and> walGuar c s (upd c f s)"
proof -
  have "readOk s (f (con s c)) j" if "readLock (f (con s c)) = Some j" for j
    using assms(1,3) that by (metis option.distinct(1) readInv_def readOk_def walInv_def)
  then have "readInv (upd c f s)" using assms(1) by (auto simp: readInv_def walInv_def)
  moreover have "resetInv (upd c f s)"
    using assms(1,4) unfolding resetInv_def walInv_def by (auto split: if_splits)
  ultimately show ?thesis using assms(1,2,3) by (auto simp: walInv_def walGuar_def)
qed

lemma step_same: "walInv s \<Longrightarrow> walInv s \<and> walGuar c s s"
  by (auto simp: walGuar_def)


section \<open>Locks\<close>

lemma free_all:
  assumes "lockInv s" and "list_all P [0..<nConn s]" and "\<And>d. exclMask (con s d) = {} \<Longrightarrow> sharedMask (con s d) = {} \<Longrightarrow> P d"
  shows "P d"
  using assms by (cases "d < nConn s") (auto simp: list_all_iff lockInv_def)

lemma step_shared:
  assumes "walInv s" and "c < nConn s" and "shmShared c l e s = (s', rc)"
  shows "walInv s' \<and> walGuar c s s' \<and>
    (rc = SQLITE_OK \<and> s' = upd c (\<lambda>p. p \<lparr> sharedMask := insert l (sharedMask p) \<rparr>) s \<or> rc \<noteq> SQLITE_OK \<and> s' = s)"
proof (cases "rc = SQLITE_OK")
  case True
  then have s': "s' = upd c (\<lambda>p. p \<lparr> sharedMask := insert l (sharedMask p) \<rparr>) s"
    and free: "list_all (\<lambda>x. l \<notin> exclMask (con s x)) [0..<nConn s]"
    using assms(3) by (auto simp: shmShared_def split: if_splits)
  have li: "lockInv s" using assms(1) by (simp add: walInv_def)
  have "l \<notin> exclMask (con s d)" for d using free_all [OF li free, of d] by simp
  then have "lockInv s'" using li assms(2) unfolding s' lockInv_def by auto
  then show ?thesis using step_own [OF assms(1), of c "\<lambda>p. p \<lparr> sharedMask := insert l (sharedMask p) \<rparr>"] True s' assms(1)
    by (auto simp: walInv_def readInv_def readOk_def)
next
  case False
  then show ?thesis using assms step_same by (auto simp: shmShared_def split: if_splits)
qed

lemma step_exclusive:
  assumes "walInv s" and "c < nConn s" and "shmExclusive c l n e s = (s', rc)"
  shows "walInv s' \<and> walGuar c s s' \<and>
    (rc = SQLITE_OK \<and> s' = upd c (\<lambda>p. p \<lparr> exclMask := {l..<l + n} \<union> exclMask p \<rparr>) s \<or> rc \<noteq> SQLITE_OK \<and> s' = s)"
proof (cases "rc = SQLITE_OK")
  case True
  then have s': "s' = upd c (\<lambda>p. p \<lparr> exclMask := {l..<l + n} \<union> exclMask p \<rparr>) s"
    and free: "list_all (\<lambda>x. {l..<l + n} \<inter> (exclMask (con s x) \<union> sharedMask (con s x)) = {}) [0..<nConn s]"
    using assms(3) by (auto simp: shmExclusive_def split: if_splits)
  have li: "lockInv s" using assms(1) by (simp add: walInv_def)
  have "{l..<l + n} \<inter> (exclMask (con s d) \<union> sharedMask (con s d)) = {}" for d using free_all [OF li free, of d] by simp
  then have "lockInv s'" using li assms(2) unfolding s' lockInv_def by (auto simp: disjoint_iff)
  then have "walInv s' \<and> walGuar c s s'"
    unfolding s' by (rule step_own [OF assms(1)]) (use assms(1) in \<open>auto simp: walInv_def readInv_def readOk_def\<close>)
  then show ?thesis using True s' by simp
next
  case False
  then show ?thesis using assms step_same by (auto simp: shmExclusive_def split: if_splits)
qed

lemma step_unlock:
  assumes "walInv s" and "\<forall>j. readLock (con s c) = Some j \<longrightarrow> WAL_READ_LOCK j \<notin> {l..<l + n}"
    and "\<not> resetting s \<or> WAL_WRITE_LOCK \<notin> exclMask (con s c)"
  shows "walInv (shmUnlock c l n s) \<and> walGuar c s (shmUnlock c l n s)"
  unfolding shmUnlock_def
proof (rule step_own [OF assms(1)])
  show "lockInv (upd c (\<lambda>p. p \<lparr> exclMask := exclMask p - {l..<l + n}, sharedMask := sharedMask p - {l..<l + n} \<rparr>) s)"
    using assms(1) unfolding walInv_def lockInv_def by auto
qed (use assms in \<open>auto simp: walInv_def readInv_def readOk_def\<close>)

lemma step_endRead:
  assumes "walInv s" and "\<not> resetting s \<or> WAL_WRITE_LOCK \<notin> exclMask (con s c)"
  shows "walInv (endRead c s) \<and> walGuar c s (endRead c s)"
proof (cases "readLock (con s c)")
  case (Some j)
  let ?l = "{WAL_READ_LOCK j..<WAL_READ_LOCK j + 1}"
  have e: "endRead c s = upd c (\<lambda>p. p \<lparr> exclMask := exclMask p - ?l, sharedMask := sharedMask p - ?l, readLock := None \<rparr>) s"
    using Some by (simp add: endRead_def shmUnlock_def upd_def)
  show ?thesis
    unfolding e
  proof (rule step_own [OF assms(1)])
    show "lockInv (upd c (\<lambda>p. p \<lparr> exclMask := exclMask p - ?l, sharedMask := sharedMask p - ?l, readLock := None \<rparr>) s)"
      using assms(1) unfolding walInv_def lockInv_def by auto
  qed (use assms(2) in auto)
qed (use assms(1) step_same in \<open>auto simp: endRead_def\<close>)

section \<open>Reading transactions\<close>

text \<open>A change of the cached header outside of a read transaction.\<close>

lemma step_chdr:
  assumes "walInv s"
  shows "walInv (upd c (\<lambda>p. p \<lparr> chdr := h \<rparr>) s) \<and> walGuar c s (upd c (\<lambda>p. p \<lparr> chdr := h \<rparr>) s)"
  by (rule step_own [OF assms]) (use assms in \<open>auto simp: walInv_def lockInv_def readInv_def readOk_def\<close>)

lemma lastFrame_bound: "lastFrame (pagesTo s h) q \<le> mxFr h"
  using lastFrame_bounds(1) [of "pagesTo s h" q] by (simp add: pagesTo_def)


lemma step_startRead:
  assumes "walInv s" and "readLock (con s c) = None" and "WAL_READ_LOCK i \<in> sharedMask (con s c)" and "i < WAL_NREADER" and "snapOk s (hdr s) i"
  shows "walInv (startRead c i s) \<and> walGuar c s (startRead c i s)"
proof -
  have "lockInv (startRead c i s)" using assms(1) by (auto simp: startRead_def walInv_def lockInv_def)
  moreover have "readInv (startRead c i s)"
    using assms by (auto simp: startRead_def walInv_def readInv_def readOk_def)
  moreover have "resetInv (startRead c i s)"
    using assms(1) unfolding startRead_def walInv_def resetInv_def by (auto split: if_splits)
  ultimately show ?thesis using assms(1) by (auto simp: startRead_def walInv_def walGuar_def)
qed

text \<open>The whole log is in the database file, so the file is the snapshot.\<close>

lemma snapOk_file:
  assumes "walInv s" and "nBack s = mxFr (hdr s)" and "\<not> resetting s"
  shows "snapOk s (hdr s) 0"
proof -
  obtain v where v: "hist s (hdr s) = Some v" using assms(1) by (auto simp: walInv_def histInv_def)
  have "dbFile s q = v q" if q: "pageIn q (hdr s)" for q
  proof (cases "lastFrame (pagesTo s (hdr s)) q = 0")
    case True
    then show ?thesis using assms(1) v q by (auto simp: walInv_def viewInv_def fillInv_def Let_def)
  next
    case False
    then have "v q = content s (lastFrame (pagesTo s (hdr s)) q)"
      using assms(1) v q by (auto simp: walInv_def viewInv_def Let_def)
    moreover have "dbFile s q = content s (lastFrame (pagesTo s (hdr s)) q)"
      using assms lastFrame_bound [of s "hdr s" q] q False by (auto simp: walInv_def fillInv_def Let_def)
    ultimately show ?thesis by simp
  qed
  then show ?thesis using v assms(2,3) by (auto simp: snapOk_def)
qed

lemma snapOk_mark:
  assumes "walInv s" and "0 < i" and "marks s ! i \<le> mxFr (hdr s)"
  shows "snapOk s (hdr s) i"
  using assms by (auto simp: snapOk_def walInv_def histInv_def fillInv_def)

text \<open>A mark is written under its exclusive lock.\<close>

lemma step_mark:
  assumes "walInv s" and "WAL_READ_LOCK i \<in> exclMask (con s c)"
  shows "walInv (s \<lparr> marks := (marks s)[i := v] \<rparr>) \<and> walGuar c s (s \<lparr> marks := (marks s)[i := v] \<rparr>)"
proof -
  let ?s = "s \<lparr> marks := (marks s)[i := v] \<rparr>"
  have "readOk ?s (con s d) j" if "readLock (con s d) = Some j" for d j
  proof -
    have r: "readOk s (con s d) j" using assms(1) that by (simp add: walInv_def readInv_def)
    then have "j \<noteq> i" using assms by (auto simp: walInv_def lockInv_def readOk_def)
    then show ?thesis using r by (simp add: readOk_def snapOk_def)
  qed
  then have "readInv ?s" by (simp add: readInv_def)
  moreover have "logInv ?s" using assms(1) by (simp add: walInv_def logInv_def)
  ultimately show ?thesis using assms(1) by (auto simp: walInv_def walGuar_def)
qed

section \<open>Restart of the log\<close>

lemma step_restart:
  assumes "walInv s" and "WAL_WRITE_LOCK \<in> exclMask (con s c)" and "{WAL_READ_LOCK 1..<WAL_READ_LOCK 1 + 4} \<subseteq> exclMask (con s c)"
    and "readLock (con s c) = Some 0" and "snap (con s c) = hdr s" and "chdr (con s c) = hdr s" and "0 < nBack s"
  shows "walInv (restartHdr c s) \<and> walGuar c s (restartHdr c s)"
proof -
  define h where "h = hdr s \<lparr> mxFr := 0, hSalt := hSalt (hdr s) + 1 \<rparr>"
  let ?s = "restartHdr c s"
  have s': "?s = (upd c (\<lambda>p. p \<lparr> chdr := h, snap := h \<rparr>) s) \<lparr> hdr := h, hist := (hist s)(h := hist s (hdr s)), hw := 0, resetting := True \<rparr>"
    using assms(6) by (simp add: restartHdr_def h_def Let_def)
  have h: "mxFr h = 0" "hSalt h = Suc (hSalt (hdr s))" "nPg h = nPg (hdr s)" by (simp_all add: h_def)
  have ok: "readOk s (con s c) 0" using assms(1,4) by (simp add: walInv_def readInv_def)
  then obtain v where v: "hist s (hdr s) = Some v" "\<forall>q. pageIn q (hdr s) \<longrightarrow> dbFile s q = v q"
    using assms(5) by (auto simp: readOk_def snapOk_def)
  have new: "hist s g = None" if "hSalt g = hSalt h" for g
    using assms(1) h(2) that by (fastforce simp: walInv_def histInv_def)
  have cur: "current ?s g \<longleftrightarrow> g = h" for g using new [of g] v by (auto simp: current_def s' h(2))
  have pg: "pageIn q h = pageIn q (hdr s)" "pagesTo ?s h = []" for q by (simp_all add: pageIn_def h pagesTo_def)
  have "readOk ?s (con ?s d) j" if l: "readLock (con ?s d) = Some j" for d j
  proof (cases "d = c")
    case True
    then show ?thesis using ok l assms(4) v h by (auto simp: s' readOk_def snapOk_def pg)
  next
    case False
    then have r: "readOk s (con s d) j" using l assms(1) by (simp add: s' walInv_def readInv_def)
    have "j = 0"
    proof (rule ccontr)
      assume "j \<noteq> 0"
      then have "WAL_READ_LOCK j \<in> exclMask (con s c)" using r assms(3) by (auto simp: readOk_def WAL_NREADER_def)
      then show False using r assms(1) by (auto simp: walInv_def lockInv_def readOk_def)
    qed
    moreover have "hSalt (snap (con s d)) \<noteq> hSalt h" using r new by (auto simp: readOk_def snapOk_def)
    ultimately show ?thesis using r False by (auto simp: s' readOk_def snapOk_def)
  qed
  then have "readInv ?s" by (simp add: readInv_def)
  moreover have "viewInv ?s"
    unfolding viewInv_def
  proof (intro allI impI)
    fix g w q
    assume a: "hist ?s g = Some w \<and> hSalt g = hSalt (hdr ?s) \<and> pageIn q g"
    then have g: "g = h" using cur [of g] by (auto simp: current_def)
    have "hist ?s h = Some v" "dbFile ?s = dbFile s" using v by (simp_all add: s')
    then show "let f = lastFrame (pagesTo ?s g) q in if f = 0 then hw ?s \<le> mxFr g \<longrightarrow> dbFile ?s q = w q else w q = content ?s f"
      using a v pg unfolding g by simp
  qed
  moreover have "growInv ?s" using cur by (auto simp: growInv_def)
  moreover have "histInv ?s"
    using assms(1) v cur h(1) by (auto simp: histInv_def walInv_def h(2) s' intro: le_SucI)
  moreover have "WAL_READ_LOCK 1 \<in> exclMask (con s c)" using assms(3) by auto
  then have "resetInv ?s" using assms(2) by (auto simp: s' resetInv_def)
  moreover have "fillInv ?s" "logInv ?s" "lockInv ?s"
    using assms(1,7) h by (auto simp: s' fillInv_def logInv_def lockInv_def walInv_def)
  moreover have "walGuar c s ?s"
    using assms(2,4) new [of h] h(2) by (auto simp: walGuar_def s' map_le_def)
  ultimately show ?thesis by (simp add: walInv_def)
qed

lemma step_clear:
  assumes "walInv s" and "resetting s" and "WAL_WRITE_LOCK \<in> exclMask (con s c)"
  shows "walInv (s \<lparr> nBack := 0, resetting := False \<rparr>) \<and> walGuar c s (s \<lparr> nBack := 0, resetting := False \<rparr>)"
proof -
  let ?s = "s \<lparr> nBack := 0, resetting := False \<rparr>"
  have "readOk ?s (con s d) j" if "readLock (con s d) = Some j" for d j
    using assms(1,2) that by (fastforce simp: walInv_def readInv_def readOk_def snapOk_def)
  then have "readInv ?s" by (simp add: readInv_def)
  moreover have "resetInv ?s" "fillInv ?s"
    using assms(1,2) by (auto simp: walInv_def resetInv_def fillInv_def Let_def)
  ultimately show ?thesis using assms by (auto simp: walInv_def walGuar_def)
qed


section \<open>Writing\<close>

lemma take_eq_mono:
  assumes "m \<le> n" and "take n xs = take n ys"
  shows "take m xs = take m ys"
proof -
  have "take m xs = take m (take n xs)" "take m ys = take m (take n ys)" using assms(1) by (simp_all add: min_def)
  then show ?thesis using assms(2) by simp
qed

text \<open>Frames behind the published header can be replaced under the write lock.\<close>

lemma step_frames:
  assumes "walInv s" and "WAL_WRITE_LOCK \<in> exclMask (con s c)" and "take (mxFr (hdr s)) fs = take (mxFr (hdr s)) (frames s)"
    and "mxFr (hdr s) \<le> length fs"
  shows "walInv (s \<lparr> frames := fs \<rparr>) \<and> walGuar c s (s \<lparr> frames := fs \<rparr>)"
proof -
  let ?s = "s \<lparr> frames := fs \<rparr>"
  have cur: "current ?s = current s" by (simp add: current_def fun_eq_iff)
  have le: "mxFr h \<le> mxFr (hdr s)" if "current s h" for h using assms(1) that by (simp add: walInv_def histInv_def)
  have tk: "take (mxFr h) fs = take (mxFr h) (frames s)" if "current s h" for h
    by (rule take_eq_mono [OF le [OF that] assms(3)])
  have pt: "pagesTo ?s h = pagesTo s h" if "current s h" for h using tk [OF that] by (simp add: pagesTo_def)
  have ct: "content ?s (lastFrame (pagesTo s h) q) = content s (lastFrame (pagesTo s h) q)"
    if "current s h" "lastFrame (pagesTo s h) q \<noteq> 0" for h q
  proof -
    have "lastFrame (pagesTo s h) q - 1 < mxFr h" using lastFrame_bound [of s h q] that(2) by linarith
    then have "fs ! (lastFrame (pagesTo s h) q - 1) = frames s ! (lastFrame (pagesTo s h) q - 1)"
      using tk [OF that(1)] by (metis nth_take)
    then show ?thesis by (simp add: content_def)
  qed
  have hd: "current s (hdr s)" using assms(1) by (simp add: walInv_def histInv_def current_def)
  have "viewInv ?s"
    unfolding viewInv_def
  proof (intro allI impI)
    fix h v q
    assume a: "hist ?s h = Some v \<and> hSalt h = hSalt (hdr ?s) \<and> pageIn q h"
    then have h: "current s h" by (simp add: current_def)
    have "let f = lastFrame (pagesTo s h) q in if f = 0 then hw s \<le> mxFr h \<longrightarrow> dbFile s q = v q else v q = content s f"
      using assms(1) a by (simp add: walInv_def viewInv_def)
    then show "let f = lastFrame (pagesTo ?s h) q in if f = 0 then hw ?s \<le> mxFr h \<longrightarrow> dbFile ?s q = v q else v q = content ?s f"
      using pt [OF h] ct [OF h, of q] by (simp add: Let_def split: if_splits)
  qed
  moreover have "growInv ?s" using assms(1) pt cur by (simp add: walInv_def growInv_def)
  moreover have "histInv ?s" using assms(1) cur by (simp add: walInv_def histInv_def)
  moreover have "fillInv ?s" using assms(1) pt [OF hd] ct [OF hd] by (simp add: walInv_def fillInv_def Let_def)
  moreover have "readInv ?s" using assms(1) by (simp add: walInv_def readInv_def readOk_def snapOk_def)
  moreover have "lockInv ?s" "logInv ?s" "resetInv ?s" using assms(1,4) by (simp_all add: walInv_def lockInv_def logInv_def resetInv_def)
  ultimately show ?thesis using assms(2,3) by (auto simp: walInv_def walGuar_def)
qed

lemma lastFrame_snoc: "lastFrame (xs @ [x]) q = (if x = q then length xs + 1 else lastFrame xs q)"
proof (cases "x = q")
  case True
  have "isLast (xs @ [x]) 0 (length (xs @ [x])) q (length xs + 1)" using True by (auto simp: isLast_def)
  from isLast_lastFrame [OF this] show ?thesis using True by simp
next
  case False
  have "(xs @ [x]) ! (f - 1) = q \<longleftrightarrow> xs ! (f - 1) = q" if "1 \<le> f" "f \<le> length xs" for f
    using that by (subst nth_append) auto
  moreover have "(xs @ [x]) ! (Suc (length xs) - 1) \<noteq> q" using False by simp
  ultimately have "{f \<in> {1..length (xs @ [x])}. (xs @ [x]) ! (f - 1) = q} = {f \<in> {1..length xs}. xs ! (f - 1) = q}"
    by (auto simp: le_Suc_eq)
  then show ?thesis using False by (simp add: lastFrame_def)
qed

lemma lastFrame_append:
  "lastFrame (xs @ ys) q = (if lastFrame ys q = 0 then lastFrame xs q else length xs + lastFrame ys q)"
proof (induction ys rule: rev_induct)
  case (snoc y ys)
  have "lastFrame (xs @ ys @ [y]) q = (if y = q then length (xs @ ys) + 1 else lastFrame (xs @ ys) q)"
    using lastFrame_snoc [of "xs @ ys" y q] by simp
  then show ?case using snoc by (simp add: lastFrame_snoc)
qed simp


text \<open>A commit publishes a header for the frames of the transaction. \<open>pubHdr\<close> is the new header.\<close>

definition pubHdr :: "nat \<Rightarrow> nat \<Rightarrow> u32 \<Rightarrow> shm \<Rightarrow> walIndexHdr" where
  "pubHdr c iFrame nTruncate s = chdr (con s c) \<lparr> mxFr := iFrame, iChg := iChg (chdr (con s c)) + 1, nPg := nTruncate \<rparr>"

definition pubNew :: "nat \<Rightarrow> shm \<Rightarrow> (u32 \<times> bytes) list" where
  "pubNew iFrame s = drop (mxFr (hdr s)) (take iFrame (frames s))"

lemma publish_commit:
  "publish c iFrame nTruncate True s =
     (upd c (\<lambda>p. p \<lparr> chdr := pubHdr c iFrame nTruncate s, snap := pubHdr c iFrame nTruncate s \<rparr>) s)
       \<lparr> hdr := pubHdr c iFrame nTruncate s,
         hist := (hist s)(pubHdr c iFrame nTruncate s := map_option (overlay (pubNew iFrame s)) (hist s (hdr s))) \<rparr>"
  by (simp add: publish_def pubHdr_def pubNew_def Let_def)

lemma lastFrame_pub:
  assumes "mxFr (hdr s) \<le> iFrame" and "iFrame \<le> length (frames s)" and "mxFr h = iFrame"
  shows "lastFrame (pagesTo s h) q = (if lastFrame (map fst (pubNew iFrame s)) q = 0 then lastFrame (pagesTo s (hdr s)) q
    else mxFr (hdr s) + lastFrame (map fst (pubNew iFrame s)) q)"
proof -
  have "take iFrame (frames s) = take (mxFr (hdr s)) (frames s) @ pubNew iFrame s"
    using append_take_drop_id [of "mxFr (hdr s)" "take iFrame (frames s)"] assms(1) by (simp add: pubNew_def min_def)
  then have "pagesTo s h = pagesTo s (hdr s) @ map fst (pubNew iFrame s)" using assms(3) by (simp add: pagesTo_def)
  moreover have "length (pagesTo s (hdr s)) = mxFr (hdr s)" using assms(1,2) by (simp add: pagesTo_def)
  ultimately show ?thesis using lastFrame_append [of "pagesTo s (hdr s)" "map fst (pubNew iFrame s)" q] by simp
qed

lemma overlay_pub:
  assumes "mxFr (hdr s) \<le> iFrame" and "iFrame \<le> length (frames s)" and "lastFrame (map fst (pubNew iFrame s)) q \<noteq> 0"
  shows "overlay (pubNew iFrame s) v q = content s (mxFr (hdr s) + lastFrame (map fst (pubNew iFrame s)) q)"
proof -
  let ?l = "lastFrame (map fst (pubNew iFrame s)) q"
  have "?l \<le> iFrame - mxFr (hdr s)" using lastFrame_bounds(1) [of "map fst (pubNew iFrame s)" q] assms(2) by (simp add: pubNew_def)
  then have "pubNew iFrame s ! (?l - 1) = frames s ! (mxFr (hdr s) + ?l - 1)" using assms by (simp add: pubNew_def)
  then show ?thesis using assms(3) by (simp add: overlay_def content_def)
qed

text \<open>When a commit may be published.\<close>

definition pubReady :: "nat \<Rightarrow> nat \<Rightarrow> u32 \<Rightarrow> shm \<Rightarrow> bool" where
  "pubReady c iFrame nTruncate s \<longleftrightarrow> walInv s \<and> \<not> resetting s \<and> hSalt (chdr (con s c)) = hSalt (hdr s) \<and>
     mxFr (hdr s) < iFrame \<and> iFrame \<le> length (frames s) \<and>
     (\<forall>q. nPg (hdr s) < q \<and> q \<le> nTruncate \<longrightarrow> q \<in> set (map fst (pubNew iFrame s)))"

lemma pubHdr_simps:
  assumes "pubReady c iFrame nTruncate s"
  shows "mxFr (pubHdr c iFrame nTruncate s) = iFrame" and "hSalt (pubHdr c iFrame nTruncate s) = hSalt (hdr s)"
    and "nPg (pubHdr c iFrame nTruncate s) = nTruncate"
  using assms by (simp_all add: pubReady_def pubHdr_def)

lemma current_le: "walInv s \<Longrightarrow> current s h \<Longrightarrow> mxFr h \<le> mxFr (hdr s)"
  by (simp add: walInv_def histInv_def)

lemma pubHdr_new:
  assumes "pubReady c iFrame nTruncate s"
  shows "hist s (pubHdr c iFrame nTruncate s) = None"
proof (rule ccontr)
  assume "\<not> ?thesis"
  then have "current s (pubHdr c iFrame nTruncate s)" using pubHdr_simps(2) [OF assms] by (simp add: current_def)
  then show False using current_le [of s] pubHdr_simps(1) [OF assms] assms by (fastforce simp: pubReady_def)
qed

lemma publish_state:
  assumes "pubReady c iFrame nTruncate s" and "hist s (hdr s) = Some v"
  defines "h \<equiv> pubHdr c iFrame nTruncate s" and "s' \<equiv> publish c iFrame nTruncate True s"
  shows "s' = (upd c (\<lambda>p. p \<lparr> chdr := h, snap := h \<rparr>) s) \<lparr> hdr := h, hist := (hist s)(h \<mapsto> overlay (pubNew iFrame s) v) \<rparr>"
    and "current s' g \<longleftrightarrow> g = h \<or> current s g" and "pagesTo s' = pagesTo s" and "content s' = content s"
proof -
  show s': "s' = (upd c (\<lambda>p. p \<lparr> chdr := h, snap := h \<rparr>) s) \<lparr> hdr := h, hist := (hist s)(h \<mapsto> overlay (pubNew iFrame s) v) \<rparr>"
    using assms(2) unfolding s'_def h_def publish_commit by simp
  show "current s' g \<longleftrightarrow> g = h \<or> current s g" using pubHdr_simps(2) [OF assms(1)] unfolding s' h_def by (auto simp: current_def)
  show "pagesTo s' = pagesTo s" "content s' = content s" unfolding s' by (simp_all add: pagesTo_def content_def fun_eq_iff)
qed

text \<open>The last frame of a page under the new header, and the pages that the commit does not touch.\<close>

lemma publish_last:
  assumes "pubReady c iFrame nTruncate s"
  defines "l \<equiv> \<lambda>q. lastFrame (map fst (pubNew iFrame s)) q"
  shows "lastFrame (pagesTo s (pubHdr c iFrame nTruncate s)) q = (if l q = 0 then lastFrame (pagesTo s (hdr s)) q else mxFr (hdr s) + l q)"
    and "q \<le> nTruncate \<Longrightarrow> l q = 0 \<Longrightarrow> q \<le> nPg (hdr s)"
proof -
  show "lastFrame (pagesTo s (pubHdr c iFrame nTruncate s)) q = (if l q = 0 then lastFrame (pagesTo s (hdr s)) q else mxFr (hdr s) + l q)"
    unfolding l_def using lastFrame_pub pubHdr_simps(1) [OF assms(1)] assms(1) by (auto simp: pubReady_def)
  show "q \<le> nPg (hdr s)" if "q \<le> nTruncate" "l q = 0"
    using assms(1) that lastFrame_bounds(2) [of q "map fst (pubNew iFrame s)"] unfolding pubReady_def l_def by (auto simp: not_less [symmetric])
qed

lemma publish_view:
  assumes "pubReady c iFrame nTruncate s"
  shows "viewInv (publish c iFrame nTruncate True s)"
proof -
  have inv: "walInv s" using assms by (simp add: pubReady_def)
  obtain v where v: "hist s (hdr s) = Some v" using inv by (auto simp: walInv_def histInv_def)
  let ?h = "pubHdr c iFrame nTruncate s" and ?l = "\<lambda>q. lastFrame (map fst (pubNew iFrame s)) q"
  note st = publish_state [OF assms v] and lf = publish_last [OF assms] and h = pubHdr_simps [OF assms]
  have view: "let f = lastFrame (pagesTo s g) q in if f = 0 then hw s \<le> mxFr g \<longrightarrow> dbFile s q = y q else y q = content s f"
    if "hist s g = Some y" "hSalt g = hSalt (hdr s)" "pageIn q g" for g y q using inv that by (simp add: walInv_def viewInv_def)
  have new: "let f = lastFrame (pagesTo s ?h) q in if f = 0 then hw s \<le> mxFr ?h \<longrightarrow> dbFile s q = overlay (pubNew iFrame s) v q
      else overlay (pubNew iFrame s) v q = content s f" if q: "pageIn q ?h" for q
  proof (cases "?l q = 0")
    case True
    then have "pageIn q (hdr s)" using q lf(2) h(3) by (simp add: pageIn_def)
    moreover have "hw s \<le> mxFr (hdr s)" using inv by (simp add: walInv_def fillInv_def)
    ultimately show ?thesis using view [OF v refl] True lf(1) [of q] by (simp add: overlay_def Let_def)
  next
    case False
    then show ?thesis using overlay_pub [of s iFrame q v] lf(1) [of q] assms by (simp add: pubReady_def Let_def)
  qed
  show ?thesis
    unfolding viewInv_def st(3,4)
  proof (intro allI impI)
    fix g x q
    assume a: "hist (publish c iFrame nTruncate True s) g = Some x \<and> hSalt g = hSalt (hdr (publish c iFrame nTruncate True s)) \<and> pageIn q g"
    show "let f = lastFrame (pagesTo s g) q in if f = 0 then hw (publish c iFrame nTruncate True s) \<le> mxFr g \<longrightarrow>
        dbFile (publish c iFrame nTruncate True s) q = x q else x q = content s f"
      by (cases "g = ?h") (use a view [of g x q] new [of q] h(2) in \<open>auto simp: st(1) Let_def\<close>)
  qed
qed

lemma publish_grow:
  assumes "pubReady c iFrame nTruncate s"
  shows "growInv (publish c iFrame nTruncate True s)"
proof -
  have inv: "walInv s" using assms by (simp add: pubReady_def)
  obtain v where v: "hist s (hdr s) = Some v" using inv by (auto simp: walInv_def histInv_def)
  let ?h = "pubHdr c iFrame nTruncate s" and ?l = "\<lambda>q. lastFrame (map fst (pubNew iFrame s)) q"
  note st = publish_state [OF assms v] and lf = publish_last [OF assms] and h = pubHdr_simps [OF assms]
  have grow: "mxFr g < lastFrame (pagesTo s g') q"
    if "current s g" "current s g'" "mxFr g \<le> mxFr g'" "nPg g < q" "q \<le> nPg g'" for g g' q
    using inv that by (auto simp: walInv_def growInv_def)
  have new: "mxFr g < lastFrame (pagesTo s ?h) q" if g: "current s g" "nPg g < q" "q \<le> nPg ?h" for g q
  proof (cases "?l q = 0")
    case True
    have "mxFr g < lastFrame (pagesTo s (hdr s)) q"
      by (rule grow [OF g(1)]) (use v g current_le [OF inv g(1)] lf(2) [of q] True h(3) in \<open>auto simp: current_def\<close>)
    then show ?thesis using lf(1) [of q] True by simp
  next
    case False
    then show ?thesis using lf(1) [of q] current_le [OF inv g(1)] by simp
  qed
  have "\<not> mxFr ?h \<le> mxFr g" if "current s g" for g using current_le [OF inv that] h(1) assms by (simp add: pubReady_def)
  then show ?thesis
    unfolding growInv_def st(2,3) using grow new by (auto dest: leD)
qed

lemma publish_fill:
  assumes "pubReady c iFrame nTruncate s"
  shows "fillInv (publish c iFrame nTruncate True s)"
proof -
  have inv: "walInv s" using assms by (simp add: pubReady_def)
  obtain v where v: "hist s (hdr s) = Some v" using inv by (auto simp: walInv_def histInv_def)
  let ?h = "pubHdr c iFrame nTruncate s"
  note st = publish_state [OF assms v] and lf = publish_last [OF assms] and h = pubHdr_simps [OF assms]
  have hw: "hw s \<le> mxFr (hdr s)" using inv by (simp add: walInv_def fillInv_def)
  have f: "nBack s \<le> hw s" "\<And>q. pageIn q (hdr s) \<Longrightarrow> 0 < lastFrame (pagesTo s (hdr s)) q \<Longrightarrow> lastFrame (pagesTo s (hdr s)) q \<le> nBack s \<Longrightarrow>
      dbFile s q = content s (lastFrame (pagesTo s (hdr s)) q)"
    using inv assms by (auto simp: walInv_def fillInv_def pubReady_def Let_def)
  have "dbFile s q = content s (lastFrame (pagesTo s ?h) q)"
    if q: "pageIn q ?h" "0 < lastFrame (pagesTo s ?h) q" "lastFrame (pagesTo s ?h) q \<le> nBack s" for q
  proof -
    have "lastFrame (map fst (pubNew iFrame s)) q = 0" using lf(1) [of q] q(3) f(1) hw by (auto split: if_splits)
    then show ?thesis using f(2) [of q] q lf [of q] h(3) by (simp add: pageIn_def)
  qed
  then show ?thesis using f(1) hw h(1) assms unfolding fillInv_def st(3,4) by (simp add: st(1) Let_def pubReady_def)
qed

lemma publish_read:
  assumes "pubReady c iFrame nTruncate s" and "readLock (con s c) = Some j" and "0 < j" and "snap (con s c) = hdr s"
  shows "readInv (publish c iFrame nTruncate True s)"
  unfolding readInv_def
proof (intro allI impI)
  let ?s = "publish c iFrame nTruncate True s"
  fix d i
  assume l: "readLock (con ?s d) = Some i"
  have inv: "walInv s" using assms by (simp add: pubReady_def)
  obtain v where v: "hist s (hdr s) = Some v" using inv by (auto simp: walInv_def histInv_def)
  note st = publish_state [OF assms(1) v] and h = pubHdr_simps [OF assms(1)]
  have r: "readOk s (con s d) i" using l inv by (auto simp: st(1) walInv_def readInv_def split: if_splits)
  show "readOk ?s (con ?s d) i"
  proof (cases "d = c")
    case True
    then have "i = j" using l assms(2) by (simp add: st(1))
    then show ?thesis using r assms True h by (auto simp: st(1) readOk_def snapOk_def pubReady_def)
  next
    case False
    have "snap (con s d) \<noteq> pubHdr c iFrame nTruncate s" using r pubHdr_new [OF assms(1)] by (auto simp: readOk_def snapOk_def)
    then show ?thesis using r False h(2) by (auto simp: st(1) readOk_def snapOk_def split: if_splits)
  qed
qed

lemma step_publish:
  assumes ready: "pubReady c iFrame nTruncate s" and "WAL_WRITE_LOCK \<in> exclMask (con s c)"
    and "readLock (con s c) = Some j" and "0 < j" and "snap (con s c) = hdr s"
  shows "walInv (publish c iFrame nTruncate True s) \<and> walGuar c s (publish c iFrame nTruncate True s)"
proof -
  let ?s = "publish c iFrame nTruncate True s"
  have inv: "walInv s" using ready by (simp add: pubReady_def)
  obtain v where v: "hist s (hdr s) = Some v" using inv by (auto simp: walInv_def histInv_def)
  note st = publish_state [OF ready v] and h = pubHdr_simps [OF ready]
  have "mxFr g \<le> mxFr (pubHdr c iFrame nTruncate s)" if "current s g" for g
    using current_le [OF inv that] h(1) ready by (simp add: pubReady_def)
  then have "histInv ?s"
    unfolding histInv_def st(2) using inv h(2) by (auto simp: st(1) walInv_def histInv_def split: if_splits)
  moreover have "lockInv ?s" "logInv ?s" "resetInv ?s"
    using inv ready h(1) by (auto simp: st(1) walInv_def lockInv_def logInv_def resetInv_def pubReady_def)
  moreover have "walGuar c s ?s" using ready assms(2) pubHdr_new [OF ready] h by (auto simp: st(1) walGuar_def map_le_def pubReady_def)
  ultimately show ?thesis
    using publish_view [OF ready] publish_grow [OF ready] publish_fill [OF ready] publish_read [OF ready assms(3-5)] by (simp add: walInv_def)
qed

section \<open>The checkpoint\<close>

lemma lastFrame_ge:
  assumes "0 < lastFrame (pagesTo s h) q" and "lastFrame (pagesTo s h) q \<le> mxFr g"
  shows "lastFrame (pagesTo s h) q \<le> lastFrame (pagesTo s g) q"
proof -
  let ?f = "lastFrame (pagesTo s h) q"
  have f: "pagesTo s h ! (?f - 1) = q" "?f - 1 < length (pagesTo s h)" using lastFrame_nth [OF assms(1)] by auto
  then have "fst (frames s ! (?f - 1)) = q" "?f - 1 < length (frames s)" by (simp_all add: pagesTo_def)
  then have "?f \<in> {f \<in> {1..length (pagesTo s g)}. pagesTo s g ! (f - 1) = q}" using assms by (auto simp: pagesTo_def)
  then show ?thesis unfolding lastFrame_def [of "pagesTo s g" q] by (intro Max_ge) auto
qed

lemma step_hw:
  assumes "walInv s" and "m \<le> mxFr (hdr s)" and "\<And>d j. readLock (con s d) = Some j \<Longrightarrow> 0 < j \<Longrightarrow> m \<le> mxFr (snap (con s d))"
  shows "walInv (s \<lparr> hw := max (hw s) m \<rparr>) \<and> walGuar c s (s \<lparr> hw := max (hw s) m \<rparr>)"
proof -
  let ?s = "s \<lparr> hw := max (hw s) m \<rparr>"
  have "readInv ?s" using assms(1,3) by (auto simp: walInv_def readInv_def readOk_def snapOk_def split: if_splits)
  moreover have "viewInv ?s"
    unfolding viewInv_def
  proof (intro allI impI)
    fix g v q
    assume a: "hist ?s g = Some v \<and> hSalt g = hSalt (hdr ?s) \<and> pageIn q g"
    then have "let f = lastFrame (pagesTo s g) q in if f = 0 then hw s \<le> mxFr g \<longrightarrow> dbFile s q = v q else v q = content s f"
      using assms(1) by (simp add: walInv_def viewInv_def)
    then show "let f = lastFrame (pagesTo ?s g) q in if f = 0 then hw ?s \<le> mxFr g \<longrightarrow> dbFile ?s q = v q else v q = content ?s f"
      by (simp add: Let_def split: if_splits)
  qed
  moreover have "fillInv ?s" using assms(1,2) by (auto simp: walInv_def fillInv_def Let_def)
  ultimately show ?thesis using assms(1) by (auto simp: walInv_def walGuar_def)
qed

text \<open>A write to the database file under the exclusive read lock 0 concerns nobody who reads the file.\<close>

lemma readInv_db:
  assumes "walInv s" and "WAL_READ_LOCK 0 \<in> exclMask (con s c)"
  shows "readInv (s \<lparr> dbFile := w \<rparr>)" and "readInv (s \<lparr> nBack := n \<rparr>)"
proof -
  have "j \<noteq> 0" if "readOk s (con s d) j" for d j
  proof
    assume "j = 0"
    then have "WAL_READ_LOCK 0 \<in> sharedMask (con s d)" using that by (simp add: readOk_def)
    then show False using assms unfolding walInv_def lockInv_def by blast
  qed
  moreover have "readOk s (con s d) j" if "readLock (con s d) = Some j" for d j
    using assms(1) that by (simp add: walInv_def readInv_def)
  ultimately show "readInv (s \<lparr> dbFile := w \<rparr>)" "readInv (s \<lparr> nBack := n \<rparr>)"
    by (fastforce simp: readInv_def readOk_def snapOk_def)+
qed

lemma step_db:
  assumes "walInv s" and "WAL_READ_LOCK 0 \<in> exclMask (con s c)"
    and "\<And>g q. current s g \<Longrightarrow> pageIn q g \<Longrightarrow> hw s \<le> mxFr g \<Longrightarrow> lastFrame (pagesTo s g) q = 0 \<Longrightarrow> w q = dbFile s q"
    and "\<And>q. pageIn q (hdr s) \<Longrightarrow> 0 < lastFrame (pagesTo s (hdr s)) q \<Longrightarrow> lastFrame (pagesTo s (hdr s)) q \<le> nBack s \<Longrightarrow>
      \<not> resetting s \<Longrightarrow> w q = dbFile s q"
  shows "walInv (s \<lparr> dbFile := w \<rparr>) \<and> walGuar c s (s \<lparr> dbFile := w \<rparr>)"
proof -
  let ?s = "s \<lparr> dbFile := w \<rparr>"
  have "viewInv ?s"
    unfolding viewInv_def
  proof (intro allI impI)
    fix g v q
    assume a: "hist ?s g = Some v \<and> hSalt g = hSalt (hdr ?s) \<and> pageIn q g"
    then have "let f = lastFrame (pagesTo s g) q in if f = 0 then hw s \<le> mxFr g \<longrightarrow> dbFile s q = v q else v q = content s f"
      using assms(1) by (simp add: walInv_def viewInv_def)
    then show "let f = lastFrame (pagesTo ?s g) q in if f = 0 then hw ?s \<le> mxFr g \<longrightarrow> dbFile ?s q = v q else v q = content ?s f"
      using assms(3) [of g q] a by (simp add: Let_def current_def split: if_splits)
  qed
  moreover have "fillInv ?s" using assms(1,4) by (simp add: walInv_def fillInv_def Let_def)
  ultimately show ?thesis using assms(1,2) readInv_db(1) [OF assms(1,2)] by (auto simp: walInv_def walGuar_def)
qed

text \<open>A page is copied from a frame that is not beyond \<open>hw\<close>, and that is behind the part already copied.\<close>

lemma step_copy:
  assumes "walInv s" and "WAL_READ_LOCK 0 \<in> exclMask (con s c)" and "current s h"
    and "nBack s < lastFrame (pagesTo s h) q" and "lastFrame (pagesTo s h) q \<le> hw s"
  shows "walInv (s \<lparr> dbFile := (dbFile s)(q := x) \<rparr>) \<and> walGuar c s (s \<lparr> dbFile := (dbFile s)(q := x) \<rparr>)"
proof (rule step_db [OF assms(1,2)])
  fix g p
  assume "hw s \<le> mxFr g" and z: "lastFrame (pagesTo s g) p = 0"
  then have "p \<noteq> q" using lastFrame_ge [of s h q g] assms(4,5) by auto
  then show "((dbFile s)(q := x)) p = dbFile s p" by simp
next
  fix p
  assume "lastFrame (pagesTo s (hdr s)) p \<le> nBack s"
  moreover have "hw s \<le> mxFr (hdr s)" using assms(1) by (simp add: walInv_def fillInv_def)
  ultimately have "p \<noteq> q" using lastFrame_ge [of s h q "hdr s"] assms(4,5) by auto
  then show "((dbFile s)(q := x)) p = dbFile s p" by simp
qed

lemma step_trunc:
  assumes "walInv s" and "WAL_READ_LOCK 0 \<in> exclMask (con s c)" and "current s h" and "nBack s \<le> mxFr h" and "mxFr h \<le> hw s"
  shows "walInv (truncDb (nPg h) s) \<and> walGuar c s (truncDb (nPg h) s)"
  unfolding truncDb_def
proof (rule step_db [OF assms(1,2)])
  have grow: "mxFr h < lastFrame (pagesTo s g) q" if "current s g" "mxFr h \<le> mxFr g" "nPg h < q" "q \<le> nPg g" for g q
    using assms(1,3) that by (auto simp: walInv_def growInv_def)
  fix g q
  assume g: "current s g" "pageIn q g" "hw s \<le> mxFr g" "lastFrame (pagesTo s g) q = 0"
  then have "q \<le> nPg h" using grow [of g q] assms(5) by (cases "nPg h < q") (auto simp: pageIn_def)
  then show "(if q \<le> nPg h then dbFile s q else []) = dbFile s q" by simp
next
  fix q
  assume q: "pageIn q (hdr s)" "lastFrame (pagesTo s (hdr s)) q \<le> nBack s"
  have "mxFr h < lastFrame (pagesTo s (hdr s)) q" if "nPg h < q"
    using assms(1,3) that q(1) by (auto simp: walInv_def growInv_def histInv_def current_def pageIn_def)
  then have "q \<le> nPg h" using q(2) assms(4) by (cases "nPg h < q") auto
  then show "(if q \<le> nPg h then dbFile s q else []) = dbFile s q" by simp
qed

lemma step_done:
  assumes "walInv s" and "WAL_READ_LOCK 0 \<in> exclMask (con s c)" and "WAL_CKPT_LOCK \<in> exclMask (con s c)" and "current s h"
    and "nBack s < m" and "m \<le> hw s" and "m \<le> mxFr h"
    and "\<And>q. pageIn q h \<Longrightarrow> nBack s < lastFrame (pagesTo s h) q \<Longrightarrow> lastFrame (pagesTo s h) q \<le> m \<Longrightarrow>
      dbFile s q = content s (lastFrame (pagesTo s h) q)"
  shows "walInv (s \<lparr> nBack := m \<rparr>) \<and> walGuar c s (s \<lparr> nBack := m \<rparr>)"
proof -
  have H: "current s (hdr s)" "mxFr h \<le> mxFr (hdr s)" using assms(1,4) by (auto simp: walInv_def histInv_def current_def)
  have nr: "\<not> resetting s" using assms(1,5,6) by (auto simp: walInv_def fillInv_def)
  have "dbFile s q = content s (lastFrame (pagesTo s (hdr s)) q)"
    if q: "pageIn q (hdr s)" "0 < lastFrame (pagesTo s (hdr s)) q" "lastFrame (pagesTo s (hdr s)) q \<le> m" for q
  proof (cases "lastFrame (pagesTo s (hdr s)) q \<le> nBack s")
    case True
    then show ?thesis using assms(1) q nr by (auto simp: walInv_def fillInv_def Let_def)
  next
    case False
    have eq: "lastFrame (pagesTo s h) q = lastFrame (pagesTo s (hdr s)) q"
      using lastFrame_ge [of s "hdr s" q h] lastFrame_ge [of s h q "hdr s"] lastFrame_bound [of s h q] q assms(7) H(2) by linarith
    have "q \<le> nPg h"
    proof (rule ccontr)
      assume "\<not> q \<le> nPg h"
      then have "mxFr h < lastFrame (pagesTo s (hdr s)) q"
        using assms(1,4) H q(1) by (auto simp: walInv_def growInv_def pageIn_def)
      then show False using q(3) assms(7) by simp
    qed
    then show ?thesis using assms(8) [of q] False q eq by (simp add: pageIn_def)
  qed
  then have "fillInv (s \<lparr> nBack := m \<rparr>)" using assms(1,6) nr by (auto simp: walInv_def fillInv_def Let_def)
  then show ?thesis using assms(1-3,5) readInv_db(2) [OF assms(1,2)] by (auto simp: walInv_def walGuar_def)
qed

end
