(* ===== verification/Wal_Isolation.thy ===== *)
theory Wal_Isolation
  imports Wal_Snapshot
begin

text \<open>
  The programs of the locking protocol under interference, and what follows for their clients: as long as the
  log is not restarted while a checkpoint is running, a read transaction sees one committed state of the
  database. The last part shows a run with such a restart, after which a reader misses a committed
  transaction.
\<close>

section \<open>Assertions and rules\<close>

text \<open>An assertion fixes the connection and a fact about the shared state. A fact is firm when it does not
  depend on the own connection and on the read marks, and when nobody invalidates it while the locks in \<open>E\<close> are
  held exclusively.\<close>

definition at :: "nat \<Rightarrow> conn \<Rightarrow> (shm \<Rightarrow> bool) \<Rightarrow> shm \<Rightarrow> bool" where
  "at c p X s \<longleftrightarrow> c < nConn s \<and> con s c = p \<and> X s"

abbreviation goes :: "nat \<Rightarrow> conn \<Rightarrow> (shm \<Rightarrow> bool) \<Rightarrow> wprog \<Rightarrow> bool" where
  "goes c p X \<equiv> wal.runs_ok c (at c p X)"

definition firm :: "nat \<Rightarrow> nat set \<Rightarrow> (shm \<Rightarrow> bool) \<Rightarrow> bool" where
  "firm c E X \<longleftrightarrow> (\<forall>s f. X s \<longrightarrow> X (upd c f s)) \<and> (\<forall>s m. X s \<longrightarrow> X (s \<lparr> marks := m \<rparr>)) \<and>
     (\<forall>p. E \<subseteq> exclMask p \<longrightarrow> wal.stable c (at c p X))"

lemma firm_upd: "firm c E X \<Longrightarrow> X s \<Longrightarrow> X (upd c f s)"
  and firm_marks: "firm c E X \<Longrightarrow> X s \<Longrightarrow> X (s \<lparr> marks := m \<rparr>)"
  and firm_stable: "firm c E X \<Longrightarrow> E \<subseteq> exclMask p \<Longrightarrow> wal.stable c (at c p X)"
  unfolding firm_def by blast+

lemma firmI:
  assumes "\<And>s f. X s \<Longrightarrow> X (upd c f s)" and "\<And>s m. X s \<Longrightarrow> X (s \<lparr> marks := m \<rparr>)"
    and "\<And>d s s'. d \<noteq> c \<Longrightarrow> walInv s \<Longrightarrow> walInv s' \<Longrightarrow> walGuar d s s' \<Longrightarrow> walAllowed d s s' \<Longrightarrow> E \<subseteq> exclMask (con s c) \<Longrightarrow> X s \<Longrightarrow> X s'"
  shows "firm c E X"
  unfolding firm_def
proof (intro conjI allI impI)
  fix p :: conn
  assume E: "E \<subseteq> exclMask p"
  show "wal.stable c (at c p X)"
  proof (rule wal.stableI)
    fix d s s'
    assume a: "d \<noteq> c" "walInv s" "walInv s'" "walGuar d s s'" "walAllowed d s s'" "at c p X s"
    then have "con s' c = con s c" "nConn s' = nConn s" by (auto simp: walGuar_def)
    moreover have "X s'" by (rule assms(3) [OF a(1-5)]) (use a(6) E in \<open>auto simp: at_def\<close>)
    ultimately show "at c p X s'" using a(6) by (simp add: at_def)
  qed
qed (use assms(1,2) in auto)

lemma firm_True: "firm c E (\<lambda>s. True)"
  by (rule firmI) auto

lemma firm_conj:
  assumes "firm c E X" and "firm c E' Y"
  shows "firm c (E \<union> E') (\<lambda>s. X s \<and> Y s)"
proof -
  have "wal.stable c (at c p (\<lambda>s. X s \<and> Y s))" if "E \<union> E' \<subseteq> exclMask p" for p
  proof -
    have "at c p (\<lambda>s. X s \<and> Y s) = (\<lambda>s. at c p X s \<and> at c p Y s)" by (auto simp: at_def fun_eq_iff)
    then show ?thesis using wal.stable_conj firm_stable [OF assms(1), of p] firm_stable [OF assms(2), of p] that by simp
  qed
  then show ?thesis using assms unfolding firm_def by auto
qed

text \<open>The rest of a program is proved for some assertion that holds now.\<close>

definition onward :: "nat \<Rightarrow> shm \<Rightarrow> wprog \<Rightarrow> bool" where
  "onward c s k \<longleftrightarrow> (\<exists>p X. at c p X s \<and> goes c p X k)"

lemma onwardI: "goes c (con s c) X k \<Longrightarrow> c < nConn s \<Longrightarrow> X s \<Longrightarrow> onward c s k"
  unfolding onward_def at_def by blast

lemma goes_access:
  assumes "firm c E X" and "E \<subseteq> exclMask p"
    and "\<And>e s. walInv s \<Longrightarrow> con s c = p \<Longrightarrow> c < nConn s \<Longrightarrow> X s \<Longrightarrow> walAllowed c s (fst (f e s)) \<Longrightarrow>
      (walInv (fst (f e s)) \<and> walGuar c s (fst (f e s))) \<and> onward c (fst (f e s)) (snd (f e s))"
  shows "goes c p X (Atom f)"
proof (rule wal.runs_access [OF firm_stable [OF assms(1,2)]])
  fix e s
  assume "walInv s" and "at c p X s" and "walAllowed c s (fst (f e s))"
  then have "(walInv (fst (f e s)) \<and> walGuar c s (fst (f e s))) \<and> onward c (fst (f e s)) (snd (f e s))"
    using assms(3) [of s e] by (simp add: at_def)
  then show "walInv (fst (f e s)) \<and> walGuar c s (fst (f e s)) \<and> (\<exists>B. B (fst (f e s)) \<and> wal.runs_ok c B (snd (f e s)))"
    unfolding onward_def by blast
qed

lemma goes_atom:
  assumes "firm c E X" and "E \<subseteq> exclMask p"
    and "\<And>e s s' k. f e s = (s', k) \<Longrightarrow> walInv s \<Longrightarrow> con s c = p \<Longrightarrow> c < nConn s \<Longrightarrow> X s \<Longrightarrow>
      (walInv s' \<and> walGuar c s s') \<and> onward c s' k"
  shows "goes c p X (Atom f)"
  by (rule goes_access [OF assms(1,2)]) (rule assms(3), auto)

lemma goes_pre:
  assumes "goes c p Y k" and "firm c E X" and "E \<subseteq> exclMask p" and "\<And>s. walInv s \<Longrightarrow> con s c = p \<Longrightarrow> c < nConn s \<Longrightarrow> X s \<Longrightarrow> Y s"
  shows "goes c p X k"
  by (rule wal.runs_pre [OF assms(1) firm_stable [OF assms(2,3)]]) (use assms(4) in \<open>auto simp: at_def\<close>)

lemma goes_Done:
  assumes "firm c E X" and "E \<subseteq> exclMask p" and "\<And>s. walInv s \<Longrightarrow> con s c = p \<Longrightarrow> X s \<Longrightarrow> walIdle c s"
  shows "goes c p X (Done rc)"
  by (rule wal.runs_Done [OF firm_stable [OF assms(1,2)]]) (use assms(3) in \<open>auto simp: at_def\<close>)

lemma goes_look:
  assumes "firm c E X" and "E \<subseteq> exclMask p"
    and "\<And>s. walInv s \<Longrightarrow> con s c = p \<Longrightarrow> c < nConn s \<Longrightarrow> X s \<Longrightarrow> onward c s (k (f s))"
  shows "goes c p X (look f k)"
  unfolding look_def by (rule goes_access [OF assms(1,2)]) (use assms(3) step_same in auto)

lemma goes_look_any:
  assumes "firm c E X" and "E \<subseteq> exclMask p" and "\<And>v. goes c p X (k v)"
  shows "goes c p X (look f k)"
  by (rule goes_look [OF assms(1,2)]) (use assms(3) in \<open>auto intro: onwardI\<close>)

lemma goes_changeD:
  assumes "firm c E X" and "E \<subseteq> exclMask p"
    and "\<And>s. walInv s \<Longrightarrow> con s c = p \<Longrightarrow> c < nConn s \<Longrightarrow> X s \<Longrightarrow> walAllowed c s (f s) \<Longrightarrow>
      (walInv (f s) \<and> walGuar c s (f s)) \<and> onward c (f s) k"
  shows "goes c p X (change f k)"
  unfolding change_def by (rule goes_access [OF assms(1,2)]) (use assms(3) in auto)

lemma goes_change:
  assumes "firm c E X" and "E \<subseteq> exclMask p"
    and "\<And>s. walInv s \<Longrightarrow> con s c = p \<Longrightarrow> c < nConn s \<Longrightarrow> X s \<Longrightarrow> walAllowed c s (f s) \<Longrightarrow>
      (walInv (f s) \<and> walGuar c s (f s)) \<and> con (f s) c = q \<and> Y (f s)"
    and "goes c q Y k"
  shows "goes c p X (change f k)"
proof (rule goes_changeD [OF assms(1,2)])
  fix s
  assume a: "walInv s" "con s c = p" "c < nConn s" "X s" "walAllowed c s (f s)"
  then have b: "(walInv (f s) \<and> walGuar c s (f s)) \<and> con (f s) c = q \<and> Y (f s)" by (rule assms(3))
  have "onward c (f s) k" by (rule onwardI [where X = Y]) (use a(3) b assms(4) in \<open>auto simp: walGuar_def\<close>)
  then show "(walInv (f s) \<and> walGuar c s (f s)) \<and> onward c (f s) k" using b by simp
qed

lemma goes_osCall:
  assumes "firm c E X" and "E \<subseteq> exclMask p" and "\<And>rc. goes c p X (k rc)"
  shows "goes c p X (osCall k)"
  unfolding osCall_def by (rule goes_access [OF assms(1,2)]) (use assms(3) step_same in \<open>auto intro: onwardI\<close>)

lemma goes_lockShared:
  assumes "firm c E X" and "E \<subseteq> exclMask p" and "\<And>rc. rc \<noteq> SQLITE_OK \<Longrightarrow> goes c p X (k rc)"
    and "l \<notin> exclMask p \<Longrightarrow> goes c (p \<lparr> sharedMask := insert l (sharedMask p) \<rparr>) X (k SQLITE_OK)"
  shows "goes c p X (walLockShared c l k)"
  unfolding walLockShared_def
proof (rule goes_atom [OF assms(1,2)], goal_cases)
  case (1 e s s' k')
  obtain rc where l: "shmShared c l e s = (s', rc)" "k' = k rc" using 1(1) by (auto split: prod.splits)
  note st = step_shared [OF 1(2,4) l(1)]
  have "l \<notin> exclMask p" if "rc = SQLITE_OK"
    using l(1) 1(3,4) that by (auto simp: shmShared_def list_all_iff split: if_splits)
  then have "onward c s' (k rc)"
    using st assms(3,4) 1 firm_upd [OF assms(1) 1(5)] by (intro onwardI [where X = X]) (cases "rc = SQLITE_OK"; auto)+
  then show ?case using st l(2) by simp
qed

lemma goes_lockExclusive:
  assumes "firm c E X" and "E \<subseteq> exclMask p" and "\<And>rc. rc \<noteq> SQLITE_OK \<Longrightarrow> goes c p X (k rc)"
    and "{l..<l + n} \<inter> (exclMask p \<union> sharedMask p) = {} \<Longrightarrow> goes c (p \<lparr> exclMask := {l..<l + n} \<union> exclMask p \<rparr>) X (k SQLITE_OK)"
  shows "goes c p X (walLockExclusive c l n k)"
  unfolding walLockExclusive_def
proof (rule goes_atom [OF assms(1,2)], goal_cases)
  case (1 e s s' k')
  obtain rc where l: "shmExclusive c l n e s = (s', rc)" "k' = k rc" using 1(1) by (auto split: prod.splits)
  note st = step_exclusive [OF 1(2,4) l(1)]
  have "{l..<l + n} \<inter> (exclMask p \<union> sharedMask p) = {}" if "rc = SQLITE_OK"
    using l(1) 1(3,4) that by (auto simp: shmExclusive_def list_all_iff split: if_splits)
  then have "onward c s' (k rc)"
    using st assms(3,4) 1 firm_upd [OF assms(1) 1(5)] by (intro onwardI [where X = X]) (cases "rc = SQLITE_OK"; auto)+
  then show ?case using st l(2) by simp
qed

lemma goes_busyLock:
  assumes "firm c E X" and "E \<subseteq> exclMask p" and "\<And>rc. rc \<noteq> SQLITE_OK \<Longrightarrow> goes c p X (k rc)"
    and "{l..<l + m} \<inter> (exclMask p \<union> sharedMask p) = {} \<Longrightarrow> goes c (p \<lparr> exclMask := {l..<l + m} \<union> exclMask p \<rparr>) X (k SQLITE_OK)"
  shows "goes c p X (busyLock c xBusy n l m k)"
proof (induction n)
  case 0
  show ?case unfolding busyLock.simps by (rule goes_lockExclusive [OF assms(1,2)]) (use assms(3,4) in auto)
next
  case (Suc n)
  show ?case
    unfolding busyLock.simps
    by (rule goes_lockExclusive [OF assms(1,2)]) (use Suc assms(3,4) in auto)
qed

text \<open>While the log is being restarted the writer keeps its locks.\<close>

definition calm :: "conn \<Rightarrow> (shm \<Rightarrow> bool) \<Rightarrow> bool" where
  "calm p X \<longleftrightarrow> WAL_WRITE_LOCK \<notin> exclMask p \<or> WAL_READ_LOCK 1 \<notin> exclMask p \<or> (\<forall>s. walInv s \<longrightarrow> X s \<longrightarrow> \<not> resetting s)"

lemma calm_state:
  assumes "walInv s" and "calm (con s c) X" and "X s"
  shows "\<not> resetting s \<or> WAL_WRITE_LOCK \<notin> exclMask (con s c)"
proof (rule ccontr)
  assume a: "\<not> ?thesis"
  then obtain d where d: "WAL_WRITE_LOCK \<in> exclMask (con s d)" "WAL_READ_LOCK 1 \<in> exclMask (con s d)"
    using assms(1) by (auto simp: walInv_def resetInv_def)
  then have "d = c" using assms(1) a unfolding walInv_def lockInv_def by blast
  then show False using a assms d by (auto simp: calm_def)
qed

definition unlocked :: "nat \<Rightarrow> nat \<Rightarrow> conn \<Rightarrow> conn" where
  "unlocked l n p = p \<lparr> exclMask := exclMask p - {l..<l + n}, sharedMask := sharedMask p - {l..<l + n} \<rparr>"

lemma goes_unlock:
  assumes "firm c E X" and "E \<subseteq> exclMask p" and "calm p X" and "\<forall>j. readLock p = Some j \<longrightarrow> WAL_READ_LOCK j \<notin> {l..<l + n}"
    and "goes c (unlocked l n p) X k"
  shows "goes c p X (walUnlockExclusive c l n k)" and "n = 1 \<Longrightarrow> goes c p X (walUnlockShared c l k)"
proof -
  have "goes c p X (change (shmUnlock c l n) k)"
  proof (rule goes_change [OF assms(1,2) _ assms(5)])
    fix s
    assume a: "walInv s" "con s c = p" "X s"
    have "\<not> resetting s \<or> WAL_WRITE_LOCK \<notin> exclMask (con s c)" by (rule calm_state [where X = X]) (use a assms(3) in auto)
    then have "walInv (shmUnlock c l n s) \<and> walGuar c s (shmUnlock c l n s)"
      using a assms(4) by (intro step_unlock) auto
    then show "(walInv (shmUnlock c l n s) \<and> walGuar c s (shmUnlock c l n s)) \<and> con (shmUnlock c l n s) c = unlocked l n p \<and> X (shmUnlock c l n s)"
      using a firm_upd [OF assms(1) a(3)] by (simp add: shmUnlock_def unlocked_def)
  qed
  then show "goes c p X (walUnlockExclusive c l n k)" "n = 1 \<Longrightarrow> goes c p X (walUnlockShared c l k)"
    by (simp_all add: walUnlockExclusive_def walUnlockShared_def change_def)
qed

lemma unlocked_excl:
  "{l..<l + n} \<inter> (exclMask p \<union> sharedMask p) = {} \<Longrightarrow> unlocked l n (p \<lparr> exclMask := {l..<l + n} \<union> exclMask p \<rparr>) = p"
  by (cases p) (auto simp: unlocked_def)

lemma unlocked_shared: "l \<notin> exclMask p \<union> sharedMask p \<Longrightarrow> unlocked l 1 (p \<lparr> sharedMask := insert l (sharedMask p) \<rparr>) = p"
  by (cases p) (auto simp: unlocked_def)


section \<open>Read transactions\<close>

lemma firm_hist: "firm c {} (\<lambda>s. hist s h \<noteq> None)"
  by (rule firmI) (auto simp: walGuar_def map_le_def dom_def)

text \<open>Once the log is seen to be completely in the file, this remains so as long as the header does not change.\<close>

lemma firm_file: "firm c {} (\<lambda>s. hist s h \<noteq> None \<and> (hdr s = h \<longrightarrow> nBack s = mxFr h \<and> \<not> resetting s))"
proof (rule firmI)
  fix d s s'
  assume a: "d \<noteq> c" "walInv s" "walInv s'" "walGuar d s s'"
    and x: "hist s h \<noteq> None \<and> (hdr s = h \<longrightarrow> nBack s = mxFr h \<and> \<not> resetting s)"
  have hist: "hist s' h \<noteq> None" using a(4) x by (auto simp: walGuar_def map_le_def dom_def)
  have "nBack s' = mxFr h \<and> \<not> resetting s'" if h: "hdr s' = h"
  proof -
    have same: "hdr s = h" using a(4) h x by (auto simp: walGuar_def)
    then have n: "nBack s = mxFr h" "\<not> resetting s" using x by auto
    have r: "\<not> resetting s'" using a(4) n(2) same h by (simp add: walGuar_def)
    then have "nBack s' \<le> mxFr h" using a(3) h by (auto simp: walInv_def fillInv_def)
    moreover have "nBack s \<le> nBack s'" using a(4) n(2) by (auto simp: walGuar_def)
    ultimately show ?thesis using n r by simp
  qed
  then show "hist s' h \<noteq> None \<and> (hdr s' = h \<longrightarrow> nBack s' = mxFr h \<and> \<not> resetting s')" using hist by blast
qed auto

lemma goes_readHdr:
  assumes X: "firm c E X" "E \<subseteq> exclMask p" and p: "readLock p = None" "WAL_WRITE_LOCK \<notin> sharedMask p" "WAL_READ_LOCK 1 \<notin> exclMask p"
    and Z: "\<And>h. firm c E (\<lambda>s. X s \<and> Z h s)" "\<And>s. walInv s \<Longrightarrow> Z (hdr s) s"
    and fail: "\<And>rc ch. rc \<noteq> SQLITE_OK \<Longrightarrow> goes c p X (k rc ch)"
    and succ: "\<And>h ch. goes c (p \<lparr> chdr := h \<rparr>) (\<lambda>s. X s \<and> Z h s) (k SQLITE_OK ch)"
  shows "goes c p X (walIndexReadHdr c k)"
proof -
  let ?L = "{WAL_WRITE_LOCK..<WAL_WRITE_LOCK + 1}"
  have load: "(walInv (loadHdr c s) \<and> walGuar c s (loadHdr c s)) \<and> onward c (loadHdr c s) k'"
    if "walInv s" "X s" "con s c = p'" "c < nConn s" "goes c (p' \<lparr> chdr := hdr s \<rparr>) (\<lambda>t. X t \<and> Z (hdr s) t) k'" for s k' p'
    using step_chdr [OF that(1), of c "hdr s"] firm_upd [OF Z(1) [of "hdr s"], of s] Z(2) [OF that(1)] that(2-5)
    by (auto simp: loadHdr_def intro!: onwardI [where X = "\<lambda>t. X t \<and> Z (hdr s) t"])
  define second where "second = Atom (\<lambda>(e :: rcode) s. (loadHdr c s, walUnlockExclusive c WAL_WRITE_LOCK 1 (k SQLITE_OK (chdr (con s c) \<noteq> hdr s))))"
  define bad where "bad = look (\<lambda>s. readOnly (con s c)) (\<lambda>ro.
       if ro = WAL_SHM_RDONLY then
         walLockShared c WAL_WRITE_LOCK (\<lambda>rc.
           if rc = SQLITE_OK then walUnlockShared c WAL_WRITE_LOCK (k SQLITE_READONLY_RECOVERY False) else k rc False)
       else
         walLockExclusive c WAL_WRITE_LOCK 1 (\<lambda>rc.
           if rc = SQLITE_OK then second else k rc False))"
  have un: "goes c (p \<lparr> exclMask := ?L \<union> exclMask p, chdr := h \<rparr>) (\<lambda>s. X s \<and> Z h s) (walUnlockExclusive c WAL_WRITE_LOCK 1 (k SQLITE_OK ch))"
    if "?L \<inter> (exclMask p \<union> sharedMask p) = {}" for h ch
  proof -
    have "unlocked WAL_WRITE_LOCK 1 (p \<lparr> exclMask := ?L \<union> exclMask p, chdr := h \<rparr>) = p \<lparr> chdr := h \<rparr>"
      using that by (cases p) (auto simp: unlocked_def)
    then show ?thesis using succ [of h ch] X(2) p by (intro goes_unlock(1) [OF Z(1)]) (auto simp: calm_def)
  qed
  have "goes c p X bad"
    unfolding bad_def
  proof (rule goes_look_any [OF X])
    fix ro
    have "goes c p X (walLockShared c WAL_WRITE_LOCK (\<lambda>rc.
        if rc = SQLITE_OK then walUnlockShared c WAL_WRITE_LOCK (k SQLITE_READONLY_RECOVERY False) else k rc False))"
    proof (rule goes_lockShared [OF X])
      assume "WAL_WRITE_LOCK \<notin> exclMask p"
      then show "goes c (p \<lparr> sharedMask := insert WAL_WRITE_LOCK (sharedMask p) \<rparr>) X (if SQLITE_OK = SQLITE_OK
          then walUnlockShared c WAL_WRITE_LOCK (k SQLITE_READONLY_RECOVERY False) else k SQLITE_OK False)"
        using p unlocked_shared [of WAL_WRITE_LOCK p] fail X(2)
        by (auto simp: calm_def intro!: goes_unlock(2) [OF X(1), of _ _ 1])
    qed (simp add: fail)
    moreover have "goes c p X (walLockExclusive c WAL_WRITE_LOCK 1 (\<lambda>rc. if rc = SQLITE_OK then second else k rc False))"
    proof (rule goes_lockExclusive [OF X])
      assume free: "?L \<inter> (exclMask p \<union> sharedMask p) = {}"
      let ?p = "p \<lparr> exclMask := ?L \<union> exclMask p \<rparr>"
      have E: "E \<subseteq> exclMask ?p" using X(2) by auto
      have "goes c ?p X second"
        unfolding second_def by (rule goes_access [OF X(1) E]) (use load [of _ ?p] un [OF free] in auto)
      then show "goes c ?p X (if SQLITE_OK = SQLITE_OK then second else k SQLITE_OK False)" by simp
    qed (simp add: fail)
    ultimately show "goes c p X (if ro = WAL_SHM_RDONLY then
         walLockShared c WAL_WRITE_LOCK (\<lambda>rc.
           if rc = SQLITE_OK then walUnlockShared c WAL_WRITE_LOCK (k SQLITE_READONLY_RECOVERY False) else k rc False)
       else
         walLockExclusive c WAL_WRITE_LOCK 1 (\<lambda>rc.
           if rc = SQLITE_OK then second else k rc False))" by simp
  qed
  then show ?thesis
    unfolding walIndexReadHdr_def walIndexTryHdr_def second_def [symmetric] bad_def [symmetric]
    by (intro goes_access [OF X]) (use load [of _ p] succ step_same in \<open>auto intro: onwardI\<close>)
qed


text \<open>A connection in a read transaction.\<close>

definition reader :: "conn \<Rightarrow> nat \<Rightarrow> conn" where
  "reader p i = p \<lparr> sharedMask := {WAL_READ_LOCK i}, readLock := Some i, snap := chdr p \<rparr>"

lemma con_startRead:
  "con s c = p \<lparr> sharedMask := {WAL_READ_LOCK i} \<rparr> \<Longrightarrow> hdr s = chdr p \<Longrightarrow> con (startRead c i s) c = reader p i"
  by (simp add: startRead_def reader_def)

lemma goes_scanMarks:
  assumes X: "firm c E X" "E \<subseteq> exclMask p" and "m \<le> mxFr (chdr p)" and "i0 < WAL_NREADER" and "\<forall>i \<in> set is. i < WAL_NREADER"
    and k: "\<And>m i. m \<le> mxFr (chdr p) \<Longrightarrow> i < WAL_NREADER \<Longrightarrow> goes c p X (k m i)"
  shows "goes c p X (scanMarks c is m i0 k)"
  using assms(3-5)
proof (induction "is" arbitrary: m i0)
  case (Cons i "is")
  show ?case
    unfolding scanMarks.simps
  proof (rule goes_look [OF X])
    fix s
    assume a: "con s c = p" "c < nConn s" "X s"
    have g: "goes c p X (scanMarks c is m i0 k)" by (rule Cons.IH) (use Cons.prems in auto)
    have "goes c p X (scanMarks c is (marks s ! i) i k)" if "marks s ! i \<le> mxFr (chdr p)"
      by (rule Cons.IH) (use Cons.prems that in auto)
    then show "onward c s (case (marks s ! i, mxFr (chdr (con s c))) of (thisMark, mx) \<Rightarrow>
        if m \<le> thisMark \<and> thisMark \<le> mx then scanMarks c is thisMark i k else scanMarks c is m i0 k)"
      using a g by (auto intro: onwardI [where X = X])
  qed
qed (simp add: k)

lemma goes_mark:
  assumes X: "firm c E X" "E \<subseteq> exclMask p" and "WAL_READ_LOCK i \<in> exclMask p" and "goes c p X k"
  shows "goes c p X (change (\<lambda>s. s \<lparr> marks := (marks s)[i := v] \<rparr>) k)"
  by (rule goes_change [OF X _ assms(4)]) (use step_mark assms(3) firm_marks [OF X(1)] in auto)

lemma goes_raiseMark:
  assumes X: "firm c E X" "E \<subseteq> exclMask p" and p: "readLock p = None" "WAL_WRITE_LOCK \<notin> exclMask p \<or> (\<forall>s. X s \<longrightarrow> \<not> resetting s)"
    and i: "i0 < WAL_NREADER" "m \<le> mxFr (chdr p)" "\<forall>i \<in> set is. 0 < i \<and> i < WAL_NREADER"
    and kerr: "\<And>rc. rc \<noteq> SQLITE_OK \<Longrightarrow> goes c p X (kerr rc)"
    and k: "\<And>rc m i. m \<le> mxFr (chdr p) \<Longrightarrow> i < WAL_NREADER \<Longrightarrow> goes c p X (k rc m i)"
  shows "goes c p X (raiseMark c is rc m i0 kerr k)"
  using i(3)
proof (induction "is" arbitrary: rc)
  case Nil
  show ?case using k [OF i(2,1)] by simp
next
  case (Cons i "is")
  let ?L = "{WAL_READ_LOCK i..<WAL_READ_LOCK i + 1}"
  show ?case
    unfolding raiseMark.simps
  proof (rule goes_lockExclusive [OF X])
    assume free: "?L \<inter> (exclMask p \<union> sharedMask p) = {}"
    let ?p = "p \<lparr> exclMask := ?L \<union> exclMask p \<rparr>"
    have E: "E \<subseteq> exclMask ?p" using X(2) by auto
    have cl: "calm ?p X" using p(2) by (auto simp: calm_def)
    have "goes c ?p X (walUnlockExclusive c (WAL_READ_LOCK i) 1 (k SQLITE_OK (mxFr (chdr p)) i))"
      by (rule goes_unlock(1) [OF X(1) E cl]) (use p(1) unlocked_excl [OF free] k Cons.prems in auto)
    then have "goes c ?p X (change (\<lambda>s. s \<lparr> marks := (marks s)[i := mxFr (chdr p)] \<rparr>)
        (walUnlockExclusive c (WAL_READ_LOCK i) 1 (k SQLITE_OK (mxFr (chdr p)) i)))"
      by (intro goes_mark [OF X(1) E]) auto
    then show "goes c ?p X (if SQLITE_OK = SQLITE_OK then look (\<lambda>s. mxFr (chdr (con s c))) (\<lambda>mx.
           change (\<lambda>s. s \<lparr> marks := (marks s)[i := mx] \<rparr>)
             (walUnlockExclusive c (WAL_READ_LOCK i) 1 (k SQLITE_OK mx i)))
       else if SQLITE_OK \<noteq> SQLITE_BUSY then kerr SQLITE_OK else raiseMark c is SQLITE_OK m i0 kerr k)"
      unfolding if_P [OF refl] by (intro goes_look [OF X(1) E]) (auto intro: onwardI)
  qed (use kerr Cons in auto)
qed


lemma goes_useMark:
  assumes X: "firm c E X" "E \<subseteq> exclMask p"
    and p: "readLock p = None" "sharedMask p = {}" "WAL_WRITE_LOCK \<notin> exclMask p \<or> (\<forall>s. X s \<longrightarrow> \<not> resetting s)"
    and i: "0 < i" "i < WAL_NREADER" "m \<le> mxFr (chdr p)"
    and fail: "\<And>r. r \<noteq> Some SQLITE_OK \<Longrightarrow> goes c p X (k r)"
    and succ: "goes c (reader p i) X (k (Some SQLITE_OK))"
  shows "goes c p X (useMark c m i k)"
  unfolding useMark_def
proof (rule goes_lockShared [OF X])
  assume l: "WAL_READ_LOCK i \<notin> exclMask p"
  let ?p = "p \<lparr> sharedMask := insert (WAL_READ_LOCK i) (sharedMask p) \<rparr>"
  have E: "E \<subseteq> exclMask ?p" using X(2) by auto
  have un: "goes c ?p X (walUnlockShared c (WAL_READ_LOCK i) (k None))"
    using p unlocked_shared [of "WAL_READ_LOCK i" p] l fail
    by (intro goes_unlock(2) [OF X(1) E, of _ 1]) (auto simp: calm_def)
  have "goes c ?p X (Atom (\<lambda>e s.
         if marks s ! i \<noteq> m \<or> hdr s \<noteq> chdr (con s c)
         then (s, walUnlockShared c (WAL_READ_LOCK i) (k None))
         else (startRead c i s, k (Some SQLITE_OK))))"
  proof (rule goes_access [OF X(1) E])
    fix e s
    assume a: "walInv s" "con s c = ?p" "c < nConn s" "X s"
    let ?r = "if marks s ! i \<noteq> m \<or> hdr s \<noteq> chdr (con s c) then (s, walUnlockShared c (WAL_READ_LOCK i) (k None))
         else (startRead c i s, k (Some SQLITE_OK))"
    show "(walInv (fst ?r) \<and> walGuar c s (fst ?r)) \<and> onward c (fst ?r) (snd ?r)"
    proof (cases "marks s ! i \<noteq> m \<or> hdr s \<noteq> chdr (con s c)")
      case True
      then show ?thesis using un a step_same [OF a(1), of c] by (auto intro: onwardI)
    next
      case False
      have st: "walInv (startRead c i s) \<and> walGuar c s (startRead c i s)"
        by (rule step_startRead [OF a(1)]) (use a(2) p i False snapOk_mark [OF a(1) i(1)] in auto)
      have "con (startRead c i s) c = reader p i" using a(2) False p(2) by (intro con_startRead) auto
      then have "onward c (startRead c i s) (k (Some SQLITE_OK))"
        using a succ firm_upd [OF X(1) a(4)] by (intro onwardI [where X = X]) (auto simp: startRead_def)
      then show ?thesis using st False by simp
    qed
  qed
  then show "goes c ?p X (if SQLITE_OK \<noteq> SQLITE_OK then k (if SQLITE_OK = SQLITE_BUSY then None else Some SQLITE_OK)
       else Atom (\<lambda>e s. if marks s ! i \<noteq> m \<or> hdr s \<noteq> chdr (con s c)
         then (s, walUnlockShared c (WAL_READ_LOCK i) (k None))
         else (startRead c i s, k (Some SQLITE_OK))))" by simp
qed (use fail in auto)

lemma goes_tryMarks:
  assumes X: "firm c E X" "E \<subseteq> exclMask p"
    and p: "readLock p = None" "sharedMask p = {}" "WAL_WRITE_LOCK \<notin> exclMask p \<or> (\<forall>s. X s \<longrightarrow> \<not> resetting s)"
    and fail: "\<And>r. r \<noteq> Some SQLITE_OK \<Longrightarrow> goes c p X (k r)"
    and succ: "\<And>i. 0 < i \<Longrightarrow> i < WAL_NREADER \<Longrightarrow> goes c (reader p i) X (k (Some SQLITE_OK))"
  shows "goes c p X (tryMarks c rc k)"
  unfolding tryMarks_def
proof (rule goes_scanMarks [OF X])
  let ?k = "\<lambda>rc mxReadMark mxI. if mxI = 0 then k (if rc = SQLITE_BUSY then None else Some SQLITE_READONLY_CANTLOCK)
                                 else useMark c mxReadMark mxI k"
  have k: "goes c p X (?k rc m i)" if "m \<le> mxFr (chdr p)" "i < WAL_NREADER" for rc m i
    using that fail by (auto intro!: goes_useMark [OF X p] succ)
  fix m i
  assume m: "m \<le> mxFr (chdr p)" "i < WAL_NREADER"
  have "goes c p X (raiseMark c [1..<WAL_NREADER] rc m i (\<lambda>rc. k (Some rc)) ?k)"
    by (rule goes_raiseMark [OF X p(1,3) m(2,1)]) (use fail k in auto)
  then have "goes c p X (let k' = ?k in if ro \<noteq> WAL_SHM_RDONLY \<and> (m < mx \<or> i = 0)
      then raiseMark c [1..<WAL_NREADER] rc m i (\<lambda>rc. k (Some rc)) k' else k' rc m i)" for ro mx
    using k [OF m] by (simp add: Let_def)
  then show "goes c p X (look (\<lambda>s. (readOnly (con s c), mxFr (chdr (con s c)))) (\<lambda>(ro, mx).
       let k' = ?k in if ro \<noteq> WAL_SHM_RDONLY \<and> (m < mx \<or> i = 0)
          then raiseMark c [1..<WAL_NREADER] rc m i (\<lambda>rc. k (Some rc)) k'
          else k' rc m i))"
    by (intro goes_look_any [OF X]) (simp add: case_prod_beta)
qed (auto simp: WAL_NREADER_def)


lemma goes_tryLock0:
  assumes X: "firm c E X" "E \<subseteq> exclMask p"
    and p: "readLock p = None" "sharedMask p = {}" "WAL_WRITE_LOCK \<notin> exclMask p"
    and fail: "\<And>r. r \<noteq> Some SQLITE_OK \<Longrightarrow> goes c p X (k r)"
    and succ: "\<And>i. i < WAL_NREADER \<Longrightarrow> goes c (reader p i) X (k (Some SQLITE_OK))"
  shows "goes c p (\<lambda>s. X s \<and> hist s (chdr p) \<noteq> None) (tryLock0 c k)"
proof -
  let ?H = "\<lambda>s. X s \<and> hist s (chdr p) \<noteq> None"
  define F where "F = (\<lambda>s. X s \<and> (hist s (chdr p) \<noteq> None \<and> (hdr s = chdr p \<longrightarrow> nBack s = mxFr (chdr p) \<and> \<not> resetting s)))"
  have H: "firm c E ?H" using firm_conj [OF X(1) firm_hist] by simp
  have F: "firm c E F" using firm_conj [OF X(1) firm_file] by (simp add: F_def)
  have weak: "goes c q F j" if "goes c q X j" "E \<subseteq> exclMask q" for q j
    by (rule goes_pre [OF that(1) F that(2)]) (simp add: F_def)
  have weakH: "goes c q ?H j" if "goes c q X j" "E \<subseteq> exclMask q" for q j
    by (rule goes_pre [OF that(1) H that(2)]) simp
  have tm: "goes c p X (tryMarks c rc k)" for rc by (rule goes_tryMarks [OF X p(1,2)]) (use p(3) fail succ in auto)
  let ?p = "p \<lparr> sharedMask := insert (WAL_READ_LOCK 0) (sharedMask p) \<rparr>"
  let ?chk = "Atom (\<lambda>e s. if hdr s \<noteq> chdr (con s c) then (s, walUnlockShared c (WAL_READ_LOCK 0) (k None))
                       else (startRead c 0 s, k (Some SQLITE_OK)))"
  have E: "E \<subseteq> exclMask ?p" using X(2) by auto
  have chk: "goes c ?p F ?chk" if l: "WAL_READ_LOCK 0 \<notin> exclMask p"
  proof (rule goes_access [OF F E])
    have un: "goes c ?p F (walUnlockShared c (WAL_READ_LOCK 0) (k None))"
      using p unlocked_shared [of "WAL_READ_LOCK 0" p] l fail weak X(2)
      by (intro goes_unlock(2) [OF F E, of _ 1]) (auto simp: calm_def)
    fix e s
    assume a: "walInv s" "con s c = ?p" "c < nConn s" "F s"
    let ?r = "if hdr s \<noteq> chdr (con s c) then (s, walUnlockShared c (WAL_READ_LOCK 0) (k None)) else (startRead c 0 s, k (Some SQLITE_OK))"
    show "(walInv (fst ?r) \<and> walGuar c s (fst ?r)) \<and> onward c (fst ?r) (snd ?r)"
    proof (cases "hdr s = chdr p")
      case False
      then show ?thesis using un a step_same [OF a(1), of c] by (auto intro: onwardI)
    next
      case True
      then have "nBack s = mxFr (hdr s)" "\<not> resetting s" using a(4) by (auto simp: F_def)
      then have st: "walInv (startRead c 0 s) \<and> walGuar c s (startRead c 0 s)"
        using snapOk_file [OF a(1)] a(2) p by (intro step_startRead [OF a(1)]) (auto simp: WAL_NREADER_def)
      have "con (startRead c 0 s) c = reader p 0" using a(2) True p(2) by (intro con_startRead) auto
      then have "onward c (startRead c 0 s) (k (Some SQLITE_OK))"
        using a(3,4) succ [of 0] firm_upd [OF X(1)] by (intro onwardI [where X = X]) (auto simp: startRead_def WAL_NREADER_def F_def)
      then show ?thesis using st True a(2) by simp
    qed
  qed
  let ?lock = "walLockShared c (WAL_READ_LOCK 0) (\<lambda>rc. if rc = SQLITE_OK then ?chk
         else if rc \<noteq> SQLITE_BUSY then k (Some rc) else tryMarks c rc k)"
  have lk: "goes c p F ?lock"
    by (rule goes_lockShared [OF F X(2)]) (use chk weak [OF _ X(2)] fail tm in auto)
  show ?thesis
    unfolding tryLock0_def
  proof (rule goes_look [OF H X(2)])
    fix s
    assume a: "walInv s" "con s c = p" "c < nConn s" "?H s"
    have "F s" if "nBack s = mxFr (chdr p)"
      using a(1,4) that by (auto simp: F_def walInv_def fillInv_def)
    then show "onward c s (if nBack s = mxFr (chdr (con s c)) then ?lock else tryMarks c SQLITE_OK k)"
      using a lk weakH [OF tm X(2)] by (auto intro: onwardI)
  qed
qed

lemma goes_tryBegin:
  assumes X: "firm c E X" "E \<subseteq> exclMask p"
    and p: "readLock p = None" "sharedMask p = {}" "WAL_WRITE_LOCK \<notin> exclMask p" "WAL_RECOVER_LOCK \<notin> exclMask p" "WAL_READ_LOCK 1 \<notin> exclMask p"
    and fail: "\<And>h r. r \<noteq> Some SQLITE_OK \<Longrightarrow> goes c (p \<lparr> chdr := h \<rparr>) X (k r)"
    and succ: "\<And>h i. i < WAL_NREADER \<Longrightarrow> goes c (reader (p \<lparr> chdr := h \<rparr>) i) X (k (Some SQLITE_OK))"
  shows "goes c p X (walTryBeginRead c False cnt k)"
proof -
  have self: "p \<lparr> chdr := chdr p \<rparr> = p" by simp
  have f: "goes c p X (k r)" if "r \<noteq> Some SQLITE_OK" for r using fail [OF that, of "chdr p"] by (simp add: self)
  have H: "firm c E (\<lambda>s. X s \<and> hist s h \<noteq> None)" for h using firm_conj [OF X(1) firm_hist] by simp
  have "goes c (p \<lparr> chdr := h \<rparr>) (\<lambda>s. X s \<and> hist s h \<noteq> None) (tryLock0 c k)" for h
    using goes_tryLock0 [OF X(1), of "p \<lparr> chdr := h \<rparr>" k] X(2) p fail succ by simp
  moreover have "goes c p X (walLockShared c WAL_RECOVER_LOCK (\<lambda>rc.
      if rc = SQLITE_OK then walUnlockShared c WAL_RECOVER_LOCK (k None)
      else k (Some (if rc = SQLITE_BUSY then SQLITE_BUSY_RECOVERY else rc))))"
    using p f X(2) unlocked_shared [of WAL_RECOVER_LOCK p]
    by (intro goes_lockShared [OF X]) (auto simp: calm_def intro!: goes_unlock(2) [OF X(1), of _ _ 1])
  ultimately have "goes c p X (walIndexReadHdr c (\<lambda>rc changed.
        if rc = SQLITE_BUSY then
          walLockShared c WAL_RECOVER_LOCK (\<lambda>rc.
            if rc = SQLITE_OK then walUnlockShared c WAL_RECOVER_LOCK (k None)
            else k (Some (if rc = SQLITE_BUSY then SQLITE_BUSY_RECOVERY else rc)))
        else if rc \<noteq> SQLITE_OK then k (Some rc)
        else tryLock0 c k))"
    by (intro goes_readHdr [OF X, of "\<lambda>h s. hist s h \<noteq> None"]) (use p f H in \<open>auto simp: walInv_def histInv_def\<close>)
  then show ?thesis using f by (simp add: walTryBeginRead_def)
qed

lemma goes_tryLoop:
  assumes X: "firm c E X" "E \<subseteq> exclMask p"
    and p: "readLock p = None" "sharedMask p = {}" "WAL_WRITE_LOCK \<notin> exclMask p" "WAL_RECOVER_LOCK \<notin> exclMask p" "WAL_READ_LOCK 1 \<notin> exclMask p"
    and fail: "\<And>h rc. rc \<noteq> SQLITE_OK \<Longrightarrow> goes c (p \<lparr> chdr := h \<rparr>) X (k rc)"
    and succ: "\<And>h i. i < WAL_NREADER \<Longrightarrow> goes c (reader (p \<lparr> chdr := h \<rparr>) i) X (k SQLITE_OK)"
  shows "goes c (p \<lparr> chdr := h \<rparr>) X (tryLoop c False n k)"
proof (induction n arbitrary: h)
  case (Suc n)
  have "goes c (p \<lparr> chdr := h \<rparr>) X (case r of None \<Rightarrow> tryLoop c False n k | Some rc \<Rightarrow> k rc)" if "r \<noteq> Some SQLITE_OK" for r h
    using that Suc.IH fail by (auto split: option.split)
  then show ?case
    unfolding tryLoop.simps by (intro goes_tryBegin [OF X(1)]) (use X(2) p succ in auto)
qed (simp add: fail)

lemma goes_tryLoopWal:
  assumes X: "firm c E X" "E \<subseteq> exclMask p" and p: "readLock p = None" "sharedMask p = {}" "\<forall>s. X s \<longrightarrow> \<not> resetting s"
    and fail: "\<And>rc. rc \<noteq> SQLITE_OK \<Longrightarrow> goes c p X (k rc)"
    and succ: "\<And>i. 0 < i \<Longrightarrow> i < WAL_NREADER \<Longrightarrow> goes c (reader p i) X (k SQLITE_OK)"
  shows "goes c p X (tryLoop c True n k)"
proof (induction n)
  case (Suc n)
  have "goes c p X (case r of None \<Rightarrow> tryLoop c True n k | Some rc \<Rightarrow> k rc)" if "r \<noteq> Some SQLITE_OK" for r
    using that Suc.IH fail by (auto split: option.split)
  then show ?case
    unfolding tryLoop.simps walTryBeginRead_def by (auto intro!: goes_tryMarks [OF X p(1,2)] succ simp: p(3) fail)
qed (simp add: fail)


section \<open>Write transactions\<close>

text \<open>The write lock keeps the header and the log.\<close>

definition writeFact :: "walIndexHdr \<Rightarrow> (u32 \<times> bytes) list \<Rightarrow> bool \<Rightarrow> shm \<Rightarrow> bool" where
  "writeFact H F b s \<longleftrightarrow> hdr s = H \<and> frames s = F \<and> resetting s = b"

lemma firm_write: "firm c {WAL_WRITE_LOCK} (writeFact H F b)"
proof (rule firmI)
  fix d s s'
  assume a: "d \<noteq> c" "walInv s" "walGuar d s s'" "{WAL_WRITE_LOCK} \<subseteq> exclMask (con s c)" "writeFact H F b s"
  then have "WAL_WRITE_LOCK \<notin> exclMask (con s d)" by (auto simp: walInv_def lockInv_def)
  then show "writeFact H F b s'" using a(3,5) by (auto simp: walGuar_def writeFact_def)
qed (auto simp: writeFact_def)

text \<open>A connection in a write transaction on top of the header \<open>H\<close>.\<close>

definition writer :: "conn \<Rightarrow> walIndexHdr \<Rightarrow> bool" where
  "writer p H \<longleftrightarrow> exclMask p = {WAL_WRITE_LOCK} \<and> hSalt (chdr p) = hSalt H \<and> mxFr H \<le> mxFr (chdr p) \<and>
     (case readLock p of None \<Rightarrow> sharedMask p = {} \<and> chdr p = H
      | Some j \<Rightarrow> sharedMask p = {WAL_READ_LOCK j} \<and> snap p = H \<and> (j = 0 \<longrightarrow> chdr p = H))"

lemma goes_writer_Done:
  assumes "writer p H" and "mxFr (chdr p) \<le> length F"
  shows "goes c p (writeFact H F b) (Done rc)"
  by (rule goes_Done [OF firm_write])
    (use assms in \<open>auto simp: writer_def walIdle_def writerOk_def writeFact_def Let_def split: option.splits\<close>)

lemma idle_writer:
  assumes "walIdle c s" and "writing c s"
  shows "writer (con s c) (hdr s)" and "mxFr (chdr (con s c)) \<le> length (frames s)"
  using assms by (auto simp: walIdle_def writing_def writer_def writerOk_def Let_def split: option.splits)

lemma idle_fact:
  assumes "walInv s" and "walIdle c s" and "writing c s"
  shows "writeFact (hdr s) (frames s) False s"
proof -
  have "WAL_READ_LOCK 1 \<notin> exclMask (con s c)" using assms(2) by (auto simp: walIdle_def Let_def)
  then have "calm (con s c) (\<lambda>_. True)" by (simp add: calm_def)
  then show ?thesis using calm_state [OF assms(1), of c "\<lambda>_. True"] assms(3) by (simp add: writeFact_def writing_def)
qed

lemma idle_reader:
  assumes "walIdle c s" and "\<not> writing c s"
  shows "exclMask (con s c) = {}" and "readLock (con s c) \<noteq> None \<Longrightarrow> chdr (con s c) = snap (con s c)"
    and "sharedMask (con s c) = (case readLock (con s c) of None \<Rightarrow> {} | Some j \<Rightarrow> {WAL_READ_LOCK j})"
  using assms by (auto simp: walIdle_def writing_def Let_def)

lemma goes_reader_Done:
  assumes "exclMask p = {}" and "sharedMask p = (case readLock p of None \<Rightarrow> {} | Some j \<Rightarrow> {WAL_READ_LOCK j})"
    and "readLock p \<noteq> None \<longrightarrow> chdr p = snap p"
  shows "goes c p (\<lambda>s. True) (Done rc)"
  by (rule goes_Done [OF firm_True, of "{}"]) (use assms in \<open>auto simp: walIdle_def Let_def\<close>)

definition ended :: "conn \<Rightarrow> conn" where
  "ended p = (case readLock p of None \<Rightarrow> p | Some i \<Rightarrow> unlocked (WAL_READ_LOCK i) 1 p \<lparr> readLock := None \<rparr>)"

lemma goes_endRead:
  assumes X: "firm c E X" "E \<subseteq> exclMask p" and "calm p X" and "goes c (ended p) X k"
  shows "goes c p X (change (endRead c) k)"
proof (rule goes_change [OF X _ assms(4)])
  fix s
  assume a: "walInv s" "con s c = p" "X s"
  have "\<not> resetting s \<or> WAL_WRITE_LOCK \<notin> exclMask (con s c)" by (rule calm_state [where X = X]) (use a assms(3) in auto)
  from step_endRead [OF a(1) this]
  show "(walInv (endRead c s) \<and> walGuar c s (endRead c s)) \<and> con (endRead c s) c = ended p \<and> X (endRead c s)"
    using a firm_upd [OF X(1)] by (auto simp: endRead_def ended_def shmUnlock_def unlocked_def split: option.split)
qed

lemma goes_endWrite:
  assumes "firm c {} X" and "firm c {WAL_WRITE_LOCK} Y" and "Y = (if WAL_WRITE_LOCK \<in> exclMask p then Y else X)"
    and "calm p Y" and "\<And>s. Y s \<Longrightarrow> X s" and "goes c (unlocked WAL_WRITE_LOCK 1 p) X k" and "WAL_WRITE_LOCK \<notin> exclMask p \<Longrightarrow> goes c p X k"
  shows "goes c p Y (endWrite c k)"
proof (cases "WAL_WRITE_LOCK \<in> exclMask p")
  case True
  then have E: "{WAL_WRITE_LOCK} \<subseteq> exclMask p" by simp
  have "goes c p Y (change (shmUnlock c WAL_WRITE_LOCK 1) k)"
  proof (rule goes_change [OF assms(2) E _ assms(6)])
    fix s
    assume a: "walInv s" "con s c = p" "Y s"
    have "\<not> resetting s \<or> WAL_WRITE_LOCK \<notin> exclMask (con s c)" by (rule calm_state [where X = Y]) (use a assms(4) in auto)
    then have "walInv (shmUnlock c WAL_WRITE_LOCK 1 s) \<and> walGuar c s (shmUnlock c WAL_WRITE_LOCK 1 s)"
      by (intro step_unlock [OF a(1)]) auto
    then show "(walInv (shmUnlock c WAL_WRITE_LOCK 1 s) \<and> walGuar c s (shmUnlock c WAL_WRITE_LOCK 1 s)) \<and>
        con (shmUnlock c WAL_WRITE_LOCK 1 s) c = unlocked WAL_WRITE_LOCK 1 p \<and> X (shmUnlock c WAL_WRITE_LOCK 1 s)"
      using a firm_upd [OF assms(1) assms(5) [OF a(3)]] by (simp add: shmUnlock_def unlocked_def)
  qed
  then show ?thesis
    unfolding endWrite_def walUnlockExclusive_def change_def
    by (intro goes_look [OF assms(2) E]) (use True in \<open>auto intro: onwardI\<close>)
next
  case False
  then have "firm c {} Y" using assms(1,3) by simp
  then show ?thesis
    unfolding endWrite_def
    by (rule goes_look) (use False assms(5,7) in \<open>auto intro: onwardI [where X = X]\<close>)
qed


lemma call_BeginRead:
  assumes "walInv s" and "walIdle c s" and "c < nConn s" and "callOk c s BeginRead"
  shows "onward c s (sqlite3WalBeginReadTransaction c)"
proof -
  let ?p = "con s c"
  have p: "readLock ?p = None" "exclMask ?p = {}" "sharedMask ?p = {}"
    using idle_reader [OF assms(2)] assms(4) by auto
  have "goes c (?p \<lparr> chdr := chdr ?p \<rparr>) (\<lambda>s. True) (tryLoop c False 101 Done)"
    by (rule goes_tryLoop [OF firm_True, of "{}"]) (use p in \<open>auto simp: reader_def intro!: goes_reader_Done\<close>)
  then show ?thesis using assms(3) unfolding sqlite3WalBeginReadTransaction_def by (intro onwardI [where X = "\<lambda>s. True"]) simp_all
qed

lemma ended_idle:
  "sharedMask p = (case readLock p of None \<Rightarrow> {} | Some j \<Rightarrow> {WAL_READ_LOCK j}) \<Longrightarrow> exclMask p = {} \<Longrightarrow>
   exclMask (ended p) = {} \<and> sharedMask (ended p) = {} \<and> readLock (ended p) = None"
  by (auto simp: ended_def unlocked_def split: option.splits)

lemma unlocked_write:
  "exclMask p \<subseteq> {WAL_WRITE_LOCK} \<Longrightarrow> WAL_WRITE_LOCK \<notin> sharedMask p \<Longrightarrow> unlocked WAL_WRITE_LOCK 1 p = p \<lparr> exclMask := {} \<rparr>"
  by (cases p) (auto simp: unlocked_def)

lemma idle_masks:
  assumes "walIdle c s"
  shows "exclMask (con s c) \<subseteq> {WAL_WRITE_LOCK}" and "WAL_WRITE_LOCK \<notin> sharedMask (con s c)"
    and "sharedMask (con s c) = (case readLock (con s c) of None \<Rightarrow> {} | Some j \<Rightarrow> {WAL_READ_LOCK j})"
  using assms by (auto simp: walIdle_def Let_def split: option.splits)

text \<open>The end of a write transaction, for a continuation that does not need the write lock.\<close>

lemma onward_endWrite:
  assumes "walInv s" and "walIdle c s" and "c < nConn s" and "goes c (con s c \<lparr> exclMask := {} \<rparr>) (\<lambda>s. True) k"
  shows "onward c s (endWrite c k)"
proof (cases "writing c s")
  case True
  note m = idle_masks [OF assms(2)]
  have "goes c (con s c) (writeFact (hdr s) (frames s) False) (endWrite c k)"
    by (rule goes_endWrite [OF firm_True firm_write])
      (use True assms(4) unlocked_write [OF m(1,2)] in \<open>auto simp: writing_def calm_def writeFact_def\<close>)
  then show ?thesis using idle_fact [OF assms(1,2) True] assms(3) by (auto intro: onwardI)
next
  case False
  then have e: "con s c \<lparr> exclMask := {} \<rparr> = con s c" using idle_reader(1) [OF assms(2) False] by simp
  have "goes c (con s c) (\<lambda>s. True) (endWrite c k)"
    unfolding endWrite_def by (rule goes_look [OF firm_True, of "{}"]) (use False assms(4) in \<open>auto simp: writing_def e intro!: onwardI\<close>)
  then show ?thesis using assms(3) by (intro onwardI [where X = "\<lambda>s. True"]) simp_all
qed

lemma call_EndRead:
  assumes "walInv s" and "walIdle c s" and "c < nConn s"
  shows "onward c s (sqlite3WalEndReadTransaction c)"
proof -
  let ?p = "con s c \<lparr> exclMask := {} \<rparr>"
  have "goes c ?p (\<lambda>s. True) (change (endRead c) (Done SQLITE_OK))"
    by (rule goes_endRead [OF firm_True, of "{}"])
      (use ended_idle [of ?p] idle_masks(3) [OF assms(2)] in \<open>auto simp: calm_def intro!: goes_reader_Done\<close>)
  then show ?thesis unfolding sqlite3WalEndReadTransaction_def by (rule onward_endWrite [OF assms])
qed

lemma call_EndWrite:
  assumes "walInv s" and "walIdle c s" and "c < nConn s" and "callOk c s EndWrite"
  shows "onward c s (sqlite3WalEndWriteTransaction c)"
proof -
  have "goes c (con s c \<lparr> exclMask := {} \<rparr>) (\<lambda>s. True) (Done SQLITE_OK)"
    using idle_writer [OF assms(2)] assms(4) idle_masks(3) [OF assms(2)]
    by (intro goes_reader_Done) (auto simp: writer_def split: option.splits)
  then show ?thesis unfolding sqlite3WalEndWriteTransaction_def by (rule onward_endWrite [OF assms(1-3)])
qed

lemma call_BeginWrite:
  assumes "walInv s" and "walIdle c s" and "c < nConn s" and "callOk c s BeginWrite"
  shows "onward c s (sqlite3WalBeginWriteTransaction c)"
proof -
  let ?p = "con s c" and ?L = "{WAL_WRITE_LOCK..<WAL_WRITE_LOCK + 1}"
  note r = idle_reader [OF assms(2)]
  obtain j where j: "readLock ?p = Some j" using assms(4) by auto
  have p: "exclMask ?p = {}" "chdr ?p = snap ?p" "sharedMask ?p = {WAL_READ_LOCK j}" using r assms(4) j by auto
  have d: "goes c ?p (\<lambda>s. True) (Done rc)" for rc by (rule goes_reader_Done) (use p j in auto)
  let ?q = "?p \<lparr> exclMask := ?L \<union> exclMask ?p \<rparr>"
  let ?chk = "look (\<lambda>s. chdr (con s c) \<noteq> hdr s) (\<lambda>differs.
         if differs then walUnlockExclusive c WAL_WRITE_LOCK 1 (Done SQLITE_BUSY_SNAPSHOT) else Done SQLITE_OK)"
  have chk: "goes c ?q (\<lambda>s. True) ?chk"
  proof (rule goes_look [OF firm_True, of "{}"])
    fix t
    assume a: "walInv t" "con t c = ?q" "c < nConn t"
    have un: "goes c ?q (\<lambda>s. True) (walUnlockExclusive c WAL_WRITE_LOCK 1 (Done SQLITE_BUSY_SNAPSHOT))"
      using unlocked_excl [of WAL_WRITE_LOCK 1 ?p] d p j by (intro goes_unlock(1) [OF firm_True, of "{}"]) (auto simp: calm_def)
    show "onward c t (if chdr (con t c) \<noteq> hdr t then walUnlockExclusive c WAL_WRITE_LOCK 1 (Done SQLITE_BUSY_SNAPSHOT) else Done SQLITE_OK)"
    proof (cases "chdr (con t c) = hdr t")
      case True
      have "\<not> resetting t" using calm_state [OF a(1), of c "\<lambda>_. True"] a(2) p by (auto simp: calm_def)
      then have f: "writeFact (hdr t) (frames t) False t" by (simp add: writeFact_def)
      have "mxFr (hdr t) \<le> length (frames t)" using a(1) by (simp add: walInv_def logInv_def)
      then have "goes c ?q (writeFact (hdr t) (frames t) False) (Done SQLITE_OK)"
        using True a(2) p j by (intro goes_writer_Done) (auto simp: writer_def)
      then show ?thesis using True f a(2,3) by (auto intro: onwardI)
    qed (use un a in \<open>auto intro: onwardI\<close>)
  qed simp
  have "goes c ?p (\<lambda>s. True) (walLockExclusive c WAL_WRITE_LOCK 1 (\<lambda>rc. if rc \<noteq> SQLITE_OK then Done rc else ?chk))"
    by (rule goes_lockExclusive [OF firm_True, of "{}"]) (use d chk in auto)
  then have "goes c ?p (\<lambda>s. True) (sqlite3WalBeginWriteTransaction c)"
    unfolding sqlite3WalBeginWriteTransaction_def by (intro goes_look_any [OF firm_True, of "{}"]) (use d in auto)
  then show ?thesis using assms(3) by (intro onwardI [where X = "\<lambda>s. True"]) simp_all
qed

lemma guar_upd:
  "walGuar c (upd c f s) t \<Longrightarrow> exclMask (f (con s c)) = exclMask (con s c) \<Longrightarrow> readLock (f (con s c)) = readLock (con s c) \<Longrightarrow>
   snap (f (con s c)) = snap (con s c) \<Longrightarrow> walGuar c s t"
  by (auto simp: walGuar_def)

lemma call_Undo:
  assumes "walInv s" and "walIdle c s" and "c < nConn s" and "callOk c s Undo"
  shows "onward c s (walUndo c)"
proof -
  let ?p = "con s c" and ?H = "hdr s" and ?F = "frames s"
  have w: "writer ?p ?H" "mxFr (chdr ?p) \<le> length ?F" using idle_writer [OF assms(2)] assms(4) by auto
  have q: "writer (?p \<lparr> chdr := ?H \<rparr>) ?H" using w(1) by (auto simp: writer_def split: option.splits)
  have l: "mxFr ?H \<le> length ?F" using w by (simp add: writer_def)
  have "goes c ?p (writeFact ?H ?F False) (change (undoWrite c) (Done SQLITE_OK))"
  proof (rule goes_change [OF firm_write])
    show "{WAL_WRITE_LOCK} \<subseteq> exclMask ?p" using w(1) by (auto simp: writer_def)
    show "goes c (?p \<lparr> chdr := ?H \<rparr>) (writeFact ?H (take (mxFr ?H) ?F) False) (Done SQLITE_OK)"
      by (rule goes_writer_Done [OF q]) (use l in simp)
    fix t
    assume a: "walInv t" "con t c = ?p" "writeFact ?H ?F False t"
    let ?t = "upd c (\<lambda>p. p \<lparr> chdr := hdr t \<rparr>) t"
    have st: "walInv (?t \<lparr> frames := take (mxFr (hdr t)) (frames t) \<rparr>) \<and> walGuar c ?t (?t \<lparr> frames := take (mxFr (hdr t)) (frames t) \<rparr>)"
      using step_chdr [OF a(1), of c "hdr t"] a w l by (intro step_frames) (auto simp: writer_def writeFact_def)
    have u: "undoWrite c t = ?t \<lparr> frames := take (mxFr (hdr t)) (frames t) \<rparr>" by (simp add: undoWrite_def loadHdr_def)
    have "walGuar c t (undoWrite c t)" unfolding u by (rule guar_upd [OF conjunct2 [OF st]]) auto
    then show "(walInv (undoWrite c t) \<and> walGuar c t (undoWrite c t)) \<and> con (undoWrite c t) c = ?p \<lparr> chdr := ?H \<rparr> \<and>
        writeFact ?H (take (mxFr ?H) ?F) False (undoWrite c t)"
      using st u a by (auto simp: writeFact_def)
  qed
  then show ?thesis using idle_fact [OF assms(1,2)] assms(3,4) unfolding walUndo_def by (auto intro: onwardI)
qed


text \<open>The restart of the log: the continuation is proved for the writer before and after a restart.\<close>

lemma inv_readOk: "walInv s \<Longrightarrow> readLock (con s c) = Some j \<Longrightarrow> readOk s (con s c) j"
  by (simp add: walInv_def readInv_def)

lemma writer_excl: "writer p H \<Longrightarrow> {WAL_WRITE_LOCK} \<subseteq> exclMask p"
  by (simp add: writer_def)

lemma goes_again:
  assumes p: "writer p H" "readLock p = Some 0"
    and fail: "\<And>rc. rc \<noteq> SQLITE_OK \<Longrightarrow> goes c (p \<lparr> sharedMask := {}, readLock := None \<rparr>) (writeFact H F False) (k rc)"
    and succ: "\<And>i. 0 < i \<Longrightarrow> i < WAL_NREADER \<Longrightarrow> goes c (reader (p \<lparr> sharedMask := {}, readLock := None \<rparr>) i) (writeFact H F False) (k SQLITE_OK)"
  shows "goes c p (writeFact H F False) (change (endRead c) (tryLoop c True 101 k))"
proof (rule goes_endRead [OF firm_write writer_excl [OF p(1)]])
  have e: "ended p = p \<lparr> sharedMask := {}, readLock := None \<rparr>"
    using p by (cases p) (auto simp: ended_def unlocked_def writer_def)
  have "WAL_WRITE_LOCK \<in> exclMask p" using p(1) by (simp add: writer_def)
  then show "goes c (ended p) (writeFact H F False) (tryLoop c True 101 k)"
    unfolding e by (intro goes_tryLoopWal [OF firm_write]) (use fail succ in \<open>auto simp: writeFact_def\<close>)
qed (simp add: calm_def writeFact_def)

lemma goes_clearMarks:
  assumes "firm c E X" and "E \<subseteq> exclMask p" and "\<forall>i \<in> set is. WAL_READ_LOCK i \<in> exclMask p" and "goes c p X k"
  shows "goes c p X (clearMarks is k)"
  using assms(3) by (induction "is") (auto intro!: goes_mark [OF assms(1,2)] simp: assms(4))

lemma goes_restart:
  assumes p: "writer p H" "readLock p = Some 0" "0 < mxFr H"
    and k: "\<And>p' H'. writer p' H' \<Longrightarrow> readLock p' = Some 0 \<Longrightarrow> mxFr H' = 0 \<Longrightarrow> nPg H' = nPg H \<Longrightarrow> goes c p' (writeFact H' F False) k"
  shows "goes c (p \<lparr> exclMask := {WAL_READ_LOCK 1..<WAL_READ_LOCK 1 + (WAL_NREADER - 1)} \<union> exclMask p \<rparr>) (writeFact H F False)
    (change (restartHdr c)
      (change (\<lambda>s. s \<lparr> nBack := 0, resetting := False \<rparr>)
        (change (\<lambda>s. s \<lparr> marks := (marks s)[1 := 0] \<rparr>)
          (clearMarks [2..<WAL_NREADER] (walUnlockExclusive c (WAL_READ_LOCK 1) (WAL_NREADER - 1) k)))))"
proof -
  define H' where "H' = H \<lparr> mxFr := 0, hSalt := hSalt H + 1 \<rparr>"
  let ?L = "{WAL_READ_LOCK 1..<WAL_READ_LOCK 1 + (WAL_NREADER - 1)}"
  let ?p = "p \<lparr> exclMask := ?L \<union> exclMask p \<rparr>"
  let ?q = "?p \<lparr> chdr := H', snap := H' \<rparr>"
  have m: "exclMask p = {WAL_WRITE_LOCK}" "sharedMask p = {WAL_READ_LOCK 0}" "snap p = H" "chdr p = H"
    using p by (auto simp: writer_def)
  have E: "{WAL_WRITE_LOCK} \<subseteq> exclMask ?p" "{WAL_WRITE_LOCK} \<subseteq> exclMask ?q" using m by auto
  have "writer (p \<lparr> chdr := H', snap := H' \<rparr>) H'" using p m by (simp add: writer_def)
  then have kk: "goes c (p \<lparr> chdr := H', snap := H' \<rparr>) (writeFact H' F False) k" by (rule k) (use p H'_def in auto)
  have "unlocked (WAL_READ_LOCK 1) (WAL_NREADER - 1) ?q = p \<lparr> chdr := H', snap := H' \<rparr>"
    using m by (cases p) (auto simp: unlocked_def WAL_NREADER_def)
  then have "goes c ?q (writeFact H' F False) (walUnlockExclusive c (WAL_READ_LOCK 1) (WAL_NREADER - 1) k)"
    by (intro goes_unlock(1) [OF firm_write E(2)]) (use kk p(2) in \<open>auto simp: calm_def writeFact_def\<close>)
  then have "goes c ?q (writeFact H' F False) (change (\<lambda>s. s \<lparr> marks := (marks s)[1 := 0] \<rparr>)
      (clearMarks [2..<WAL_NREADER] (walUnlockExclusive c (WAL_READ_LOCK 1) (WAL_NREADER - 1) k)))"
    by (intro goes_mark [OF firm_write E(2)] goes_clearMarks [OF firm_write E(2)]) (auto simp: WAL_NREADER_def)
  note marks = this
  have c2: "goes c ?q (writeFact H' F True) (change (\<lambda>s. s \<lparr> nBack := 0, resetting := False \<rparr>)
      (change (\<lambda>s. s \<lparr> marks := (marks s)[1 := 0] \<rparr>)
        (clearMarks [2..<WAL_NREADER] (walUnlockExclusive c (WAL_READ_LOCK 1) (WAL_NREADER - 1) k))))"
  proof (rule goes_change [OF firm_write E(2) _ marks])
    fix s
    assume a: "walInv s" "con s c = ?q" "writeFact H' F True s"
    have "walInv (s \<lparr> nBack := 0, resetting := False \<rparr>) \<and> walGuar c s (s \<lparr> nBack := 0, resetting := False \<rparr>)"
      by (rule step_clear [OF a(1)]) (use a(2,3) E(2) in \<open>auto simp: writeFact_def\<close>)
    then show "(walInv (s \<lparr> nBack := 0, resetting := False \<rparr>) \<and> walGuar c s (s \<lparr> nBack := 0, resetting := False \<rparr>)) \<and>
        con (s \<lparr> nBack := 0, resetting := False \<rparr>) c = ?q \<and> writeFact H' F False (s \<lparr> nBack := 0, resetting := False \<rparr>)"
      using a(2,3) by (simp add: writeFact_def)
  qed
  show ?thesis
  proof (rule goes_change [OF firm_write E(1) _ c2])
    fix s
    assume a: "walInv s" "con s c = ?p" "writeFact H F False s"
    have "readOk s (con s c) 0" by (rule inv_readOk [OF a(1)]) (use a(2) p(2) in simp)
    then have "0 < nBack s" using a p(3) m by (auto simp: readOk_def snapOk_def writeFact_def)
    then have "walInv (restartHdr c s) \<and> walGuar c s (restartHdr c s)"
      by (intro step_restart [OF a(1)]) (use a p(2) m in \<open>auto simp: writeFact_def WAL_NREADER_def\<close>)
    then show "(walInv (restartHdr c s) \<and> walGuar c s (restartHdr c s)) \<and> con (restartHdr c s) c = ?q \<and> writeFact H' F True (restartHdr c s)"
      using a m by (auto simp: restartHdr_def writeFact_def H'_def Let_def)
  qed
qed

lemma goes_restartLog:
  assumes p: "writer p H" "readLock p = Some j" and F: "mxFr (chdr p) \<le> length F"
    and fail: "\<And>rc p' H'. rc \<noteq> SQLITE_OK \<Longrightarrow> writer p' H' \<Longrightarrow> mxFr (chdr p') \<le> length F \<Longrightarrow> goes c p' (writeFact H' F False) (k rc)"
    and succ: "\<And>p' H' i. writer p' H' \<Longrightarrow> readLock p' = Some i \<Longrightarrow> 0 < i \<Longrightarrow> nPg H' = nPg H \<Longrightarrow> mxFr (chdr p') \<le> length F \<Longrightarrow>
      chdr p' = H' \<and> chdr p = H \<or> chdr p' = chdr p \<and> H' = H \<Longrightarrow> goes c p' (writeFact H' F False) (k SQLITE_OK)"
  shows "goes c p (writeFact H F False) (walRestartLog c k)"
proof -
  let ?again = "change (endRead c) (tryLoop c True 101 k)"
  have again: "goes c p' (writeFact H' F False) ?again"
    if w: "writer p' H'" "readLock p' = Some 0" and H: "nPg H' = nPg H" "mxFr H' \<le> length F" "chdr p = H" for p' H'
  proof (rule goes_again [OF w])
    let ?q = "p' \<lparr> sharedMask := {}, readLock := None \<rparr>"
    have m: "chdr p' = H'" "exclMask p' = {WAL_WRITE_LOCK}" using w by (auto simp: writer_def)
    show "goes c ?q (writeFact H' F False) (k rc)" if "rc \<noteq> SQLITE_OK" for rc
      by (rule fail [OF that]) (use m H in \<open>auto simp: writer_def\<close>)
    show "goes c (reader ?q i) (writeFact H' F False) (k SQLITE_OK)" if "0 < i" "i < WAL_NREADER" for i
      by (rule succ [where i = i]) (use m H that in \<open>auto simp: writer_def reader_def\<close>)
  qed
  define restart where "restart = change (restartHdr c) (change (\<lambda>s. s \<lparr> nBack := 0, resetting := False \<rparr>)
    (change (\<lambda>s. s \<lparr> marks := (marks s)[1 := 0] \<rparr>) (clearMarks [2..<WAL_NREADER]
      (walUnlockExclusive c (WAL_READ_LOCK 1) (WAL_NREADER - 1) ?again))))"
  define locked where "locked = walLockExclusive c (WAL_READ_LOCK 1) (WAL_NREADER - 1) (\<lambda>rc.
    if rc = SQLITE_OK then restart else if rc \<noteq> SQLITE_BUSY then k rc else ?again)"
  have *: "goes c p (writeFact H F False) (look (\<lambda>s. nBack s > 0) (\<lambda>some. if some then locked else ?again))" if j: "j = 0"
  proof (rule goes_look [OF firm_write writer_excl [OF p(1)]], goal_cases)
    case (1 s)
    have m: "chdr p = H" "snap p = H" using p j by (auto simp: writer_def)
    have ag: "goes c p (writeFact H F False) ?again" by (rule again [OF p(1)]) (use p(2) j m F in auto)
    have "goes c p (writeFact H F False) locked" if some: "0 < nBack s"
    proof -
      have "readOk s (con s c) 0" by (rule inv_readOk [OF 1(1)]) (use 1(2) p(2) j in simp)
      then have "0 < mxFr H" using some 1 m by (auto simp: readOk_def snapOk_def writeFact_def)
      then have "goes c (p \<lparr> exclMask := {WAL_READ_LOCK 1..<WAL_READ_LOCK 1 + (WAL_NREADER - 1)} \<union> exclMask p \<rparr>) (writeFact H F False) restart"
        unfolding restart_def by (intro goes_restart [OF p(1)] again) (use p(2) j m in auto)
      then show ?thesis
        unfolding locked_def by (intro goes_lockExclusive [OF firm_write writer_excl [OF p(1)]]) (use ag fail [OF _ p(1) F] in simp_all)
    qed
    then show ?case using ag 1 by (auto intro: onwardI)
  qed
  have "goes c p (writeFact H F False) (k SQLITE_OK)" if "j \<noteq> 0" by (rule succ [OF p]) (use that F in auto)
  then show ?thesis
    unfolding walRestartLog_def Let_def restart_def [symmetric] locked_def [symmetric]
    by (intro goes_look [OF firm_write writer_excl [OF p(1)]]) (use p(2) * in \<open>auto intro: onwardI\<close>)
qed

text \<open>Appending frames: \<open>G\<close> is the log, of which the first \<open>n\<close> frames stay.\<close>

lemma goes_writeFrames:
  assumes p: "writer p H" and "mxFr H \<le> n" and "n \<le> length G"
    and fail: "\<And>rc G'. rc \<noteq> SQLITE_OK \<Longrightarrow> n \<le> length G' \<Longrightarrow> goes c p (writeFact H G' False) (k rc)"
    and succ: "\<And>G'. n + length ps \<le> length G' \<Longrightarrow> take (n + length ps) G' = take n G @ ps \<Longrightarrow> goes c p (writeFact H G' False) (k SQLITE_OK)"
  shows "goes c p (writeFact H G False) (writeFrames c n ps k)"
  using assms(2-5)
proof (induction ps arbitrary: n G)
  case Nil
  then show ?case by simp
next
  case (Cons x ps)
  let ?G = "take n G @ [x]"
  have go: "goes c p (writeFact H ?G False) (writeFrames c (n + 1) ps k)"
  proof (rule Cons.IH)
    show "mxFr H \<le> n + 1" "n + 1 \<le> length ?G" using Cons.prems(1,2) by auto
    show "goes c p (writeFact H G' False) (k rc)" if "rc \<noteq> SQLITE_OK" "n + 1 \<le> length G'" for rc G'
      using that by (intro Cons.prems(3)) auto
    show "goes c p (writeFact H G' False) (k SQLITE_OK)"
      if "n + 1 + length ps \<le> length G'" "take (n + 1 + length ps) G' = take (n + 1) ?G @ ps" for G'
      using that Cons.prems(2) by (intro Cons.prems(4)) auto
  qed
  have bad: "goes c p (writeFact H (take n G) False) (k rc)" if "rc \<noteq> SQLITE_OK" for rc
    using that Cons.prems(2) by (intro Cons.prems(3)) auto
  show ?case
    unfolding writeFrames.simps
  proof (rule goes_atom [OF firm_write writer_excl [OF p]], goal_cases)
    case (1 e s s' k')
    have st: "walInv (s \<lparr> frames := G' \<rparr>) \<and> walGuar c s (s \<lparr> frames := G' \<rparr>)" if "take n G' = take n G" "n \<le> length G'" for G'
      by (rule step_frames [OF 1(2)]) (use that 1 p Cons.prems(1) take_eq_mono [of "mxFr H" n] in \<open>auto simp: writer_def writeFact_def\<close>)
    have "onward c (s \<lparr> frames := ?G \<rparr>) (writeFrames c (n + 1) ps k)"
      by (rule onwardI [where X = "writeFact H ?G False"]) (use go 1 in \<open>auto simp: writeFact_def\<close>)
    moreover have "onward c (s \<lparr> frames := take n G \<rparr>) (k e)" if "e \<noteq> SQLITE_OK"
      by (rule onwardI [where X = "writeFact H (take n G) False"]) (use bad [OF that] 1 in \<open>auto simp: writeFact_def\<close>)
    ultimately show ?case
      using st [of "take n G"] st [of ?G] 1(1,5) Cons.prems(2) by (auto simp: writeFact_def split: if_splits)
  qed
qed

lemma goes_publish:
  assumes p: "writer p H" "readLock p = Some i" "0 < i" and n: "mxFr (chdr p) < n" "n \<le> length G"
    and grow: "isCommit \<Longrightarrow> \<forall>q. nPg H < q \<and> q \<le> nTruncate \<longrightarrow> q \<in> set (map fst (drop (mxFr H) (take n G)))"
  shows "goes c p (writeFact H G False) (change (publish c n nTruncate isCommit) (Done SQLITE_OK))"
proof (rule goes_changeD [OF firm_write writer_excl [OF p(1)]])
  fix s
  assume a: "walInv s" "con s c = p" "c < nConn s" "writeFact H G False s"
  let ?s = "publish c n nTruncate isCommit s"
  have m: "snap p = H" "hSalt (chdr p) = hSalt H" "mxFr H \<le> mxFr (chdr p)" "exclMask p = {WAL_WRITE_LOCK}" "sharedMask p = {WAL_READ_LOCK i}"
    using p by (auto simp: writer_def)
  have st: "walInv ?s \<and> walGuar c s ?s"
  proof (cases isCommit)
    case True
    have "walInv (publish c n nTruncate True s) \<and> walGuar c s (publish c n nTruncate True s)"
      by (rule step_publish [where j = i]) (use True grow a(1,2,4) p m n in \<open>auto simp: writeFact_def pubNew_def pubReady_def\<close>)
    then show ?thesis using True by simp
  next
    case False
    then have s': "?s = upd c (\<lambda>p. p \<lparr> chdr := chdr (con s c) \<lparr> mxFr := n \<rparr> \<rparr>) s" by (simp add: publish_def Let_def upd_def)
    show ?thesis unfolding s' by (rule step_chdr [OF a(1)])
  qed
  have "writer (con ?s c) (hdr ?s)" "mxFr (chdr (con ?s c)) \<le> length G" "writeFact (hdr ?s) G False ?s"
    using a(2,4) p m n by (auto simp: publish_def Let_def writer_def writeFact_def)
  then have "goes c (con ?s c) (writeFact (hdr ?s) G False) (Done SQLITE_OK)" "writeFact (hdr ?s) G False ?s" by (auto intro: goes_writer_Done)
  then show "(walInv ?s \<and> walGuar c s ?s) \<and> onward c ?s (Done SQLITE_OK)"
    using st a(3) by (auto intro!: onwardI simp: publish_def Let_def)
qed

lemma call_Frames:
  assumes "walInv s" and "walIdle c s" and "c < nConn s" and "callOk c s (Frames pList nTruncate isCommit)"
  shows "onward c s (walFrames c pList nTruncate isCommit)"
proof -
  let ?p = "con s c" and ?H = "hdr s" and ?F = "frames s"
  obtain j where j: "readLock ?p = Some j" using assms(4) by auto
  have w: "writer ?p ?H" "mxFr (chdr ?p) \<le> length ?F" using idle_writer [OF assms(2)] assms(4) by auto
  have ne: "pList \<noteq> []" using assms(4) by (auto simp: pages_valid_def)
  have new: "q \<in> fst ` set (drop (mxFr ?H) (take (mxFr (chdr ?p)) ?F) @ pList)" if "isCommit" "nPg ?H < q" "q \<le> nTruncate" for q
  proof -
    have "unat q \<in> set [unat (nPg ?H) + 1..<unat nTruncate + 1]" using that(2,3) by (auto simp: word_less_nat_alt word_le_nat_alt)
    then have "of_nat (unat q) \<in> fst ` set (drop (mxFr ?H) (take (mxFr (chdr ?p)) ?F) @ pList)"
      using assms(4) that(1) unfolding callOk.simps list_all_iff by blast
    then show ?thesis by simp
  qed
  have "goes c ?p (writeFact ?H ?F False) (walFrames c pList nTruncate isCommit)"
    unfolding walFrames_def
  proof (rule goes_restartLog [OF w(1) j w(2)])
    fix p' H' i
    assume p': "writer p' H'" "readLock p' = Some i" "0 < i" "nPg H' = nPg ?H" "mxFr (chdr p') \<le> length ?F"
      and same: "chdr p' = H' \<and> chdr ?p = ?H \<or> chdr p' = chdr ?p \<and> H' = ?H"
    have pub: "goes c p' (writeFact H' G False) (change (publish c (mxFr (chdr p') + length pList) nTruncate isCommit) (Done SQLITE_OK))"
      if G: "mxFr (chdr p') + length pList \<le> length G" "take (mxFr (chdr p') + length pList) G = take (mxFr (chdr p')) ?F @ pList" for G
    proof (rule goes_publish [OF p'(1-3)])
      have "q \<in> set (map fst (drop (mxFr H') (take (mxFr (chdr p')) ?F @ pList)))" if "isCommit" "nPg H' < q" "q \<le> nTruncate" for q
        using new [of q] same p' that by (auto simp: writer_def)
      then show "\<forall>q. nPg H' < q \<and> q \<le> nTruncate \<longrightarrow> q \<in> set (map fst (drop (mxFr H') (take (mxFr (chdr p') + length pList) G)))"
        if "isCommit" using that G(2) by auto
    qed (use ne G(1) in auto)
    have "goes c p' (writeFact H' ?F False) (writeFrames c (mxFr (chdr p')) pList (\<lambda>rc. if rc \<noteq> SQLITE_OK then Done rc
         else change (publish c (mxFr (chdr p') + length pList) nTruncate isCommit) (Done SQLITE_OK)))"
    proof (rule goes_writeFrames [OF p'(1)])
      show "mxFr H' \<le> mxFr (chdr p')" using p'(1) by (simp add: writer_def)
    qed (use p'(5) pub goes_writer_Done [OF p'(1)] in auto)
    then show "goes c p' (writeFact H' ?F False) (if SQLITE_OK \<noteq> SQLITE_OK then Done SQLITE_OK
        else look (\<lambda>s. mxFr (chdr (con s c))) (\<lambda>mx. writeFrames c mx pList (\<lambda>rc.
         if rc \<noteq> SQLITE_OK then Done rc
         else change (publish c (mx + length pList) nTruncate isCommit) (Done SQLITE_OK))))"
      by (auto intro!: goes_look [OF firm_write writer_excl [OF p'(1)]] intro: onwardI)
  qed (auto intro: goes_writer_Done)
  then show ?thesis using idle_fact [OF assms(1,2)] assms(3,4) by (auto intro: onwardI)
qed


section \<open>Checkpoints\<close>

text \<open>While a connection holds the checkpoint lock, the log is not restarted, so the header it has read stays
  current. \<open>T\<close> is the log up to that header, and \<open>b\<close> a bound for the snapshots of the readers whose mark is in \<open>J\<close>.\<close>

definition ckFact :: "nat \<Rightarrow> walIndexHdr \<Rightarrow> (u32 \<times> bytes) list \<Rightarrow> nat set \<Rightarrow> nat \<Rightarrow> shm \<Rightarrow> bool" where
  "ckFact c h T J b s \<longleftrightarrow> current s h \<and> take (mxFr h) (frames s) = T \<and>
     (\<forall>d j. d \<noteq> c \<and> readLock (con s d) = Some j \<and> 0 < j \<and> j \<in> J \<longrightarrow> b \<le> mxFr (snap (con s d)))"

lemma ck_current:
  assumes "d \<noteq> c" and "walInv s" and "walGuar d s s'" and "walAllowed d s s'" and "WAL_CKPT_LOCK \<in> exclMask (con s c)" and "current s h"
  shows "current s' h" and "take (mxFr h) (frames s') = take (mxFr h) (frames s)" and "hw s \<le> hw s'"
proof -
  have salt: "hSalt (hdr s') = hSalt (hdr s)" using assms(1,4,5) by (auto simp: walAllowed_def)
  then show "current s' h" using assms(3,6) by (auto simp: current_def walGuar_def map_le_def dom_def)
  have "mxFr h \<le> mxFr (hdr s)" using assms(2,6) by (simp add: walInv_def histInv_def)
  then show "take (mxFr h) (frames s') = take (mxFr h) (frames s)"
    by (rule take_eq_mono) (use assms(3) salt in \<open>simp add: walGuar_def\<close>)
  show "hw s \<le> hw s'" using assms(3) salt by (simp add: walGuar_def)
qed

lemma current_not_resetting: "walInv s \<Longrightarrow> current s h \<Longrightarrow> 0 < mxFr h \<Longrightarrow> \<not> resetting s"
  using current_le [of s h] by (auto simp: walInv_def fillInv_def)

lemma firm_current: "firm c {WAL_CKPT_LOCK} (\<lambda>s. current s h)"
  by (rule firmI) (auto intro: ck_current(1))

lemma firm_ck:
  assumes "b \<le> mxFr h"
  shows "firm c {WAL_CKPT_LOCK} (ckFact c h T J b)"
proof (rule firmI)
  fix d s s'
  assume a: "d \<noteq> c" "walInv s" "walInv s'" "walGuar d s s'" "walAllowed d s s'" "{WAL_CKPT_LOCK} \<subseteq> exclMask (con s c)"
    and x: "ckFact c h T J b s"
  have cur: "current s h" using x by (simp add: ckFact_def)
  note st = ck_current [OF a(1,2,4,5) _ cur]
  have h': "mxFr h \<le> mxFr (hdr s')" using current_le [OF a(3) st(1)] a(6) by simp
  have "b \<le> mxFr (snap (con s' e))" if r: "e \<noteq> c" "readLock (con s' e) = Some j" "0 < j" "j \<in> J" for e j
  proof (cases "e = d")
    case True
    then have "readLock (con s d) = Some j \<and> snap (con s' d) = snap (con s d) \<or> snap (con s' d) = hdr s'"
      using a(4) r by (simp add: walGuar_def)
    then show ?thesis using x r h' assms True by (auto simp: ckFact_def)
  next
    case False
    then show ?thesis using x r a(4) by (auto simp: ckFact_def walGuar_def)
  qed
  then show "ckFact c h T J b s'" using st a(6) x by (auto simp: ckFact_def)
qed (auto simp: ckFact_def current_def)

text \<open>Nobody else moves \<^verbatim>\<open>nBackfill\<close>.\<close>

lemma firm_back:
  assumes "0 < mxFr h"
  shows "firm c {WAL_CKPT_LOCK} (\<lambda>s. current s h \<and> nBack s = nb)"
proof (rule firmI)
  fix d s s'
  assume a: "d \<noteq> c" "walInv s" "walGuar d s s'" "walAllowed d s s'" "{WAL_CKPT_LOCK} \<subseteq> exclMask (con s c)" "current s h \<and> nBack s = nb"
  have "WAL_CKPT_LOCK \<notin> exclMask (con s d)" using a(1,2,5) unfolding walInv_def lockInv_def by blast
  moreover have "\<not> resetting s" using current_not_resetting [OF a(2) _ assms] a(6) by simp
  ultimately have "nBack s' = nBack s" using a(3) by (auto simp: walGuar_def)
  then show "current s' h \<and> nBack s' = nb" using ck_current(1) [OF a(1-4), of h] a(5,6) by simp
qed (auto simp: current_def)

text \<open>During the copy: the pages in \<open>D\<close> have the content of their last frame.\<close>

definition fillFact :: "walIndexHdr \<Rightarrow> (u32 \<times> bytes) list \<Rightarrow> nat \<Rightarrow> nat \<Rightarrow> u32 set \<Rightarrow> shm \<Rightarrow> bool" where
  "fillFact h T nb m D s \<longleftrightarrow> current s h \<and> take (mxFr h) (frames s) = T \<and> nBack s = nb \<and> m \<le> hw s \<and>
     (\<forall>q \<in> D. dbFile s q = snd (T ! (lastFrame (map fst T) q - 1)))"

lemma firm_fill:
  assumes "0 < mxFr h"
  shows "firm c {WAL_CKPT_LOCK, WAL_READ_LOCK 0} (fillFact h T nb m D)"
proof (rule firmI)
  fix d s s'
  assume a: "d \<noteq> c" "walInv s" "walGuar d s s'" "walAllowed d s s'" "{WAL_CKPT_LOCK, WAL_READ_LOCK 0} \<subseteq> exclMask (con s c)"
    and x: "fillFact h T nb m D s"
  have cur: "current s h" using x by (simp add: fillFact_def)
  have "WAL_CKPT_LOCK \<notin> exclMask (con s d)" "WAL_READ_LOCK 0 \<notin> exclMask (con s d)" using a(1,2,5) unfolding walInv_def lockInv_def by blast+
  moreover have "\<not> resetting s" by (rule current_not_resetting [OF a(2) cur assms])
  ultimately have "nBack s' = nBack s" "dbFile s' = dbFile s" using a(3) by (auto simp: walGuar_def)
  then show "fillFact h T nb m D s'" using ck_current [OF a(1-4) _ cur] a(5) x by (auto simp: fillFact_def)
qed (auto simp: fillFact_def current_def)

lemma pagesTo_T: "take (mxFr h) (frames s) = T \<Longrightarrow> pagesTo s h = map fst T"
  by (simp add: pagesTo_def)

lemma content_T: "take (mxFr h) (frames s) = T \<Longrightarrow> 0 < f \<Longrightarrow> f \<le> mxFr h \<Longrightarrow> content s f = snd (T ! (f - 1))"
  by (auto simp: content_def)


definition ckpter :: "conn \<Rightarrow> bool" where
  "ckpter p \<longleftrightarrow> readLock p = None \<and> sharedMask p = {} \<and> WAL_CKPT_LOCK \<in> exclMask p \<and> exclMask p \<subseteq> {WAL_WRITE_LOCK, WAL_CKPT_LOCK}"

definition ckBase :: "conn \<Rightarrow> shm \<Rightarrow> bool" where
  "ckBase p s \<longleftrightarrow> (WAL_WRITE_LOCK \<in> exclMask p \<longrightarrow> \<not> resetting s)"

lemma firm_base: "firm c (exclMask p) (ckBase p)"
proof (rule firmI)
  fix d s s'
  assume a: "d \<noteq> c" "walInv s" "walGuar d s s'" "exclMask p \<subseteq> exclMask (con s c)" "ckBase p s"
  show "ckBase p s'"
  proof (cases "WAL_WRITE_LOCK \<in> exclMask p")
    case True
    then have "WAL_WRITE_LOCK \<notin> exclMask (con s d)" using a(1,2,4) unfolding walInv_def lockInv_def by blast
    then show ?thesis using a(3,5) True by (auto simp: walGuar_def ckBase_def)
  qed (simp add: ckBase_def)
qed (auto simp: ckBase_def)

lemma goes_base:
  assumes "goes c p (ckBase p) k" and "firm c E X" and "E \<subseteq> exclMask p" and "\<And>s. X s \<Longrightarrow> current s h" and "0 < mxFr h"
  shows "goes c p X k"
  by (rule goes_pre [OF assms(1-3)]) (use assms(4,5) current_not_resetting in \<open>auto simp: ckBase_def\<close>)

text \<open>One mark under its lock: nobody else reads with it, so that the bound holds for it as well.\<close>

lemma goes_ckptMark:
  assumes p: "ckpter p" "0 < mxFr h" and b: "b \<le> mxFr h" "y \<le> mxFr h" and free: "{WAL_READ_LOCK i..<WAL_READ_LOCK i + 1} \<inter> (exclMask p \<union> sharedMask p) = {}"
    and go: "goes c p (ckFact c h T (insert i J) b) k"
  shows "goes c (p \<lparr> exclMask := {WAL_READ_LOCK i..<WAL_READ_LOCK i + 1} \<union> exclMask p \<rparr>)
    (\<lambda>s. ckFact c h T J b s \<and> ckFact c h T (insert i J) y s)
    (change (\<lambda>s. s \<lparr> marks := (marks s)[i := v] \<rparr>) (walUnlockExclusive c (WAL_READ_LOCK i) 1 k))"
proof -
  let ?p = "p \<lparr> exclMask := {WAL_READ_LOCK i..<WAL_READ_LOCK i + 1} \<union> exclMask p \<rparr>" and ?X = "ckFact c h T (insert i J) b"
  have E: "{WAL_CKPT_LOCK} \<subseteq> exclMask ?p" "{WAL_CKPT_LOCK} \<union> {WAL_CKPT_LOCK} \<subseteq> exclMask ?p" using p(1) by (auto simp: ckpter_def)
  have cl: "calm ?p ?X" using current_not_resetting p(2) by (auto simp: calm_def ckFact_def)
  have "goes c ?p ?X (walUnlockExclusive c (WAL_READ_LOCK i) 1 k)"
    by (rule goes_unlock(1) [OF firm_ck [OF b(1)] E(1) cl]) (use p(1) unlocked_excl [OF free] go in \<open>auto simp: ckpter_def\<close>)
  then have m: "goes c ?p ?X (change (\<lambda>s. s \<lparr> marks := (marks s)[i := v] \<rparr>) (walUnlockExclusive c (WAL_READ_LOCK i) 1 k))"
    by (intro goes_mark [OF firm_ck [OF b(1)] E(1)]) auto
  show ?thesis
  proof (rule goes_pre [OF m firm_conj [OF firm_ck [OF b(1)] firm_ck [OF b(2)]] E(2)])
    fix s
    assume s: "walInv s" "con s c = ?p" "ckFact c h T J b s \<and> ckFact c h T (insert i J) y s"
    have "readLock (con s d) \<noteq> Some i" for d
    proof
      assume "readLock (con s d) = Some i"
      then have "WAL_READ_LOCK i \<in> sharedMask (con s d)" using inv_readOk [OF s(1)] by (auto simp: readOk_def)
      moreover have "WAL_READ_LOCK i \<in> exclMask (con s c)" using s(2) by simp
      ultimately show False using s(1) unfolding walInv_def lockInv_def by blast
    qed
    then show "?X s" using s(3) by (auto simp: ckFact_def)
  qed
qed

lemma goes_ckptMarks:
  assumes p: "ckpter p" "0 < mxFr h" and b: "b \<le> mxFr h" and "is": "\<forall>i \<in> set is. 0 < i \<and> i < WAL_NREADER"
    and kout: "\<And>rc. goes c p (ckBase p) (kout rc)"
    and k: "\<And>rc xb m. m \<le> mxFr h \<Longrightarrow> goes c p (ckFact c h T (J \<union> set is) m) (k rc xb m)"
  shows "goes c p (ckFact c h T J b) (ckptMarks c n is rc xb b kout k)"
  using b "is" k
proof (induction "is" arbitrary: J b rc xb)
  case Nil
  then show ?case by simp
next
  case (Cons i "is")
  have E: "{WAL_CKPT_LOCK} \<subseteq> exclMask p" "{WAL_CKPT_LOCK} \<union> {WAL_CKPT_LOCK} \<subseteq> exclMask p" using p(1) by (auto simp: ckpter_def)
  have go: "goes c p (ckFact c h T (insert i J) m) (ckptMarks c n is rc xb m kout k)" if "m \<le> mxFr h" for rc xb m
    by (rule Cons.IH) (use Cons.prems that in auto)
  show ?case
    unfolding ckptMarks.simps
  proof (rule goes_look [OF firm_ck [OF Cons.prems(1)] E(1)], goal_cases)
    case (1 s)
    let ?y = "marks s ! i"
    have mark: "?y \<le> mxFr (snap (con s d))" if "readLock (con s d) = Some i" for d
      using inv_readOk [OF 1(1) that] Cons.prems(2) by (auto simp: readOk_def snapOk_def)
    show ?case
    proof (cases "b > ?y")
      case False
      have "ckFact c h T (insert i J) b s" using 1(4) mark False by (fastforce simp: ckFact_def)
      then show ?thesis using False go [OF Cons.prems(1)] 1 by (auto intro: onwardI)
    next
      case True
      then have y: "?y \<le> mxFr h" using Cons.prems(1) by simp
      define Y where "Y = (\<lambda>s. ckFact c h T J b s \<and> ckFact c h T (insert i J) ?y s)"
      have Y: "firm c ({WAL_CKPT_LOCK} \<union> {WAL_CKPT_LOCK}) Y"
        unfolding Y_def by (rule firm_conj [OF firm_ck [OF Cons.prems(1)] firm_ck [OF y]])
      have low: "goes c p Y (ckptMarks c n is rc False ?y kout k)" for rc by (rule goes_pre [OF go [OF y] Y E(2)]) (simp add: Y_def)
      have out: "goes c p Y (kout rc)" for rc by (rule goes_base [OF kout Y E(2) _ p(2)]) (simp add: Y_def ckFact_def)
      have set_mark: "{WAL_READ_LOCK i..<WAL_READ_LOCK i + 1} \<inter> (exclMask p \<union> sharedMask p) = {} \<Longrightarrow>
          goes c (p \<lparr> exclMask := {WAL_READ_LOCK i..<WAL_READ_LOCK i + 1} \<union> exclMask p \<rparr>) Y (change (\<lambda>s. s \<lparr> marks := (marks s)[i := v] \<rparr>)
            (walUnlockExclusive c (WAL_READ_LOCK i) 1 (ckptMarks c n is SQLITE_OK xb b kout k)))" for v
        unfolding Y_def by (rule goes_ckptMark [OF p Cons.prems(1) y _ go [OF Cons.prems(1)]])
      show ?thesis
        unfolding if_P [OF True]
      proof (rule onwardI [where X = Y], goal_cases)
        case 1
        show ?case
          unfolding \<open>con s c = p\<close> by (rule goes_busyLock [OF Y E(2)]) (use low out set_mark in simp_all)
      next
        case 3
        show ?case using 1(4) mark True by (fastforce simp: ckFact_def Y_def)
      qed (rule 1(3))
    qed
  qed
qed

text \<open>The copy. \<open>p\<close> holds the read lock 0 exclusively, \<open>kk\<close> is what follows its release.\<close>

definition copier :: "conn \<Rightarrow> bool" where
  "copier p \<longleftrightarrow> readLock p = None \<and> {WAL_CKPT_LOCK, WAL_READ_LOCK 0} \<subseteq> exclMask p \<and> WAL_READ_LOCK 1 \<notin> exclMask p"

lemma copier_excl: "copier p \<Longrightarrow> {WAL_CKPT_LOCK, WAL_READ_LOCK 0} \<subseteq> exclMask p"
  by (simp add: copier_def)

lemma goes_release0:
  assumes p: "copier p" "0 < mxFr h" and kk: "goes c (unlocked (WAL_READ_LOCK 0) 1 p) (ckBase p) k"
  shows "goes c p (fillFact h T nb m D) (walUnlockExclusive c (WAL_READ_LOCK 0) 1 k)"
  unfolding walUnlockExclusive_def change_def [symmetric]
proof (rule goes_change [OF firm_fill [OF p(2)] copier_excl [OF p(1)] _ kk])
  fix s
  assume a: "walInv s" "con s c = p" "fillFact h T nb m D s"
  have r: "\<not> resetting s" using current_not_resetting [OF a(1) _ p(2)] a(3) by (simp add: fillFact_def)
  then have "walInv (shmUnlock c (WAL_READ_LOCK 0) 1 s) \<and> walGuar c s (shmUnlock c (WAL_READ_LOCK 0) 1 s)"
    using a(2) p(1) by (intro step_unlock [OF a(1)]) (auto simp: copier_def)
  then show "(walInv (shmUnlock c (WAL_READ_LOCK 0) 1 s) \<and> walGuar c s (shmUnlock c (WAL_READ_LOCK 0) 1 s)) \<and>
      con (shmUnlock c (WAL_READ_LOCK 0) 1 s) c = unlocked (WAL_READ_LOCK 0) 1 p \<and> ckBase p (shmUnlock c (WAL_READ_LOCK 0) 1 s)"
    using a(2) r by (simp add: shmUnlock_def unlocked_def ckBase_def)
qed

text \<open>A page that has to be copied.\<close>

definition dueIn :: "walIndexHdr \<Rightarrow> (u32 \<times> bytes) list \<Rightarrow> nat \<Rightarrow> nat \<Rightarrow> u32 \<Rightarrow> bool" where
  "dueIn h T nb m q \<longleftrightarrow> pageIn q h \<and> nb < lastFrame (map fst T) q \<and> lastFrame (map fst T) q \<le> m"

lemma goes_done:
  assumes p: "copier p" "0 < mxFr h" and m: "nb < m" "m \<le> mxFr h" and D: "\<And>q. dueIn h T nb m q \<Longrightarrow> q \<in> D"
    and kk: "goes c (unlocked (WAL_READ_LOCK 0) 1 p) (ckBase p) k"
  shows "goes c p (fillFact h T nb m D) (change (\<lambda>s. s \<lparr> nBack := m \<rparr>) (walUnlockExclusive c (WAL_READ_LOCK 0) 1 k))"
proof (rule goes_change [OF firm_fill [OF p(2)] copier_excl [OF p(1)]])
  show "goes c p (fillFact h T m m {}) (walUnlockExclusive c (WAL_READ_LOCK 0) 1 k)" by (rule goes_release0 [OF p kk])
  fix s
  assume a: "walInv s" "con s c = p" "fillFact h T nb m D s"
  have t: "take (mxFr h) (frames s) = T" using a(3) by (simp add: fillFact_def)
  have "walInv (s \<lparr> nBack := m \<rparr>) \<and> walGuar c s (s \<lparr> nBack := m \<rparr>)"
  proof (rule step_done [OF a(1), of c h])
    show "dbFile s q = content s (lastFrame (pagesTo s h) q)"
      if "pageIn q h" "nBack s < lastFrame (pagesTo s h) q" "lastFrame (pagesTo s h) q \<le> m" for q
      using that D [of q] a(3) content_T [OF t, of "lastFrame (pagesTo s h) q"] m(2)
      by (auto simp: pagesTo_T [OF t] fillFact_def dueIn_def)
  qed (use a(2,3) p(1) m in \<open>auto simp: copier_def fillFact_def\<close>)
  then show "(walInv (s \<lparr> nBack := m \<rparr>) \<and> walGuar c s (s \<lparr> nBack := m \<rparr>)) \<and> con (s \<lparr> nBack := m \<rparr>) c = p \<and> fillFact h T m m {} (s \<lparr> nBack := m \<rparr>)"
    using a by (auto simp: fillFact_def current_def)
qed

lemma goes_finish:
  assumes p: "copier p" "0 < mxFr h" and m: "nb < m" "m \<le> mxFr h" and D: "\<And>q. dueIn h T nb m q \<Longrightarrow> q \<in> D" "\<And>q. q \<in> D \<Longrightarrow> q \<le> nPg h"
    and kk: "\<And>rc. goes c (unlocked (WAL_READ_LOCK 0) 1 p) (ckBase p) (k rc)"
  shows "goes c p (fillFact h T nb m D) (look (\<lambda>s. m = mxFr (hdr s)) (\<lambda>all.
     if all then
       Atom (\<lambda>e s. if e \<noteq> SQLITE_OK then (s, walUnlockExclusive c (WAL_READ_LOCK 0) 1 (k e))
         else (truncDb (nPg h) s,
           if sync then osCall (\<lambda>rc. if rc = SQLITE_OK then change (\<lambda>s. s \<lparr> nBack := m \<rparr>) (walUnlockExclusive c (WAL_READ_LOCK 0) 1 (k SQLITE_OK))
             else walUnlockExclusive c (WAL_READ_LOCK 0) 1 (k rc))
           else change (\<lambda>s. s \<lparr> nBack := m \<rparr>) (walUnlockExclusive c (WAL_READ_LOCK 0) 1 (k SQLITE_OK))))
     else change (\<lambda>s. s \<lparr> nBack := m \<rparr>) (walUnlockExclusive c (WAL_READ_LOCK 0) 1 (k SQLITE_OK))))"
proof (rule goes_look [OF firm_fill [OF p(2)] copier_excl [OF p(1)]])
  let ?k = "\<lambda>rc. walUnlockExclusive c (WAL_READ_LOCK 0) 1 (k rc)" and ?X = "fillFact h T nb m D"
  let ?done = "change (\<lambda>s. s \<lparr> nBack := m \<rparr>) (?k SQLITE_OK)"
  have dn: "goes c p ?X ?done" by (rule goes_done [OF p m D(1) kk])
  have rel: "goes c p ?X (?k rc)" for rc by (rule goes_release0 [OF p kk])
  let ?sync = "if sync then osCall (\<lambda>rc. if rc = SQLITE_OK then ?done else ?k rc) else ?done"
  have sy: "goes c p ?X ?sync" using dn rel by (auto intro!: goes_osCall [OF firm_fill [OF p(2)] copier_excl [OF p(1)]])
  have tr: "goes c p ?X (Atom (\<lambda>e s. if e \<noteq> SQLITE_OK then (s, ?k e) else (truncDb (nPg h) s, ?sync)))" if "m = mxFr h"
  proof (rule goes_atom [OF firm_fill [OF p(2)] copier_excl [OF p(1)]], goal_cases)
    case (1 e s s' k')
    have st: "walInv (truncDb (nPg h) s) \<and> walGuar c s (truncDb (nPg h) s)"
      by (rule step_trunc [OF 1(2)]) (use 1(3,5) p(1) m that in \<open>auto simp: copier_def fillFact_def\<close>)
    have "onward c (truncDb (nPg h) s) ?sync"
      by (rule onwardI [where X = ?X]) (use 1(3-5) sy D(2) in \<open>auto simp: truncDb_def fillFact_def\<close>)
    then show ?case using st 1 rel step_same [OF 1(2), of c] by (auto intro: onwardI split: if_splits)
  qed
  fix s
  assume a: "walInv s" "con s c = p" "c < nConn s" "?X s"
  have "m = mxFr h" if "m = mxFr (hdr s)" using current_le [OF a(1), of h] a(4) m(2) that by (simp add: fillFact_def)
  then have "goes c p ?X (if m = mxFr (hdr s) then Atom (\<lambda>e s. if e \<noteq> SQLITE_OK then (s, ?k e) else (truncDb (nPg h) s, ?sync)) else ?done)"
    using tr dn by (cases "m = mxFr (hdr s)") (simp_all only: if_True if_False simp_thms)
  then show "onward c s (if m = mxFr (hdr s) then Atom (\<lambda>e s. if e \<noteq> SQLITE_OK then (s, ?k e) else (truncDb (nPg h) s, ?sync)) else ?done)"
    by (intro onwardI [where X = ?X]) (use a in auto)
qed

text \<open>One page: it is read from the log and written to the database file.\<close>

lemma goes_copyPage:
  assumes p: "copier p" "0 < mxFr h" and f: "nb < f" "f \<le> m" "m \<le> mxFr h" "f = lastFrame (map fst T) q"
    and fail: "\<And>rc D. rc \<noteq> SQLITE_OK \<Longrightarrow> goes c p (fillFact h T nb m D) (k rc)"
    and go: "goes c p (fillFact h T nb m (insert q D)) k'"
  shows "goes c p (fillFact h T nb m D) (Atom (\<lambda>e s. (s, if e \<noteq> SQLITE_OK then k e else let zBuf = snd (frames s ! (f - 1)) in
    Atom (\<lambda>e s. if e \<noteq> SQLITE_OK then (s \<lparr> dbFile := (dbFile s)(q := []) \<rparr>, k e) else (s \<lparr> dbFile := (dbFile s)(q := zBuf) \<rparr>, k')))))"
proof (rule goes_atom [OF firm_fill [OF p(2)] copier_excl [OF p(1)]], goal_cases)
  case (1 e s s' j)
  let ?z = "snd (T ! (f - 1))"
  have wr: "goes c p (fillFact h T nb m D) (Atom (\<lambda>e s. if e \<noteq> SQLITE_OK then (s \<lparr> dbFile := (dbFile s)(q := []) \<rparr>, k e)
      else (s \<lparr> dbFile := (dbFile s)(q := ?z) \<rparr>, k')))"
  proof (rule goes_atom [OF firm_fill [OF p(2)] copier_excl [OF p(1)]], goal_cases)
    case (1 e s s' j)
    have t: "take (mxFr h) (frames s) = T" using 1(5) by (simp add: fillFact_def)
    have st: "walInv (s \<lparr> dbFile := (dbFile s)(q := y) \<rparr>) \<and> walGuar c s (s \<lparr> dbFile := (dbFile s)(q := y) \<rparr>)" for y
      by (rule step_copy [OF 1(2)]) (use 1(3,5) p(1) f in \<open>auto simp: copier_def fillFact_def pagesTo_T [OF t]\<close>)
    have "onward c (s \<lparr> dbFile := (dbFile s)(q := ?z) \<rparr>) k'"
      by (rule onwardI [where X = "fillFact h T nb m (insert q D)"]) (use 1(3-5) go f in \<open>auto simp: fillFact_def current_def\<close>)
    moreover have "onward c (s \<lparr> dbFile := (dbFile s)(q := []) \<rparr>) (k e)" if "e \<noteq> SQLITE_OK"
      by (rule onwardI [where X = "fillFact h T nb m {}"]) (use 1(3-5) fail [OF that] in \<open>auto simp: fillFact_def current_def\<close>)
    ultimately show ?case using st 1(1) by (auto split: if_splits)
  qed
  have t: "take (mxFr h) (frames s) = T" using 1(5) by (simp add: fillFact_def)
  have z: "snd (frames s ! (f - 1)) = ?z" using content_T [OF t, of f] f by (simp add: content_def)
  from 1(1) [unfolded Let_def z] show ?case
    using wr fail 1(2-5) step_same [OF 1(2), of c] by (auto intro: onwardI split: if_splits)
qed

lemma goes_copyLoop:
  assumes p: "copier p" "0 < mxFr h" and m: "m \<le> mxFr h" and xs: "\<forall>x \<in> set xs. snd x = lastFrame (map fst T) (fst x) \<and> fst x \<noteq> 0"
    and fail: "\<And>rc D. rc \<noteq> SQLITE_OK \<Longrightarrow> goes c p (fillFact h T nb m D) (k rc)"
    and succ: "\<And>D. D0 \<union> {q \<in> fst ` set xs. dueIn h T nb m q} \<subseteq> D \<Longrightarrow> \<forall>q \<in> D. q \<in> D0 \<or> q \<le> nPg h \<Longrightarrow> goes c p (fillFact h T nb m D) (k SQLITE_OK)"
  shows "goes c p (fillFact h T nb m D0) (copyLoop c nb m (nPg h) xs k)"
  using xs succ
proof (induction xs arbitrary: D0)
  case Nil
  then show ?case by auto
next
  case (Cons x xs)
  obtain q f where x: "x = (q, f)" by fastforce
  have f: "f = lastFrame (map fst T) q" "q \<noteq> 0" using Cons.prems(1) x by auto
  show ?case
  proof (cases "f \<le> nb \<or> m < f \<or> nPg h < q")
    case True
    then have "\<not> dueIn h T nb m q" using f(1) by (auto simp: dueIn_def pageIn_def)
    then have due: "{q \<in> fst ` set (x # xs). dueIn h T nb m q} = {q \<in> fst ` set xs. dueIn h T nb m q}" using x by auto
    have "goes c p (fillFact h T nb m D0) (copyLoop c nb m (nPg h) xs k)"
    proof (rule Cons.IH)
      show "\<forall>x \<in> set xs. snd x = lastFrame (map fst T) (fst x) \<and> fst x \<noteq> 0" using Cons.prems(1) by simp
    qed (rule Cons.prems(2) [unfolded due])
    then show ?thesis using True x by simp
  next
    case False
    have go: "goes c p (fillFact h T nb m (insert q D0)) (copyLoop c nb m (nPg h) xs k)"
    proof (rule Cons.IH)
      show "\<forall>x \<in> set xs. snd x = lastFrame (map fst T) (fst x) \<and> fst x \<noteq> 0" using Cons.prems(1) by simp
      fix D
      assume "insert q D0 \<union> {q \<in> fst ` set xs. dueIn h T nb m q} \<subseteq> D" and "\<forall>r \<in> D. r \<in> insert q D0 \<or> r \<le> nPg h"
      then show "goes c p (fillFact h T nb m D) (k SQLITE_OK)" using False x by (intro Cons.prems(2)) auto
    qed
    show ?thesis
      unfolding x copyLoop.simps Let_def prod.case if_not_P [OF False]
      by (rule goes_copyPage [unfolded Let_def, OF p _ _ m f(1) fail go]) (use False in auto)
  qed
qed

text \<open>The whole part under the read lock 0.\<close>

lemma goes_backfill:
  assumes p: "copier p" "chdr p = h" "0 < mxFr h" and m: "nb < m" "m \<le> mxFr h"
    and pages: "\<forall>x \<in> set pages. snd x = lastFrame (map fst T) (fst x) \<and> fst x \<noteq> 0"
      "\<And>q. q \<noteq> 0 \<Longrightarrow> lastFrame (map fst T) q \<noteq> 0 \<Longrightarrow> q \<in> fst ` set pages"
    and kk: "\<And>rc. goes c (unlocked (WAL_READ_LOCK 0) 1 p) (ckBase p) (k rc)"
  shows "goes c p (\<lambda>s. ckFact c h T {1..<WAL_NREADER} m s \<and> current s h \<and> nBack s = nb) (backfill c sync m pages k)"
proof -
  let ?X = "fillFact h T nb m {}" and ?k = "\<lambda>rc. walUnlockExclusive c (WAL_READ_LOCK 0) 1 (k rc)"
  note fm = firm_fill [OF p(3)] copier_excl [OF p(1)]
  have E: "{WAL_CKPT_LOCK} \<union> {WAL_CKPT_LOCK} \<subseteq> exclMask p" using p(1) by (auto simp: copier_def)
  have rel: "goes c p (fillFact h T nb m D) (?k rc)" for rc D by (rule goes_release0 [OF p(1,3) kk])
  define done' where "done' = change (\<lambda>s. s \<lparr> nBack := m \<rparr>) (?k SQLITE_OK)"
  define finish where "finish = look (\<lambda>s. m = mxFr (hdr s)) (\<lambda>all.
     if all then
       Atom (\<lambda>e s. if e \<noteq> SQLITE_OK then (s, ?k e)
         else (truncDb (nPg h) s, if sync then osCall (\<lambda>rc. if rc = SQLITE_OK then done' else ?k rc) else done'))
     else done')"
  define copy where "copy = osCall (\<lambda>rc. if rc = SQLITE_OK then
     copyLoop c nb m (nPg h) pages (\<lambda>rc. if rc = SQLITE_OK then finish else ?k rc) else ?k rc)"
  define body where "body = (if sync then osCall (\<lambda>rc. if rc = SQLITE_OK then copy else ?k rc) else copy)"
  have fin: "goes c p (fillFact h T nb m D) finish"
    if D: "{} \<union> {q \<in> fst ` set pages. dueIn h T nb m q} \<subseteq> D" "\<forall>q \<in> D. q \<in> {} \<or> q \<le> nPg h" for D
    unfolding finish_def done'_def
  proof (rule goes_finish [OF p(1,3) m])
    show "q \<in> D" if "dueIn h T nb m q" for q using that pages(2) [of q] D(1) by (auto simp: dueIn_def pageIn_def)
  qed (use D(2) kk in auto)
  have "goes c p ?X (copyLoop c nb m (nPg h) pages (\<lambda>rc. if rc = SQLITE_OK then finish else ?k rc))"
    by (rule goes_copyLoop [OF p(1,3) m(2) pages(1)]) (use rel fin in \<open>simp_all only: if_True if_False simp_thms\<close>)
  then have "goes c p ?X copy" unfolding copy_def using rel by (intro goes_osCall [OF fm]) simp
  then have body: "goes c p ?X body" unfolding body_def using rel by (cases sync) (auto intro!: goes_osCall [OF fm])
  obtain F where F: "backfill c sync m pages k = Atom F" unfolding backfill_def by blast
  note F' = F [unfolded backfill_def prog.inject, symmetric]
  show ?thesis
    unfolding F
  proof (rule goes_access [OF firm_conj [OF firm_ck [OF m(2)] firm_back [OF p(3)]] E])
    fix e s
    assume a: "walInv s" "con s c = p" "c < nConn s" "ckFact c h T {1..<WAL_NREADER} m s \<and> current s h \<and> nBack s = nb"
    let ?s = "s \<lparr> hw := max (hw s) m \<rparr>"
    have "m \<le> mxFr (snap (con s d))" if "readLock (con s d) = Some j" "0 < j" for d j
      using a(2,4) that p(1) inv_readOk [OF a(1) that(1)] by (cases "d = c") (auto simp: ckFact_def copier_def readOk_def)
    then have st: "walInv ?s \<and> walGuar c s ?s"
      using current_le [OF a(1), of h] a(4) m(2) by (intro step_hw [OF a(1)]) auto
    have "onward c ?s body"
      by (rule onwardI [where X = ?X]) (use a(2-4) body in \<open>auto simp: fillFact_def ckFact_def\<close>)
    moreover have e: "nBack s = nb" "chdr (con s c) = h" using a(2,4) p(2) by auto
    have "F e s = (?s, body)" unfolding F' Let_def e body_def copy_def finish_def done'_def ..
    ultimately show "(walInv (fst (F e s)) \<and> walGuar c s (fst (F e s))) \<and> onward c (fst (F e s)) (snd (F e s))"
      using st by simp
  qed
qed


lemma goes_ckptWait:
  assumes p: "ckpter p" and k: "\<And>rc. goes c p (ckBase p) (k rc)"
  shows "goes c p (ckBase p) (ckptWait c n eMode xBusy rc k)"
proof -
  let ?L = "{WAL_READ_LOCK 1..<WAL_READ_LOCK 1 + (WAL_NREADER - 1)}"
  define restart where "restart = busyLock c xBusy n (WAL_READ_LOCK 1) (WAL_NREADER - 1) (\<lambda>rc.
    if rc = SQLITE_OK then walUnlockExclusive c (WAL_READ_LOCK 1) (WAL_NREADER - 1) (k rc) else k rc)"
  have "goes c p (ckBase p) restart"
    unfolding restart_def
  proof (rule goes_busyLock [OF firm_base subset_refl])
    assume free: "?L \<inter> (exclMask p \<union> sharedMask p) = {}"
    have "goes c (p \<lparr> exclMask := ?L \<union> exclMask p \<rparr>) (ckBase p) (walUnlockExclusive c (WAL_READ_LOCK 1) (WAL_NREADER - 1) (k SQLITE_OK))"
      by (rule goes_unlock(1) [OF firm_base]) (use p k unlocked_excl [OF free] in \<open>auto simp: ckpter_def calm_def ckBase_def\<close>)
    then show "goes c (p \<lparr> exclMask := ?L \<union> exclMask p \<rparr>) (ckBase p)
        (if SQLITE_OK = SQLITE_OK then walUnlockExclusive c (WAL_READ_LOCK 1) (WAL_NREADER - 1) (k SQLITE_OK) else k SQLITE_OK)" by simp
  qed (simp add: k)
  then show ?thesis
    unfolding ckptWait_def Let_def restart_def [symmetric] by (auto intro!: goes_look_any [OF firm_base subset_refl] k)
qed

lemma ckptPages_ok:
  assumes "take (mxFr (chdr (con s c))) (frames s) = T"
  shows "\<forall>x \<in> set (ckptPages c s). snd x = lastFrame (map fst T) (fst x) \<and> fst x \<noteq> 0"
    and "q \<noteq> 0 \<Longrightarrow> lastFrame (map fst T) q \<noteq> 0 \<Longrightarrow> q \<in> fst ` set (ckptPages c s)"
proof -
  show "\<forall>x \<in> set (ckptPages c s). snd x = lastFrame (map fst T) (fst x) \<and> fst x \<noteq> 0"
    using assms by (auto simp: ckptPages_def Let_def pagesAfter_set)
  assume "q \<noteq> 0" and "lastFrame (map fst T) q \<noteq> 0"
  then have "q \<in> set (pagesAfter (map fst T) 0)" using lastFrame_bounds(2) [of q "map fst T"] by (auto simp: pagesAfter_set word_gt_0)
  then show "q \<in> fst ` set (ckptPages c s)" using assms by (force simp: ckptPages_def Let_def)
qed

text \<open>Once the safe bound is known.\<close>

lemma goes_ckptFill:
  assumes p: "ckpter p" "chdr p = h" "0 < mxFr h" and m: "m \<le> mxFr h"
    and pages: "\<forall>x \<in> set pages. snd x = lastFrame (map fst T) (fst x) \<and> fst x \<noteq> 0"
      "\<And>q. q \<noteq> 0 \<Longrightarrow> lastFrame (map fst T) q \<noteq> 0 \<Longrightarrow> q \<in> fst ` set pages"
    and k: "\<And>rc. goes c p (ckBase p) (k rc)"
  shows "goes c p (ckFact c h T {1..<WAL_NREADER} m) (look (\<lambda>s. nBack s < m) (\<lambda>todo.
    if todo then busyLock c xBusy n (WAL_READ_LOCK 0) 1 (\<lambda>rc. if rc = SQLITE_OK then backfill c sync m pages k else k rc) else k rc0))"
proof -
  have E: "{WAL_CKPT_LOCK} \<subseteq> exclMask p" using p(1) by (simp add: ckpter_def)
  let ?X = "ckFact c h T {1..<WAL_NREADER} m" and ?L = "{WAL_READ_LOCK 0..<WAL_READ_LOCK 0 + 1}"
  define fill where "fill = busyLock c xBusy n (WAL_READ_LOCK 0) 1 (\<lambda>rc. if rc = SQLITE_OK then backfill c sync m pages k else k rc)"
  have any: "goes c p ?X (k rc)" for rc by (rule goes_base [OF k firm_ck [OF m] E _ p(3)]) (simp add: ckFact_def)
  have fill: "goes c p (\<lambda>s. ?X s \<and> current s h \<and> nBack s = nb) fill" if nb: "nb < m" for nb
    unfolding fill_def
  proof (rule goes_busyLock [OF firm_conj [OF firm_ck [OF m] firm_back [OF p(3)]]])
    show "goes c p (\<lambda>s. ?X s \<and> current s h \<and> nBack s = nb) (if rc = SQLITE_OK then backfill c sync m pages k else k rc)" if "rc \<noteq> SQLITE_OK" for rc
      using goes_pre [OF any [of rc] firm_conj [OF firm_ck [OF m] firm_back [OF p(3)]]] E that by simp
    assume free: "?L \<inter> (exclMask p \<union> sharedMask p) = {}"
    let ?p = "p \<lparr> exclMask := ?L \<union> exclMask p \<rparr>"
    have b: "ckBase ?p = ckBase p" by (simp add: ckBase_def fun_eq_iff)
    have "goes c (unlocked (WAL_READ_LOCK 0) 1 ?p) (ckBase ?p) (k rc)" for rc unfolding b unlocked_excl [OF free] by (rule k)
    then have "goes c ?p (\<lambda>s. ?X s \<and> current s h \<and> nBack s = nb) (backfill c sync m pages k)"
      by (intro goes_backfill [OF _ _ p(3) nb m pages]) (use p in \<open>auto simp: ckpter_def copier_def\<close>)
    then show "goes c ?p (\<lambda>s. ?X s \<and> current s h \<and> nBack s = nb) (if SQLITE_OK = SQLITE_OK then backfill c sync m pages k else k SQLITE_OK)"
      by simp
  qed (use E in auto)
  show ?thesis
    unfolding fill_def [symmetric]
  proof (rule goes_look [OF firm_ck [OF m] E])
    fix s
    assume a: "con s c = p" "c < nConn s" "?X s"
    show "onward c s (if nBack s < m then fill else k rc0)"
    proof (cases "nBack s < m")
      case True
      have "onward c s fill"
        by (rule onwardI [where X = "\<lambda>t. ?X t \<and> current t h \<and> nBack t = nBack s"]) (use a fill [OF True] in \<open>auto simp: ckFact_def\<close>)
      then show ?thesis using True by simp
    next
      case False
      then show ?thesis using any a by (auto intro: onwardI [where X = ?X])
    qed
  qed
qed


lemma goes_checkpoint:
  assumes p: "ckpter p" "chdr p = h" and k: "\<And>rc. goes c p (ckBase p) (k rc)"
  shows "goes c p (\<lambda>s. ckBase p s \<and> current s h) (checkpoint c n eMode xBusyCall sync k)"
proof -
  let ?X = "\<lambda>s. ckBase p s \<and> current s h"
  have X: "firm c (exclMask p \<union> {WAL_CKPT_LOCK}) ?X" by (rule firm_conj [OF firm_base firm_current])
  have E: "exclMask p \<union> {WAL_CKPT_LOCK} \<subseteq> exclMask p" "{WAL_CKPT_LOCK} \<subseteq> exclMask p" using p(1) by (auto simp: ckpter_def)
  have any: "goes c p ?X (k rc)" for rc by (rule goes_pre [OF k X E(1)]) simp
  define fill where "fill = (\<lambda>pages rc xBusy m. look (\<lambda>s. nBack s < m) (\<lambda>todo.
    if todo then busyLock c xBusy n (WAL_READ_LOCK 0) 1 (\<lambda>rc.
      if rc = SQLITE_OK then backfill c sync m pages (\<lambda>rc. ckptWait c n eMode xBusy rc k) else ckptWait c n eMode xBusy rc k)
    else ckptWait c n eMode xBusy rc k))"
  define body where "body = (\<lambda>pages mx. ckptMarks c n [1..<WAL_NREADER] SQLITE_OK (eMode \<noteq> CHECKPOINT_PASSIVE \<and> xBusyCall) mx k (fill pages))"
  have body: "goes c p (ckFact c h (take (mxFr h) (frames s)) {} (mxFr h)) (body (ckptPages c s) (mxFr h))" if s: "con s c = p" "0 < mxFr h" for s
    unfolding body_def
  proof (rule goes_ckptMarks [OF p(1) s(2)])
    fix rc xb m
    assume m: "m \<le> mxFr h"
    have t: "take (mxFr (chdr (con s c))) (frames s) = take (mxFr h) (frames s)" using s(1) p(2) by simp
    show "goes c p (ckFact c h (take (mxFr h) (frames s)) ({} \<union> set [1..<WAL_NREADER]) m) (fill (ckptPages c s) rc xb m)"
      unfolding fill_def Un_empty_left set_upt
      by (rule goes_ckptFill [OF p s(2) m ckptPages_ok [OF t] goes_ckptWait [OF p(1) k]])
  qed (use k in auto)
  define go where "go = Atom (\<lambda>(e :: rcode) s. (s, if e \<noteq> SQLITE_OK then k e else body (ckptPages c s) (mxFr (chdr (con s c)))))"
  have alloc: "goes c p ?X go" if "0 < mxFr h"
    unfolding go_def
  proof (rule goes_access [OF X E(1)])
    fix e s
    assume a: "walInv s" "con s c = p" "c < nConn s" "?X s"
    have "onward c s (body (ckptPages c s) (mxFr (chdr (con s c))))"
      by (rule onwardI [where X = "ckFact c h (take (mxFr h) (frames s)) {} (mxFr h)"]) (use a body that p(2) in \<open>auto simp: ckFact_def\<close>)
    then have "onward c s (if e \<noteq> SQLITE_OK then k e else body (ckptPages c s) (mxFr (chdr (con s c))))"
      using any a by (auto intro: onwardI [where X = ?X])
    then show "(walInv (fst (s, if e \<noteq> SQLITE_OK then k e else body (ckptPages c s) (mxFr (chdr (con s c))))) \<and>
        walGuar c s (fst (s, if e \<noteq> SQLITE_OK then k e else body (ckptPages c s) (mxFr (chdr (con s c)))))) \<and>
        onward c (fst (s, if e \<noteq> SQLITE_OK then k e else body (ckptPages c s) (mxFr (chdr (con s c)))))
          (snd (s, if e \<noteq> SQLITE_OK then k e else body (ckptPages c s) (mxFr (chdr (con s c)))))"
      using step_same [OF a(1)] by simp
  qed
  have eq: "checkpoint c n eMode xBusyCall sync k = look (\<lambda>s. nBack s \<ge> mxFr (chdr (con s c))) (\<lambda>complete. if complete then k SQLITE_OK else go)"
    unfolding checkpoint_def go_def body_def fill_def Let_def ..
  show ?thesis
    unfolding eq
  proof (rule goes_look [OF X E(1)])
    fix s
    assume a: "con s c = p" "c < nConn s" "?X s"
    have "goes c p ?X (if mxFr (chdr (con s c)) \<le> nBack s then k SQLITE_OK else go)"
      using any alloc a(1) p(2) by simp
    then show "onward c s (if mxFr (chdr (con s c)) \<le> nBack s then k SQLITE_OK else go)" using a by (intro onwardI [where X = ?X]) simp_all
  qed
qed

lemma firm_base_write: "firm c {WAL_WRITE_LOCK} (ckBase p)"
proof (rule firmI)
  fix d s s'
  assume a: "d \<noteq> c" "walInv s" "walGuar d s s'" "{WAL_WRITE_LOCK} \<subseteq> exclMask (con s c)" "ckBase p s"
  then have "WAL_WRITE_LOCK \<notin> exclMask (con s d)" unfolding walInv_def lockInv_def by blast
  then show "ckBase p s'" using a(3,5) by (auto simp: walGuar_def ckBase_def)
qed (auto simp: ckBase_def)

text \<open>The locks are given back.\<close>

lemma goes_ckptRelease:
  assumes p: "ckpter p"
  shows "goes c p (ckBase p) (endWrite c (walUnlockExclusive c WAL_CKPT_LOCK 1 (Done rc)))"
proof -
  have un: "goes c q (\<lambda>s. True) (walUnlockExclusive c WAL_CKPT_LOCK 1 (Done rc))"
    if "readLock q = None" "sharedMask q = {}" "exclMask q = {WAL_CKPT_LOCK}" for q
    by (rule goes_unlock(1) [OF firm_True, of "{}"]) (use that in \<open>auto simp: calm_def unlocked_def intro!: goes_reader_Done\<close>)
  show ?thesis
  proof (rule goes_endWrite [OF firm_True firm_base_write])
    show "ckBase p = (if WAL_WRITE_LOCK \<in> exclMask p then ckBase p else (\<lambda>s. True))" by (auto simp: ckBase_def)
    show "goes c (unlocked WAL_WRITE_LOCK 1 p) (\<lambda>s. True) (walUnlockExclusive c WAL_CKPT_LOCK 1 (Done rc))"
      by (rule un) (use p in \<open>auto simp: ckpter_def unlocked_def\<close>)
    show "goes c p (\<lambda>s. True) (walUnlockExclusive c WAL_CKPT_LOCK 1 (Done rc))" if "WAL_WRITE_LOCK \<notin> exclMask p"
      by (rule un) (use p that in \<open>auto simp: ckpter_def\<close>)
    show "calm p (ckBase p)" using p by (auto simp: calm_def ckpter_def)
  qed simp
qed


lemma call_Checkpoint:
  assumes "walInv s" and "walIdle c s" and "c < nConn s" and "callOk c s (Checkpoint n eMode xBusy sync)"
  shows "onward c s (sqlite3WalCheckpoint c n eMode xBusy sync)"
proof -
  let ?p = "con s c" and ?C = "{WAL_CKPT_LOCK..<WAL_CKPT_LOCK + 1}" and ?W = "{WAL_WRITE_LOCK..<WAL_WRITE_LOCK + 1}"
  have p: "readLock ?p = None" "exclMask ?p = {}" "sharedMask ?p = {}" using idle_reader [OF assms(2)] assms(4) by auto
  define zero where "zero = (\<lambda>p :: conn. p \<lparr> chdr := \<lparr> hSalt = 0, iChg = 0, mxFr = 0, nPg = 0 \<rparr> \<rparr>)"
  define release where "release = (\<lambda>isChanged rc eMode2.
     let k = endWrite c (walUnlockExclusive c WAL_CKPT_LOCK 1 (Done (if rc = SQLITE_OK \<and> eMode \<noteq> eMode2 then SQLITE_BUSY else rc)))
     in if isChanged then change (upd c zero) k else k)"
  define run where "run = (\<lambda>eMode2. walIndexReadHdr c (\<lambda>rc isChanged.
     if rc = SQLITE_OK then checkpoint c n eMode2 xBusy sync (\<lambda>rc. release isChanged rc eMode2)
     else release isChanged rc eMode2))"
  define locked where "locked = (if eMode = CHECKPOINT_PASSIVE then run eMode
     else busyLock c xBusy n WAL_WRITE_LOCK 1 (\<lambda>rc.
       if rc = SQLITE_OK then run eMode else if rc = SQLITE_BUSY then run CHECKPOINT_PASSIVE else release False rc eMode))"
  have eq: "sqlite3WalCheckpoint c n eMode xBusy sync = look (\<lambda>s. readOnly (con s c)) (\<lambda>ro. if ro \<noteq> WAL_RDWR then Done SQLITE_READONLY
      else walLockExclusive c WAL_CKPT_LOCK 1 (\<lambda>rc. if rc \<noteq> SQLITE_OK then Done rc else locked))"
    unfolding sqlite3WalCheckpoint_def locked_def run_def release_def zero_def Let_def ..
  have rel: "goes c q (ckBase q) (release ch rc eMode2)" if q: "ckpter q" for q ch rc eMode2
  proof -
    have z: "ckpter (zero q)" "ckBase (zero q) = ckBase q" using q by (simp_all add: zero_def ckpter_def ckBase_def fun_eq_iff)
    have "goes c q (ckBase q) (change (upd c zero) k)" if "goes c (zero q) (ckBase (zero q)) k" for k
      by (rule goes_change [OF firm_base subset_refl _ that]) (use step_chdr z(2) in \<open>auto simp: zero_def ckBase_def\<close>)
    then show ?thesis using goes_ckptRelease [OF q] goes_ckptRelease [OF z(1)] by (simp add: release_def Let_def)
  qed
  have run: "goes c q (ckBase q) (run eMode2)" if q: "ckpter q" for q eMode2
    unfolding run_def
  proof (rule goes_readHdr [OF firm_base subset_refl, where Z = "\<lambda>h s. current s h"])
    show "firm c (exclMask q) (\<lambda>s. ckBase q s \<and> current s h)" for h
      using firm_conj [OF firm_base [of c q] firm_current [of c h]] q by (simp add: ckpter_def insert_absorb)
    show "current s (hdr s)" if "walInv s" for s using that by (simp add: walInv_def histInv_def current_def)
    fix h ch
    have z: "ckpter (q \<lparr> chdr := h \<rparr>)" "ckBase (q \<lparr> chdr := h \<rparr>) = ckBase q" using q by (simp_all add: ckpter_def ckBase_def fun_eq_iff)
    show "goes c (q \<lparr> chdr := h \<rparr>) (\<lambda>s. ckBase q s \<and> current s h) (if SQLITE_OK = SQLITE_OK
        then checkpoint c n eMode2 xBusy sync (\<lambda>rc. release ch rc eMode2) else release ch SQLITE_OK eMode2)"
      using goes_checkpoint [OF z(1) _ rel [OF z(1)], of h] z(2) by simp
  qed (use q rel in \<open>auto simp: ckpter_def\<close>)
  let ?q = "?p \<lparr> exclMask := ?C \<union> exclMask ?p \<rparr>"
  have q: "ckpter ?q" "ckBase ?q = (\<lambda>s. True)" using p by (auto simp: ckpter_def ckBase_def)
  have "goes c ?q (\<lambda>s. True) locked"
  proof (cases "eMode = CHECKPOINT_PASSIVE")
    case True
    then show ?thesis using run [OF q(1)] q(2) by (simp add: locked_def)
  next
    case False
    let ?r = "?q \<lparr> exclMask := ?W \<union> exclMask ?q \<rparr>"
    have r: "ckpter ?r" using p by (auto simp: ckpter_def)
    have base: "ckBase ?r t" if "walInv t" "con t c = ?r" for t
      using calm_state [OF that(1), of c "\<lambda>_. True"] that(2) p by (auto simp: calm_def ckBase_def)
    have "goes c ?r (\<lambda>s. True) (run eMode)" by (rule goes_pre [OF run [OF r] firm_True empty_subsetI]) (rule base)
    then have "goes c ?q (\<lambda>s. True) (busyLock c xBusy n WAL_WRITE_LOCK 1 (\<lambda>rc.
       if rc = SQLITE_OK then run eMode else if rc = SQLITE_BUSY then run CHECKPOINT_PASSIVE else release False rc eMode))"
      using run [OF q(1)] rel [OF q(1)] q(2) by (intro goes_busyLock [OF firm_True empty_subsetI]) auto
    then show ?thesis using False by (simp add: locked_def)
  qed
  then have "goes c ?p (\<lambda>s. True) (sqlite3WalCheckpoint c n eMode xBusy sync)"
    unfolding eq using p
    by (intro goes_look_any [OF firm_True empty_subsetI]) (auto intro!: goes_lockExclusive [OF firm_True empty_subsetI] goes_reader_Done)
  then show ?thesis using assms(3) by (intro onwardI [where X = "\<lambda>s. True"]) simp_all
qed

section \<open>The system\<close>

lemma onward_call:
  assumes "walInv s" and "walIdle c s" and "walCalls c s p"
  shows "\<exists>A. A s \<and> wal.runs_ok c A p"
proof -
  obtain call where call: "p = callProg c call" "c < nConn s" "callOk c s call" using assms(3) by cases auto
  have "onward c s p"
    using call_BeginRead [OF assms(1,2) call(2)] call_EndRead [OF assms(1,2) call(2)] call_BeginWrite [OF assms(1,2) call(2)]
      call_EndWrite [OF assms(1,2) call(2)] call_Undo [OF assms(1,2) call(2)] call_Frames [OF assms(1,2) call(2)]
      call_Checkpoint [OF assms(1,2) call(2)] call(1,3)
    by (cases call) (simp_all only: callProg.simps)
  then show ?thesis unfolding onward_def by blast
qed

interpretation walc: rg_client walInv walGuar walAllowed walIdle walCalls
  by unfold_locales (rule onward_call)


lemma shm0_simps [simp]:
  "con (shm0 n np v ro) c = conn0 \<lparr> readOnly := ro c \<rparr>" "hdr (shm0 n np v ro) = \<lparr> hSalt = 1, iChg = 1, mxFr = 0, nPg = np \<rparr>"
  "nBack (shm0 n np v ro) = 0" "frames (shm0 n np v ro) = []" "dbFile (shm0 n np v ro) = v" "hw (shm0 n np v ro) = 0"
  "resetting (shm0 n np v ro) = False" "length (marks (shm0 n np v ro)) = WAL_NREADER" "nConn (shm0 n np v ro) = n"
  "hist (shm0 n np v ro) = [\<lparr> hSalt = 1, iChg = 1, mxFr = 0, nPg = np \<rparr> \<mapsto> v]"
  by (simp_all add: shm0_def Let_def WAL_NREADER_def)

lemma conn0_simps [simp]: "readLock conn0 = None" "sharedMask conn0 = {}" "exclMask conn0 = {}"
  by (simp_all add: conn0_def)

lemma walInv_shm0: "walInv (shm0 n np v ro)"
proof -
  let ?s = "shm0 n np v ro"
  have h: "current ?s h \<longleftrightarrow> h = hdr ?s" for h by (auto simp: current_def)
  have "lockInv ?s" "logInv ?s" "histInv ?s" by (simp_all add: lockInv_def logInv_def histInv_def h split: if_splits)
  moreover have "viewInv ?s" "growInv ?s" "fillInv ?s" by (auto simp: viewInv_def growInv_def fillInv_def h pagesTo_def Let_def split: if_splits)
  moreover have "readInv ?s" "resetInv ?s" by (simp_all add: readInv_def resetInv_def)
  ultimately show ?thesis by (simp add: walInv_def)
qed

lemma sys_ok_shm0: "wal.sys_ok (shm0 n np v ro, \<lambda>_. Done SQLITE_OK)"
proof -
  have "wal.runs_ok c (\<lambda>s. con s c = conn0 \<lparr> readOnly := ro c \<rparr>) (Done SQLITE_OK)" for c
    by (rule wal.runs_Done) (auto intro!: wal.stableI simp: walGuar_def walIdle_def)
  then have "\<exists>A. A (shm0 n np v ro) \<and> wal.runs_ok c A (Done SQLITE_OK)" for c
    by (intro exI [where x = "\<lambda>s. con s c = conn0 \<lparr> readOnly := ro c \<rparr>"]) simp
  then show ?thesis unfolding wal.sys_ok_def using walInv_shm0 by simp
qed

abbreviation walStart :: "nat \<Rightarrow> u32 \<Rightarrow> (u32 \<Rightarrow> bytes) \<Rightarrow> (nat \<Rightarrow> walAccess) \<Rightarrow> shm \<times> (shm, rcode) threads" where
  "walStart n np v ro \<equiv> (shm0 n np v ro, \<lambda>_. Done SQLITE_OK)"

lemma reach_ok: "sys_reach walCalls walAllowed (walStart n np v ro) y \<Longrightarrow> wal.sys_ok y"
  by (rule walc.sys_ok_reach [OF _ sys_ok_shm0])

text \<open>Where the content of a snapshot is found.\<close>

lemma snap_view:
  assumes "walInv s" and "snapOk s h j" and "pageIn q h"
  shows "hist s h \<noteq> None"
    and "the (hist s h) q = (if j = 0 \<or> lastFrame (pagesTo s h) q = 0 then dbFile s q else content s (lastFrame (pagesTo s h) q))"
proof -
  show h: "hist s h \<noteq> None" using assms(2) by (simp add: snapOk_def)
  show "the (hist s h) q = (if j = 0 \<or> lastFrame (pagesTo s h) q = 0 then dbFile s q else content s (lastFrame (pagesTo s h) q))"
  proof (cases "j = 0")
    case True
    then show ?thesis using assms(2,3) by (simp add: snapOk_def)
  next
    case False
    then have m: "hSalt h = hSalt (hdr s)" "hw s \<le> mxFr h" "hist s h = Some (the (hist s h))" using assms(2) h by (auto simp: snapOk_def)
    have "let f = lastFrame (pagesTo s h) q in if f = 0 then hw s \<le> mxFr h \<longrightarrow> dbFile s q = the (hist s h) q else the (hist s h) q = content s f"
      using assms(1,3) m unfolding walInv_def viewInv_def by blast
    then show ?thesis using False m(2) by (auto simp: Let_def)
  qed
qed

text \<open>What a connection between two calls reads: a reader the snapshot, a writer the last commit with its own
  pages on top.\<close>

lemma idle_read:
  assumes "walInv s" and "walIdle c s" and "readLock (con s c) = Some j" and "\<not> writing c s" and "pageIn q (chdr (con s c))"
  shows "hist s (chdr (con s c)) \<noteq> None" and "readPage c s q = the (hist s (chdr (con s c))) q"
proof -
  have ok: "snapOk s (chdr (con s c)) j"
    using idle_reader(2) [OF assms(2,4)] inv_readOk [OF assms(1,3)] assms(3) by (simp add: readOk_def)
  show "hist s (chdr (con s c)) \<noteq> None" by (rule snap_view(1) [OF assms(1) ok assms(5)])
  show "readPage c s q = the (hist s (chdr (con s c))) q"
    using snap_view(2) [OF assms(1) ok assms(5)] assms(3) by (auto simp: readPage_def pagesTo_def content_def Let_def)
qed

lemma idle_write_read:
  assumes "walInv s" and "walIdle c s" and "readLock (con s c) = Some j" and "writing c s" and "pageIn q (hdr s)"
  shows "readPage c s q = overlay (drop (mxFr (hdr s)) (take (mxFr (chdr (con s c))) (frames s))) (the (hist s (hdr s))) q"
proof -
  let ?h = "hdr s" and ?m = "mxFr (chdr (con s c))"
  let ?new = "drop (mxFr ?h) (take ?m (frames s))"
  have w: "writer (con s c) ?h" "?m \<le> length (frames s)" using idle_writer [OF assms(2,4)] by auto
  then have m: "mxFr ?h \<le> ?m" "snap (con s c) = ?h" "j = 0 \<longrightarrow> chdr (con s c) = ?h" using assms(3) by (auto simp: writer_def)
  have ok: "snapOk s ?h j" using inv_readOk [OF assms(1,3)] m(2) by (simp add: readOk_def)
  note v = snap_view(2) [OF assms(1) ok assms(5)]
  have split: "take ?m (frames s) = take (mxFr ?h) (frames s) @ ?new"
    using m(1) append_take_drop_id [of "mxFr ?h" "take ?m (frames s)"] by (simp add: min_absorb1)
  let ?l = "lastFrame (map fst ?new) q"
  have len: "length (take (mxFr ?h) (frames s)) = mxFr ?h" using m(1) w(2) by simp
  have "map fst (take ?m (frames s)) = pagesTo s ?h @ map fst ?new"
    using arg_cong [OF split, of "map fst"] by (simp only: map_append pagesTo_def)
  from arg_cong [OF this, of "\<lambda>l. lastFrame l q"]
  have last: "lastFrame (map fst (take ?m (frames s))) q = (if ?l = 0 then lastFrame (pagesTo s ?h) q else mxFr ?h + ?l)"
    using len by (simp only: lastFrame_append pagesTo_def length_map)
  show ?thesis
  proof (cases "?l = 0 \<or> j = 0")
    case True
    then have "?l = 0" using m(3) by auto
    then have "overlay ?new (the (hist s ?h)) q = the (hist s ?h) q" by (simp add: overlay_def)
    moreover have "readPage c s q = (if j = 0 \<or> lastFrame (pagesTo s ?h) q = 0 then dbFile s q else content s (lastFrame (pagesTo s ?h) q))"
      using last \<open>?l = 0\<close> assms(3) by (auto simp: readPage_def Let_def content_def)
    ultimately show ?thesis using v by simp
  next
    case False
    then have l: "0 < ?l" "?l \<le> ?m - mxFr ?h" using lastFrame_bounds(1) [of "map fst ?new" q] w(2) by auto
    then have "snd (?new ! (?l - 1)) = snd (frames s ! (mxFr ?h + ?l - 1))" using w(2) by simp
    then show ?thesis using False l last assms(3) by (auto simp: readPage_def overlay_def Let_def)
  qed
qed

lemma one_writer: "walInv s \<Longrightarrow> writing c s \<Longrightarrow> writing d s \<Longrightarrow> d = c"
  unfolding walInv_def lockInv_def writing_def by blast

lemma hist_step:
  assumes "sys_step walCalls walAllowed x d y" and "wal.sys_ok x"
  shows "wal.sys_ok y" and "hist (fst x) \<subseteq>\<^sub>m hist (fst y)"
  using walc.sys_ok_step [of "fst x" "snd x" d "fst y" "snd y"] assms by (auto simp: walGuar_def)

lemma hist_reach: "sys_reach walCalls walAllowed x y \<Longrightarrow> wal.sys_ok x \<Longrightarrow> hist (fst x) \<subseteq>\<^sub>m hist (fst y)"
proof (induction rule: sys_reach.induct)
  case (reach_step x y d z)
  then show ?case using hist_step(2) [OF reach_step(2) walc.sys_ok_reach [OF reach_step(1)]] by (blast intro: map_le_trans)
qed simp

end
