(* ===== verification/Wal_System.thy ===== *)
theory Wal_System
  imports Wal_Isolation
begin

text \<open>
  Systems of connections that use one log: the properties of the locking protocol for the clients, and
  runs. A run is a list of events, a call or a number of accesses of one connection, and is executed; every
  run is an interleaving of the system.
\<close>

section \<open>Runs\<close>

text \<open>At most \<open>n\<close> accesses of one connection, all of which succeed; an access that is not allowed is not taken.\<close>

primrec steps :: "(shm \<Rightarrow> shm \<Rightarrow> bool) \<Rightarrow> nat \<Rightarrow> wprog \<Rightarrow> shm \<Rightarrow> shm \<times> wprog" where
  "steps al 0 p s = (s, p)"
| "steps al (Suc n) p s = (case p of Done rc \<Rightarrow> (s, p)
     | Atom f \<Rightarrow> if al s (fst (f SQLITE_OK s)) then steps al n (snd (f SQLITE_OK s)) (fst (f SQLITE_OK s)) else (s, p))"

datatype walEvent = Call nat walCall | Go nat nat

fun exec1 :: "(shm \<Rightarrow> shm \<Rightarrow> bool) \<Rightarrow> walEvent \<Rightarrow> shm \<times> (shm, rcode) threads \<Rightarrow> shm \<times> (shm, rcode) threads" where
  "exec1 al (Call c call) (s, P) = (case P c of
     Done rc \<Rightarrow> if c < nConn s \<and> callOk c s call then (s, P(c := callProg c call)) else (s, P)
   | Atom f \<Rightarrow> (s, P))"
| "exec1 al (Go c n) (s, P) = (fst (steps al n (P c) s), P(c := snd (steps al n (P c) s)))"

primrec exec :: "(shm \<Rightarrow> shm \<Rightarrow> bool) \<Rightarrow> walEvent list \<Rightarrow> shm \<times> (shm, rcode) threads \<Rightarrow> shm \<times> (shm, rcode) threads" where
  "exec al [] x = x"
| "exec al (e # es) x = exec al es (exec1 al e x)"

lemma sys_reach_trans:
  assumes "sys_reach calls allowed y z" and "sys_reach calls allowed x y"
  shows "sys_reach calls allowed x z"
  using assms by (induction rule: sys_reach.induct) (auto intro: reach_step)

lemma steps_reach:
  assumes "\<And>c s s'. al s s' \<Longrightarrow> allowed c s s'"
  shows "sys_reach calls allowed (s, P) (fst (steps al n (P c) s), P(c := snd (steps al n (P c) s)))"
proof (induction n arbitrary: s P)
  case 0
  show ?case by (simp add: reach_refl)
next
  case (Suc n)
  show ?case
  proof (cases "P c")
    case (Done rc)
    then show ?thesis by (simp add: fun_upd_idem reach_refl)
  next
    case (Atom f)
    obtain s' p where f: "f SQLITE_OK s = (s', p)" by fastforce
    show ?thesis
    proof (cases "al s s'")
      case True
      have "sys_step calls allowed (s, P) c (s', P(c := p))" using sys_access [where P = P and c = c, OF Atom, where e = SQLITE_OK, OF f] assms [OF True] by simp
      then have r: "sys_reach calls allowed (s, P) (s', P(c := p))" by (rule reach_step [OF reach_refl])
      have eq: "steps al (Suc n) (P c) s = steps al n p s'" using True Atom f by simp
      from sys_reach_trans [OF Suc.IH [of s' "P(c := p)"] r] show ?thesis unfolding eq by (simp only: fun_upd_upd fun_upd_same)
    next
      case False
      then show ?thesis using Atom f by (simp add: fun_upd_idem reach_refl)
    qed
  qed
qed

lemma exec1_reach:
  assumes "\<And>c s s'. al s s' \<Longrightarrow> allowed c s s'"
  shows "sys_reach walCalls allowed x (exec1 al e x)"
proof (cases e)
  case (Call c call)
  obtain s P where x: "x = (s, P)" by fastforce
  show ?thesis
  proof (cases "(\<exists>rc. P c = Done rc) \<and> c < nConn s \<and> callOk c s call")
    case True
    then obtain rc where "P c = Done rc" by blast
    then have "sys_step walCalls allowed (s, P) c (s, P(c := callProg c call))" by (rule sys_call) (use True in \<open>auto intro: walCalls.intros\<close>)
    then have "sys_reach walCalls allowed (s, P) (s, P(c := callProg c call))" by (rule reach_step [OF reach_refl])
    then show ?thesis using True Call x by auto
  next
    case False
    then show ?thesis using Call x by (auto simp: reach_refl split: prog.split)
  qed
next
  case (Go c n)
  then show ?thesis using steps_reach [OF assms, where c = c and n = n] by (cases x) (simp add: case_prod_beta)
qed

lemma exec_reach:
  assumes "\<And>c s s'. al s s' \<Longrightarrow> allowed c s s'"
  shows "sys_reach walCalls allowed x (exec al es x)"
proof (induction es arbitrary: x)
  case (Cons e es)
  show ?case using sys_reach_trans [OF Cons.IH exec1_reach [OF assms]] by simp
qed (simp add: reach_refl)

section \<open>Evaluation of runs\<close>

text \<open>A run is evaluated one access at a time: the rules below look only at the first access of a program, and the
  congruence rules keep the simplifier out of the rest of it.\<close>

definition pass :: "(shm \<Rightarrow> shm \<Rightarrow> bool) \<Rightarrow> nat \<Rightarrow> ('a \<Rightarrow> wprog) \<Rightarrow> 'a \<Rightarrow> shm \<Rightarrow> shm \<times> wprog" where
  "pass al m k v s = steps al m (k v) s"

definition after :: "(shm \<Rightarrow> shm \<Rightarrow> bool) \<Rightarrow> nat \<Rightarrow> (rcode \<Rightarrow> shm \<Rightarrow> shm \<times> wprog) \<Rightarrow> shm \<Rightarrow> shm \<times> wprog \<Rightarrow> shm \<times> wprog" where
  "after al m f s x = (if al s (fst x) then steps al m (snd x) (fst x) else (s, Atom f))"

lemma steps_cong: "m = m' \<Longrightarrow> s = s' \<Longrightarrow> steps al m p s = steps al m' p s'"
  and pass_cong: "m = m' \<Longrightarrow> v = v' \<Longrightarrow> s = s' \<Longrightarrow> pass al m k v s = pass al m' k v' s'"
  and after_cong: "m = m' \<Longrightarrow> s = s' \<Longrightarrow> after al m f s x = after al m' f s' x"
  by simp_all

lemma steps_Done: "steps al m (Done rc) s = (s, Done rc)"
  by (cases m) simp_all

lemma steps_Atom: "0 < m \<Longrightarrow> steps al m (Atom f) s = after al (m - 1) f s (f SQLITE_OK s)"
  by (cases m) (simp_all add: after_def)

lemma after_rules:
  "al s t \<Longrightarrow> after al m f s (t, p) = steps al m p t"
  "after al m f s (if b then x else y) = (if b then after al m f s x else after al m f s y)"
  by (simp_all add: after_def)

lemma steps_rules:
  "steps al m (if b then p else q) s = (if b then steps al m p s else steps al m q s)"
  "steps al m (case_option p f r) s = (case r of None \<Rightarrow> steps al m p s | Some x \<Rightarrow> steps al m (f x) s)"
  "steps al m (case_prod g (x, y)) s = steps al m (g x y) s"
  "steps al m ((P(c := p)) d) s = (if d = c then steps al m p s else steps al m (P d) s)"
  by (simp_all add: pass_def split: option.split)

text \<open>A local definition is evaluated when it is a value, and inserted when it is a program.\<close>

lemma steps_Let:
  "steps al m (Let (v1 :: nat) k1) s = pass al m k1 v1 s" "steps al m (Let (v2 :: u32) k2) s = pass al m k2 v2 s"
  "steps al m (Let (v3 :: rcode) k3) s = pass al m k3 v3 s" "steps al m (Let (v4 :: bytes) k4) s = pass al m k4 v4 s"
  "steps al m (Let (v5 :: u32 \<times> nat) k5) s = pass al m k5 v5 s" "steps al m (Let (v6 :: (u32 \<times> nat) list) k6) s = pass al m k6 v6 s"
  "steps al m (Let (p1 :: wprog) k7) s = steps al m (k7 p1) s" "steps al m (Let (p2 :: rcode \<Rightarrow> wprog) k8) s = steps al m (k8 p2) s"
  "steps al m (Let (p3 :: rcode \<Rightarrow> nat \<Rightarrow> nat \<Rightarrow> wprog) k9) s = steps al m (k9 p3) s"
  "steps al m (Let (p4 :: bool \<Rightarrow> rcode \<Rightarrow> ckptMode \<Rightarrow> wprog) k10) s = steps al m (k10 p4) s"
  "steps al m (Let (p5 :: ckptMode \<Rightarrow> wprog) k11) s = steps al m (k11 p5) s"
  by (simp_all add: pass_def)

lemma steps_look: "0 < m \<Longrightarrow> al s s \<Longrightarrow> steps al m (look f k) s = pass al (m - 1) k (f s) s"
  by (simp add: look_def steps_Atom after_def pass_def)

lemma steps_change: "0 < m \<Longrightarrow> al s (f s) \<Longrightarrow> steps al m (change f k) s = steps al (m - 1) k (f s)"
  by (simp add: change_def steps_Atom after_def)

lemma steps_osCall: "0 < m \<Longrightarrow> al s s \<Longrightarrow> steps al m (osCall k) s = steps al (m - 1) (k SQLITE_OK) s"
  by (simp add: osCall_def steps_Atom after_def)

lemma shm_hdr: "hdr (fst (shmShared c l e s)) = hdr s" "hdr (fst (shmExclusive c l n e s)) = hdr s" "hdr (shmUnlock c l n s) = hdr s"
  by (simp_all add: shmShared_def shmExclusive_def shmUnlock_def)

text \<open>The two ways to choose interleavings: without a restart of the log, and all of them.\<close>

definition sameLog :: "shm \<Rightarrow> shm \<Rightarrow> bool" where
  "sameLog s s' \<longleftrightarrow> hSalt (hdr s') = hSalt (hdr s)"

definition anyLog :: "shm \<Rightarrow> shm \<Rightarrow> bool" where
  "anyLog s s' \<longleftrightarrow> True"

lemma sameLog_allowed: "sameLog s s' \<Longrightarrow> walAllowed c s s'"
  by (simp add: sameLog_def walAllowed_def)

lemma steps_locks:
  "0 < m \<Longrightarrow> steps sameLog m (walLockShared c l k) s = (case shmShared c l SQLITE_OK s of (s', rc) \<Rightarrow> steps sameLog (m - 1) (k rc) s')"
  "0 < m \<Longrightarrow> steps sameLog m (walLockExclusive c l n k) s = (case shmExclusive c l n SQLITE_OK s of (s', rc) \<Rightarrow> steps sameLog (m - 1) (k rc) s')"
  "0 < m \<Longrightarrow> steps anyLog m (walLockShared c l k) s = (case shmShared c l SQLITE_OK s of (s', rc) \<Rightarrow> steps anyLog (m - 1) (k rc) s')"
  "0 < m \<Longrightarrow> steps anyLog m (walLockExclusive c l n k) s = (case shmExclusive c l n SQLITE_OK s of (s', rc) \<Rightarrow> steps anyLog (m - 1) (k rc) s')"
  using shm_hdr(1) [of c l SQLITE_OK s] shm_hdr(2) [of c l n SQLITE_OK s]
  by (auto simp: walLockShared_def walLockExclusive_def steps_Atom after_def sameLog_def anyLog_def split: prod.splits)

lemma steps_unlocks:
  "0 < m \<Longrightarrow> steps sameLog m (walUnlockShared c l k) s = steps sameLog (m - 1) k (shmUnlock c l 1 s)"
  "0 < m \<Longrightarrow> steps sameLog m (walUnlockExclusive c l n k) s = steps sameLog (m - 1) k (shmUnlock c l n s)"
  "0 < m \<Longrightarrow> steps anyLog m (walUnlockShared c l k) s = steps anyLog (m - 1) k (shmUnlock c l 1 s)"
  "0 < m \<Longrightarrow> steps anyLog m (walUnlockExclusive c l n k) s = steps anyLog (m - 1) k (shmUnlock c l n s)"
  by (simp_all add: walUnlockShared_def walUnlockExclusive_def steps_Atom after_def sameLog_def anyLog_def shm_hdr)

lemma steps_upt:
  "steps al m (scanMarks c [a..<b] x y k) s = pass al m (\<lambda>is. scanMarks c is x y k) [a..<b] s"
  "steps al m (raiseMark c [a..<b] rc x y kerr kr) s = pass al m (\<lambda>is. raiseMark c is rc x y kerr kr) [a..<b] s"
  "steps al m (clearMarks [a..<b] p) s = pass al m (\<lambda>is. clearMarks is p) [a..<b] s"
  "steps al m (ckptMarks c n [a..<b] rc xb x kout k') s = pass al m (\<lambda>is. ckptMarks c n is rc xb x kout k') [a..<b] s"
  by (simp_all add: pass_def)

lemma steps_tryLoop: "0 < n \<Longrightarrow> steps al m (tryLoop c useWal n k) s = steps al m (walTryBeginRead c useWal (101 - (n - 1)) (\<lambda>r.
     case r of None \<Rightarrow> tryLoop c useWal (n - 1) k | Some rc \<Rightarrow> k rc)) s"
  by (cases n) simp_all

lemmas steps_head =
  arg_cong [of _ _ "\<lambda>p. steps al m p s", OF busyLock.simps(1)]
  arg_cong [of _ _ "\<lambda>p. steps al m p s", OF busyLock.simps(2)]
  arg_cong [of _ _ "\<lambda>p. steps al m p s", OF walIndexTryHdr_def]
  arg_cong [of _ _ "\<lambda>p. steps al m p s", OF walIndexReadHdr_def]
  arg_cong [of _ _ "\<lambda>p. steps al m p s", OF scanMarks.simps(1)]
  arg_cong [of _ _ "\<lambda>p. steps al m p s", OF scanMarks.simps(2)]
  arg_cong [of _ _ "\<lambda>p. steps al m p s", OF raiseMark.simps(1)]
  arg_cong [of _ _ "\<lambda>p. steps al m p s", OF raiseMark.simps(2)]
  arg_cong [of _ _ "\<lambda>p. steps al m p s", OF useMark_def]
  arg_cong [of _ _ "\<lambda>p. steps al m p s", OF tryMarks_def]
  arg_cong [of _ _ "\<lambda>p. steps al m p s", OF tryLock0_def]
  arg_cong [of _ _ "\<lambda>p. steps al m p s", OF walTryBeginRead_def]
  arg_cong [of _ _ "\<lambda>p. steps al m p s", OF sqlite3WalBeginReadTransaction_def]
  arg_cong [of _ _ "\<lambda>p. steps al m p s", OF endWrite_def]
  arg_cong [of _ _ "\<lambda>p. steps al m p s", OF sqlite3WalEndReadTransaction_def]
  arg_cong [of _ _ "\<lambda>p. steps al m p s", OF sqlite3WalBeginWriteTransaction_def]
  arg_cong [of _ _ "\<lambda>p. steps al m p s", OF sqlite3WalEndWriteTransaction_def]
  arg_cong [of _ _ "\<lambda>p. steps al m p s", OF walUndo_def]
  arg_cong [of _ _ "\<lambda>p. steps al m p s", OF walRestartLog_def]
  arg_cong [of _ _ "\<lambda>p. steps al m p s", OF clearMarks.simps(1)]
  arg_cong [of _ _ "\<lambda>p. steps al m p s", OF clearMarks.simps(2)]
  arg_cong [of _ _ "\<lambda>p. steps al m p s", OF writeFrames.simps(1)]
  arg_cong [of _ _ "\<lambda>p. steps al m p s", OF writeFrames.simps(2)]
  arg_cong [of _ _ "\<lambda>p. steps al m p s", OF walFrames_def]
  arg_cong [of _ _ "\<lambda>p. steps al m p s", OF ckptMarks.simps(1)]
  arg_cong [of _ _ "\<lambda>p. steps al m p s", OF ckptMarks.simps(2)]
  arg_cong [of _ _ "\<lambda>p. steps al m p s", OF copyLoop.simps(1)]
  arg_cong [of _ _ "\<lambda>p. steps al m p s", OF copyLoop.simps(2)]
  arg_cong [of _ _ "\<lambda>p. steps al m p s", OF backfill_def]
  arg_cong [of _ _ "\<lambda>p. steps al m p s", OF ckptWait_def]
  arg_cong [of _ _ "\<lambda>p. steps al m p s", OF checkpoint_def]
  arg_cong [of _ _ "\<lambda>p. steps al m p s", OF sqlite3WalCheckpoint_def]
  for al m s

declare busyLock.simps [simp del] scanMarks.simps [simp del] raiseMark.simps [simp del] tryLoop.simps [simp del]
  clearMarks.simps [simp del] writeFrames.simps [simp del] ckptMarks.simps [simp del] copyLoop.simps [simp del]
  steps.simps [simp del] steps_cong [cong] pass_cong [cong] after_cong [cong]

lemmas steps_eval = steps.simps(1) pass_def after_rules steps_rules steps_Let steps_Done steps_Atom steps_look steps_change steps_osCall steps_locks steps_unlocks
  steps_upt steps_tryLoop steps_head

lemma lockRanges: "{n..<Suc n} = {n}" "{(3 :: nat)..<4} = {3}" "{(4 :: nat)..<8} = {4, 5, 6, 7}"
  "{(4 :: nat)..<5} = {4}" "{(5 :: nat)..<6} = {5}" "{(6 :: nat)..<7} = {6}" "{(7 :: nat)..<8} = {7}"
  by auto

lemmas shm_eval = shmShared_def shmExclusive_def shmUnlock_def loadHdr_def startRead_def endRead_def undoWrite_def restartHdr_def
  publish_def truncDb_def upd_def sameLog_def anyLog_def Let_def writing_def pages_valid_def WAL_NREADER_def lockRanges upt_rec_numeral

lemma marks_eval: "replicate 4 x = [x, x, x, x]" "[Suc 0..<5] = [1, 2, 3, 4]" "[0..<2] = [0, 1]"
  by (simp_all add: numeral_eq_Suc)

lemma lastFrame_eval: "lastFrame (x # xs) q = (if lastFrame xs q = 0 then if x = q then 1 else 0 else Suc (lastFrame xs q))"
  using lastFrame_append [of "[x]" xs q] lastFrame_snoc [of "[]" x q] by simp

lemmas run_eval = steps_eval shm_eval shm0_def conn0_def marks_eval READMARK_NOT_USED_def ckptPages_def pagesAfter_def
  lastFrame_eval readPage_def overlay_def

text \<open>Two connections and a database of three pages. A transaction of one connection, from its start to the
  return of its locks.\<close>

abbreviation demo0 :: "shm \<times> (shm, rcode) threads" where
  "demo0 \<equiv> walStart 2 3 (\<lambda>q. [0]) (\<lambda>_. WAL_RDWR)"

definition tx :: "nat \<Rightarrow> (u32 \<times> bytes) list \<Rightarrow> walEvent list" where
  "tx c ps = [Call c BeginRead, Go c 99, Call c BeginWrite, Go c 99, Call c (Frames ps 3 True), Go c 99, Call c EndRead, Go c 99]"

text \<open>One connection commits, the other starts to read, and the first one commits again.\<close>

definition demo1 :: "shm \<times> (shm, rcode) threads" where
  "demo1 = exec sameLog (tx 0 [(1, [1]), (2, [2])] @ [Call 1 BeginRead, Go 1 99]) demo0"

definition demo2 :: "shm \<times> (shm, rcode) threads" where
  "demo2 = exec sameLog (tx 0 [(1, [3])]) demo1"

lemma demo1_run:
  "snd demo1 1 = Done SQLITE_OK" "readLock (con (fst demo1) 1) = Some 1" "\<not> writing 1 (fst demo1)"
  "chdr (con (fst demo1) 1) = \<lparr> hSalt = 1, iChg = 2, mxFr = 2, nPg = 3 \<rparr>" "readPage 1 (fst demo1) 1 = [1]"
  unfolding demo1_def tx_def by (simp_all add: run_eval split del: if_split)

lemma demo2_run:
  "snd demo2 1 = Done SQLITE_OK" "readLock (con (fst demo2) 1) = Some 1" "\<not> writing 1 (fst demo2)"
  "chdr (con (fst demo2) 1) = \<lparr> hSalt = 1, iChg = 2, mxFr = 2, nPg = 3 \<rparr>"
  unfolding demo2_def demo1_def tx_def by (simp_all add: run_eval split del: if_split)

lemma demo_reach:
  "sys_reach walCalls walAllowed demo0 (fst demo1, snd demo1)" "sys_reach walCalls walAllowed (fst demo1, snd demo1) (fst demo2, snd demo2)"
  unfolding demo1_def demo2_def prod.collapse by (rule exec_reach, erule sameLog_allowed)+

section \<open>Isolation\<close>

text \<open>C4. In every state that several connections reach by any interleaving of their accesses, with any answers of
  the operating system, the invariant of the shared memory holds, provided the log is not restarted while
  another connection runs a checkpoint: locks exclude each other, every published header describes a committed
  state that the log and the database file still contain, and no checkpoint has gone past a reader.\<close>

theorem wal_reachable_inv:
  assumes "sys_reach walCalls walAllowed (walStart n np v ro) (s, P)"
  shows "walInv s"
  using reach_ok [OF assms] by (simp add: wal.sys_ok_def)

theorem wal_reachable_inv_witness: "walInv (fst demo2)"
  by (rule wal_reachable_inv [OF sys_reach_trans [OF demo_reach(2,1)]])

text \<open>C1. Snapshot isolation: whatever the other connections do, except that the log is not restarted while another
  connection runs a checkpoint, a connection in a read transaction reads every page of the database as it was in
  one committed state, the one whose header it has in its cache.\<close>

theorem wal_snapshot:
  assumes "sys_reach walCalls walAllowed (walStart n np v ro) (s, P)" and "P c = Done rc" and "readLock (con s c) = Some j"
    and "\<not> writing c s" and "pageIn q (chdr (con s c))"
  shows "\<exists>w. hist s (chdr (con s c)) = Some w \<and> readPage c s q = w q"
proof -
  have "walInv s" "walIdle c s" using reach_ok [OF assms(1)] wal.sys_ok_idle [OF reach_ok [OF assms(1)] assms(2)] by (auto simp: wal.sys_ok_def)
  then show ?thesis using idle_read [OF _ _ assms(3-5)] by auto
qed

theorem wal_snapshot_witness:
  "\<exists>w. hist (fst demo1) \<lparr> hSalt = 1, iChg = 2, mxFr = 2, nPg = 3 \<rparr> = Some w \<and> [1] = w 1"
  using wal_snapshot [OF demo_reach(1) demo1_run(1-3), of 1] unfolding demo1_run(4,5) by (simp add: pageIn_def)

text \<open>C2. Repeatable reads: two readers with the same header, at different times or in different connections,
  read the same content of every page, whatever is committed or copied in between, provided the log is not
  restarted while another connection runs a checkpoint.\<close>

theorem wal_repeatable_read:
  assumes "sys_reach walCalls walAllowed (walStart n np v ro) (s, P)" and "sys_reach walCalls walAllowed (s, P) (s', P')"
    and "P c = Done rc" and "readLock (con s c) = Some j" and "\<not> writing c s"
    and "P' d = Done rc'" and "readLock (con s' d) = Some j'" and "\<not> writing d s'"
    and "chdr (con s' d) = chdr (con s c)" and "pageIn q (chdr (con s c))"
  shows "readPage d s' q = readPage c s q"
proof -
  have ok: "wal.sys_ok (s, P)" by (rule reach_ok [OF assms(1)])
  then have ok': "wal.sys_ok (s', P')" by (rule walc.sys_ok_reach [OF assms(2)])
  have inv: "walInv s" "walInv s'" using ok ok' by (auto simp: wal.sys_ok_def)
  note r = idle_read [OF inv(1) wal.sys_ok_idle [OF ok assms(3)] assms(4,5,10)]
  note r' = idle_read [OF inv(2) wal.sys_ok_idle [OF ok' assms(6)] assms(7,8)]
  have "hist s' (chdr (con s c)) = hist s (chdr (con s c))"
    using hist_reach [OF assms(2) ok] r(1) by (auto simp: map_le_def dom_def)
  then show ?thesis using r(2) r'(2) assms(9,10) by simp
qed

theorem wal_repeatable_read_witness: "readPage 1 (fst demo2) 1 = [1]"
  using wal_repeatable_read [OF demo_reach demo1_run(1-3) demo2_run(1-3), of 1] unfolding demo1_run(4,5) demo2_run(4)
  by (simp add: pageIn_def)

text \<open>C3. Writers: provided the log is not restarted while another connection runs a checkpoint, a connection in
  a write transaction is the only one, and it reads the last committed state with the pages on top that it has
  written itself. Since its changes start from the last committed state, write transactions are serial.\<close>

theorem wal_writer:
  assumes "sys_reach walCalls walAllowed (walStart n np v ro) (s, P)" and "P c = Done rc" and "readLock (con s c) = Some j"
    and "writing c s" and "pageIn q (hdr s)"
  shows "(\<forall>d. writing d s \<longrightarrow> d = c) \<and>
    (\<exists>w. hist s (hdr s) = Some w \<and> readPage c s q = overlay (drop (mxFr (hdr s)) (take (mxFr (chdr (con s c))) (frames s))) w q)"
proof -
  have inv: "walInv s" "walIdle c s" using reach_ok [OF assms(1)] wal.sys_ok_idle [OF reach_ok [OF assms(1)] assms(2)] by (auto simp: wal.sys_ok_def)
  obtain w where "hist s (hdr s) = Some w" using inv(1) by (auto simp: walInv_def histInv_def)
  then show ?thesis using idle_write_read [OF inv assms(3-5)] one_writer [OF inv(1) assms(4)] by auto
qed

text \<open>A connection that has written a page and not yet committed.\<close>

definition demo3 :: "shm \<times> (shm, rcode) threads" where
  "demo3 = exec sameLog ([Call 0 BeginRead, Go 0 99, Call 0 BeginWrite, Go 0 99, Call 0 (Frames [(2, [5])] 3 False), Go 0 99]) demo1"

lemma demo3_run:
  "snd demo3 0 = Done SQLITE_OK" "readLock (con (fst demo3) 0) = Some 1" "writing 0 (fst demo3)"
  "hdr (fst demo3) = \<lparr> hSalt = 1, iChg = 2, mxFr = 2, nPg = 3 \<rparr>" "mxFr (chdr (con (fst demo3) 0)) = 3"
  "frames (fst demo3) = [(1, [1]), (2, [2]), (2, [5])]"
  unfolding demo3_def demo1_def tx_def by (simp_all add: run_eval split del: if_split)

theorem wal_writer_witness: "readPage 0 (fst demo3) 2 = [5]"
proof -
  have "sys_reach walCalls walAllowed demo1 demo3" unfolding demo3_def by (rule exec_reach, erule sameLog_allowed)
  then have "sys_reach walCalls walAllowed demo0 (fst demo3, snd demo3)" using sys_reach_trans [OF _ demo_reach(1)] by simp
  from wal_writer [OF this demo3_run(1-3), of 2] show ?thesis
    unfolding demo3_run(4-6) by (auto simp: pageIn_def overlay_def lastFrame_eval Let_def)
qed

section \<open>A restart during a checkpoint\<close>

lemma all_less_two: "(\<forall>c < (2 :: nat). Q c) \<longleftrightarrow> Q 0 \<and> Q 1"
  by (auto simp: less_2_cases_iff)

text \<open>The interleaving that the restriction above excludes. A first transaction is committed and copied into the
  database file. A second checkpoint has read the header of the wal-index when the other connection restarts
  the log and commits again; the checkpoint goes on with its copy of the header, and at its end it sets
  \<^verbatim>\<open>nBackfill\<close> to the number of frames of the old log. One more commit makes the new log as long as this
  number.\<close>

definition raceLog :: "walEvent list" where
  "raceLog = tx 0 [(1, [1]), (2, [2])] @ [Call 1 (Checkpoint 0 CHECKPOINT_PASSIVE False False), Go 1 99,
     Call 1 (Checkpoint 0 CHECKPOINT_PASSIVE False False), Go 1 3] @ tx 0 [(1, [3])] @ [Go 1 99] @ tx 0 [(1, [4])] @ [Call 1 BeginRead, Go 1 99]"

text \<open>\<open>succeeds al es x\<close>: in the run \<open>es\<close> every call that is made is made and returns \<^const>\<open>SQLITE_OK\<close>. A connection makes its
  next call only after the last one has returned, so the result is looked at there and at the end of the run.\<close>

primrec succeeds :: "(shm \<Rightarrow> shm \<Rightarrow> bool) \<Rightarrow> walEvent list \<Rightarrow> shm \<times> (shm, rcode) threads \<Rightarrow> bool" where
  "succeeds al [] x = (\<forall>c < nConn (fst x). snd x c = Done SQLITE_OK)"
| "succeeds al (e # es) x =
     ((case e of Call c call \<Rightarrow> snd x c = Done SQLITE_OK \<and> c < nConn (fst x) \<and> callOk c (fst x) call | Go c n \<Rightarrow> True)
      \<and> succeeds al es (exec1 al e x))"

lemma race_succeeds: "succeeds anyLog raceLog demo0"
  unfolding raceLog_def tx_def by (simp add: run_eval all_less_two split del: if_split)

lemma race_run:
  "case exec anyLog raceLog demo0 of (s, P) \<Rightarrow> P 1 = Done SQLITE_OK \<and> readLock (con s 1) = Some 0 \<and> \<not> writing 1 s
     \<and> chdr (con s 1) = hdr s \<and> nPg (hdr s) = 3 \<and> hist s (hdr s) \<noteq> None \<and> the (hist s (hdr s)) 1 = [4] \<and> readPage 1 s 1 = [3]"
  unfolding raceLog_def tx_def by (simp add: run_eval split del: if_split)

text \<open>C6. The restriction is necessary: without it there is a run of two connections, in which all calls succeed,
  and all calls of the operating system answer \<^const>\<open>SQLITE_OK\<close>, at whose end a reader with the current header of the wal-index does not see the last committed content of a
  page. It reads the page from the database file, because \<^verbatim>\<open>nBackfill\<close> is equal to the length of the log, and the
  commit is lost for it.\<close>

theorem wal_reset_race:
  "\<exists>es s P w. exec anyLog es demo0 = (s, P) \<and> succeeds anyLog es demo0 \<and> sys_reach walCalls (\<lambda>_ _ _. True) demo0 (s, P) \<and>
     P 1 = Done SQLITE_OK \<and> readLock (con s 1) = Some 0 \<and> \<not> writing 1 s \<and>
     chdr (con s 1) = hdr s \<and> pageIn 1 (hdr s) \<and> hist s (hdr s) = Some w \<and> readPage 1 s 1 \<noteq> w 1"
proof -
  obtain s P where x: "exec anyLog raceLog demo0 = (s, P)" by fastforce
  have "sys_reach walCalls (\<lambda>_ _ _. True) demo0 (s, P)" using exec_reach [of anyLog "\<lambda>_ _ _. True" demo0 raceLog] x by simp
  moreover have "P 1 = Done SQLITE_OK \<and> readLock (con s 1) = Some 0 \<and> \<not> writing 1 s \<and> chdr (con s 1) = hdr s \<and> nPg (hdr s) = 3
      \<and> hist s (hdr s) \<noteq> None \<and> the (hist s (hdr s)) 1 = [4] \<and> readPage 1 s 1 = [3]"
    using race_run unfolding x prod.case .
  ultimately show ?thesis using x race_succeeds
    by (intro exI [of _ raceLog] exI [of _ s] exI [of _ P] exI [of _ "the (hist s (hdr s))"]) (auto simp: pageIn_def)
qed

end
