(* ===== verification/Wal_Progress.thy ===== *)
theory Wal_Progress
  imports Wal_System
begin

text \<open>
  Progress of the locking protocol: what a connection needs in order to start a transaction. The
  other connections may be in read transactions on any of the marks, and one of them in a write
  transaction; as long as they are between two calls, they do not keep a connection from reading.
\<close>

section \<open>Running a program to a point\<close>

text \<open>After \<open>n\<close> accesses that succeed, the program \<open>p\<close> in the state \<open>s\<close> has become \<open>p'\<close> in the state \<open>s'\<close>.\<close>

definition leads :: "nat \<Rightarrow> shm \<Rightarrow> wprog \<Rightarrow> shm \<Rightarrow> wprog \<Rightarrow> bool" where
  "leads n s p s' p' \<longleftrightarrow> (\<forall>m. steps sameLog (n + m) p s = steps sameLog m p' s')"

lemma leads_refl: "leads 0 s p s p"
  by (simp add: leads_def)

lemma leads_trans: "leads n s p s' p' \<Longrightarrow> leads m s' p' s'' p'' \<Longrightarrow> leads (n + m) s p s'' p''"
  by (simp add: leads_def add.assoc)

lemma leads_Done: "leads n s p s' (Done rc) \<Longrightarrow> n \<le> N \<Longrightarrow> steps sameLog N p s = (s', Done rc)"
  by (metis leads_def le_add_diff_inverse steps_Done)

lemma leads_Atom: "f SQLITE_OK s = (s1, p) \<Longrightarrow> hdr s1 = hdr s \<Longrightarrow> leads n s1 p s' p' \<Longrightarrow> leads (Suc n) s (Atom f) s' p'"
  unfolding leads_def add_Suc steps.simps prog.case sameLog_def by (simp only: fst_conv snd_conv if_True simp_thms)

lemma leads_look: "leads n s (k (f s)) s' p' \<Longrightarrow> leads (Suc n) s (look f k) s' p'"
  unfolding look_def by (rule leads_Atom) simp_all

lemma leads_change: "hdr (f s) = hdr s \<Longrightarrow> leads n (f s) k s' p' \<Longrightarrow> leads (Suc n) s (change f k) s' p'"
  unfolding change_def by (rule leads_Atom) simp_all

lemma leads_Shared:
  assumes "\<forall>x. l \<notin> exclMask (con s x)"
    and "leads n (upd c (\<lambda>p. p \<lparr> sharedMask := insert l (sharedMask p) \<rparr>) s) (k SQLITE_OK) s' p'"
  shows "leads (Suc n) s (walLockShared c l k) s' p'"
  unfolding walLockShared_def
  by (rule leads_Atom [OF _ _ assms(2)]) (use assms(1) in \<open>simp_all add: shmShared_def list_all_iff\<close>)

lemma leads_Exclusive:
  assumes "\<forall>x < nConn s. l \<notin> exclMask (con s x) \<and> l \<notin> sharedMask (con s x)"
    and "leads n (upd c (\<lambda>p. p \<lparr> exclMask := insert l (exclMask p) \<rparr>) s) (k SQLITE_OK) s' p'"
  shows "leads (Suc n) s (walLockExclusive c l 1 k) s' p'"
  unfolding walLockExclusive_def
  by (rule leads_Atom [OF _ _ assms(2)]) (use assms(1) in \<open>simp_all add: shmExclusive_def list_all_iff\<close>)

lemma leads_Exclusive_busy:
  assumes "x < nConn s" "l \<in> exclMask (con s x) \<or> l \<in> sharedMask (con s x)" "leads n s (k SQLITE_BUSY) s' p'"
  shows "leads (Suc n) s (walLockExclusive c l 1 k) s' p'"
  unfolding walLockExclusive_def
  by (rule leads_Atom [OF _ _ assms(3)]) (use assms(1,2) in \<open>auto simp: shmExclusive_def list_all_iff\<close>)

lemma leads_UnlockExclusive: "leads n (shmUnlock c l 1 s) k s' p' \<Longrightarrow> leads (Suc n) s (walUnlockExclusive c l 1 k) s' p'"
  unfolding walUnlockExclusive_def by (rule leads_Atom) (simp_all add: shmUnlock_def)

section \<open>The choice of a read mark\<close>

text \<open>The scan ends with the index of a mark that is not beyond the header, if there is one.\<close>

lemma leads_scan:
  assumes "0 \<notin> set is" "if iStart = 0 then xStart = 0 else marks s ! iStart = xStart \<and> xStart \<le> mxFr (chdr (con s c))"
  obtains x i where "leads (length is) s (scanMarks c is xStart iStart k) s (k x i)" "i = iStart \<or> i \<in> set is"
    "i \<noteq> 0 \<Longrightarrow> marks s ! i = x \<and> x \<le> mxFr (chdr (con s c))"
    "i = 0 \<Longrightarrow> iStart = 0 \<and> (\<forall>j \<in> set is. mxFr (chdr (con s c)) < marks s ! j)"
  using assms
proof (induction "is" arbitrary: xStart iStart thesis)
  case Nil
  from Nil.prems(3) show ?case by (intro Nil.prems(1) [of xStart iStart]) (auto simp: leads_refl scanMarks.simps split: if_splits)
next
  case (Cons a as)
  let ?mx = "mxFr (chdr (con s c))"
  have as: "0 \<notin> set as" "a \<noteq> 0" using Cons.prems(2) by auto
  show ?case
  proof (cases "xStart \<le> marks s ! a \<and> marks s ! a \<le> ?mx")
    case True
    show ?thesis
    proof (rule Cons.IH [OF _ as(1), where iStart = a and xStart = "marks s ! a"])
      fix x i assume "leads (length as) s (scanMarks c as (marks s ! a) a k) s (k x i)" "i = a \<or> i \<in> set as"
        "i \<noteq> 0 \<Longrightarrow> marks s ! i = x \<and> x \<le> ?mx" "i = 0 \<Longrightarrow> a = 0 \<and> (\<forall>j \<in> set as. ?mx < marks s ! j)"
      then show thesis using True as by (intro Cons.prems(1) [of x i]) (auto simp: scanMarks.simps intro!: leads_look)
    qed (use True as in simp)
  next
    case False
    show ?thesis
    proof (rule Cons.IH [OF _ as(1) Cons.prems(3)])
      fix x i assume "leads (length as) s (scanMarks c as xStart iStart k) s (k x i)" "i = iStart \<or> i \<in> set as"
        "i \<noteq> 0 \<Longrightarrow> marks s ! i = x \<and> x \<le> ?mx" "i = 0 \<Longrightarrow> iStart = 0 \<and> (\<forall>j \<in> set as. ?mx < marks s ! j)"
      then show thesis
        using False as Cons.prems(3) by (intro Cons.prems(1) [of x i]) (auto simp: scanMarks.simps intro!: leads_look split: if_splits)
    qed
  qed
qed

text \<open>Between calls nobody holds an exclusive lock except the write lock.\<close>

definition quiet :: "shm \<Rightarrow> bool" where
  "quiet s \<longleftrightarrow> (\<forall>d. exclMask (con s d) \<subseteq> {WAL_WRITE_LOCK})"

lemma quiet_lock: "quiet s \<Longrightarrow> WAL_READ_LOCK i \<notin> exclMask (con s d)"
  by (force simp: quiet_def)

lemma shmUnlock_after:
  assumes "l \<notin> exclMask (con s c)" "l \<notin> sharedMask (con s c)"
  shows "shmUnlock c l 1 ((upd c (\<lambda>p. p \<lparr> exclMask := insert l (exclMask p) \<rparr>) s) \<lparr> marks := ms \<rparr>) = s \<lparr> marks := ms \<rparr>"
proof -
  have "(con s c) \<lparr> exclMask := exclMask (con s c), sharedMask := sharedMask (con s c) \<rparr> = con s c" by simp
  then show ?thesis using assms by (simp add: shmUnlock_def upd_def)
qed

text \<open>Raising a mark: the first one that nobody reads is moved to the header, or all of them are in use.\<close>

lemma leads_raise:
  assumes "quiet s" "sharedMask (con s c) = {}" "c < nConn s" "is \<noteq> []"
  obtains (raised) j n where "j \<in> set is" "n \<le> length is + 3"
      "leads n s (raiseMark c is rc x i kerr k) (s \<lparr> marks := (marks s)[j := mxFr (chdr (con s c))] \<rparr>)
         (k SQLITE_OK (mxFr (chdr (con s c))) j)"
  | (busy) "leads (length is) s (raiseMark c is rc x i kerr k) s (k SQLITE_BUSY x i)"
      "\<forall>j \<in> set is. \<exists>d < nConn s. WAL_READ_LOCK j \<in> sharedMask (con s d)"
  using assms(4)
proof (induction "is" arbitrary: rc thesis)
  case (Cons a as)
  let ?l = "WAL_READ_LOCK a" and ?mx = "mxFr (chdr (con s c))"
  have e: "?l \<notin> exclMask (con s d)" for d by (rule quiet_lock [OF assms(1)])
  show ?case
  proof (cases "\<exists>d < nConn s. ?l \<in> sharedMask (con s d)")
    case False
    let ?s1 = "upd c (\<lambda>p. p \<lparr> exclMask := insert ?l (exclMask p) \<rparr>) s"
    have "leads (Suc (Suc (Suc (Suc 0)))) s (raiseMark c (a # as) rc x i kerr k) (s \<lparr> marks := (marks s)[a := ?mx] \<rparr>) (k SQLITE_OK ?mx a)"
      unfolding raiseMark.simps
    proof (rule leads_Exclusive)
      show "leads (Suc (Suc (Suc 0))) ?s1 (if SQLITE_OK = SQLITE_OK then look (\<lambda>s. mxFr (chdr (con s c))) (\<lambda>mx.
           change (\<lambda>s. s \<lparr> marks := (marks s)[a := mx] \<rparr>) (walUnlockExclusive c ?l 1 (k SQLITE_OK mx a)))
         else if SQLITE_OK \<noteq> SQLITE_BUSY then kerr SQLITE_OK else raiseMark c as SQLITE_OK x i kerr k)
         (s \<lparr> marks := (marks s)[a := ?mx] \<rparr>) (k SQLITE_OK ?mx a)"
        using shmUnlock_after [OF e [of c], of "(marks s)[a := ?mx]"] assms(2)
        by (auto intro!: leads_look leads_change leads_UnlockExclusive [unfolded One_nat_def] leads_refl)
    qed (use False e in auto)
    then show ?thesis by (rule Cons.prems(1) [rotated 2]) simp_all
  next
    case True
    then obtain d where d: "d < nConn s" "?l \<in> sharedMask (con s d)" by blast
    have step: "leads (Suc n) s (raiseMark c (a # as) rc x i kerr k) s' p'"
      if "leads n s (raiseMark c as SQLITE_BUSY x i kerr k) s' p'" for n s' p'
      using d that by (auto simp: raiseMark.simps intro!: leads_Exclusive_busy [unfolded One_nat_def])
    show ?thesis
    proof (cases "as = []")
      case True
      then show ?thesis using step [of 0 s "k SQLITE_BUSY x i"] d by (intro Cons.prems(2)) (auto simp: leads_refl raiseMark.simps)
    next
      case False
      show ?thesis
      proof (rule Cons.IH [OF _ _ False, of SQLITE_BUSY])
        fix j n assume "j \<in> set as" "n \<le> length as + 3" "leads n s (raiseMark c as SQLITE_BUSY x i kerr k)
          (s \<lparr> marks := (marks s)[j := ?mx] \<rparr>) (k SQLITE_OK ?mx j)"
        then show thesis using step by (intro Cons.prems(1) [of j "Suc n"]) auto
      next
        assume "leads (length as) s (raiseMark c as SQLITE_BUSY x i kerr k) s (k SQLITE_BUSY x i)"
          "\<forall>j \<in> set as. \<exists>d < nConn s. WAL_READ_LOCK j \<in> sharedMask (con s d)"
        then show thesis using step d by (intro Cons.prems(2)) auto
      qed
    qed
  qed
qed simp

section \<open>Starting transactions\<close>

text \<open>The state in which a connection starts to read: no lock of its own, and the others between calls.\<close>

definition canRead :: "nat \<Rightarrow> shm \<Rightarrow> bool" where
  "canRead c s \<longleftrightarrow> walInv s \<and> (\<forall>d. walIdle d s) \<and> c < nConn s \<and> readLock (con s c) = None \<and> readOnly (con s c) \<noteq> WAL_SHM_RDONLY"

lemma idle_quiet: "(\<forall>d. walIdle d s) \<Longrightarrow> quiet s"
  by (auto simp: walIdle_def quiet_def Let_def)

text \<open>A mark that is read is not beyond the header.\<close>

lemma read_mark:
  assumes "walInv s" "walIdle d s" "0 < j" "WAL_READ_LOCK j \<in> sharedMask (con s d)"
  shows "marks s ! j \<le> mxFr (hdr s)"
proof -
  have "readLock (con s d) = Some j" using assms(2,4) by (auto simp: walIdle_def Let_def split: option.splits)
  then have o: "snapOk s (snap (con s d)) j" using assms(1) by (auto simp: walInv_def readInv_def readOk_def)
  then have "current s (snap (con s d))" using assms(3) by (auto simp: snapOk_def current_def)
  then have "mxFr (snap (con s d)) \<le> mxFr (hdr s)" using assms(1) by (auto simp: walInv_def histInv_def)
  then show ?thesis using o assms(3) by (simp add: snapOk_def)
qed

text \<open>What a successful start of a read transaction leaves.\<close>

definition reading :: "nat \<Rightarrow> shm \<Rightarrow> shm \<Rightarrow> bool" where
  "reading c s s' \<longleftrightarrow> readLock (con s' c) \<noteq> None \<and> chdr (con s' c) = hdr s \<and> hdr s' = hdr s \<and> nConn s' = nConn s
     \<and> exclMask (con s' c) = exclMask (con s c) \<and> WAL_WRITE_LOCK \<notin> sharedMask (con s' c) \<and> readOnly (con s' c) = readOnly (con s c)
     \<and> (\<forall>d. d \<noteq> c \<longrightarrow> con s' d = con s d)"

lemma leads_useMark:
  assumes "quiet s" "marks s ! i = x" "hdr s = chdr (con s c)"
  shows "leads 2 s (useMark c x i k) (startRead c i (upd c (\<lambda>p. p \<lparr> sharedMask := insert (WAL_READ_LOCK i) (sharedMask p) \<rparr>) s)) (k (Some SQLITE_OK))"
  unfolding useMark_def numeral_2_eq_2
  by (rule leads_Shared) (use assms quiet_lock [OF assms(1)] in \<open>auto intro!: leads_Atom leads_refl simp: startRead_def\<close>)

lemma leads_tryMarks:
  assumes s: "walInv s" "quiet s" "\<forall>d. d \<noteq> c \<longrightarrow> walIdle d s" "sharedMask (con s c) = {}" "c < nConn s"
    and c: "readOnly (con s c) \<noteq> WAL_SHM_RDONLY" "chdr (con s c) = hdr s"
  shows "\<exists>n s'. n \<le> 14 \<and> leads n s (tryMarks c rc k) s' (k (Some SQLITE_OK)) \<and> reading c s s'"
proof -
  let ?mx = "mxFr (hdr s)" and ?is = "[1..<WAL_NREADER]"
  have i: "0 \<notin> set ?is" "length ?is = 4" "?is \<noteq> []" by (simp_all add: WAL_NREADER_def)
  have use: ?thesis
    if "n \<le> 12" "leads n s (tryMarks c rc k) (s \<lparr> marks := ms \<rparr>) (useMark c x i k)" "ms ! i = x" for n ms x i
  proof (intro exI conjI)
    let ?s = "s \<lparr> marks := ms \<rparr>"
    have "quiet ?s" using s(2) by (simp add: quiet_def)
    then show "leads (n + 2) s (tryMarks c rc k) (startRead c i (upd c (\<lambda>p. p \<lparr> sharedMask := insert (WAL_READ_LOCK i) (sharedMask p) \<rparr>) ?s))
        (k (Some SQLITE_OK))"
      using leads_trans [OF that(2) leads_useMark [of ?s i x c k]] that(3) c(2) by simp
    show "reading c s (startRead c i (upd c (\<lambda>p. p \<lparr> sharedMask := insert (WAL_READ_LOCK i) (sharedMask p) \<rparr>) ?s))"
      using s(4) c(2) by (simp add: reading_def startRead_def)
    show "n + 2 \<le> 14" using that(1) by simp
  qed
  let ?k = "\<lambda>rc mxReadMark mxI. if mxI = 0 then k (if rc = SQLITE_BUSY then None else Some SQLITE_READONLY_CANTLOCK)
      else useMark c mxReadMark mxI k"
  let ?rest = "\<lambda>x i. if x < ?mx \<or> i = 0 then raiseMark c ?is rc x i (\<lambda>rc. k (Some rc)) ?k else ?k rc x i"
  let ?look = "\<lambda>mxReadMark mxI. look (\<lambda>s. (readOnly (con s c), mxFr (chdr (con s c)))) (\<lambda>(ro, mx).
       let k' = ?k in if ro \<noteq> WAL_SHM_RDONLY \<and> (mxReadMark < mx \<or> mxI = 0)
          then raiseMark c ?is rc mxReadMark mxI (\<lambda>rc. k (Some rc)) k' else k' rc mxReadMark mxI)"
  obtain x i where scan: "leads 5 s (tryMarks c rc k) s (?rest x i)"
    "i \<noteq> 0 \<Longrightarrow> marks s ! i = x" "i = 0 \<Longrightarrow> \<forall>j \<in> set ?is. ?mx < marks s ! j"
  proof (rule leads_scan [OF i(1), where iStart = 0 and xStart = 0 and s = s and c = c and k = ?look])
    fix x i assume a: "leads (length ?is) s (scanMarks c ?is 0 0 ?look) s (?look x i)"
      and b: "i \<noteq> 0 \<Longrightarrow> marks s ! i = x \<and> x \<le> mxFr (chdr (con s c))"
        "i = 0 \<Longrightarrow> (0 :: nat) = 0 \<and> (\<forall>j \<in> set ?is. mxFr (chdr (con s c)) < marks s ! j)"
    have "leads 1 s (?look x i) s (?rest x i)" using c by (auto simp: Let_def intro!: leads_look leads_refl)
    from leads_trans [OF a this] b show thesis using c(2) i(2) by (intro that [of x i]) (simp_all add: tryMarks_def)
  qed simp_all
  show ?thesis
  proof (cases "x < ?mx \<or> i = 0")
    case False
    then show ?thesis using scan use [where n = 5 and ms = "marks s" and i = i and x = x] by simp
  next
    case True
    show ?thesis
    proof (rule leads_raise [OF s(2,4,5) i(3), of rc x i "\<lambda>rc. k (Some rc)" ?k])
      fix j n assume j: "j \<in> set ?is" "n \<le> length ?is + 3"
        "leads n s (raiseMark c ?is rc x i (\<lambda>rc. k (Some rc)) ?k) (s \<lparr> marks := (marks s)[j := mxFr (chdr (con s c))] \<rparr>)
          (?k SQLITE_OK (mxFr (chdr (con s c))) j)"
      have "length (marks s) = WAL_NREADER" using s(1) by (simp add: walInv_def logInv_def)
      then show ?thesis
        using leads_trans [OF scan(1)] j True c(2) i(2)
        by (intro use [where n = "5 + n" and ms = "(marks s)[j := ?mx]" and i = j and x = ?mx]) (auto simp: nth_list_update)
    next
      assume l: "leads (length ?is) s (raiseMark c ?is rc x i (\<lambda>rc. k (Some rc)) ?k) s (?k SQLITE_BUSY x i)"
        "\<forall>j \<in> set ?is. \<exists>d < nConn s. WAL_READ_LOCK j \<in> sharedMask (con s d)"
      have "i \<noteq> 0"
      proof
        assume "i = 0"
        have one: "1 \<in> set ?is" by (simp add: WAL_NREADER_def)
        obtain d where "WAL_READ_LOCK 1 \<in> sharedMask (con s d)" using bspec [OF l(2) one] by blast
        then have "marks s ! 1 \<le> ?mx" using s(3,4) by (cases "d = c") (auto intro!: read_mark [OF s(1)])
        then show False using bspec [OF scan(3) [OF \<open>i = 0\<close>] one] by simp
      qed
      moreover have "leads (5 + length ?is) s (tryMarks c rc k) s (?k SQLITE_BUSY x i)"
        by (rule leads_trans [OF scan(1)]) (use l(1) True in simp)
      ultimately show ?thesis
        using scan(2) i(2) use [where n = "5 + length ?is" and ms = "marks s" and i = i and x = x] by simp
    qed
  qed
qed

lemma leads_tryLock0:
  assumes s: "walInv s" "quiet s" "\<forall>d. d \<noteq> c \<longrightarrow> walIdle d s" "sharedMask (con s c) = {}" "c < nConn s"
    and c: "readOnly (con s c) \<noteq> WAL_SHM_RDONLY" "chdr (con s c) = hdr s"
  shows "\<exists>n s'. n \<le> 15 \<and> leads n s (tryLock0 c k) s' (k (Some SQLITE_OK)) \<and> reading c s s'"
proof (cases "nBack s = mxFr (chdr (con s c))")
  case True
  let ?s = "startRead c 0 (upd c (\<lambda>p. p \<lparr> sharedMask := insert (WAL_READ_LOCK 0) (sharedMask p) \<rparr>) s)"
  have "leads 3 s (tryLock0 c k) ?s (k (Some SQLITE_OK))"
    unfolding tryLock0_def numeral_3_eq_3
    by (rule leads_look)
      (use True c(2) quiet_lock [OF s(2), of 0] in \<open>auto intro!: leads_Shared leads_Atom leads_refl simp: startRead_def\<close>)
  moreover have "reading c s ?s" using s(4) c(2) by (simp add: reading_def startRead_def)
  ultimately show ?thesis by (intro exI [of _ 3] exI [of _ ?s]) simp
next
  case False
  obtain n s' where "n \<le> 14" "leads n s (tryMarks c SQLITE_OK k) s' (k (Some SQLITE_OK))" "reading c s s'"
    using leads_tryMarks [OF s c] by blast
  then show ?thesis using False
    by (intro exI [of _ "Suc n"] exI [of _ s']) (auto simp: tryLock0_def intro!: leads_look)
qed

lemma idle_loadHdr: "d \<noteq> c \<Longrightarrow> walIdle d (loadHdr c s) = walIdle d s"
  by (simp add: loadHdr_def walIdle_def writerOk_def Let_def)

lemma begin_read:
  assumes "canRead c s"
  shows "\<exists>s'. steps sameLog 16 (sqlite3WalBeginReadTransaction c) s = (s', Done SQLITE_OK) \<and> reading c s s'"
proof -
  let ?s = "loadHdr c s" and ?k = "\<lambda>r. case r of None \<Rightarrow> tryLoop c False 100 Done | Some rc \<Rightarrow> Done rc"
  have a: "walInv s" "\<forall>d. walIdle d s" "c < nConn s" "readLock (con s c) = None" "readOnly (con s c) \<noteq> WAL_SHM_RDONLY"
    using assms by (auto simp: canRead_def)
  have inv: "walInv ?s" using step_chdr [OF a(1), of c "hdr s"] by (simp add: loadHdr_def)
  have q: "quiet ?s" using idle_quiet [OF a(2)] by (simp add: quiet_def loadHdr_def)
  have i: "\<forall>d. d \<noteq> c \<longrightarrow> walIdle d ?s" using a(2) by (simp add: idle_loadHdr)
  have c: "sharedMask (con ?s c) = {}" "c < nConn ?s" "readOnly (con ?s c) \<noteq> WAL_SHM_RDONLY" "chdr (con ?s c) = hdr ?s"
    using a a(2) [rule_format, of c] by (simp_all add: loadHdr_def walIdle_def Let_def)
  obtain n s' where n: "n \<le> 15" "leads n ?s (tryLock0 c ?k) s' (Done SQLITE_OK)" "reading c ?s s'"
    using leads_tryLock0 [OF inv q i c, of ?k] by auto
  have "sqlite3WalBeginReadTransaction c = walTryBeginRead c False 1 ?k"
    using tryLoop.simps(2) [of c False 100 Done] by (simp add: sqlite3WalBeginReadTransaction_def)
  then have "leads (Suc n) s (sqlite3WalBeginReadTransaction c) s' (Done SQLITE_OK)"
    using n(2) by (auto simp: walTryBeginRead_def walIndexReadHdr_def walIndexTryHdr_def loadHdr_def intro!: leads_Atom)
  then have "steps sameLog 16 (sqlite3WalBeginReadTransaction c) s = (s', Done SQLITE_OK)"
    by (rule leads_Done) (use n(1) in linarith)
  moreover have "reading c s s'" using n(3) by (simp add: reading_def loadHdr_def)
  ultimately show ?thesis by blast
qed

lemma begin_write:
  assumes "\<forall>d < nConn s. WAL_WRITE_LOCK \<notin> exclMask (con s d) \<and> WAL_WRITE_LOCK \<notin> sharedMask (con s d)"
    and "chdr (con s c) = hdr s" "readOnly (con s c) = WAL_RDWR"
  shows "\<exists>s'. steps sameLog 3 (sqlite3WalBeginWriteTransaction c) s = (s', Done SQLITE_OK) \<and> writing c s'"
proof -
  let ?s = "upd c (\<lambda>p. p \<lparr> exclMask := insert WAL_WRITE_LOCK (exclMask p) \<rparr>) s"
  have "leads 3 s (sqlite3WalBeginWriteTransaction c) ?s (Done SQLITE_OK)"
    unfolding sqlite3WalBeginWriteTransaction_def numeral_3_eq_3
    by (rule leads_look)
      (use assms in \<open>auto intro!: leads_Exclusive [unfolded One_nat_def] leads_look leads_refl\<close>)
  then have "steps sameLog 3 (sqlite3WalBeginWriteTransaction c) s = (?s, Done SQLITE_OK)" by (rule leads_Done) simp
  then show ?thesis by (simp add: writing_def)
qed

text \<open>A reader that has the header of the last commit reads what was committed.\<close>

lemma run_reads_commit:
  assumes ok: "wal.sys_ok (s, P)" and ex: "exec sameLog es (s, P) = (s', P(c := Done rc))"
    and r: "readLock (con s' c) \<noteq> None" "chdr (con s' c) = hdr s" "\<not> writing c s'"
  shows "\<exists>w. hist s (hdr s) = Some w \<and> (\<forall>q. pageIn q (hdr s) \<longrightarrow> readPage c s' q = w q)"
proof -
  have reach: "sys_reach walCalls walAllowed (s, P) (s', P(c := Done rc))"
    using exec_reach [of sameLog walAllowed "(s, P)" es] sameLog_allowed ex by simp
  have ok': "wal.sys_ok (s', P(c := Done rc))" by (rule walc.sys_ok_reach [OF reach ok])
  obtain w where w: "hist s (hdr s) = Some w" using ok by (auto simp: wal.sys_ok_def walInv_def histInv_def)
  then have w': "hist s' (hdr s) = Some w" using hist_reach [OF reach ok] by (auto simp: map_le_def dom_def)
  have "walInv s'" "walIdle c s'" using ok' wal.sys_ok_idle [OF ok', of c] by (auto simp: wal.sys_ok_def)
  moreover obtain j where "readLock (con s' c) = Some j" using r(1) by auto
  ultimately have "readPage c s' q = w q" if "pageIn q (hdr s)" for q
    using idle_read(2) [of s' c j q] r(2,3) w' that by simp
  then show ?thesis using w by blast
qed

text \<open>C5. Readers are not blocked: consider a state in which all connections are between calls, reached without
  a restart of the log during the checkpoint of another connection. Whatever read marks the connections hold and
  although one of them is in the middle of a write transaction, a connection without a transaction that starts
  to read, while the others wait and all system calls answer \<^const>\<open>SQLITE_OK\<close>, gets \<^const>\<open>SQLITE_OK\<close> after at most 16 of
  its accesses; it has taken the header of the last commit and reads the content that was committed. If nobody
  writes, it can go on to a write transaction at once.\<close>

theorem wal_progress:
  assumes "sys_reach walCalls walAllowed (walStart n np v ro) (s, P)" and "\<forall>d. \<exists>rc. P d = Done rc"
    and "c < nConn s" and "readLock (con s c) = None" and "\<not> writing c s" and "readOnly (con s c) \<noteq> WAL_SHM_RDONLY"
  shows "\<exists>s'. exec sameLog [Call c BeginRead, Go c 16] (s, P) = (s', P(c := Done SQLITE_OK)) \<and>
      readLock (con s' c) \<noteq> None \<and> chdr (con s' c) = hdr s \<and> hdr s' = hdr s \<and>
      (\<exists>w. hist s (hdr s) = Some w \<and> (\<forall>q. pageIn q (hdr s) \<longrightarrow> readPage c s' q = w q)) \<and>
      (readOnly (con s c) = WAL_RDWR \<and> (\<forall>d. \<not> writing d s) \<longrightarrow>
        (\<exists>s''. exec sameLog [Call c BeginWrite, Go c 3] (s', P(c := Done SQLITE_OK)) = (s'', P(c := Done SQLITE_OK)) \<and> writing c s''))"
proof -
  have ok: "wal.sys_ok (s, P)" by (rule reach_ok [OF assms(1)])
  have idle: "\<forall>d. walIdle d s" using assms(2) wal.sys_ok_idle [OF ok] by blast
  have "canRead c s" using ok idle assms(3,4,6) by (simp add: canRead_def wal.sys_ok_def)
  then obtain s' where s': "steps sameLog 16 (sqlite3WalBeginReadTransaction c) s = (s', Done SQLITE_OK)" "reading c s s'"
    using begin_read by blast
  obtain rc where "P c = Done rc" using assms(2) by blast
  then have ex: "exec sameLog [Call c BeginRead, Go c 16] (s, P) = (s', P(c := Done SQLITE_OK))"
    using assms(3-5) s'(1) by (simp add: steps_rules(4))
  have ro: "readLock (con s' c) \<noteq> None" "chdr (con s' c) = hdr s" "\<not> writing c s'" using s'(2) assms(5) by (auto simp: reading_def writing_def)
  have view: "\<exists>w. hist s (hdr s) = Some w \<and> (\<forall>q. pageIn q (hdr s) \<longrightarrow> readPage c s' q = w q)"
    by (rule run_reads_commit [OF ok ex ro])
  note ex
  moreover have "\<exists>s''. exec sameLog [Call c BeginWrite, Go c 3] (s', P(c := Done SQLITE_OK)) = (s'', P(c := Done SQLITE_OK)) \<and> writing c s''"
    if w: "readOnly (con s c) = WAL_RDWR" "\<forall>d. \<not> writing d s"
  proof -
    have "WAL_WRITE_LOCK \<notin> sharedMask (con s d)" for d
      using idle by (auto simp: walIdle_def Let_def split: option.splits dest!: spec [of _ d])
    then have "\<forall>d. WAL_WRITE_LOCK \<notin> exclMask (con s' d) \<and> WAL_WRITE_LOCK \<notin> sharedMask (con s' d)"
      using s'(2) w(2) unfolding reading_def writing_def by metis
    moreover from this have "\<not> writing c s'" by (simp add: writing_def)
    then have "callOk c s' BeginWrite" using s'(2) by (simp add: reading_def)
    ultimately show ?thesis
      using begin_write [of s' c] s'(2) w(1) assms(3) by (auto simp: reading_def steps_rules(4))
  qed
  ultimately show ?thesis using s'(2) view by (auto simp: reading_def)
qed

lemma demo1_idle:
  "\<forall>d. \<exists>rc. snd demo1 d = Done rc" "0 < nConn (fst demo1)" "readLock (con (fst demo1) 0) = None" "\<not> writing 0 (fst demo1)"
  "readOnly (con (fst demo1) 0) \<noteq> WAL_SHM_RDONLY" "nPg (hdr (fst demo1)) = 3"
  unfolding demo1_def tx_def by (simp_all add: run_eval split del: if_split) simp

lemma wal_progress_witness:
  "\<exists>s'. exec sameLog [Call 0 BeginRead, Go 0 16] (fst demo1, snd demo1) = (s', (snd demo1)(0 := Done SQLITE_OK)) \<and> hdr s' = hdr (fst demo1)
     \<and> (\<exists>w. hist (fst demo1) (hdr (fst demo1)) = Some w \<and> readPage 0 s' 2 = w 2)"
proof -
  have "pageIn 2 (hdr (fst demo1))" by (simp add: pageIn_def demo1_idle(6))
  then show ?thesis using wal_progress [OF demo_reach(1) demo1_idle(1-5)] by auto
qed

end
