(* ===== verification/Keywords.thy ===== *)
theory Keywords
  imports Strings
begin

text \<open>
  The recognition of SQL keywords, \<^verbatim>\<open>keywordCode\<close> of the generated file \<^verbatim>\<open>keywordhash.h\<close> inside
  \<^verbatim>\<open>tokenize.c\<close>. The names of the keywords overlap in one text, a hash of the first and last letter and
  the length selects a chain of candidates. The theory shows that this is a case-insensitive lookup in
  the list of the 124 keywords.
\<close>

section \<open>Token codes\<close>

text \<open>The values that \<^verbatim>\<open>parse.h\<close> gives to the tokens.\<close>

abbreviation (input) TK_SEMI :: nat where "TK_SEMI \<equiv> 1"

abbreviation (input) TK_EXPLAIN :: nat where "TK_EXPLAIN \<equiv> 2"

abbreviation (input) TK_QUERY :: nat where "TK_QUERY \<equiv> 3"

abbreviation (input) TK_PLAN :: nat where "TK_PLAN \<equiv> 4"

abbreviation (input) TK_BEGIN :: nat where "TK_BEGIN \<equiv> 5"

abbreviation (input) TK_TRANSACTION :: nat where "TK_TRANSACTION \<equiv> 6"

abbreviation (input) TK_DEFERRED :: nat where "TK_DEFERRED \<equiv> 7"

abbreviation (input) TK_IMMEDIATE :: nat where "TK_IMMEDIATE \<equiv> 8"

abbreviation (input) TK_EXCLUSIVE :: nat where "TK_EXCLUSIVE \<equiv> 9"

abbreviation (input) TK_COMMIT :: nat where "TK_COMMIT \<equiv> 10"

abbreviation (input) TK_END :: nat where "TK_END \<equiv> 11"

abbreviation (input) TK_ROLLBACK :: nat where "TK_ROLLBACK \<equiv> 12"

abbreviation (input) TK_SAVEPOINT :: nat where "TK_SAVEPOINT \<equiv> 13"

abbreviation (input) TK_RELEASE :: nat where "TK_RELEASE \<equiv> 14"

abbreviation (input) TK_TO :: nat where "TK_TO \<equiv> 15"

abbreviation (input) TK_TABLE :: nat where "TK_TABLE \<equiv> 16"

abbreviation (input) TK_CREATE :: nat where "TK_CREATE \<equiv> 17"

abbreviation (input) TK_IF :: nat where "TK_IF \<equiv> 18"

abbreviation (input) TK_NOT :: nat where "TK_NOT \<equiv> 19"

abbreviation (input) TK_EXISTS :: nat where "TK_EXISTS \<equiv> 20"

abbreviation (input) TK_TEMP :: nat where "TK_TEMP \<equiv> 21"

abbreviation (input) TK_LP :: nat where "TK_LP \<equiv> 22"

abbreviation (input) TK_RP :: nat where "TK_RP \<equiv> 23"

abbreviation (input) TK_AS :: nat where "TK_AS \<equiv> 24"

abbreviation (input) TK_WITHOUT :: nat where "TK_WITHOUT \<equiv> 25"

abbreviation (input) TK_COMMA :: nat where "TK_COMMA \<equiv> 26"

abbreviation (input) TK_ID :: nat where "TK_ID \<equiv> 27"

abbreviation (input) TK_INDEXED :: nat where "TK_INDEXED \<equiv> 28"

abbreviation (input) TK_ABORT :: nat where "TK_ABORT \<equiv> 29"

abbreviation (input) TK_ACTION :: nat where "TK_ACTION \<equiv> 30"

abbreviation (input) TK_AFTER :: nat where "TK_AFTER \<equiv> 31"

abbreviation (input) TK_ANALYZE :: nat where "TK_ANALYZE \<equiv> 32"

abbreviation (input) TK_ASC :: nat where "TK_ASC \<equiv> 33"

abbreviation (input) TK_ATTACH :: nat where "TK_ATTACH \<equiv> 34"

abbreviation (input) TK_BEFORE :: nat where "TK_BEFORE \<equiv> 35"

abbreviation (input) TK_BY :: nat where "TK_BY \<equiv> 36"

abbreviation (input) TK_CASCADE :: nat where "TK_CASCADE \<equiv> 37"

abbreviation (input) TK_CAST :: nat where "TK_CAST \<equiv> 38"

abbreviation (input) TK_COLUMNKW :: nat where "TK_COLUMNKW \<equiv> 39"

abbreviation (input) TK_CONFLICT :: nat where "TK_CONFLICT \<equiv> 40"

abbreviation (input) TK_DATABASE :: nat where "TK_DATABASE \<equiv> 41"

abbreviation (input) TK_DESC :: nat where "TK_DESC \<equiv> 42"

abbreviation (input) TK_DETACH :: nat where "TK_DETACH \<equiv> 43"

abbreviation (input) TK_EACH :: nat where "TK_EACH \<equiv> 44"

abbreviation (input) TK_FAIL :: nat where "TK_FAIL \<equiv> 45"

abbreviation (input) TK_FOR :: nat where "TK_FOR \<equiv> 46"

abbreviation (input) TK_IGNORE :: nat where "TK_IGNORE \<equiv> 47"

abbreviation (input) TK_INITIALLY :: nat where "TK_INITIALLY \<equiv> 48"

abbreviation (input) TK_INSTEAD :: nat where "TK_INSTEAD \<equiv> 49"

abbreviation (input) TK_LIKE_KW :: nat where "TK_LIKE_KW \<equiv> 50"

abbreviation (input) TK_MATCH :: nat where "TK_MATCH \<equiv> 51"

abbreviation (input) TK_NO :: nat where "TK_NO \<equiv> 52"

abbreviation (input) TK_KEY :: nat where "TK_KEY \<equiv> 53"

abbreviation (input) TK_OF :: nat where "TK_OF \<equiv> 54"

abbreviation (input) TK_OFFSET :: nat where "TK_OFFSET \<equiv> 55"

abbreviation (input) TK_PRAGMA :: nat where "TK_PRAGMA \<equiv> 56"

abbreviation (input) TK_RAISE :: nat where "TK_RAISE \<equiv> 57"

abbreviation (input) TK_RECURSIVE :: nat where "TK_RECURSIVE \<equiv> 58"

abbreviation (input) TK_REPLACE :: nat where "TK_REPLACE \<equiv> 59"

abbreviation (input) TK_RESTRICT :: nat where "TK_RESTRICT \<equiv> 60"

abbreviation (input) TK_ROW :: nat where "TK_ROW \<equiv> 61"

abbreviation (input) TK_TRIGGER :: nat where "TK_TRIGGER \<equiv> 62"

abbreviation (input) TK_VACUUM :: nat where "TK_VACUUM \<equiv> 63"

abbreviation (input) TK_VIEW :: nat where "TK_VIEW \<equiv> 64"

abbreviation (input) TK_VIRTUAL :: nat where "TK_VIRTUAL \<equiv> 65"

abbreviation (input) TK_WITH :: nat where "TK_WITH \<equiv> 66"

abbreviation (input) TK_REINDEX :: nat where "TK_REINDEX \<equiv> 67"

abbreviation (input) TK_RENAME :: nat where "TK_RENAME \<equiv> 68"

abbreviation (input) TK_CTIME_KW :: nat where "TK_CTIME_KW \<equiv> 69"

abbreviation (input) TK_OR :: nat where "TK_OR \<equiv> 71"

abbreviation (input) TK_AND :: nat where "TK_AND \<equiv> 72"

abbreviation (input) TK_IS :: nat where "TK_IS \<equiv> 73"

abbreviation (input) TK_BETWEEN :: nat where "TK_BETWEEN \<equiv> 74"

abbreviation (input) TK_IN :: nat where "TK_IN \<equiv> 75"

abbreviation (input) TK_ISNULL :: nat where "TK_ISNULL \<equiv> 76"

abbreviation (input) TK_NOTNULL :: nat where "TK_NOTNULL \<equiv> 77"

abbreviation (input) TK_NE :: nat where "TK_NE \<equiv> 78"

abbreviation (input) TK_EQ :: nat where "TK_EQ \<equiv> 79"

abbreviation (input) TK_GT :: nat where "TK_GT \<equiv> 80"

abbreviation (input) TK_LE :: nat where "TK_LE \<equiv> 81"

abbreviation (input) TK_LT :: nat where "TK_LT \<equiv> 82"

abbreviation (input) TK_GE :: nat where "TK_GE \<equiv> 83"

abbreviation (input) TK_ESCAPE :: nat where "TK_ESCAPE \<equiv> 84"

abbreviation (input) TK_BITAND :: nat where "TK_BITAND \<equiv> 85"

abbreviation (input) TK_BITOR :: nat where "TK_BITOR \<equiv> 86"

abbreviation (input) TK_LSHIFT :: nat where "TK_LSHIFT \<equiv> 87"

abbreviation (input) TK_RSHIFT :: nat where "TK_RSHIFT \<equiv> 88"

abbreviation (input) TK_PLUS :: nat where "TK_PLUS \<equiv> 89"

abbreviation (input) TK_MINUS :: nat where "TK_MINUS \<equiv> 90"

abbreviation (input) TK_STAR :: nat where "TK_STAR \<equiv> 91"

abbreviation (input) TK_SLASH :: nat where "TK_SLASH \<equiv> 92"

abbreviation (input) TK_REM :: nat where "TK_REM \<equiv> 93"

abbreviation (input) TK_CONCAT :: nat where "TK_CONCAT \<equiv> 94"

abbreviation (input) TK_COLLATE :: nat where "TK_COLLATE \<equiv> 95"

abbreviation (input) TK_BITNOT :: nat where "TK_BITNOT \<equiv> 96"

abbreviation (input) TK_STRING :: nat where "TK_STRING \<equiv> 97"

abbreviation (input) TK_JOIN_KW :: nat where "TK_JOIN_KW \<equiv> 98"

abbreviation (input) TK_CONSTRAINT :: nat where "TK_CONSTRAINT \<equiv> 99"

abbreviation (input) TK_DEFAULT :: nat where "TK_DEFAULT \<equiv> 100"

abbreviation (input) TK_NULL :: nat where "TK_NULL \<equiv> 101"

abbreviation (input) TK_PRIMARY :: nat where "TK_PRIMARY \<equiv> 102"

abbreviation (input) TK_UNIQUE :: nat where "TK_UNIQUE \<equiv> 103"

abbreviation (input) TK_CHECK :: nat where "TK_CHECK \<equiv> 104"

abbreviation (input) TK_REFERENCES :: nat where "TK_REFERENCES \<equiv> 105"

abbreviation (input) TK_AUTOINCR :: nat where "TK_AUTOINCR \<equiv> 106"

abbreviation (input) TK_ON :: nat where "TK_ON \<equiv> 107"

abbreviation (input) TK_INSERT :: nat where "TK_INSERT \<equiv> 108"

abbreviation (input) TK_DELETE :: nat where "TK_DELETE \<equiv> 109"

abbreviation (input) TK_UPDATE :: nat where "TK_UPDATE \<equiv> 110"

abbreviation (input) TK_SET :: nat where "TK_SET \<equiv> 111"

abbreviation (input) TK_DEFERRABLE :: nat where "TK_DEFERRABLE \<equiv> 112"

abbreviation (input) TK_FOREIGN :: nat where "TK_FOREIGN \<equiv> 113"

abbreviation (input) TK_DROP :: nat where "TK_DROP \<equiv> 114"

abbreviation (input) TK_UNION :: nat where "TK_UNION \<equiv> 115"

abbreviation (input) TK_ALL :: nat where "TK_ALL \<equiv> 116"

abbreviation (input) TK_EXCEPT :: nat where "TK_EXCEPT \<equiv> 117"

abbreviation (input) TK_INTERSECT :: nat where "TK_INTERSECT \<equiv> 118"

abbreviation (input) TK_SELECT :: nat where "TK_SELECT \<equiv> 119"

abbreviation (input) TK_VALUES :: nat where "TK_VALUES \<equiv> 120"

abbreviation (input) TK_DISTINCT :: nat where "TK_DISTINCT \<equiv> 121"

abbreviation (input) TK_DOT :: nat where "TK_DOT \<equiv> 122"

abbreviation (input) TK_FROM :: nat where "TK_FROM \<equiv> 123"

abbreviation (input) TK_JOIN :: nat where "TK_JOIN \<equiv> 124"

abbreviation (input) TK_USING :: nat where "TK_USING \<equiv> 125"

abbreviation (input) TK_ORDER :: nat where "TK_ORDER \<equiv> 126"

abbreviation (input) TK_GROUP :: nat where "TK_GROUP \<equiv> 127"

abbreviation (input) TK_HAVING :: nat where "TK_HAVING \<equiv> 128"

abbreviation (input) TK_LIMIT :: nat where "TK_LIMIT \<equiv> 129"

abbreviation (input) TK_WHERE :: nat where "TK_WHERE \<equiv> 130"

abbreviation (input) TK_INTO :: nat where "TK_INTO \<equiv> 131"

abbreviation (input) TK_INTEGER :: nat where "TK_INTEGER \<equiv> 132"

abbreviation (input) TK_FLOAT :: nat where "TK_FLOAT \<equiv> 133"

abbreviation (input) TK_BLOB :: nat where "TK_BLOB \<equiv> 134"

abbreviation (input) TK_VARIABLE :: nat where "TK_VARIABLE \<equiv> 135"

abbreviation (input) TK_CASE :: nat where "TK_CASE \<equiv> 136"

abbreviation (input) TK_WHEN :: nat where "TK_WHEN \<equiv> 137"

abbreviation (input) TK_THEN :: nat where "TK_THEN \<equiv> 138"

abbreviation (input) TK_ELSE :: nat where "TK_ELSE \<equiv> 139"

abbreviation (input) TK_INDEX :: nat where "TK_INDEX \<equiv> 140"

abbreviation (input) TK_ALTER :: nat where "TK_ALTER \<equiv> 141"

abbreviation (input) TK_ADD :: nat where "TK_ADD \<equiv> 142"

abbreviation (input) TK_ILLEGAL :: nat where "TK_ILLEGAL \<equiv> 150"

abbreviation (input) TK_SPACE :: nat where "TK_SPACE \<equiv> 151"

section \<open>The tables\<close>

definition zText :: string where
  "zText =
     ''REINDEXEDESCAPEACHECKEYBEFOREIGNOREGEXPLAINSTEADDATABASELECTABLEFTHENDEFERRABLEL'' @
     ''SEXCEPTRANSACTIONATURALTERAISEXCLUSIVEXISTSAVEPOINTERSECTRIGGEREFERENCESCONSTRAI'' @
     ''NTOFFSETEMPORARYUNIQUERYWITHOUTERELEASEATTACHAVINGROUPDATEBEGINNERECURSIVEBETWEE'' @
     ''NOTNULLIKECASCADELETECASECOLLATECREATECURRENT_DATEDETACHIMMEDIATEJOINSERTMATCHPL'' @
     ''ANALYZEPRAGMABORTVALUESVIRTUALIMITWHENWHERENAMEAFTEREPLACEANDEFAULTAUTOINCREMENT'' @
     ''CASTCOLUMNCOMMITCONFLICTCROSSCURRENT_TIMESTAMPRIMARYDEFERREDISTINCTDROPFAILFROMF'' @
     ''ULLGLOBYIFISNULLORDERESTRICTRIGHTROLLBACKROWUNIONUSINGVACUUMVIEWINITIALLY''"

definition aHash :: "nat list" where
  "aHash =
    [76, 105, 117, 74, 0, 45, 0, 0, 82, 0, 77, 0, 0, 42, 12, 78, 15, 0, 116, 85, 54, 112, 0, 19, 0,
     0, 121, 0, 119, 115, 0, 22, 93, 0, 9, 0, 0, 70, 71, 0, 69, 6, 0, 48, 90, 102, 0, 118, 101, 0,
     0, 44, 0, 103, 24, 0, 17, 0, 122, 53, 23, 0, 5, 110, 25, 96, 0, 0, 124, 106, 60, 123, 57, 28,
     55, 0, 91, 0, 100, 26, 0, 99, 0, 0, 0, 95, 92, 97, 88, 109, 14, 39, 108, 0, 81, 0, 18, 89,
     111, 32, 0, 120, 80, 113, 62, 46, 84, 0, 0, 94, 40, 59, 114, 0, 36, 0, 0, 29, 0, 86, 63, 64,
     0, 20, 61, 0, 56]"

definition aNext :: "nat list" where
  "aNext =
    [0, 0, 0, 0, 4, 0, 0, 0, 0, 0, 0, 0, 0, 0, 2, 0, 0, 0, 0, 0, 0, 13, 0, 0, 0, 0, 0, 7, 0, 0, 0,
     0, 0, 0, 0, 0, 0, 0, 0, 0, 0, 0, 0, 33, 0, 21, 0, 0, 0, 0, 0, 50, 0, 43, 3, 47, 0, 0, 0, 0,
     30, 0, 58, 0, 38, 0, 0, 0, 1, 66, 0, 0, 67, 0, 41, 0, 0, 0, 0, 0, 0, 49, 65, 0, 0, 0, 0, 31,
     52, 16, 34, 10, 0, 0, 0, 0, 0, 0, 0, 11, 72, 79, 0, 8, 0, 104, 98, 0, 107, 0, 87, 0, 75, 51,
     0, 27, 37, 73, 83, 0, 35, 68, 0, 0]"

definition aLen :: "nat list" where
  "aLen =
    [7, 7, 5, 4, 6, 4, 5, 3, 6, 7, 3, 6, 6, 7, 7, 3, 8, 2, 6, 5, 4, 4, 3, 10, 4, 6, 11, 6, 2, 7, 5,
     5, 9, 6, 9, 9, 7, 10, 10, 4, 6, 2, 3, 9, 4, 2, 6, 5, 7, 4, 5, 7, 6, 6, 5, 6, 5, 5, 9, 7, 7, 3,
     2, 4, 4, 7, 3, 6, 4, 7, 6, 12, 6, 9, 4, 6, 5, 4, 7, 6, 5, 6, 7, 5, 4, 5, 6, 5, 7, 3, 7, 13, 2,
     2, 4, 6, 6, 8, 5, 17, 12, 7, 8, 8, 2, 4, 4, 4, 4, 4, 2, 2, 6, 5, 8, 5, 8, 3, 5, 5, 6, 4, 9, 3]"

definition aOffset :: "nat list" where
  "aOffset =
    [0, 2, 2, 8, 9, 14, 16, 20, 23, 25, 25, 29, 33, 36, 41, 46, 48, 53, 54, 59, 62, 65, 67, 69, 78,
     81, 86, 91, 95, 96, 101, 105, 109, 117, 122, 128, 136, 142, 152, 159, 162, 162, 165, 167, 167,
     171, 176, 179, 184, 184, 188, 192, 199, 204, 209, 212, 218, 221, 225, 234, 240, 240, 240, 243,
     246, 250, 251, 255, 261, 265, 272, 278, 290, 296, 305, 307, 313, 318, 320, 327, 332, 337, 343,
     349, 354, 358, 361, 367, 371, 378, 380, 387, 389, 391, 400, 404, 410, 416, 424, 429, 429, 445,
     452, 459, 460, 467, 471, 475, 479, 483, 486, 488, 490, 496, 500, 508, 513, 521, 524, 529, 534,
     540, 544, 549]"

definition aCode :: "nat list" where
  "aCode =
    [TK_REINDEX, TK_INDEXED, TK_INDEX, TK_DESC, TK_ESCAPE, TK_EACH, TK_CHECK, TK_KEY, TK_BEFORE,
     TK_FOREIGN, TK_FOR, TK_IGNORE, TK_LIKE_KW, TK_EXPLAIN, TK_INSTEAD, TK_ADD, TK_DATABASE, TK_AS,
     TK_SELECT, TK_TABLE, TK_JOIN_KW, TK_THEN, TK_END, TK_DEFERRABLE, TK_ELSE, TK_EXCEPT,
     TK_TRANSACTION, TK_ACTION, TK_ON, TK_JOIN_KW, TK_ALTER, TK_RAISE, TK_EXCLUSIVE, TK_EXISTS,
     TK_SAVEPOINT, TK_INTERSECT, TK_TRIGGER, TK_REFERENCES, TK_CONSTRAINT, TK_INTO, TK_OFFSET,
     TK_OF, TK_SET, TK_TEMP, TK_TEMP, TK_OR, TK_UNIQUE, TK_QUERY, TK_WITHOUT, TK_WITH, TK_JOIN_KW,
     TK_RELEASE, TK_ATTACH, TK_HAVING, TK_GROUP, TK_UPDATE, TK_BEGIN, TK_JOIN_KW, TK_RECURSIVE,
     TK_BETWEEN, TK_NOTNULL, TK_NOT, TK_NO, TK_NULL, TK_LIKE_KW, TK_CASCADE, TK_ASC, TK_DELETE,
     TK_CASE, TK_COLLATE, TK_CREATE, TK_CTIME_KW, TK_DETACH, TK_IMMEDIATE, TK_JOIN, TK_INSERT,
     TK_MATCH, TK_PLAN, TK_ANALYZE, TK_PRAGMA, TK_ABORT, TK_VALUES, TK_VIRTUAL, TK_LIMIT, TK_WHEN,
     TK_WHERE, TK_RENAME, TK_AFTER, TK_REPLACE, TK_AND, TK_DEFAULT, TK_AUTOINCR, TK_TO, TK_IN,
     TK_CAST, TK_COLUMNKW, TK_COMMIT, TK_CONFLICT, TK_JOIN_KW, TK_CTIME_KW, TK_CTIME_KW,
     TK_PRIMARY, TK_DEFERRED, TK_DISTINCT, TK_IS, TK_DROP, TK_FAIL, TK_FROM, TK_JOIN_KW,
     TK_LIKE_KW, TK_BY, TK_IF, TK_ISNULL, TK_ORDER, TK_RESTRICT, TK_JOIN_KW, TK_ROLLBACK, TK_ROW,
     TK_UNION, TK_USING, TK_VACUUM, TK_VIEW, TK_INITIALLY, TK_ALL]"

section \<open>The search\<close>

definition charMap :: "u8 \<Rightarrow> nat" where
  "charMap c = unat (UpperToLower c)"

definition keywordHash :: "bytes \<Rightarrow> nat \<Rightarrow> nat" where
  "keywordHash z n = ((charMap (z ! 0) * 4) XOR (charMap (z ! (n - 1)) * 3) XOR n) mod 127"

lemma aNext_le: "\<forall>i<124. aNext ! i \<le> i"
  by code_simp

text \<open>The loop variable is kept as \<open>k = i + 1\<close>, so that 0 is the end of the chain.\<close>

function keywordLoop :: "bytes \<Rightarrow> nat \<Rightarrow> nat \<Rightarrow> nat" where
  "keywordLoop z n k =
     (if k = 0 \<or> 124 < k then TK_ID
      else if aLen ! (k - 1) = n \<and> sqlite3_strnicmp (drop (aOffset ! (k - 1)) (map of_char zText)) z n = Some 0 then aCode ! (k - 1)
      else keywordLoop z n (aNext ! (k - 1)))"
  by pat_completeness auto
termination
proof (relation "measure (\<lambda>(z, n, k). k)")
  fix z :: bytes and n k :: nat
  assume "\<not> (k = 0 \<or> 124 < k)"
  then have "aNext ! (k - 1) < k" using aNext_le by (metis Suc_diff_1 Suc_le_lessD le_imp_less_Suc not_gr_zero not_less)
  then show "((z, n, aNext ! (k - 1)), z, n, k) \<in> measure (\<lambda>(z, n, k). k)" by simp
qed simp

declare keywordLoop.simps [simp del]

definition keywordCode :: "bytes \<Rightarrow> nat \<Rightarrow> nat" where
  "keywordCode z n = (if n < 2 then TK_ID else keywordLoop z n (aHash ! keywordHash z n))"

section \<open>The list of keywords\<close>

definition keywordList :: "(string \<times> nat) list" where
  "keywordList =
    [(''REINDEX'', TK_REINDEX), (''INDEXED'', TK_INDEXED), (''INDEX'', TK_INDEX),
     (''DESC'', TK_DESC), (''ESCAPE'', TK_ESCAPE), (''EACH'', TK_EACH), (''CHECK'', TK_CHECK),
     (''KEY'', TK_KEY), (''BEFORE'', TK_BEFORE), (''FOREIGN'', TK_FOREIGN), (''FOR'', TK_FOR),
     (''IGNORE'', TK_IGNORE), (''REGEXP'', TK_LIKE_KW), (''EXPLAIN'', TK_EXPLAIN),
     (''INSTEAD'', TK_INSTEAD), (''ADD'', TK_ADD), (''DATABASE'', TK_DATABASE), (''AS'', TK_AS),
     (''SELECT'', TK_SELECT), (''TABLE'', TK_TABLE), (''LEFT'', TK_JOIN_KW), (''THEN'', TK_THEN),
     (''END'', TK_END), (''DEFERRABLE'', TK_DEFERRABLE), (''ELSE'', TK_ELSE),
     (''EXCEPT'', TK_EXCEPT), (''TRANSACTION'', TK_TRANSACTION), (''ACTION'', TK_ACTION),
     (''ON'', TK_ON), (''NATURAL'', TK_JOIN_KW), (''ALTER'', TK_ALTER), (''RAISE'', TK_RAISE),
     (''EXCLUSIVE'', TK_EXCLUSIVE), (''EXISTS'', TK_EXISTS), (''SAVEPOINT'', TK_SAVEPOINT),
     (''INTERSECT'', TK_INTERSECT), (''TRIGGER'', TK_TRIGGER), (''REFERENCES'', TK_REFERENCES),
     (''CONSTRAINT'', TK_CONSTRAINT), (''INTO'', TK_INTO), (''OFFSET'', TK_OFFSET),
     (''OF'', TK_OF), (''SET'', TK_SET), (''TEMPORARY'', TK_TEMP), (''TEMP'', TK_TEMP),
     (''OR'', TK_OR), (''UNIQUE'', TK_UNIQUE), (''QUERY'', TK_QUERY), (''WITHOUT'', TK_WITHOUT),
     (''WITH'', TK_WITH), (''OUTER'', TK_JOIN_KW), (''RELEASE'', TK_RELEASE),
     (''ATTACH'', TK_ATTACH), (''HAVING'', TK_HAVING), (''GROUP'', TK_GROUP),
     (''UPDATE'', TK_UPDATE), (''BEGIN'', TK_BEGIN), (''INNER'', TK_JOIN_KW),
     (''RECURSIVE'', TK_RECURSIVE), (''BETWEEN'', TK_BETWEEN), (''NOTNULL'', TK_NOTNULL),
     (''NOT'', TK_NOT), (''NO'', TK_NO), (''NULL'', TK_NULL), (''LIKE'', TK_LIKE_KW),
     (''CASCADE'', TK_CASCADE), (''ASC'', TK_ASC), (''DELETE'', TK_DELETE), (''CASE'', TK_CASE),
     (''COLLATE'', TK_COLLATE), (''CREATE'', TK_CREATE), (''CURRENT_DATE'', TK_CTIME_KW),
     (''DETACH'', TK_DETACH), (''IMMEDIATE'', TK_IMMEDIATE), (''JOIN'', TK_JOIN),
     (''INSERT'', TK_INSERT), (''MATCH'', TK_MATCH), (''PLAN'', TK_PLAN),
     (''ANALYZE'', TK_ANALYZE), (''PRAGMA'', TK_PRAGMA), (''ABORT'', TK_ABORT),
     (''VALUES'', TK_VALUES), (''VIRTUAL'', TK_VIRTUAL), (''LIMIT'', TK_LIMIT),
     (''WHEN'', TK_WHEN), (''WHERE'', TK_WHERE), (''RENAME'', TK_RENAME), (''AFTER'', TK_AFTER),
     (''REPLACE'', TK_REPLACE), (''AND'', TK_AND), (''DEFAULT'', TK_DEFAULT),
     (''AUTOINCREMENT'', TK_AUTOINCR), (''TO'', TK_TO), (''IN'', TK_IN), (''CAST'', TK_CAST),
     (''COLUMN'', TK_COLUMNKW), (''COMMIT'', TK_COMMIT), (''CONFLICT'', TK_CONFLICT),
     (''CROSS'', TK_JOIN_KW), (''CURRENT_TIMESTAMP'', TK_CTIME_KW),
     (''CURRENT_TIME'', TK_CTIME_KW), (''PRIMARY'', TK_PRIMARY), (''DEFERRED'', TK_DEFERRED),
     (''DISTINCT'', TK_DISTINCT), (''IS'', TK_IS), (''DROP'', TK_DROP), (''FAIL'', TK_FAIL),
     (''FROM'', TK_FROM), (''FULL'', TK_JOIN_KW), (''GLOB'', TK_LIKE_KW), (''BY'', TK_BY),
     (''IF'', TK_IF), (''ISNULL'', TK_ISNULL), (''ORDER'', TK_ORDER), (''RESTRICT'', TK_RESTRICT),
     (''RIGHT'', TK_JOIN_KW), (''ROLLBACK'', TK_ROLLBACK), (''ROW'', TK_ROW),
     (''UNION'', TK_UNION), (''USING'', TK_USING), (''VACUUM'', TK_VACUUM), (''VIEW'', TK_VIEW),
     (''INITIALLY'', TK_INITIALLY), (''ALL'', TK_ALL)]"

section \<open>Checks of the tables\<close>

text \<open>The names lie in the text at their offsets; the text is walked once, with the offsets in order.\<close>

fun kwWalk :: "nat \<Rightarrow> string \<Rightarrow> nat list \<Rightarrow> nat list \<Rightarrow> string list \<Rightarrow> bool" where
  "kwWalk pos z (o' # os) (l # ls) (s # ss) \<longleftrightarrow>
     pos \<le> o' \<and> length s = l \<and> take l (drop (o' - pos) z) = s \<and> kwWalk o' (drop (o' - pos) z) os ls ss"
| "kwWalk pos z [] [] [] \<longleftrightarrow> True"
| "kwWalk pos z _ _ _ \<longleftrightarrow> False"

lemma kwWalk_tables: "kwWalk 0 zText aOffset aLen (map fst keywordList)"
  by (simp add: zText_def aOffset_def aLen_def keywordList_def)

lemma kwWalk_nth:
  "kwWalk pos (drop pos z) os ls ss \<Longrightarrow> length os = length ss \<and> length ls = length ss \<and>
   (\<forall>i<length ss. take (ls ! i) (drop (os ! i) z) = ss ! i \<and> length (ss ! i) = ls ! i)"
proof (induction pos "drop pos z" os ls ss rule: kwWalk.induct)
  case (1 pos o' os l ls s ss)
  have d: "drop (o' - pos) (drop pos z) = drop o' z" using 1(2) by simp
  then have "kwWalk o' (drop o' z) os ls ss" using 1(2) by simp
  from 1(1) [OF d this] 1(2) d show ?case by (auto simp: nth_Cons split: nat.splits)
qed simp_all

lemma keyword_codes: "map snd keywordList = aCode"
  by (simp add: keywordList_def aCode_def)

text \<open>For each keyword the candidates that the search visits, up to the keyword itself.\<close>

definition kwPaths :: "nat list list" where
  "kwPaths =
    [[69, 1], [15, 2], [55, 3], [5, 4], [5], [6], [28, 7], [106, 104, 8], [9], [92, 10], [100, 11],
     [12], [22, 13], [14], [15], [90, 16], [17], [18], [19], [20], [46, 21], [22], [23], [24],
     [25], [26], [116, 27], [28], [29], [61, 30], [88, 31], [32], [44, 33], [91, 34], [121, 35],
     [36], [117, 37], [119, 83, 65, 38], [39], [40], [113, 75, 41], [42], [54, 43], [44], [45],
     [46], [56, 47], [48], [82, 49], [89, 52, 50], [114, 51], [89, 52], [53], [54], [55], [56],
     [57], [63, 58], [59], [60], [61], [62], [63], [64], [119, 83, 65], [70, 66], [118, 73, 67],
     [122, 68], [69], [70], [71], [101, 72], [118, 73], [74], [113, 75], [76], [77], [78],
     [102, 79], [80], [81], [82], [119, 83], [84], [85], [86], [111, 87], [88], [89], [90], [91],
     [92], [93], [94], [95], [96], [97], [109, 107, 98], [99], [100], [101], [102], [103],
     [106, 104], [105], [106], [109, 107], [108], [109], [110], [111], [112], [113], [114], [115],
     [116], [117], [118], [119], [120], [121], [122], [123], [124]]"

definition natLower :: "nat \<Rightarrow> nat" where
  "natLower x = (if 65 \<le> x \<and> x < 91 then x + 32 else x)"

definition kwHash :: "string \<Rightarrow> nat \<Rightarrow> nat" where
  "kwHash s n = ((natLower (of_char (hd s)) * 4) XOR (natLower (of_char (last s)) * 3) XOR n) mod 127"

fun kwPath :: "nat list \<Rightarrow> string list \<Rightarrow> nat \<Rightarrow> string \<Rightarrow> nat list \<Rightarrow> bool" where
  "kwPath nx names i s [] \<longleftrightarrow> False"
| "kwPath nx names i s [k] \<longleftrightarrow> k = Suc i"
| "kwPath nx names i s (k # k' # ks) \<longleftrightarrow>
     0 < k \<and> k \<le> 124 \<and> names ! (k - 1) \<noteq> s \<and> nx ! (k - 1) = k' \<and> kwPath nx names i s (k' # ks)"

fun kwPathsOk :: "nat list \<Rightarrow> nat list \<Rightarrow> string list \<Rightarrow> nat \<Rightarrow> string list \<Rightarrow> nat list \<Rightarrow> nat list list \<Rightarrow> bool" where
  "kwPathsOk hs nx names i (s # ss) (l # ls) (p # ps) \<longleftrightarrow>
     2 \<le> l \<and> hs ! kwHash s l = hd p \<and> kwPath nx names i s p \<and> kwPathsOk hs nx names (i + 1) ss ls ps"
| "kwPathsOk hs nx names i [] [] [] \<longleftrightarrow> True"
| "kwPathsOk hs nx names i _ _ _ \<longleftrightarrow> False"

lemma kwPathsOk_tables: "kwPathsOk aHash aNext (map fst keywordList) 0 (map fst keywordList) aLen kwPaths"
  by (simp add: aHash_def aNext_def aLen_def keywordList_def kwPaths_def kwHash_def natLower_def)

lemma kwPathsOk_nth:
  "kwPathsOk hs nx names i ss ls ps \<Longrightarrow> length ps = length ss \<and>
   (\<forall>j<length ss. 2 \<le> ls ! j \<and> hs ! kwHash (ss ! j) (ls ! j) = hd (ps ! j) \<and> kwPath nx names (i + j) (ss ! j) (ps ! j))"
  by (induction hs nx names i ss ls ps rule: kwPathsOk.induct) (auto simp: nth_Cons split: nat.splits)

lemma zText_upper: "list_all (\<lambda>c. 65 \<le> (of_char c :: nat) \<and> of_char c \<le> (90 :: nat) \<or> of_char c = (95 :: nat)) zText"
  by (simp add: zText_def)

section \<open>Correctness of the search\<close>

definition kwBytes :: "string \<Rightarrow> bytes" where
  "kwBytes s = map of_char s"

lemma length_keywordList: "length keywordList = 124"
  by (simp add: keywordList_def)

lemma keyword_at:
  assumes "i < 124"
  shows "take (aLen ! i) (drop (aOffset ! i) zText) = fst (keywordList ! i)" "length (fst (keywordList ! i)) = aLen ! i"
    "2 \<le> aLen ! i" "aCode ! i = snd (keywordList ! i)"
    "aHash ! kwHash (fst (keywordList ! i)) (aLen ! i) = hd (kwPaths ! i)"
    "kwPath aNext (map fst keywordList) i (fst (keywordList ! i)) (kwPaths ! i)"
  using assms kwWalk_nth [of 0 zText aOffset aLen "map fst keywordList"] kwWalk_tables
    kwPathsOk_nth [OF kwPathsOk_tables] length_keywordList
  by (auto simp: keyword_codes [symmetric])

lemma of_char_u8: "unat (of_char c :: u8) = of_char c"
proof -
  have "of_char c < (256 :: nat)" using nat_of_char_less_256 [of c] by simp
  moreover have "(of_char c :: u8) = word_of_nat (of_char c)" by (rule of_nat_of_char [symmetric])
  ultimately show ?thesis by (simp add: unat_of_nat take_bit_eq_mod)
qed

lemma charMap_of_char: "charMap (of_char c) = natLower (of_char c)"
  by (simp add: charMap_def UpperToLower_unat natLower_def of_char_u8)

definition upperChar :: "char \<Rightarrow> bool" where
  "upperChar c \<longleftrightarrow> 65 \<le> (of_char c :: nat) \<and> of_char c \<le> (90 :: nat) \<or> of_char c = (95 :: nat)"

lemma natLower_inj: "upperChar c \<Longrightarrow> upperChar d \<Longrightarrow> natLower (of_char c) = natLower (of_char d) \<Longrightarrow> c = d"
proof -
  assume a: "upperChar c" "upperChar d" "natLower (of_char c) = natLower (of_char d)"
  then have "(of_char c :: nat) = of_char d" by (auto simp: upperChar_def natLower_def split: if_splits)
  then show "c = d" by simp
qed

lemma lower_kwBytes: "map unat (lower (kwBytes s)) = map (\<lambda>c. natLower (of_char c)) s"
  using charMap_of_char by (simp add: lower_def kwBytes_def charMap_def)

lemma lower_kwBytes_inj:
  assumes "lower (kwBytes s) = lower (kwBytes t)" and "list_all upperChar s" and "list_all upperChar t"
  shows "s = t"
proof -
  have e: "map (\<lambda>c. natLower (of_char c)) s = map (\<lambda>c. natLower (of_char c)) t" using assms(1) lower_kwBytes by metis
  then have "inj_on (\<lambda>c. natLower (of_char c)) (set s \<union> set t) \<Longrightarrow> s = t" by (simp add: inj_on_map_eq_map)
  moreover have "inj_on (\<lambda>c. natLower (of_char c)) (set s \<union> set t)"
    using assms(2,3) by (intro inj_onI natLower_inj) (auto simp: list_all_iff)
  ultimately show ?thesis by blast
qed

lemma keyword_upper: "i < 124 \<Longrightarrow> list_all upperChar (fst (keywordList ! i))"
proof -
  assume i: "i < 124"
  have "list_all upperChar zText" using zText_upper unfolding upperChar_def .
  then have "list_all upperChar (take (aLen ! i) (drop (aOffset ! i) zText))"
    by (auto simp: list_all_iff dest: in_set_takeD in_set_dropD)
  then show ?thesis using keyword_at(1) [OF i] by simp
qed

text \<open>One comparison of the loop: it succeeds exactly on the keyword, up to case.\<close>

lemma keyword_match:
  assumes i: "i < 124" and n: "n \<le> length z" and z: "0 \<notin> set (take n z)"
  shows "aLen ! i = n \<and> sqlite3_strnicmp (drop (aOffset ! i) (map of_char zText)) z n = Some 0
    \<longleftrightarrow> lower (take n z) = lower (kwBytes (fst (keywordList ! i)))"
proof (cases "aLen ! i = n")
  case True
  let ?a = "drop (aOffset ! i) (map of_char zText) :: bytes"
  have ta: "take n ?a = kwBytes (fst (keywordList ! i))"
    using keyword_at(1) [OF i] True by (simp add: kwBytes_def take_map drop_map)
  have "n \<le> length (drop (aOffset ! i) zText)"
    using keyword_at(1,2) [OF i] True by (metis length_take min.absorb_iff1 min.commute nat_le_linear)
  then have la: "n \<le> length ?a" by simp
  have nz: "0 \<notin> set (take n ?a)"
  proof
    assume "0 \<in> set (take n ?a)"
    then obtain c where c: "c \<in> set (fst (keywordList ! i))" "(of_char c :: u8) = 0" unfolding ta kwBytes_def by auto
    then have "of_char c = (0 :: nat)" using of_char_u8 [of c] by simp
    then show False using keyword_upper [OF i] c(1) by (auto simp: list_all_iff upperChar_def)
  qed
  have cs: "cstr s = s" if "0 \<notin> set s" for s using that by (induction s) auto
  obtain r where r: "sqlite3_strnicmp ?a z n = Some r" "r = 0 \<longleftrightarrow> lower (take n ?a) = lower (take n z)"
    using sqlite3_strnicmp_take [OF la n] cs [OF nz] cs [OF z] by auto
  then show ?thesis using True ta by auto
next
  case False
  have "length (lower (take n z)) \<noteq> length (lower (kwBytes (fst (keywordList ! i))))"
    using False keyword_at(2) [OF i] n by (simp add: lower_def kwBytes_def)
  then show ?thesis using False by metis
qed

lemma keywordLoop_none:
  assumes "n \<le> length z" and "0 \<notin> set (take n z)"
    and "\<forall>i<124. lower (take n z) \<noteq> lower (kwBytes (fst (keywordList ! i)))"
  shows "keywordLoop z n k = TK_ID"
proof (induction k rule: less_induct)
  case (less k)
  show ?case
  proof (cases "k = 0 \<or> 124 < k")
    case False
    then have k: "k - 1 < 124" "aNext ! (k - 1) < k"
      using aNext_le by (auto simp: less_Suc_eq_le) (metis Suc_pred le_imp_less_Suc less_Suc_eq_le not_less)
    then have "\<not> (aLen ! (k - 1) = n \<and> sqlite3_strnicmp (drop (aOffset ! (k - 1)) (map of_char zText)) z n = Some 0)"
      using keyword_match [OF k(1) assms(1,2)] assms(3) by blast
    then show ?thesis using False less [OF k(2)] by (subst keywordLoop.simps) auto
  qed (subst keywordLoop.simps, auto)
qed

lemma keywordLoop_path:
  assumes z: "n \<le> length z" "0 \<notin> set (take n z)" and i: "i < 124" "lower (take n z) = lower (kwBytes (fst (keywordList ! i)))"
    and p: "kwPath aNext (map fst keywordList) i (fst (keywordList ! i)) ks" "ks \<noteq> []"
  shows "keywordLoop z n (hd ks) = snd (keywordList ! i)"
  using p
proof (induction ks rule: induct_list012)
  case (2 k)
  then have k: "k = Suc i" by simp
  then show ?case
    using i keyword_match [OF i(1) z] keyword_at(4) [OF i(1)] by (subst keywordLoop.simps) auto
next
  case (3 k k' ks)
  then have k: "0 < k" "k \<le> 124" "fst (keywordList ! (k - 1)) \<noteq> fst (keywordList ! i)" "aNext ! (k - 1) = k'"
    using length_keywordList by auto
  have k1: "k - 1 < 124" using k by simp
  have "lower (take n z) \<noteq> lower (kwBytes (fst (keywordList ! (k - 1))))"
    using lower_kwBytes_inj [OF _ keyword_upper [OF k1] keyword_upper [OF i(1)]] k(3) i(2) by metis
  then have "\<not> (aLen ! (k - 1) = n \<and> sqlite3_strnicmp (drop (aOffset ! (k - 1)) (map of_char zText)) z n = Some 0)"
    using keyword_match [OF k1 z] by blast
  then show ?case using k 3 by (subst keywordLoop.simps) auto
qed simp

lemma keywordCode_keyword:
  assumes z: "n \<le> length z" "0 \<notin> set (take n z)" and i: "i < 124" "lower (take n z) = lower (kwBytes (fst (keywordList ! i)))"
  shows "keywordCode z n = snd (keywordList ! i)"
proof -
  let ?s = "fst (keywordList ! i)"
  have len: "n = length ?s" "2 \<le> n"
    using arg_cong [OF i(2), of length] keyword_at(2,3) [OF i(1)] z(1) by (simp_all add: lower_def kwBytes_def)
  then have ne: "?s \<noteq> []" by auto
  have map: "map charMap (take n z) = map (\<lambda>c. natLower (of_char c)) ?s"
  proof -
    have "map charMap (take n z) = map unat (lower (take n z))" by (simp add: lower_def charMap_def)
    then show ?thesis using i(2) lower_kwBytes [of ?s] by simp
  qed
  have at: "charMap (z ! j) = natLower (of_char (?s ! j))" if "j < n" for j
    using arg_cong [OF map, of "\<lambda>xs. xs ! j"] that z(1) len(1) by simp
  have "keywordHash z n = kwHash ?s n"
    using at [of 0] at [of "n - 1"] len ne by (simp add: keywordHash_def kwHash_def hd_conv_nth last_conv_nth)
  moreover have "n = aLen ! i" using len(1) keyword_at(2) [OF i(1)] by simp
  ultimately have h: "aHash ! keywordHash z n = hd (kwPaths ! i)" using keyword_at(5) [OF i(1)] by simp
  have p: "kwPaths ! i \<noteq> []" using keyword_at(6) [OF i(1)] by auto
  show ?thesis
    using keywordLoop_path [OF z i keyword_at(6) [OF i(1)] p] len(2) h by (simp add: keywordCode_def)
qed

text \<open>C25. The generated keyword search is a lookup in the list of keywords: text that is a keyword up to
  case gets the code of that keyword, and every other text is an identifier.\<close>

theorem keywordCode_correct:
  assumes "n \<le> length z" and "0 \<notin> set (take n z)"
  shows "(\<forall>(s, c) \<in> set keywordList. lower (take n z) = lower (kwBytes s) \<longrightarrow> keywordCode z n = c)
    \<and> ((\<forall>(s, c) \<in> set keywordList. lower (take n z) \<noteq> lower (kwBytes s)) \<longrightarrow> keywordCode z n = TK_ID)"
proof (intro conjI impI ballI, clarify)
  fix s c
  assume "(s, c) \<in> set keywordList" and l: "lower (take n z) = lower (kwBytes s)"
  then obtain i where "i < 124" "keywordList ! i = (s, c)" using length_keywordList by (auto simp: in_set_conv_nth)
  then show "keywordCode z n = c" using keywordCode_keyword [OF assms, of i] l by simp
next
  assume none: "\<forall>(s, c) \<in> set keywordList. lower (take n z) \<noteq> lower (kwBytes s)"
  have "lower (take n z) \<noteq> lower (kwBytes (fst (keywordList ! i)))" if "i < 124" for i
    using none nth_mem [of i keywordList] that length_keywordList by (auto simp: case_prod_unfold)
  then show "keywordCode z n = TK_ID" using keywordLoop_none [OF assms] by (simp add: keywordCode_def)
qed

theorem keywordCode_correct_witness: "keywordCode (kwBytes ''seLect x'') 6 = TK_SELECT"
proof -
  have "\<forall>(s, c) \<in> set keywordList. lower (take 6 (kwBytes ''seLect x'')) = lower (kwBytes s) \<longrightarrow> keywordCode (kwBytes ''seLect x'') 6 = c"
    using keywordCode_correct [of 6 "kwBytes ''seLect x''"] by (simp add: kwBytes_def)
  moreover have "(''SELECT'', TK_SELECT) \<in> set keywordList" by (simp add: keywordList_def)
  moreover have "lower (take 6 (kwBytes ''seLect x'')) = lower (kwBytes ''SELECT'')"
    by (rule map_injective [where f = unat]) (simp_all add: lower_def kwBytes_def UpperToLower_unat inj_def word_unat_eq_iff)
  ultimately show ?thesis by fastforce
qed

end
