(* ===== verification/Tokenize.thy ===== *)
theory Tokenize
  imports Keywords
begin

text \<open>
  The SQL tokenizer of \<^verbatim>\<open>tokenize.c\<close>, \<^verbatim>\<open>sqlite3GetToken\<close>, with one definition for each group of cases of
  its switch, and the loop of \<^verbatim>\<open>sqlite3RunParser\<close> that feeds the tokens to the generated parser. Text is
  the list of the bytes before the terminating zero. The parser itself is generated code and a parameter.
\<close>

section \<open>Scanning\<close>

text \<open>\<open>ch z i\<close> is the byte \<^verbatim>\<open>z[i]\<close>; at the end of the text it is the terminator.\<close>

definition ch :: "bytes \<Rightarrow> nat \<Rightarrow> u8" where
  "ch z i = (if i < length z then z ! i else 0)"

definition IdChar :: "u8 \<Rightarrow> bool" where
  "IdChar c \<longleftrightarrow> ctype c AND 0x46 \<noteq> 0"

text \<open>A loop \<^verbatim>\<open>for(; P(z[i]); i++){}\<close> for a condition that is false for the terminator.\<close>

function scanWhile :: "(u8 \<Rightarrow> bool) \<Rightarrow> bytes \<Rightarrow> nat \<Rightarrow> nat" where
  "scanWhile P z i = (if i < length z \<and> P (z ! i) then scanWhile P z (i + 1) else i)"
  by pat_completeness auto
termination by (relation "measure (\<lambda>(P, z, i). length z - i)") auto

declare scanWhile.simps [simp del]

lemma ch_nonzero: "ch z i \<noteq> 0 \<Longrightarrow> i < length z"
  by (simp add: ch_def split: if_splits)

lemma ch_measure:
  "ch z i \<noteq> 0 \<Longrightarrow> length z - Suc i < length z - i"
  "ch z (Suc i) \<noteq> 0 \<Longrightarrow> length z - Suc (Suc i) < length z - i"
  using ch_nonzero [of z i] ch_nonzero [of z "Suc i"] by simp_all

text \<open>The end of a C comment: the position and the last character looked at.\<close>

function commentEnd :: "bytes \<Rightarrow> nat \<Rightarrow> u8 \<Rightarrow> nat \<times> u8" where
  "commentEnd z i c =
     (if c = 0x2A \<and> ch z i = 0x2F then (i, c)
      else if ch z i = 0 then (i, 0)
      else commentEnd z (i + 1) (ch z i))"
  by pat_completeness auto
termination
  by (relation "measure (\<lambda>(z, i, c). length z - i)") (auto dest: ch_nonzero)

text \<open>The end of a quoted string or name; a doubled delimiter belongs to it.\<close>

function quoteEnd :: "bytes \<Rightarrow> u8 \<Rightarrow> nat \<Rightarrow> nat \<times> u8" where
  "quoteEnd z delim i =
     (if ch z i = 0 then (i, 0)
      else if ch z i = delim then
        (if ch z (i + 1) = delim then quoteEnd z delim (i + 2) else (i, delim))
      else quoteEnd z delim (i + 1))"
  by pat_completeness auto
termination
  by (relation "measure (\<lambda>(z, d, i). length z - i)") (auto dest: ch_nonzero)

function bracketEnd :: "bytes \<Rightarrow> nat \<Rightarrow> u8 \<Rightarrow> nat \<times> u8" where
  "bracketEnd z i c =
     (if c = 0x5D then (i, c)
      else if ch z i = 0 then (i, 0)
      else bracketEnd z (i + 1) (ch z i))"
  by pat_completeness auto
termination
  by (relation "measure (\<lambda>(z, i, c). length z - i)") (auto dest: ch_nonzero)

text \<open>The characters of a variable name after the first: the token type so far, the position, and the
  count \<open>n\<close> of characters that can be in a name.\<close>

function varEnd :: "bytes \<Rightarrow> nat \<Rightarrow> nat \<Rightarrow> nat \<times> nat \<times> nat" where
  "varEnd z i n =
     (if ch z i = 0 then (TK_VARIABLE, i, n)
      else if IdChar (ch z i) then varEnd z (i + 1) (n + 1)
      else if ch z i = 0x28 \<and> 0 < n then
        (let j = scanWhile (\<lambda>c. c \<noteq> 0 \<and> \<not> sqlite3Isspace c \<and> c \<noteq> 0x29) z (i + 1)
         in if ch z j = 0x29 then (TK_VARIABLE, j + 1, n) else (TK_ILLEGAL, j, n))
      else if ch z i = 0x3A \<and> ch z (i + 1) = 0x3A then varEnd z (i + 2) n
      else (TK_VARIABLE, i, n))"
  by pat_completeness auto
termination
  by (relation "measure (\<lambda>(z, i, n). length z - i)") (auto intro: ch_measure)

declare commentEnd.simps [simp del] quoteEnd.simps [simp del] bracketEnd.simps [simp del] varEnd.simps [simp del]

section \<open>The cases of the switch\<close>

definition tokSpace :: "bytes \<Rightarrow> nat \<times> nat" where
  "tokSpace z = (TK_SPACE, scanWhile sqlite3Isspace z 1)"

definition tokMinus :: "bytes \<Rightarrow> nat \<times> nat" where
  "tokMinus z = (if ch z 1 = 0x2D then (TK_SPACE, scanWhile (\<lambda>c. c \<noteq> 0 \<and> c \<noteq> 0x0A) z 2) else (TK_MINUS, 1))"

definition tokSlash :: "bytes \<Rightarrow> nat \<times> nat" where
  "tokSlash z =
     (if ch z 1 \<noteq> 0x2A \<or> ch z 2 = 0 then (TK_SLASH, 1)
      else case commentEnd z 3 (ch z 2) of (i, c) \<Rightarrow> (TK_SPACE, if c \<noteq> 0 then i + 1 else i))"

definition tokLess :: "bytes \<Rightarrow> nat \<times> nat" where
  "tokLess z =
     (if ch z 1 = 0x3D then (TK_LE, 2) else if ch z 1 = 0x3E then (TK_NE, 2)
      else if ch z 1 = 0x3C then (TK_LSHIFT, 2) else (TK_LT, 1))"

definition tokGreater :: "bytes \<Rightarrow> nat \<times> nat" where
  "tokGreater z =
     (if ch z 1 = 0x3D then (TK_GE, 2) else if ch z 1 = 0x3E then (TK_RSHIFT, 2) else (TK_GT, 1))"

definition tokBang :: "bytes \<Rightarrow> nat \<times> nat" where
  "tokBang z = (if ch z 1 \<noteq> 0x3D then (TK_ILLEGAL, 2) else (TK_NE, 2))"

definition tokBar :: "bytes \<Rightarrow> nat \<times> nat" where
  "tokBar z = (if ch z 1 \<noteq> 0x7C then (TK_BITOR, 1) else (TK_CONCAT, 2))"

definition tokQuote :: "bytes \<Rightarrow> nat \<times> nat" where
  "tokQuote z =
     (case quoteEnd z (ch z 0) 1 of (i, c) \<Rightarrow>
        if c = 0x27 then (TK_STRING, i + 1) else if c \<noteq> 0 then (TK_ID, i + 1) else (TK_ILLEGAL, i))"

text \<open>A number: the digits, the fraction, the exponent, and the name characters that make it illegal.\<close>

definition numFraction :: "bytes \<Rightarrow> nat \<Rightarrow> nat \<times> nat" where
  "numFraction z i =
     (if ch z i = 0x2E then (TK_FLOAT, scanWhile sqlite3Isdigit z (i + 1)) else (TK_INTEGER, i))"

definition numExponent :: "bytes \<Rightarrow> nat \<times> nat \<Rightarrow> nat \<times> nat" where
  "numExponent z = (\<lambda>(t, i).
     if (ch z i = 0x65 \<or> ch z i = 0x45) \<and>
        (sqlite3Isdigit (ch z (i + 1))
         \<or> (ch z (i + 1) = 0x2B \<or> ch z (i + 1) = 0x2D) \<and> sqlite3Isdigit (ch z (i + 2)))
     then (TK_FLOAT, scanWhile sqlite3Isdigit z (i + 2)) else (t, i))"

definition tokNumber :: "bytes \<Rightarrow> nat \<times> nat" where
  "tokNumber z =
     (case numExponent z (numFraction z (scanWhile sqlite3Isdigit z 0)) of (t, i) \<Rightarrow>
        let j = scanWhile IdChar z i in (if i < j then TK_ILLEGAL else t, j))"

definition tokBracket :: "bytes \<Rightarrow> nat \<times> nat" where
  "tokBracket z = (case bracketEnd z 1 (ch z 0) of (i, c) \<Rightarrow> (if c = 0x5D then TK_ID else TK_ILLEGAL, i))"

definition tokParam :: "bytes \<Rightarrow> nat \<times> nat" where
  "tokParam z = (TK_VARIABLE, scanWhile sqlite3Isdigit z 1)"

definition tokVariable :: "bytes \<Rightarrow> nat \<times> nat" where
  "tokVariable z = (case varEnd z 1 0 of (t, i, n) \<Rightarrow> (if n = 0 then TK_ILLEGAL else t, i))"

definition tokBlob :: "bytes \<Rightarrow> nat \<times> nat" where
  "tokBlob z =
     (let i = scanWhile sqlite3Isxdigit z 2;
          (t, i) = (if ch z i \<noteq> 0x27 \<or> odd i then (TK_ILLEGAL, scanWhile (\<lambda>c. c \<noteq> 0 \<and> c \<noteq> 0x27) z i)
                    else (TK_BLOB, i))
      in (t, if ch z i \<noteq> 0 then i + 1 else i))"

definition tokWord :: "bytes \<Rightarrow> nat \<times> nat" where
  "tokWord z =
     (if \<not> IdChar (ch z 0) then (TK_ILLEGAL, 1)
      else let i = scanWhile IdChar z 1 in (keywordCode z i, i))"

text \<open>The tokens of a single character.\<close>

definition tokSingle :: "u8 \<Rightarrow> nat option" where
  "tokSingle c =
     (if c = 0x28 then Some TK_LP else if c = 0x29 then Some TK_RP else if c = 0x3B then Some TK_SEMI
      else if c = 0x2B then Some TK_PLUS else if c = 0x2A then Some TK_STAR else if c = 0x25 then Some TK_REM
      else if c = 0x2C then Some TK_COMMA else if c = 0x26 then Some TK_BITAND
      else if c = 0x7E then Some TK_BITNOT else None)"

text \<open>The type and the length of the token at the start of the text.\<close>

definition sqlite3GetToken :: "bytes \<Rightarrow> nat \<times> nat" where
  "sqlite3GetToken z =
     (let c = ch z 0 in
      case tokSingle c of Some t \<Rightarrow> (t, 1)
      | None \<Rightarrow>
        if c \<in> {0x20, 0x09, 0x0A, 0x0C, 0x0D} then tokSpace z
        else if c = 0x2D then tokMinus z
        else if c = 0x2F then tokSlash z
        else if c = 0x3D then (TK_EQ, if ch z 1 = 0x3D then 2 else 1)
        else if c = 0x3C then tokLess z
        else if c = 0x3E then tokGreater z
        else if c = 0x21 then tokBang z
        else if c = 0x7C then tokBar z
        else if c \<in> {0x60, 0x27, 0x22} then tokQuote z
        else if c = 0x2E \<and> \<not> sqlite3Isdigit (ch z 1) then (TK_DOT, 1)
        else if c = 0x2E \<or> 0x30 \<le> c \<and> c \<le> 0x39 then tokNumber z
        else if c = 0x5B then tokBracket z
        else if c = 0x3F then tokParam z
        else if c \<in> {0x24, 0x40, 0x23, 0x3A} then tokVariable z
        else if (c = 0x78 \<or> c = 0x58) \<and> ch z 1 = 0x27 then tokBlob z
        else tokWord z)"

section \<open>Every token makes progress and stays inside the text\<close>

lemma scanWhile_ge: "i \<le> scanWhile P z i"
proof (induction P z i rule: scanWhile.induct)
  case (1 P z i)
  then show ?case by (subst scanWhile.simps) auto
qed

lemma scanWhile_le [simp]: "i \<le> length z \<Longrightarrow> scanWhile P z i \<le> length z"
proof (induction P z i rule: scanWhile.induct)
  case (1 P z i)
  then show ?case by (subst scanWhile.simps) auto
qed

lemma commentEnd_bounds:
  "commentEnd z i c = (j, d) \<Longrightarrow> i \<le> length z \<Longrightarrow> i \<le> j \<and> j \<le> length z \<and> (d \<noteq> 0 \<longrightarrow> j < length z)"
proof (induction z i c rule: commentEnd.induct)
  case (1 z i c)
  have "ch z i \<noteq> 0 \<Longrightarrow> i < length z" by (rule ch_nonzero)
  then show ?case using 1 unfolding commentEnd.simps [of z i c] by (force split: if_splits)
qed

lemma quoteEnd_bounds:
  "quoteEnd z c i = (j, d) \<Longrightarrow> i \<le> length z \<Longrightarrow> i \<le> j \<and> j \<le> length z \<and> (d \<noteq> 0 \<longrightarrow> j < length z)"
proof (induction z c i rule: quoteEnd.induct)
  case (1 z c i)
  have "ch z i \<noteq> 0 \<Longrightarrow> i < length z" "ch z (i + 1) \<noteq> 0 \<Longrightarrow> i + 1 < length z" by (rule ch_nonzero, simp)+
  then show ?case using 1 unfolding quoteEnd.simps [of z c i] by (force split: if_splits)
qed

lemma bracketEnd_bounds:
  "bracketEnd z i c = (j, d) \<Longrightarrow> i \<le> length z \<Longrightarrow> i \<le> j \<and> j \<le> length z"
proof (induction z i c rule: bracketEnd.induct)
  case (1 z i c)
  have "ch z i \<noteq> 0 \<Longrightarrow> i < length z" by (rule ch_nonzero)
  then show ?case using 1 unfolding bracketEnd.simps [of z i c] by (force split: if_splits)
qed

lemma varEnd_bounds:
  "varEnd z i n = (t, j, m) \<Longrightarrow> i \<le> length z \<Longrightarrow> i \<le> j \<and> j \<le> length z"
proof (induction z i n rule: varEnd.induct)
  case (1 z i n)
  define k where "k = scanWhile (\<lambda>c. c \<noteq> 0 \<and> \<not> sqlite3Isspace c \<and> c \<noteq> 0x29) z (i + 1)"
  have i: "ch z i \<noteq> 0 \<Longrightarrow> i < length z" "ch z (i + 1) \<noteq> 0 \<Longrightarrow> i + 1 < length z" by (rule ch_nonzero, simp)+
  have "i + 1 \<le> k" unfolding k_def by (rule scanWhile_ge)
  moreover have "ch z i \<noteq> 0 \<Longrightarrow> k \<le> length z" unfolding k_def using i by (intro scanWhile_le) simp
  moreover have "ch z k = 0x29 \<Longrightarrow> k < length z" by (rule ch_nonzero) simp
  ultimately show ?case using 1 i unfolding varEnd.simps [of z i n] k_def [symmetric] Let_def by (force split: if_splits)
qed

lemmas token_ends = commentEnd_bounds quoteEnd_bounds bracketEnd_bounds varEnd_bounds

lemma numFraction_bounds:
  "i \<le> length z \<Longrightarrow> i \<le> snd (numFraction z i) \<and> snd (numFraction z i) \<le> length z
     \<and> (ch z i = 0x2E \<longrightarrow> 1 \<le> snd (numFraction z i))"
  using scanWhile_ge [of "i + 1" sqlite3Isdigit z] ch_nonzero [of z i] by (auto simp: numFraction_def)

lemma numExponent_bounds:
  "i \<le> length z \<Longrightarrow> i \<le> snd (numExponent z (t, i)) \<and> snd (numExponent z (t, i)) \<le> length z"
proof -
  have "ch z (i + 1) \<noteq> 0 \<Longrightarrow> i + 2 \<le> length z" using ch_nonzero [of z "i + 1"] by simp
  moreover have "sqlite3Isdigit (ch z (i + 1)) \<Longrightarrow> ch z (i + 1) \<noteq> 0" by (auto simp: ctype_class)
  ultimately show "i \<le> length z \<Longrightarrow> ?thesis"
    using scanWhile_ge [of "i + 2" sqlite3Isdigit z] by (auto simp: numExponent_def)
qed

lemma tokNumber_bounds:
  assumes "z \<noteq> []" and "ch z 0 = 0x2E \<or> sqlite3Isdigit (ch z 0)"
  shows "1 \<le> snd (tokNumber z) \<and> snd (tokNumber z) \<le> length z"
proof -
  define i where "i = scanWhile sqlite3Isdigit z 0"
  obtain t1 i1 where 1: "numFraction z i = (t1, i1)" by fastforce
  obtain t2 i2 where 2: "numExponent z (t1, i1) = (t2, i2)" by fastforce
  have res: "snd (tokNumber z) = scanWhile IdChar z i2" by (simp add: tokNumber_def i_def [symmetric] 1 2 Let_def)
  have i: "i \<le> length z" "i \<le> i1" "i1 \<le> length z" "ch z i = 0x2E \<Longrightarrow> 1 \<le> i1"
    using numFraction_bounds [of i z] 1 by (simp_all add: i_def)
  then have i2: "i1 \<le> i2" "i2 \<le> length z" using numExponent_bounds [of i1 z t1] 2 by simp_all
  have "1 \<le> i1"
  proof (cases "sqlite3Isdigit (ch z 0)")
    case True
    then have "i = scanWhile sqlite3Isdigit z 1"
      using assms(1) by (subst i_def, subst scanWhile.simps) (simp add: ch_def)
    then show ?thesis using scanWhile_ge [of 1 sqlite3Isdigit z] i(2) by simp
  next
    case False
    then have "i = 0" by (subst i_def, subst scanWhile.simps) (simp add: ch_def split: if_splits)
    then show ?thesis using i(4) False assms(2) by simp
  qed
  then show ?thesis unfolding res using i2 scanWhile_ge [of i2 IdChar z] by (auto intro: order_trans)
qed

lemma tokBlob_bounds:
  assumes "ch z 1 = 0x27"
  shows "1 \<le> snd (tokBlob z) \<and> snd (tokBlob z) \<le> length z"
proof -
  define i where "i = scanWhile sqlite3Isxdigit z 2"
  define j where "j = (if ch z i \<noteq> 0x27 \<or> odd i then scanWhile (\<lambda>c. c \<noteq> 0 \<and> c \<noteq> 0x27) z i else i)"
  have res: "snd (tokBlob z) = (if ch z j \<noteq> 0 then j + 1 else j)"
    by (simp add: tokBlob_def Let_def i_def [symmetric] j_def case_prod_unfold)
  have "2 \<le> length z" using ch_nonzero [of z 1] assms by simp
  then have "i \<le> length z" "2 \<le> i" using scanWhile_ge [of 2 sqlite3Isxdigit z] by (simp_all add: i_def)
  then have "j \<le> length z" "2 \<le> j"
    using scanWhile_ge [of i "\<lambda>c. c \<noteq> 0 \<and> c \<noteq> 0x27" z] by (simp_all add: j_def)
  then show ?thesis using ch_nonzero [of z j] by (auto simp: res Suc_le_eq)
qed

text \<open>The remaining cases, for a text that is not empty.\<close>

lemma tok_bounds:
  assumes "z \<noteq> []"
  shows "1 \<le> snd (tokSpace z) \<and> snd (tokSpace z) \<le> length z"
    and "1 \<le> snd (tokMinus z) \<and> snd (tokMinus z) \<le> length z"
    and "1 \<le> snd (tokSlash z) \<and> snd (tokSlash z) \<le> length z"
    and "1 \<le> snd (tokLess z) \<and> snd (tokLess z) \<le> length z"
    and "1 \<le> snd (tokGreater z) \<and> snd (tokGreater z) \<le> length z"
    and "1 \<le> snd (tokBar z) \<and> snd (tokBar z) \<le> length z"
    and "1 \<le> snd (tokQuote z) \<and> snd (tokQuote z) \<le> length z"
    and "1 \<le> snd (tokBracket z) \<and> snd (tokBracket z) \<le> length z"
    and "1 \<le> snd (tokParam z) \<and> snd (tokParam z) \<le> length z"
    and "1 \<le> snd (tokVariable z) \<and> snd (tokVariable z) \<le> length z"
    and "1 \<le> snd (tokWord z) \<and> snd (tokWord z) \<le> length z"
proof -
  have 1: "1 \<le> length z" using assms by (cases z) auto
  have c1: "ch z 1 \<noteq> 0 \<Longrightarrow> 2 \<le> length z" using ch_nonzero [of z 1] by simp
  have c2: "ch z 2 \<noteq> 0 \<Longrightarrow> 3 \<le> length z" using ch_nonzero [of z 2] by simp
  note scan = scanWhile_ge [of 1 _ z] scanWhile_ge [of 2 "\<lambda>c. c \<noteq> 0 \<and> c \<noteq> 0x0A" z]
  show "1 \<le> snd (tokSpace z) \<and> snd (tokSpace z) \<le> length z" "1 \<le> snd (tokParam z) \<and> snd (tokParam z) \<le> length z"
    "1 \<le> snd (tokWord z) \<and> snd (tokWord z) \<le> length z"
    using scan(1) 1 by (simp_all add: tokSpace_def tokParam_def tokWord_def Let_def)
  show "1 \<le> snd (tokMinus z) \<and> snd (tokMinus z) \<le> length z" using scan(2) 1 c1 by (simp add: tokMinus_def)
  show "1 \<le> snd (tokSlash z) \<and> snd (tokSlash z) \<le> length z"
    using commentEnd_bounds [of z 3 "ch z 2"] 1 c2 by (cases "commentEnd z 3 (ch z 2)") (auto simp: tokSlash_def)
  show "1 \<le> snd (tokLess z) \<and> snd (tokLess z) \<le> length z" "1 \<le> snd (tokGreater z) \<and> snd (tokGreater z) \<le> length z"
    "1 \<le> snd (tokBar z) \<and> snd (tokBar z) \<le> length z"
    using 1 c1 by (auto simp: tokLess_def tokGreater_def tokBar_def)
  show "1 \<le> snd (tokQuote z) \<and> snd (tokQuote z) \<le> length z"
    using quoteEnd_bounds [of z "ch z 0" 1] 1 by (cases "quoteEnd z (ch z 0) 1") (auto simp: tokQuote_def)
  show "1 \<le> snd (tokBracket z) \<and> snd (tokBracket z) \<le> length z"
    using bracketEnd_bounds [of z 1 "ch z 0"] 1 by (cases "bracketEnd z 1 (ch z 0)") (auto simp: tokBracket_def)
  show "1 \<le> snd (tokVariable z) \<and> snd (tokVariable z) \<le> length z"
    using varEnd_bounds [of z 1 0] 1 by (cases "varEnd z 1 0") (auto simp: tokVariable_def)
qed

definition fits :: "bytes \<Rightarrow> nat \<times> nat \<Rightarrow> bool" where
  "fits z r \<longleftrightarrow> 1 \<le> snd r \<and> snd r \<le> length z"

lemma fits_if: "(c \<Longrightarrow> fits z r) \<Longrightarrow> (\<not> c \<Longrightarrow> fits z s) \<Longrightarrow> fits z (if c then r else s)"
  by simp

lemmas fits_cases = tok_bounds [folded fits_def] tokBlob_bounds [folded fits_def] tokNumber_bounds [folded fits_def]

lemma sqlite3GetToken_fits:
  assumes "z \<noteq> []" and "ch z 0 \<noteq> 0x21"
  shows "fits z (sqlite3GetToken z)"
proof -
  have "ch z 1 = 0x3D \<Longrightarrow> 1 < length z" by (rule ch_nonzero) simp
  then have f: "fits z (t, 1)" "fits z (t, if ch z 1 = 0x3D then 2 else 1)" for t
    using assms(1) by (auto simp: fits_def Suc_le_eq numeral_2_eq_2)
  have d: "sqlite3Isdigit (ch z 0)" if "0x30 \<le> ch z 0" "ch z 0 \<le> 0x39"
    using that by (simp add: ctype_class word_le_nat_alt)
  have n: "fits z (tokNumber z)" if "ch z 0 = 0x2E \<or> 0x30 \<le> ch z 0 \<and> ch z 0 \<le> 0x39"
    using fits_cases(13) [OF assms(1)] d that by blast
  show ?thesis
  proof (cases "tokSingle (ch z 0)")
    case None
    show ?thesis unfolding sqlite3GetToken_def Let_def None option.case
      by (intro fits_if f n fits_cases assms(1); use assms(2) in blast)
  qed (use f in \<open>simp add: sqlite3GetToken_def\<close>)
qed

lemma sqlite3GetToken_length:
  assumes "z \<noteq> []"
  shows "1 \<le> snd (sqlite3GetToken z) \<and> (snd (sqlite3GetToken z) \<le> length z \<or> z = [0x21])"
proof (cases "ch z 0 = 0x21")
  case True
  then have "sqlite3GetToken z = tokBang z" by (simp add: sqlite3GetToken_def tokSingle_def)
  moreover have "length z = 1 \<Longrightarrow> z = [0x21]" using True by (cases z) (auto simp: ch_def)
  moreover have "length z = 1 \<or> 2 \<le> length z" using assms by (cases z; cases "tl z") auto
  ultimately show ?thesis by (auto simp: tokBang_def)
qed (use sqlite3GetToken_fits [OF assms] in \<open>simp add: fits_def\<close>)

lemma sqlite3GetToken_bang: "sqlite3GetToken [0x21] = (TK_ILLEGAL, 2)"
  by (simp add: sqlite3GetToken_def tokSingle_def ch_def tokBang_def)

section \<open>Quoted text\<close>

lemma ch_drop: "drop i z = c # r \<Longrightarrow> ch z i = c"
  by (auto simp: ch_def dest: drop_eq_ConsD)

lemma ch_drop_Nil: "drop i z = [] \<Longrightarrow> ch z i = 0"
  by (simp add: ch_def)

lemma quoteEnd_quoted:
  assumes "drop i z = quoteBody q s @ q # r" and "ch r 0 \<noteq> q" and "0 \<notin> set s" and "q \<noteq> 0"
  shows "quoteEnd z q i = (i + length (quoteBody q s), q)"
  using assms
proof (induction s arbitrary: i)
  case Nil
  then have c: "ch z i = q" and r: "drop (i + 1) z = r" using drop_eq_ConsD [of i z q r] by (simp_all add: ch_drop)
  have "ch z (i + 1) \<noteq> q"
    using Nil.prems(2,4) r ch_drop_Nil [of "i + 1" z] ch_drop [of "i + 1" z "hd r" "tl r"] by (cases r) (auto simp: ch_def)
  then show ?case using c Nil.prems(4) by (subst quoteEnd.simps) simp
next
  case (Cons c s)
  show ?case
  proof (cases "c = q")
    case True
    then have d: "drop i z = q # q # quoteBody q s @ q # r" using Cons.prems(1) by simp
    have 1: "drop (i + 1) z = q # quoteBody q s @ q # r" using drop_eq_ConsD [OF d] by simp
    have 2: "drop (i + 2) z = quoteBody q s @ q # r" using drop_eq_ConsD [OF 1] by (simp add: numeral_2_eq_2)
    show ?thesis
      using Cons.IH [OF 2] Cons.prems(2-4) ch_drop [OF d] ch_drop [OF 1] True by (subst quoteEnd.simps) simp
  next
    case False
    then have d: "drop i z = c # quoteBody q s @ q # r" using Cons.prems(1) by simp
    have "drop (i + 1) z = quoteBody q s @ q # r" using drop_eq_ConsD [OF d] by simp
    then show ?thesis
      using Cons.IH [of "i + 1"] Cons.prems(2-4) ch_drop [OF d] False by (subst quoteEnd.simps) auto
  qed
qed

lemma sqlite3GetToken_quoted:
  assumes "q \<in> {0x27, 0x22, 0x60}" and "0 \<notin> set s" and "ch r 0 \<noteq> q"
  shows "sqlite3GetToken (q # quoteBody q s @ q # r)
    = (if q = 0x27 then TK_STRING else TK_ID, length (quoteBody q s) + 2)"
proof -
  define z where "z = q # quoteBody q s @ q # r"
  have e: "quoteEnd z q 1 = (1 + length (quoteBody q s), q)" unfolding z_def using assms by (intro quoteEnd_quoted) auto
  have 0: "ch z 0 = q" by (simp add: ch_def z_def)
  have "sqlite3GetToken z = tokQuote z"
    using assms(1) unfolding sqlite3GetToken_def tokSingle_def 0 Let_def by (elim insertE emptyE) simp_all
  also have "\<dots> = (if q = 0x27 then TK_STRING else TK_ID, length (quoteBody q s) + 2)"
    using assms(1) unfolding tokQuote_def 0 e by auto
  finally show ?thesis by (simp add: z_def)
qed

section \<open>Properties\<close>

text \<open>C27. The tokenizer always makes progress and never leaves the text: on every text that is not
  empty the token has at least one byte, and it ends inside the text, except that the text consisting of
  a lone exclamation mark gets a token of two bytes.\<close>

theorem sqlite3GetToken_progress:
  assumes "z \<noteq> []"
  shows "1 \<le> snd (sqlite3GetToken z) \<and> (snd (sqlite3GetToken z) \<le> length z \<longleftrightarrow> z \<noteq> [0x21])"
  using sqlite3GetToken_length [OF assms] sqlite3GetToken_bang by auto

theorem sqlite3GetToken_progress_witness:
  "1 \<le> snd (sqlite3GetToken [0x2F, 0x2A, 0x41]) \<and> snd (sqlite3GetToken [0x2F, 0x2A, 0x41]) \<le> 3"
  using sqlite3GetToken_progress [of "[0x2F, 0x2A, 0x41]"] by simp

text \<open>Quoted text is one token whatever it contains: a string without zero bytes, with the quote
  doubled inside and quotes around it, is read as one string literal (or one identifier, for the double
  quote and the grave accent) that ends exactly at the closing quote, and dequoting the token gives the
  string back.\<close>

theorem sqlite3GetToken_quoted_text:
  assumes "q \<in> {0x27, 0x22, 0x60}" and "0 \<notin> set s" and "ch r 0 \<noteq> q"
  shows "\<exists>n z. sqlite3GetToken (q # quoteBody q s @ q # r) = (if q = 0x27 then TK_STRING else TK_ID, n)
    \<and> sqlite3Dequote (Some (take n (q # quoteBody q s @ q # r) @ [0])) = Some (Some z, int (length s)) \<and> cstr z = s"
proof -
  have "\<exists>rest. dequoteLoop (q # quoteBody q s @ [q, 0]) q 1 0 = Some (s @ 0 # rest, length s)"
    using dequoteLoop_quoted [of 1 "q # quoteBody q s @ [q, 0]" q s 0 "[]" 0] assms(1) by auto
  then have "\<exists>z. sqlite3Dequote (Some (q # quoteBody q s @ [q, 0])) = Some (Some z, int (length s)) \<and> cstr z = s"
    using assms(1,2) by (auto simp: sqlite3Dequote_def)
  moreover have "take (length (quoteBody q s) + 2) (q # quoteBody q s @ q # r) = q # quoteBody q s @ [q]" by simp
  ultimately show ?thesis using sqlite3GetToken_quoted [OF assms] by fastforce
qed

theorem sqlite3GetToken_quoted_text_witness:
  "\<exists>n z. sqlite3GetToken [0x27, 0x61, 0x27, 0x27, 0x3B, 0x27, 0x3B] = (TK_STRING, n)
    \<and> sqlite3Dequote (Some (take n [0x27, 0x61, 0x27, 0x27, 0x3B, 0x27, 0x3B] @ [0])) = Some (Some z, 3)
    \<and> cstr z = [0x61, 0x27, 0x3B]"
  using sqlite3GetToken_quoted_text [of "0x27" "[0x61, 0x27, 0x3B]" "[0x3B]"] by (simp add: ch_def)

end
