(* ===== verification/Run_Parser.thy ===== *)
theory Run_Parser
  imports Tokenize
begin

text \<open>
  The loop of \<^verbatim>\<open>sqlite3RunParser\<close> in \<^verbatim>\<open>tokenize.c\<close>: it cuts a statement into tokens and feeds them to
  the parser. The parser is generated from a grammar and is a parameter \<open>feed\<close> that maps a token type and
  the parsing context to the new context. The flag \<^verbatim>\<open>isInterrupted\<close> can be set by another thread at any
  time, so its value when the token that ends at \<open>i\<close> has been read is the parameter \<open>intr i\<close>. Reads of the
  text go through \<open>rd\<close>, so a read behind the terminating zero makes the whole run \<open>None\<close>. Each error message
  that is put together consumes one outcome of the script \<open>fs\<close>: it may fail for lack of memory or because the
  message is longer than the limit on strings.
\<close>

section \<open>The parsing context\<close>

datatype errmsg = MsgInterrupt | MsgToken nat nat | MsgCode rcode | MsgParser string

text \<open>The fields of \<^verbatim>\<open>Parse\<close> that the loop uses; \<open>engine\<close> is everything else that the parser keeps.
  Pointers into the statement are offsets, \<open>sLastToken\<close> is an offset and a length.\<close>

record 'e Parse =
  rc :: rcode
  zTail :: nat
  sLastToken :: "nat \<times> nat"
  zErrMsg :: "errmsg option"
  nErrParse :: nat
  pVdbe :: bool
  nested :: nat
  mallocFailed :: bool
  suppressErr :: bool
  engine :: 'e

type_synonym 'e feed = "nat \<Rightarrow> 'e Parse \<Rightarrow> 'e Parse"

text \<open>\<^verbatim>\<open>sqlite3VMPrintf\<close>: the message, or the null pointer. No memory is allocated for a connection on which an
  allocation has failed before.\<close>

definition sqlite3MPrintf :: "errmsg \<Rightarrow> rcode list \<Rightarrow> 'e Parse \<Rightarrow> errmsg option \<times> rcode list \<times> 'e Parse" where
  "sqlite3MPrintf m fs p =
     (if mallocFailed p then (None, fs, p)
      else case fs of
        [] \<Rightarrow> (Some m, [], p)
      | f # fs \<Rightarrow> if f = SQLITE_OK then (Some m, fs, p)
                 else (None, fs, if f = SQLITE_NOMEM then p \<lparr> mallocFailed := True \<rparr> else p))"

definition sqlite3ErrorMsg :: "errmsg \<Rightarrow> rcode list \<Rightarrow> 'e Parse \<Rightarrow> rcode list \<times> 'e Parse" where
  "sqlite3ErrorMsg m fs p =
     (case sqlite3MPrintf m fs p of (zMsg, fs, p) \<Rightarrow>
        (fs, if suppressErr p then p
             else p \<lparr> nErrParse := nErrParse p + 1, zErrMsg := zMsg, rc := SQLITE_ERROR \<rparr>))"

section \<open>The loop\<close>

text \<open>The state at \<^verbatim>\<open>abort_parse\<close>: the position, the last token parsed, the number of errors, the error
  message stored by the loop, the rest of the script, and the context.\<close>

type_synonym 'e parse_end = "nat \<times> nat option \<times> nat \<times> errmsg option \<times> rcode list \<times> 'e Parse"

text \<open>One pass through the loop body: \<open>Inl\<close> leaves the loop, \<open>Inr\<close> goes on.\<close>

definition parseToken ::
    "'e feed \<Rightarrow> (nat \<Rightarrow> bool) \<Rightarrow> nat \<Rightarrow> rcode list \<Rightarrow> bytes \<Rightarrow> nat \<Rightarrow> nat option \<Rightarrow> 'e Parse
     \<Rightarrow> 'e parse_end + nat \<times> nat option \<times> 'e Parse" where
  "parseToken feed intr mxSqlLen fs zSql i lastTokenParsed p =
     (let (tokenType, n) = sqlite3GetToken (drop i zSql);
          p = p \<lparr> sLastToken := (i, n) \<rparr>; j = i + n in
      if mxSqlLen < j then Inl (j, lastTokenParsed, 0, None, fs, p \<lparr> rc := SQLITE_TOOBIG \<rparr>)
      else if tokenType = TK_SPACE then
        (if intr j then
           (case sqlite3ErrorMsg MsgInterrupt fs p of (fs, p) \<Rightarrow>
              Inl (j, lastTokenParsed, 0, None, fs, p \<lparr> rc := SQLITE_INTERRUPT \<rparr>))
         else Inr (j, lastTokenParsed, p))
      else if tokenType = TK_ILLEGAL then
        (case sqlite3MPrintf (MsgToken i n) fs p of (pzErrMsg, fs, p) \<Rightarrow> Inl (j, lastTokenParsed, 1, pzErrMsg, fs, p))
      else
        let p = feed tokenType (if tokenType = TK_SEMI then p \<lparr> zTail := j \<rparr> else p) in
        if rc p \<noteq> SQLITE_OK then Inl (j, Some tokenType, 0, None, fs, p) else Inr (j, Some tokenType, p))"

text \<open>The bytes behind the current position bound the number of passes.\<close>

function parseLoop ::
    "'e feed \<Rightarrow> (nat \<Rightarrow> bool) \<Rightarrow> nat \<Rightarrow> rcode list \<Rightarrow> bytes \<Rightarrow> nat \<Rightarrow> nat option \<Rightarrow> 'e Parse \<Rightarrow> 'e parse_end" where
  "parseLoop feed intr mxSqlLen fs zSql i lastTokenParsed p =
     (if mallocFailed p \<or> ch zSql i = 0 then (i, lastTokenParsed, 0, None, fs, p)
      else case parseToken feed intr mxSqlLen fs zSql i lastTokenParsed p of
        Inl e \<Rightarrow> e
      | Inr (j, l, q) \<Rightarrow> parseLoop feed intr mxSqlLen fs zSql j l q)"
  by pat_completeness auto

lemma parseToken_Inr:
  assumes "parseToken feed intr mx fs z i l p = Inr (j, l', q)"
  shows "j = i + snd (sqlite3GetToken (drop i z))"
  using assms by (auto simp: parseToken_def Let_def case_prod_unfold split: if_splits)

lemma drop_nonempty: "ch z i \<noteq> 0 \<Longrightarrow> drop i z \<noteq> []"
  using ch_nonzero [of z i] by simp

lemma token_step: "ch z i \<noteq> 0 \<Longrightarrow> length z - (i + snd (sqlite3GetToken (drop i z))) < length z - i"
  using sqlite3GetToken_length [OF drop_nonempty [of z i]] ch_nonzero [of z i] by linarith

lemma token_step_pair:
  "ch z i \<noteq> 0 \<Longrightarrow> (t, n) = sqlite3GetToken (drop i z) \<Longrightarrow> length z - (i + n) < length z - i"
  using token_step [of z i] by (metis snd_conv)

termination parseLoop
  by (relation "measure (\<lambda>(feed, intr, mx, fs, z, i, l, p). length z - i)") (auto dest!: parseToken_Inr token_step)

declare parseLoop.simps [simp del]

section \<open>The end of the run\<close>

text \<open>At the end of the text the parser gets a semicolon, unless it just had one, and the end marker 0.\<close>

definition parseFlush :: "'e feed \<Rightarrow> bytes \<Rightarrow> 'e parse_end \<Rightarrow> (nat \<times> errmsg option \<times> rcode list \<times> 'e Parse) option" where
  "parseFlush feed zSql = (\<lambda>(i, lastTokenParsed, nErr, msg, fs, p).
     do {
       c \<leftarrow> rd (zSql @ [0]) i;
       Some (nErr, msg, fs,
         if c = 0 \<and> nErr = 0 \<and> rc p = SQLITE_OK
         then feed 0 (if lastTokenParsed \<noteq> Some TK_SEMI then (feed TK_SEMI p) \<lparr> zTail := i \<rparr> else p)
         else p)
     })"

text \<open>The error code, the error message and the statement; the release of memory that follows in the
  code is not part of the model.\<close>

definition parseReport :: "nat \<times> errmsg option \<times> rcode list \<times> 'e Parse \<Rightarrow> nat \<times> errmsg option \<times> 'e Parse" where
  "parseReport = (\<lambda>(nErr, msg, fs, p).
     let p = (if mallocFailed p then p \<lparr> rc := SQLITE_NOMEM \<rparr> else p);
         p = (if rc p \<noteq> SQLITE_OK \<and> rc p \<noteq> SQLITE_DONE \<and> zErrMsg p = None
              then (case sqlite3MPrintf (MsgCode (rc p)) fs p of (z, fs, p) \<Rightarrow> p \<lparr> zErrMsg := z \<rparr>) else p);
         (nErr, msg, p) = (if zErrMsg p \<noteq> None then (nErr + 1, zErrMsg p, p \<lparr> zErrMsg := None \<rparr>) else (nErr, msg, p));
         p = (if pVdbe p \<and> 0 < nErrParse p \<and> nested p = 0 then p \<lparr> pVdbe := False \<rparr> else p);
         p = (if 0 < nErr \<and> rc p = SQLITE_OK then p \<lparr> rc := SQLITE_ERROR \<rparr> else p)
     in (nErr, msg, p))"

text \<open>\<open>pEngine\<close> is the outcome of the allocation of the parser. The result is the number of errors, the
  message and the context.\<close>

definition sqlite3RunParser ::
    "'e feed \<Rightarrow> (nat \<Rightarrow> bool) \<Rightarrow> nat \<Rightarrow> bool \<Rightarrow> rcode list \<Rightarrow> bytes \<Rightarrow> 'e Parse
     \<Rightarrow> ((nat \<times> errmsg option \<times> 'e Parse) + 'e Parse) option" where
  "sqlite3RunParser feed intr mxSqlLen pEngine fs zSql p =
     (let p = p \<lparr> rc := SQLITE_OK, zTail := 0 \<rparr> in
      if \<not> pEngine then Some (Inr (p \<lparr> mallocFailed := True \<rparr>))
      else map_option (Inl \<circ> parseReport) (parseFlush feed zSql (parseLoop feed intr mxSqlLen fs zSql 0 None p)))"

section \<open>The tokens of a statement\<close>

text \<open>The tokens with their offsets and lengths, by repeated use of \<open>sqlite3GetToken\<close>.\<close>

function tokens :: "bytes \<Rightarrow> nat \<Rightarrow> (nat \<times> nat \<times> nat) list" where
  "tokens z i =
     (if ch z i = 0 then []
      else case sqlite3GetToken (drop i z) of (t, n) \<Rightarrow> (t, i, n) # tokens z (i + n))"
  by pat_completeness auto
termination
  by (relation "measure (\<lambda>(z, i). length z - i)") (auto intro: token_step_pair)

declare tokens.simps [simp del]

text \<open>The context after the parser has been given all these tokens except white space.\<close>

fun feedTokens :: "'e feed \<Rightarrow> (nat \<times> nat \<times> nat) list \<Rightarrow> 'e Parse \<Rightarrow> 'e Parse" where
  "feedTokens feed [] p = p"
| "feedTokens feed ((t, i, n) # ts) p =
     (let q = p \<lparr> sLastToken := (i, n) \<rparr> in
      feedTokens feed ts
        (if t = TK_SPACE then q else feed t (if t = TK_SEMI then q \<lparr> zTail := i + n \<rparr> else q)))"

fun lastToken :: "(nat \<times> nat \<times> nat) list \<Rightarrow> nat option \<Rightarrow> nat option" where
  "lastToken [] l = l"
| "lastToken ((t, i, n) # ts) l = lastToken ts (if t = TK_SPACE then l else Some t)"

text \<open>The parser has not reported an error, and the parser accepts these tokens one after the other.\<close>

definition parse_ok :: "'e Parse \<Rightarrow> bool" where
  "parse_ok p \<longleftrightarrow> rc p = SQLITE_OK \<and> \<not> mallocFailed p \<and> zErrMsg p = None \<and> nErrParse p = 0"

fun accepts :: "'e feed \<Rightarrow> (nat \<times> nat \<times> nat) list \<Rightarrow> 'e Parse \<Rightarrow> bool" where
  "accepts feed [] p \<longleftrightarrow> parse_ok p"
| "accepts feed (t # ts) p \<longleftrightarrow> parse_ok p \<and> accepts feed ts (feedTokens feed [t] p)"

lemma accepts_ok: "accepts feed ts p \<Longrightarrow> parse_ok p \<and> parse_ok (feedTokens feed ts p)"
  by (induction feed ts p rule: accepts.induct) (auto simp: Let_def)

lemma tokens_Cons:
  assumes "tokens z i = (t, k, n) # ts"
  shows "k = i" "ch z i \<noteq> 0" "sqlite3GetToken (drop i z) = (t, n)" "tokens z (i + n) = ts"
  using assms by (auto simp: tokens.simps [of z i] split: if_splits prod.splits)

lemma token_inside:
  assumes "ch z i \<noteq> 0" and "sqlite3GetToken (drop i z) = (t, n)" and "t \<noteq> TK_ILLEGAL"
  shows "i + n \<le> length z"
proof -
  have "drop i z \<noteq> [0x21]" using assms(2,3) sqlite3GetToken_bang by auto
  then show ?thesis using sqlite3GetToken_length [OF drop_nonempty [OF assms(1)]] ch_nonzero [OF assms(1)] assms(2) by auto
qed

lemma tokens_member: "(t, k, n) \<in> set (tokens z i) \<Longrightarrow> ch z k \<noteq> 0 \<and> sqlite3GetToken (drop k z) = (t, n)"
proof (induction z i rule: tokens.induct)
  case (1 z i)
  then show ?case by (force simp: tokens.simps [of z i] split: if_splits prod.splits)
qed

lemma tokens_inside: "(t, k, n) \<in> set (tokens z i) \<Longrightarrow> t \<noteq> TK_ILLEGAL \<Longrightarrow> k + n \<le> length z"
  using tokens_member token_inside by blast

text \<open>As long as the parser accepts the tokens the loop feeds them one after the other.\<close>

lemma parseLoop_tokens:
  assumes "tokens z i = pre @ post" and "accepts feed pre p" and "\<forall>j. \<not> intr j"
    and "\<forall>(t, k, n) \<in> set pre. t \<noteq> TK_ILLEGAL \<and> k + n \<le> mx" and "i \<le> length z"
  shows "\<exists>j. tokens z j = post \<and> j \<le> length z
    \<and> parseLoop feed intr mx fs z i l p = parseLoop feed intr mx fs z j (lastToken pre l) (feedTokens feed pre p)"
  using assms
proof (induction pre arbitrary: i l p)
  case (Cons x pre)
  obtain t k n where x: "x = (t, k, n)" by (cases x)
  note tk = tokens_Cons [of z i t k n "pre @ post"]
  have t: "ch z i \<noteq> 0" "sqlite3GetToken (drop i z) = (t, n)" "tokens z (i + n) = pre @ post" and k: "k = i"
    using Cons.prems(1) tk by (simp_all add: x)
  define q where "q = feedTokens feed [(t, k, n)] p"
  have acc: "parse_ok p" "accepts feed pre q" using Cons.prems(2) by (simp_all add: x q_def)
  have ok: "\<not> mallocFailed p" "rc q = SQLITE_OK" using acc accepts_ok [OF acc(2)] by (simp_all add: parse_ok_def)
  have "parseToken feed intr mx fs z i l p = Inr (i + n, if t = TK_SPACE then l else Some t, q)"
    using Cons.prems(3,4) ok(2) t(2) by (auto simp: x k q_def parseToken_def Let_def split: if_splits)
  then have step: "parseLoop feed intr mx fs z i l p = parseLoop feed intr mx fs z (i + n) (if t = TK_SPACE then l else Some t) q"
    using t(1) ok(1) by (subst parseLoop.simps) simp
  have "\<forall>(t, k, n) \<in> set pre. t \<noteq> TK_ILLEGAL \<and> k + n \<le> mx" using Cons.prems(4) by simp
  moreover have "i + n \<le> length z" using token_inside [OF t(1,2)] Cons.prems(4) x by simp
  ultimately have "\<exists>j. tokens z j = post \<and> j \<le> length z \<and> parseLoop feed intr mx fs z (i + n) (if t = TK_SPACE then l else Some t) q
      = parseLoop feed intr mx fs z j (lastToken pre (if t = TK_SPACE then l else Some t)) (feedTokens feed pre q)"
    by (rule Cons.IH [OF t(3) acc(2) Cons.prems(3)])
  then show ?case unfolding step by (simp add: x q_def Let_def)
qed auto

lemma tokens_end: "tokens z i = [] \<Longrightarrow> ch z i = 0"
  by (auto simp: tokens.simps [of z i] split: if_splits prod.splits)

lemma ch_zero: "0 \<notin> set z \<Longrightarrow> ch z i = 0 \<longleftrightarrow> length z \<le> i"
  by (auto simp: ch_def) (metis nth_mem)

lemma tokens_legal:
  assumes "0 \<notin> set z" and "i \<le> length z" and "\<forall>(t, k, n) \<in> set (tokens z i). t \<noteq> TK_ILLEGAL"
  shows "concat (map (\<lambda>(t, k, n). take n (drop k z)) (tokens z i)) = drop i z"
  using assms
proof (induction z i rule: tokens.induct)
  case (1 z i)
  show ?case
  proof (cases "ch z i = 0")
    case True
    then show ?thesis using ch_zero [OF 1(2), of i] by (simp add: tokens.simps [of z i])
  next
    case False
    obtain t n where g: "sqlite3GetToken (drop i z) = (t, n)" by fastforce
    have tk: "tokens z i = (t, i, n) # tokens z (i + n)" using False g by (simp add: tokens.simps [of z i])
    then have n: "i + n \<le> length z" using token_inside [OF False g] 1(4) by simp
    have "concat (map (\<lambda>(t, k, n). take n (drop k z)) (tokens z (i + n))) = drop (i + n) z"
      using 1(1) [OF False g [symmetric] 1(2) n] 1(4) tk by simp
    then show ?thesis using tk n by (simp add: append_take_drop_id [of n "drop i z", simplified drop_drop add.commute [of n i]])
  qed
qed

text \<open>No error, and the statement may be finished: the parser sets \<^const>\<open>SQLITE_DONE\<close> when it has generated the code of a
  statement.\<close>

definition parse_fine :: "'e Parse \<Rightarrow> bool" where
  "parse_fine p \<longleftrightarrow> (rc p = SQLITE_OK \<or> rc p = SQLITE_DONE) \<and> \<not> mallocFailed p \<and> zErrMsg p = None \<and> nErrParse p = 0"

lemma parseReport_fine: "parse_fine p \<Longrightarrow> parseReport (0, None, fs, p) = (0, None, p)"
  by (auto simp: parseReport_def parse_fine_def Let_def)

text \<open>The tokens that are read until the parser leaves \<^const>\<open>SQLITE_OK\<close>, and the context then.\<close>

fun feedUntil :: "'e feed \<Rightarrow> (nat \<times> nat \<times> nat) list \<Rightarrow> 'e Parse \<Rightarrow> (nat \<times> nat \<times> nat) list \<times> 'e Parse" where
  "feedUntil feed [] p = ([], p)"
| "feedUntil feed (t # ts) p =
     (let q = feedTokens feed [t] p in
      if rc q \<noteq> SQLITE_OK then ([t], q) else case feedUntil feed ts q of (us, r) \<Rightarrow> (t # us, r))"

fun parses :: "'e feed \<Rightarrow> (nat \<times> nat \<times> nat) list \<Rightarrow> 'e Parse \<Rightarrow> bool" where
  "parses feed [] p \<longleftrightarrow> parse_fine p"
| "parses feed (t # ts) p \<longleftrightarrow> parse_fine p \<and> (rc p = SQLITE_OK \<longrightarrow> parses feed ts (feedTokens feed [t] p))"

lemma parses_fine: "parses feed ts p \<Longrightarrow> parse_fine p"
  by (cases ts) simp_all

text \<open>The loop reads these tokens, one after the other and without a gap.\<close>

lemma parseLoop_until:
  assumes "feedUntil feed (tokens z i) p = (us, q)" and "parses feed (tokens z i) p" and "rc p = SQLITE_OK" and "\<forall>j. \<not> intr j"
    and "\<forall>(t, k, n) \<in> set us. t \<noteq> TK_ILLEGAL \<and> k + n \<le> mx" and "i \<le> length z" and "0 \<notin> set z"
  shows "\<exists>j. parseLoop feed intr mx fs z i l p = (j, lastToken us l, 0, None, fs, q) \<and> i \<le> j \<and> j \<le> length z
    \<and> drop i z = concat (map (\<lambda>(t, k, n). take n (drop k z)) us) @ drop j z \<and> tokens z i = us @ tokens z j
    \<and> (rc q = SQLITE_OK \<longrightarrow> j = length z) \<and> parse_fine q"
  using assms
proof (induction us arbitrary: i l p)
  case Nil
  then have e: "tokens z i = []" "q = p" by (auto simp: Let_def split: if_splits prod.splits elim!: feedUntil.elims)
  then have "ch z i = 0" using tokens_end by blast
  moreover from this have "i = length z" using ch_zero [OF Nil.prems(7), of i] Nil.prems(6) by simp
  moreover from calculation have "parseLoop feed intr mx fs z i l p = (i, l, 0, None, fs, p)"
    by (subst parseLoop.simps) simp
  ultimately show ?case using e parses_fine [OF Nil.prems(2)] Nil.prems(6) by (intro exI [of _ i]) simp
next
  case (Cons x us)
  obtain t k n where x: "x = (t, k, n)" by (cases x)
  have "\<exists>ts. tokens z i = (t, k, n) # ts"
    using Cons.prems(1) by (cases "tokens z i") (auto simp: x Let_def split: if_splits prod.splits)
  then obtain ts where ts: "tokens z i = (t, k, n) # ts" by blast
  note t = tokens_Cons [OF ts]
  define r where "r = feedTokens feed [(t, k, n)] p"
  have mf: "\<not> mallocFailed p" "parses feed ts r"
    using Cons.prems(2,3) parses_fine [OF Cons.prems(2)] by (auto simp: ts r_def parse_fine_def)
  have legal: "t \<noteq> TK_ILLEGAL" "i + n \<le> mx" using Cons.prems(5) by (auto simp: x t(1))
  have inside: "i + n \<le> length z" using token_inside [OF t(2,3)] legal by blast
  have cat: "drop i z = take n (drop i z) @ drop (i + n) z" by (metis append_take_drop_id drop_drop add.commute)
  show ?case
  proof (cases "rc r = SQLITE_OK")
    case False
    then have e: "us = []" "q = r" "t \<noteq> TK_SPACE" using Cons.prems(1,3) by (auto simp: ts x r_def Let_def split: if_splits)
    have "parseToken feed intr mx fs z i l p = Inl (i + n, Some t, 0, None, fs, r)"
      using legal t(3) e(3) False by (auto simp: parseToken_def r_def t(1) Let_def)
    then have "parseLoop feed intr mx fs z i l p = (i + n, Some t, 0, None, fs, r)"
      using t(2) mf(1) by (subst parseLoop.simps) simp
    then show ?thesis using e False inside cat ts t(1,4) parses_fine [OF mf(2)] by (intro exI [of _ "i + n"]) (simp add: x)
  next
    case True
    have u: "feedUntil feed ts r = (us, q)"
      using Cons.prems(1) True by (auto simp: ts x r_def Let_def split: prod.splits)
    have "parseToken feed intr mx fs z i l p = Inr (i + n, if t = TK_SPACE then l else Some t, r)"
      using legal t(3) True Cons.prems(4) by (auto simp: parseToken_def r_def t(1) Let_def split: if_splits)
    then have step: "parseLoop feed intr mx fs z i l p = parseLoop feed intr mx fs z (i + n) (if t = TK_SPACE then l else Some t) r"
      using t(2) mf(1) by (subst parseLoop.simps) simp
    have leg: "\<forall>(t, k, n) \<in> set us. t \<noteq> TK_ILLEGAL \<and> k + n \<le> mx" using Cons.prems(5) by simp
    obtain j where j: "parseLoop feed intr mx fs z (i + n) (if t = TK_SPACE then l else Some t) r
        = (j, lastToken us (if t = TK_SPACE then l else Some t), 0, None, fs, q)" "i + n \<le> j" "j \<le> length z"
        "drop (i + n) z = concat (map (\<lambda>(t, k, n). take n (drop k z)) us) @ drop j z" "tokens z (i + n) = us @ tokens z j"
        "rc q = SQLITE_OK \<longrightarrow> j = length z" "parse_fine q"
      using Cons.IH [OF u [folded t(4)] mf(2) [folded t(4)] True Cons.prems(4) leg inside Cons.prems(7)] by blast
    have "drop i z = concat (map (\<lambda>(t, k, n). take n (drop k z)) (x # us)) @ drop j z" using cat j(4) by (simp add: x t(1))
    then show ?thesis using step j ts t(4) by (intro exI [of _ j]) (simp add: x)
  qed
qed

text \<open>The context at the end of a run: when the parser is not finished at the end of the text it gets a semicolon,
  unless it just had one, and the end marker.\<close>

definition closeStatement :: "'e feed \<Rightarrow> bytes \<Rightarrow> (nat \<times> nat \<times> nat) list \<Rightarrow> 'e Parse \<Rightarrow> 'e Parse" where
  "closeStatement feed z us q =
     (if rc q \<noteq> SQLITE_OK then q
      else feed 0 (if lastToken us None = Some TK_SEMI then q else (feed TK_SEMI q) \<lparr> zTail := length z \<rparr>))"

text \<open>A parser that accepts everything and records the tokens it gets, for the examples.\<close>

definition recorder :: "(nat \<times> nat \<times> nat) list feed" where
  "recorder t p = p \<lparr> engine := engine p @ [(t, sLastToken p)] \<rparr>"

text \<open>A parser that is finished at the first semicolon, as the generated parser is for a statement that generates
  code.\<close>

definition coder :: "(nat \<times> nat \<times> nat) list feed" where
  "coder t p = (recorder t p) \<lparr> rc := if t = TK_SEMI then SQLITE_DONE else rc p \<rparr>"

definition parse0 :: "(nat \<times> nat \<times> nat) list Parse" where
  "parse0 = \<lparr> rc = SQLITE_OK, zTail = 0, sLastToken = (0, 0), zErrMsg = None, nErrParse = 0, pVdbe = False,
     nested = 0, mallocFailed = False, suppressErr = False, engine = [] \<rparr>"

lemma tokens_examples:
  "tokens [0x28, 0x20, 0x31, 0x3B] 0 = [(TK_LP, 0, 1), (TK_SPACE, 1, 1), (TK_INTEGER, 2, 1), (TK_SEMI, 3, 1)]"
  "tokens [0x28, 0x20, 0x31, 0x3B, 0x21] 0
     = [(TK_LP, 0, 1), (TK_SPACE, 1, 1), (TK_INTEGER, 2, 1), (TK_SEMI, 3, 1), (TK_ILLEGAL, 4, 2)]"
  "tokens [0x28, 0x20, 0x31] 0 = [(TK_LP, 0, 1), (TK_SPACE, 1, 1), (TK_INTEGER, 2, 1)]"
  "tokens [0x3B, 0x21] 0 = [(TK_SEMI, 0, 1), (TK_ILLEGAL, 1, 2)]"
  by code_simp+

text \<open>The report after an illegal token, whose message may be missing.\<close>

lemma illegal_report:
  assumes "parse_ok p" and "sqlite3MPrintf m fs (p \<lparr> sLastToken := x \<rparr>) = (msg, fs', q)"
  shows "\<exists>msg' q'. parseReport (1, msg, fs', q) = (1, msg', q') \<and> engine q' = engine p
    \<and> (if fs = [] \<or> hd fs = SQLITE_OK then msg' = Some m \<and> rc q' = SQLITE_ERROR
       else msg' = None \<and> rc q' = (if hd fs = SQLITE_NOMEM then SQLITE_NOMEM else SQLITE_ERROR))"
proof -
  have p: "rc p = SQLITE_OK" "\<not> mallocFailed p" "zErrMsg p = None" "nErrParse p = 0" using assms(1) by (simp_all add: parse_ok_def)
  show ?thesis
  proof (cases "fs = [] \<or> hd fs = SQLITE_OK")
    case True
    then have "msg = Some m" "q = p \<lparr> sLastToken := x \<rparr>"
      using assms(2) p(2) by (cases fs; simp add: sqlite3MPrintf_def)+
    then show ?thesis using p True by (simp add: parseReport_def)
  next
    case False
    then have "msg = None" "q = p \<lparr> sLastToken := x, mallocFailed := (hd fs = SQLITE_NOMEM) \<rparr>"
      using assms(2) p(2) by (cases fs; force simp add: sqlite3MPrintf_def)+
    then show ?thesis using p False by (cases "hd fs = SQLITE_NOMEM") (simp_all add: parseReport_def sqlite3MPrintf_def)
  qed
qed

section \<open>Properties\<close>

text \<open>C23. A statement is handed to the parser completely and in order. The run reads the tokens of the text, without
  a gap, until the parser leaves \<^const>\<open>SQLITE_OK\<close>, which it does with \<^const>\<open>SQLITE_DONE\<close> when a statement is finished, and it feeds
  every token except white space and comments. If the parser is then finished, nothing else is fed and the rest
  of the text is not read; if it is not finished at the end of the text, it gets a semicolon, unless the last token
  was one, and the end marker. When the parser reports no error, neither does the run.\<close>

theorem sqlite3RunParser_complete:
  assumes "0 \<notin> set z" and "feedUntil feed (tokens z 0) (p \<lparr> rc := SQLITE_OK, zTail := 0 \<rparr>) = (us, q)"
    and "\<forall>(t, k, n) \<in> set us. t \<noteq> TK_ILLEGAL \<and> k + n \<le> mx" and "\<forall>j. \<not> intr j"
    and "parses feed (tokens z 0) (p \<lparr> rc := SQLITE_OK, zTail := 0 \<rparr>)" and "parse_fine (closeStatement feed z us q)"
  shows "sqlite3RunParser feed intr mx True fs z p = Some (Inl (0, None, closeStatement feed z us q))
    \<and> (\<exists>j. z = concat (map (\<lambda>(t, k, n). take n (drop k z)) us) @ drop j z \<and> tokens z 0 = us @ tokens z j
        \<and> (rc q = SQLITE_OK \<longrightarrow> j = length z))"
proof -
  obtain j where j: "parseLoop feed intr mx fs z 0 None (p \<lparr> rc := SQLITE_OK, zTail := 0 \<rparr>) = (j, lastToken us None, 0, None, fs, q)"
      "j \<le> length z" "drop 0 z = concat (map (\<lambda>(t, k, n). take n (drop k z)) us) @ drop j z" "tokens z 0 = us @ tokens z j"
      "rc q = SQLITE_OK \<longrightarrow> j = length z"
    using parseLoop_until [OF assms(2,5) _ assms(4,3) _ assms(1), where l = None and fs = fs] by auto
  have "parseFlush feed z (j, lastToken us None, 0, None, fs, q) = Some (0, None, fs, closeStatement feed z us q)"
    using j(2,5) by (auto simp: parseFlush_def rd_def nth_append closeStatement_def)
  then have "sqlite3RunParser feed intr mx True fs z p = Some (Inl (0, None, closeStatement feed z us q))"
    using j(1) by (simp add: sqlite3RunParser_def parseReport_fine [OF assms(6)])
  then show ?thesis using j(3-5) by auto
qed

theorem sqlite3RunParser_complete_witness:
  "(\<exists>q. sqlite3RunParser coder (\<lambda>_. False) 100 True [] [0x28, 0x20, 0x31, 0x3B, 0x21] parse0 = Some (Inl (0, None, q))
     \<and> engine q = [(TK_LP, 0, 1), (TK_INTEGER, 2, 1), (TK_SEMI, 3, 1)] \<and> rc q = SQLITE_DONE \<and> zTail q = 4)
   \<and> (\<exists>q. sqlite3RunParser coder (\<lambda>_. False) 100 True [] [0x28, 0x20, 0x31] parse0 = Some (Inl (0, None, q))
     \<and> engine q = [(TK_LP, 0, 1), (TK_INTEGER, 2, 1), (TK_SEMI, 2, 1), (0, 2, 1)] \<and> rc q = SQLITE_DONE \<and> zTail q = 3)"
proof
  show "\<exists>q. sqlite3RunParser coder (\<lambda>_. False) 100 True [] [0x28, 0x20, 0x31, 0x3B, 0x21] parse0 = Some (Inl (0, None, q))
     \<and> engine q = [(TK_LP, 0, 1), (TK_INTEGER, 2, 1), (TK_SEMI, 3, 1)] \<and> rc q = SQLITE_DONE \<and> zTail q = 4"
    using sqlite3RunParser_complete [where z = "[0x28, 0x20, 0x31, 0x3B, 0x21]" and feed = coder and p = parse0 and mx = 100
      and intr = "\<lambda>_. False" and fs = "[]"]
    by (simp add: tokens_examples closeStatement_def coder_def recorder_def parse0_def parse_fine_def Let_def)
  show "\<exists>q. sqlite3RunParser coder (\<lambda>_. False) 100 True [] [0x28, 0x20, 0x31] parse0 = Some (Inl (0, None, q))
     \<and> engine q = [(TK_LP, 0, 1), (TK_INTEGER, 2, 1), (TK_SEMI, 2, 1), (0, 2, 1)] \<and> rc q = SQLITE_DONE \<and> zTail q = 3"
    using sqlite3RunParser_complete [where z = "[0x28, 0x20, 0x31]" and feed = coder and p = parse0 and mx = 100
      and intr = "\<lambda>_. False" and fs = "[]"]
    by (simp add: tokens_examples closeStatement_def coder_def recorder_def parse0_def parse_fine_def Let_def)
qed

text \<open>C24. The first illegal token ends the run: the tokens before it have been fed, nothing else is, the run
  reports exactly one error, the illegal token, with the code \<^verbatim>\<open>SQLITE_ERROR\<close>. When the message cannot be
  put together there is still exactly one error, without a message, and the code is \<^verbatim>\<open>SQLITE_NOMEM\<close> if memory
  was missing. When the illegal token is an exclamation mark at the end of the text the run reads the byte
  behind the terminator.\<close>

theorem sqlite3RunParser_illegal:
  assumes "tokens z 0 = pre @ (TK_ILLEGAL, k, n) # post" and "\<forall>(t, k, n) \<in> set pre. t \<noteq> TK_ILLEGAL"
    and "length z < mx" and "\<forall>j. \<not> intr j" and "accepts feed pre (p \<lparr> rc := SQLITE_OK, zTail := 0 \<rparr>)"
  shows "if k + n \<le> length z
    then \<exists>msg q. sqlite3RunParser feed intr mx True fs z p = Some (Inl (1, msg, q))
      \<and> engine q = engine (feedTokens feed pre (p \<lparr> rc := SQLITE_OK, zTail := 0 \<rparr>))
      \<and> (if fs = [] \<or> hd fs = SQLITE_OK then msg = Some (MsgToken k n) \<and> rc q = SQLITE_ERROR
         else msg = None \<and> rc q = (if hd fs = SQLITE_NOMEM then SQLITE_NOMEM else SQLITE_ERROR))
    else drop k z = [0x21] \<and> sqlite3RunParser feed intr mx True fs z p = None"
proof -
  let ?p = "p \<lparr> rc := SQLITE_OK, zTail := 0 \<rparr>"
  let ?q = "feedTokens feed pre ?p"
  have "\<forall>(t, k, n) \<in> set pre. t \<noteq> TK_ILLEGAL \<and> k + n \<le> mx"
    using assms(1,2,3) tokens_inside [of _ _ _ z 0] by fastforce
  then obtain j where j: "tokens z j = (TK_ILLEGAL, k, n) # post" "j \<le> length z"
      "parseLoop feed intr mx fs z 0 None ?p = parseLoop feed intr mx fs z j (lastToken pre None) ?q"
    using parseLoop_tokens [OF assms(1,5,4), of mx fs None] by auto
  note tk = tokens_Cons [OF j(1)]
  have ok: "parse_ok ?q" using accepts_ok [OF assms(5)] by simp
  have n: "k + n \<le> length z \<or> drop k z = [0x21] \<and> k + n = length z + 1"
    using sqlite3GetToken_length [OF drop_nonempty [OF tk(2)]] tk(1,3) ch_nonzero [OF tk(2)] sqlite3GetToken_bang
    by (auto dest: arg_cong [of _ _ length])
  obtain msg fs' q where m: "sqlite3MPrintf (MsgToken k n) fs (?q \<lparr> sLastToken := (k, n) \<rparr>) = (msg, fs', q)" by (metis prod_cases3)
  have "parseLoop feed intr mx fs z j (lastToken pre None) ?q = (k + n, lastToken pre None, 1, msg, fs', q)"
    using assms(3) tk(1-3) ok n m by (subst parseLoop.simps) (auto simp: parseToken_def parse_ok_def Let_def)
  then have run: "sqlite3RunParser feed intr mx True fs z p = map_option (Inl \<circ> parseReport)
      (parseFlush feed z (k + n, lastToken pre None, 1, msg, fs', q))"
    using j(3) by (simp add: sqlite3RunParser_def)
  show ?thesis
  proof (cases "k + n \<le> length z")
    case True
    then have "sqlite3RunParser feed intr mx True fs z p = Some (Inl (parseReport (1, msg, fs', q)))"
      unfolding run by (simp add: parseFlush_def rd_def)
    moreover have "\<exists>msg' q'. parseReport (1, msg, fs', q) = (1, msg', q') \<and> engine q' = engine ?q
        \<and> (if fs = [] \<or> hd fs = SQLITE_OK then msg' = Some (MsgToken k n) \<and> rc q' = SQLITE_ERROR
           else msg' = None \<and> rc q' = (if hd fs = SQLITE_NOMEM then SQLITE_NOMEM else SQLITE_ERROR))"
      by (rule illegal_report [OF ok m])
    ultimately show ?thesis using True by auto
  next
    case False
    then show ?thesis unfolding run using n by (simp add: parseFlush_def rd_def)
  qed
qed

theorem sqlite3RunParser_illegal_witness:
  "drop 1 [0x3B, 0x21] = [0x21 :: u8] \<and> sqlite3RunParser recorder (\<lambda>_. False) 100 True [] [0x3B, 0x21] parse0 = None"
  using sqlite3RunParser_illegal [of "[0x3B, 0x21]" "[(TK_SEMI, 0, 1)]" 1 2 "[]" 100 "\<lambda>_. False" recorder parse0 "[]"]
  by (simp add: tokens_examples recorder_def parse0_def parse_ok_def)

end
