(* ===== verification/Complete.thy ===== *)
theory Complete
  imports Tokenize
begin

text \<open>
  \<^verbatim>\<open>sqlite3_complete\<close> of \<^verbatim>\<open>complete.c\<close>: a scanner of its own and a state machine with eight states decide
  whether a text ends at the end of a statement, where a trigger definition is one statement that ends in
  \<^verbatim>\<open>;END;\<close>. The theory describes the accepted token sequences without a state machine and shows that the
  transition table recognises exactly them.
\<close>

section \<open>The state machine\<close>

datatype ctoken = tkSEMI | tkWS | tkOTHER | tkEXPLAIN | tkCREATE | tkTEMP | tkTRIGGER | tkEND

fun tokenIndex :: "ctoken \<Rightarrow> nat" where
  "tokenIndex tkSEMI = 0"
| "tokenIndex tkWS = 1"
| "tokenIndex tkOTHER = 2"
| "tokenIndex tkEXPLAIN = 3"
| "tokenIndex tkCREATE = 4"
| "tokenIndex tkTEMP = 5"
| "tokenIndex tkTRIGGER = 6"
| "tokenIndex tkEND = 7"

text \<open>The states are INVALID, START, NORMAL, EXPLAIN, CREATE, TRIGGER, SEMI and END.\<close>

definition trans :: "nat list list" where
  "trans =
    [[1, 0, 2, 3, 4, 2, 2, 2],
     [1, 1, 2, 3, 4, 2, 2, 2],
     [1, 2, 2, 2, 2, 2, 2, 2],
     [1, 3, 3, 2, 4, 2, 2, 2],
     [1, 4, 2, 2, 2, 4, 5, 2],
     [6, 5, 5, 5, 5, 5, 5, 5],
     [6, 6, 5, 5, 5, 5, 5, 7],
     [1, 7, 5, 5, 5, 5, 5, 5]]"

definition nextState :: "nat \<Rightarrow> ctoken \<Rightarrow> nat" where
  "nextState s t = trans ! s ! tokenIndex t"

section \<open>The scanner\<close>

text \<open>The result of one switch: an unterminated comment, string or name returns 0 at once, a line comment
  at the end of the text returns whether the state is START, and otherwise there is a token and the
  position of its last byte.\<close>

datatype scan = Unterminated | LineEnd | Token ctoken nat

function blockEnd :: "bytes \<Rightarrow> nat \<Rightarrow> nat" where
  "blockEnd z i = (if ch z i \<noteq> 0 \<and> (ch z i \<noteq> 0x2A \<or> ch z (i + 1) \<noteq> 0x2F) then blockEnd z (i + 1) else i)"
  by pat_completeness auto
termination
  by (relation "measure (\<lambda>(z, i). length z - i)") (auto dest: ch_nonzero)

declare blockEnd.simps [simp del]

definition isWord :: "bytes \<Rightarrow> nat \<Rightarrow> nat \<Rightarrow> string \<Rightarrow> bool" where
  "isWord z i nId s \<longleftrightarrow> nId = length s \<and> sqlite3_strnicmp (drop i z @ [0]) (kwBytes s @ [0]) nId = Some 0"

definition wordToken :: "bytes \<Rightarrow> nat \<Rightarrow> nat \<Rightarrow> ctoken" where
  "wordToken z i nId =
     (if ch z i = 0x63 \<or> ch z i = 0x43 then
        (if isWord z i nId ''create'' then tkCREATE else tkOTHER)
      else if ch z i = 0x74 \<or> ch z i = 0x54 then
        (if isWord z i nId ''trigger'' then tkTRIGGER
         else if isWord z i nId ''temp'' then tkTEMP
         else if isWord z i nId ''temporary'' then tkTEMP else tkOTHER)
      else if ch z i = 0x65 \<or> ch z i = 0x45 then
        (if isWord z i nId ''end'' then tkEND
         else if isWord z i nId ''explain'' then tkEXPLAIN else tkOTHER)
      else tkOTHER)"

text \<open>The scan of quoted text up to the closing byte \<open>c\<close>.\<close>

definition scanTo :: "u8 \<Rightarrow> bytes \<Rightarrow> nat \<Rightarrow> scan" where
  "scanTo c z i =
     (let j = scanWhile (\<lambda>x. x \<noteq> 0 \<and> x \<noteq> c) z i in if ch z j = 0 then Unterminated else Token tkOTHER j)"

definition scanToken :: "bytes \<Rightarrow> nat \<Rightarrow> scan" where
  "scanToken z i =
     (let c = ch z i in
      if c = 0x3B then Token tkSEMI i
      else if c \<in> {0x20, 0x0D, 0x09, 0x0A, 0x0C} then Token tkWS i
      else if c = 0x2F then
        (if ch z (i + 1) \<noteq> 0x2A then Token tkOTHER i
         else let j = blockEnd z (i + 2) in if ch z j = 0 then Unterminated else Token tkWS (j + 1))
      else if c = 0x2D then
        (if ch z (i + 1) \<noteq> 0x2D then Token tkOTHER i
         else let j = scanWhile (\<lambda>x. x \<noteq> 0 \<and> x \<noteq> 0x0A) z i in if ch z j = 0 then LineEnd else Token tkWS j)
      else if c = 0x5B then scanTo 0x5D z (i + 1)
      else if c \<in> {0x60, 0x22, 0x27} then scanTo c z (i + 1)
      else if IdChar c then
        (let nId = scanWhile IdChar z (i + 1) - i in Token (wordToken z i nId) (i + nId - 1))
      else Token tkOTHER i)"

lemma blockEnd_ge: "i \<le> blockEnd z i"
proof (induction z i rule: blockEnd.induct)
  case (1 z i)
  then show ?case by (subst blockEnd.simps) (auto split: if_split)
qed

definition reaches :: "nat \<Rightarrow> scan \<Rightarrow> bool" where
  "reaches i s \<longleftrightarrow> (case s of Token t j \<Rightarrow> i \<le> j | _ \<Rightarrow> True)"

lemma reaches_simps [simp]: "reaches i (Token t j) \<longleftrightarrow> i \<le> j" "reaches i Unterminated" "reaches i LineEnd"
  by (simp_all add: reaches_def)

lemma reaches_if: "reaches i a \<Longrightarrow> reaches i b \<Longrightarrow> reaches i (if c then a else b)"
  by simp

lemma scanToken_reaches: "reaches i (scanToken z i)"
proof -
  have s: "i + 1 \<le> scanWhile P z (i + 1)" for P by (rule scanWhile_ge)
  have "i \<le> scanWhile P z (i + 1)" for P using s [of P] by linarith
  moreover have "i \<le> i + (scanWhile P z (i + 1) - i) - 1" for P using s [of P] by linarith
  moreover have "i \<le> blockEnd z (i + 2) + 1" using blockEnd_ge [of "i + 2" z] by simp
  ultimately show ?thesis
    unfolding scanToken_def scanTo_def Let_def by (intro reaches_if) (simp_all add: scanWhile_ge)
qed

lemma scanToken_ge: "scanToken z i = Token t j \<Longrightarrow> i \<le> j"
  using scanToken_reaches [of i z] by simp

section \<open>The function\<close>

function completeLoop :: "bytes \<Rightarrow> nat \<Rightarrow> nat \<Rightarrow> int" where
  "completeLoop z state i =
     (if ch z i = 0 then (if state = 1 then 1 else 0)
      else case scanToken z i of
        Unterminated \<Rightarrow> 0
      | LineEnd \<Rightarrow> (if state = 1 then 1 else 0)
      | Token t j \<Rightarrow> completeLoop z (nextState state t) (j + 1))"
  by pat_completeness auto
termination
  by (relation "measure (\<lambda>(z, s, i). length z - i)") (auto dest!: scanToken_ge ch_nonzero)

declare completeLoop.simps [simp del]

definition sqlite3_complete :: "bytes \<Rightarrow> int" where
  "sqlite3_complete zSql = completeLoop zSql 0 0"

section \<open>Specification\<close>

text \<open>The tokens of a text; \<open>None\<close> when a comment, a string or a quoted name is not terminated.\<close>

function scanAll :: "bytes \<Rightarrow> nat \<Rightarrow> ctoken list option" where
  "scanAll z i =
     (if ch z i = 0 then Some []
      else case scanToken z i of
        Unterminated \<Rightarrow> None
      | LineEnd \<Rightarrow> Some []
      | Token t j \<Rightarrow> map_option (\<lambda>ts. t # ts) (scanAll z (j + 1)))"
  by pat_completeness auto
termination
  by (relation "measure (\<lambda>(z, i). length z - i)") (auto dest!: scanToken_ge ch_nonzero)

declare scanAll.simps [simp del]

text \<open>The beginning of a trigger definition: CREATE, any number of TEMP, TRIGGER, with EXPLAIN and
  other words possibly before it.\<close>

definition triggerHeader :: "ctoken list \<Rightarrow> bool" where
  "triggerHeader h =
     (let c = (case h of tkEXPLAIN # r \<Rightarrow> dropWhile (\<lambda>t. t = tkOTHER) r | _ \<Rightarrow> h) in
      case c of
        tkCREATE # r \<Rightarrow> (case dropWhile (\<lambda>t. t = tkTEMP) r of tkTRIGGER # _ \<Rightarrow> True | _ \<Rightarrow> False)
      | _ \<Rightarrow> False)"

text \<open>What follows the first \<^verbatim>\<open>;END;\<close>.\<close>

fun afterEnd :: "ctoken list \<Rightarrow> ctoken list option" where
  "afterEnd [] = None"
| "afterEnd (t # ts) =
     (if t = tkSEMI \<and> take 2 ts = [tkEND, tkSEMI] then Some (drop 2 ts) else afterEnd ts)"

lemma afterEnd_length: "afterEnd ts = Some r \<Longrightarrow> length r < length ts"
  by (induction ts) (auto split: if_splits)

lemma afterEnd_set: "afterEnd ts = Some r \<Longrightarrow> set r \<subseteq> set ts"
  by (induction ts) (auto split: if_splits dest: in_set_dropD)

text \<open>A sequence of complete statements.\<close>

function statements :: "ctoken list \<Rightarrow> bool" where
  "statements ts =
     (let h = takeWhile (\<lambda>t. t \<noteq> tkSEMI) ts; r = dropWhile (\<lambda>t. t \<noteq> tkSEMI) ts in
      if ts = [] then True
      else if r = [] then False
      else if triggerHeader h then (case afterEnd r of None \<Rightarrow> False | Some r' \<Rightarrow> statements r')
      else statements (tl r))"
  by pat_completeness auto

lemma dropWhile_length: "length (dropWhile P xs) \<le> length xs"
  by (induction xs) auto

lemma tl_dropWhile_less: "dropWhile P xs \<noteq> [] \<Longrightarrow> length (dropWhile P xs) - Suc 0 < length xs"
  using dropWhile_length [of P xs] by (cases "dropWhile P xs") auto

termination statements
proof (relation "measure length", goal_cases)
  case (2 ts h r r')
  then show ?case using afterEnd_length [of r r'] dropWhile_length [of _ ts] by (auto intro: less_le_trans)
next
  case (3 ts h r)
  then show ?case using tl_dropWhile_less [of _ ts] by simp
qed simp

declare statements.simps [simp del]

section \<open>The table recognises the specification\<close>

abbreviation runStates :: "nat \<Rightarrow> ctoken list \<Rightarrow> nat" where
  "runStates \<equiv> foldl nextState"

lemma nextState_simps [simp]:
  "t \<noteq> tkWS \<Longrightarrow> nextState 2 t = (if t = tkSEMI then 1 else 2)"
  "t \<noteq> tkWS \<Longrightarrow> nextState 3 t
     = (if t = tkSEMI then 1 else if t = tkOTHER then 3 else if t = tkCREATE then 4 else 2)"
  "t \<noteq> tkWS \<Longrightarrow> nextState 4 t
     = (if t = tkSEMI then 1 else if t = tkTEMP then 4 else if t = tkTRIGGER then 5 else 2)"
  "t \<noteq> tkWS \<Longrightarrow> nextState 5 t = (if t = tkSEMI then 6 else 5)"
  "t \<noteq> tkWS \<Longrightarrow> nextState 6 t = (if t = tkSEMI then 6 else if t = tkEND then 7 else 5)"
  "t \<noteq> tkWS \<Longrightarrow> nextState 7 t = (if t = tkSEMI then 1 else 5)"
  by (cases t; simp add: nextState_def trans_def)+

lemma nextState_start:
  "s \<in> {0, 1} \<Longrightarrow> t \<noteq> tkWS \<Longrightarrow> nextState s t
     = (if t = tkSEMI then 1 else if t = tkEXPLAIN then 3 else if t = tkCREATE then 4 else 2)"
  by (cases t; auto simp: nextState_def trans_def)

lemma runStates_WS: "s < 8 \<Longrightarrow> runStates s ts = runStates s (filter (\<lambda>t. t \<noteq> tkWS) ts)"
proof (induction ts arbitrary: s)
  case (Cons t ts)
  have "s \<in> {0, 1, 2, 3, 4, 5, 6, 7}" using Cons.prems by auto
  then have "nextState s t < 8" "t = tkWS \<Longrightarrow> nextState s t = s"
    by (cases t; auto simp: nextState_def trans_def)+
  then show ?case using Cons.IH [of "nextState s t"] Cons.IH [OF Cons.prems] by auto
qed simp

text \<open>Inside a statement, up to its first semicolon.\<close>

lemma runStates_normal: "set h \<inter> {tkSEMI, tkWS} = {} \<Longrightarrow> runStates 2 h = 2"
  by (induction h) auto

lemma runStates_trigger: "set h \<inter> {tkSEMI, tkWS} = {} \<Longrightarrow> runStates 5 h = 5"
  by (induction h) auto

lemma runStates_create:
  "set h \<inter> {tkSEMI, tkWS} = {} \<Longrightarrow> runStates 4 h
     = (case dropWhile (\<lambda>t. t = tkTEMP) h of [] \<Rightarrow> 4 | t # _ \<Rightarrow> if t = tkTRIGGER then 5 else 2)"
  by (induction h) (auto simp: runStates_normal runStates_trigger)

lemma runStates_explain:
  "set h \<inter> {tkSEMI, tkWS} = {} \<Longrightarrow> runStates 3 h
     = (case dropWhile (\<lambda>t. t = tkOTHER) h of [] \<Rightarrow> 3 | t # r \<Rightarrow> if t = tkCREATE then runStates 4 r else 2)"
  by (induction h) (auto simp: runStates_normal)

lemma create_trigger:
  assumes "set r \<inter> {tkSEMI, tkWS} = {}"
  shows "if (case dropWhile (\<lambda>t. t = tkTEMP) r of tkTRIGGER # _ \<Rightarrow> True | _ \<Rightarrow> False)
    then runStates 4 r = 5 else runStates 4 r \<in> {2, 3, 4}"
proof -
  have "if (case d of tkTRIGGER # _ \<Rightarrow> True | _ \<Rightarrow> False)
    then (case d of [] \<Rightarrow> 4 | t # _ \<Rightarrow> if t = tkTRIGGER then 5 else 2) = (5 :: nat)
    else (case d of [] \<Rightarrow> 4 | t # _ \<Rightarrow> if t = tkTRIGGER then 5 else 2) \<in> {2, 3, 4 :: nat}" for d
    by (cases d) (simp_all split: ctoken.split)
  then show ?thesis unfolding runStates_create [OF assms] by blast
qed

lemma runStates_header:
  assumes "set h \<inter> {tkSEMI, tkWS} = {}" and "s \<in> {0, 1}"
  shows "if triggerHeader h then runStates s h = 5 else if h = [] then runStates s h = s else runStates s h \<in> {2, 3, 4}"
proof (cases h)
  case (Cons t r)
  then have t: "t \<noteq> tkWS" "t \<noteq> tkSEMI" "set r \<inter> {tkSEMI, tkWS} = {}" using assms(1) by auto
  define d where "d = dropWhile (\<lambda>t. t = tkOTHER) r"
  have "set d \<subseteq> set r" by (auto simp: d_def dest: set_dropWhileD)
  then have d: "set d \<inter> {tkSEMI, tkWS} = {}" using t(3) by blast
  consider "t = tkEXPLAIN" | "t = tkCREATE" | "t \<noteq> tkEXPLAIN" "t \<noteq> tkCREATE" by blast
  then show ?thesis
  proof cases
    case 1
    then have run: "runStates s h = (case d of [] \<Rightarrow> 3 | t # r \<Rightarrow> if t = tkCREATE then runStates 4 r else 2)"
      using assms(2) t runStates_explain [OF t(3)] by (simp add: Cons nextState_start d_def)
    show ?thesis
    proof (cases d)
      case (Cons u q)
      then have "set q \<inter> {tkSEMI, tkWS} = {}" using d by auto
      from create_trigger [OF this] show ?thesis
        using run 1 Cons by (cases u) (simp_all add: \<open>h = t # r\<close> triggerHeader_def d_def [symmetric] split: if_splits)
    qed (use run 1 in \<open>simp add: Cons triggerHeader_def d_def [symmetric]\<close>)
  next
    case 2
    then show ?thesis using create_trigger [OF t(3)] assms(2) by (simp add: Cons nextState_start triggerHeader_def split: if_splits)
  next
    case 3
    then have "\<not> triggerHeader h" by (cases t) (simp_all add: Cons triggerHeader_def)
    then show ?thesis using 3 t assms(2) runStates_normal [OF t(3)] by (simp add: Cons nextState_start)
  qed
qed (use assms(2) in \<open>auto simp: triggerHeader_def\<close>)

text \<open>Inside a trigger definition: the state machine leaves it at the first \<^verbatim>\<open>;END;\<close>.\<close>

lemma runStates_body:
  "tkWS \<notin> set ts \<Longrightarrow> (case afterEnd ts of None \<Rightarrow> runStates 5 ts \<in> {5, 6, 7} | Some r \<Rightarrow> runStates 5 ts = runStates 1 r)"
proof (induction ts rule: afterEnd.induct)
  case (2 t ts)
  show ?case
  proof (cases "t = tkSEMI \<and> take 2 ts = [tkEND, tkSEMI]")
    case True
    then obtain r where "ts = tkEND # tkSEMI # r" by (cases ts; cases "tl ts") auto
    then show ?thesis using True by simp
  next
    case False
    then have IH: "case afterEnd ts of None \<Rightarrow> runStates 5 ts \<in> {5, 6, 7} | Some r \<Rightarrow> runStates 5 ts = runStates 1 r"
      using 2 by simp
    have "runStates 5 (t # ts) = runStates 5 ts \<or> t = tkSEMI \<and> ts \<in> {[], [tkEND]}"
      using False 2(2) by (cases "t = tkSEMI"; cases ts; cases "tl ts") auto
    then show ?thesis using False IH by (auto split: option.splits)
  qed
qed simp

lemma runStates_statements:
  assumes "tkWS \<notin> set ts"
  shows "runStates 1 ts = 1 \<longleftrightarrow> statements ts"
  using assms
proof (induction ts rule: statements.induct)
  case (1 ts)
  let ?h = "takeWhile (\<lambda>t. t \<noteq> tkSEMI) ts"
  let ?r = "dropWhile (\<lambda>t. t \<noteq> tkSEMI) ts"
  have ts: "runStates s ts = runStates (runStates s ?h) ?r" for s
    using foldl_append [of nextState s ?h ?r] by simp
  have h: "set ?h \<inter> {tkSEMI, tkWS} = {}" using 1(3) set_takeWhileD by fastforce
  have r: "tkWS \<notin> set ?r" using 1(3) set_dropWhileD by fastforce
  note hd = runStates_header [OF h, of 1]
  have spec: "statements ts \<longleftrightarrow> ts = [] \<or> ?r \<noteq> [] \<and>
      (if triggerHeader ?h then (case afterEnd ?r of None \<Rightarrow> False | Some r' \<Rightarrow> statements r') else statements (tl ?r))"
    unfolding statements.simps [of ts] Let_def by (simp only: if_bool_eq_conj) blast
  show ?case
  proof (cases ?r)
    case Nil
    then have "?h = ts" by (simp add: takeWhile_eq_all_conv)
    from hd [unfolded this] have "runStates 1 ts = 1 \<longleftrightarrow> ts = []" by (auto split: if_splits)
    then show ?thesis using spec Nil by simp
  next
    case (Cons t r')
    then have t: "t = tkSEMI" "ts \<noteq> []" using hd_dropWhile [of "\<lambda>t. t \<noteq> tkSEMI" ts] by auto
    have r': "tkWS \<notin> set r'" using r Cons by simp
    show ?thesis
    proof (cases "triggerHeader ?h")
      case True
      then have run: "runStates 1 ts = runStates 5 ?r" using hd ts [of 1] by simp
      show ?thesis
      proof (cases "afterEnd ?r")
        case (Some q)
        have "tkWS \<notin> set q" using afterEnd_set [OF Some] r by blast
        then have "runStates 1 q = 1 \<longleftrightarrow> statements q" using 1(1) [OF refl refl t(2) _ True Some] Cons by simp
        then show ?thesis using runStates_body [OF r] run spec Some True Cons t(2) by simp
      qed (use runStates_body [OF r] run spec True t(2) in auto)
    next
      case False
      then have "nextState (runStates 1 ?h) tkSEMI = 1" using hd by (auto simp: nextState_start split: if_splits)
      then have "runStates 1 ts = runStates 1 r'" using ts [of 1] Cons t(1) by simp
      then show ?thesis using 1(2) [OF refl refl t(2) _ False] r' spec False Cons t(2) by simp
    qed
  qed
qed

lemma runStates_invalid: "tkWS \<notin> set ts \<Longrightarrow> runStates 0 ts = 1 \<longleftrightarrow> ts \<noteq> [] \<and> runStates 1 ts = 1"
  using nextState_start [of 0 "hd ts"] nextState_start [of 1 "hd ts"] by (cases ts) auto

lemma completeLoop_scanAll:
  "completeLoop z s i = (case scanAll z i of None \<Rightarrow> 0 | Some ts \<Rightarrow> if runStates s ts = 1 then 1 else 0)"
proof (induction z s i rule: completeLoop.induct)
  case (1 z s i)
  then show ?case
    by (subst completeLoop.simps, subst scanAll.simps) (auto split: scan.split option.split)
qed

section \<open>Property\<close>

text \<open>C26. \<^verbatim>\<open>sqlite3_complete\<close> returns 1 exactly when every comment, string and quoted name of the text is
  terminated, the text has a token that is not white space, and the tokens form a sequence of complete
  statements: each ends at its first semicolon, except that a definition of a trigger ends at its first
  \<^verbatim>\<open>;END;\<close>.\<close>

theorem sqlite3_complete_correct:
  "sqlite3_complete z =
    (case scanAll z 0 of
       None \<Rightarrow> 0
     | Some ts \<Rightarrow>
         if filter (\<lambda>t. t \<noteq> tkWS) ts \<noteq> [] \<and> statements (filter (\<lambda>t. t \<noteq> tkWS) ts) then 1 else 0)"
proof (cases "scanAll z 0")
  case (Some ts)
  let ?ts = "filter (\<lambda>t. t \<noteq> tkWS) ts"
  have "runStates 0 ts = 1 \<longleftrightarrow> ?ts \<noteq> [] \<and> statements ?ts"
    unfolding runStates_WS [of 0 ts, simplified] using runStates_invalid [of ?ts] runStates_statements [of ?ts] by simp
  then show ?thesis by (simp only: sqlite3_complete_def completeLoop_scanAll Some option.case)
qed (simp add: sqlite3_complete_def completeLoop_scanAll)

end
