(* ===== verification/Serial.thy ===== *)
theory Serial
  imports Varint_Decode
begin

text \<open>
  The memory cells of the virtual machine and their serialization, from \<^verbatim>\<open>vdbeInt.h\<close>,
  \<^verbatim>\<open>vdbemem.c\<close> and \<^verbatim>\<open>vdbeaux.c\<close>: the serial type of a value, the length that a serial type
  implies, the routines that write and read the big-endian content, and the expansion of a
  blob with a zero-filled tail.

  A cell keeps the \<open>n\<close> bytes at \<open>z\<close> as a list, the two members of the union \<open>u\<close> that the
  modelled code uses as two fields, the bit pattern of the double \<open>r\<close>, and the number of bytes
  of the private buffer \<open>zMalloc\<close> (0 for a null pointer).
\<close>

section \<open>Memory cells\<close>

text \<open>The sizes that the code keeps in a signed 32-bit \<^verbatim>\<open>int\<close>. The comparison is made on integers, so that it is
  evaluated on binary numbers.\<close>

definition fits_int :: "nat \<Rightarrow> bool" where
  "fits_int n \<longleftrightarrow> int n < 2 ^ 31"

lemma fits_int_iff: "fits_int n \<longleftrightarrow> n < 2 ^ 31"
  by (simp add: fits_int_def)

lemma fits_int_le: "fits_int n \<Longrightarrow> m \<le> n \<Longrightarrow> fits_int m"
  by (simp add: fits_int_iff)

record Mem =
  mem_z :: bytes
  mem_r :: u64
  mem_i :: i64
  mem_nZero :: nat
  mem_flags :: u16
  mem_enc :: u8
  mem_szMalloc :: nat

abbreviation SQLITE_UTF8 :: u8 where "SQLITE_UTF8 \<equiv> 1"
abbreviation SQLITE_UTF16LE :: u8 where "SQLITE_UTF16LE \<equiv> 2"
abbreviation SQLITE_UTF16BE :: u8 where "SQLITE_UTF16BE \<equiv> 3"

abbreviation MEM_Null :: u16 where "MEM_Null \<equiv> 0x0001"
abbreviation MEM_Str :: u16 where "MEM_Str \<equiv> 0x0002"
abbreviation MEM_Int :: u16 where "MEM_Int \<equiv> 0x0004"
abbreviation MEM_Real :: u16 where "MEM_Real \<equiv> 0x0008"
abbreviation MEM_Blob :: u16 where "MEM_Blob \<equiv> 0x0010"
abbreviation MEM_Term :: u16 where "MEM_Term \<equiv> 0x0200"
abbreviation MEM_Dyn :: u16 where "MEM_Dyn \<equiv> 0x0400"
abbreviation MEM_Static :: u16 where "MEM_Static \<equiv> 0x0800"
abbreviation MEM_Ephem :: u16 where "MEM_Ephem \<equiv> 0x1000"
abbreviation MEM_Zero :: u16 where "MEM_Zero \<equiv> 0x4000"

text \<open>
  \<open>sqlite3VdbeMemGrow\<close> makes the private buffer at least \<open>n\<close> bytes long. When the allocation
  fails the cell becomes NULL. With \<open>bPreserve\<close> the bytes at \<open>z\<close> are copied, otherwise the
  caller overwrites them; in both cases \<open>n\<close> is left alone, and here the list \<open>mem_z\<close> with it.
\<close>

definition sqlite3VdbeMemGrow :: "allocs \<Rightarrow> Mem \<Rightarrow> nat \<Rightarrow> allocs \<times> Mem \<times> rcode" where
  "sqlite3VdbeMemGrow al p n =
    (let done = p \<lparr> mem_flags := mem_flags p AND NOT (MEM_Dyn OR MEM_Ephem OR MEM_Static) \<rparr> in
     if mem_szMalloc p = 0 \<or> mem_szMalloc p < n then
       case sqlite3_alloc al of
         (False, al') \<Rightarrow> (al', p \<lparr> mem_z := [], mem_szMalloc := 0, mem_flags := MEM_Null \<rparr>, SQLITE_NOMEM)
       | (True, al') \<Rightarrow> (al', done \<lparr> mem_szMalloc := max n 32 \<rparr>, SQLITE_OK)
     else (al, done, SQLITE_OK))"

definition sqlite3VdbeMemExpandBlob :: "allocs \<Rightarrow> Mem \<Rightarrow> allocs \<times> Mem \<times> rcode" where
  "sqlite3VdbeMemExpandBlob al p =
    (if mem_flags p AND MEM_Zero \<noteq> 0 then
       let nByte = length (mem_z p) + mem_nZero p;
           nByte = (if nByte \<le> 0 then 1 else nByte) in
       case sqlite3VdbeMemGrow al p nByte of
         (al', p', rc) \<Rightarrow>
           if rc \<noteq> SQLITE_OK then (al', p', SQLITE_NOMEM)
           else (al', p' \<lparr> mem_z := mem_z p' @ replicate (mem_nZero p') 0,
                           mem_flags := mem_flags p' AND NOT (MEM_Zero OR MEM_Term) \<rparr>, SQLITE_OK)
     else (al, p, SQLITE_OK))"

section \<open>Serial types\<close>

abbreviation MAX_6BYTE :: i64 where "MAX_6BYTE \<equiv> push_bit 32 0x00008000 - 1"

definition sqlite3VdbeSerialType :: "Mem \<Rightarrow> nat \<Rightarrow> u32" where
  "sqlite3VdbeSerialType pMem file_format =
    (let flags = mem_flags pMem in
     if flags AND MEM_Null \<noteq> 0 then 0
     else if flags AND MEM_Int \<noteq> 0 then
       (let i = mem_i pMem in
        if i <s 0 \<and> i <s - MAX_6BYTE then 6
        else
          let u = (if i <s 0 then - i else i) in
          if u \<le> 127 then (if i AND 1 = i \<and> 4 \<le> file_format then 8 + ucast u else 1)
          else if u \<le> 32767 then 2
          else if u \<le> 8388607 then 3
          else if u \<le> 2147483647 then 4
          else if u \<le> MAX_6BYTE then 5
          else 6)
     else if flags AND MEM_Real \<noteq> 0 then 7
     else
       let n = length (mem_z pMem);
           n = (if flags AND MEM_Zero \<noteq> 0 then n + mem_nZero pMem else n) in
       of_nat n * 2 + 12 + (if flags AND MEM_Str \<noteq> 0 then 1 else 0))"

abbreviation aSize :: "nat list" where
  "aSize \<equiv> [0, 1, 2, 3, 4, 6, 8, 8, 0, 0, 0, 0]"

definition sqlite3VdbeSerialTypeLen :: "u32 \<Rightarrow> nat" where
  "sqlite3VdbeSerialTypeLen serial_type =
    (if 12 \<le> serial_type then unat ((serial_type - 12) div 2)
     else aSize ! unat serial_type)"

section \<open>Writing and reading the content of a field\<close>

text \<open>
  \<open>wr\<close> and \<open>memcpyAt\<close> are the C store \<^verbatim>\<open>buf[i] = b\<close> and \<^verbatim>\<open>memcpy(&buf[i], z, n)\<close>. A store past
  the end of the buffer is \<open>None\<close>, as for reads.
\<close>

definition wr :: "bytes \<Rightarrow> nat \<Rightarrow> u8 \<Rightarrow> bytes option" where
  "wr buf i b = (if i < length buf then Some (buf[i := b]) else None)"

definition memcpyAt :: "bytes \<Rightarrow> nat \<Rightarrow> bytes \<Rightarrow> bytes option" where
  "memcpyAt buf i z =
    (if i + length z \<le> length buf then Some (take i buf @ z @ drop (i + length z) buf) else None)"

text \<open>The loop \<^verbatim>\<open>while( i-- ){ buf[i] = (u8)(v&0xFF); v >>= 8; }\<close> with \<open>buf\<close> at offset \<open>off\<close>.\<close>

primrec serialPutLoop :: "nat \<Rightarrow> bytes \<Rightarrow> nat \<Rightarrow> u64 \<Rightarrow> bytes option" where
  "serialPutLoop 0 buf off v = Some buf"
| "serialPutLoop (Suc i) buf off v =
    wr buf (off + i) (ucast (v AND 0xFF)) \<bind> (\<lambda>buf. serialPutLoop i buf off (drop_bit 8 v))"

definition sqlite3VdbeSerialPut :: "bytes \<Rightarrow> nat \<Rightarrow> Mem \<Rightarrow> u32 \<Rightarrow> (bytes \<times> nat) option" where
  "sqlite3VdbeSerialPut buf off pMem serial_type =
    (if serial_type \<le> 7 \<and> 0 < serial_type then
       let v = (if serial_type = 7 then mem_r pMem else mem_i pMem);
           len = sqlite3VdbeSerialTypeLen serial_type in
       serialPutLoop len buf off v \<bind> (\<lambda>buf. Some (buf, len))
     else if 12 \<le> serial_type then
       memcpyAt buf off (mem_z pMem) \<bind> (\<lambda>buf. Some (buf, length (mem_z pMem)))
     else Some (buf, 0))"

text \<open>The macros that read a big-endian integer. C computes the first three in a 32-bit \<open>int\<close>.\<close>

definition ONE_BYTE_INT :: "bytes \<Rightarrow> i64 option" where
  "ONE_BYTE_INT x = do { x0 \<leftarrow> rd x 0; Some (scast x0) }"

definition TWO_BYTE_INT :: "bytes \<Rightarrow> i64 option" where
  "TWO_BYTE_INT x = do { x0 \<leftarrow> rd x 0; x1 \<leftarrow> rd x 1; Some (scast (256 * scast x0 OR ucast x1 :: u32)) }"

definition THREE_BYTE_INT :: "bytes \<Rightarrow> i64 option" where
  "THREE_BYTE_INT x = do { x0 \<leftarrow> rd x 0; x1 \<leftarrow> rd x 1; x2 \<leftarrow> rd x 2;
     Some (scast (65536 * scast x0 OR push_bit 8 (ucast x1) OR ucast x2 :: u32)) }"

definition FOUR_BYTE_UINT :: "bytes \<Rightarrow> u32 option" where
  "FOUR_BYTE_UINT x = do { x0 \<leftarrow> rd x 0; x1 \<leftarrow> rd x 1; x2 \<leftarrow> rd x 2; x3 \<leftarrow> rd x 3;
     Some (push_bit 24 (ucast x0) OR push_bit 16 (ucast x1) OR push_bit 8 (ucast x2) OR ucast x3) }"

text \<open>
  \<open>sqlite3IsNaN\<close> is the C test \<^verbatim>\<open>x != x\<close>: on IEEE bit patterns, an exponent of all ones with a
  fraction that is not zero.
\<close>

definition sqlite3IsNaN :: "u64 \<Rightarrow> bool" where
  "sqlite3IsNaN x \<longleftrightarrow> x AND 0x7fffffffffffffff > 0x7ff0000000000000"

text \<open>
  \<open>sqlite3VdbeSerialGet\<close> returns the number of bytes read and the cell. A string or blob cell
  only points into the buffer; it is \<open>None\<close> here when its bytes would end behind the buffer.
\<close>

definition sqlite3VdbeSerialGet :: "bytes \<Rightarrow> u32 \<Rightarrow> Mem \<Rightarrow> (nat \<times> Mem) option" where
  "sqlite3VdbeSerialGet buf serial_type pMem =
    (if serial_type = 10 \<or> serial_type = 11 \<or> serial_type = 0 then
       Some (0, pMem \<lparr> mem_flags := MEM_Null \<rparr>)
     else if serial_type = 1 then
       do { i \<leftarrow> ONE_BYTE_INT buf; Some (1, pMem \<lparr> mem_i := i, mem_flags := MEM_Int \<rparr>) }
     else if serial_type = 2 then
       do { i \<leftarrow> TWO_BYTE_INT buf; Some (2, pMem \<lparr> mem_i := i, mem_flags := MEM_Int \<rparr>) }
     else if serial_type = 3 then
       do { i \<leftarrow> THREE_BYTE_INT buf; Some (3, pMem \<lparr> mem_i := i, mem_flags := MEM_Int \<rparr>) }
     else if serial_type = 4 then
       do { y \<leftarrow> FOUR_BYTE_UINT buf; Some (4, pMem \<lparr> mem_i := scast y, mem_flags := MEM_Int \<rparr>) }
     else if serial_type = 5 then
       do { lo \<leftarrow> FOUR_BYTE_UINT (drop 2 buf); hi \<leftarrow> TWO_BYTE_INT buf;
            Some (6, pMem \<lparr> mem_i := ucast lo + push_bit 32 1 * hi, mem_flags := MEM_Int \<rparr>) }
     else if serial_type = 6 \<or> serial_type = 7 then
       do { x \<leftarrow> FOUR_BYTE_UINT buf; y \<leftarrow> FOUR_BYTE_UINT (drop 4 buf);
            let x = push_bit 32 (ucast x) OR ucast y in
            Some (8, if serial_type = 6 then pMem \<lparr> mem_i := x, mem_flags := MEM_Int \<rparr>
                     else pMem \<lparr> mem_r := x, mem_flags := (if sqlite3IsNaN x then MEM_Null else MEM_Real) \<rparr>) }
     else if serial_type = 8 \<or> serial_type = 9 then
       Some (0, pMem \<lparr> mem_i := ucast (serial_type - 8), mem_flags := MEM_Int \<rparr>)
     else
       let len = unat ((serial_type - 12) div 2) in
       if length buf < len then None
       else Some (len, pMem \<lparr> mem_z := take len buf,
              mem_flags := (if serial_type AND 1 = 0 then MEM_Blob OR MEM_Ephem else MEM_Str OR MEM_Ephem) \<rparr>))"

section \<open>The value of a cell\<close>

text \<open>
  A cell may carry several representations of one value. The value that is stored is the first
  that applies of NULL, integer, real, text and blob. A real that is not a number does not occur
  in a cell (\<open>sqlite3VdbeMemSetDouble\<close> stores NULL instead), only a blob has a zero-filled tail,
  and lengths are at most \<open>SQLITE_MAX_LENGTH\<close>: \<open>memOk\<close>.
\<close>

datatype sqlvalue = VNull | VInt int | VReal u64 | VText bytes | VBlob bytes

definition memValue :: "Mem \<Rightarrow> sqlvalue" where
  "memValue m =
    (if bit (mem_flags m) 0 then VNull
     else if bit (mem_flags m) 2 then VInt (sint (mem_i m))
     else if bit (mem_flags m) 3 then VReal (mem_r m)
     else if bit (mem_flags m) 1 then VText (mem_z m)
     else VBlob (mem_z m @ (if bit (mem_flags m) 14 then replicate (mem_nZero m) 0 else [])))"

abbreviation SQLITE_MAX_LENGTH :: nat where "SQLITE_MAX_LENGTH \<equiv> 1000000000"

definition memOk :: "Mem \<Rightarrow> bool" where
  "memOk m \<longleftrightarrow>
     length (mem_z m) + (if bit (mem_flags m) 14 then mem_nZero m else 0) \<le> SQLITE_MAX_LENGTH
   \<and> (bit (mem_flags m) 3 \<longrightarrow> \<not> sqlite3IsNaN (mem_r m))
   \<and> (bit (mem_flags m) 14 \<longrightarrow> bit (mem_flags m) 4 \<and> \<not> bit (mem_flags m) 0 \<and> \<not> bit (mem_flags m) 1
        \<and> \<not> bit (mem_flags m) 2 \<and> \<not> bit (mem_flags m) 3)
   \<and> (bit (mem_flags m) 0 \<or> bit (mem_flags m) 1 \<or> bit (mem_flags m) 2 \<or> bit (mem_flags m) 3
        \<or> bit (mem_flags m) 4)"

primrec be_bytes :: "nat \<Rightarrow> u64 \<Rightarrow> bytes" where
  "be_bytes 0 v = []"
| "be_bytes (Suc k) v = be_bytes k (drop_bit 8 v) @ [ucast v]"

lemma length_be_bytes [simp]: "length (be_bytes k v) = k"
  by (induction k arbitrary: v) simp_all

lemma serialPutLoop_be:
  "off + k \<le> length buf \<Longrightarrow>
     serialPutLoop k buf off v = Some (take off buf @ be_bytes k v @ drop (off + k) buf)"
proof (induction k arbitrary: buf v)
  case (Suc k)
  have "v AND 0xFF = take_bit 8 v" by (simp add: take_bit_eq_mask mask_eq_exp_minus_1)
  then have "(ucast (v AND 0xFF) :: u8) = ucast v"
    by (auto simp: bit_simps intro: bit_word_eqI)
  then show ?case
    using Suc.prems Suc.IH [of "buf[off + k := ucast v]" "drop_bit 8 v"]
    by (simp add: wr_def drop_update_swap Cons_nth_drop_Suc [symmetric] nth_list_update)
qed simp

lemma flag_test:
  "(f :: u16) AND 0x0001 = 0 \<longleftrightarrow> \<not> bit f 0" "f AND 0x0002 = 0 \<longleftrightarrow> \<not> bit f 1"
  "f AND 0x0004 = 0 \<longleftrightarrow> \<not> bit f 2" "f AND 0x0008 = 0 \<longleftrightarrow> \<not> bit f 3"
  "f AND 0x0010 = 0 \<longleftrightarrow> \<not> bit f 4" "f AND 0x4000 = 0 \<longleftrightarrow> \<not> bit f 14"
  using and_exp_eq_0_iff_not_bit [of f 0] and_exp_eq_0_iff_not_bit [of f 1]
    and_exp_eq_0_iff_not_bit [of f 2] and_exp_eq_0_iff_not_bit [of f 3]
    and_exp_eq_0_iff_not_bit [of f 4] and_exp_eq_0_iff_not_bit [of f 14] by simp_all


text \<open>
  An integer that fits into \<open>k\<close> bits has copies of its sign bit from bit \<open>k - 1\<close> upwards, so
  that sign extension of its low bytes gives it back.
\<close>

lemma sign_bits:
  assumes "- (2 ^ m) \<le> sint (v :: i64)" "sint v < 2 ^ m" "m \<le> i" "i < 64"
  shows "bit v i = bit v m"
proof -
  have st: "signed_take_bit m (sint v) = sint v"
    using assms by (simp add: signed_take_bit_int_eq_self)
  have "bit v i = bit (sint v) i" "bit v m = bit (sint v) m"
    using assms by (auto simp: bit_sint_iff)
  moreover have "bit (sint v) i = bit (sint v) m"
    using assms(3) by (subst st [symmetric]) (simp add: bit_signed_take_bit_iff min_def)
  ultimately show ?thesis by simp
qed

lemma sint_neg_abs:
  assumes "v <s 0"
  shows "uint (- v) = - sint (v :: i64)"
proof -
  have neg: "sint v < 0" using assms by (simp add: word_sless_alt)
  have "- v = word_of_int (- sint v)" by simp
  moreover have "- sint v < 2 ^ 64" using sint_greater_eq [of v] by simp
  ultimately show ?thesis using neg by (simp only: uint_word_of_int) simp
qed


definition intRange :: "u32 \<Rightarrow> i64 \<Rightarrow> bool" where
  "intRange t i \<longleftrightarrow>
     t = 8 \<and> i = 0 \<or> t = 9 \<and> i = 1 \<or> t = 6
   \<or> (\<exists>(t', m) \<in> {(1, 7), (2, 15), (3, 23), (4, 31), (5, 47)}. t = t' \<and> \<bar>sint i\<bar> < 2 ^ m)"

lemma and_one_self: "(i :: i64) AND 1 = i \<longleftrightarrow> i = 0 \<or> i = 1"
  by (auto simp: and_one_eq mod_2_eq_odd)

lemma serialType_Int:
  assumes "\<not> bit (mem_flags m) 0" "bit (mem_flags m) 2"
  shows "intRange (sqlite3VdbeSerialType m ff) (mem_i m)"
proof -
  define i where "i = mem_i m"
  define u where "u = (if i <s 0 then - i else i)"
  have u: "uint u = \<bar>sint i\<bar>"
  proof (cases "i <s 0")
    case True
    then show ?thesis using sint_neg_abs [OF True] by (simp add: u_def word_sless_alt)
  next
    case False
    then have pos: "0 \<le> sint i" by (simp add: word_sless_alt)
    have "uint (word_of_int (sint i) :: i64) = sint i"
      using pos sint_lt [of i] by (simp only: uint_word_of_int) simp
    then show ?thesis using False pos by (simp add: u_def)
  qed
  have le: "u \<le> 127 \<longleftrightarrow> \<bar>sint i\<bar> < 2 ^ 7" "u \<le> 32767 \<longleftrightarrow> \<bar>sint i\<bar> < 2 ^ 15"
    "u \<le> 8388607 \<longleftrightarrow> \<bar>sint i\<bar> < 2 ^ 23" "u \<le> 2147483647 \<longleftrightarrow> \<bar>sint i\<bar> < 2 ^ 31"
    "u \<le> MAX_6BYTE \<longleftrightarrow> \<bar>sint i\<bar> < 2 ^ 47"
    by (auto simp: word_le_def u)
  have t: "sqlite3VdbeSerialType m ff =
      (if i <s 0 \<and> i <s - MAX_6BYTE then 6
       else if u \<le> 127 then (if i AND 1 = i \<and> 4 \<le> ff then 8 + ucast u else 1)
       else if u \<le> 32767 then 2 else if u \<le> 8388607 then 3 else if u \<le> 2147483647 then 4
       else if u \<le> MAX_6BYTE then 5 else 6)"
    using assms by (simp add: sqlite3VdbeSerialType_def Let_def flag_test i_def u_def)
  have r: "intRange 6 i" "u \<le> 127 \<Longrightarrow> intRange 1 i" "u \<le> 32767 \<Longrightarrow> intRange 2 i"
    "u \<le> 8388607 \<Longrightarrow> intRange 3 i" "u \<le> 2147483647 \<Longrightarrow> intRange 4 i" "u \<le> MAX_6BYTE \<Longrightarrow> intRange 5 i"
    unfolding le intRange_def by simp_all
  have s: "intRange (8 + ucast u) i" if "i AND 1 = i"
    using that by (auto simp: and_one_self intRange_def u_def word_sless_alt)
  show ?thesis unfolding t i_def [symmetric] using r s by (simp only: split: if_split) blast
qed

lemma be_bytes_unroll:
  "be_bytes 1 v = [ucast v]"
  "be_bytes 2 v = [ucast (drop_bit 8 v), ucast v]"
  "be_bytes 3 v = [ucast (drop_bit 16 v), ucast (drop_bit 8 v), ucast v]"
  "be_bytes 4 v = [ucast (drop_bit 24 v), ucast (drop_bit 16 v), ucast (drop_bit 8 v), ucast v]"
  "be_bytes 6 v = [ucast (drop_bit 40 v), ucast (drop_bit 32 v), ucast (drop_bit 24 v),
     ucast (drop_bit 16 v), ucast (drop_bit 8 v), ucast v]"
  "be_bytes 8 v = [ucast (drop_bit 56 v), ucast (drop_bit 48 v), ucast (drop_bit 40 v),
     ucast (drop_bit 32 v), ucast (drop_bit 24 v), ucast (drop_bit 16 v), ucast (drop_bit 8 v), ucast v]"
  by (simp_all add: numeral_eq_Suc)

lemma ONE_BYTE_INT_be:
  "(\<And>i. 7 < i \<Longrightarrow> i < 64 \<Longrightarrow> bit v i = bit v 7) \<Longrightarrow> ONE_BYTE_INT (be_bytes 1 v @ rest) = Some v"
  unfolding be_bytes_unroll ONE_BYTE_INT_def
  by (simp, rule bits_64, simp only: list.pred_inject, intro conjI TrueI; simp add: wbits)

lemma mult_256: "256 * (x :: u32) = push_bit 8 x" "65536 * (x :: u32) = push_bit 16 x"
  by (simp_all add: push_bit_eq_mult)

lemma TWO_BYTE_INT_be:
  "(\<And>i. 15 < i \<Longrightarrow> i < 64 \<Longrightarrow> bit v i = bit v 15) \<Longrightarrow> TWO_BYTE_INT (be_bytes 2 v @ rest) = Some v"
  unfolding be_bytes_unroll TWO_BYTE_INT_def
  by (simp add: mult_256, rule bits_64, simp only: list.pred_inject, intro conjI TrueI; simp add: wbits)

lemma THREE_BYTE_INT_be:
  "(\<And>i. 23 < i \<Longrightarrow> i < 64 \<Longrightarrow> bit v i = bit v 23) \<Longrightarrow> THREE_BYTE_INT (be_bytes 3 v @ rest) = Some v"
  unfolding be_bytes_unroll THREE_BYTE_INT_def
  by (simp add: mult_256, rule bits_64, simp only: list.pred_inject, intro conjI TrueI; simp add: wbits)

lemma FOUR_BYTE_UINT_be: "FOUR_BYTE_UINT (be_bytes 4 v @ rest) = Some (ucast v)"
  unfolding be_bytes_unroll FOUR_BYTE_UINT_def
  by (simp, rule bits_32, simp only: list.pred_inject, intro conjI TrueI; simp add: wbits)


section \<open>What is written for a cell, and that it is read back\<close>

definition serialBytes :: "Mem \<Rightarrow> u32 \<Rightarrow> bytes" where
  "serialBytes m t =
    (if 0 < t \<and> t \<le> 7 then be_bytes (sqlite3VdbeSerialTypeLen t) (if t = 7 then mem_r m else mem_i m)
     else if 12 \<le> t then mem_z m else [])"

definition zeroTail :: "Mem \<Rightarrow> bytes" where
  "zeroTail m = (if bit (mem_flags m) 14 then replicate (mem_nZero m) 0 else [])"

lemma serialPut_bytes:
  "off + length (serialBytes m t) \<le> length buf \<Longrightarrow>
   sqlite3VdbeSerialPut buf off m t =
     Some (take off buf @ serialBytes m t @ drop (off + length (serialBytes m t)) buf,
           length (serialBytes m t))"
  by (auto simp: sqlite3VdbeSerialPut_def serialBytes_def Let_def serialPutLoop_be memcpyAt_def)

lemma serialType_text:
  assumes "n \<le> SQLITE_MAX_LENGTH" "b \<le> 1" "t = of_nat n * 2 + 12 + of_nat b"
  shows "unat (t :: u32) = 2 * n + 12 + b" "12 \<le> t" "(t - 12) div 2 = of_nat n"
    "t AND 1 = 0 \<longleftrightarrow> b = 0"
proof -
  have t: "t = of_nat (2 * n + 12 + b)" using assms(3) by simp
  have lt: "2 * n + 12 + b < 2 ^ 32" using assms by simp
  show u: "unat t = 2 * n + 12 + b"
    using lt unfolding t by (simp only: unat_of_nat) simp
  show "12 \<le> t" unfolding word_le_nat_alt u by simp
  have d: "t - 12 = of_nat (2 * n + b)" using t by simp
  have "unat ((t - 12) div 2) = n"
    using lt assms(2) unfolding d by (simp only: unat_div unat_of_nat) simp
  then show "(t - 12) div 2 = of_nat n" using lt by (simp only: word_unat_eq_iff unat_of_nat) simp
  show "t AND 1 = 0 \<longleftrightarrow> b = 0"
    using assms(2,3) by (cases b) (auto simp: and_one_eq mod_2_eq_odd)
qed


lemma drop_be_bytes: "drop 4 (be_bytes 8 v @ rest) = be_bytes 4 v @ rest"
  "drop 2 (be_bytes 6 v @ rest) = be_bytes 4 v @ rest"
  unfolding be_bytes_unroll by simp_all

lemma take_be_bytes: "\<exists>rest'. be_bytes 8 v @ rest = be_bytes 4 (drop_bit 32 v) @ rest'"
  "\<exists>rest'. be_bytes 6 v @ rest = be_bytes 2 (drop_bit 32 v) @ rest'"
  unfolding be_bytes_unroll by simp_all

lemma eight_bytes:
  "FOUR_BYTE_UINT (be_bytes 8 v @ rest) = Some (ucast (drop_bit 32 v))"
  "FOUR_BYTE_UINT (drop 4 (be_bytes 8 v) @ rest) = Some (ucast v)"
  "push_bit 32 (ucast (ucast (drop_bit 32 v) :: u32)) OR ucast (ucast v :: u32) = (v :: u64)"
proof -
  obtain rest' where "be_bytes 8 v @ rest = be_bytes 4 (drop_bit 32 v) @ rest'"
    using take_be_bytes(1) by blast
  then show "FOUR_BYTE_UINT (be_bytes 8 v @ rest) = Some (ucast (drop_bit 32 v))"
    by (simp only: FOUR_BYTE_UINT_be)
  show "FOUR_BYTE_UINT (drop 4 (be_bytes 8 v) @ rest) = Some (ucast v)"
    using drop_be_bytes(1) [of v rest] by (simp add: FOUR_BYTE_UINT_be)
  show "push_bit 32 (ucast (ucast (drop_bit 32 v) :: u32)) OR ucast (ucast v :: u32) = (v :: u64)"
    by (rule bits_64, simp only: list.pred_inject, intro conjI TrueI; simp add: wbits)
qed

lemma six_bytes:
  assumes sg: "\<And>i. 47 < i \<Longrightarrow> i < 64 \<Longrightarrow> bit v i = bit v 47"
  shows "FOUR_BYTE_UINT (drop 2 (be_bytes 6 v @ rest)) = Some (ucast v)"
    and "\<exists>hi. TWO_BYTE_INT (be_bytes 6 v @ rest) = Some hi \<and> ucast (ucast v :: u32) + push_bit 32 1 * hi = v"
proof -
  show "FOUR_BYTE_UINT (drop 2 (be_bytes 6 v @ rest)) = Some (ucast v)"
    by (simp only: drop_be_bytes FOUR_BYTE_UINT_be)
  define hi :: i64 where "hi = signed_take_bit 15 (drop_bit 32 v)"
  have hi: "TWO_BYTE_INT (be_bytes 2 (drop_bit 32 v) @ rest') = Some hi" for rest'
    unfolding be_bytes_unroll TWO_BYTE_INT_def hi_def
    by (simp add: mult_256, rule bits_64, simp only: list.pred_inject, intro conjI TrueI; simp add: wbits sg)
  have "(ucast (ucast v :: u32) :: i64) + push_bit 32 hi = ucast (ucast v :: u32) OR push_bit 32 hi"
    by (rule disjunctive_add) (auto simp: bit_simps)
  also have "\<dots> = v"
    unfolding hi_def
    by (rule bits_64, simp only: list.pred_inject, intro conjI TrueI; simp add: wbits sg)
  finally have "ucast (ucast v :: u32) + push_bit 32 1 * hi = v"
    by (simp add: push_bit_eq_mult mult.commute)
  then show "\<exists>hi. TWO_BYTE_INT (be_bytes 6 v @ rest) = Some hi \<and> ucast (ucast v :: u32) + push_bit 32 1 * hi = v"
    using take_be_bytes(2) [of v rest] hi by auto
qed


lemma sign_bits_abs: "\<bar>sint (v :: i64)\<bar> < 2 ^ m \<Longrightarrow> m < i \<Longrightarrow> i < 64 \<Longrightarrow> bit v i = bit v m"
  by (rule sign_bits) linarith+

lemma four_signed:
  assumes "\<And>i. 31 < i \<Longrightarrow> i < 64 \<Longrightarrow> bit v i = bit v 31"
  shows "scast (ucast v :: u32) = (v :: i64)"
  by (rule bits_64, simp only: list.pred_inject, intro conjI TrueI; simp add: wbits assms)

lemma serialTypeLen_small:
  "sqlite3VdbeSerialTypeLen 0 = 0" "sqlite3VdbeSerialTypeLen 1 = 1" "sqlite3VdbeSerialTypeLen 2 = 2"
  "sqlite3VdbeSerialTypeLen 3 = 3" "sqlite3VdbeSerialTypeLen 4 = 4" "sqlite3VdbeSerialTypeLen 5 = 6"
  "sqlite3VdbeSerialTypeLen 6 = 8" "sqlite3VdbeSerialTypeLen 7 = 8" "sqlite3VdbeSerialTypeLen 8 = 0"
  "sqlite3VdbeSerialTypeLen 9 = 0"
  by (simp_all add: sqlite3VdbeSerialTypeLen_def word_le_nat_alt)

lemma serialGet_Int:
  assumes "intRange t (mem_i m)"
  shows "sqlite3VdbeSerialGet (serialBytes m t @ rest) t m0 =
    Some (sqlite3VdbeSerialTypeLen t, m0 \<lparr> mem_i := mem_i m, mem_flags := MEM_Int \<rparr>)"
proof -
  let ?v = "mem_i m"
  note sg = sign_bits_abs [of ?v]
  consider "t = 8" "?v = 0" | "t = 9" "?v = 1" | "t = 6" | "t = 1" "\<bar>sint ?v\<bar> < 2 ^ 7"
    | "t = 2" "\<bar>sint ?v\<bar> < 2 ^ 15" | "t = 3" "\<bar>sint ?v\<bar> < 2 ^ 23" | "t = 4" "\<bar>sint ?v\<bar> < 2 ^ 31"
    | "t = 5" "\<bar>sint ?v\<bar> < 2 ^ 47"
    using assms unfolding intRange_def by fast
  then show ?thesis
  proof cases
    case 3
    then show ?thesis
      by (simp add: sqlite3VdbeSerialGet_def serialBytes_def serialTypeLen_small eight_bytes Let_def)
  next
    case 4
    then show ?thesis using ONE_BYTE_INT_be [OF sg [OF 4(2)]]
      by (simp add: sqlite3VdbeSerialGet_def serialBytes_def serialTypeLen_small)
  next
    case 5
    then show ?thesis using TWO_BYTE_INT_be [OF sg [OF 5(2)]]
      by (simp add: sqlite3VdbeSerialGet_def serialBytes_def serialTypeLen_small)
  next
    case 6
    then show ?thesis using THREE_BYTE_INT_be [OF sg [OF 6(2)]]
      by (simp add: sqlite3VdbeSerialGet_def serialBytes_def serialTypeLen_small)
  next
    case 7
    then show ?thesis using four_signed [OF sg [OF 7(2)]]
      by (simp add: sqlite3VdbeSerialGet_def serialBytes_def serialTypeLen_small FOUR_BYTE_UINT_be)
  next
    case 8
    then show ?thesis using six_bytes [OF sg [OF 8(2)], of rest]
      by (auto simp: sqlite3VdbeSerialGet_def serialBytes_def serialTypeLen_small)
  qed (simp_all add: sqlite3VdbeSerialGet_def serialBytes_def serialTypeLen_small)
qed


lemma serialType_NotNum:
  assumes "memOk m" "\<not> bit (mem_flags m) 0" "\<not> bit (mem_flags m) 2" "\<not> bit (mem_flags m) 3"
  defines "n \<equiv> length (mem_z m @ zeroTail m)" and "b \<equiv> of_bool (bit (mem_flags m) 1)"
  shows "n \<le> SQLITE_MAX_LENGTH" "b \<le> (1 :: nat)"
    "sqlite3VdbeSerialType m ff = of_nat n * 2 + 12 + of_nat b"
  using assms by (auto simp: sqlite3VdbeSerialType_def Let_def flag_test zeroTail_def memOk_def)

lemma serialType_textual:
  assumes "memOk m" "\<not> bit (mem_flags m) 0" "\<not> bit (mem_flags m) 2" "\<not> bit (mem_flags m) 3"
    "t = sqlite3VdbeSerialType m ff"
  shows "12 \<le> t" "sqlite3VdbeSerialTypeLen t = length (mem_z m @ zeroTail m)"
    "unat ((t - 12) div 2) = length (mem_z m @ zeroTail m)"
    "t AND 1 = 0 \<longleftrightarrow> \<not> bit (mem_flags m) 1" "serialBytes m t = mem_z m"
    "t \<notin> {0, 1, 2, 3, 4, 5, 6, 7, 8, 9, 10, 11}"
    "unat t = 2 * length (mem_z m @ zeroTail m) + 12 + of_bool (bit (mem_flags m) 1)"
proof -
  note nn = serialType_NotNum [OF assms(1-4)]
  note tt = serialType_text [OF nn(1,2) trans [OF assms(5) nn(3)]]
  show "12 \<le> t" by (rule tt)
  show "unat ((t - 12) div 2) = length (mem_z m @ zeroTail m)"
    unfolding tt(3) using nn(1) by (simp only: unat_of_nat) simp
  then show "sqlite3VdbeSerialTypeLen t = length (mem_z m @ zeroTail m)"
    using tt(2) by (simp add: sqlite3VdbeSerialTypeLen_def)
  show "t AND 1 = 0 \<longleftrightarrow> \<not> bit (mem_flags m) 1" unfolding tt(4) by simp
  have "\<not> t \<le> 7" using tt(2) by (auto simp: word_le_nat_alt)
  then show "serialBytes m t = mem_z m" using tt(2) by (simp add: serialBytes_def)
  show "t \<notin> {0, 1, 2, 3, 4, 5, 6, 7, 8, 9, 10, 11}" using tt(2) by (auto simp: word_le_nat_alt)
  show "unat t = 2 * length (mem_z m @ zeroTail m) + 12 + of_bool (bit (mem_flags m) 1)"
    by (rule tt)
qed

lemma zeroTail_Nil:
  "memOk m \<Longrightarrow> bit (mem_flags m) 0 \<or> bit (mem_flags m) 1 \<or> bit (mem_flags m) 2 \<or> bit (mem_flags m) 3 \<Longrightarrow>
   zeroTail m = []"
  by (auto simp: memOk_def zeroTail_def)

lemma serialType_small:
  assumes "bit (mem_flags m) 0 \<or> bit (mem_flags m) 2 \<or> bit (mem_flags m) 3"
  shows "\<not> 12 \<le> sqlite3VdbeSerialType m ff"
proof -
  have "\<not> 12 \<le> t" if "intRange t i" for t i
    using that by (auto simp: intRange_def word_le_nat_alt)
  then show ?thesis
    using assms serialType_Int [of m ff]
    by (cases "bit (mem_flags m) 0"; cases "bit (mem_flags m) 2")
      (auto simp: sqlite3VdbeSerialType_def flag_test word_le_nat_alt)
qed

lemma length_serialBytes_small:
  assumes "\<not> 12 \<le> t"
  shows "length (serialBytes m t) = sqlite3VdbeSerialTypeLen t"
proof (cases "0 < t \<and> t \<le> 7")
  case False
  then have "unat t \<in> {0, 8, 9, 10, 11}"
    using assms by (auto simp: word_le_nat_alt word_less_nat_alt)
  then show ?thesis using assms False by (auto simp: serialBytes_def sqlite3VdbeSerialTypeLen_def)
qed (simp add: serialBytes_def)

lemma length_serialBytes:
  assumes "memOk m" "t = sqlite3VdbeSerialType m ff"
  shows "length (serialBytes m t @ zeroTail m) = sqlite3VdbeSerialTypeLen t"
proof (cases "bit (mem_flags m) 0 \<or> bit (mem_flags m) 2 \<or> bit (mem_flags m) 3")
  case True
  with assms show ?thesis
    using serialType_small [OF True, of ff] zeroTail_Nil [OF assms(1)] by (auto simp: length_serialBytes_small)
next
  case False
  then show ?thesis
    using serialType_textual [OF assms(1) _ _ _ assms(2)] by simp
qed

text \<open>
  The header fixes the length of a field, so what \<open>sqlite3VdbeSerialGet\<close> reads back does not
  depend on what follows it; the zero-filled tail that the writer leaves out is read as if it
  had been written.
\<close>

lemma serialGet_bytes:
  assumes ok: "memOk m" and t: "t = sqlite3VdbeSerialType m ff"
  obtains m' where "sqlite3VdbeSerialGet (serialBytes m t @ zeroTail m @ rest) t m0 = Some (sqlite3VdbeSerialTypeLen t, m')"
    "memValue m' = memValue m"
proof -
  let ?f = "mem_flags m"
  note z = zeroTail_Nil [OF ok]
  consider "bit ?f 0" | "\<not> bit ?f 0" "bit ?f 2" | "\<not> bit ?f 0" "\<not> bit ?f 2" "bit ?f 3"
    | "\<not> bit ?f 0" "\<not> bit ?f 2" "\<not> bit ?f 3" by blast
  then show thesis
  proof cases
    case 1
    then have "t = 0" by (simp add: t sqlite3VdbeSerialType_def flag_test)
    with 1 show thesis
      by (intro that [of "m0 \<lparr> mem_flags := MEM_Null \<rparr>"])
        (simp_all add: sqlite3VdbeSerialGet_def serialTypeLen_small memValue_def)
  next
    case 2
    then have "intRange t (mem_i m)" unfolding t by (intro serialType_Int)
    from serialGet_Int [OF this] 2 z show thesis
      by (intro that [of "m0 \<lparr> mem_i := mem_i m, mem_flags := MEM_Int \<rparr>"])
        (simp_all add: memValue_def bit_simps)
  next
    case 3
    then have "t = 7" by (simp add: t sqlite3VdbeSerialType_def flag_test)
    with 3 z ok show thesis
      by (intro that [of "m0 \<lparr> mem_r := mem_r m, mem_flags := MEM_Real \<rparr>"])
        (simp_all add: sqlite3VdbeSerialGet_def serialTypeLen_small memValue_def serialBytes_def
          eight_bytes Let_def memOk_def)
  next
    case 4
    let ?n = "length (mem_z m @ zeroTail m)"
    let ?m' = "m0 \<lparr> mem_z := mem_z m @ zeroTail m,
      mem_flags := (if bit ?f 1 then MEM_Str OR MEM_Ephem else MEM_Blob OR MEM_Ephem) \<rparr>"
    note tt = serialType_textual [OF ok 4 t]
    have "sqlite3VdbeSerialGet (serialBytes m t @ zeroTail m @ rest) t m0 = Some (sqlite3VdbeSerialTypeLen t, ?m')"
      using tt by (simp add: sqlite3VdbeSerialGet_def Let_def)
    moreover have "memValue ?m' = memValue m"
      using 4 z ok by (auto simp: memValue_def bit_simps zeroTail_def)
    ultimately show thesis by (rule that)
  qed
qed


section \<open>Type of a cell that is read\<close>

text \<open>
  A cell that comes out of a record has exactly one type, and a real in it is a number.
\<close>

definition memTyped :: "Mem \<Rightarrow> bool" where
  "memTyped m \<longleftrightarrow>
     mem_flags m = MEM_Null \<or> mem_flags m = MEM_Int \<or> mem_flags m = MEM_Real \<and> \<not> sqlite3IsNaN (mem_r m)
   \<or> mem_flags m = MEM_Str OR MEM_Ephem \<or> mem_flags m = MEM_Blob OR MEM_Ephem"

lemma bytes_read_None:
  "ONE_BYTE_INT x = None \<longleftrightarrow> length x < 1" "TWO_BYTE_INT x = None \<longleftrightarrow> length x < 2"
  "THREE_BYTE_INT x = None \<longleftrightarrow> length x < 3" "FOUR_BYTE_UINT x = None \<longleftrightarrow> length x < 4"
  unfolding ONE_BYTE_INT_def TWO_BYTE_INT_def THREE_BYTE_INT_def FOUR_BYTE_UINT_def
  by (auto simp: rd_def)

lemma serial_types:
  "t \<in> {1, 2, 3, 4, 5, 6, 7} \<or> t \<in> {0, 8, 9, 10, 11} \<or> 12 \<le> (t :: u32)"
proof (cases "12 \<le> t")
  case False
  then have "unat t \<in> unat ` ({1, 2, 3, 4, 5, 6, 7} \<union> {0, 8, 9, 10, 11 :: u32})"
    by (simp add: word_le_nat_alt) presburger
  then show ?thesis by (auto simp: word_unat_eq_iff)
qed simp

lemma serialGet_None:
  "sqlite3VdbeSerialGet buf t m0 = None \<longleftrightarrow> length buf < sqlite3VdbeSerialTypeLen t"
proof -
  consider "t \<in> {1, 2, 3, 4, 5, 6, 7}" | "t \<in> {0, 8, 9, 10, 11}" | "12 \<le> t"
    using serial_types by blast
  then show ?thesis
  proof cases
    case 1
    then show ?thesis
      by (auto simp: sqlite3VdbeSerialGet_def serialTypeLen_small bytes_read_None Let_def bind_eq_None_conv)
  next
    case 2
    then show ?thesis
      by (auto simp: sqlite3VdbeSerialGet_def sqlite3VdbeSerialTypeLen_def word_le_nat_alt)
  next
    case 3
    then have "t \<notin> {0, 1, 2, 3, 4, 5, 6, 7, 8, 9, 10, 11}" by (auto simp: word_le_nat_alt)
    with 3 show ?thesis by (auto simp: sqlite3VdbeSerialGet_def sqlite3VdbeSerialTypeLen_def Let_def)
  qed
qed

lemma serialGet_Some:
  assumes "sqlite3VdbeSerialGet buf t m0 = Some (n, m)"
  shows "n = sqlite3VdbeSerialTypeLen t" "memTyped m"
proof -
  consider "t \<in> {1, 2, 3, 4, 5, 6, 7}" | "t \<in> {0, 8, 9, 10, 11}" | "12 \<le> t"
    using serial_types by blast
  then have "n = sqlite3VdbeSerialTypeLen t \<and> memTyped m"
  proof cases
    case 1
    with assms show ?thesis
      by (auto simp: sqlite3VdbeSerialGet_def serialTypeLen_small bind_eq_Some_conv Let_def memTyped_def)
  next
    case 2
    with assms show ?thesis
      by (auto simp: sqlite3VdbeSerialGet_def sqlite3VdbeSerialTypeLen_def word_le_nat_alt memTyped_def)
  next
    case 3
    then have "t \<notin> {0, 1, 2, 3, 4, 5, 6, 7, 8, 9, 10, 11}" by (auto simp: word_le_nat_alt)
    with 3 assms show ?thesis
      by (auto simp: sqlite3VdbeSerialGet_def sqlite3VdbeSerialTypeLen_def Let_def memTyped_def split: if_splits)
  qed
  then show "n = sqlite3VdbeSerialTypeLen t" "memTyped m" by simp_all
qed

text \<open>C33. \<open>sqlite3VdbeSerialGet\<close> on any bytes and any serial type, reserved ones included: it reads
  exactly the number of bytes that \<open>sqlite3VdbeSerialTypeLen\<close> gives, it leaves the buffer only if
  the buffer is shorter than that, and the cell it fills has exactly one type, with a real that is
  a number.\<close>

theorem sqlite3VdbeSerialGet_typed:
  "case sqlite3VdbeSerialGet buf t m0 of
     None \<Rightarrow> length buf < sqlite3VdbeSerialTypeLen t
   | Some (n, m) \<Rightarrow> n = sqlite3VdbeSerialTypeLen t \<and> n \<le> length buf \<and> memTyped m"
proof (cases "sqlite3VdbeSerialGet buf t m0")
  case None
  then show ?thesis using serialGet_None [of buf t m0] by simp
next
  case (Some x)
  then have "\<not> length buf < sqlite3VdbeSerialTypeLen t" using serialGet_None [of buf t m0] by auto
  with Some show ?thesis using serialGet_Some [of buf t m0] by (cases x) auto
qed

end
