(* ===== verification/Vdbe_Record.thy ===== *)
theory Vdbe_Record
  imports Serial
begin

text \<open>
  The record format, from \<^verbatim>\<open>vdbe.c\<close> and \<^verbatim>\<open>vdbeaux.c\<close>: the opcode that builds a record from a
  row of registers and the routine that takes a record apart.

  \<open>OP_MakeRecord\<close> first walks over the registers from the last to the first to find the size of
  the header and of the content, then allocates the output register, then writes the header and
  the content with two running offsets into the same buffer. Both passes are modelled with the
  offsets the code keeps; a store outside the buffer makes the whole opcode \<open>None\<close>. The registers
  are those the opcode finds once the column affinities are applied. The bytes of the fresh
  buffer are an argument, \<open>heap\<close>, as they are whatever the allocator returns.
\<close>

section \<open>OP_MakeRecord\<close>

record recScan =
  rs_alloc :: allocs
  rs_fields :: "Mem list"
  rs_mallocFailed :: bool
  rs_nData :: nat
  rs_nHdr :: nat
  rs_nZero :: nat

text \<open>
  One turn of the first loop. The return code of \<open>sqlite3VdbeMemExpandBlob\<close> is dropped, as in the
  code; the failed allocation has set \<open>db->mallocFailed\<close>. The number of zero bytes at the end of the
  record is a signed int, and an addition that overflows it has no defined result in C: \<open>None\<close>.
\<close>

definition recordScanField :: "nat \<Rightarrow> Mem \<Rightarrow> recScan \<Rightarrow> recScan option" where
  "recordScanField file_format pRec s =
    (let serial_type = sqlite3VdbeSerialType pRec file_format;
         len = sqlite3VdbeSerialTypeLen serial_type;
         nHdr = rs_nHdr s + (if serial_type \<le> 127 then 1 else sqlite3VarintLen (ucast serial_type)) in
     if mem_flags pRec AND MEM_Zero \<noteq> 0 then
       if rs_nData s \<noteq> 0 then
         case sqlite3VdbeMemExpandBlob (rs_alloc s) pRec of
           (al, pRec, rc) \<Rightarrow>
             Some (s \<lparr> rs_alloc := al, rs_fields := pRec # rs_fields s,
                 rs_mallocFailed := (rs_mallocFailed s \<or> rc = SQLITE_NOMEM),
                 rs_nData := rs_nData s + len, rs_nHdr := nHdr \<rparr>)
       else if \<not> fits_int (rs_nZero s + mem_nZero pRec) then None
       else
         Some (s \<lparr> rs_fields := pRec # rs_fields s, rs_nZero := rs_nZero s + mem_nZero pRec,
             rs_nData := rs_nData s + (len - mem_nZero pRec), rs_nHdr := nHdr \<rparr>)
     else
       Some (s \<lparr> rs_fields := pRec # rs_fields s, rs_nData := rs_nData s + len, rs_nHdr := nHdr \<rparr>))"

primrec recordScan :: "nat \<Rightarrow> allocs \<Rightarrow> Mem list \<Rightarrow> recScan option" where
  "recordScan file_format al [] =
     Some \<lparr> rs_alloc = al, rs_fields = [], rs_mallocFailed = False, rs_nData = 0, rs_nHdr = 0, rs_nZero = 0 \<rparr>"
| "recordScan file_format al (pRec # rest) = do { s \<leftarrow> recordScan file_format al rest; recordScanField file_format pRec s }"

definition recordHdrSize :: "nat \<Rightarrow> nat" where
  "recordHdrSize nHdr =
    (if nHdr \<le> 126 then nHdr + 1
     else
       let nVarint = sqlite3VarintLen (of_nat nHdr);
           nHdr = nHdr + nVarint in
       if nVarint < sqlite3VarintLen (of_nat nHdr) then nHdr + 1 else nHdr)"

text \<open>The second loop: \<open>i\<close> runs over the header and \<open>j\<close> over the content.\<close>

primrec recordWrite :: "nat \<Rightarrow> Mem list \<Rightarrow> bytes \<Rightarrow> nat \<Rightarrow> nat \<Rightarrow> (bytes \<times> nat \<times> nat) option" where
  "recordWrite file_format [] buf i j = Some (buf, i, j)"
| "recordWrite file_format (pRec # rest) buf i j =
    (let serial_type = sqlite3VdbeSerialType pRec file_format;
         hdr = putVarint32 serial_type in
     do { buf \<leftarrow> memcpyAt buf i hdr;
          (buf, n) \<leftarrow> sqlite3VdbeSerialPut buf j pRec serial_type;
          recordWrite file_format rest buf (i + length hdr) (j + n) })"

record mkState =
  mk_alloc :: allocs
  mk_fields :: "Mem list"
  mk_out :: Mem
  mk_mallocFailed :: bool

definition OP_MakeRecord :: "(nat \<Rightarrow> u8) \<Rightarrow> nat \<Rightarrow> nat \<Rightarrow> mkState \<Rightarrow> (mkState \<times> rcode) option" where
  "OP_MakeRecord heap limit file_format p = do {
     s \<leftarrow> recordScan file_format (mk_alloc p) (mk_fields p);
     let nHdr = recordHdrSize (rs_nHdr s);
     let nByte = nHdr + rs_nData s;
     let p = p \<lparr> mk_alloc := rs_alloc s, mk_fields := rs_fields s,
                 mk_mallocFailed := (mk_mallocFailed p \<or> rs_mallocFailed s) \<rparr>;
     if limit < nByte then Some (p, SQLITE_TOOBIG)
     else
       case sqlite3VdbeMemGrow (mk_alloc p) (mk_out p) nByte of
         (al, pOut, rc) \<Rightarrow>
           if rc \<noteq> SQLITE_OK then
             Some (p \<lparr> mk_alloc := al, mk_out := pOut, mk_mallocFailed := True \<rparr>, SQLITE_NOMEM)
           else
             let zNewRecord = map heap [0..<mem_szMalloc pOut];
                 hdr = putVarint32 (of_nat nHdr) in
             do { buf \<leftarrow> memcpyAt zNewRecord 0 hdr;
                  (buf, i, j) \<leftarrow> recordWrite file_format (mk_fields p) buf (length hdr) nHdr;
                  let pOut = pOut \<lparr> mem_z := take nByte buf, mem_flags := MEM_Blob, mem_enc := SQLITE_UTF8 \<rparr>;
                      pOut = (if rs_nZero s \<noteq> 0
                              then pOut \<lparr> mem_nZero := rs_nZero s, mem_flags := mem_flags pOut OR MEM_Zero \<rparr>
                              else pOut) in
                  Some (p \<lparr> mk_alloc := al, mk_out := pOut \<rparr>, SQLITE_OK) }
   }"

section \<open>Taking a record apart\<close>

text \<open>
  The cells of the unpacked record are given as they are before the call; the loop stops when
  the header, the cells or the key is used up. The C variable \<open>d\<close> is a signed int, so a header
  size from \<open>2 ^ 31\<close> on, which no record has, makes it a negative offset: \<open>None\<close>.
\<close>

primrec recordUnpackLoop :: "Mem list \<Rightarrow> u8 \<Rightarrow> bytes \<Rightarrow> nat \<Rightarrow> nat \<Rightarrow> nat \<Rightarrow> nat \<Rightarrow> Mem list option" where
  "recordUnpackLoop [] enc aKey nKey szHdr idx d = Some []"
| "recordUnpackLoop (pMem # cells) enc aKey nKey szHdr idx d =
    (if idx < szHdr \<and> d \<le> nKey then
       do { (n, serial_type) \<leftarrow> getVarint32 (drop idx aKey);
            (len, pMem) \<leftarrow> sqlite3VdbeSerialGet (drop d aKey) serial_type (pMem \<lparr> mem_enc := enc \<rparr>);
            rest \<leftarrow> recordUnpackLoop cells enc aKey nKey szHdr (idx + n) (d + len);
            Some (pMem # rest) }
     else Some [])"

definition sqlite3VdbeRecordUnpack :: "u8 \<Rightarrow> Mem list \<Rightarrow> nat \<Rightarrow> bytes \<Rightarrow> Mem list option" where
  "sqlite3VdbeRecordUnpack enc cells nKey aKey =
    do { (idx, szHdr) \<leftarrow> getVarint32 aKey;
         if 2 ^ 31 \<le> unat szHdr then None
         else recordUnpackLoop cells enc aKey nKey (unat szHdr) idx (unat szHdr) }"

section \<open>Header and content of a row of registers\<close>

definition fieldHdr :: "nat \<Rightarrow> Mem \<Rightarrow> bytes" where
  "fieldHdr ff m = putVarint32 (sqlite3VdbeSerialType m ff)"

definition fieldBody :: "nat \<Rightarrow> Mem \<Rightarrow> bytes" where
  "fieldBody ff m = serialBytes m (sqlite3VdbeSerialType m ff)"

abbreviation hdrBytes :: "nat \<Rightarrow> Mem list \<Rightarrow> bytes" where
  "hdrBytes ff ms \<equiv> concat (map (fieldHdr ff) ms)"

abbreviation bodyBytes :: "nat \<Rightarrow> Mem list \<Rightarrow> bytes" where
  "bodyBytes ff ms \<equiv> concat (map (fieldBody ff) ms)"

abbreviation wholeBytes :: "nat \<Rightarrow> Mem list \<Rightarrow> bytes" where
  "wholeBytes ff ms \<equiv> concat (map (\<lambda>m. fieldBody ff m @ zeroTail m) ms)"

lemma recordWrite_bytes:
  "\<lbrakk>length (hdrBytes ff ms) \<le> length X; length (bodyBytes ff ms) \<le> length Y\<rbrakk> \<Longrightarrow>
   recordWrite ff ms (H @ X @ B @ Y) (length H) (length (H @ X @ B)) =
     Some (H @ hdrBytes ff ms @ drop (length (hdrBytes ff ms)) X @ B @ bodyBytes ff ms
             @ drop (length (bodyBytes ff ms)) Y,
           length (H @ hdrBytes ff ms), length (H @ X @ B @ bodyBytes ff ms))"
proof (induction ms arbitrary: H X B Y)
  case (Cons m ms)
  let ?h = "fieldHdr ff m" and ?b = "fieldBody ff m"
  let ?X = "drop (length ?h) X" and ?Y = "drop (length ?b) Y"
  have hdr: "memcpyAt (H @ X @ B @ Y) (length H) ?h = Some ((H @ ?h @ ?X @ B) @ Y)"
    using Cons.prems by (simp add: memcpyAt_def)
  have body: "sqlite3VdbeSerialPut ((H @ ?h @ ?X @ B) @ Y) (length (H @ X @ B)) m (sqlite3VdbeSerialType m ff) =
      Some ((H @ ?h) @ ?X @ (B @ ?b) @ ?Y, length ?b)"
    using Cons.prems by (subst serialPut_bytes) (simp_all add: fieldBody_def)
  have "recordWrite ff ms ((H @ ?h) @ ?X @ (B @ ?b) @ ?Y) (length (H @ ?h)) (length ((H @ ?h) @ ?X @ (B @ ?b)))
    = Some ((H @ ?h) @ hdrBytes ff ms @ drop (length (hdrBytes ff ms)) ?X @ (B @ ?b) @ bodyBytes ff ms
             @ drop (length (bodyBytes ff ms)) ?Y,
           length ((H @ ?h) @ hdrBytes ff ms), length ((H @ ?h) @ ?X @ (B @ ?b) @ bodyBytes ff ms))"
    by (rule Cons.IH) (use Cons.prems in simp_all)
  moreover have "length ((H @ ?h) @ ?X @ (B @ ?b)) = length (H @ X @ B) + length ?b"
    using Cons.prems by simp
  ultimately show ?case
    using Cons.prems hdr body by (simp add: fieldHdr_def [symmetric] Let_def ac_simps)
qed simp

section \<open>The sizes found by the first pass\<close>

text \<open>The length of a varint is the number of seven-bit groups of its value.\<close>

lemma drop_bit_unat: "drop_bit n (v :: u64) = 0 \<longleftrightarrow> unat v < 2 ^ n"
  by (simp only: word_unat_eq_iff unat_drop_bit_eq unsigned_0) (simp add: drop_bit_eq_div div_eq_0_iff)

lemma varintLen_pos: "1 \<le> sqlite3VarintLen v"
  using putVarintBuf_length [of v] by (cases "putVarintBuf v") (simp_all add: varintLen_eq length_putVarint)

lemma varintLen_iff:
  assumes "0 < n" "n < 9"
  shows "sqlite3VarintLen v \<le> n \<longleftrightarrow> unat v < 2 ^ (7 * n)"
proof
  assume "unat v < 2 ^ (7 * n)"
  with assms show "sqlite3VarintLen v \<le> n" by (intro varintLen_le) (simp_all add: drop_bit_unat)
next
  assume l: "sqlite3VarintLen v \<le> n"
  have "varint_ref 0 0 (sqlite3PutVarint v) = Some (sqlite3VarintLen v, v)"
    using varint_ref_putVarint [of v "[]"] by (simp add: varintLen_eq)
  then have "drop_bit (7 * sqlite3VarintLen v) v = 0"
    using varint_ref_bounds [of 0 0 "sqlite3PutVarint v" "sqlite3VarintLen v" v] l assms by simp
  then have "unat v < 2 ^ (7 * sqlite3VarintLen v)" by (simp add: drop_bit_unat)
  also have "\<dots> \<le> 2 ^ (7 * n)" using l by (intro power_increasing) simp_all
  finally show "unat v < 2 ^ (7 * n)" .
qed

lemma varint_small: "x \<le> 127 \<Longrightarrow> sqlite3VarintLen (ucast (x :: u32)) = 1"
  using varintLen_iff [of 1 "ucast x"] varintLen_pos [of "ucast x"]
  by (simp add: word_le_nat_alt unsigned_ucast_eq take_bit_eq_mod)

lemma nHdr_field:
  "(if t \<le> 127 then 1 else sqlite3VarintLen (ucast t)) = length (putVarint32 t)"
  by (simp add: varint_small putVarint32_eq varintLen_eq [symmetric])

text \<open>
  The size of the header counts the bytes of its own varint. The code adds the length of the
  varint of the types alone and corrects it once if that moved the sum over a boundary.
\<close>

lemma varintLen_less: "n < 2 ^ 35 \<Longrightarrow> sqlite3VarintLen (of_nat n) \<le> 5"
  by (subst varintLen_iff) (simp_all add: unat_of_nat)

lemma recordHdrSize_fix:
  assumes "n \<le> 2 ^ 31"
  shows "recordHdrSize n = n + sqlite3VarintLen (of_nat (recordHdrSize n))"
proof (cases "n \<le> 126")
  case True
  then have "unat (of_nat (n + 1) :: u64) = n + 1" by (simp only: unat_of_nat) simp
  with True have "sqlite3VarintLen (of_nat (n + 1)) \<le> 1"
    by (subst varintLen_iff) simp_all
  then have l: "sqlite3VarintLen (of_nat (n + 1)) = 1"
    using varintLen_pos [of "of_nat (n + 1)"] by linarith
  have e: "recordHdrSize n = n + 1" using True by (simp add: recordHdrSize_def)
  show ?thesis unfolding e l ..
next
  case False
  let ?len = "\<lambda>n. sqlite3VarintLen (of_nat n)"
  define v where "v = ?len n"
  have v: "1 \<le> v" "v \<le> 5" using varintLen_pos varintLen_less [of n] assms by (simp_all add: v_def)
  have un: "unat (of_nat k :: u64) = k" if "k \<le> 2 ^ 31 + 10" for k
    using that by (simp add: unat_of_nat)
  have iff: "?len k \<le> m \<longleftrightarrow> k < 2 ^ (7 * m)" if "k \<le> 2 ^ 31 + 10" "0 < m" "m < 9" for k m
    using that by (simp add: varintLen_iff un)
  have n: "n < 2 ^ (7 * v)" using iff [of n v] assms v by (simp add: v_def)
  have "v = 1 \<or> v = 2 \<or> v = 3 \<or> v = 4 \<or> v = 5" using v by linarith
  then have up: "2 ^ (7 * v) + v + 1 < (2 :: nat) ^ (7 * (v + 1))" by auto
  have lo: "v \<le> ?len k" if "n \<le> k" "k \<le> n + v + 1" for k
  proof (rule ccontr)
    assume "\<not> v \<le> ?len k"
    then have "1 < v" "?len k \<le> v - 1" using varintLen_pos [of "of_nat k"] by linarith+
    with v that assms iff [of k "v - 1"] have "k < 2 ^ (7 * (v - 1))" by auto
    with that have "n < 2 ^ (7 * (v - 1))" by simp
    with iff [of n "v - 1"] assms v \<open>1 < v\<close> have "v \<le> v - 1" by (auto simp: v_def)
    with \<open>1 < v\<close> show False by linarith
  qed
  have hi: "?len k \<le> v + 1" if "n \<le> k" "k \<le> n + v + 1" for k
    using iff [of k "v + 1"] that n up v assms by simp
  show ?thesis
  proof (cases "v < ?len (n + v)")
    case True
    then have "\<not> n + v < 2 ^ (7 * v)" using iff [of "n + v" v] assms v by simp
    then have "\<not> ?len (n + v + 1) \<le> v" using iff [of "n + v + 1" v] assms v by simp
    then have "?len (n + v + 1) = v + 1" using hi [of "n + v + 1"] by simp
    with True False show ?thesis by (simp add: recordHdrSize_def Let_def v_def [symmetric])
  next
    case nt: False
    then have "?len (n + v) = v" using lo [of "n + v"] by simp
    with nt False show ?thesis by (simp add: recordHdrSize_def Let_def v_def [symmetric])
  qed
qed

text \<open>
  Expanding a blob keeps its value, its serial type and so its place in the record. When the
  allocation fails the register becomes NULL, which needs no more room than before.
\<close>

definition sameField :: "nat \<Rightarrow> Mem \<Rightarrow> Mem \<Rightarrow> bool" where
  "sameField ff m m' \<longleftrightarrow> memOk m' \<and> memValue m' = memValue m \<and> fieldHdr ff m' = fieldHdr ff m"

lemma fieldBody_blob:
  "memOk m \<Longrightarrow> bit (mem_flags m) 14 \<Longrightarrow> fieldBody ff m = mem_z m"
  by (auto simp: fieldBody_def memOk_def intro!: serialType_textual(5) [OF _ _ _ _ refl])

lemma expandBlob_cases:
  assumes "memOk m" "bit (mem_flags m) 14" "sqlite3VdbeMemExpandBlob al m = (al', m', rc)"
  obtains "rc = SQLITE_OK" "sameField ff m m'" "zeroTail m' = []" "fieldBody ff m' = fieldBody ff m @ zeroTail m"
  | "rc = SQLITE_NOMEM" "mem_flags m' = MEM_Null"
proof -
  let ?mask = "NOT (MEM_Dyn OR MEM_Ephem OR MEM_Static) :: u16" and ?mask' = "NOT (MEM_Zero OR MEM_Term) :: u16"
  consider "rc = SQLITE_NOMEM" "mem_flags m' = MEM_Null"
    | "rc = SQLITE_OK" "mem_flags m' = (mem_flags m AND ?mask) AND ?mask'" "mem_z m' = mem_z m @ zeroTail m"
    using assms(2,3)
    by (auto simp: sqlite3VdbeMemExpandBlob_def flag_test Let_def sqlite3VdbeMemGrow_def zeroTail_def
        split: if_splits prod.splits bool.splits)
  then show thesis
  proof cases
    case 1
    then show thesis by (rule that(2))
  next
    case 2
    have f: "\<not> bit (mem_flags m') 14" "bit (mem_flags m') 4" "\<not> bit (mem_flags m') 0" "\<not> bit (mem_flags m') 1"
      "\<not> bit (mem_flags m') 2" "\<not> bit (mem_flags m') 3"
      using assms(1,2) 2(2) by (simp_all add: memOk_def bit_simps)
    have g: "\<not> bit (mem_flags m) 0" "\<not> bit (mem_flags m) 1" "\<not> bit (mem_flags m) 2" "\<not> bit (mem_flags m) 3"
      using assms(1,2) by (simp_all add: memOk_def)
    have ok: "memOk m'" and z: "zeroTail m' = []"
      using assms(1,2) f 2(3) by (simp_all add: memOk_def zeroTail_def)
    have t: "sqlite3VdbeSerialType m' ff = sqlite3VdbeSerialType m ff"
      using serialType_NotNum(3) [OF ok] serialType_NotNum(3) [OF assms(1)] f g 2(3) z by simp
    show thesis
    proof (rule that(1))
      show "sameField ff m m'"
        using ok t f g 2(3) assms(2) by (simp add: sameField_def memValue_def fieldHdr_def zeroTail_def)
      show "fieldBody ff m' = fieldBody ff m @ zeroTail m"
        using serialType_textual(5) [OF ok _ _ _ refl] f fieldBody_blob [OF assms(1,2)] 2(3)
        by (simp add: fieldBody_def)
    qed (use 2 z in simp_all)
  qed
qed

text \<open>
  What the first pass establishes, whatever the outcome of its allocations: the room it counts is
  enough for what the second pass writes. When no allocation failed the room is exact, the
  registers keep their values, and the content that is not written is the zero-filled end.
\<close>

definition scanOk :: "nat \<Rightarrow> Mem list \<Rightarrow> recScan \<Rightarrow> bool" where
  "scanOk ff ms s \<longleftrightarrow>
     length (hdrBytes ff (rs_fields s)) \<le> rs_nHdr s
   \<and> length (bodyBytes ff (rs_fields s)) \<le> rs_nData s
   \<and> (\<not> rs_mallocFailed s \<longrightarrow>
        list_all2 (sameField ff) ms (rs_fields s)
      \<and> length (hdrBytes ff (rs_fields s)) = rs_nHdr s
      \<and> length (bodyBytes ff (rs_fields s)) = rs_nData s
      \<and> wholeBytes ff (rs_fields s) = bodyBytes ff (rs_fields s) @ replicate (rs_nZero s) 0)"

lemma fieldHdr_length: "(if t \<le> 127 then 1 else sqlite3VarintLen (ucast t)) = length (fieldHdr ff m)"
  if "t = sqlite3VdbeSerialType m ff"
  unfolding fieldHdr_def that by (rule nHdr_field)

lemma fieldHdr_pos: "1 \<le> length (fieldHdr ff m)"
  using varintLen_pos by (simp add: fieldHdr_def putVarint32_eq varintLen_eq [symmetric])

lemma null_field: "mem_flags m = MEM_Null \<Longrightarrow> fieldBody ff m = [] \<and> length (fieldHdr ff m) = 1"
  by (simp add: fieldBody_def fieldHdr_def sqlite3VdbeSerialType_def serialBytes_def word_le_nat_alt
      nHdr_field [symmetric])

lemma fieldBody_length:
  "memOk m \<Longrightarrow> length (fieldBody ff m @ zeroTail m) = sqlite3VdbeSerialTypeLen (sqlite3VdbeSerialType m ff)"
  unfolding fieldBody_def by (rule length_serialBytes) simp_all

lemma sameField_refl: "memOk m \<Longrightarrow> sameField ff m m"
  by (simp add: sameField_def)

lemma scanOk_step:
  assumes ok: "memOk m" and s: "scanOk ff ms s" and step: "recordScanField ff m s = Some s'"
  shows "scanOk ff (m # ms) s'"
proof -
  let ?len = "sqlite3VdbeSerialTypeLen (sqlite3VdbeSerialType m ff)"
  note len = fieldBody_length [OF ok, of ff]
  have zt: "zeroTail m = replicate (mem_nZero m) 0" if "bit (mem_flags m) 14"
    using that by (simp add: zeroTail_def)
  consider (plain) "\<not> bit (mem_flags m) 14" | (tail) "bit (mem_flags m) 14" "rs_nData s = 0"
    | (expand) "bit (mem_flags m) 14" "rs_nData s \<noteq> 0" by blast
  then show ?thesis
  proof cases
    case plain
    then have "zeroTail m = []" by (simp add: zeroTail_def)
    with plain ok s len step show ?thesis
      by (auto simp: recordScanField_def Let_def flag_test fieldHdr_length scanOk_def sameField_refl)
  next
    case tail
    with s have "bodyBytes ff (rs_fields s) = []" by (auto simp: scanOk_def)
    with tail ok s len zt step show ?thesis
      by (auto simp: recordScanField_def Let_def flag_test fieldHdr_length scanOk_def sameField_refl
          add.commute [of "rs_nZero s"] replicate_add simp del: concat_eq_Nil_conv split: if_splits)
  next
    case expand
    obtain al m' rc where e: "sqlite3VdbeMemExpandBlob (rs_alloc s) m = (al, m', rc)" by (metis prod_cases3)
    show ?thesis
    proof (cases rule: expandBlob_cases [OF ok expand(1) e, of ff])
      case 1
      then have "length (fieldHdr ff m') = length (fieldHdr ff m)" by (simp add: sameField_def)
      with 1 expand s len e step show ?thesis
        by (auto simp: recordScanField_def Let_def flag_test fieldHdr_length scanOk_def)
    next
      case 2
      then show ?thesis using expand s len e step null_field [of m' ff] fieldHdr_pos [of ff m]
        by (auto simp: recordScanField_def Let_def flag_test fieldHdr_length scanOk_def)
    qed
  qed
qed

lemma recordScan_ok:
  assumes "list_all memOk ms" and "recordScan ff al ms = Some s"
  shows "scanOk ff ms s"
  using assms
proof (induction ms arbitrary: s)
  case Nil
  then show ?case by (auto simp: scanOk_def)
next
  case (Cons m ms)
  then show ?case using scanOk_step [of m ff ms] by (auto simp: bind_eq_Some_conv)
qed

text \<open>
  The number of zero bytes at the end: the zeroes of a register count while no content has been
  stored for the registers behind it. The first pass is defined exactly when the number fits.
\<close>

primrec tailZeros :: "nat \<Rightarrow> Mem list \<Rightarrow> nat" where
  "tailZeros ff [] = 0"
| "tailZeros ff (m # ms) = tailZeros ff ms + (if bodyBytes ff ms = [] then length (zeroTail m) else 0)"

lemma recordScanField_tail:
  assumes "memOk m" and "rs_nData s = 0 \<longleftrightarrow> bodyBytes ff ms = []" and "rs_nZero s = tailZeros ff ms" and "fits_int (tailZeros ff ms)"
  shows "if fits_int (tailZeros ff (m # ms))
    then \<exists>s'. recordScanField ff m s = Some s' \<and> rs_nZero s' = tailZeros ff (m # ms) \<and> (rs_nData s' = 0 \<longleftrightarrow> bodyBytes ff (m # ms) = [])
    else recordScanField ff m s = None"
proof -
  have len: "sqlite3VdbeSerialTypeLen (sqlite3VdbeSerialType m ff) = length (fieldBody ff m) + length (zeroTail m)"
    using fieldBody_length [OF assms(1), of ff] by simp
  show ?thesis
    using assms(2-4) len
    by (auto simp: recordScanField_def Let_def flag_test zeroTail_def split: prod.split)
qed

lemma recordScan_tail:
  assumes "list_all memOk ms"
  shows "if fits_int (tailZeros ff ms)
    then \<exists>s. recordScan ff al ms = Some s \<and> rs_nZero s = tailZeros ff ms \<and> (rs_nData s = 0 \<longleftrightarrow> bodyBytes ff ms = [])
    else recordScan ff al ms = None"
  using assms
proof (induction ms)
  case (Cons m ms)
  show ?case
  proof (cases "fits_int (tailZeros ff ms)")
    case True
    with Cons obtain s where "recordScan ff al ms = Some s" "rs_nZero s = tailZeros ff ms" "rs_nData s = 0 \<longleftrightarrow> bodyBytes ff ms = []"
      by (auto simp del: concat_eq_Nil_conv)
    then show ?thesis using recordScanField_tail [of m s ff ms] Cons.prems True by (auto simp del: tailZeros.simps)
  next
    case False
    then have "\<not> fits_int (tailZeros ff (m # ms))" using fits_int_le [of "tailZeros ff (m # ms)" "tailZeros ff ms"] by auto
    then show ?thesis using Cons False by simp
  qed
qed (simp add: fits_int_def)

section \<open>The record that is written\<close>

text \<open>
  The opcode succeeds, or reports that the record is too long, or that an allocation failed, and
  never writes outside the buffer it allocated. A record it returns without a failed allocation
  is the size of its header, the serial types, the contents, and the zero-filled end that is not
  materialised.
\<close>

definition recordBytes :: "nat \<Rightarrow> Mem list \<Rightarrow> bytes" where
  "recordBytes ff ms =
    putVarint32 (of_nat (recordHdrSize (length (hdrBytes ff ms)))) @ hdrBytes ff ms @ bodyBytes ff ms"

lemma memGrow_cases:
  assumes "sqlite3VdbeMemGrow al m n = (al', m', rc)" "0 < n"
  obtains "rc = SQLITE_NOMEM" "mem_flags m' = MEM_Null" | "rc = SQLITE_OK" "n \<le> mem_szMalloc m'"
  using assms by (auto simp: sqlite3VdbeMemGrow_def Let_def split: if_splits prod.splits bool.splits)

lemma putVarint32_of_nat:
  assumes "n < 2 ^ 32"
  shows "length (putVarint32 (of_nat n)) = sqlite3VarintLen (of_nat n)"
proof -
  have "(ucast (of_nat n :: u32) :: u64) = of_nat n"
    using assms by (simp add: word_unat_eq_iff unsigned_ucast_eq unat_of_nat take_bit_eq_mod)
  then show ?thesis by (simp add: putVarint32_eq varintLen_eq)
qed

lemma hdrSize_split:
  assumes "recordHdrSize n < 2 ^ 31" "k \<le> n"
  shows "length (putVarint32 (of_nat (recordHdrSize n))) + k \<le> recordHdrSize n"
    "length (putVarint32 (of_nat (recordHdrSize n))) + n = recordHdrSize n"
proof -
  have "n \<le> recordHdrSize n" by (auto simp: recordHdrSize_def Let_def)
  then have "recordHdrSize n = n + sqlite3VarintLen (of_nat (recordHdrSize n))"
    using assms by (intro recordHdrSize_fix) simp
  then show "length (putVarint32 (of_nat (recordHdrSize n))) + n = recordHdrSize n"
    using putVarint32_of_nat [of "recordHdrSize n"] assms by simp
  with assms show "length (putVarint32 (of_nat (recordHdrSize n))) + k \<le> recordHdrSize n" by linarith
qed

lemma zNewRecord_split:
  assumes "length h + k = n" "n + d \<le> length buf"
  obtains X Y where "memcpyAt buf 0 h = Some (h @ X @ [] @ Y)" "length X = k" "d \<le> length Y" "length (h @ X @ []) = n"
proof
  show "memcpyAt buf 0 h = Some (h @ take k (drop (length h) buf) @ [] @ drop n buf)"
    using assms by (simp add: memcpyAt_def) (metis add.commute append_take_drop_id drop_drop)
qed (use assms in auto)

lemma makeRecord_write:
  assumes "scanOk ff ms s" "nHdr = recordHdrSize (rs_nHdr s)" "nHdr < 2 ^ 31"
    and "nHdr + rs_nData s \<le> length buf"
  obtains buf' i j where "(memcpyAt buf 0 (putVarint32 (of_nat nHdr)) \<bind>
      (\<lambda>buf. recordWrite ff (rs_fields s) buf (length (putVarint32 (of_nat nHdr))) nHdr)) = Some (buf', i, j)"
    "\<not> rs_mallocFailed s \<Longrightarrow>
       i = nHdr \<and> j = nHdr + rs_nData s \<and> take (nHdr + rs_nData s) buf' = recordBytes ff (rs_fields s)"
proof -
  let ?h = "putVarint32 (of_nat nHdr)" and ?ms = "rs_fields s"
  have len: "length ?h + rs_nHdr s = nHdr" using hdrSize_split [of "rs_nHdr s" 0] assms by simp
  obtain X Y where XY: "memcpyAt buf 0 ?h = Some (?h @ X @ [] @ Y)" "length X = rs_nHdr s"
      "rs_nData s \<le> length Y" "length (?h @ X @ []) = nHdr"
    using zNewRecord_split [OF len assms(4)] by blast
  have w: "recordWrite ff ?ms (?h @ X @ [] @ Y) (length ?h) nHdr =
     Some (?h @ hdrBytes ff ?ms @ drop (length (hdrBytes ff ?ms)) X @ [] @ bodyBytes ff ?ms
             @ drop (length (bodyBytes ff ?ms)) Y,
           length (?h @ hdrBytes ff ?ms), length (?h @ X @ [] @ bodyBytes ff ?ms))"
    using recordWrite_bytes [of ff ?ms X Y ?h "[]"] assms(1) XY by (simp add: scanOk_def)
  show thesis
    by (rule that [of _ "length (?h @ hdrBytes ff ?ms)" "length (?h @ X @ [] @ bodyBytes ff ?ms)"])
      (use XY w len assms(1,2) in \<open>auto simp: scanOk_def recordBytes_def\<close>)
qed

lemma makeRecord_cases:
  fixes p heap limit ff s
  defines "nByte \<equiv> recordHdrSize (rs_nHdr s) + rs_nData s"
  assumes "list_all memOk (mk_fields p)" "limit \<le> SQLITE_MAX_LENGTH" and scan: "recordScan ff (mk_alloc p) (mk_fields p) = Some s"
  obtains p' rc where "OP_MakeRecord heap limit ff p = Some (p', rc)"
    "mk_fields p' = rs_fields s"
    "limit < nByte \<and> rc = SQLITE_TOOBIG \<or> nByte \<le> limit \<and> rc = SQLITE_NOMEM \<and> mk_mallocFailed p'
      \<or> nByte \<le> limit \<and> rc = SQLITE_OK"
    "rc \<noteq> SQLITE_NOMEM \<Longrightarrow> mk_mallocFailed p' = (mk_mallocFailed p \<or> rs_mallocFailed s)"
    "rc = SQLITE_OK \<Longrightarrow> \<not> rs_mallocFailed s \<Longrightarrow> mem_z (mk_out p') = recordBytes ff (rs_fields s)
      \<and> memValue (mk_out p') = VBlob (recordBytes ff (rs_fields s) @ replicate (rs_nZero s) 0)"
proof (cases "limit < nByte")
  case True
  then show thesis
    by (intro that) (auto simp: OP_MakeRecord_def Let_def scan nByte_def)
next
  case le: False
  have sc: "scanOk ff (mk_fields p) s" using assms(2) scan by (rule recordScan_ok)
  let ?nHdr = "recordHdrSize (rs_nHdr s)"
  have nb: "?nHdr < 2 ^ 31" "0 < nByte"
    using le assms(3) by (auto simp: nByte_def recordHdrSize_def Let_def)
  obtain al pOut rc where g: "sqlite3VdbeMemGrow (rs_alloc s) (mk_out p) nByte = (al, pOut, rc)"
    by (metis prod_cases3)
  show thesis
  proof (cases rule: memGrow_cases [OF g nb(2)])
    case 1
    with le g show thesis
      by (intro that) (auto simp: OP_MakeRecord_def Let_def scan nByte_def [symmetric])
  next
    case 2
    obtain buf i j where w: "(memcpyAt (map heap [0..<mem_szMalloc pOut]) 0 (putVarint32 (of_nat ?nHdr)) \<bind>
        (\<lambda>buf. recordWrite ff (rs_fields s) buf (length (putVarint32 (of_nat ?nHdr))) ?nHdr)) = Some (buf, i, j)"
      and t: "\<not> rs_mallocFailed s \<Longrightarrow> i = ?nHdr \<and> j = ?nHdr + rs_nData s
        \<and> take (?nHdr + rs_nData s) buf = recordBytes ff (rs_fields s)"
      by (rule makeRecord_write [OF sc refl nb(1), of "map heap [0..<mem_szMalloc pOut]"])
        (use 2(2) in \<open>simp_all add: nByte_def\<close>)
    then obtain b where b: "memcpyAt (map heap [0..<mem_szMalloc pOut]) 0 (putVarint32 (of_nat ?nHdr)) = Some b"
      "recordWrite ff (rs_fields s) b (length (putVarint32 (of_nat ?nHdr))) ?nHdr = Some (buf, i, j)"
      by (auto simp: bind_eq_Some_conv)
    note t = t [folded nByte_def]
    show thesis using le g 2 b t
      by (cases "rs_nZero s = 0"; intro that)
        (auto simp: OP_MakeRecord_def Let_def scan nByte_def [symmetric] memValue_def bit_simps)
  qed
qed

section \<open>Reading a record back\<close>

lemma getVarint32_fieldHdr:
  "getVarint32 (fieldHdr ff m @ rest) = Some (length (fieldHdr ff m), sqlite3VdbeSerialType m ff)"
  by (simp add: fieldHdr_def putVarint32_eq getVarint32_eq getVarint_ref varint_ref_putVarint)

lemma recordUnpackLoop_bytes:
  assumes "list_all memOk ms" "length ms \<le> length cells"
    and "aKey = P @ hdrBytes ff ms @ W @ wholeBytes ff ms @ rest"
    and "szHdr = length (P @ hdrBytes ff ms)" "d = length (P @ hdrBytes ff ms @ W)"
    and "d + length (wholeBytes ff ms) \<le> nKey"
  shows "\<exists>ms'. recordUnpackLoop cells enc aKey nKey szHdr (length P) d = Some ms'
    \<and> map memValue ms' = map memValue ms"
  using assms
proof (induction ms arbitrary: cells P W d)
  case Nil
  then show ?case by (cases cells) simp_all
next
  case (Cons m ms)
  then obtain c cs where cells: "cells = c # cs" by (cases cells) auto
  let ?h = "fieldHdr ff m" and ?w = "fieldBody ff m @ zeroTail m"
  have dh: "drop (length P) aKey = ?h @ hdrBytes ff ms @ W @ ?w @ wholeBytes ff ms @ rest"
    and dd: "drop d aKey = fieldBody ff m @ zeroTail m @ wholeBytes ff ms @ rest"
    using Cons.prems by simp_all
  have ok: "memOk m" using Cons.prems by simp
  obtain m' where m': "sqlite3VdbeSerialGet (drop d aKey) (sqlite3VdbeSerialType m ff) (c \<lparr> mem_enc := enc \<rparr>) = Some (length ?w, m')"
      "memValue m' = memValue m"
    unfolding dd fieldBody_length [OF ok] unfolding fieldBody_def by (rule serialGet_bytes [OF ok refl])
  have "\<exists>ms'. recordUnpackLoop cs enc aKey nKey szHdr (length (P @ ?h)) (d + length ?w) = Some ms'
      \<and> map memValue ms' = map memValue ms"
    by (rule Cons.IH [of cs "P @ ?h" "W @ ?w"]) (use Cons.prems cells in simp_all)
  then obtain ms' where ms': "recordUnpackLoop cs enc aKey nKey szHdr (length P + length ?h) (d + length ?w) = Some ms'"
      "map memValue ms' = map memValue ms" by auto
  have "length P < szHdr" "d \<le> nKey" using Cons.prems fieldHdr_pos [of ff m] by auto
  then show ?case
    using m' ms' by (simp add: cells dh getVarint32_fieldHdr)
qed

lemma recordUnpack_bytes:
  assumes "list_all memOk ms" "length ms \<le> length cells" "rec = putVarint32 (of_nat n) @ hdrBytes ff ms @ wholeBytes ff ms"
    and "n = recordHdrSize (length (hdrBytes ff ms))" "n < 2 ^ 31"
  shows "\<exists>ms'. sqlite3VdbeRecordUnpack enc cells (length rec) (rec @ rest) = Some ms' \<and> map memValue ms' = map memValue ms"
proof -
  let ?h = "putVarint32 (of_nat n)"
  have u: "unat (of_nat n :: u32) = n" using assms(5) by (simp add: unat_of_nat)
  have g: "getVarint32 (rec @ rest) = Some (length ?h, of_nat n)"
    unfolding assms(3) by (simp add: putVarint32_eq getVarint32_eq getVarint_ref varint_ref_putVarint)
  have n: "length (?h @ hdrBytes ff ms) = n"
    using hdrSize_split [of "length (hdrBytes ff ms)" 0] assms(4,5) by simp
  have "\<exists>ms'. recordUnpackLoop cells enc (rec @ rest) (length rec) n (length ?h) n = Some ms'
    \<and> map memValue ms' = map memValue ms"
    by (rule recordUnpackLoop_bytes [where W = "[]" and rest = rest and ff = ff]) (use assms(1-3) n in auto)
  then show ?thesis using assms(5) by (simp add: sqlite3VdbeRecordUnpack_def g u)
qed

lemma makeRecord_values:
  assumes "list_all memOk (mk_fields p)" "limit \<le> SQLITE_MAX_LENGTH" "\<not> mk_mallocFailed p'"
    and "OP_MakeRecord heap limit ff p = Some (p', SQLITE_OK)"
  obtains rec n where "memValue (mk_out p') = VBlob rec"
    "rec = putVarint32 (of_nat n) @ hdrBytes ff (mk_fields p') @ wholeBytes ff (mk_fields p')"
    "n = recordHdrSize (length (hdrBytes ff (mk_fields p')))" "n < 2 ^ 31"
    "length (mem_z (mk_out p')) \<le> limit"
    "list_all2 (sameField ff) (mk_fields p) (mk_fields p')"
proof -
  obtain s where scan: "recordScan ff (mk_alloc p) (mk_fields p) = Some s"
    using assms(4) by (auto simp: OP_MakeRecord_def bind_eq_Some_conv)
  have sc: "scanOk ff (mk_fields p) s" using assms(1) scan by (rule recordScan_ok)
  show thesis
  proof (rule makeRecord_cases [OF assms(1,2) scan, of heap])
    fix q rc
    assume "OP_MakeRecord heap limit ff p = Some (q, rc)"
      and m: "mk_fields q = rs_fields s"
        "limit < recordHdrSize (rs_nHdr s) + rs_nData s \<and> rc = SQLITE_TOOBIG \<or>
         recordHdrSize (rs_nHdr s) + rs_nData s \<le> limit \<and> rc = SQLITE_NOMEM \<and> mk_mallocFailed q \<or>
         recordHdrSize (rs_nHdr s) + rs_nData s \<le> limit \<and> rc = SQLITE_OK"
        "rc \<noteq> SQLITE_NOMEM \<Longrightarrow> mk_mallocFailed q = (mk_mallocFailed p \<or> rs_mallocFailed s)"
        "rc = SQLITE_OK \<Longrightarrow> \<not> rs_mallocFailed s \<Longrightarrow> mem_z (mk_out q) = recordBytes ff (rs_fields s)
          \<and> memValue (mk_out q) = VBlob (recordBytes ff (rs_fields s) @ replicate (rs_nZero s) 0)"
    then have q: "q = p'" "rc = SQLITE_OK" "\<not> rs_mallocFailed s" using assms(3,4) by auto
    have l: "recordHdrSize (rs_nHdr s) + rs_nData s \<le> limit" using m(2) q by simp
    from sc q have e: "length (hdrBytes ff (mk_fields p')) = rs_nHdr s"
        "length (bodyBytes ff (mk_fields p')) = rs_nData s"
        "wholeBytes ff (mk_fields p') = bodyBytes ff (mk_fields p') @ replicate (rs_nZero s) 0"
        "list_all2 (sameField ff) (mk_fields p) (mk_fields p')"
      using m(1) by (simp_all add: scanOk_def)
    show thesis
      by (rule that [of _ "recordHdrSize (rs_nHdr s)"])
        (use m(1,4) q e l assms(2) hdrSize_split(2) [of "rs_nHdr s" 0] in \<open>simp_all add: recordBytes_def\<close>)
  qed
qed

section \<open>Properties\<close>

lemma sameField_values: "list_all2 (sameField ff) ms ms' \<Longrightarrow> map memValue ms' = map memValue ms \<and> list_all memOk ms'"
  by (induction rule: list_all2_induct) (auto simp: sameField_def)

lemma length_recordBytes:
  assumes "limit \<le> SQLITE_MAX_LENGTH"
  shows "limit < length (recordBytes ff ms) \<longleftrightarrow>
    limit < recordHdrSize (length (hdrBytes ff ms)) + length (bodyBytes ff ms)"
proof (cases "recordHdrSize (length (hdrBytes ff ms)) < 2 ^ 31")
  case True
  then show ?thesis using hdrSize_split(2) [of "length (hdrBytes ff ms)" 0]
    by (simp add: recordBytes_def) linarith
next
  case False
  have "2 ^ 31 - 20 \<le> length (hdrBytes ff ms)"
  proof (rule ccontr)
    assume "\<not> ?thesis"
    then show False using False varintLen_less [of "length (hdrBytes ff ms)"]
      by (auto simp: recordHdrSize_def Let_def split: if_splits)
  qed
  then show ?thesis using False assms by (simp add: recordBytes_def)
qed

text \<open>C18. \<open>OP_MakeRecord\<close> on registers that hold valid cells, whatever allocations fail and whatever
  the fresh buffer holds. When the zero bytes at the end of the record, those that are not materialised, are
  fewer than \<open>2 ^ 31\<close> (\<^const>\<open>fits_int\<close>), it never writes outside the buffer it sized, it ends with one of the three results of
  the code, an allocation that failed is recorded in \<open>db->mallocFailed\<close>, and if none failed the registers keep
  their values and the result is "too big" exactly when the bytes that are stored, the header and the
  content without the zero bytes at the end, exceed the limit. With more zero bytes at the end the signed
  counter of the code overflows, which has no defined result.\<close>

theorem OP_MakeRecord_safe:
  assumes "list_all memOk (mk_fields p)" "limit \<le> SQLITE_MAX_LENGTH"
  shows "if fits_int (tailZeros ff (mk_fields p)) then
      \<exists>p' rc. OP_MakeRecord heap limit ff p = Some (p', rc)
      \<and> (rc = SQLITE_OK \<or> rc = SQLITE_TOOBIG \<or> rc = SQLITE_NOMEM \<and> mk_mallocFailed p')
      \<and> (\<not> mk_mallocFailed p' \<longrightarrow>
           map memValue (mk_fields p') = map memValue (mk_fields p)
         \<and> (rc = SQLITE_TOOBIG \<longleftrightarrow> limit < length (recordBytes ff (mk_fields p'))))
    else OP_MakeRecord heap limit ff p = None"
proof (cases "fits_int (tailZeros ff (mk_fields p))")
  case True
  then obtain s where scan: "recordScan ff (mk_alloc p) (mk_fields p) = Some s"
    using recordScan_tail [OF assms(1), of ff "mk_alloc p"] by auto
  have sc: "scanOk ff (mk_fields p) s" using assms(1) scan by (rule recordScan_ok)
  have "\<exists>p' rc. OP_MakeRecord heap limit ff p = Some (p', rc)
      \<and> (rc = SQLITE_OK \<or> rc = SQLITE_TOOBIG \<or> rc = SQLITE_NOMEM \<and> mk_mallocFailed p')
      \<and> (\<not> mk_mallocFailed p' \<longrightarrow>
           map memValue (mk_fields p') = map memValue (mk_fields p)
         \<and> (rc = SQLITE_TOOBIG \<longleftrightarrow> limit < length (recordBytes ff (mk_fields p'))))"
  proof (rule makeRecord_cases [OF assms scan, of heap], goal_cases)
    case (1 q rc)
    have "length (hdrBytes ff (mk_fields q)) = rs_nHdr s \<and> length (bodyBytes ff (mk_fields q)) = rs_nData s
        \<and> list_all2 (sameField ff) (mk_fields p) (mk_fields q)" if "\<not> mk_mallocFailed q"
      using sc 1(2-4) that by (auto simp: scanOk_def)
    then show ?case
      using 1(1,3) sameField_values [of ff "mk_fields p" "mk_fields q"]
      by (auto simp: length_recordBytes [OF assms(2)])
  qed
  then show ?thesis using True by simp
next
  case False
  then show ?thesis using recordScan_tail [OF assms(1), of ff "mk_alloc p"] by (simp add: OP_MakeRecord_def)
qed

definition exampleCell :: "u16 \<Rightarrow> i64 \<Rightarrow> bytes \<Rightarrow> nat \<Rightarrow> Mem" where
  "exampleCell f i z n =
    \<lparr> mem_z = z, mem_r = 0, mem_i = i, mem_nZero = n, mem_flags = f, mem_enc = SQLITE_UTF8, mem_szMalloc = 0 \<rparr>"

definition exampleRow :: mkState where
  "exampleRow =
    \<lparr> mk_alloc = [],
      mk_fields = [exampleCell MEM_Int 300 [] 0, exampleCell (MEM_Blob OR MEM_Zero) 0 [7] 2,
                   exampleCell MEM_Str 0 [0x61, 0x62] 0, exampleCell (MEM_Blob OR MEM_Zero) 0 [9] 3],
      mk_out = exampleCell MEM_Null 0 [] 0, mk_mallocFailed = False \<rparr>"

lemma exampleRow_ok: "list_all memOk (mk_fields exampleRow)"
  by (simp add: exampleRow_def exampleCell_def memOk_def)

text \<open>
  A row of three blobs \<open>zeroblob(1000000000)\<close>, each of which is within the limit on the length of a blob,
  makes the counter overflow.
\<close>

lemma OP_MakeRecord_zeroblobs:
  fixes p
  defines "z \<equiv> exampleCell (MEM_Blob OR MEM_Zero) 0 [] 1000000000"
  assumes "mk_fields p = [z, z, z]"
  shows "list_all memOk (mk_fields p)" and "OP_MakeRecord heap 1000000000 ff p = None"
proof -
  have z: "memOk z" "bit (mem_flags z) 14" "mem_nZero z = 1000000000" "mem_z z = []"
    by (simp_all add: z_def exampleCell_def memOk_def)
  then show ok: "list_all memOk (mk_fields p)" using assms(2) by simp
  have "fieldBody ff z = []" using fieldBody_length [OF z(1), of ff] z by (simp add: fieldBody_blob)
  then have "tailZeros ff (mk_fields p) = 3000000000" using z(2,3) assms(2) by (simp add: zeroTail_def)
  then show "OP_MakeRecord heap 1000000000 ff p = None"
    using recordScan_tail [OF ok, of ff "mk_alloc p"] by (simp add: OP_MakeRecord_def fits_int_iff)
qed

theorem OP_MakeRecord_safe_witness:
  "list_all memOk (mk_fields exampleRow)
   \<and> map_option (\<lambda>(p, rc). (mem_z (mk_out p), mem_nZero (mk_out p), rc)) (OP_MakeRecord (\<lambda>_. 0xAA) 1000 4 exampleRow)
      = Some ([5, 2, 18, 17, 20, 1, 44, 7, 0, 0, 0x61, 0x62, 9], 3, SQLITE_OK)
   \<and> (\<exists>p' rc. OP_MakeRecord (\<lambda>_. 0xAA) 1000 4 exampleRow = Some (p', rc)
        \<and> (rc = SQLITE_OK \<or> rc = SQLITE_TOOBIG \<or> rc = SQLITE_NOMEM \<and> mk_mallocFailed p'))"
proof -
  have "map_option (\<lambda>(p, rc). (mem_z (mk_out p), mem_nZero (mk_out p), rc)) (OP_MakeRecord (\<lambda>_. 0xAA) 1000 4 exampleRow)
      = Some ([5, 2, 18, 17, 20, 1, 44, 7, 0, 0, 0x61, 0x62, 9], 3, SQLITE_OK)" by code_simp
  moreover have "fits_int (tailZeros 4 (mk_fields exampleRow))" by code_simp
  ultimately show ?thesis using OP_MakeRecord_safe [OF exampleRow_ok, of 1000 4 "\<lambda>_. 0xAA"] exampleRow_ok by auto
qed

text \<open>C17. Reading a record gives back the row it was built from: after \<open>OP_MakeRecord\<close> succeeds, which
  includes that the counter of the zero bytes at the end has not overflowed,
  \<open>sqlite3VdbeRecordUnpack\<close> on the record, with its zero-filled end in place and whatever bytes
  behind it, returns one cell per register, with the same value, and stays inside the record.\<close>

theorem record_roundtrip:
  assumes "list_all memOk (mk_fields p)" "limit \<le> SQLITE_MAX_LENGTH" "length (mk_fields p) \<le> length cells"
    and "OP_MakeRecord heap limit ff p = Some (p', SQLITE_OK)" "\<not> mk_mallocFailed p'"
  shows "\<exists>rec cells'. memValue (mk_out p') = VBlob rec
    \<and> sqlite3VdbeRecordUnpack enc cells (length rec) (rec @ rest) = Some cells'
    \<and> map memValue cells' = map memValue (mk_fields p)"
proof (rule makeRecord_values [OF assms(1,2,5,4)], goal_cases)
  case (1 rec n)
  from sameField_values [OF 1(6)] have v: "map memValue (mk_fields p') = map memValue (mk_fields p)"
    and ok: "list_all memOk (mk_fields p')" by simp_all
  have "length (mk_fields p') \<le> length cells" using list_all2_lengthD [OF 1(6)] assms(3) by simp
  from recordUnpack_bytes [OF ok this 1(2,3,4), of enc rest] 1(1) v show ?case by auto
qed

theorem record_roundtrip_witness:
  "\<exists>p' rec cells'. OP_MakeRecord (\<lambda>_. 0xAA) 1000 4 exampleRow = Some (p', SQLITE_OK)
    \<and> memValue (mk_out p') = VBlob rec
    \<and> sqlite3VdbeRecordUnpack SQLITE_UTF8 (replicate 4 (exampleCell MEM_Null 0 [] 0)) (length rec) (rec @ [1, 2]) = Some cells'
    \<and> map memValue cells' = [VInt 300, VBlob [7, 0, 0], VText [0x61, 0x62], VBlob [9, 0, 0, 0]]"
proof -
  let ?r = "OP_MakeRecord (\<lambda>_. 0xAA) 1000 4 exampleRow"
  have "map_option (\<lambda>(p, rc). (rc, mk_mallocFailed p)) ?r = Some (SQLITE_OK, False)" by code_simp
  then obtain p' where p': "?r = Some (p', SQLITE_OK)" "\<not> mk_mallocFailed p'" by auto
  have v: "map memValue (mk_fields exampleRow) = [VInt 300, VBlob [7, 0, 0], VText [0x61, 0x62], VBlob [9, 0, 0, 0]]"
    by code_simp
  have l: "length (mk_fields exampleRow) \<le> length (replicate 4 (exampleCell MEM_Null 0 [] 0))"
    by (simp add: exampleRow_def)
  from record_roundtrip [OF exampleRow_ok _ l p', of SQLITE_UTF8 "[1, 2]"] p'(1) show ?thesis unfolding v by auto
qed

end
