(* ===== verification/Record_Compare.thy ===== *)
theory Record_Compare
  imports Vdbe_Record
begin

text \<open>
  Comparison of a serialized record with an unpacked key, from \<^verbatim>\<open>vdbeaux.c\<close>: the comparison of two
  memory cells, the general routine that compares without decoding the record first, its two
  specialisations for keys that start with an integer or a string, the routine that selects one
  of the three, and the slow routine of the debug build that the code's assertions compare with.

  A collating sequence is an argument, as collations are installed by the application: the
  function compares two strings in the encoding of the database. Double values are bit patterns;
  their order and the conversion of an integer to a double are those of IEEE 754.
\<close>

section \<open>Doubles\<close>

text \<open>
  Two patterns that are numbers are ordered like the integers made of the sign bit and the 63
  magnitude bits, so that both zeros are equal. A comparison with a pattern that is not a number
  is false.
\<close>

definition double_key :: "u64 \<Rightarrow> int" where
  "double_key x =
    (let mag = uint (x AND 0x7fffffffffffffff) in if bit x 63 then - mag else mag)"

definition double_lt :: "u64 \<Rightarrow> u64 \<Rightarrow> bool" where
  "double_lt x y \<longleftrightarrow> \<not> sqlite3IsNaN x \<and> \<not> sqlite3IsNaN y \<and> double_key x < double_key y"

text \<open>
  The cast \<^verbatim>\<open>(double)i\<close> rounds to the nearest of the values with a 53-bit significand, ties to the
  even one. The exponent \<open>e\<close> is the position of the highest bit of the magnitude.
\<close>

function highBit :: "int \<Rightarrow> nat" where
  "highBit n = (if n < 2 then 0 else Suc (highBit (n div 2)))"
  by auto
termination by (relation "measure nat") auto

declare highBit.simps [simp del]

definition double_of_int :: "int \<Rightarrow> int" where
  "double_of_int n =
    (if n = 0 then 0
     else
       let e = highBit n in
       let sig = (if e \<le> 52 then n * 2 ^ (52 - e)
                  else
                    let q = n div 2 ^ (e - 52); r = n mod 2 ^ (e - 52); half = 2 ^ (e - 53) in
                    if half < r \<or> r = half \<and> odd q then q + 1 else q) in
       (1023 + int e) * 2 ^ 52 + (sig - 2 ^ 52))"

definition double_of_i64 :: "i64 \<Rightarrow> u64" where
  "double_of_i64 i =
    (if i <s 0 then push_bit 63 1 OR word_of_int (double_of_int (uint (- i)))
     else word_of_int (double_of_int (uint i)))"

section \<open>Comparing two cells\<close>

text \<open>
  A collation stands for \<^verbatim>\<open>vdbeCompareMemString\<close> with the collating sequence fixed, on two strings in the
  encoding of the database: the function \<^verbatim>\<open>xCmp\<close> of the collating sequence when that has the same encoding,
  and otherwise \<^verbatim>\<open>xCmp\<close> on the converted strings. It is a parameter, so the results hold for every function;
  the conversion, and a failure of its allocations, are not part of this theory.
\<close>

type_synonym collation = "bytes \<Rightarrow> bytes \<Rightarrow> int"

text \<open>\<^verbatim>\<open>memcmp\<close> over the first \<open>n\<close> bytes; the difference of the first pair that differs.\<close>

fun memcmp :: "bytes \<Rightarrow> bytes \<Rightarrow> nat \<Rightarrow> int" where
  "memcmp (x # xs) (y # ys) (Suc n) = (if x = y then memcmp xs ys n else uint x - uint y)"
| "memcmp _ _ _ = 0"

definition compareDouble :: "u64 \<Rightarrow> u64 \<Rightarrow> int" where
  "compareDouble r1 r2 = (if double_lt r1 r2 then - 1 else if double_lt r2 r1 then 1 else 0)"

definition compareInt :: "i64 \<Rightarrow> i64 \<Rightarrow> int" where
  "compareInt i1 i2 = (if i1 <s i2 then - 1 else if i2 <s i1 then 1 else 0)"

definition compareBytes :: "bytes \<Rightarrow> bytes \<Rightarrow> int" where
  "compareBytes z1 z2 =
    (let rc = memcmp z1 z2 (min (length z1) (length z2)) in
     if rc = 0 then int (length z1) - int (length z2) else rc)"

definition sqlite3MemCompare :: "Mem \<Rightarrow> Mem \<Rightarrow> collation option \<Rightarrow> int" where
  "sqlite3MemCompare pMem1 pMem2 pColl =
    (let f1 = mem_flags pMem1; f2 = mem_flags pMem2; combined_flags = f1 OR f2 in
     if combined_flags AND MEM_Null \<noteq> 0 then
       uint (f2 AND MEM_Null) - uint (f1 AND MEM_Null)
     else if combined_flags AND (MEM_Int OR MEM_Real) \<noteq> 0 then
       (if f1 AND f2 AND MEM_Int \<noteq> 0 then compareInt (mem_i pMem1) (mem_i pMem2)
        else if f1 AND (MEM_Int OR MEM_Real) = 0 then 1
        else if f2 AND (MEM_Int OR MEM_Real) = 0 then - 1
        else
          let r1 = (if f1 AND MEM_Real \<noteq> 0 then mem_r pMem1 else double_of_i64 (mem_i pMem1));
              r2 = (if f2 AND MEM_Real \<noteq> 0 then mem_r pMem2 else double_of_i64 (mem_i pMem2)) in
          compareDouble r1 r2)
     else if combined_flags AND MEM_Str \<noteq> 0 \<and> f1 AND MEM_Str = 0 then 1
     else if combined_flags AND MEM_Str \<noteq> 0 \<and> f2 AND MEM_Str = 0 then - 1
     else
       case (if combined_flags AND MEM_Str \<noteq> 0 then pColl else None) of
         Some xCmp \<Rightarrow> xCmp (mem_z pMem1) (mem_z pMem2)
       | None \<Rightarrow> compareBytes (mem_z pMem1) (mem_z pMem2))"

section \<open>Keys\<close>

record KeyInfo =
  ki_nField :: nat
  ki_nXField :: nat
  ki_aSortOrder :: "bool list"
  ki_aColl :: "collation option list"

text \<open>\<open>ur_aMem\<close> holds the first \<open>nField\<close> cells, so that \<open>nField\<close> is its length.\<close>

record UnpackedRecord =
  ur_keyInfo :: KeyInfo
  ur_default_rc :: int
  ur_aMem :: "Mem list"
  ur_r1 :: int
  ur_r2 :: int

section \<open>The routine of the debug build\<close>

primrec recordCompareDebugLoop ::
  "Mem list \<Rightarrow> UnpackedRecord \<Rightarrow> Mem \<Rightarrow> nat \<Rightarrow> bytes \<Rightarrow> nat \<Rightarrow> nat \<Rightarrow> nat \<Rightarrow> nat \<Rightarrow> int option" where
  "recordCompareDebugLoop [] p mem1 nKey1 aKey1 szHdr1 i idx1 d1 = None"
| "recordCompareDebugLoop (pRhs # rest) p mem1 nKey1 aKey1 szHdr1 i idx1 d1 =
    do { (n, serial_type1) \<leftarrow> getVarint32 (drop idx1 aKey1);
         if of_nat d1 + serial_type1 + 2 > (of_nat nKey1 :: u32)
            \<and> d1 + sqlite3VdbeSerialTypeLen serial_type1 > nKey1
         then Some (ur_default_rc p)
         else do {
           (len, mem1) \<leftarrow> sqlite3VdbeSerialGet (drop d1 aKey1) serial_type1 mem1;
           pColl \<leftarrow> rd (ki_aColl (ur_keyInfo p)) i;
           let rc = sqlite3MemCompare mem1 pRhs pColl in
           if rc \<noteq> 0 then do {
             desc \<leftarrow> rd (ki_aSortOrder (ur_keyInfo p)) i;
             Some (if desc then - rc else rc) }
           else if idx1 + n < szHdr1 \<and> rest \<noteq> [] then
             recordCompareDebugLoop rest p mem1 nKey1 aKey1 szHdr1 (i + 1) (idx1 + n) (d1 + len)
           else Some (ur_default_rc p) } }"

definition vdbeRecordCompareDebug :: "Mem \<Rightarrow> nat \<Rightarrow> bytes \<Rightarrow> UnpackedRecord \<Rightarrow> int option" where
  "vdbeRecordCompareDebug mem1 nKey1 aKey1 pPKey2 =
    do { (idx1, szHdr1) \<leftarrow> getVarint32 aKey1;
         recordCompareDebugLoop (ur_aMem pPKey2) pPKey2 mem1 nKey1 aKey1 (unat szHdr1) 0 idx1 (unat szHdr1) }"

section \<open>The routines of the release build\<close>

definition vdbeRecordDecodeInt :: "u32 \<Rightarrow> bytes \<Rightarrow> i64 option" where
  "vdbeRecordDecodeInt serial_type aKey =
    (if serial_type = 0 \<or> serial_type = 1 then ONE_BYTE_INT aKey
     else if serial_type = 2 then TWO_BYTE_INT aKey
     else if serial_type = 3 then THREE_BYTE_INT aKey
     else if serial_type = 4 then do { y \<leftarrow> FOUR_BYTE_UINT aKey; Some (scast y) }
     else if serial_type = 5 then
       do { lo \<leftarrow> FOUR_BYTE_UINT (drop 2 aKey); hi \<leftarrow> TWO_BYTE_INT aKey; Some (ucast lo + push_bit 32 1 * hi) }
     else if serial_type = 6 then
       do { x \<leftarrow> FOUR_BYTE_UINT aKey; y \<leftarrow> FOUR_BYTE_UINT (drop 4 aKey); Some (push_bit 32 (ucast x) OR ucast y) }
     else Some (ucast (serial_type - 8)))"

text \<open>
  The comparison of one field inside the loop of \<open>sqlite3VdbeRecordCompare\<close>: the result and the
  serial type it read, which is the raw header byte for an integer, real or NULL on the right.
\<close>

definition recordCompareField ::
  "UnpackedRecord \<Rightarrow> Mem \<Rightarrow> nat \<Rightarrow> bytes \<Rightarrow> Mem \<Rightarrow> nat \<Rightarrow> nat \<Rightarrow> nat \<Rightarrow> (int \<times> u32) option" where
  "recordCompareField p mem1 nKey1 aKey1 pRhs i idx1 d1 =
    (let flags = mem_flags pRhs in
     if flags AND MEM_Int \<noteq> 0 then
       do { b \<leftarrow> rd aKey1 idx1;
            let serial_type = ucast b :: u32 in
            if 12 \<le> serial_type then Some (1, serial_type)
            else if serial_type = 0 then Some (- 1, serial_type)
            else if serial_type = 7 then
              do { (_, mem1) \<leftarrow> sqlite3VdbeSerialGet (drop d1 aKey1) serial_type mem1;
                   Some (compareDouble (mem_r mem1) (double_of_i64 (mem_i pRhs)), serial_type) }
            else
              do { lhs \<leftarrow> vdbeRecordDecodeInt serial_type (drop d1 aKey1);
                   Some (compareInt lhs (mem_i pRhs), serial_type) } }
     else if flags AND MEM_Real \<noteq> 0 then
       do { b \<leftarrow> rd aKey1 idx1;
            let serial_type = ucast b :: u32 in
            if 12 \<le> serial_type then Some (1, serial_type)
            else if serial_type = 0 then Some (- 1, serial_type)
            else
              do { (_, mem1) \<leftarrow> sqlite3VdbeSerialGet (drop d1 aKey1) serial_type mem1;
                   let lhs = (if serial_type = 7 then mem_r mem1 else double_of_i64 (mem_i mem1)) in
                   Some (compareDouble lhs (mem_r pRhs), serial_type) } }
     else if flags AND MEM_Str \<noteq> 0 then
       do { (_, serial_type) \<leftarrow> getVarint32 (drop idx1 aKey1);
            if serial_type < 12 then Some (- 1, serial_type)
            else if serial_type AND 1 = 0 then Some (1, serial_type)
            else
              let n = unat ((serial_type - 12) div 2) in
              if d1 + n > nKey1 then Some (1, serial_type)
              else if length aKey1 < d1 + n then None
              else do { pColl \<leftarrow> rd (ki_aColl (ur_keyInfo p)) i;
                        let z = take n (drop d1 aKey1) in
                        case pColl of
                          Some xCmp \<Rightarrow> Some (xCmp z (mem_z pRhs), serial_type)
                        | None \<Rightarrow> Some (compareBytes z (mem_z pRhs), serial_type) } }
     else if flags AND MEM_Blob \<noteq> 0 then
       do { (_, serial_type) \<leftarrow> getVarint32 (drop idx1 aKey1);
            if serial_type < 12 \<or> serial_type AND 1 \<noteq> 0 then Some (- 1, serial_type)
            else
              let nStr = unat ((serial_type - 12) div 2) in
              if d1 + nStr > nKey1 then Some (1, serial_type)
              else if length aKey1 < d1 + nStr then None
              else Some (compareBytes (take nStr (drop d1 aKey1)) (mem_z pRhs), serial_type) }
     else
       do { b \<leftarrow> rd aKey1 idx1;
            let serial_type = ucast b :: u32 in
            Some (if serial_type \<noteq> 0 then 1 else 0, serial_type) })"

primrec recordCompareLoop ::
  "Mem list \<Rightarrow> UnpackedRecord \<Rightarrow> Mem \<Rightarrow> nat \<Rightarrow> bytes \<Rightarrow> nat \<Rightarrow> nat \<Rightarrow> nat \<Rightarrow> nat \<Rightarrow> int option" where
  "recordCompareLoop [] p mem1 nKey1 aKey1 szHdr1 i idx1 d1 = None"
| "recordCompareLoop (pRhs # rest) p mem1 nKey1 aKey1 szHdr1 i idx1 d1 =
    do { (rc, serial_type) \<leftarrow> recordCompareField p mem1 nKey1 aKey1 pRhs i idx1 d1;
         if rc \<noteq> 0 then do {
           desc \<leftarrow> rd (ki_aSortOrder (ur_keyInfo p)) i;
           Some (if desc then - rc else rc) }
         else
           let d1 = d1 + sqlite3VdbeSerialTypeLen serial_type;
               idx1 = idx1 + sqlite3VarintLen (ucast serial_type) in
           if idx1 < szHdr1 \<and> rest \<noteq> [] \<and> d1 \<le> nKey1 then
             recordCompareLoop rest p mem1 nKey1 aKey1 szHdr1 (i + 1) idx1 d1
           else Some (ur_default_rc p) }"

definition sqlite3VdbeRecordCompare :: "Mem \<Rightarrow> nat \<Rightarrow> bytes \<Rightarrow> UnpackedRecord \<Rightarrow> bool \<Rightarrow> int option" where
  "sqlite3VdbeRecordCompare mem1 nKey1 aKey1 pPKey2 bSkip =
    (if bSkip then
       do { (n, s1) \<leftarrow> getVarint32 (drop 1 aKey1);
            szHdr1 \<leftarrow> rd aKey1 0;
            recordCompareLoop (drop 1 (ur_aMem pPKey2)) pPKey2 mem1 nKey1 aKey1 (unat szHdr1) 1
              (1 + n) (unat szHdr1 + sqlite3VdbeSerialTypeLen s1) }
     else
       do { (idx1, szHdr1) \<leftarrow> getVarint32 aKey1;
            recordCompareLoop (ur_aMem pPKey2) pPKey2 mem1 nKey1 aKey1 (unat szHdr1) 0 idx1 (unat szHdr1) })"

definition vdbeRecordCompareInt :: "Mem \<Rightarrow> nat \<Rightarrow> bytes \<Rightarrow> UnpackedRecord \<Rightarrow> int option" where
  "vdbeRecordCompareInt mem1 nKey1 pKey1 pPKey2 =
    do { b0 \<leftarrow> rd pKey1 0;
         let aKey = drop (unat (b0 AND 0x3F)) pKey1 in
         do {
           serial_type \<leftarrow> rd pKey1 1;
           pMem \<leftarrow> rd (ur_aMem pPKey2) 0;
           let v = mem_i pMem in
           if serial_type = 0 \<or> serial_type = 7 \<or> 9 < serial_type then
             sqlite3VdbeRecordCompare mem1 nKey1 pKey1 pPKey2 False
           else do {
             lhs \<leftarrow> (if serial_type = 1 then ONE_BYTE_INT aKey
                    else if serial_type = 2 then TWO_BYTE_INT aKey
                    else if serial_type = 3 then THREE_BYTE_INT aKey
                    else if serial_type = 4 then do { y \<leftarrow> FOUR_BYTE_UINT aKey; Some (scast y) }
                    else if serial_type = 5 then
                      do { lo \<leftarrow> FOUR_BYTE_UINT (drop 2 aKey); hi \<leftarrow> TWO_BYTE_INT aKey;
                           Some (ucast lo + push_bit 32 1 * hi) }
                    else if serial_type = 6 then
                      do { x \<leftarrow> FOUR_BYTE_UINT aKey; y \<leftarrow> FOUR_BYTE_UINT (drop 4 aKey);
                           Some (push_bit 32 (ucast x) OR ucast y) }
                    else if serial_type = 8 then Some 0
                    else Some 1);
             if lhs <s v then Some (ur_r1 pPKey2)
             else if v <s lhs then Some (ur_r2 pPKey2)
             else if length (ur_aMem pPKey2) > 1 then
               sqlite3VdbeRecordCompare mem1 nKey1 pKey1 pPKey2 True
             else Some (ur_default_rc pPKey2) } } }"

definition vdbeRecordCompareString :: "Mem \<Rightarrow> nat \<Rightarrow> bytes \<Rightarrow> UnpackedRecord \<Rightarrow> int option" where
  "vdbeRecordCompareString mem1 nKey1 aKey1 pPKey2 =
    do { (_, serial_type) \<leftarrow> getVarint32 (drop 1 aKey1);
         pMem \<leftarrow> rd (ur_aMem pPKey2) 0;
         if serial_type <s 12 then Some (ur_r1 pPKey2)
         else if serial_type AND 1 = 0 then Some (ur_r2 pPKey2)
         else do {
           szHdr \<leftarrow> rd aKey1 0;
           let nStr = unat ((serial_type - 12) div 2); szHdr = unat szHdr in
           if szHdr + nStr > nKey1 then Some 0
           else if length aKey1 < szHdr + nStr then None
           else
             let res = compareBytes (take nStr (drop szHdr aKey1)) (mem_z pMem) in
             if res = 0 then
               if length (ur_aMem pPKey2) > 1 then sqlite3VdbeRecordCompare mem1 nKey1 aKey1 pPKey2 True
               else Some (ur_default_rc pPKey2)
             else if res > 0 then Some (ur_r2 pPKey2)
             else Some (ur_r1 pPKey2) } }"

datatype RecordCompare = CompareRecord | CompareInt | CompareString

definition sqlite3VdbeFindCompare :: "UnpackedRecord \<Rightarrow> (UnpackedRecord \<times> RecordCompare) option" where
  "sqlite3VdbeFindCompare p =
    (if ki_nField (ur_keyInfo p) + ki_nXField (ur_keyInfo p) \<le> 13 then
       do { pMem \<leftarrow> rd (ur_aMem p) 0;
            desc \<leftarrow> rd (ki_aSortOrder (ur_keyInfo p)) 0;
            pColl \<leftarrow> rd (ki_aColl (ur_keyInfo p)) 0;
            let flags = mem_flags pMem;
                p = (if desc then p \<lparr> ur_r1 := 1, ur_r2 := - 1 \<rparr> else p \<lparr> ur_r1 := - 1, ur_r2 := 1 \<rparr>) in
            if flags AND MEM_Int \<noteq> 0 then Some (p, CompareInt)
            else if flags AND (MEM_Real OR MEM_Null OR MEM_Blob) = 0 \<and> Option.is_none pColl then Some (p, CompareString)
            else Some (p, CompareRecord) }
     else Some (p, CompareRecord))"

definition recordCompareCall :: "RecordCompare \<Rightarrow> Mem \<Rightarrow> nat \<Rightarrow> bytes \<Rightarrow> UnpackedRecord \<Rightarrow> int option" where
  "recordCompareCall f mem1 nKey1 aKey1 p =
    (case f of
       CompareRecord \<Rightarrow> sqlite3VdbeRecordCompare mem1 nKey1 aKey1 p False
     | CompareInt \<Rightarrow> vdbeRecordCompareInt mem1 nKey1 aKey1 p
     | CompareString \<Rightarrow> vdbeRecordCompareString mem1 nKey1 aKey1 p)"

section \<open>The order on values\<close>

text \<open>
  NULL comes first, then numbers, then text, then blobs. Numbers of the same kind are compared
  exactly, an integer and a real as doubles; text with the collation, or byte by byte if there is
  none; blobs byte by byte, a proper prefix first.
\<close>

fun valueRank :: "sqlvalue \<Rightarrow> int" where
  "valueRank VNull = 0"
| "valueRank (VInt i) = 1"
| "valueRank (VReal r) = 1"
| "valueRank (VText z) = 2"
| "valueRank (VBlob z) = 3"

definition bytesCompare :: "bytes \<Rightarrow> bytes \<Rightarrow> int" where
  "bytesCompare a b = (if a = b then 0 else if ord.lexordp (<) a b then - 1 else 1)"

fun valueCompare :: "collation option \<Rightarrow> sqlvalue \<Rightarrow> sqlvalue \<Rightarrow> int" where
  "valueCompare c (VInt i) (VInt j) = sgn (i - j)"
| "valueCompare c (VInt i) (VReal s) = compareDouble (double_of_i64 (word_of_int i)) s"
| "valueCompare c (VReal r) (VInt j) = compareDouble r (double_of_i64 (word_of_int j))"
| "valueCompare c (VReal r) (VReal s) = compareDouble r s"
| "valueCompare c (VText a) (VText b) = (case c of Some xCmp \<Rightarrow> sgn (xCmp a b) | None \<Rightarrow> bytesCompare a b)"
| "valueCompare c (VBlob a) (VBlob b) = bytesCompare a b"
| "valueCompare c v w = sgn (valueRank v - valueRank w)"

text \<open>
  A record against the fields of a key, from field \<open>i\<close> on: the first field that differs decides,
  reversed for a descending column; if one side runs out of fields, the default result.
\<close>

fun rowCompare :: "KeyInfo \<Rightarrow> int \<Rightarrow> nat \<Rightarrow> sqlvalue list \<Rightarrow> sqlvalue list \<Rightarrow> int" where
  "rowCompare k d i (v # vs) (w # ws) =
    (let c = valueCompare (ki_aColl k ! i) v w in
     if c \<noteq> 0 then (if ki_aSortOrder k ! i then - c else c) else rowCompare k d (Suc i) vs ws)"
| "rowCompare k d i _ _ = d"

lemma compareBytes_Cons:
  "compareBytes (x # a) (y # b) = (if x = y then compareBytes a b else uint x - uint y)"
  by (simp add: compareBytes_def Let_def word_uint_eq_iff)

lemma compareBytes_order: "sgn (compareBytes a b) = bytesCompare a b"
proof (induction a b rule: list_induct2')
  case (4 x a y b)
  then show ?case
  proof (cases "x = y")
    case False
    then have "uint x \<noteq> uint y" by (simp add: word_uint_eq_iff)
    with False show ?thesis
      by (cases "x < y") (simp_all add: compareBytes_Cons bytesCompare_def word_less_def sgn_if)
  qed (simp add: compareBytes_Cons bytesCompare_def)
qed (simp_all add: compareBytes_def bytesCompare_def)

lemma compareInt_order: "compareInt i j = sgn (sint i - sint j)"
  by (simp add: compareInt_def word_sless_alt)

text \<open>What the fields of a key satisfy: the flags are consistent and no zero-filled tail is left.\<close>

definition keyOk :: "Mem \<Rightarrow> bool" where
  "keyOk m \<longleftrightarrow> memOk m \<and> \<not> bit (mem_flags m) 14
   \<and> (bit (mem_flags m) 0 \<longrightarrow> (\<forall>k \<in> {1, 2, 3, 4}. \<not> bit (mem_flags m) k))
   \<and> (bit (mem_flags m) 2 \<and> bit (mem_flags m) 3 \<longrightarrow>
        \<not> sqlite3IsNaN (double_of_i64 (mem_i m)) \<and> double_key (mem_r m) = double_key (double_of_i64 (mem_i m)))"

section \<open>One field of a record\<close>

text \<open>The five kinds of field that a record can hold, with the serial type of each.\<close>

lemma field_kinds:
  assumes "memOk m" "t = sqlite3VdbeSerialType m ff"
  obtains (vnull) "memValue m = VNull" "t = 0"
  | (vint) "memValue m = VInt (sint (mem_i m))" "intRange t (mem_i m)"
  | (vreal) "memValue m = VReal (mem_r m)" "t = 7" "\<not> sqlite3IsNaN (mem_r m)"
  | (vtext) "memValue m = VText (mem_z m @ zeroTail m)" "12 \<le> t" "t AND 1 \<noteq> 0"
  | (vblob) "memValue m = VBlob (mem_z m @ zeroTail m)" "12 \<le> t" "t AND 1 = 0"
proof -
  let ?f = "mem_flags m"
  consider "bit ?f 0" | "\<not> bit ?f 0" "bit ?f 2" | "\<not> bit ?f 0" "\<not> bit ?f 2" "bit ?f 3"
    | "\<not> bit ?f 0" "\<not> bit ?f 2" "\<not> bit ?f 3" "bit ?f 1" | "\<not> bit ?f 0" "\<not> bit ?f 2" "\<not> bit ?f 3" "\<not> bit ?f 1"
    by blast
  then show thesis
  proof cases
    case 1
    then show thesis using assms(2) by (intro vnull) (simp_all add: memValue_def sqlite3VdbeSerialType_def flag_test)
  next
    case 2
    then show thesis using assms(2) serialType_Int [of m ff] by (intro vint) (simp_all add: memValue_def)
  next
    case 3
    then show thesis using assms
      by (intro vreal) (simp_all add: memValue_def sqlite3VdbeSerialType_def flag_test memOk_def)
  next
    case 4
    then show thesis using serialType_textual [OF assms(1) 4(1-3) assms(2)] zeroTail_Nil [OF assms(1)]
      by (intro vtext) (simp_all add: memValue_def)
  next
    case 5
    then show thesis using serialType_textual [OF assms(1) 5(1-3) assms(2)]
      by (intro vblob) (simp_all add: memValue_def zeroTail_def)
  qed
qed

lemma unat_ucast_u8: "unat (ucast (b :: u8) :: u32) = unat b"
proof -
  have "unat b mod 2 ^ 32 = unat b" by (rule mod_less) (simp add: less_trans [OF unat_u8_less])
  then show ?thesis by (simp add: unsigned_ucast_eq take_bit_eq_mod)
qed

text \<open>The first byte of the header entry is the serial type if that is small, and at least 128 if not.\<close>

lemma fieldHdr_byte:
  assumes "drop idx aKey = fieldHdr ff m @ r" "t = sqlite3VdbeSerialType m ff"
  obtains b where "rd aKey idx = Some b" "t < 12 \<Longrightarrow> (ucast b :: u32) = t" "12 \<le> t \<Longrightarrow> 12 \<le> (ucast b :: u32)"
proof -
  from fieldHdr_pos [of ff m] obtain b h where h: "fieldHdr ff m = b # h" by (cases "fieldHdr ff m") auto
  have g: "getVarint32 (b # h @ r) = Some (Suc (length h), t)"
    using getVarint32_fieldHdr [of ff m r] h assms(2) by simp
  have b: "rd aKey idx = Some b"
    using assms(1) h by (auto simp: rd_def) (metis nth_via_drop, metis drop_all linorder_not_less list.simps(3))
  show thesis
  proof (cases "bit b 7")
    case True
    then have "\<not> b < 0x80" by (simp add: u8_less_80)
    then have big: "12 \<le> (ucast b :: u32)" by (simp add: word_less_nat_alt word_le_nat_alt unat_ucast_u8)
    have "\<not> t < 12"
    proof
      assume "t < 12"
      then have "length (fieldHdr ff m) = 1"
        using nHdr_field [of t] assms(2) by (auto simp: fieldHdr_def word_le_nat_alt word_less_nat_alt)
      with \<open>t < 12\<close> h assms(2) have "b = ucast t"
        by (simp add: fieldHdr_def putVarint32_def word_less_nat_alt split: if_splits)
      with \<open>t < 12\<close> \<open>\<not> b < 0x80\<close> show False
        by (simp add: word_less_nat_alt unsigned_ucast_eq take_bit_eq_mod)
    qed
    with big b show thesis by (intro that) auto
  next
    case False
    then have "t = ucast b" using g by (simp add: getVarint32_def u8_less_80)
    with b show thesis by (intro that) auto
  qed
qed

lemma decodeInt_get:
  assumes "sqlite3VdbeSerialGet buf t m0 = Some (n, m')" "intRange t i"
  shows "vdbeRecordDecodeInt t buf = Some (mem_i m')"
  using assms
  by (auto simp: intRange_def sqlite3VdbeSerialGet_def vdbeRecordDecodeInt_def Let_def bind_eq_Some_conv)


definition fieldAt :: "nat \<Rightarrow> Mem \<Rightarrow> nat \<Rightarrow> nat \<Rightarrow> bytes \<Rightarrow> bool" where
  "fieldAt ff m idx d aKey \<longleftrightarrow> memOk m \<and> d \<le> length aKey
   \<and> (\<exists>r. drop idx aKey = fieldHdr ff m @ r) \<and> (\<exists>r. drop d aKey = fieldBody ff m @ zeroTail m @ r)"

lemma fieldAt_varint:
  "fieldAt ff m idx d aKey \<Longrightarrow>
   getVarint32 (drop idx aKey) = Some (length (fieldHdr ff m), sqlite3VdbeSerialType m ff)"
  by (auto simp: fieldAt_def getVarint32_fieldHdr)

lemma fieldAt_byte:
  assumes "fieldAt ff m idx d aKey" "t = sqlite3VdbeSerialType m ff"
  obtains b where "rd aKey idx = Some b" "t < 12 \<Longrightarrow> (ucast b :: u32) = t" "12 \<le> t \<Longrightarrow> 12 \<le> (ucast b :: u32)"
  using assms fieldHdr_byte unfolding fieldAt_def by metis

lemma fieldAt_Int:
  assumes "fieldAt ff m idx d aKey" "t = sqlite3VdbeSerialType m ff" "intRange t (mem_i m)"
  shows "sqlite3VdbeSerialGet (drop d aKey) t m0 =
      Some (sqlite3VdbeSerialTypeLen t, m0 \<lparr> mem_i := mem_i m, mem_flags := MEM_Int \<rparr>)"
    "vdbeRecordDecodeInt t (drop d aKey) = Some (mem_i m)"
proof -
  show g: "sqlite3VdbeSerialGet (drop d aKey) t m0 =
      Some (sqlite3VdbeSerialTypeLen t, m0 \<lparr> mem_i := mem_i m, mem_flags := MEM_Int \<rparr>)" for m0
    using assms serialGet_Int [OF assms(3)] by (auto simp: fieldAt_def fieldBody_def)
  show "vdbeRecordDecodeInt t (drop d aKey) = Some (mem_i m)"
    using decodeInt_get [OF g assms(3)] by simp
qed

lemma fieldAt_Real:
  assumes "fieldAt ff m idx d aKey" "sqlite3VdbeSerialType m ff = 7" "\<not> sqlite3IsNaN (mem_r m)"
  shows "sqlite3VdbeSerialGet (drop d aKey) 7 m0 = Some (8, m0 \<lparr> mem_r := mem_r m, mem_flags := MEM_Real \<rparr>)"
  using assms
  by (auto simp: fieldAt_def fieldBody_def serialBytes_def serialTypeLen_small sqlite3VdbeSerialGet_def
      eight_bytes Let_def simp del: drop_drop)

lemma fieldAt_text:
  assumes "fieldAt ff m idx d aKey" "t = sqlite3VdbeSerialType m ff" "12 \<le> t" "n = unat ((t - 12) div 2)"
  shows "take n (drop d aKey) = mem_z m @ zeroTail m" "d + n \<le> length aKey"
    "n = length (fieldBody ff m @ zeroTail m)"
proof -
  have ok: "memOk m" using assms(1) by (simp add: fieldAt_def)
  have nn: "\<not> bit (mem_flags m) 0" "\<not> bit (mem_flags m) 2" "\<not> bit (mem_flags m) 3"
    using serialType_small [of m ff] assms(2,3) by auto
  note tt = serialType_textual [OF ok nn assms(2)]
  obtain r where r: "drop d aKey = mem_z m @ zeroTail m @ r"
    using assms(1) tt(5) unfolding fieldAt_def fieldBody_def assms(2) [symmetric] by auto
  have n: "n = length (mem_z m @ zeroTail m)" using tt(3) assms(4) by simp
  then show "take n (drop d aKey) = mem_z m @ zeroTail m" using r by simp
  show "n = length (fieldBody ff m @ zeroTail m)"
    using n tt(5) by (simp add: fieldBody_def assms(2) [symmetric])
  have "n \<le> length (drop d aKey)" unfolding r using n by simp
  then show "d + n \<le> length aKey" using assms(1) by (auto simp: fieldAt_def)
qed

lemma fieldAt_get:
  assumes "fieldAt ff m idx d aKey"
  obtains m' where "sqlite3VdbeSerialGet (drop d aKey) (sqlite3VdbeSerialType m ff) mem =
      Some (length (fieldBody ff m @ zeroTail m), m')" "memValue m' = memValue m" "memTyped m'"
proof -
  have ok: "memOk m" using assms by (simp add: fieldAt_def)
  obtain r where r: "drop d aKey = serialBytes m (sqlite3VdbeSerialType m ff) @ zeroTail m @ r"
    using assms by (auto simp: fieldAt_def fieldBody_def)
  obtain m' where m': "sqlite3VdbeSerialGet (drop d aKey) (sqlite3VdbeSerialType m ff) mem =
      Some (sqlite3VdbeSerialTypeLen (sqlite3VdbeSerialType m ff), m')" "memValue m' = memValue m"
    using serialGet_bytes [OF ok refl, of ff r mem] unfolding r by metis
  show thesis
    using that [of m'] m' serialGet_Some(2) [OF m'(1)] by (simp only: fieldBody_length [OF ok])
qed

lemma not_12_le: "intRange t i \<Longrightarrow> t < 12 \<and> t \<noteq> 0 \<and> t \<noteq> 7"
  by (auto simp: intRange_def word_less_nat_alt)

text \<open>
  The comparison of one field agrees with the order on values, for each kind of field on the
  right. If it finds the fields equal, the serial type it read is the true one, so that the loop
  advances correctly.
\<close>

definition fieldResult :: "(int \<times> u32) option \<Rightarrow> int \<Rightarrow> u32 \<Rightarrow> bool" where
  "fieldResult x c t \<longleftrightarrow> (\<exists>rc t'. x = Some (rc, t') \<and> sgn rc = c \<and> (rc = 0 \<longrightarrow> t' = t))"

lemma fieldResultI: "sgn rc = c \<Longrightarrow> (rc = 0 \<Longrightarrow> t' = t) \<Longrightarrow> fieldResult (Some (rc, t')) c t"
  by (simp add: fieldResult_def)

lemma sgn_compareDouble: "sgn (compareDouble r s) = compareDouble r s"
  by (simp add: compareDouble_def)

lemma compareField_Int:
  assumes f: "fieldAt ff m idx1 d1 aKey1" and k: "keyOk pRhs" and b2: "bit (mem_flags pRhs) 2"
    and t: "t = sqlite3VdbeSerialType m ff"
  shows "fieldResult (recordCompareField p mem1 nKey1 aKey1 pRhs i idx1 d1)
    (valueCompare c (memValue m) (memValue pRhs)) t"
proof -
  have ok: "memOk m" using f by (simp add: fieldAt_def)
  have v: "memValue pRhs = VInt (sint (mem_i pRhs))" using k b2 by (auto simp: keyOk_def memValue_def)
  from fieldAt_byte [OF f t] obtain b where b: "rd aKey1 idx1 = Some b"
    "t < 12 \<Longrightarrow> (ucast b :: u32) = t" "12 \<le> t \<Longrightarrow> 12 \<le> (ucast b :: u32)" by blast
  note step = recordCompareField_def flag_test b2 b(1) v Let_def
  show ?thesis
  proof (cases rule: field_kinds [OF ok t, case_names vnull vint vreal vtext vblob])
    case vnull
    with b show ?thesis by (auto simp: step word_less_nat_alt intro!: fieldResultI)
  next
    case vint
    with b(2) not_12_le [OF vint(2)] fieldAt_Int(2) [OF f t vint(2)] show ?thesis
      by (auto simp: step compareInt_order not_le [symmetric] intro!: fieldResultI)
  next
    case vreal
    with b(2) fieldAt_Real [OF f] t show ?thesis
      by (auto simp: step sgn_compareDouble word_less_nat_alt word_le_nat_alt intro!: fieldResultI)
  qed (use b(3) in \<open>auto simp: step intro!: fieldResultI\<close>)
qed

lemma compareField_Real:
  assumes f: "fieldAt ff m idx1 d1 aKey1" and k: "keyOk pRhs" and b3: "\<not> bit (mem_flags pRhs) 2" "bit (mem_flags pRhs) 3"
    and t: "t = sqlite3VdbeSerialType m ff"
  shows "fieldResult (recordCompareField p mem1 nKey1 aKey1 pRhs i idx1 d1)
    (valueCompare c (memValue m) (memValue pRhs)) t"
proof -
  have ok: "memOk m" using f by (simp add: fieldAt_def)
  have v: "memValue pRhs = VReal (mem_r pRhs)" using k b3 by (auto simp: keyOk_def memValue_def)
  from fieldAt_byte [OF f t] obtain b where b: "rd aKey1 idx1 = Some b"
    "t < 12 \<Longrightarrow> (ucast b :: u32) = t" "12 \<le> t \<Longrightarrow> 12 \<le> (ucast b :: u32)" by blast
  note step = recordCompareField_def flag_test b3 b(1) v Let_def
  show ?thesis
  proof (cases rule: field_kinds [OF ok t, case_names vnull vint vreal vtext vblob])
    case vnull
    with b show ?thesis by (auto simp: step word_less_nat_alt intro!: fieldResultI)
  next
    case vint
    with b(2) not_12_le [OF vint(2)] fieldAt_Int(1) [OF f t vint(2)] show ?thesis
      by (auto simp: step sgn_compareDouble not_le [symmetric] intro!: fieldResultI)
  next
    case vreal
    with b(2) fieldAt_Real [OF f] t show ?thesis
      by (auto simp: step sgn_compareDouble word_less_nat_alt word_le_nat_alt intro!: fieldResultI)
  qed (use b(3) in \<open>auto simp: step intro!: fieldResultI\<close>)
qed

lemma compareField_Str:
  assumes f: "fieldAt ff m idx1 d1 aKey1" and k: "keyOk pRhs"
    and b1: "\<not> bit (mem_flags pRhs) 2" "\<not> bit (mem_flags pRhs) 3" "bit (mem_flags pRhs) 1"
    and t: "t = sqlite3VdbeSerialType m ff" and n: "d1 + length (fieldBody ff m @ zeroTail m) \<le> nKey1"
    and c: "rd (ki_aColl (ur_keyInfo p)) i = Some c"
  shows "fieldResult (recordCompareField p mem1 nKey1 aKey1 pRhs i idx1 d1)
    (valueCompare c (memValue m) (memValue pRhs)) t"
proof -
  have ok: "memOk m" using f by (simp add: fieldAt_def)
  have v: "memValue pRhs = VText (mem_z pRhs)" using k b1 by (auto simp: keyOk_def memValue_def)
  note step = recordCompareField_def flag_test b1 [unfolded One_nat_def] v Let_def fieldAt_varint [OF f, folded t] c
  show ?thesis
  proof (cases rule: field_kinds [OF ok t, case_names vnull vint vreal vtext vblob])
    case vtext
    have x: "take (unat ((t - 12) div 2)) (drop d1 aKey1) = mem_z m @ zeroTail m"
        "\<not> length aKey1 < d1 + unat ((t - 12) div 2)" "\<not> nKey1 < d1 + unat ((t - 12) div 2)"
      using fieldAt_text [OF f t vtext(2) refl] n by (auto simp: not_less)
    show ?thesis
      using vtext x by (cases c) (auto simp: step compareBytes_order not_le [symmetric] intro!: fieldResultI)
  next
    case vint
    with not_12_le [OF vint(2)] show ?thesis by (auto simp: step intro!: fieldResultI)
  qed (auto simp: step word_less_nat_alt word_le_nat_alt intro!: fieldResultI)
qed

lemma compareField_Blob:
  assumes f: "fieldAt ff m idx1 d1 aKey1" and k: "keyOk pRhs"
    and b4: "\<not> bit (mem_flags pRhs) 2" "\<not> bit (mem_flags pRhs) 3" "\<not> bit (mem_flags pRhs) 1" "bit (mem_flags pRhs) 4"
    and t: "t = sqlite3VdbeSerialType m ff" and n: "d1 + length (fieldBody ff m @ zeroTail m) \<le> nKey1"
  shows "fieldResult (recordCompareField p mem1 nKey1 aKey1 pRhs i idx1 d1)
    (valueCompare c (memValue m) (memValue pRhs)) t"
proof -
  have ok: "memOk m" using f by (simp add: fieldAt_def)
  have v: "memValue pRhs = VBlob (mem_z pRhs)" using k b4 by (auto simp: keyOk_def memValue_def)
  note step = recordCompareField_def flag_test b4 [unfolded One_nat_def] v Let_def fieldAt_varint [OF f, folded t]
  show ?thesis
  proof (cases rule: field_kinds [OF ok t, case_names vnull vint vreal vtext vblob])
    case vblob
    have x: "take (unat ((t - 12) div 2)) (drop d1 aKey1) = mem_z m @ zeroTail m"
        "\<not> length aKey1 < d1 + unat ((t - 12) div 2)" "\<not> nKey1 < d1 + unat ((t - 12) div 2)"
      using fieldAt_text [OF f t vblob(2) refl] n by (auto simp: not_less)
    show ?thesis
      using vblob x by (auto simp: step compareBytes_order not_le [symmetric] intro!: fieldResultI)
  next
    case vint
    with not_12_le [OF vint(2)] show ?thesis by (auto simp: step intro!: fieldResultI)
  qed (auto simp: step word_less_nat_alt word_le_nat_alt intro!: fieldResultI)
qed

lemma compareField_Null:
  assumes f: "fieldAt ff m idx1 d1 aKey1" and k: "keyOk pRhs" and b0: "bit (mem_flags pRhs) 0"
    and t: "t = sqlite3VdbeSerialType m ff"
  shows "fieldResult (recordCompareField p mem1 nKey1 aKey1 pRhs i idx1 d1)
    (valueCompare c (memValue m) (memValue pRhs)) t"
proof -
  have ok: "memOk m" using f by (simp add: fieldAt_def)
  have v: "memValue pRhs = VNull" using b0 by (simp add: memValue_def)
  have nb: "\<not> bit (mem_flags pRhs) 1" "\<not> bit (mem_flags pRhs) 2" "\<not> bit (mem_flags pRhs) 3" "\<not> bit (mem_flags pRhs) 4"
    using k b0 by (auto simp: keyOk_def)
  from fieldAt_byte [OF f t] obtain b where b: "rd aKey1 idx1 = Some b"
    "t < 12 \<Longrightarrow> (ucast b :: u32) = t" "12 \<le> t \<Longrightarrow> 12 \<le> (ucast b :: u32)" by blast
  note step = recordCompareField_def flag_test nb [unfolded One_nat_def] b(1) v Let_def
  show ?thesis
  proof (cases rule: field_kinds [OF ok t, case_names vnull vint vreal vtext vblob])
    case vint
    with b(2) not_12_le [OF vint(2)] show ?thesis by (auto simp: step intro!: fieldResultI)
  qed (use b in \<open>auto simp: step word_less_nat_alt word_le_nat_alt intro!: fieldResultI\<close>)
qed

lemma compareField_ok:
  assumes "fieldAt ff m idx1 d1 aKey1" "keyOk pRhs" "d1 + length (fieldBody ff m @ zeroTail m) \<le> nKey1"
    and "rd (ki_aColl (ur_keyInfo p)) i = Some c"
  shows "fieldResult (recordCompareField p mem1 nKey1 aKey1 pRhs i idx1 d1)
    (valueCompare c (memValue m) (memValue pRhs)) (sqlite3VdbeSerialType m ff)"
proof -
  have "bit (mem_flags pRhs) 0 \<or> bit (mem_flags pRhs) 1 \<or> bit (mem_flags pRhs) 2 \<or> bit (mem_flags pRhs) 3
      \<or> bit (mem_flags pRhs) 4"
    using assms(2) by (simp add: keyOk_def memOk_def)
  then show ?thesis
    using compareField_Null [OF assms(1,2) _ refl] compareField_Int [OF assms(1,2) _ refl]
      compareField_Real [OF assms(1,2) _ _ refl] compareField_Str [OF assms(1,2) _ _ _ refl assms(3,4)]
      compareField_Blob [OF assms(1,2) _ _ _ _ refl assms(3)] by blast
qed

text \<open>
  \<open>sqlite3MemCompare\<close> on a cell read from a record. An integer cell of the key may also carry
  the real of the same value, so the comparison with a real does not depend on which one is used.
\<close>

lemma flag_numeric:
  "(f :: u16) AND (MEM_Int OR MEM_Real) = 0 \<longleftrightarrow> \<not> bit f 2 \<and> \<not> bit f 3"
proof -
  have "f AND (MEM_Int OR MEM_Real) = (f AND MEM_Int) OR (f AND MEM_Real)"
    by (simp only: bit.conj_disj_distrib)
  then show ?thesis by (simp only: or_eq_0_iff flag_test)
qed

lemma double_eq_compare:
  assumes "\<not> sqlite3IsNaN x" "\<not> sqlite3IsNaN y" "double_key x = double_key y"
  shows "compareDouble r x = compareDouble r y" "compareDouble x r = compareDouble y r"
  using assms by (simp_all add: compareDouble_def double_lt_def)

lemma key_real:
  assumes "keyOk m" "bit (mem_flags m) 2"
  shows "compareDouble r (if bit (mem_flags m) 3 then mem_r m else double_of_i64 (mem_i m)) =
    compareDouble r (double_of_i64 (mem_i m))"
  using assms by (auto simp: keyOk_def memOk_def intro!: double_eq_compare)

lemma memCompare_bits:
  "sqlite3MemCompare m1 m2 c =
    (let f1 = mem_flags m1; f2 = mem_flags m2 in
     if bit f1 0 \<or> bit f2 0 then of_bool (bit f2 0) - of_bool (bit f1 0)
     else if bit f1 2 \<or> bit f1 3 \<or> bit f2 2 \<or> bit f2 3 then
       (if bit f1 2 \<and> bit f2 2 then compareInt (mem_i m1) (mem_i m2)
        else if \<not> bit f1 2 \<and> \<not> bit f1 3 then 1
        else if \<not> bit f2 2 \<and> \<not> bit f2 3 then - 1
        else compareDouble (if bit f1 3 then mem_r m1 else double_of_i64 (mem_i m1))
               (if bit f2 3 then mem_r m2 else double_of_i64 (mem_i m2)))
     else if bit f2 1 \<and> \<not> bit f1 1 then 1
     else if bit f1 1 \<and> \<not> bit f2 1 then - 1
     else case (if bit f1 1 then c else None) of
         Some xCmp \<Rightarrow> xCmp (mem_z m1) (mem_z m2)
       | None \<Rightarrow> compareBytes (mem_z m1) (mem_z m2))"
proof -
  have u: "uint (f AND MEM_Null) = of_bool (bit f 0)" for f :: u16
    by (simp add: and_one_eq mod_2_eq_odd bit_0)
  have i: "f1 AND f2 AND MEM_Int = 0 \<longleftrightarrow> \<not> (bit f1 2 \<and> bit f2 2)" for f1 f2 :: u16
    using flag_test(3) [of "f1 AND f2"] by (simp only: and.assoc bit_and_iff)
  show ?thesis
    unfolding sqlite3MemCompare_def Let_def u i flag_test flag_numeric bit_or_iff not_not
    by (rule refl | rule if_cong | rule option.case_cong | blast)+
qed

lemma memCompare_order:
  assumes t: "memTyped m1" and k: "keyOk m2"
  shows "sgn (sqlite3MemCompare m1 m2 c) = valueCompare c (memValue m1) (memValue m2)"
proof -
  let ?f = "mem_flags m2"
  have ex: "bit ?f 0 \<or> bit ?f 1 \<or> bit ?f 2 \<or> bit ?f 3 \<or> bit ?f 4" and nz: "\<not> bit ?f 14"
    using k by (simp_all add: keyOk_def memOk_def)
  consider "mem_flags m1 = MEM_Null" | "mem_flags m1 = MEM_Int" | "mem_flags m1 = MEM_Real"
    | "mem_flags m1 = MEM_Str OR MEM_Ephem" | "mem_flags m1 = MEM_Blob OR MEM_Ephem"
    using t by (auto simp: memTyped_def)
  then show ?thesis
  proof cases
    case 1
    then show ?thesis by (simp add: memCompare_bits memValue_def Let_def)
  next
    case 2
    then show ?thesis using key_real [OF k]
      by (auto simp: memCompare_bits memValue_def Let_def bit_simps compareInt_order sgn_compareDouble)
  next
    case 3
    then show ?thesis using key_real [OF k]
      by (auto simp: memCompare_bits memValue_def Let_def bit_simps compareInt_order sgn_compareDouble)
  next
    case 4
    then show ?thesis using nz
      by (auto simp: memCompare_bits memValue_def Let_def bit_simps compareBytes_order split: option.splits)
  next
    case 5
    then show ?thesis using nz
      by (auto simp: memCompare_bits memValue_def Let_def bit_simps compareBytes_order)
  qed
qed

lemma sgn_valueCompare [simp]: "sgn (valueCompare c v w) = valueCompare c v w"
  by (cases v; cases w) (simp_all add: sgn_compareDouble bytesCompare_def split: option.splits)

section \<open>Walking over a record\<close>

text \<open>
  What both loops promise about one field of the record: a field that differs decides the result,
  reversed for a descending column; after equal fields the walk goes on behind the field, or ends
  with the default result when the header or the key is used up. \<open>walk rhs mem i idx d\<close> is the loop
  with the rest of the key, the scratch cell, the field number and the two offsets.
\<close>

locale record_walk =
  fixes walk :: "Mem list \<Rightarrow> Mem \<Rightarrow> nat \<Rightarrow> nat \<Rightarrow> nat \<Rightarrow> int option"
    and p :: UnpackedRecord and nKey1 :: nat and aKey1 :: bytes and szHdr1 :: nat
  assumes differ: "\<lbrakk>fieldAt ff m idx d aKey1; keyOk r; d + length (fieldBody ff m @ zeroTail m) \<le> nKey1;
      i < length (ki_aColl (ur_keyInfo p)); i < length (ki_aSortOrder (ur_keyInfo p));
      c = valueCompare (ki_aColl (ur_keyInfo p) ! i) (memValue m) (memValue r); c \<noteq> 0\<rbrakk> \<Longrightarrow>
      \<exists>rc. walk (r # rs) mem i idx d = Some rc \<and> sgn rc = (if ki_aSortOrder (ur_keyInfo p) ! i then - c else c)"
    and equal: "\<lbrakk>fieldAt ff m idx d aKey1; keyOk r; d + length (fieldBody ff m @ zeroTail m) \<le> nKey1;
      i < length (ki_aColl (ur_keyInfo p)); i < length (ki_aSortOrder (ur_keyInfo p));
      valueCompare (ki_aColl (ur_keyInfo p) ! i) (memValue m) (memValue r) = 0\<rbrakk> \<Longrightarrow>
      \<exists>mem'. walk (r # rs) mem i idx d =
        (if idx + length (fieldHdr ff m) < szHdr1 \<and> rs \<noteq> []
         then walk rs mem' (Suc i) (idx + length (fieldHdr ff m)) (d + length (fieldBody ff m @ zeroTail m))
         else Some (ur_default_rc p))"
begin

lemma hdr_more: "length P + length (fieldHdr ff m) < length (P @ hdrBytes ff (m # ms)) \<longleftrightarrow> ms \<noteq> []"
proof (cases ms)
  case (Cons m' ms')
  then show ?thesis using fieldHdr_pos [of ff m'] by auto
qed simp

lemma fieldAt_record:
  assumes "list_all memOk (m # ms)" "aKey1 = P @ hdrBytes ff (m # ms) @ W @ wholeBytes ff (m # ms) @ rest"
    "d = length (P @ hdrBytes ff (m # ms) @ W)"
  shows "fieldAt ff m (length P) d aKey1"
  using assms by (auto simp: fieldAt_def)

lemma walk_record:
  assumes "list_all memOk ms" "ms \<noteq> []" "list_all keyOk rs" "rs \<noteq> []"
    and "aKey1 = P @ hdrBytes ff ms @ W @ wholeBytes ff ms @ rest"
    and "szHdr1 = length (P @ hdrBytes ff ms)" "d = length (P @ hdrBytes ff ms @ W)"
    and "d + length (wholeBytes ff ms) \<le> nKey1"
    and "i + length rs \<le> length (ki_aColl (ur_keyInfo p))" "i + length rs \<le> length (ki_aSortOrder (ur_keyInfo p))"
  shows "\<exists>rc. walk rs mem i (length P) d = Some rc
    \<and> sgn rc = sgn (rowCompare (ur_keyInfo p) (ur_default_rc p) i (map memValue ms) (map memValue rs))"
  using assms
proof (induction ms arbitrary: rs P W d i mem)
  case (Cons m ms)
  obtain r rs' where rs: "rs = r # rs'" using Cons.prems(4) by (cases rs) auto
  let ?k = "ur_keyInfo p" and ?h = "fieldHdr ff m" and ?w = "fieldBody ff m @ zeroTail m"
  let ?c = "valueCompare (ki_aColl ?k ! i) (memValue m) (memValue r)"
  have f: "fieldAt ff m (length P) d aKey1" using Cons.prems by (intro fieldAt_record)
  have k: "keyOk r" "d + length ?w \<le> nKey1" "i < length (ki_aColl ?k)" "i < length (ki_aSortOrder ?k)"
    using Cons.prems by (simp_all add: rs)
  show ?case
  proof (cases "?c = 0")
    case False
    with differ [OF f k refl False, of rs' mem] show ?thesis by (auto simp: rs Let_def)
  next
    case True
    have more: "length P + length ?h < szHdr1 \<longleftrightarrow> ms \<noteq> []"
      using hdr_more [of P ff m ms] unfolding Cons.prems(6) .
    from equal [OF f k True] obtain mem' where "walk (r # rs') mem i (length P) d =
        (if length P + length ?h < szHdr1 \<and> rs' \<noteq> []
         then walk rs' mem' (Suc i) (length P + length ?h) (d + length ?w) else Some (ur_default_rc p))"
      by blast
    then have w: "walk rs mem i (length P) d =
        (if ms \<noteq> [] \<and> rs' \<noteq> [] then walk rs' mem' (Suc i) (length (P @ ?h)) (d + length ?w)
         else Some (ur_default_rc p))"
      unfolding rs more by simp
    show ?thesis
    proof (cases "ms \<noteq> [] \<and> rs' \<noteq> []")
      case go: True
      have "\<exists>rc. walk rs' mem' (Suc i) (length (P @ ?h)) (d + length ?w) = Some rc
          \<and> sgn rc = sgn (rowCompare ?k (ur_default_rc p) (Suc i) (map memValue ms) (map memValue rs'))"
        by (rule Cons.IH [where W = "W @ ?w"]) (use Cons.prems go rs in simp_all)
      with w go True show ?thesis by (simp add: rs)
    next
      case stop: False
      then have "rowCompare ?k (ur_default_rc p) (Suc i) (map memValue ms) (map memValue rs') = ur_default_rc p"
        by (cases ms; cases rs') simp_all
      with w stop True show ?thesis by (auto simp: rs)
    qed
  qed
qed simp

end

interpretation release: record_walk
  "\<lambda>rs mem i idx d. recordCompareLoop rs p mem1 nKey1 aKey1 szHdr1 i idx d" p nKey1 aKey1 szHdr1
  for p mem1 nKey1 aKey1 szHdr1
proof (unfold_locales, goal_cases)
  case (1 ff m idx d r i c rs)
  have "rd (ki_aColl (ur_keyInfo p)) i = Some (ki_aColl (ur_keyInfo p) ! i)" using 1(4) by (rule rd_in_range)
  from compareField_ok [OF 1(1-3) this, of mem1] obtain rc t'
    where "recordCompareField p mem1 nKey1 aKey1 r i idx d = Some (rc, t')" "sgn rc = c"
    unfolding fieldResult_def 1(6) by blast
  with 1 show ?case by (auto simp: rd_in_range)
next
  case (2 ff m idx d r i rs)
  have ok: "memOk m" using 2(1) by (simp add: fieldAt_def)
  have l: "length (fieldHdr ff m) = sqlite3VarintLen (ucast (sqlite3VdbeSerialType m ff))"
    by (simp add: fieldHdr_def putVarint32_eq varintLen_eq)
  have "rd (ki_aColl (ur_keyInfo p)) i = Some (ki_aColl (ur_keyInfo p) ! i)" using 2(4) by (rule rd_in_range)
  from compareField_ok [OF 2(1-3) this, of mem1] 2(6) have
    "recordCompareField p mem1 nKey1 aKey1 r i idx d = Some (0, sqlite3VdbeSerialType m ff)"
    by (auto simp: fieldResult_def sgn_0_0)
  with 2(3) show ?case
    unfolding fieldBody_length [OF ok] l by (simp add: Let_def)
qed

interpretation debug: record_walk
  "\<lambda>rs mem i idx d. recordCompareDebugLoop rs p mem nKey1 aKey1 szHdr1 i idx d" p nKey1 aKey1 szHdr1
  for p nKey1 aKey1 szHdr1
proof (unfold_locales, goal_cases)
  case (1 ff m idx d r i c rs mem)
  have ok: "memOk m" using 1(1) by (simp add: fieldAt_def)
  obtain m' where m': "sqlite3VdbeSerialGet (drop d aKey1) (sqlite3VdbeSerialType m ff) mem =
      Some (length (fieldBody ff m @ zeroTail m), m')" "memValue m' = memValue m" "memTyped m'"
    by (rule fieldAt_get [OF 1(1)])
  have "\<not> nKey1 < d + sqlite3VdbeSerialTypeLen (sqlite3VdbeSerialType m ff)"
    using 1(3) fieldBody_length [OF ok, of ff] by simp
  moreover have "sgn (sqlite3MemCompare m' r (ki_aColl (ur_keyInfo p) ! i)) = c"
    using memCompare_order [OF m'(3) 1(2)] m'(2) 1(6) by simp
  ultimately show ?case
    using 1(4,5,7) m'(1) by (auto simp: rd_in_range fieldAt_varint [OF 1(1)] Let_def)
next
  case (2 ff m idx d r i rs mem)
  have ok: "memOk m" using 2(1) by (simp add: fieldAt_def)
  obtain m' where m': "sqlite3VdbeSerialGet (drop d aKey1) (sqlite3VdbeSerialType m ff) mem =
      Some (length (fieldBody ff m @ zeroTail m), m')" "memValue m' = memValue m" "memTyped m'"
    by (rule fieldAt_get [OF 2(1)])
  have "\<not> nKey1 < d + sqlite3VdbeSerialTypeLen (sqlite3VdbeSerialType m ff)"
    using 2(3) fieldBody_length [OF ok, of ff] by simp
  moreover have "sqlite3MemCompare m' r (ki_aColl (ur_keyInfo p) ! i) = 0"
    using memCompare_order [OF m'(3) 2(2), of "ki_aColl (ur_keyInfo p) ! i"] m'(2) 2(6) by (simp add: sgn_0_0)
  ultimately show ?case
    using 2(4,5) m'(1) by (intro exI [of _ m']) (simp add: rd_in_range fieldAt_varint [OF 2(1)] Let_def)
qed

section \<open>Comparing a record with a key\<close>

text \<open>
  A record of the row \<open>ms\<close>, with its zero-filled end in place, and a key that fits the columns.
\<close>

definition isRecord :: "nat \<Rightarrow> Mem list \<Rightarrow> bytes \<Rightarrow> bool" where
  "isRecord ff ms rec \<longleftrightarrow> list_all memOk ms \<and> ms \<noteq> []
   \<and> rec = putVarint32 (of_nat (recordHdrSize (length (hdrBytes ff ms)))) @ hdrBytes ff ms @ wholeBytes ff ms
   \<and> recordHdrSize (length (hdrBytes ff ms)) < 2 ^ 31"

definition isKey :: "UnpackedRecord \<Rightarrow> bool" where
  "isKey p \<longleftrightarrow> list_all keyOk (ur_aMem p) \<and> ur_aMem p \<noteq> []
   \<and> length (ur_aMem p) \<le> length (ki_aColl (ur_keyInfo p))
   \<and> length (ur_aMem p) \<le> length (ki_aSortOrder (ur_keyInfo p))"

abbreviation recordOrder :: "Mem list \<Rightarrow> UnpackedRecord \<Rightarrow> int" where
  "recordOrder ms p \<equiv>
    sgn (rowCompare (ur_keyInfo p) (ur_default_rc p) 0 (map memValue ms) (map memValue (ur_aMem p)))"

definition ordered :: "int option \<Rightarrow> int \<Rightarrow> bool" where
  "ordered x c \<longleftrightarrow> (\<exists>rc. x = Some rc \<and> sgn rc = c)"

lemma orderedI: "x = Some rc \<Longrightarrow> sgn rc = c \<Longrightarrow> ordered x c"
  by (simp add: ordered_def)

lemma record_header:
  assumes "isRecord ff ms rec"
  shows "getVarint32 (rec @ pad) = Some (length (putVarint32 (of_nat (recordHdrSize (length (hdrBytes ff ms))))),
      of_nat (recordHdrSize (length (hdrBytes ff ms))))"
    and "unat (of_nat (recordHdrSize (length (hdrBytes ff ms))) :: u32) =
      length (putVarint32 (of_nat (recordHdrSize (length (hdrBytes ff ms)))) @ hdrBytes ff ms)"
proof -
  let ?n = "recordHdrSize (length (hdrBytes ff ms))"
  have lt: "?n < 2 ^ 31" using assms by (simp add: isRecord_def)
  show "getVarint32 (rec @ pad) = Some (length (putVarint32 (of_nat ?n)), of_nat ?n)"
    using assms by (simp add: isRecord_def putVarint32_eq getVarint32_eq getVarint_ref varint_ref_putVarint)
  have "unat (of_nat ?n :: u32) = ?n" using lt by (simp only: unat_of_nat) simp
  then show "unat (of_nat ?n :: u32) = length (putVarint32 (of_nat ?n) @ hdrBytes ff ms)"
    using hdrSize_split(2) [OF lt order_refl] by simp
qed

lemma compare_record:
  assumes r: "isRecord ff ms rec" and k: "isKey p"
  shows "ordered (sqlite3VdbeRecordCompare mem1 (length rec) (rec @ pad) p False) (recordOrder ms p)"
    and "ordered (vdbeRecordCompareDebug mem1 (length rec) (rec @ pad) p) (recordOrder ms p)"
proof -
  let ?h = "putVarint32 (of_nat (recordHdrSize (length (hdrBytes ff ms))))"
  note hd = record_header [OF r]
  have rec: "rec = ?h @ hdrBytes ff ms @ wholeBytes ff ms" using r by (simp add: isRecord_def)
  note walk = r [unfolded isRecord_def] k [unfolded isKey_def]
  have "\<exists>rc. recordCompareLoop (ur_aMem p) p mem1 (length rec) (rec @ pad) (length (?h @ hdrBytes ff ms)) 0
      (length ?h) (length (?h @ hdrBytes ff ms)) = Some rc \<and> sgn rc = recordOrder ms p"
    by (rule release.walk_record [where ff = ff and W = "[]" and rest = pad]) (use walk in auto)
  then show "ordered (sqlite3VdbeRecordCompare mem1 (length rec) (rec @ pad) p False) (recordOrder ms p)"
    by (simp add: sqlite3VdbeRecordCompare_def ordered_def hd)
  have "\<exists>rc. recordCompareDebugLoop (ur_aMem p) p mem1 (length rec) (rec @ pad) (length (?h @ hdrBytes ff ms)) 0
      (length ?h) (length (?h @ hdrBytes ff ms)) = Some rc \<and> sgn rc = recordOrder ms p"
    by (rule debug.walk_record [where ff = ff and W = "[]" and rest = pad]) (use walk in auto)
  then show "ordered (vdbeRecordCompareDebug mem1 (length rec) (rec @ pad) p) (recordOrder ms p)"
    by (simp add: vdbeRecordCompareDebug_def ordered_def hd)
qed

text \<open>A header of at most 127 bytes starts with a single byte, its size.\<close>

lemma fieldHdr_le5: "length (fieldHdr ff m) \<le> 5"
proof -
  have "unat (ucast (sqlite3VdbeSerialType m ff) :: u64) < 2 ^ 35"
    by (simp add: unsigned_ucast_eq take_bit_eq_mod less_trans [OF unat_u32_less])
  then show ?thesis
    using varintLen_iff [of 5 "ucast (sqlite3VdbeSerialType m ff)"]
    by (simp add: fieldHdr_def putVarint32_eq varintLen_eq)
qed

lemma hdrBytes_le: "length (hdrBytes ff ms) \<le> 5 * length ms"
  using fieldHdr_le5 by (induction ms) (simp_all add: add_mono)

lemma short_header:
  assumes "isRecord ff ms rec" "length (hdrBytes ff ms) \<le> 126" "n = length (hdrBytes ff ms) + 1"
  shows "rec = of_nat n # hdrBytes ff ms @ wholeBytes ff ms" "unat (of_nat n :: u8) = n"
proof -
  show u: "unat (of_nat n :: u8) = n" using assms(2,3) by (simp only: unat_of_nat) simp
  have u': "unat (of_nat n :: u32) = n" using assms(2,3) by (simp only: unat_of_nat) simp
  have "(of_nat n :: u32) < 0x80" using assms(2,3) u' by (simp add: word_less_nat_alt)
  moreover have "(ucast (of_nat n :: u32) :: u8) = of_nat n"
    using u u' assms(2,3) by (simp add: word_unat_eq_iff unsigned_ucast_eq take_bit_eq_mod)
  moreover have "recordHdrSize (length (hdrBytes ff ms)) = n" using assms(2,3) by (simp add: recordHdrSize_def)
  ultimately show "rec = of_nat n # hdrBytes ff ms @ wholeBytes ff ms"
    using assms(1) by (simp add: isRecord_def putVarint32_def)
qed

lemma compare_skip:
  assumes r: "isRecord ff (m # ms) rec" "ms \<noteq> []" "length (hdrBytes ff (m # ms)) \<le> 126"
    and k: "isKey p" "ur_aMem p = r # rs" "rs \<noteq> []"
  shows "ordered (sqlite3VdbeRecordCompare mem1 (length rec) (rec @ pad) p True)
    (sgn (rowCompare (ur_keyInfo p) (ur_default_rc p) 1 (map memValue ms) (map memValue rs)))"
proof -
  let ?n = "length (hdrBytes ff (m # ms)) + 1" and ?w = "fieldBody ff m @ zeroTail m"
  note sh = short_header [OF r(1,3) refl]
  have ok: "list_all memOk ms" "memOk m" using r(1) by (simp_all add: isRecord_def)
  have g: "getVarint32 (drop 1 (rec @ pad)) = Some (length (fieldHdr ff m), sqlite3VdbeSerialType m ff)"
    using sh(1) by (simp add: getVarint32_fieldHdr)
  have z: "rd (rec @ pad) 0 = Some (of_nat ?n)" unfolding sh(1) by simp
  let ?P = "of_nat ?n # fieldHdr ff m"
  have "\<exists>rc. recordCompareLoop rs p mem1 (length rec) (rec @ pad) ?n 1 (length ?P) (?n + length ?w) = Some rc
    \<and> sgn rc = sgn (rowCompare (ur_keyInfo p) (ur_default_rc p) 1 (map memValue ms) (map memValue rs))"
    by (rule release.walk_record [where ff = ff and W = ?w and rest = pad and ms = ms])
      (use r(2) ok k sh(1) in \<open>auto simp: isKey_def\<close>)
  then show ?thesis
    unfolding sqlite3VdbeRecordCompare_def ordered_def fieldBody_length [OF ok(2)]
    by (simp only: g z sh(2) if_True Option.bind.bind_lunit prod.case k(2)) simp
qed

lemma recordOrder_first:
  assumes "ur_aMem p = r # rs" "c = valueCompare (ki_aColl (ur_keyInfo p) ! 0) (memValue m) (memValue r)"
  shows "recordOrder (m # ms) p =
    (if c \<noteq> 0 then if ki_aSortOrder (ur_keyInfo p) ! 0 then - c else c
     else sgn (rowCompare (ur_keyInfo p) (ur_default_rc p) 1 (map memValue ms) (map memValue rs)))"
  using assms by (simp add: Let_def)

text \<open>
  Both specialised routines end the same way: the first fields differ, or they are equal and the
  rest is compared by the general routine.
\<close>

definition firstSet :: "UnpackedRecord \<Rightarrow> bool" where
  "firstSet p \<longleftrightarrow> ur_r1 p = (if ki_aSortOrder (ur_keyInfo p) ! 0 then 1 else - 1) \<and> ur_r2 p = - ur_r1 p"

definition compareTail :: "Mem \<Rightarrow> nat \<Rightarrow> bytes \<Rightarrow> UnpackedRecord \<Rightarrow> int option" where
  "compareTail mem1 nKey1 aKey1 p =
    (if length (ur_aMem p) > 1 then sqlite3VdbeRecordCompare mem1 nKey1 aKey1 p True else Some (ur_default_rc p))"

lemma compare_first:
  assumes r: "isRecord ff (m # ms) rec" "length (hdrBytes ff (m # ms)) \<le> 126" "length (ur_aMem p) \<le> length (m # ms)"
    and k: "isKey p" "ur_aMem p = r # rs" "firstSet p"
    and c: "c = valueCompare (ki_aColl (ur_keyInfo p) ! 0) (memValue m) (memValue r)"
  shows "c < 0 \<Longrightarrow> ordered (Some (ur_r1 p)) (recordOrder (m # ms) p)"
    "c > 0 \<Longrightarrow> ordered (Some (ur_r2 p)) (recordOrder (m # ms) p)"
    "c = 0 \<Longrightarrow> ordered (compareTail mem1 (length rec) (rec @ pad) p) (recordOrder (m # ms) p)"
proof -
  have s: "sgn c = c" unfolding c by simp
  show "c < 0 \<Longrightarrow> ordered (Some (ur_r1 p)) (recordOrder (m # ms) p)"
    "c > 0 \<Longrightarrow> ordered (Some (ur_r2 p)) (recordOrder (m # ms) p)"
    unfolding recordOrder_first [OF k(2) c] using k(3) s
    by (auto simp: firstSet_def ordered_def sgn_if split: if_splits)
  assume z: "c = 0"
  show "ordered (compareTail mem1 (length rec) (rec @ pad) p) (recordOrder (m # ms) p)"
  proof (cases "rs = []")
    case True
    then show ?thesis using k(2) z recordOrder_first [OF k(2) c] by (simp add: compareTail_def ordered_def)
  next
    case False
    then have "ms \<noteq> []" using r(3) k(2) by auto
    from compare_skip [OF r(1) this r(2) k(1,2) False] False k(2) z recordOrder_first [OF k(2) c]
    show ?thesis by (simp add: compareTail_def)
  qed
qed

lemma u8_of_type:
  assumes "(ucast b :: u32) = t"
  shows "unat (b :: u8) = unat t"
  using assms unat_ucast_u8 [of b] by simp

lemma compareInt_decode:
  assumes b: "rd pKey1 0 = Some b0" "rd pKey1 1 = Some b" "(ucast b :: u32) = t" "intRange t i"
    and k: "ur_aMem p = r # rs" and l: "vdbeRecordDecodeInt t (drop (unat (b0 AND 0x3F)) pKey1) = Some lhs"
  shows "vdbeRecordCompareInt mem1 nKey1 pKey1 p =
    (if lhs <s mem_i r then Some (ur_r1 p) else if mem_i r <s lhs then Some (ur_r2 p)
     else compareTail mem1 nKey1 pKey1 p)"
proof -
  have "t \<in> {1, 2, 3, 4, 5, 6, 8, 9}" using b(4) by (auto simp: intRange_def)
  then consider "t = 1" "b = 1" | "t = 2" "b = 2" | "t = 3" "b = 3" | "t = 4" "b = 4" | "t = 5" "b = 5"
    | "t = 6" "b = 6" | "t = 8" "b = 8" | "t = 9" "b = 9"
    using u8_of_type [OF b(3)] by (auto simp: word_unat_eq_iff)
  then show ?thesis
    by cases (use b(1,2) k l in \<open>simp_all add: vdbeRecordCompareInt_def vdbeRecordDecodeInt_def compareTail_def
        Let_def word_less_nat_alt del: Option.bind_assoc drop_drop\<close>)
qed

lemma and_3F: "unat (b :: u8) < 64 \<Longrightarrow> b AND 0x3F = b"
proof -
  assume "unat b < 64"
  moreover have "b AND 0x3F = take_bit 6 b" by (simp add: take_bit_eq_mask mask_eq_exp_minus_1)
  ultimately show ?thesis by (simp add: word_unat_eq_iff unsigned_take_bit_eq take_bit_eq_mod unat_mod)
qed

lemma compare_Int:
  assumes r: "isRecord ff (m # ms) rec" "length (m # ms) \<le> 13" "length (ur_aMem p) \<le> length (m # ms)"
    and k: "isKey p" "ur_aMem p = r # rs" "firstSet p" "bit (mem_flags r) 2"
  shows "ordered (vdbeRecordCompareInt mem1 (length rec) (rec @ pad) p) (recordOrder (m # ms) p)"
proof -
  let ?t = "sqlite3VdbeSerialType m ff" and ?n = "length (hdrBytes ff (m # ms)) + 1"
  have ok: "memOk m" using r(1) by (simp add: isRecord_def)
  have h5: "length (hdrBytes ff ms) \<le> 60" using hdrBytes_le [of ff ms] r(2) by simp
  then have h: "length (hdrBytes ff (m # ms)) \<le> 126" using fieldHdr_le5 [of ff m] by simp
  note sh = short_header [OF r(1) h refl]
  have z: "rd (rec @ pad) 0 = Some (of_nat ?n)" unfolding sh(1) by simp
  have d1: "drop 1 (rec @ pad) = fieldHdr ff m @ hdrBytes ff ms @ wholeBytes ff (m # ms) @ pad"
    unfolding sh(1) by simp
  obtain b where b: "rd (rec @ pad) 1 = Some b" "?t < 12 \<Longrightarrow> (ucast b :: u32) = ?t" "12 \<le> ?t \<Longrightarrow> 12 \<le> (ucast b :: u32)"
    using fieldHdr_byte [OF d1 refl] by blast
  have v: "memValue r = VInt (sint (mem_i r))" using k(1,2,4) by (auto simp: isKey_def keyOk_def memValue_def)
  show ?thesis
  proof (cases "intRange ?t (mem_i m) \<and> memValue m = VInt (sint (mem_i m))")
    case True
    then have t12: "?t < 12" using not_12_le by blast
    then have "length (fieldHdr ff m) = 1"
      using fieldHdr_length [OF refl, of m ff] by (simp add: word_less_nat_alt word_le_nat_alt)
    then have n64: "unat (of_nat ?n :: u8) < 64" unfolding sh(2) using h5 by simp
    have f: "fieldAt ff m 1 ?n (rec @ pad)"
      using ok sh(1) by (auto simp: fieldAt_def)
    have l: "vdbeRecordDecodeInt ?t (drop (unat ((of_nat ?n :: u8) AND 0x3F)) (rec @ pad)) = Some (mem_i m)"
      unfolding and_3F [OF n64] sh(2) using fieldAt_Int(2) [OF f refl] True by blast
    have c: "valueCompare (ki_aColl (ur_keyInfo p) ! 0) (memValue m) (memValue r) = sgn (sint (mem_i m) - sint (mem_i r))"
      using True v by simp
    note first = compare_first [OF r(1) h r(3) k(1,2,3) refl, unfolded c]
    note dec = compareInt_decode [OF z b(1) b(2) [OF t12] conjunct1 [OF True] k(2) l, unfolded word_sless_alt]
    consider "sint (mem_i m) < sint (mem_i r)" | "sint (mem_i r) < sint (mem_i m)" | "sint (mem_i m) = sint (mem_i r)"
      by linarith
    then show ?thesis
    proof cases
      case 1
      then show ?thesis using first(1) unfolding dec by (simp only: if_True) simp
    next
      case 2
      then have "\<not> sint (mem_i m) < sint (mem_i r)" by simp
      with 2 show ?thesis using first(2) unfolding dec by (simp only: if_True if_False) simp
    next
      case 3
      then show ?thesis using first(3) unfolding dec by (simp only: less_irrefl if_False) simp
    qed
  next
    case False
    have small: "b = k" if "?t = ucast k" "?t < 12" for k
      using u8_of_type [of b ?t] b(2) that by (simp add: word_unat_eq_iff unat_ucast_u8)
    have "b = 0 \<or> b = 7 \<or> 9 < b"
    proof (cases rule: field_kinds [OF ok refl, of ff, case_names vnull vint vreal vtext vblob])
      case vnull
      then show ?thesis using small [of 0] by (simp add: word_less_nat_alt)
    next
      case vint
      then show ?thesis using False by blast
    next
      case vreal
      then show ?thesis using small [of 7] by (simp add: word_less_nat_alt)
    qed (use b(3) in \<open>simp_all add: word_le_nat_alt word_less_nat_alt unat_ucast_u8\<close>)
    then have "vdbeRecordCompareInt mem1 (length rec) (rec @ pad) p =
        sqlite3VdbeRecordCompare mem1 (length rec) (rec @ pad) p False"
      using z b(1) k(2) by (auto simp: vdbeRecordCompareInt_def)
    then show ?thesis using compare_record(1) [OF r(1) k(1)] by simp
  qed
qed

lemma serialType_signed:
  assumes "memOk m" "t = sqlite3VdbeSerialType m ff"
  shows "t <s 12 \<longleftrightarrow> t < 12"
proof -
  have "unat t < 2 ^ 31"
  proof (cases "bit (mem_flags m) 0 \<or> bit (mem_flags m) 2 \<or> bit (mem_flags m) 3")
    case True
    then show ?thesis using serialType_small [OF True, of ff] assms(2) by (simp add: word_le_nat_alt)
  next
    case False
    have "length (mem_z m @ zeroTail m) \<le> SQLITE_MAX_LENGTH" using assms(1) by (auto simp: memOk_def zeroTail_def)
    then show ?thesis using False serialType_textual(7) [OF assms(1) _ _ _ assms(2)] by simp
  qed
  then have "int (unat t) < 2 ^ 31" by (simp only: of_nat_less_iff [symmetric, where 'a = int]) simp
  then have lt: "uint t < 2 ^ 31" by simp
  have "- (2 ^ 31) \<le> uint t" by (rule order_trans [OF _ uint_ge_0]) simp
  with lt have "signed_take_bit 31 (uint t) = uint t" by (rule signed_take_bit_int_eq_self [rotated])
  then have "sint t = uint t" by (simp add: sint_uint)
  then show ?thesis by (simp add: word_sless_alt word_less_def)
qed

lemma compareString_decode:
  assumes "getVarint32 (drop 1 aKey) = Some (l, t)" "rd aKey 0 = Some b0" "ur_aMem p = r # rs" "t <s 12 \<longleftrightarrow> t < 12"
    and z: "\<not> t < 12 \<Longrightarrow> unat b0 + unat ((t - 12) div 2) \<le> nKey \<and> nKey \<le> length aKey
      \<and> take (unat ((t - 12) div 2)) (drop (unat b0) aKey) = z"
  shows "vdbeRecordCompareString mem1 nKey aKey p =
    (if t < 12 then Some (ur_r1 p) else if t AND 1 = 0 then Some (ur_r2 p)
     else if compareBytes z (mem_z r) = 0 then compareTail mem1 nKey aKey p
     else if compareBytes z (mem_z r) > 0 then Some (ur_r2 p) else Some (ur_r1 p))"
  using assms by (auto simp: vdbeRecordCompareString_def Let_def compareTail_def)

lemma compare_String:
  assumes r: "isRecord ff (m # ms) rec" "length (m # ms) \<le> 13" "length (ur_aMem p) \<le> length (m # ms)"
    and k: "isKey p" "ur_aMem p = r # rs" "firstSet p" "\<not> bit (mem_flags r) 0" "\<not> bit (mem_flags r) 2"
      "\<not> bit (mem_flags r) 3" "\<not> bit (mem_flags r) 4" "ki_aColl (ur_keyInfo p) ! 0 = None"
  shows "ordered (vdbeRecordCompareString mem1 (length rec) (rec @ pad) p) (recordOrder (m # ms) p)"
proof -
  let ?t = "sqlite3VdbeSerialType m ff" and ?n = "length (hdrBytes ff (m # ms)) + 1"
  have ok: "memOk m" using r(1) by (simp add: isRecord_def)
  have h: "length (hdrBytes ff (m # ms)) \<le> 126" using hdrBytes_le [of ff "m # ms"] r(2) by simp
  note sh = short_header [OF r(1) h refl]
  have z: "rd (rec @ pad) 0 = Some (of_nat ?n)" unfolding sh(1) by simp
  have g: "getVarint32 (drop 1 (rec @ pad)) = Some (length (fieldHdr ff m), ?t)"
    unfolding sh(1) by (simp add: getVarint32_fieldHdr)
  have f: "fieldAt ff m 1 ?n (rec @ pad)" using ok sh(1) by (auto simp: fieldAt_def)
  have v: "memValue r = VText (mem_z r)" using k(1,2,4-7) by (auto simp: isKey_def keyOk_def memOk_def memValue_def)
  note first = compare_first [OF r(1) h r(3) k(1,2,3) refl, unfolded v k(8)]
  let ?z = "mem_z m @ zeroTail m"
  have tz: "take (unat ((?t - 12) div 2)) (drop ?n (rec @ pad)) = ?z"
      "?n + unat ((?t - 12) div 2) \<le> length rec" if "\<not> ?t < 12"
    using fieldAt_text [OF f refl _ refl] that sh(1) by simp_all
  have dec: "vdbeRecordCompareString mem1 (length rec) (rec @ pad) p =
      (if ?t < 12 then Some (ur_r1 p) else if ?t AND 1 = 0 then Some (ur_r2 p)
       else if compareBytes ?z (mem_z r) = 0 then compareTail mem1 (length rec) (rec @ pad) p
       else if compareBytes ?z (mem_z r) > 0 then Some (ur_r2 p) else Some (ur_r1 p))"
  proof (rule compareString_decode [OF g z k(2) serialType_signed [OF ok refl]])
    assume nt: "\<not> ?t < 12"
    show "unat (of_nat ?n :: u8) + unat ((?t - 12) div 2) \<le> length rec \<and> length rec \<le> length (rec @ pad)
      \<and> take (unat ((?t - 12) div 2)) (drop (unat (of_nat ?n :: u8)) (rec @ pad)) = ?z"
      unfolding sh(2) using tz [OF nt] by simp
  qed
  show ?thesis
  proof (cases rule: field_kinds [OF ok refl, of ff, case_names vnull vint vreal vtext vblob])
    case vtext
    have c: "valueCompare None (memValue m) (VText (mem_z r)) = sgn (compareBytes ?z (mem_z r))"
      using vtext(1) by (simp add: compareBytes_order)
    have t: "\<not> ?t < 12" using vtext(2) by simp
    consider "compareBytes ?z (mem_z r) < 0" | "compareBytes ?z (mem_z r) > 0" | "compareBytes ?z (mem_z r) = 0"
      by linarith
    then show ?thesis
    proof cases
      case 1
      then show ?thesis using first(1) [unfolded c] vtext(3) t unfolding dec by (simp only: if_False) simp
    next
      case 2
      then show ?thesis using first(2) [unfolded c] vtext(3) t unfolding dec by (simp only: if_False) simp
    next
      case 3
      then show ?thesis using first(3) [unfolded c] vtext(3) t unfolding dec by (simp only: if_False if_True simp_thms) simp
    qed
  next
    case vblob
    then have "0 < valueCompare None (memValue m) (VText (mem_z r))" "\<not> ?t < 12" by simp_all
    then show ?thesis using first(2) vblob(3) unfolding dec by (simp only: if_False if_True simp_thms)
  qed (use first(1) dec not_12_le in \<open>auto simp: word_less_nat_alt\<close>)
qed

lemma findCompare_cases:
  assumes r: "isRecord ff (m # ms) rec" "length (ur_aMem p) \<le> length (m # ms)"
      "length (m # ms) \<le> ki_nField (ur_keyInfo p) + ki_nXField (ur_keyInfo p)"
    and k: "isKey p"
  obtains p' f where "sqlite3VdbeFindCompare p = Some (p', f)"
    "ordered (recordCompareCall f mem1 (length rec) (rec @ pad) p') (recordOrder (m # ms) p)"
proof (cases "ki_nField (ur_keyInfo p) + ki_nXField (ur_keyInfo p) \<le> 13")
  case False
  then show thesis
    using that [of p CompareRecord] compare_record(1) [OF r(1) k, of mem1 pad]
    by (simp only: sqlite3VdbeFindCompare_def recordCompareCall_def RecordCompare.case if_False)
next
  case le: True
  let ?k = "ur_keyInfo p"
  obtain r0 rs where rs: "ur_aMem p = r0 # rs" using k by (cases "ur_aMem p") (auto simp: isKey_def)
  let ?d = "ki_aSortOrder ?k ! 0" and ?c = "ki_aColl ?k ! 0" and ?f = "mem_flags r0"
  define p' where "p' = (if ?d then p \<lparr> ur_r1 := 1, ur_r2 := - 1 \<rparr> else p \<lparr> ur_r1 := - 1, ur_r2 := 1 \<rparr>)"
  have p': "ur_aMem p' = r0 # rs" "ur_keyInfo p' = ?k" "ur_default_rc p' = ur_default_rc p" "isKey p'" "firstSet p'"
    using k rs by (auto simp: p'_def isKey_def firstSet_def)
  have o: "recordOrder (m # ms) p' = recordOrder (m # ms) p" using p' rs by simp
  have rd: "rd (ur_aMem p) 0 = Some r0" "rd (ki_aSortOrder ?k) 0 = Some ?d" "rd (ki_aColl ?k) 0 = Some ?c"
    using k rs by (auto simp: isKey_def rd_def)
  have flags: "?f AND (MEM_Real OR MEM_Null OR MEM_Blob) = 0 \<longleftrightarrow> \<not> bit ?f 3 \<and> \<not> bit ?f 0 \<and> \<not> bit ?f 4"
    by (simp only: bit.conj_disj_distrib or_eq_0_iff flag_test)
  have f: "sqlite3VdbeFindCompare p =
      Some (p', if bit ?f 2 then CompareInt
        else if \<not> bit ?f 3 \<and> \<not> bit ?f 0 \<and> \<not> bit ?f 4 \<and> ?c = None then CompareString else CompareRecord)"
    unfolding sqlite3VdbeFindCompare_def if_P [OF le] rd Option.bind.bind_lunit Let_def p'_def [symmetric] flags
    by (auto simp: flag_test Option.is_none_def)
  have l: "length (m # ms) \<le> 13" "length (ur_aMem p') \<le> length (m # ms)" using le r(2,3) p'(1) rs by simp_all
  have "ordered (recordCompareCall (if bit ?f 2 then CompareInt
        else if \<not> bit ?f 3 \<and> \<not> bit ?f 0 \<and> \<not> bit ?f 4 \<and> ?c = None then CompareString else CompareRecord)
        mem1 (length rec) (rec @ pad) p') (recordOrder (m # ms) p')"
    using compare_Int [OF r(1) l p'(4,1,5)] compare_String [OF r(1) l p'(4,1,5)] compare_record(1) [OF r(1) p'(4)] p'(2)
    unfolding recordCompareCall_def by (simp split del: if_split split: if_split_asm RecordCompare.split) auto
  then show thesis using that f unfolding o by blast
qed

lemma makeRecord_isRecord:
  assumes "list_all memOk (mk_fields q)" "mk_fields q \<noteq> []" "limit \<le> SQLITE_MAX_LENGTH" "\<not> mk_mallocFailed q'"
    and "OP_MakeRecord heap limit ff q = Some (q', SQLITE_OK)" "memValue (mk_out q') = VBlob rec"
  shows "isRecord ff (mk_fields q') rec" "map memValue (mk_fields q') = map memValue (mk_fields q)"
    "length (mk_fields q') = length (mk_fields q)"
proof -
  obtain rec' n where "memValue (mk_out q') = VBlob rec'"
    "rec' = putVarint32 (of_nat n) @ hdrBytes ff (mk_fields q') @ wholeBytes ff (mk_fields q')"
    "n = recordHdrSize (length (hdrBytes ff (mk_fields q')))" "n < 2 ^ 31"
    "list_all2 (sameField ff) (mk_fields q) (mk_fields q')"
    by (rule makeRecord_values [OF assms(1,3,4,5)])
  then show "isRecord ff (mk_fields q') rec" "map memValue (mk_fields q') = map memValue (mk_fields q)"
    "length (mk_fields q') = length (mk_fields q)"
    using assms(2,6) sameField_values [of ff "mk_fields q" "mk_fields q'"]
    by (auto simp: isRecord_def dest: list_all2_lengthD)
qed

section \<open>Properties\<close>

text \<open>\<open>sqlite3VdbeRecordCompare\<close>, which never decodes the record, agrees with the order on rows:
  on a record built by \<open>OP_MakeRecord\<close>, with any bytes behind it, and any well-formed key, it
  stays inside the record and its result has the sign of the comparison of the row with the key,
  column by column, with collations, descending columns and the default result when one side has
  fewer fields.\<close>

theorem sqlite3VdbeRecordCompare_correct:
  assumes "list_all memOk (mk_fields q)" "mk_fields q \<noteq> []" "limit \<le> SQLITE_MAX_LENGTH" "\<not> mk_mallocFailed q'"
    and "OP_MakeRecord heap limit ff q = Some (q', SQLITE_OK)" "memValue (mk_out q') = VBlob rec" "isKey p"
  shows "\<exists>rc. sqlite3VdbeRecordCompare mem1 (length rec) (rec @ pad) p False = Some rc
    \<and> sgn rc = sgn (rowCompare (ur_keyInfo p) (ur_default_rc p) 0
        (map memValue (mk_fields q)) (map memValue (ur_aMem p)))"
  using compare_record(1) [OF makeRecord_isRecord(1) [OF assms(1-6)] assms(7)] makeRecord_isRecord(2) [OF assms(1-6)]
  by (simp add: ordered_def)

definition exampleKey :: UnpackedRecord where
  "exampleKey =
    \<lparr> ur_keyInfo = \<lparr> ki_nField = 2, ki_nXField = 2, ki_aSortOrder = [False, True, False, False],
        ki_aColl = [None, None, None, None] \<rparr>,
      ur_default_rc = 0, ur_aMem = [exampleCell MEM_Int 300 [] 0, exampleCell MEM_Blob 0 [8] 0],
      ur_r1 = 0, ur_r2 = 0 \<rparr>"

lemma exampleKey_ok: "isKey exampleKey"
  by (simp add: isKey_def exampleKey_def exampleCell_def keyOk_def memOk_def)

abbreviation exampleRecord :: bytes where
  "exampleRecord \<equiv> [5, 2, 18, 17, 20, 1, 44, 7, 0, 0, 0x61, 0x62, 9, 0, 0, 0]"

lemma exampleRecord_made:
  obtains q' where "OP_MakeRecord (\<lambda>_. 0xAA) 1000 4 exampleRow = Some (q', SQLITE_OK)" "\<not> mk_mallocFailed q'"
    "memValue (mk_out q') = VBlob exampleRecord"
proof -
  have "map_option (\<lambda>(p, rc). (rc, mk_mallocFailed p, memValue (mk_out p))) (OP_MakeRecord (\<lambda>_. 0xAA) 1000 4 exampleRow)
      = Some (SQLITE_OK, False, VBlob exampleRecord)" by code_simp
  then show thesis by (auto intro: that)
qed

theorem sqlite3VdbeRecordCompare_correct_witness:
  "isKey exampleKey \<and>
   (\<exists>rc. sqlite3VdbeRecordCompare (exampleCell MEM_Null 0 [] 0) (length exampleRecord) (exampleRecord @ [1, 2]) exampleKey False = Some rc
      \<and> sgn rc = 1)"
proof -
  have o: "sgn (rowCompare (ur_keyInfo exampleKey) (ur_default_rc exampleKey) 0
      (map memValue (mk_fields exampleRow)) (map memValue (ur_aMem exampleKey))) = 1" by code_simp
  obtain q' where q': "OP_MakeRecord (\<lambda>_. 0xAA) 1000 4 exampleRow = Some (q', SQLITE_OK)" "\<not> mk_mallocFailed q'"
    "memValue (mk_out q') = VBlob exampleRecord" by (rule exampleRecord_made)
  have "mk_fields exampleRow \<noteq> []" by (simp add: exampleRow_def)
  from sqlite3VdbeRecordCompare_correct [OF exampleRow_ok this _ q'(2,1,3) exampleKey_ok,
      of "exampleCell MEM_Null 0 [] 0" "[1, 2]", unfolded o]
  show ?thesis using exampleKey_ok by simp
qed

text \<open>C16. The routine that \<open>sqlite3VdbeFindCompare\<close> selects agrees with the slow routine of the
  debug build, the assertion that the code makes after every comparison, and with the order on
  rows: for every record that \<open>OP_MakeRecord\<close> has built with at least as many fields as the key and at
  most the columns of the index, \<^verbatim>\<open>nField+nXField\<close>, whatever bytes follow it. For a key with more fields than
  the record the selected routine may differ, as shown below.\<close>

theorem sqlite3VdbeFindCompare_correct:
  assumes "list_all memOk (mk_fields q)" "mk_fields q \<noteq> []" "limit \<le> SQLITE_MAX_LENGTH" "\<not> mk_mallocFailed q'"
    and "OP_MakeRecord heap limit ff q = Some (q', SQLITE_OK)" "memValue (mk_out q') = VBlob rec" "isKey p"
    and "length (ur_aMem p) \<le> length (mk_fields q)"
    and "length (mk_fields q) \<le> ki_nField (ur_keyInfo p) + ki_nXField (ur_keyInfo p)"
  shows "\<exists>p' f rc rc'. sqlite3VdbeFindCompare p = Some (p', f)
    \<and> recordCompareCall f mem1 (length rec) (rec @ pad) p' = Some rc
    \<and> vdbeRecordCompareDebug mem1 (length rec) (rec @ pad) p = Some rc' \<and> sgn rc = sgn rc'
    \<and> sgn rc = sgn (rowCompare (ur_keyInfo p) (ur_default_rc p) 0
        (map memValue (mk_fields q)) (map memValue (ur_aMem p)))"
proof -
  note mk = makeRecord_isRecord [OF assms(1-6)]
  obtain m ms where ms: "mk_fields q' = m # ms" using mk(3) assms(2) by (cases "mk_fields q'") auto
  obtain p' f where f: "sqlite3VdbeFindCompare p = Some (p', f)"
      "ordered (recordCompareCall f mem1 (length rec) (rec @ pad) p') (recordOrder (mk_fields q') p)"
    by (rule findCompare_cases [OF mk(1) [unfolded ms] _ _ assms(7)]) (use assms(8,9) mk(3) ms in simp_all)
  have d: "ordered (vdbeRecordCompareDebug mem1 (length rec) (rec @ pad) p) (recordOrder (mk_fields q') p)"
    by (rule compare_record(2) [OF mk(1) assms(7)])
  show ?thesis using f d unfolding mk(2) ordered_def by auto
qed

theorem sqlite3VdbeFindCompare_correct_witness:
  "isKey exampleKey \<and>
   (\<exists>p' f rc. sqlite3VdbeFindCompare exampleKey = Some (p', f)
      \<and> recordCompareCall f (exampleCell MEM_Null 0 [] 0) (length exampleRecord) (exampleRecord @ [1, 2]) p' = Some rc \<and> sgn rc = 1)"
proof -
  have o: "sgn (rowCompare (ur_keyInfo exampleKey) (ur_default_rc exampleKey) 0
      (map memValue (mk_fields exampleRow)) (map memValue (ur_aMem exampleKey))) = 1" by code_simp
  obtain q' where q': "OP_MakeRecord (\<lambda>_. 0xAA) 1000 4 exampleRow = Some (q', SQLITE_OK)" "\<not> mk_mallocFailed q'"
    "memValue (mk_out q') = VBlob exampleRecord" by (rule exampleRecord_made)
  have "mk_fields exampleRow \<noteq> []" "length (ur_aMem exampleKey) \<le> length (mk_fields exampleRow)"
    "length (mk_fields exampleRow) \<le> ki_nField (ur_keyInfo exampleKey) + ki_nXField (ur_keyInfo exampleKey)"
    by (simp_all add: exampleRow_def exampleKey_def)
  from sqlite3VdbeFindCompare_correct [OF exampleRow_ok this(1) _ q'(2,1,3) exampleKey_ok this(2,3),
      of "exampleCell MEM_Null 0 [] 0" "[1, 2]", unfolded o]
  show ?thesis using exampleKey_ok by auto
qed

section \<open>Where the routines differ from their comments\<close>

text \<open>
  The comment on \<open>sqlite3VdbeRecordCompare\<close> says that the keys need not have the same number of
  fields. With \<open>bSkip\<close> set the loop is entered without a look at the end of the header: for a
  record of one field that equals the first of two fields of the key, the specialised routine
  takes the first byte of the content for a serial type. Here the record is the integer 5, the
  key is (5, NULL): the general routine returns the default result, the specialised one 1.
\<close>

lemma compareInt_one_field:
  "let p = exampleKey \<lparr> ur_aMem := [exampleCell MEM_Int 5 [] 0, exampleCell MEM_Null 0 [] 0], ur_r1 := - 1, ur_r2 := 1,
             ur_keyInfo := (ur_keyInfo exampleKey) \<lparr> ki_aSortOrder := [False, False, False, False] \<rparr> \<rparr>;
       rec = [2, 1, 5]; c = exampleCell MEM_Null 0 [] 0 in
   sqlite3VdbeRecordCompare c 3 rec p False = Some 0 \<and> vdbeRecordCompareInt c 3 rec p = Some 1"
  by code_simp

text \<open>
  The comment on \<open>sqlite3MemCompare\<close> says that numbers are sorted numerically. An integer and a
  real are compared after rounding the integer to a double: \<open>2 ^ 53 + 1\<close> is equal to the real
  \<open>2 ^ 53\<close>, which is equal to the integer \<open>2 ^ 53\<close>, and the two integers differ.
\<close>

lemma memCompare_rounds:
  "let i = exampleCell MEM_Int 9007199254740993 [] 0; j = exampleCell MEM_Int 9007199254740992 [] 0;
       r = (exampleCell MEM_Real 0 [] 0) \<lparr> mem_r := 0x4340000000000000 \<rparr> in
   sqlite3MemCompare i r None = 0 \<and> sqlite3MemCompare r j None = 0 \<and> sqlite3MemCompare i j None = 1"
  by code_simp

end
