(* ===== verification/Utf.thy ===== *)
theory Utf
  imports Serial
begin

text \<open>
  Text encodings, from \<^verbatim>\<open>utf.c\<close>: the macros that read and write one character in UTF-8 and in
  both byte orders of UTF-16, the conversion of a cell between the three encodings, and the
  functions that count characters. A reader returns the character and the rest of the input; an
  input iterator with an end pointer is the list of bytes up to that end. The size of the output buffer of a
  conversion is computed in a signed int, and its overflow makes the conversion undefined.
\<close>

section \<open>Single characters\<close>

definition sqlite3Utf8Trans1 :: "u32 list" where
  "sqlite3Utf8Trans1 = [
    0x00, 0x01, 0x02, 0x03, 0x04, 0x05, 0x06, 0x07,
    0x08, 0x09, 0x0a, 0x0b, 0x0c, 0x0d, 0x0e, 0x0f,
    0x10, 0x11, 0x12, 0x13, 0x14, 0x15, 0x16, 0x17,
    0x18, 0x19, 0x1a, 0x1b, 0x1c, 0x1d, 0x1e, 0x1f,
    0x00, 0x01, 0x02, 0x03, 0x04, 0x05, 0x06, 0x07,
    0x08, 0x09, 0x0a, 0x0b, 0x0c, 0x0d, 0x0e, 0x0f,
    0x00, 0x01, 0x02, 0x03, 0x04, 0x05, 0x06, 0x07,
    0x00, 0x01, 0x02, 0x03, 0x00, 0x01, 0x00, 0x00]"

definition WRITE_UTF8 :: "u32 \<Rightarrow> bytes" where
  "WRITE_UTF8 c =
    (if c < 0x00080 then [ucast (c AND 0xFF)]
     else if c < 0x00800 then
       [0xC0 + ucast (drop_bit 6 c AND 0x1F), 0x80 + ucast (c AND 0x3F)]
     else if c < 0x10000 then
       [0xE0 + ucast (drop_bit 12 c AND 0x0F), 0x80 + ucast (drop_bit 6 c AND 0x3F),
        0x80 + ucast (c AND 0x3F)]
     else
       [0xF0 + ucast (drop_bit 18 c AND 0x07), 0x80 + ucast (drop_bit 12 c AND 0x3F),
        0x80 + ucast (drop_bit 6 c AND 0x3F), 0x80 + ucast (c AND 0x3F)])"

definition WRITE_UTF16LE :: "u32 \<Rightarrow> bytes" where
  "WRITE_UTF16LE c =
    (if c \<le> 0xFFFF then [ucast (c AND 0x00FF), ucast (drop_bit 8 c AND 0x00FF)]
     else
       [ucast ((drop_bit 10 c AND 0x003F) + (drop_bit 10 (c - 0x10000) AND 0x00C0)),
        ucast (0x00D8 + (drop_bit 18 (c - 0x10000) AND 0x03)),
        ucast (c AND 0x00FF), ucast (0x00DC + (drop_bit 8 c AND 0x03))])"

definition WRITE_UTF16BE :: "u32 \<Rightarrow> bytes" where
  "WRITE_UTF16BE c =
    (if c \<le> 0xFFFF then [ucast (drop_bit 8 c AND 0x00FF), ucast (c AND 0x00FF)]
     else
       [ucast (0x00D8 + (drop_bit 18 (c - 0x10000) AND 0x03)),
        ucast ((drop_bit 10 c AND 0x003F) + (drop_bit 10 (c - 0x10000) AND 0x00C0)),
        ucast (0x00DC + (drop_bit 8 c AND 0x03)), ucast (c AND 0x00FF)])"

text \<open>
  The argument \<^verbatim>\<open>TERM\<close> of the UTF-16 readers is evaluated after the first two bytes are read: a
  predicate on the rest of the input. Reading past the end of the input is \<open>None\<close>.
\<close>

definition surrogatePair :: "u32 \<Rightarrow> u32 \<Rightarrow> u32" where
  "surrogatePair c c2 =
    (c2 AND 0x03FF) + push_bit 10 (c AND 0x003F) + push_bit 10 ((c AND 0x03C0) + 0x0040)"

fun READ_UTF16LE :: "(bytes \<Rightarrow> bool) \<Rightarrow> bytes \<Rightarrow> (u32 \<times> bytes) option" where
  "READ_UTF16LE T (b0 # b1 # zIn) =
    (let c = ucast b0 + push_bit 8 (ucast b1) in
     if 0xD800 \<le> c \<and> c < 0xE000 \<and> T zIn then
       (case zIn of
          b2 # b3 # zIn \<Rightarrow> Some (surrogatePair c (ucast b2 + push_bit 8 (ucast b3)), zIn)
        | _ \<Rightarrow> None)
     else Some (c, zIn))"
| "READ_UTF16LE T _ = None"

fun READ_UTF16BE :: "(bytes \<Rightarrow> bool) \<Rightarrow> bytes \<Rightarrow> (u32 \<times> bytes) option" where
  "READ_UTF16BE T (b0 # b1 # zIn) =
    (let c = push_bit 8 (ucast b0) + ucast b1 in
     if 0xD800 \<le> c \<and> c < 0xE000 \<and> T zIn then
       (case zIn of
          b2 # b3 # zIn \<Rightarrow> Some (surrogatePair c (push_bit 8 (ucast b2) + ucast b3), zIn)
        | _ \<Rightarrow> None)
     else Some (c, zIn))"
| "READ_UTF16BE T _ = None"

text \<open>The loop over the continuation bytes, up to the end of the input.\<close>

fun utf8Continue :: "u32 \<Rightarrow> bytes \<Rightarrow> u32 \<times> bytes" where
  "utf8Continue c [] = (c, [])"
| "utf8Continue c (b # zIn) =
    (if b AND 0xc0 = 0x80 then utf8Continue (push_bit 6 c + (0x3f AND ucast b)) zIn else (c, b # zIn))"

definition utf8Replace :: "u32 \<Rightarrow> u32" where
  "utf8Replace c =
    (if c < 0x80 \<or> c AND 0xFFFFF800 = 0xD800 \<or> c AND 0xFFFFFFFE = 0xFFFE then 0xFFFD else c)"

definition READ_UTF8 :: "bytes \<Rightarrow> (u32 \<times> bytes) option" where
  "READ_UTF8 zIn =
    (case zIn of
       [] \<Rightarrow> None
     | b # zIn \<Rightarrow>
         let c = ucast b :: u32 in
         if 0xc0 \<le> c then
           case utf8Continue (sqlite3Utf8Trans1 ! unat (c - 0xc0)) zIn of (c, zIn) \<Rightarrow> Some (utf8Replace c, zIn)
         else Some (c, zIn))"

text \<open>
  \<open>sqlite3Utf8Read\<close> has no end pointer: it relies on the zero byte at the end of the string. The
  list holds the bytes of the buffer, the zero included, and reading past it is \<open>None\<close>.
\<close>

fun utf8ReadContinue :: "u32 \<Rightarrow> bytes \<Rightarrow> (u32 \<times> bytes) option" where
  "utf8ReadContinue c [] = None"
| "utf8ReadContinue c (b # z) =
    (if b AND 0xc0 = 0x80 then utf8ReadContinue (push_bit 6 c + (0x3f AND ucast b)) z else Some (c, b # z))"

definition sqlite3Utf8Read :: "bytes \<Rightarrow> (u32 \<times> bytes) option" where
  "sqlite3Utf8Read z =
    (case z of
       [] \<Rightarrow> None
     | b # z \<Rightarrow>
         let c = ucast b :: u32 in
         if 0xc0 \<le> c then
           do { (c, z) \<leftarrow> utf8ReadContinue (sqlite3Utf8Trans1 ! unat (c - 0xc0)) z; Some (utf8Replace c, z) }
         else Some (c, z))"

section \<open>Conversion of a cell\<close>

text \<open>\<open>putOut\<close> appends to the output buffer of \<open>len\<close> bytes; writing past its end is \<open>None\<close>.\<close>

definition putOut :: "nat \<Rightarrow> bytes \<Rightarrow> bytes \<Rightarrow> bytes option" where
  "putOut len zOut bs = (if length zOut + length bs \<le> len then Some (zOut @ bs) else None)"

lemma utf8Continue_length: "length (snd (utf8Continue c z)) \<le> length z"
  by (induction c z rule: utf8Continue.induct) auto

lemma READ_UTF8_length [termination_simp]: "READ_UTF8 z = Some (c, z') \<Longrightarrow> length z' < length z"
proof (cases z)
  case (Cons b zs)
  assume "READ_UTF8 z = Some (c, z')"
  then show ?thesis
    using utf8Continue_length [of "sqlite3Utf8Trans1 ! unat ((ucast b :: u32) - 0xc0)" zs]
    by (auto simp: Cons READ_UTF8_def Let_def split: if_splits prod.splits)
qed (simp add: READ_UTF8_def)

lemma READ_UTF16_length [termination_simp]:
  "READ_UTF16LE T z = Some (c, z') \<Longrightarrow> length z' < length z"
  "READ_UTF16BE T z = Some (c, z') \<Longrightarrow> length z' < length z"
  by (cases "(T, z)" rule: READ_UTF16LE.cases; auto simp: Let_def split: if_splits list.splits)
    (cases "(T, z)" rule: READ_UTF16BE.cases; auto simp: Let_def split: if_splits list.splits)

fun utf8to16Loop :: "(u32 \<Rightarrow> bytes) \<Rightarrow> nat \<Rightarrow> bytes \<Rightarrow> bytes \<Rightarrow> bytes option" where
  "utf8to16Loop WRITE len zIn z =
    (if zIn = [] then Some z
     else
       case READ_UTF8 zIn of
         None \<Rightarrow> None
       | Some (c, zIn) \<Rightarrow> putOut len z (WRITE c) \<bind> utf8to16Loop WRITE len zIn)"

declare utf8to16Loop.simps [simp del]

fun utf16leLoop :: "nat \<Rightarrow> bytes \<Rightarrow> bytes \<Rightarrow> bytes option" where
  "utf16leLoop len zIn z =
    (if zIn = [] then Some z
     else
       case READ_UTF16LE (\<lambda>zIn. zIn \<noteq> []) zIn of
         None \<Rightarrow> None
       | Some (c, zIn) \<Rightarrow> putOut len z (WRITE_UTF8 c) \<bind> utf16leLoop len zIn)"

declare utf16leLoop.simps [simp del]

fun utf16beLoop :: "nat \<Rightarrow> bytes \<Rightarrow> bytes \<Rightarrow> bytes option" where
  "utf16beLoop len zIn z =
    (if zIn = [] then Some z
     else
       case READ_UTF16BE (\<lambda>zIn. zIn \<noteq> []) zIn of
         None \<Rightarrow> None
       | Some (c, zIn) \<Rightarrow> putOut len z (WRITE_UTF8 c) \<bind> utf16beLoop len zIn)"

declare utf16beLoop.simps [simp del]

text \<open>
  \<open>sqlite3VdbeMemMakeWriteable\<close> copies the bytes into the private buffer unless they are there.
  By the invariant of \<open>sqlite3VdbeCheckMemInvariants\<close> a string or blob is in the private buffer
  exactly if none of the flags Dyn, Ephem and Static is set.
\<close>

definition sqlite3VdbeMemMakeWriteable :: "allocs \<Rightarrow> Mem \<Rightarrow> allocs \<times> Mem \<times> rcode" where
  "sqlite3VdbeMemMakeWriteable al pMem =
    (case (if mem_flags pMem AND MEM_Zero \<noteq> 0 then sqlite3VdbeMemExpandBlob al pMem else (al, pMem, SQLITE_OK)) of
       (al, pMem, _) \<Rightarrow>
         let f = mem_flags pMem in
         if f AND (MEM_Str OR MEM_Blob) \<noteq> 0 \<and> f AND (MEM_Dyn OR MEM_Ephem OR MEM_Static) \<noteq> 0 then
           case sqlite3VdbeMemGrow al pMem (length (mem_z pMem) + 2) of
             (al, pMem, rc) \<Rightarrow>
               if rc \<noteq> SQLITE_OK then (al, pMem, SQLITE_NOMEM)
               else (al, pMem \<lparr> mem_flags := mem_flags pMem OR MEM_Term \<rparr>, SQLITE_OK)
         else (al, pMem, SQLITE_OK))"

fun swapBytes :: "bytes \<Rightarrow> bytes" where
  "swapBytes (b0 # b1 # zIn) = b1 # b0 # swapBytes zIn"
| "swapBytes zIn = zIn"

text \<open>
  Of the output buffer the \<open>n\<close> bytes of text are kept, its size becomes that of the private
  buffer, and the terminating zeros, one or two bytes, have to fit. The odd byte at the end of a
  UTF-16 text is dropped before the buffer is allocated. The size of the buffer is a signed int; when
  the computation overflows it has no defined result: \<open>None\<close>.
\<close>

definition sqlite3VdbeMemTranslate :: "allocs \<Rightarrow> Mem \<Rightarrow> u8 \<Rightarrow> (allocs \<times> Mem \<times> rcode) option" where
  "sqlite3VdbeMemTranslate al pMem desiredEnc =
    (if mem_enc pMem \<noteq> SQLITE_UTF8 \<and> desiredEnc \<noteq> SQLITE_UTF8 then
       case sqlite3VdbeMemMakeWriteable al pMem of
         (al, pMem, rc) \<Rightarrow>
           if rc \<noteq> SQLITE_OK then Some (al, pMem, SQLITE_NOMEM)
           else Some (al, pMem \<lparr> mem_z := swapBytes (mem_z pMem), mem_enc := desiredEnc \<rparr>, SQLITE_OK)
     else
       let pMem = (if desiredEnc = SQLITE_UTF8
                   then pMem \<lparr> mem_z := take (length (mem_z pMem) - length (mem_z pMem) mod 2) (mem_z pMem) \<rparr>
                   else pMem);
           n = length (mem_z pMem);
           len = (if desiredEnc = SQLITE_UTF8 then n * 2 + 1 else n * 2 + 2) in
       if \<not> fits_int len then None
       else case sqlite3_alloc al of
         (False, al) \<Rightarrow> Some (al, pMem, SQLITE_NOMEM)
       | (True, al) \<Rightarrow>
           do { zOut \<leftarrow> (if mem_enc pMem = SQLITE_UTF8 then
                          if desiredEnc = SQLITE_UTF16LE then utf8to16Loop WRITE_UTF16LE len (mem_z pMem) []
                          else utf8to16Loop WRITE_UTF16BE len (mem_z pMem) []
                        else if mem_enc pMem = SQLITE_UTF16LE then utf16leLoop len (mem_z pMem) []
                        else utf16beLoop len (mem_z pMem) []);
                _ \<leftarrow> putOut len zOut (if mem_enc pMem = SQLITE_UTF8 then [0, 0] else [0]);
                Some (al, pMem \<lparr> mem_z := zOut, mem_szMalloc := len, mem_enc := desiredEnc,
                        mem_flags := (mem_flags pMem AND NOT (MEM_Static OR MEM_Dyn OR MEM_Ephem)) OR MEM_Term \<rparr>,
                      SQLITE_OK) })"

definition sqlite3VdbeChangeEncoding :: "allocs \<Rightarrow> Mem \<Rightarrow> u8 \<Rightarrow> (allocs \<times> Mem \<times> rcode) option" where
  "sqlite3VdbeChangeEncoding al pMem desiredEnc =
    (if mem_flags pMem AND MEM_Str = 0 \<or> mem_enc pMem = desiredEnc then Some (al, pMem, SQLITE_OK)
     else sqlite3VdbeMemTranslate al pMem desiredEnc)"

definition sqlite3VdbeMemHandleBom :: "allocs \<Rightarrow> Mem \<Rightarrow> allocs \<times> Mem \<times> rcode" where
  "sqlite3VdbeMemHandleBom al pMem =
    (let bom = (case mem_z pMem of
                  b1 # b2 # _ \<Rightarrow>
                    if b1 = 0xFF \<and> b2 = 0xFE then SQLITE_UTF16LE
                    else if b1 = 0xFE \<and> b2 = 0xFF then SQLITE_UTF16BE else 0
                | _ \<Rightarrow> 0) in
     if bom \<noteq> 0 then
       case sqlite3VdbeMemMakeWriteable al pMem of
         (al, pMem, rc) \<Rightarrow>
           if rc = SQLITE_OK then
             (al, pMem \<lparr> mem_z := drop 2 (mem_z pMem), mem_flags := mem_flags pMem OR MEM_Term, mem_enc := bom \<rparr>, rc)
           else (al, pMem, rc)
     else (al, pMem, SQLITE_OK))"

section \<open>Counting characters\<close>

fun skipContinue :: "bytes \<Rightarrow> bytes option" where
  "skipContinue [] = None"
| "skipContinue (b # zIn) = (if b AND 0xc0 = 0x80 then skipContinue zIn else Some (b # zIn))"

fun SQLITE_SKIP_UTF8 :: "bytes \<Rightarrow> bytes option" where
  "SQLITE_SKIP_UTF8 [] = None"
| "SQLITE_SKIP_UTF8 (b # zIn) = (if 0xc0 \<le> b then skipContinue zIn else Some zIn)"

lemma skipContinue_length: "skipContinue z = Some z' \<Longrightarrow> length z' \<le> length z"
  by (induction z) (auto split: if_splits)

lemma SKIP_length [termination_simp]: "SQLITE_SKIP_UTF8 z = Some z' \<Longrightarrow> length z' < length z"
  by (cases z) (auto split: if_splits dest: skipContinue_length)

text \<open>
  \<open>zTerm\<close> is the number of bytes that are left up to the end pointer, \<open>None\<close> when \<open>nByte\<close> is
  negative and there is none. A character that starts before the end pointer may end behind it.
\<close>

function charLenLoop :: "int option \<Rightarrow> bytes \<Rightarrow> nat \<Rightarrow> nat option" where
  "charLenLoop zTerm z r =
    (case z of
       [] \<Rightarrow> None
     | b # _ \<Rightarrow>
         if b \<noteq> 0 \<and> (case zTerm of None \<Rightarrow> True | Some k \<Rightarrow> 0 < k) then
           case SQLITE_SKIP_UTF8 z of
             None \<Rightarrow> None
           | Some z' \<Rightarrow> charLenLoop (map_option (\<lambda>k. k - int (length z - length z')) zTerm) z' (r + 1)
         else Some r)"
  by pat_completeness auto
termination charLenLoop
  by (relation "measure (\<lambda>(_, z, _). length z)") (auto dest!: SKIP_length simp del: SQLITE_SKIP_UTF8.simps)

declare charLenLoop.simps [simp del]

definition sqlite3Utf8CharLen :: "bytes \<Rightarrow> int \<Rightarrow> nat option" where
  "sqlite3Utf8CharLen zIn nByte = charLenLoop (if 0 \<le> nByte then Some nByte else None) zIn 0"

text \<open>The byte order of the host decides which reader is used.\<close>

primrec utf16ByteLenLoop :: "nat \<Rightarrow> bool \<Rightarrow> bytes \<Rightarrow> bytes option" where
  "utf16ByteLenLoop 0 big z = Some z"
| "utf16ByteLenLoop (Suc n) big z =
    do { (_, z) \<leftarrow> (if big then READ_UTF16BE (\<lambda>_. True) z else READ_UTF16LE (\<lambda>_. True) z);
         utf16ByteLenLoop n big z }"

definition sqlite3Utf16ByteLen :: "bool \<Rightarrow> bytes \<Rightarrow> nat \<Rightarrow> nat option" where
  "sqlite3Utf16ByteLen big zIn nChar =
    map_option (\<lambda>z. length zIn - length z) (utf16ByteLenLoop nChar big zIn)"

section \<open>Characters as numbers\<close>

text \<open>Masks and shifts of 32-bit values as arithmetic on natural numbers.\<close>

lemma unat_drop: "unat (drop_bit n (x :: u32)) = unat x div 2 ^ n"
  by (rule trans [OF unat_drop_bit_eq drop_bit_eq_div])

lemma unat_push: "unat x * 2 ^ n < 2 ^ 32 \<Longrightarrow> unat (push_bit n (x :: u32)) = unat x * 2 ^ n"
proof -
  assume "unat x * 2 ^ n < 2 ^ 32"
  moreover have "unat (push_bit n x) = take_bit 32 (push_bit n (unat x))"
    by (rule trans [OF unsigned_push_bit_eq]) simp
  ultimately show ?thesis by (simp add: push_bit_eq_mult [of n "unat x"] take_bit_eq_mod)
qed

lemma unat_masks:
  "unat ((x :: u32) AND 0xFF) = unat x mod 256" "unat (x AND 0x3FF) = unat x mod 1024"
  "unat (x AND 0x3F) = unat x mod 64" "unat (x AND 0x1F) = unat x mod 32" "unat (x AND 0x0F) = unat x mod 16"
  "unat (x AND 0x07) = unat x mod 8" "unat (x AND 0x03) = unat x mod 4"
proof -
  have m: "unat (x AND mask n) = unat x mod 2 ^ n" for n
    by (simp only: take_bit_eq_mask [symmetric])
      (rule trans [OF unsigned_take_bit_eq take_bit_eq_mod])
  show "unat (x AND 0xFF) = unat x mod 256" "unat (x AND 0x3FF) = unat x mod 1024"
    "unat (x AND 0x3F) = unat x mod 64" "unat (x AND 0x1F) = unat x mod 32" "unat (x AND 0x0F) = unat x mod 16"
    "unat (x AND 0x07) = unat x mod 8" "unat (x AND 0x03) = unat x mod 4"
    using m [of 8] m [of 10] m [of 6] m [of 5] m [of 4] m [of 3] m [of 2] by (simp_all add: mask_eq_exp_minus_1)
qed

lemma unat_middle:
  "unat ((x :: u32) AND 0xC0) = 64 * (unat x div 64 mod 4)" "unat (x AND 0x3C0) = 64 * (unat x div 64 mod 16)"
proof -
  have e: "x AND 0xC0 = push_bit 6 (drop_bit 6 x AND 0x03)" "x AND 0x3C0 = push_bit 6 (drop_bit 6 x AND 0x0F)"
    by (rule bits_32, simp only: list.pred_inject, intro conjI TrueI; simp add: wbits)+
  have m: "unat (drop_bit 6 x AND 0x03) = unat x div 64 mod 4" "unat (drop_bit 6 x AND 0x0F) = unat x div 64 mod 16"
    unfolding unat_masks unat_drop by simp_all
  show "unat (x AND 0xC0) = 64 * (unat x div 64 mod 4)"
    unfolding e by (subst unat_push) (simp_all only: m, simp_all)
  show "unat (x AND 0x3C0) = 64 * (unat x div 64 mod 16)"
    unfolding e by (subst unat_push) (simp_all only: m, simp_all)
qed

lemma unat_u8_of_u32: "unat (ucast (x :: u32) :: u8) = unat x mod 256"
  by (simp add: unsigned_ucast_eq take_bit_eq_mod)

lemma unat_u32_of_u8: "unat (ucast (b :: u8) :: u32) = unat b"
proof -
  have "unat b mod 2 ^ 32 = unat b" by (rule mod_less) (simp add: less_trans [OF unat_u8_less])
  then show ?thesis by (simp add: unsigned_ucast_eq take_bit_eq_mod)
qed

lemma unat_add32: "unat x + unat y < 2 ^ 32 \<Longrightarrow> unat (x + y :: u32) = unat x + unat y"
  by (simp add: unat_word_ariths)

text \<open>The lead and continuation bytes that \<open>WRITE_UTF8\<close> produces, and how they are read.\<close>

definition contByte :: "u8 \<Rightarrow> bool" where
  "contByte b \<longleftrightarrow> b AND 0xc0 = 0x80"

lemma lead_table:
  "list_all (\<lambda>y. contByte (0x80 + of_nat y) \<and> 0x3f AND ucast (0x80 + of_nat y :: u8) = (of_nat y :: u32)) [0..<64]"
  "list_all (\<lambda>y. \<not> contByte (0xC0 + of_nat y) \<and> 0xc0 \<le> (ucast (0xC0 + of_nat y :: u8) :: u32)
     \<and> sqlite3Utf8Trans1 ! unat ((ucast (0xC0 + of_nat y :: u8) :: u32) - 0xc0) = of_nat y) [0..<32]"
  "list_all (\<lambda>y. \<not> contByte (0xE0 + of_nat y) \<and> 0xc0 \<le> (ucast (0xE0 + of_nat y :: u8) :: u32)
     \<and> sqlite3Utf8Trans1 ! unat ((ucast (0xE0 + of_nat y :: u8) :: u32) - 0xc0) = of_nat y) [0..<16]"
  "list_all (\<lambda>y. \<not> contByte (0xF0 + of_nat y) \<and> 0xc0 \<le> (ucast (0xF0 + of_nat y :: u8) :: u32)
     \<and> sqlite3Utf8Trans1 ! unat ((ucast (0xF0 + of_nat y :: u8) :: u32) - 0xc0) = of_nat y) [0..<8]"
  "list_all (\<lambda>y. \<not> contByte (of_nat y)) [0..<128]"
  by code_simp+

lemma ucast_nat: "(ucast (y :: u32) :: u8) = of_nat (unat y)"
  by (simp add: word_unat_eq_iff unat_u8_of_u32 unat_of_nat)

lemma cont_byte:
  assumes "unat (y :: u32) < 64"
  shows "contByte (0x80 + ucast y)" "0x3f AND ucast (0x80 + ucast y :: u8) = y"
  using lead_table(1) assms unfolding ucast_nat list_all_iff by (auto dest: bspec [of _ _ "unat y"])

lemma lead_byte:
  shows "unat y < 32 \<Longrightarrow> \<not> contByte (0xC0 + ucast y) \<and> 0xc0 \<le> (ucast (0xC0 + ucast y :: u8) :: u32)
      \<and> sqlite3Utf8Trans1 ! unat ((ucast (0xC0 + ucast y :: u8) :: u32) - 0xc0) = y"
    and "unat y < 16 \<Longrightarrow> \<not> contByte (0xE0 + ucast y) \<and> 0xc0 \<le> (ucast (0xE0 + ucast y :: u8) :: u32)
      \<and> sqlite3Utf8Trans1 ! unat ((ucast (0xE0 + ucast y :: u8) :: u32) - 0xc0) = y"
    and "unat y < 8 \<Longrightarrow> \<not> contByte (0xF0 + ucast y) \<and> 0xc0 \<le> (ucast (0xF0 + ucast y :: u8) :: u32)
      \<and> sqlite3Utf8Trans1 ! unat ((ucast (0xF0 + ucast y :: u8) :: u32) - 0xc0) = y"
  using lead_table(2-4) unfolding ucast_nat list_all_iff by (auto dest: bspec [of _ _ "unat y"])

definition startOk :: "bytes \<Rightarrow> bool" where
  "startOk z \<longleftrightarrow> z = [] \<or> \<not> contByte (hd z)"

lemma continue_stop: "startOk z \<Longrightarrow> utf8Continue c z = (c, z)"
  by (cases z) (auto simp: startOk_def contByte_def)

lemma continue_step: "unat y < 64 \<Longrightarrow> utf8Continue c ((0x80 + ucast y) # z) = utf8Continue (push_bit 6 c + y) z"
  using cont_byte [of y] by (simp add: contByte_def)

text \<open>Putting the six-bit groups together again.\<close>

lemma high_bits: "unat (c :: u32) < 2 ^ k \<Longrightarrow> k \<le> i \<Longrightarrow> \<not> bit c i"
proof -
  assume "unat c < 2 ^ k" "k \<le> i"
  then have "unat (drop_bit k c) = 0" by (simp only: unat_drop) simp
  then have "drop_bit k c = 0" by (simp only: unat_eq_0)
  then show ?thesis using \<open>k \<le> i\<close> by (simp add: drop_bit_0_iff)
qed

lemma join_or: "push_bit 6 x + (y AND 0x3F) = push_bit 6 x OR (y AND 0x3F :: u32)"
proof (rule disjunctive_add)
  fix n
  have "\<not> bit (y AND 0x3F) n" if "6 \<le> n" using that by (intro high_bits [of _ 6]) (simp_all add: unat_masks)
  then show "\<not> bit (push_bit 6 x) n \<or> \<not> bit (y AND 0x3F) n" by (auto simp: bit_simps not_le)
qed

lemma groups_value:
  "unat c < 0x800 \<Longrightarrow> push_bit 6 (drop_bit 6 c AND 0x1F) + (c AND 0x3F) = (c :: u32)"
  "unat c < 0x10000 \<Longrightarrow>
     push_bit 6 (push_bit 6 (drop_bit 12 c AND 0x0F) + (drop_bit 6 c AND 0x3F)) + (c AND 0x3F) = c"
  "unat c < 0x200000 \<Longrightarrow>
     push_bit 6 (push_bit 6 (push_bit 6 (drop_bit 18 c AND 0x07) + (drop_bit 12 c AND 0x3F)) + (drop_bit 6 c AND 0x3F))
       + (c AND 0x3F) = c"
proof -
  show "push_bit 6 (drop_bit 6 c AND 0x1F) + (c AND 0x3F) = c" if "unat c < 0x800"
    unfolding join_or
    by (rule bits_32, simp only: list.pred_inject, intro conjI TrueI; simp add: wbits high_bits [of c 11] that)
  show "push_bit 6 (push_bit 6 (drop_bit 12 c AND 0x0F) + (drop_bit 6 c AND 0x3F)) + (c AND 0x3F) = c"
    if "unat c < 0x10000"
    unfolding join_or
    by (rule bits_32, simp only: list.pred_inject, intro conjI TrueI; simp add: wbits high_bits [of c 16] that)
  show "push_bit 6 (push_bit 6 (push_bit 6 (drop_bit 18 c AND 0x07) + (drop_bit 12 c AND 0x3F)) + (drop_bit 6 c AND 0x3F))
       + (c AND 0x3F) = c" if "unat c < 0x200000"
    unfolding join_or
    by (rule bits_32, simp only: list.pred_inject, intro conjI TrueI; simp add: wbits high_bits [of c 21] that)
qed

lemma READ_WRITE_UTF8:
  assumes "unat c < 0x110000" "startOk rest"
  shows "READ_UTF8 (WRITE_UTF8 c @ rest) = Some (if c < 0x80 then c else utf8Replace c, rest)"
proof -
  consider "unat c < 0x80" | "0x80 \<le> unat c" "unat c < 0x800" | "0x800 \<le> unat c" "unat c < 0x10000" | "0x10000 \<le> unat c"
    by linarith
  then show ?thesis
  proof cases
    case 1
    then have "unat (c AND 0xFF) = unat c" by (simp only: unat_masks) simp
    then have "(ucast (ucast (c AND 0xFF) :: u8) :: u32) = c"
      using 1 by (simp only: word_unat_eq_iff unat_u32_of_u8 unat_u8_of_u32) simp
    then show ?thesis using 1 by (simp add: WRITE_UTF8_def READ_UTF8_def Let_def word_less_nat_alt word_le_nat_alt)
  next
    case 2
    have l: "unat (drop_bit 6 c AND 0x1F) < 32" "unat (c AND 0x3F) < 64" by (simp_all add: unat_masks)
    show ?thesis using 2 lead_byte(1) [OF l(1)] continue_step [OF l(2)] continue_stop [OF assms(2)] groups_value(1) [OF 2(2)]
      by (simp add: WRITE_UTF8_def READ_UTF8_def Let_def word_less_nat_alt)
  next
    case 3
    have l: "unat (drop_bit 12 c AND 0x0F) < 16" "unat (drop_bit 6 c AND 0x3F) < 64" "unat (c AND 0x3F) < 64"
      by (simp_all add: unat_masks)
    show ?thesis
      using 3 lead_byte(2) [OF l(1)] continue_step [OF l(2)] continue_step [OF l(3)] continue_stop [OF assms(2)]
        groups_value(2) [OF 3(2)]
      by (simp add: WRITE_UTF8_def READ_UTF8_def Let_def word_less_nat_alt)
  next
    case 4
    have l: "unat (drop_bit 18 c AND 0x07) < 8" "unat (drop_bit 12 c AND 0x3F) < 64" "unat (drop_bit 6 c AND 0x3F) < 64"
      "unat (c AND 0x3F) < 64" by (simp_all add: unat_masks)
    show ?thesis
      using 4 assms lead_byte(3) [OF l(1)] continue_step [OF l(2)] continue_step [OF l(3)] continue_step [OF l(4)]
        continue_stop [OF assms(2)] groups_value(3) [of c]
      by (simp add: WRITE_UTF8_def READ_UTF8_def Let_def word_less_nat_alt)
  qed
qed

lemma startOk_WRITE: "startOk (WRITE_UTF8 c @ rest)"
proof -
  have l: "unat (drop_bit 6 c AND 0x1F) < 32" "unat (drop_bit 12 c AND 0x0F) < 16" "unat (drop_bit 18 c AND 0x07) < 8"
    by (simp_all add: unat_masks)
  have "\<not> contByte (ucast (c AND 0xFF))" if "c < 0x80"
  proof -
    have "unat (c AND 0xFF) < 128" using that by (simp add: unat_masks word_less_nat_alt)
    then show ?thesis
      using lead_table(5) unfolding ucast_nat list_all_iff by (auto dest!: bspec [of _ _ "unat (c AND 0xFF)"])
  qed
  then show ?thesis using lead_byte [of "drop_bit 6 c AND 0x1F"] lead_byte [of "drop_bit 12 c AND 0x0F"]
      lead_byte [of "drop_bit 18 c AND 0x07"] l
    by (simp add: WRITE_UTF8_def startOk_def)
qed

text \<open>UTF-16: one unit, or a surrogate pair that carries the value less \<open>0x10000\<close>.\<close>

definition utf16hi :: "u32 \<Rightarrow> u32" where
  "utf16hi c = push_bit 8 (ucast (ucast (0x00D8 + (drop_bit 18 (c - 0x10000) AND 0x03)) :: u8))
     + ucast (ucast ((drop_bit 10 c AND 0x003F) + (drop_bit 10 (c - 0x10000) AND 0x00C0)) :: u8)"

definition utf16lo :: "u32 \<Rightarrow> u32" where
  "utf16lo c = push_bit 8 (ucast (ucast (0x00DC + (drop_bit 8 c AND 0x03)) :: u8)) + ucast (ucast (c AND 0x00FF) :: u8)"

lemma unat_byte: "unat (x :: u32) < 256 \<Longrightarrow> unat (ucast (ucast x :: u8) :: u32) = unat x"
  by (simp only: unat_u32_of_u8 unat_u8_of_u32) simp

lemma unat_two_bytes:
  assumes "unat (hi :: u32) < 256" "unat (lo :: u32) < 256"
  shows "unat (push_bit 8 (ucast (ucast hi :: u8)) + ucast (ucast lo :: u8) :: u32) = unat hi * 256 + unat lo"
proof -
  have "unat (push_bit 8 (ucast (ucast hi :: u8) :: u32)) = unat hi * 256"
    using assms by (subst unat_push) (simp_all add: unat_byte)
  then show ?thesis using assms by (subst unat_add32) (simp_all add: unat_byte)
qed

lemma utf16_parts:
  assumes "0x10000 \<le> unat c" "unat c < 0x110000"
  shows "unat (utf16hi c) = 0xD800 + (unat c div 1024 - 64)" "unat (utf16lo c) = 0xDC00 + unat c mod 1024"
proof -
  have sub: "unat (c - 0x10000) = unat c - 0x10000"
    using assms(1) by (simp add: unat_sub_if')
  define v where "v = unat c - 0x10000"
  have v: "v < 0x100000" "unat c = v + 0x10000" using assms by (simp_all add: v_def)
  have h: "unat (drop_bit 18 (c - 0x10000) AND 0x03) = v div 262144"
    unfolding unat_masks unat_drop sub v_def [symmetric] using v(1) by simp
  have m: "unat (drop_bit 10 (c - 0x10000) AND 0x00C0) = 64 * (v div 65536 mod 4)"
    unfolding unat_middle unat_drop sub v_def [symmetric] by (simp add: div_mult2_eq [symmetric])
  have "(v + 64 * 1024) div 1024 = 64 + v div 1024" by (rule div_mult_self1) simp
  then have l: "unat (drop_bit 10 c AND 0x003F) = v div 1024 mod 64"
    unfolding unat_masks unat_drop v(2) by simp
  have b1: "unat (0x00D8 + (drop_bit 18 (c - 0x10000) AND 0x03)) = 0xD8 + v div 262144"
    using h v(1) by (subst unat_add32) simp_all
  have b0: "unat ((drop_bit 10 c AND 0x003F) + (drop_bit 10 (c - 0x10000) AND 0x00C0)) = v div 1024 mod 64 + 64 * (v div 65536 mod 4)"
    using l m by (subst unat_add32) simp_all
  have "unat (utf16hi c) = (0xD8 + v div 262144) * 256 + (v div 1024 mod 64 + 64 * (v div 65536 mod 4))"
    unfolding utf16hi_def using v(1) b0 b1 by (subst unat_two_bytes) simp_all
  also have "\<dots> = 0xD800 + v div 1024"
  proof -
    define w where "w = v div 1024"
    have d: "v div 262144 = w div 256" "v div 65536 = w div 64" by (simp_all add: w_def div_mult2_eq [symmetric])
    have "w mod (64 * 4) = 64 * (w div 64 mod 4) + w mod 64" by (rule mod_mult2_eq)
    then have "w = w div 256 * 256 + (64 * (w div 64 mod 4) + w mod 64)" using div_mult_mod_eq [of w 256] by simp
    then show ?thesis unfolding d w_def [symmetric] by simp
  qed
  finally show "unat (utf16hi c) = 0xD800 + (unat c div 1024 - 64)" unfolding v(2) by simp
  have lo: "unat (0x00DC + (drop_bit 8 c AND 0x03)) = 0xDC + unat c div 256 mod 4"
    by (subst unat_add32) (simp_all add: unat_masks unat_drop)
  have "unat (utf16lo c) = (0xDC + unat c div 256 mod 4) * 256 + unat c mod 256"
    unfolding utf16lo_def using lo by (subst unat_two_bytes) (simp_all add: unat_masks)
  also have "\<dots> = 0xDC00 + unat c mod 1024"
  proof -
    have "unat c mod (256 * 4) = 256 * (unat c div 256 mod 4) + unat c mod 256" by (rule mod_mult2_eq)
    then show ?thesis by simp
  qed
  finally show "unat (utf16lo c) = 0xDC00 + unat c mod 1024" .
qed

lemma surrogatePair_value:
  assumes "0x10000 \<le> unat c" "unat c < 0x110000"
  shows "surrogatePair (utf16hi c) (utf16lo c) = c"
proof -
  note p = utf16_parts [OF assms]
  define q where "q = unat c div 1024 - 64"
  have q: "q < 1024" "unat c = (q + 64) * 1024 + unat c mod 1024" using assms by (simp_all add: q_def) 
  have "(unat c mod 1024 + 55 * 1024) mod 1024 = unat c mod 1024" by (simp only: mod_mult_self1 mod_mod_trivial)
  then have a: "unat (utf16lo c AND 0x03FF) = unat c mod 1024" unfolding unat_masks p by (simp add: add.commute)
  have "(q + 864 * 64) mod 64 = q mod 64" by (simp only: mod_mult_self1)
  then have "unat (utf16hi c AND 0x003F) = q mod 64" unfolding unat_masks p q_def [symmetric] by (simp add: add.commute)
  then have b: "unat (push_bit 10 (utf16hi c AND 0x003F)) = q mod 64 * 1024" by (subst unat_push) simp_all
  have "(q + 864 * 64) div 64 = 864 + q div 64" by (rule div_mult_self1) simp
  then have "(0xD800 + q) div 64 = q div 64 + 54 * 16" by (simp add: add.commute)
  then have "(0xD800 + q) div 64 mod 16 = q div 64 mod 16" by (simp only: mod_mult_self1)
  moreover have lt: "q div 64 < 16" using q(1) by (simp add: div_less_iff_less_mult)
  ultimately have "unat (utf16hi c AND 0x03C0) = 64 * (q div 64)"
    unfolding unat_middle p q_def [symmetric] by simp
  then have "unat ((utf16hi c AND 0x03C0) + 0x0040) = 64 * (q div 64) + 64" using lt by (subst unat_add32) simp_all
  then have d: "unat (push_bit 10 ((utf16hi c AND 0x03C0) + 0x0040)) = (64 * (q div 64) + 64) * 1024"
    using lt by (subst unat_push) simp_all
  have e: "unat ((utf16lo c AND 0x03FF) + push_bit 10 (utf16hi c AND 0x003F)) = unat c mod 1024 + q mod 64 * 1024"
    using a b by (subst unat_add32) simp_all
  have "unat (surrogatePair (utf16hi c) (utf16lo c)) =
      (unat c mod 1024 + q mod 64 * 1024) + (64 * (q div 64) + 64) * 1024"
    unfolding surrogatePair_def using d e lt by (subst unat_add32) simp_all
  also have "\<dots> = unat c"
  proof -
    have "r + b * 1024 + (64 * a + 64) * 1024 = u" if "64 * a + b = q" "u = (q + 64) * 1024 + r" for a b r u :: nat
      using that by auto
    from this [OF _ q(2)] show ?thesis by simp
  qed
  finally show ?thesis by (simp add: word_unat_eq_iff)
qed

lemma utf16_unit:
  assumes "unat c < 0x10000"
  shows "push_bit 8 (ucast (ucast (drop_bit 8 c AND 0x00FF) :: u8)) + ucast (ucast (c AND 0x00FF) :: u8) = (c :: u32)"
proof -
  have "unat (drop_bit 8 c AND 0x00FF) = unat c div 256" unfolding unat_masks unat_drop using assms by simp
  then have "unat (push_bit 8 (ucast (ucast (drop_bit 8 c AND 0x00FF) :: u8)) + ucast (ucast (c AND 0x00FF) :: u8) :: u32) =
      unat c div 256 * 256 + unat c mod 256"
    using assms by (subst unat_two_bytes) (simp_all add: unat_masks)
  then show ?thesis by (simp add: word_unat_eq_iff)
qed

lemma READ_WRITE_UTF16:
  assumes "unat c < 0x110000" "\<not> (0xD800 \<le> unat c \<and> unat c < 0xE000)" "\<And>x z. T (x # z)"
  shows "READ_UTF16LE T (WRITE_UTF16LE c @ rest) = Some (c, rest)" "READ_UTF16BE T (WRITE_UTF16BE c @ rest) = Some (c, rest)"
proof -
  have "READ_UTF16LE T (WRITE_UTF16LE c @ rest) = Some (c, rest) \<and> READ_UTF16BE T (WRITE_UTF16BE c @ rest) = Some (c, rest)"
  proof (cases "unat c < 0x10000")
    case True
    then have le: "c \<le> 0xFFFF" by (simp add: word_le_nat_alt)
    have n: "\<not> (0xD800 \<le> c \<and> c < 0xE000 \<and> T rest)" using assms(2) by (auto simp: word_le_nat_alt word_less_nat_alt)
    note u = utf16_unit [OF True]
    note u' = trans [OF add.commute u]
    show ?thesis
      unfolding WRITE_UTF16LE_def WRITE_UTF16BE_def if_P [OF le] append_Cons append_Nil READ_UTF16LE.simps READ_UTF16BE.simps Let_def u u'
        if_not_P [OF n] by simp
  next
    case False
    then have big: "\<not> c \<le> 0xFFFF" "0x10000 \<le> unat c" by (simp_all add: word_le_nat_alt)
    note p = utf16_parts [OF big(2) assms(1)]
    have r: "0xD800 \<le> utf16hi c" "utf16hi c < 0xE000"
      using p(1) assms(1) by (simp_all add: word_le_nat_alt word_less_nat_alt)
    note be = utf16hi_def [of c, symmetric] utf16lo_def [of c, symmetric]
    note le = be [unfolded add.commute [of "push_bit 8 x" for x]]
    show ?thesis
      unfolding WRITE_UTF16LE_def WRITE_UTF16BE_def if_not_P [OF big(1)] append_Cons READ_UTF16LE.simps READ_UTF16BE.simps
        Let_def be le
      using r surrogatePair_value [OF big(2) assms(1)] assms(3) by (simp add: be le)
  qed
  then show "READ_UTF16LE T (WRITE_UTF16LE c @ rest) = Some (c, rest)" "READ_UTF16BE T (WRITE_UTF16BE c @ rest) = Some (c, rest)"
    by simp_all
qed

section \<open>The characters that are replaced\<close>

definition isSurrogate :: "u32 \<Rightarrow> bool" where
  "isSurrogate c \<longleftrightarrow> 0xD800 \<le> unat c \<and> unat c < 0xE000"

lemma mask_FFFE: "c AND 0xFFFFFFFE = 0xFFFE \<longleftrightarrow> unat (c :: u32) \<in> {0xFFFE, 0xFFFF}"
proof -
  have "c AND 0xFFFFFFFE = 2 * drop_bit 1 c"
    by (rule bits_32, simp only: list.pred_inject, intro conjI TrueI; simp add: wbits; simp add: eval_nat_numeral)
  then have "c AND 0xFFFFFFFE = push_bit 1 (drop_bit 1 c)" by (simp add: push_bit_eq_mult)
  moreover have "unat c div 2 ^ 1 * 2 ^ 1 < 2 ^ 32"
    using div_times_less_eq_dividend [of "unat c" "2 ^ 1"] by (rule le_less_trans) simp
  then have "unat (push_bit 1 (drop_bit 1 c)) = unat c div 2 ^ 1 * 2 ^ 1"
    by (subst unat_push) (simp_all only: unat_drop)
  ultimately have "c AND 0xFFFFFFFE = 0xFFFE \<longleftrightarrow> unat c div 2 * 2 = 0xFFFE" by (simp add: word_unat_eq_iff)
  also have "\<dots> \<longleftrightarrow> unat c \<in> {0xFFFE, 0xFFFF}" by auto
  finally show ?thesis .
qed

lemma utf8Replace_eq:
  "utf8Replace c = (if unat c < 0x80 \<or> isSurrogate c \<or> unat c \<in> {0xFFFE, 0xFFFF} then 0xFFFD else c)"
proof -
  have "c AND 0xFFFFF800 = push_bit 11 (drop_bit 11 c)"
    by (rule bits_32, simp only: list.pred_inject, intro conjI TrueI; simp add: wbits)
  moreover have "unat c div 2 ^ 11 * 2 ^ 11 < 2 ^ 32"
    using div_times_less_eq_dividend [of "unat c" "2 ^ 11"] by (rule le_less_trans) simp
  then have "unat (push_bit 11 (drop_bit 11 c)) = unat c div 2 ^ 11 * 2 ^ 11"
    by (subst unat_push) (simp_all only: unat_drop)
  ultimately have "c AND 0xFFFFF800 = 0xD800 \<longleftrightarrow> unat c div 2048 * 2048 = 0xD800" by (simp add: word_unat_eq_iff)
  also have "\<dots> \<longleftrightarrow> isSurrogate c"
    unfolding isSurrogate_def using div_mult_mod_eq [of "unat c" 2048] mod_less_divisor [of 2048 "unat c"] by auto
  finally show ?thesis unfolding utf8Replace_def mask_FFFE by (simp add: word_less_nat_alt)
qed

text \<open>The Unicode characters that survive a conversion: no surrogates and not \<open>0xFFFE\<close> and \<open>0xFFFF\<close>.\<close>

definition validChar :: "u32 \<Rightarrow> bool" where
  "validChar c \<longleftrightarrow> unat c < 0x110000 \<and> \<not> isSurrogate c \<and> unat c \<notin> {0xFFFE, 0xFFFF}"

definition writeChar :: "u8 \<Rightarrow> u32 \<Rightarrow> bytes" where
  "writeChar enc =
    (if enc = SQLITE_UTF8 then WRITE_UTF8 else if enc = SQLITE_UTF16LE then WRITE_UTF16LE else WRITE_UTF16BE)"

abbreviation encodeText :: "u8 \<Rightarrow> u32 list \<Rightarrow> bytes" where
  "encodeText enc cs \<equiv> concat (map (writeChar enc) cs)"

lemma write_lengths:
  "length (WRITE_UTF16LE c) \<le> 2 * length (WRITE_UTF8 c)" "length (WRITE_UTF16BE c) = length (WRITE_UTF16LE c)"
  "length (WRITE_UTF8 c) \<le> 2 * length (WRITE_UTF16LE c)" "even (length (WRITE_UTF16LE c))"
  by (auto simp: WRITE_UTF8_def WRITE_UTF16LE_def WRITE_UTF16BE_def word_le_nat_alt word_less_nat_alt)

lemma startOk_text: "startOk (concat (map WRITE_UTF8 cs))"
  by (cases cs) (auto simp: startOk_WRITE, simp add: startOk_def)

lemma WRITE_UTF8_Cons: "\<exists>b bs. WRITE_UTF8 c = b # bs"
  by (simp add: WRITE_UTF8_def)

lemma loop_steps:
  "READ_UTF8 zIn = Some (c, zIn') \<Longrightarrow> utf8to16Loop W len zIn z = putOut len z (W c) \<bind> utf8to16Loop W len zIn'"
  "READ_UTF16LE (\<lambda>z. z \<noteq> []) zIn = Some (c, zIn') \<Longrightarrow>
     utf16leLoop len zIn z = putOut len z (WRITE_UTF8 c) \<bind> utf16leLoop len zIn'"
  "READ_UTF16BE (\<lambda>z. z \<noteq> []) zIn = Some (c, zIn') \<Longrightarrow>
     utf16beLoop len zIn z = putOut len z (WRITE_UTF8 c) \<bind> utf16beLoop len zIn'"
  by (cases "zIn = []"; simp add: utf8to16Loop.simps [of _ _ zIn] utf16leLoop.simps [of _ zIn] utf16beLoop.simps [of _ zIn]
      READ_UTF8_def [of "[]"])+

lemma utf8to16_text:
  "list_all validChar cs \<Longrightarrow> length z + length (concat (map W cs)) \<le> len \<Longrightarrow>
   utf8to16Loop W len (concat (map WRITE_UTF8 cs)) z = Some (z @ concat (map W cs))"
proof (induction cs arbitrary: z)
  case Nil
  then show ?case by (simp add: utf8to16Loop.simps)
next
  case (Cons c cs)
  have "READ_UTF8 (WRITE_UTF8 c @ concat (map WRITE_UTF8 cs)) = Some (c, concat (map WRITE_UTF8 cs))"
    using Cons.prems(1) READ_WRITE_UTF8 [of c "concat (map WRITE_UTF8 cs)"] startOk_text
    by (auto simp: validChar_def utf8Replace_eq word_less_nat_alt)
  then show ?case
    using Cons.IH [of "z @ W c"] Cons.prems by (simp add: loop_steps putOut_def)
qed

lemma utf16to8_text:
  "list_all validChar cs \<Longrightarrow> length z + length (concat (map WRITE_UTF8 cs)) \<le> len \<Longrightarrow>
   utf16leLoop len (concat (map WRITE_UTF16LE cs)) z = Some (z @ concat (map WRITE_UTF8 cs)) \<and>
   utf16beLoop len (concat (map WRITE_UTF16BE cs)) z = Some (z @ concat (map WRITE_UTF8 cs))"
proof (induction cs arbitrary: z)
  case Nil
  then show ?case by (simp add: utf16leLoop.simps utf16beLoop.simps)
next
  case (Cons c cs)
  then have c: "unat c < 0x110000" "\<not> (0xD800 \<le> unat c \<and> unat c < 0xE000)" by (auto simp: validChar_def isSurrogate_def)
  have "READ_UTF16LE (\<lambda>z. z \<noteq> []) (WRITE_UTF16LE c @ r) = Some (c, r)"
    "READ_UTF16BE (\<lambda>z. z \<noteq> []) (WRITE_UTF16BE c @ r) = Some (c, r)" for r
    by (rule READ_WRITE_UTF16 [OF c]; simp)+
  then show ?case
    using Cons.IH [of "z @ WRITE_UTF8 c"] Cons.prems by (simp add: loop_steps putOut_def)
qed

lemma swapBytes_text: "swapBytes (concat (map WRITE_UTF16LE cs)) = concat (map WRITE_UTF16BE cs)"
  "swapBytes (concat (map WRITE_UTF16BE cs)) = concat (map WRITE_UTF16LE cs)"
  by (induction cs) (simp_all add: WRITE_UTF16LE_def WRITE_UTF16BE_def)

lemma length_swapBytes: "length (swapBytes z) = length z"
  by (induction z rule: swapBytes.induct) simp_all

lemma text_lengths:
  "length (concat (map WRITE_UTF16LE cs)) \<le> 2 * length (concat (map WRITE_UTF8 cs))"
  "length (concat (map WRITE_UTF16BE cs)) = length (concat (map WRITE_UTF16LE cs))"
  "length (concat (map WRITE_UTF8 cs)) \<le> 2 * length (concat (map WRITE_UTF16LE cs))"
  "even (length (concat (map WRITE_UTF16LE cs)))"
proof (induction cs)
  case (Cons c cs)
  { case 1 show ?case using Cons(1) write_lengths(1) [of c] by simp }
  { case 2 show ?case using Cons(2) write_lengths(2) [of c] by simp }
  { case 3 show ?case using Cons(3) write_lengths(3) [of c] by simp }
  { case 4 show ?case using Cons(4) write_lengths(4) [of c] by simp }
qed simp_all

section \<open>Converting a cell\<close>

lemma alloc_fails: "sqlite3_alloc al = (False, al') \<Longrightarrow> False \<in> set al"
  by (cases al) auto

lemma memGrow_frame:
  "sqlite3VdbeMemGrow al m n = (al', m', rc) \<Longrightarrow>
     mem_enc m' = mem_enc m \<and> (rc = SQLITE_OK \<and> mem_z m' = mem_z m \<or> rc = SQLITE_NOMEM \<and> False \<in> set al)"
  by (auto dest: alloc_fails simp: sqlite3VdbeMemGrow_def Let_def split: if_splits prod.splits bool.splits)

lemma makeWriteable_frame:
  assumes "sqlite3VdbeMemMakeWriteable al m = (al', m', rc)"
  shows "mem_enc m' = mem_enc m" "rc = SQLITE_OK \<or> rc = SQLITE_NOMEM"
    "rc = SQLITE_OK \<Longrightarrow> \<not> bit (mem_flags m) 14 \<Longrightarrow> mem_z m' = mem_z m"
    "rc = SQLITE_NOMEM \<Longrightarrow> \<not> bit (mem_flags m) 14 \<Longrightarrow> False \<in> set al"
proof -
  obtain al1 m1 rc1 where e: "(if mem_flags m AND MEM_Zero \<noteq> 0 then sqlite3VdbeMemExpandBlob al m else (al, m, SQLITE_OK)) = (al1, m1, rc1)"
    by (metis prod_cases3)
  have "mem_enc m1 = mem_enc m"
    using e memGrow_frame
    by (auto simp: sqlite3VdbeMemExpandBlob_def Let_def split: if_splits prod.splits; fastforce)
  moreover have "\<not> bit (mem_flags m) 14 \<Longrightarrow> m1 = m \<and> al1 = al" using e by (simp add: flag_test)
  moreover have "mem_enc m' = mem_enc m1 \<and> (rc = SQLITE_OK \<and> mem_z m' = mem_z m1 \<or> rc = SQLITE_NOMEM \<and> False \<in> set al1)"
    using assms memGrow_frame [of al1 m1 "length (mem_z m1) + 2"]
    unfolding sqlite3VdbeMemMakeWriteable_def e by (auto simp: Let_def split: if_splits prod.splits)
  ultimately show "mem_enc m' = mem_enc m" "rc = SQLITE_OK \<or> rc = SQLITE_NOMEM"
    "rc = SQLITE_OK \<Longrightarrow> \<not> bit (mem_flags m) 14 \<Longrightarrow> mem_z m' = mem_z m"
    "rc = SQLITE_NOMEM \<Longrightarrow> \<not> bit (mem_flags m) 14 \<Longrightarrow> False \<in> set al"
    by auto
qed

definition isEncoding :: "u8 \<Rightarrow> bool" where
  "isEncoding e \<longleftrightarrow> e = SQLITE_UTF8 \<or> e = SQLITE_UTF16LE \<or> e = SQLITE_UTF16BE"

text \<open>The bytes that a conversion produces, and that the zeros behind them fit.\<close>

lemma translate_bytes:
  assumes "list_all validChar cs"
  defines "z8 \<equiv> concat (map WRITE_UTF8 cs)" and "zl \<equiv> concat (map WRITE_UTF16LE cs)" and "zb \<equiv> concat (map WRITE_UTF16BE cs)"
  shows "utf8to16Loop WRITE_UTF16LE (length z8 * 2 + 2) z8 [] = Some zl"
    "utf8to16Loop WRITE_UTF16BE (length z8 * 2 + 2) z8 [] = Some zb"
    "utf16leLoop (length zl * 2 + 1) zl [] = Some z8" "utf16beLoop (length zb * 2 + 1) zb [] = Some z8"
  using utf8to16_text [OF assms(1), of "[]" WRITE_UTF16LE "length z8 * 2 + 2"]
    utf8to16_text [OF assms(1), of "[]" WRITE_UTF16BE "length z8 * 2 + 2"]
    utf16to8_text [OF assms(1), of "[]" "length zl * 2 + 1"] text_lengths [of cs]
  unfolding z8_def zl_def zb_def by simp_all

lemma translate_text:
  assumes cs: "list_all validChar cs" "mem_z m = encodeText (mem_enc m) cs" "\<not> bit (mem_flags m) 14"
    and e: "isEncoding (mem_enc m)" "isEncoding e" "e \<noteq> mem_enc m" and fits: "fits_int (2 * length (mem_z m) + 2)"
  obtains al' m' where "sqlite3VdbeMemTranslate al m e = Some (al', m', SQLITE_OK)" "mem_z m' = encodeText e cs" "mem_enc m' = e"
  | al' m' where "sqlite3VdbeMemTranslate al m e = Some (al', m', SQLITE_NOMEM)" "mem_enc m' = mem_enc m" "False \<in> set al"
proof (cases "mem_enc m \<noteq> SQLITE_UTF8 \<and> e \<noteq> SQLITE_UTF8")
  case True
  obtain al' m' rc where w: "sqlite3VdbeMemMakeWriteable al m = (al', m', rc)" by (metis prod_cases3)
  note f = makeWriteable_frame [OF w]
  have "swapBytes (mem_z m) = encodeText e cs"
    using True e cs(2) swapBytes_text [of cs] by (auto simp: isEncoding_def writeChar_def)
  then show thesis using True w f cs(3) that by (auto simp: sqlite3VdbeMemTranslate_def)
next
  case False
  note b = translate_bytes [OF cs(1)] and l = text_lengths [of cs]
  have f: "fits_int (length (mem_z m) * 2 + 2)" "fits_int (length (mem_z m) * 2 + 1)"
    using fits by (simp_all add: fits_int_iff)
  obtain ok al' where al: "sqlite3_alloc al = (ok, al')" by (cases "sqlite3_alloc al")
  consider "mem_enc m = 1" "e = 2" | "mem_enc m = 1" "e = 3" | "mem_enc m = 2" "e = 1" | "mem_enc m = 3" "e = 1"
    using False e by (auto simp: isEncoding_def)
  then show thesis
  proof cases
    case 1
    then show thesis
      using that al alloc_fails [of al al'] cs(2) b(1) l f by (cases ok) (simp_all add: sqlite3VdbeMemTranslate_def Let_def writeChar_def putOut_def)
  next
    case 2
    then show thesis
      using that al alloc_fails [of al al'] cs(2) b(2) l f by (cases ok) (simp_all add: sqlite3VdbeMemTranslate_def Let_def writeChar_def putOut_def)
  next
    case 3
    then show thesis
      using that al alloc_fails [of al al'] cs(2) b(3) l f by (cases ok) (simp_all add: sqlite3VdbeMemTranslate_def Let_def writeChar_def putOut_def)
  next
    case 4
    then show thesis
      using that al alloc_fails [of al al'] cs(2) b(4) l f by (cases ok) (simp_all add: sqlite3VdbeMemTranslate_def Let_def writeChar_def putOut_def)
  qed
qed

section \<open>Arbitrary bytes\<close>

text \<open>
  A character above \<open>0xFFFF\<close> takes at least two bytes of UTF-8, also in a malformed text, so that
  twice the length of the input bounds the output of every conversion.
\<close>

lemma utf8Continue_lead:
  "utf8Continue c z = (c', z') \<Longrightarrow> c' = c \<and> z' = z \<or> length z' < length z"
  using utf8Continue_length [of "push_bit 6 c + (0x3f AND ucast (hd z))" "tl z"]
  by (cases z) (auto split: if_splits)

lemma Trans1_small: "n < 64 \<Longrightarrow> unat (sqlite3Utf8Trans1 ! n) < 32"
proof -
  have "list_all (\<lambda>w. unat w < 32) sqlite3Utf8Trans1" by (simp add: sqlite3Utf8Trans1_def)
  then show "n < 64 \<Longrightarrow> unat (sqlite3Utf8Trans1 ! n) < 32"
    by (auto simp: list_all_length sqlite3Utf8Trans1_def)
qed

lemma READ_UTF8_consumes:
  assumes "READ_UTF8 z = Some (c, z')"
  shows "length z' < length z" "0xFFFF < unat c \<Longrightarrow> length z' + 2 \<le> length z"
proof -
  show "length z' < length z" using assms by (rule READ_UTF8_length)
  obtain b zs where z: "z = b # zs" using assms by (cases z) (auto simp: READ_UTF8_def)
  let ?i = "unat ((ucast b :: u32) - 0xc0)"
  have b: "unat (ucast b :: u32) < 256" using unsigned_less [of b] by (simp add: unat_u32_of_u8)
  assume c: "0xFFFF < unat c"
  show "length z' + 2 \<le> length z"
  proof (cases "0xc0 \<le> (ucast b :: u32)")
    case False
    then show ?thesis using assms c b by (auto simp: z READ_UTF8_def)
  next
    case True
    then have i: "?i < 64" using b by (simp add: unat_sub word_le_nat_alt)
    obtain d y where y: "utf8Continue (sqlite3Utf8Trans1 ! ?i) zs = (d, y)" by fastforce
    then have cz: "c = utf8Replace d" "z' = y" using assms True by (auto simp: z READ_UTF8_def)
    have "d \<noteq> sqlite3Utf8Trans1 ! ?i"
      using Trans1_small [OF i] c cz(1) by (auto simp: utf8Replace_eq split: if_splits)
    then show ?thesis using utf8Continue_lead [OF y] cz by (auto simp: z)
  qed
qed

lemma write16_bound:
  "READ_UTF8 z = Some (c, z') \<Longrightarrow> length (WRITE_UTF16LE c) + 2 * length z' \<le> 2 * length z"
  "READ_UTF8 z = Some (c, z') \<Longrightarrow> length (WRITE_UTF16BE c) + 2 * length z' \<le> 2 * length z"
  using READ_UTF8_consumes [of z c z']
  by (auto simp: WRITE_UTF16LE_def WRITE_UTF16BE_def word_le_nat_alt not_le)

lemma READ_UTF8_total: "z \<noteq> [] \<Longrightarrow> \<exists>c z'. READ_UTF8 z = Some (c, z')"
  by (cases z) (auto simp: READ_UTF8_def Let_def split: prod.splits)

lemma READ_UTF16_progress:
  assumes "even (length z)" "z \<noteq> []"
  shows "\<exists>c z'. READ_UTF16LE (\<lambda>z. z \<noteq> []) z = Some (c, z') \<and> even (length z') \<and> length z' + 2 \<le> length z"
    "\<exists>c z'. READ_UTF16BE (\<lambda>z. z \<noteq> []) z = Some (c, z') \<and> even (length z') \<and> length z' + 2 \<le> length z"
proof -
  obtain b0 b1 zs where z: "z = b0 # b1 # zs" using assms by (cases z rule: list.exhaust; cases "tl z") auto
  have "even (length zs)" using assms z by simp
  then consider "zs = []" | b2 b3 zs' where "zs = b2 # b3 # zs'" "even (length zs')"
    by (cases zs; cases "tl zs") auto
  then show "\<exists>c z'. READ_UTF16LE (\<lambda>z. z \<noteq> []) z = Some (c, z') \<and> even (length z') \<and> length z' + 2 \<le> length z"
    "\<exists>c z'. READ_UTF16BE (\<lambda>z. z \<noteq> []) z = Some (c, z') \<and> even (length z') \<and> length z' + 2 \<le> length z"
    by (cases; auto simp: z Let_def)+
qed

text \<open>
  What a conversion loop needs: it reads a character and writes it as long as there is input, and
  a character that is written takes at most twice the bytes that were read. Then it neither reads
  outside its input nor writes outside an output buffer of twice that size.
\<close>

locale converter =
  fixes rd :: "bytes \<Rightarrow> (u32 \<times> bytes) option" and wr :: "u32 \<Rightarrow> bytes"
    and run :: "nat \<Rightarrow> bytes \<Rightarrow> bytes \<Rightarrow> bytes option" and ok :: "bytes \<Rightarrow> bool"
  assumes run_Nil: "run len [] z = Some z"
    and run_step: "rd zIn = Some (c, zIn') \<Longrightarrow> run len zIn z = putOut len z (wr c) \<bind> run len zIn'"
    and progress: "ok zIn \<Longrightarrow> zIn \<noteq> [] \<Longrightarrow> \<exists>c zIn'. rd zIn = Some (c, zIn') \<and> ok zIn' \<and>
      length zIn' < length zIn \<and> length (wr c) + 2 * length zIn' \<le> 2 * length zIn"
begin

lemma run_bounded:
  assumes "ok zIn" "length z + 2 * length zIn \<le> len"
  shows "\<exists>z'. run len zIn z = Some z' \<and> length z' \<le> length z + 2 * length zIn"
  using assms
proof (induction "length zIn" arbitrary: zIn z rule: less_induct)
  case less
  show ?case
  proof (cases "zIn = []")
    case True
    then show ?thesis by (simp add: run_Nil)
  next
    case False
    then obtain c y where y: "rd zIn = Some (c, y)" "ok y" "length y < length zIn"
      "length (wr c) + 2 * length y \<le> 2 * length zIn" using progress less.prems(1) by blast
    then show ?thesis using less.hyps [of y "z @ wr c"] less.prems(2) by (auto simp: run_step putOut_def)
  qed
qed

end

interpretation to16le: converter READ_UTF8 WRITE_UTF16LE "utf8to16Loop WRITE_UTF16LE" "\<lambda>_. True"
  by unfold_locales (auto simp: utf8to16Loop.simps [of _ _ "[]"] loop_steps dest!: READ_UTF8_total
    intro: READ_UTF8_length write16_bound)

interpretation to16be: converter READ_UTF8 WRITE_UTF16BE "utf8to16Loop WRITE_UTF16BE" "\<lambda>_. True"
  by unfold_locales (auto simp: utf8to16Loop.simps [of _ _ "[]"] loop_steps dest!: READ_UTF8_total
    intro: READ_UTF8_length write16_bound)

lemma WRITE_UTF8_length: "0 < length (WRITE_UTF8 c)" "length (WRITE_UTF8 c) \<le> 4"
  by (auto simp: WRITE_UTF8_def)

interpretation from16le: converter "READ_UTF16LE (\<lambda>z. z \<noteq> [])" WRITE_UTF8 utf16leLoop "\<lambda>z. even (length z)"
proof
  fix zIn :: bytes assume "even (length zIn)" "zIn \<noteq> []"
  with READ_UTF16_progress(1) obtain c z' where "READ_UTF16LE (\<lambda>z. z \<noteq> []) zIn = Some (c, z')"
    "even (length z')" "length z' + 2 \<le> length zIn" by blast
  then show "\<exists>c zIn'. READ_UTF16LE (\<lambda>z. z \<noteq> []) zIn = Some (c, zIn') \<and> even (length zIn') \<and>
      length zIn' < length zIn \<and> length (WRITE_UTF8 c) + 2 * length zIn' \<le> 2 * length zIn"
    using WRITE_UTF8_length(2) [of c] by (intro exI [of _ c] exI [of _ z']) auto
qed (simp_all add: utf16leLoop.simps [of _ "[]"] loop_steps)

interpretation from16be: converter "READ_UTF16BE (\<lambda>z. z \<noteq> [])" WRITE_UTF8 utf16beLoop "\<lambda>z. even (length z)"
proof
  fix zIn :: bytes assume "even (length zIn)" "zIn \<noteq> []"
  with READ_UTF16_progress(2) obtain c z' where "READ_UTF16BE (\<lambda>z. z \<noteq> []) zIn = Some (c, z')"
    "even (length z')" "length z' + 2 \<le> length zIn" by blast
  then show "\<exists>c zIn'. READ_UTF16BE (\<lambda>z. z \<noteq> []) zIn = Some (c, zIn') \<and> even (length zIn') \<and>
      length zIn' < length zIn \<and> length (WRITE_UTF8 c) + 2 * length zIn' \<le> 2 * length zIn"
    using WRITE_UTF8_length(2) [of c] by (intro exI [of _ c] exI [of _ z']) auto
qed (simp_all add: utf16beLoop.simps [of _ "[]"] loop_steps)

section \<open>Readers that rely on the terminating zero\<close>

lemma continue_zero_terminated:
  "utf8Continue c z = (c', y) \<Longrightarrow> y \<noteq> [] \<Longrightarrow> utf8ReadContinue c z = Some (c', y) \<and> skipContinue z = Some y"
  by (induction c z rule: utf8Continue.induct) (auto split: if_splits)

text \<open>Where \<open>READ_UTF8\<close> stops before the end of the buffer, the readers without an end pointer agree with it.\<close>

lemma read_zero_terminated:
  assumes "READ_UTF8 z = Some (c, y)" "y \<noteq> []"
  shows "sqlite3Utf8Read z = Some (c, y)" "SQLITE_SKIP_UTF8 z = Some y"
proof -
  obtain b zs where z: "z = b # zs" using assms by (cases z) (auto simp: READ_UTF8_def)
  let ?t = "sqlite3Utf8Trans1 ! unat ((ucast b :: u32) - 0xc0)"
  obtain d x where x: "utf8Continue ?t zs = (d, x)" by fastforce
  have "sqlite3Utf8Read z = Some (c, y) \<and> SQLITE_SKIP_UTF8 z = Some y"
    using assms continue_zero_terminated [OF x] x
    by (auto simp: z READ_UTF8_def sqlite3Utf8Read_def word_le_nat_alt unat_u32_of_u8 split: if_splits)
  then show "sqlite3Utf8Read z = Some (c, y)" "SQLITE_SKIP_UTF8 z = Some y" by auto
qed

lemma startOk_zero: "startOk (0 # z)"
  by (simp add: startOk_def contByte_def)

lemma WRITE_UTF8_nonzero:
  assumes "unat c < 0x110000" "c \<noteq> 0"
  obtains b bs where "WRITE_UTF8 c = b # bs" "b \<noteq> 0"
proof -
  obtain b bs where w: "WRITE_UTF8 c = b # bs" using WRITE_UTF8_Cons by blast
  have "READ_UTF8 (b # bs) = Some (if c < 0x80 then c else utf8Replace c, [])"
    using READ_WRITE_UTF8 [OF assms(1), of "[]"] by (simp add: w startOk_def)
  moreover have "utf8Replace c \<noteq> 0" using assms(2) by (simp add: utf8Replace_eq)
  ultimately have "b \<noteq> 0" using assms(2) by (auto simp: READ_UTF8_def split: if_splits)
  with w show thesis by (rule that)
qed

lemma charLen_text:
  assumes "\<forall>c \<in> set cs. unat c < 0x110000 \<and> c \<noteq> 0"
  shows "charLenLoop None (concat (map WRITE_UTF8 cs) @ 0 # rest) r = Some (r + length cs)"
  using assms
proof (induction cs arbitrary: r)
  case Nil
  then show ?case by (simp add: charLenLoop.simps)
next
  case (Cons c cs)
  let ?z = "concat (map WRITE_UTF8 cs) @ 0 # rest"
  have "startOk ?z" using startOk_zero by (cases cs) (auto simp: startOk_WRITE)
  then have "SQLITE_SKIP_UTF8 (WRITE_UTF8 c @ ?z) = Some ?z"
    using Cons.prems READ_WRITE_UTF8 [of c ?z] by (auto intro: read_zero_terminated(2))
  moreover obtain b bs where "WRITE_UTF8 c = b # bs" "b \<noteq> 0"
    using Cons.prems WRITE_UTF8_nonzero [of c] by auto
  ultimately show ?case using Cons.IH [of "r + 1"] Cons.prems by (simp add: charLenLoop.simps [of _ "b # _"])
qed

lemma byteLen_text:
  assumes "list_all validChar cs"
  shows "utf16ByteLenLoop (length cs) big (concat (map (if big then WRITE_UTF16BE else WRITE_UTF16LE) cs) @ rest) = Some rest"
  using assms
proof (induction cs)
  case (Cons c cs)
  then have c: "unat c < 0x110000" "\<not> (0xD800 \<le> unat c \<and> unat c < 0xE000)" by (auto simp: validChar_def isSurrogate_def)
  have "READ_UTF16LE (\<lambda>_. True) (WRITE_UTF16LE c @ r) = Some (c, r)"
    "READ_UTF16BE (\<lambda>_. True) (WRITE_UTF16BE c @ r) = Some (c, r)" for r
    by (rule READ_WRITE_UTF16 [OF c]; simp)+
  then show ?case using Cons by (cases big) simp_all
qed simp

section \<open>The self-test\<close>

text \<open>
  One round of each of the three loops of \<open>sqlite3UtfSelfTest\<close>: the assertions after the character
  is written, followed by a zero byte and read again. The byte behind the zero is whatever the
  buffer \<open>zBuf\<close> holds there.
\<close>

definition utfSelfTest8 :: "bytes \<Rightarrow> u32 \<Rightarrow> bool" where
  "utfSelfTest8 zBuf i =
    (let z = WRITE_UTF8 i; n = length z; t = i;
         t = (if 0xD800 \<le> i \<and> i \<le> 0xDFFF then 0xFFFD else t);
         t = (if i AND 0xFFFFFFFE = 0xFFFE then 0xFFFD else t) in
     n > 0 \<and> n \<le> 4 \<and> sqlite3Utf8Read (z @ 0 # zBuf) = Some (t, 0 # zBuf))"

definition utfSelfTest16le :: "bytes \<Rightarrow> u32 \<Rightarrow> bool" where
  "utfSelfTest16le zBuf i =
    (if 0xD800 \<le> i \<and> i < 0xE000 then True
     else let z = WRITE_UTF16LE i; n = length z in
       n > 0 \<and> n \<le> 4 \<and> READ_UTF16LE (\<lambda>_. True) (z @ 0 # zBuf) = Some (i, 0 # zBuf))"

definition utfSelfTest16be :: "bytes \<Rightarrow> u32 \<Rightarrow> bool" where
  "utfSelfTest16be zBuf i =
    (if 0xD800 \<le> i \<and> i < 0xE000 then True
     else let z = WRITE_UTF16BE i; n = length z in
       n > 0 \<and> n \<le> 4 \<and> READ_UTF16BE (\<lambda>_. True) (z @ 0 # zBuf) = Some (i, 0 # zBuf))"

text \<open>C21. The assertions of \<open>sqlite3UtfSelfTest\<close> hold for every character below \<open>0x110000\<close>: a character
  is written in one to four bytes, and what is read back is the character itself, up to the end of
  what was written, except that the UTF-8 reader returns \<open>0xFFFD\<close> for surrogates, \<open>0xFFFE\<close> and
  \<open>0xFFFF\<close>.
\<close>

theorem sqlite3UtfSelfTest_passes:
  assumes "unat i < 0x110000"
  shows "utfSelfTest8 zBuf i \<and> utfSelfTest16le zBuf i \<and> utfSelfTest16be zBuf i"
proof (intro conjI)
  have "(if i < 0x80 then i else utf8Replace i) =
      (if i AND 0xFFFFFFFE = 0xFFFE then 0xFFFD else if 0xD800 \<le> i \<and> i \<le> 0xDFFF then 0xFFFD else i)"
    using mask_FFFE [of i] by (auto simp: utf8Replace_eq isSurrogate_def word_le_nat_alt word_less_nat_alt)
  then show "utfSelfTest8 zBuf i"
    using READ_WRITE_UTF8 [OF assms startOk_zero, of zBuf] WRITE_UTF8_length [of i]
    by (auto simp: utfSelfTest8_def Let_def intro!: read_zero_terminated(1))
  have w: "length (WRITE_UTF16LE i) \<in> {2, 4}" "length (WRITE_UTF16BE i) \<in> {2, 4}"
    by (simp_all add: WRITE_UTF16LE_def WRITE_UTF16BE_def)
  show "utfSelfTest16le zBuf i" "utfSelfTest16be zBuf i"
    using READ_WRITE_UTF16 [OF assms, of "\<lambda>_. True" "0 # zBuf"] w
    by (auto simp: utfSelfTest16le_def utfSelfTest16be_def Let_def word_le_nat_alt word_less_nat_alt)
qed

lemma sqlite3UtfSelfTest_passes_witness:
  "utfSelfTest8 [7] 0x10FFFF \<and> utfSelfTest16le [7] 0x10FFFF \<and> utfSelfTest16be [7] 0x10FFFF"
  using sqlite3UtfSelfTest_passes [of "0x10FFFF" "[7]"] by simp

text \<open>C19. A cell that holds a text in one of the three encodings, of fewer than \<open>2 ^ 30 - 1\<close> bytes, is converted
  to any of the three: the operation returns \<open>SQLITE_OK\<close> with the same characters in the new encoding, or
  \<open>SQLITE_NOMEM\<close> with the encoding unchanged, the latter only if an allocation fails. The characters are those
  below \<open>0x110000\<close> other than surrogates and \<open>0xFFFE\<close> and \<open>0xFFFF\<close>, which the readers of the code replace by \<open>0xFFFD\<close>. Every
  text within the limit \<^verbatim>\<open>SQLITE_MAX_LENGTH\<close> is short enough.
\<close>

theorem sqlite3VdbeChangeEncoding_text:
  assumes "list_all validChar cs" "mem_z m = encodeText (mem_enc m) cs"
    and "bit (mem_flags m) 1" "\<not> bit (mem_flags m) 14" "isEncoding (mem_enc m)" "isEncoding e"
    and "fits_int (2 * length (mem_z m) + 2)"
  shows "\<exists>al' m' rc. sqlite3VdbeChangeEncoding al m e = Some (al', m', rc) \<and>
      (rc = SQLITE_OK \<and> mem_enc m' = e \<and> mem_z m' = encodeText e cs
       \<or> rc = SQLITE_NOMEM \<and> mem_enc m' = mem_enc m \<and> False \<in> set al)"
proof (cases "mem_enc m = e")
  case True
  then show ?thesis using assms by (simp add: sqlite3VdbeChangeEncoding_def)
next
  case False
  then have "sqlite3VdbeChangeEncoding al m e = sqlite3VdbeMemTranslate al m e"
    using assms(3) by (simp add: sqlite3VdbeChangeEncoding_def flag_test)
  then show ?thesis
    by (cases rule: translate_text [OF assms(1,2,4-6) False [symmetric] assms(7), of al]) auto
qed

definition exampleText :: Mem where
  "exampleText = \<lparr> mem_z = [0x61, 0xF0, 0x9F, 0x98, 0x80], mem_r = 0, mem_i = 0, mem_nZero = 0,
     mem_flags = MEM_Str OR MEM_Static, mem_enc = SQLITE_UTF8, mem_szMalloc = 0 \<rparr>"

lemma sqlite3VdbeChangeEncoding_text_witness:
  "\<exists>al' m'. sqlite3VdbeChangeEncoding [] exampleText SQLITE_UTF16LE = Some (al', m', SQLITE_OK) \<and>
     mem_z m' = [0x61, 0, 0x3D, 0xD8, 0, 0xDE]"
proof -
  have "encodeText SQLITE_UTF8 [0x61, 0x1F600] = [0x61, 0xF0, 0x9F, 0x98, 0x80]"
    "encodeText SQLITE_UTF16LE [0x61, 0x1F600] = [0x61, 0, 0x3D, 0xD8, 0, 0xDE]"
    by code_simp+
  moreover have "list_all validChar [0x61, 0x1F600]" by (simp add: validChar_def isSurrogate_def)
  ultimately show ?thesis
    using sqlite3VdbeChangeEncoding_text [of "[0x61, 0x1F600]" exampleText SQLITE_UTF16LE "[]"]
    by (auto simp add: exampleText_def isEncoding_def bit_simps fits_int_iff)
qed

text \<open>C20. Whatever bytes a cell holds, well-formed or not, and of odd length or not, as long as they are fewer
  than \<open>2 ^ 30 - 1\<close>, its conversion to another encoding reads only the bytes of the cell and writes only inside the
  buffer that it allocates, the terminating zeros included: the operation has a result, and that is \<open>SQLITE_OK\<close>
  with the new encoding, a text of at most twice the bytes, or \<open>SQLITE_NOMEM\<close>.
\<close>

theorem sqlite3VdbeMemTranslate_safe:
  assumes "isEncoding (mem_enc m)" "isEncoding e" "e \<noteq> mem_enc m" "\<not> bit (mem_flags m) 14"
    and "fits_int (2 * length (mem_z m) + 2)"
  shows "\<exists>al' m' rc. sqlite3VdbeMemTranslate al m e = Some (al', m', rc) \<and>
      (rc = SQLITE_OK \<and> mem_enc m' = e \<and> length (mem_z m') \<le> 2 * length (mem_z m) \<or> rc = SQLITE_NOMEM)"
proof (cases "mem_enc m \<noteq> SQLITE_UTF8 \<and> e \<noteq> SQLITE_UTF8")
  case True
  obtain al' m' rc where w: "sqlite3VdbeMemMakeWriteable al m = (al', m', rc)" by (metis prod_cases3)
  then show ?thesis
    using True makeWriteable_frame [OF w] assms(4) length_swapBytes [of "mem_z m"]
    by (auto simp: sqlite3VdbeMemTranslate_def)
next
  case False
  let ?z = "take (length (mem_z m) - length (mem_z m) mod 2) (mem_z m)"
  have ev: "even (length ?z)" by simp
  have f: "fits_int (length (mem_z m) * 2 + 2)" "fits_int (length ?z * 2 + 1)"
    using assms(5) by (auto simp: fits_int_iff)
  obtain ok al' where al: "sqlite3_alloc al = (ok, al')" by (cases "sqlite3_alloc al")
  consider "mem_enc m = 1" "e = 2" | "mem_enc m = 1" "e = 3" | "mem_enc m = 2" "e = 1" | "mem_enc m = 3" "e = 1"
    using False assms by (auto simp: isEncoding_def)
  then show ?thesis
  proof cases
    case 1
    then show ?thesis using al f to16le.run_bounded [where zIn = "mem_z m" and z = "[]" and len = "length (mem_z m) * 2 + 2"]
      by (cases ok) (auto simp: sqlite3VdbeMemTranslate_def Let_def putOut_def)
  next
    case 2
    then show ?thesis using al f to16be.run_bounded [where zIn = "mem_z m" and z = "[]" and len = "length (mem_z m) * 2 + 2"]
      by (cases ok) (auto simp: sqlite3VdbeMemTranslate_def Let_def putOut_def)
  next
    case 3
    then show ?thesis using al f from16le.run_bounded [OF ev, where z = "[]" and len = "length ?z * 2 + 1"]
      by (cases ok) (auto simp: sqlite3VdbeMemTranslate_def Let_def putOut_def)
  next
    case 4
    then show ?thesis using al f from16be.run_bounded [OF ev, where z = "[]" and len = "length ?z * 2 + 1"]
      by (cases ok) (auto simp: sqlite3VdbeMemTranslate_def Let_def putOut_def)
  qed
qed

lemma sqlite3VdbeMemTranslate_safe_witness:
  "\<exists>al' m' rc. sqlite3VdbeMemTranslate [] (exampleText \<lparr> mem_z := [0xFF, 0xD8, 0xC1], mem_enc := SQLITE_UTF16BE \<rparr>) SQLITE_UTF8
     = Some (al', m', rc) \<and> (rc = SQLITE_OK \<and> mem_enc m' = SQLITE_UTF8 \<and> length (mem_z m') \<le> 6 \<or> rc = SQLITE_NOMEM)"
  using sqlite3VdbeMemTranslate_safe [of "exampleText \<lparr> mem_z := [0xFF, 0xD8, 0xC1], mem_enc := SQLITE_UTF16BE \<rparr>" SQLITE_UTF8 "[]"]
  by (simp add: exampleText_def isEncoding_def bit_simps fits_int_iff)

text \<open>
  Longer texts are a gap in the code. A text of \<open>1000000000\<close> bytes, the limit on the length of a text, has twice
  as many bytes after its conversion to UTF-16, and the conversion back to UTF-8 computes a size that does
  not fit in an int; wrapped to 32 bits it is negative, and the allocator serves it with a small block.
\<close>

lemma sqlite3VdbeMemTranslate_overflow:
  assumes "mem_enc m \<noteq> SQLITE_UTF8" "length (mem_z m) = 2000000000"
  shows "sqlite3VdbeMemTranslate al m SQLITE_UTF8 = None"
  using assms by (simp add: sqlite3VdbeMemTranslate_def Let_def fits_int_iff)

text \<open>
  The functions that count characters are right on every well-formed text: \<open>sqlite3Utf8CharLen\<close>
  gives the number of characters before the terminating zero, and \<open>sqlite3Utf16ByteLen\<close> the bytes
  that the first characters take in the byte order of the host.
\<close>

theorem utf_lengths_correct:
  assumes "list_all validChar cs" "0 \<notin> set cs"
  shows "sqlite3Utf8CharLen (encodeText SQLITE_UTF8 cs @ 0 # rest) (-1) = Some (length cs) \<and>
    (\<forall>big. sqlite3Utf16ByteLen big (encodeText (if big then SQLITE_UTF16BE else SQLITE_UTF16LE) cs @ rest) (length cs)
       = Some (length (encodeText (if big then SQLITE_UTF16BE else SQLITE_UTF16LE) cs)))"
proof (intro conjI allI)
  have "\<forall>c \<in> set cs. unat c < 0x110000 \<and> c \<noteq> 0"
    using assms by (auto simp: list_all_iff validChar_def)
  then show "sqlite3Utf8CharLen (encodeText SQLITE_UTF8 cs @ 0 # rest) (-1) = Some (length cs)"
    using charLen_text [of cs rest 0] by (simp add: sqlite3Utf8CharLen_def writeChar_def)
  show "sqlite3Utf16ByteLen big (encodeText (if big then SQLITE_UTF16BE else SQLITE_UTF16LE) cs @ rest) (length cs)
      = Some (length (encodeText (if big then SQLITE_UTF16BE else SQLITE_UTF16LE) cs))" for big
    using byteLen_text [OF assms(1), of big rest]
    by (cases big) (simp_all add: sqlite3Utf16ByteLen_def writeChar_def)
qed

lemma utf_lengths_correct_witness:
  "sqlite3Utf8CharLen (encodeText SQLITE_UTF8 [0x61, 0x1F600] @ [0]) (-1) = Some 2"
proof -
  have "list_all validChar [0x61, 0x1F600]" by (simp add: validChar_def isSurrogate_def)
  then show ?thesis using utf_lengths_correct [of "[0x61, 0x1F600]" "[]"] by simp
qed

end
