(* ===== verification/Like.thy ===== *)
theory Like
  imports Utf Strings
begin

text \<open>
  The LIKE and GLOB operators, from \<^verbatim>\<open>func.c\<close>: \<open>patternCompare\<close> with its loops, and the functions
  that call it. Patterns and strings are buffers of bytes with a terminating zero, read through
  \<open>sqlite3Utf8Read\<close>; a read outside the buffer is \<open>None\<close>. The specification reads a pattern as a
  list of elements, each of which matches a segment of the string.
\<close>

section \<open>The comparison\<close>

record compareInfo =
  matchAll :: u8
  matchOne :: u8
  matchSet :: u8
  noCase :: u8

definition globInfo :: compareInfo where
  "globInfo = \<lparr> matchAll = 42, matchOne = 63, matchSet = 91, noCase = 0 \<rparr>"

definition likeInfoNorm :: compareInfo where
  "likeInfoNorm = \<lparr> matchAll = 37, matchOne = 95, matchSet = 0, noCase = 1 \<rparr>"

definition likeInfoAlt :: compareInfo where
  "likeInfoAlt = \<lparr> matchAll = 37, matchOne = 95, matchSet = 0, noCase = 0 \<rparr>"

definition GlobUpperToLower :: "u32 \<Rightarrow> u32" where
  "GlobUpperToLower A = (if A AND NOT 0x7f = 0 then ucast (UpperToLower (ucast A)) else A)"

lemma utf8ReadContinue_length: "utf8ReadContinue c z = Some (c', z') \<Longrightarrow> length z' \<le> length z"
  by (induction c z rule: utf8ReadContinue.induct) (auto split: if_splits)

lemma Utf8Read_length [termination_simp]: "sqlite3Utf8Read z = Some (c, z') \<Longrightarrow> length z' < length z"
  by (cases z) (auto simp: sqlite3Utf8Read_def Let_def split: if_splits bind_splits dest!: utf8ReadContinue_length)

text \<open>
  The loop over the wildcards after a \<open>matchAll\<close>. \<open>Some None\<close> is the return of zero when the string
  ends; otherwise the first character behind the wildcards is returned with the new positions.
\<close>

fun wildLoop :: "compareInfo \<Rightarrow> bytes \<Rightarrow> bytes \<Rightarrow> (u32 \<times> bytes \<times> bytes) option option" where
  "wildLoop pInfo zPattern zString =
    (case sqlite3Utf8Read zPattern of
       None \<Rightarrow> None
     | Some (c, zPattern) \<Rightarrow>
         if c = ucast (matchAll pInfo) \<or> c = ucast (matchOne pInfo) then
           if c = ucast (matchOne pInfo) then
             case sqlite3Utf8Read zString of
               None \<Rightarrow> None
             | Some (c2, zString) \<Rightarrow> if c2 = 0 then Some None else wildLoop pInfo zPattern zString
           else wildLoop pInfo zPattern zString
         else Some (Some (c, zPattern, zString)))"

declare wildLoop.simps [simp del]

text \<open>The loops that look in the string for the character behind the wildcards and try the rest of the pattern there.\<close>

fun seekChar :: "compareInfo \<Rightarrow> u32 \<Rightarrow> u32 \<Rightarrow> bytes \<Rightarrow> (u32 \<times> bytes) option" where
  "seekChar pInfo c c2 zString =
    (if c2 \<noteq> 0 \<and> c2 \<noteq> c then
       case sqlite3Utf8Read zString of
         None \<Rightarrow> None
       | Some (c2, zString) \<Rightarrow> seekChar pInfo c (if noCase pInfo \<noteq> 0 then GlobUpperToLower c2 else c2) zString
     else Some (c2, zString))"

declare seekChar.simps [simp del]

lemma seekChar_length: "seekChar pInfo c c2 z = Some (c2', z') \<Longrightarrow> length z' \<le> length z"
proof (induction pInfo c c2 z rule: seekChar.induct)
  case (1 pInfo c c2 z)
  show ?case
  proof (cases "c2 \<noteq> 0 \<and> c2 \<noteq> c")
    case True
    with "1.prems" obtain d y where r: "sqlite3Utf8Read z = Some (d, y)" by (auto simp: seekChar.simps [of _ _ _ z] split: option.splits)
    then have "length z' \<le> length y" using 1 True by (auto simp: seekChar.simps [of _ _ _ z])
    then show ?thesis using Utf8Read_length [OF r] by simp
  qed (use "1.prems" in \<open>auto simp: seekChar.simps [of _ _ _ z]\<close>)
qed

function searchLoop :: "(bytes \<Rightarrow> bool option) \<Rightarrow> compareInfo \<Rightarrow> u32 \<Rightarrow> bytes \<Rightarrow> bool option" where
  "searchLoop compare pInfo c zString =
    (case sqlite3Utf8Read zString of
       None \<Rightarrow> None
     | Some (c2, zString) \<Rightarrow>
         if c2 = 0 then Some False
         else
           let c2 = (if noCase pInfo \<noteq> 0 then GlobUpperToLower c2 else c2);
               c = (if noCase pInfo \<noteq> 0 then GlobUpperToLower c else c) in
           case seekChar pInfo c c2 zString of
             None \<Rightarrow> None
           | Some (c2, zString) \<Rightarrow>
               if c2 = 0 then Some False
               else
                 case compare zString of
                   None \<Rightarrow> None
                 | Some True \<Rightarrow> Some True
                 | Some False \<Rightarrow> searchLoop compare pInfo c zString)"
  by pat_completeness auto
termination searchLoop
  by (relation "measure (\<lambda>(_, _, _, z). length z)") (auto dest!: seekChar_length Utf8Read_length)

declare searchLoop.simps [simp del]

lemma searchLoop_cong [fundef_cong]:
  assumes "\<And>z. f z = g z" "i = i'" "c = c'" "z = z'"
  shows "searchLoop f i c z = searchLoop g i' c' z'"
proof -
  have "f = g" using assms(1) by (rule ext)
  then show ?thesis using assms by simp
qed

function skipSearch :: "(bytes \<Rightarrow> bool option) \<Rightarrow> bytes \<Rightarrow> bool option" where
  "skipSearch compare zString =
    (case zString of
       [] \<Rightarrow> None
     | b # _ \<Rightarrow>
         if b \<noteq> 0 then
           case compare zString of
             None \<Rightarrow> None
           | Some True \<Rightarrow> Some True
           | Some False \<Rightarrow>
               (case SQLITE_SKIP_UTF8 zString of None \<Rightarrow> None | Some zString \<Rightarrow> skipSearch compare zString)
         else Some False)"
  by pat_completeness auto
termination skipSearch
  by (relation "measure (\<lambda>(_, z). length z)") (auto dest!: SKIP_length simp del: SQLITE_SKIP_UTF8.simps)

declare skipSearch.simps [simp del]

lemma skipSearch_cong [fundef_cong]:
  assumes "\<And>z. f z = g z" "z = z'"
  shows "skipSearch f z = skipSearch g z'"
proof -
  have "f = g" using assms(1) by (rule ext)
  then show ?thesis using assms by simp
qed

text \<open>
  The loop over a set of characters: \<open>c\<close> is the character of the string, \<open>prior_c\<close> the last single
  character of the set. The test of \<^verbatim>\<open>zPattern[0]\<close> at the end of the buffer is settled by the read
  that follows it.
\<close>

function setLoop :: "u32 \<Rightarrow> u32 \<Rightarrow> bool \<Rightarrow> u32 \<Rightarrow> bytes \<Rightarrow> (u32 \<times> bool \<times> bytes) option" where
  "setLoop c prior_c seen c2 zPattern =
    (if c2 \<noteq> 0 \<and> c2 \<noteq> 0x5D then
       if c2 = 0x2D \<and> zPattern \<noteq> [] \<and> hd zPattern \<noteq> 0x5D \<and> hd zPattern \<noteq> 0 \<and> 0 < prior_c then
         case sqlite3Utf8Read zPattern of
           None \<Rightarrow> None
         | Some (c2, zPattern) \<Rightarrow>
             let seen = (seen \<or> prior_c \<le> c \<and> c \<le> c2) in
             (case sqlite3Utf8Read zPattern of None \<Rightarrow> None | Some (c2, zPattern) \<Rightarrow> setLoop c 0 seen c2 zPattern)
       else
         let seen = (seen \<or> c = c2) in
         (case sqlite3Utf8Read zPattern of None \<Rightarrow> None | Some (c2', zPattern) \<Rightarrow> setLoop c c2 seen c2' zPattern)
     else Some (c2, seen, zPattern))"
  by pat_completeness auto
termination setLoop
  by (relation "measure (\<lambda>(_, _, _, _, z). length z)") (auto dest!: Utf8Read_length)

declare setLoop.simps [simp del]

text \<open>The whole branch for a set; \<open>Some None\<close> is the return of zero.\<close>

definition setCompare :: "bytes \<Rightarrow> bytes \<Rightarrow> (bytes \<times> bytes) option option" where
  "setCompare zPattern zString =
    do { (c, zString) \<leftarrow> sqlite3Utf8Read zString;
         if c = 0 then Some None
         else do {
           (c2, zPattern) \<leftarrow> sqlite3Utf8Read zPattern;
           let invert = (c2 = 0x5E);
           (c2, zPattern) \<leftarrow> (if invert then sqlite3Utf8Read zPattern else Some (c2, zPattern));
           let seen = (c2 = 0x5D \<and> c = 0x5D);
           (c2, zPattern) \<leftarrow> (if c2 = 0x5D then sqlite3Utf8Read zPattern else Some (c2, zPattern));
           (c2, seen, zPattern) \<leftarrow> setLoop c 0 seen c2 zPattern;
           Some (if c2 = 0 \<or> seen = invert then None else Some (zPattern, zString)) } }"

lemma wildLoop_length: "wildLoop pInfo zP zS = Some (Some (c, zP', zS')) \<Longrightarrow> length zP' < length zP"
proof (induction pInfo zP zS rule: wildLoop.induct)
  case (1 pInfo zP zS)
  obtain d y where r: "sqlite3Utf8Read zP = Some (d, y)"
    using "1.prems" by (auto simp: wildLoop.simps [of _ zP] split: option.splits)
  show ?case
    using Utf8Read_length [OF r] "1.IH" [OF r refl] "1.prems"
    by (auto simp: wildLoop.simps [of _ zP] r split: if_splits option.splits; fastforce)
qed

lemma setLoop_length: "setLoop c prior_c seen c2 zP = Some (c2', seen', zP') \<Longrightarrow> length zP' \<le> length zP"
proof (induction c prior_c seen c2 zP rule: setLoop.induct)
  case (1 c prior_c seen c2 zP)
  show ?case
    using "1.prems" "1.IH" unfolding setLoop.simps [of _ _ _ _ zP]
    by (auto simp: Let_def split: if_splits option.splits dest!: Utf8Read_length; fastforce)
qed

lemma setCompare_length [termination_simp]:
  "setCompare zP zS = Some (Some (zP', zS')) \<Longrightarrow> length zP' < length zP"
  by (auto simp: setCompare_def Let_def split: bind_splits if_splits dest!: Utf8Read_length setLoop_length)

text \<open>
  The loop over the pattern. After a \<open>matchAll\<close> that is followed by a set the comparison starts at the
  \<open>matchSet\<close> byte before the position that was read last.
\<close>

function patternLoop :: "compareInfo \<Rightarrow> u32 \<Rightarrow> bool \<Rightarrow> bytes \<Rightarrow> bytes \<Rightarrow> bool option" where
  "patternLoop pInfo esc prevEscape zPattern zString =
    (case sqlite3Utf8Read zPattern of
       None \<Rightarrow> None
     | Some (c, zPattern) \<Rightarrow>
         if c = 0 then (case zString of [] \<Rightarrow> None | b # _ \<Rightarrow> Some (b = 0))
         else if c = ucast (matchAll pInfo) \<and> \<not> prevEscape then
           case wildLoop pInfo zPattern zString of
             None \<Rightarrow> None
           | Some None \<Rightarrow> Some False
           | Some (Some (c, zPattern, zString)) \<Rightarrow>
               if c = 0 then Some True
               else if c = esc then
                 case sqlite3Utf8Read zPattern of
                   None \<Rightarrow> None
                 | Some (c, zPattern) \<Rightarrow>
                     if c = 0 then Some False
                     else searchLoop (\<lambda>z. patternLoop pInfo esc False zPattern z) pInfo c zString
               else if c = ucast (matchSet pInfo) then
                 skipSearch (\<lambda>z. patternLoop pInfo esc False (matchSet pInfo # zPattern) z) zString
               else searchLoop (\<lambda>z. patternLoop pInfo esc False zPattern z) pInfo c zString
         else if c = ucast (matchOne pInfo) \<and> \<not> prevEscape then
           case sqlite3Utf8Read zString of
             None \<Rightarrow> None
           | Some (c2, zString) \<Rightarrow> if c2 = 0 then Some False else patternLoop pInfo esc prevEscape zPattern zString
         else if c = ucast (matchSet pInfo) then
           case setCompare zPattern zString of
             None \<Rightarrow> None
           | Some None \<Rightarrow> Some False
           | Some (Some (zPattern, zString)) \<Rightarrow> patternLoop pInfo esc prevEscape zPattern zString
         else if esc = c \<and> \<not> prevEscape then patternLoop pInfo esc True zPattern zString
         else
           case sqlite3Utf8Read zString of
             None \<Rightarrow> None
           | Some (c2, zString) \<Rightarrow>
               let c = (if noCase pInfo \<noteq> 0 then GlobUpperToLower c else c);
                   c2 = (if noCase pInfo \<noteq> 0 then GlobUpperToLower c2 else c2) in
               if c \<noteq> c2 then Some False else patternLoop pInfo esc False zPattern zString)"
  by pat_completeness auto
termination patternLoop
  by (relation "measure (\<lambda>(_, _, _, z, _). length z)") (auto dest!: Utf8Read_length wildLoop_length setCompare_length)

declare patternLoop.simps [simp del]

definition patternCompare :: "bytes \<Rightarrow> bytes \<Rightarrow> compareInfo \<Rightarrow> u32 \<Rightarrow> bool option" where
  "patternCompare zPattern zString pInfo esc = patternLoop pInfo esc False zPattern zString"

definition sqlite3_strglob :: "bytes \<Rightarrow> bytes \<Rightarrow> bool option" where
  "sqlite3_strglob zGlobPattern zString = map_option Not (patternCompare zGlobPattern zString globInfo 0)"

text \<open>
  The SQL functions \<open>like()\<close> and \<open>glob()\<close>. The arguments are the texts that \<open>sqlite3_value_text\<close>
  returns, with their terminating zero, or \<open>None\<close> for NULL; \<open>nPat\<close> is \<open>sqlite3_value_bytes\<close> of the
  pattern and \<open>limit\<close> the bound on the length of patterns.
\<close>

datatype likeResult = LikeNull | LikeInt bool | LikeError string

definition likeFunc :: "compareInfo \<Rightarrow> int \<Rightarrow> bytes option \<Rightarrow> int \<Rightarrow> bytes option \<Rightarrow> bytes option option \<Rightarrow> likeResult option" where
  "likeFunc pInfo limit zB nPat zA argv2 =
    (if limit < nPat then Some (LikeError ''LIKE or GLOB pattern too complex'')
     else
       case (case argv2 of
               None \<Rightarrow> Some (Inr 0)
             | Some None \<Rightarrow> Some (Inl LikeNull)
             | Some (Some zEsc) \<Rightarrow>
                 do { n \<leftarrow> sqlite3Utf8CharLen zEsc (-1);
                      if n \<noteq> 1 then Some (Inl (LikeError ''ESCAPE expression must be a single character''))
                      else do { (escape, _) \<leftarrow> sqlite3Utf8Read zEsc; Some (Inr escape) } }) of
         None \<Rightarrow> None
       | Some (Inl r) \<Rightarrow> Some r
       | Some (Inr escape) \<Rightarrow>
           (case (zA, zB) of
              (Some zA, Some zB) \<Rightarrow> map_option LikeInt (patternCompare zB zA pInfo escape)
            | _ \<Rightarrow> Some LikeNull))"

section \<open>Patterns and what they match\<close>

text \<open>
  The characters of a buffer, up to the terminating zero. A pattern is read as a list of elements:
  any characters, one character, a set given by ranges, a single character, and the element that
  matches nothing, for a set without an end.
\<close>

fun utf8Chars :: "bytes \<Rightarrow> u32 list" where
  "utf8Chars z =
    (case sqlite3Utf8Read z of
       None \<Rightarrow> []
     | Some (c, z) \<Rightarrow> if c = 0 then [] else c # utf8Chars z)"

declare utf8Chars.simps [simp del]

datatype pat = Any | One | Class bool "(u32 \<times> u32) list" | Lit u32 | Never

fun parseRanges :: "u32 option \<Rightarrow> u32 list \<Rightarrow> ((u32 \<times> u32) list \<times> u32 list) option" where
  "parseRanges prior [] = None"
| "parseRanges prior (c # cs) =
    (if c = 0x5D then Some ([], cs)
     else
       case (prior, cs) of
         (Some a, d # ds) \<Rightarrow>
           if c = 0x2D \<and> d \<noteq> 0x5D then map_option (map_prod (Cons (a, d)) id) (parseRanges None ds)
           else map_option (map_prod (Cons (c, c)) id) (parseRanges (Some c) (d # ds))
       | _ \<Rightarrow> map_option (map_prod (Cons (c, c)) id) (parseRanges (Some c) cs))"

definition parseClass :: "u32 list \<Rightarrow> (pat \<times> u32 list) option" where
  "parseClass cs =
    (let (invert, cs) = (case cs of c # ds \<Rightarrow> if c = 0x5E then (True, ds) else (False, cs) | [] \<Rightarrow> (False, cs)) in
     case cs of
       [] \<Rightarrow> None
     | c # ds \<Rightarrow>
         if c = 0x5D then map_option (map_prod (\<lambda>rs. Class invert ((c, c) # rs)) id) (parseRanges None ds)
         else map_option (map_prod (Class invert) id) (parseRanges None cs))"

declare parseRanges.simps(2) [simp del]

lemma parseRanges_length: "parseRanges prior cs = Some (rs, ds) \<Longrightarrow> length ds < length cs"
proof (induction "length cs" arbitrary: prior cs rs rule: less_induct)
  case less
  have IH: "parseRanges p es = Some (qs, ds) \<Longrightarrow> length es < length cs \<Longrightarrow> length ds < length cs" for p es qs
    using less.hyps [of es p qs] by simp
  show ?case
  proof (cases cs)
    case (Cons c es)
    then show ?thesis
      using less.prems IH by (auto simp: parseRanges.simps(2) [of prior c] split: if_splits option.splits list.splits; force)
  qed (use less.prems in simp)
qed

lemma parseClass_length [termination_simp]: "parseClass cs = Some (p, ds) \<Longrightarrow> length ds < length cs"
  by (auto simp: parseClass_def Let_def split: if_splits list.splits dest!: parseRanges_length)

text \<open>
  An escape character at the end of the pattern matches nothing behind a \<open>matchAll\<close> and the
  \<open>matchOne\<close> that follow it, and is ignored elsewhere.
\<close>

fun parsePattern :: "compareInfo \<Rightarrow> u32 \<Rightarrow> bool \<Rightarrow> u32 list \<Rightarrow> pat list" where
  "parsePattern pInfo esc star [] = []"
| "parsePattern pInfo esc star (c # cs) =
    (if c = ucast (matchAll pInfo) then Any # parsePattern pInfo esc True cs
     else if c = ucast (matchOne pInfo) then One # parsePattern pInfo esc star cs
     else if c = ucast (matchSet pInfo) then
       (case parseClass cs of
          None \<Rightarrow> [Never]
        | Some (p, ds) \<Rightarrow> p # parsePattern pInfo esc False ds)
     else if c = esc then
       (case cs of
          [] \<Rightarrow> if star then [Never] else []
        | d # ds \<Rightarrow> Lit d # parsePattern pInfo esc False ds)
     else Lit c # parsePattern pInfo esc False cs)"

definition foldChar :: "bool \<Rightarrow> u32 \<Rightarrow> u32" where
  "foldChar nc c = (if nc then GlobUpperToLower c else c)"

definition sameChar :: "bool \<Rightarrow> u32 \<Rightarrow> u32 \<Rightarrow> bool" where
  "sameChar nc a b = (foldChar nc a = foldChar nc b)"

primrec elemMatch :: "bool \<Rightarrow> pat \<Rightarrow> u32 list \<Rightarrow> bool" where
  "elemMatch nc Any s = True"
| "elemMatch nc One s = (length s = 1)"
| "elemMatch nc (Class invert rs) s = (length s = 1 \<and> (\<exists>(a, b) \<in> set rs. a \<le> hd s \<and> hd s \<le> b) \<noteq> invert)"
| "elemMatch nc (Lit c) s = (length s = 1 \<and> sameChar nc c (hd s))"
| "elemMatch nc Never s = False"

text \<open>A string matches if it is the concatenation of segments that the elements match, in order.\<close>

definition patMatch :: "bool \<Rightarrow> pat list \<Rightarrow> u32 list \<Rightarrow> bool" where
  "patMatch nc ps s \<longleftrightarrow> (\<exists>segs. s = concat segs \<and> list_all2 (elemMatch nc) ps segs)"

lemma patMatch_Nil [simp]: "patMatch nc [] s \<longleftrightarrow> s = []"
  by (simp add: patMatch_def)

lemma patMatch_Cons: "patMatch nc (p # ps) s \<longleftrightarrow> (\<exists>a b. s = a @ b \<and> elemMatch nc p a \<and> patMatch nc ps b)"
proof
  assume "patMatch nc (p # ps) s"
  then obtain a segs where "s = concat (a # segs)" "elemMatch nc p a" "list_all2 (elemMatch nc) ps segs"
    by (auto simp: patMatch_def list_all2_Cons1)
  then show "\<exists>a b. s = a @ b \<and> elemMatch nc p a \<and> patMatch nc ps b" by (auto simp: patMatch_def)
next
  assume "\<exists>a b. s = a @ b \<and> elemMatch nc p a \<and> patMatch nc ps b"
  then obtain a segs where "s = concat (a # segs)" "list_all2 (elemMatch nc) (p # ps) (a # segs)"
    by (auto simp: patMatch_def)
  then show "patMatch nc (p # ps) s" unfolding patMatch_def by blast
qed

lemma patMatch_single:
  assumes "\<And>a. elemMatch nc p a \<longleftrightarrow> length a = 1 \<and> P (hd a)"
  shows "patMatch nc (p # ps) s \<longleftrightarrow> (case s of [] \<Rightarrow> False | x # t \<Rightarrow> P x \<and> patMatch nc ps t)"
proof (cases s)
  case (Cons x t)
  have "(\<exists>a b. x # t = a @ b \<and> (length a = 1 \<and> P (hd a)) \<and> patMatch nc ps b) \<longleftrightarrow> P x \<and> patMatch nc ps t"
  proof
    assume "\<exists>a b. x # t = a @ b \<and> (length a = 1 \<and> P (hd a)) \<and> patMatch nc ps b"
    then obtain a b where "x # t = a @ b" "length a = 1" "P (hd a)" "patMatch nc ps b" by blast
    then show "P x \<and> patMatch nc ps t" by (cases a) auto
  next
    assume "P x \<and> patMatch nc ps t"
    then show "\<exists>a b. x # t = a @ b \<and> (length a = 1 \<and> P (hd a)) \<and> patMatch nc ps b"
      by (intro exI [of _ "[x]"] exI [of _ t]) auto
  qed
  then show ?thesis by (simp add: patMatch_Cons assms Cons)
qed (auto simp: patMatch_Cons assms)

lemma patMatch_simps:
  "patMatch nc (One # ps) s \<longleftrightarrow> (case s of [] \<Rightarrow> False | x # t \<Rightarrow> patMatch nc ps t)"
  "patMatch nc (Lit c # ps) s \<longleftrightarrow> (case s of [] \<Rightarrow> False | x # t \<Rightarrow> sameChar nc c x \<and> patMatch nc ps t)"
  "patMatch nc (Class i rs # ps) s \<longleftrightarrow>
    (case s of [] \<Rightarrow> False | x # t \<Rightarrow> (\<exists>(a, b) \<in> set rs. a \<le> x \<and> x \<le> b) \<noteq> i \<and> patMatch nc ps t)"
  "\<not> patMatch nc (Never # ps) s"
  using patMatch_single [of nc One "\<lambda>_. True" ps s] patMatch_single [of nc "Lit c" "sameChar nc c"]
    patMatch_single [of nc "Class i rs" "\<lambda>x. (\<exists>(a, b) \<in> set rs. a \<le> x \<and> x \<le> b) \<noteq> i"]
  by (simp_all add: patMatch_Cons [of _ Never] split: list.split)

lemma patMatch_Lit: "patMatch nc (Lit c # ps) s \<longleftrightarrow> (\<exists>x t. s = x # t \<and> sameChar nc c x \<and> patMatch nc ps t)"
  by (simp add: patMatch_simps split: list.split)

lemma patMatch_Any: "patMatch nc (Any # ps) s \<longleftrightarrow> (\<exists>a b. s = a @ b \<and> patMatch nc ps b)"
  by (simp add: patMatch_Cons)

section \<open>Reading characters\<close>

lemma utf8ReadContinue_zero:
  "0 \<in> set z \<Longrightarrow> \<exists>c' y. utf8ReadContinue c z = Some (c', y) \<and> 0 \<in> set y"
  by (induction c z rule: utf8ReadContinue.induct) auto

text \<open>
  Reading one character of a zero-terminated buffer: there is a result, it is zero exactly at the
  terminating zero, and a character below \<open>0x80\<close> is its byte.
\<close>

lemma Utf8Read_cases:
  assumes "0 \<in> set z"
  obtains c y where "sqlite3Utf8Read z = Some (c, y)" "utf8Chars z = (if c = 0 then [] else c # utf8Chars y)"
    "c \<noteq> 0 \<Longrightarrow> 0 \<in> set y" "unat c < 0x80 \<or> unat (hd z) < 0x80 \<Longrightarrow> c = ucast (hd z)" "z \<noteq> []"
proof -
  obtain b zs where z: "z = b # zs" using assms by (cases z) auto
  show thesis
  proof (cases "0xc0 \<le> (ucast b :: u32)")
    case False
    have "b \<noteq> 0 \<Longrightarrow> 0 \<in> set zs" using assms z by auto
    with False show thesis
      by (intro that [of "ucast b" zs])
        (auto simp: z sqlite3Utf8Read_def utf8Chars.simps [of "b # zs"] word_unat_eq_iff unat_u32_of_u8)
  next
    case True
    then have b: "b \<noteq> 0" "\<not> unat b < 0x80" by (auto simp: word_le_nat_alt unat_u32_of_u8)
    then obtain d y where y: "utf8ReadContinue (sqlite3Utf8Trans1 ! unat ((ucast b :: u32) - 0xc0)) zs = Some (d, y)"
      "0 \<in> set y" using assms z utf8ReadContinue_zero by fastforce
    have "\<not> unat (utf8Replace d) < 0x80" "utf8Replace d \<noteq> 0" by (auto simp: utf8Replace_eq)
    with True y b show thesis
      by (intro that [of "utf8Replace d" y]) (auto simp: z sqlite3Utf8Read_def utf8Chars.simps [of "b # zs"])
  qed
qed

lemma Chars_empty: "0 \<in> set z \<Longrightarrow> utf8Chars z = [] \<longleftrightarrow> hd z = 0"
proof -
  assume "0 \<in> set z"
  then obtain c y where "utf8Chars z = (if c = 0 then [] else c # utf8Chars y)"
    "unat c < 0x80 \<or> unat (hd z) < 0x80 \<Longrightarrow> c = ucast (hd z)"
    using Utf8Read_cases [of z] by blast
  moreover have "(ucast (hd z) :: u32) = 0 \<longleftrightarrow> hd z = 0" by (simp add: word_unat_eq_iff unat_u32_of_u8)
  ultimately show ?thesis by (cases "c = 0"; cases "hd z = 0") auto
qed

text \<open>Skipping a character is reading it.\<close>

lemma utf8ReadContinue_skip: "utf8ReadContinue c z = Some (c', y) \<Longrightarrow> skipContinue z = Some y"
  by (induction c z rule: utf8ReadContinue.induct) (auto split: if_splits)

lemma Utf8Read_skip: "sqlite3Utf8Read z = Some (c, y) \<Longrightarrow> SQLITE_SKIP_UTF8 z = Some y"
  by (cases z)
    (auto simp: sqlite3Utf8Read_def Let_def word_le_nat_alt unat_u32_of_u8 split: if_splits bind_splits
      dest: utf8ReadContinue_skip)

lemma GlobUpperToLower_unat:
  "unat (GlobUpperToLower c) = (if 65 \<le> unat c \<and> unat c < 91 then unat c + 32 else unat c)"
proof -
  have "c AND NOT 0x7f = push_bit 7 (drop_bit 7 c)"
    by (rule bits_32, simp only: list.pred_inject, intro conjI TrueI; simp add: wbits)
  moreover have "unat c div 2 ^ 7 * 2 ^ 7 < 2 ^ 32"
    using div_times_less_eq_dividend [of "unat c" "2 ^ 7"] by (rule le_less_trans) simp
  then have "unat (push_bit 7 (drop_bit 7 c)) = unat c div 2 ^ 7 * 2 ^ 7"
    by (subst unat_push) (simp_all only: unat_drop)
  ultimately have "c AND NOT 0x7f = 0 \<longleftrightarrow> unat c < 128" by (simp add: word_unat_eq_iff div_eq_0_iff)
  moreover have "unat (ucast c :: u8) = unat c" if "unat c < 128" using that by (simp add: unat_u8_of_u32)
  ultimately show ?thesis by (auto simp: GlobUpperToLower_def unat_u32_of_u8 UpperToLower_unat)
qed

lemma foldChar_simps [simp]:
  "foldChar nc (foldChar nc c) = foldChar nc c" "foldChar nc c = 0 \<longleftrightarrow> c = 0" "foldChar nc 0 = 0"
  "sameChar nc (foldChar nc c) d = sameChar nc c d"
  by (auto simp: foldChar_def sameChar_def word_unat_eq_iff GlobUpperToLower_unat)

section \<open>The loops\<close>

text \<open>The three ways in which the operators call the comparison: GLOB has no escape character.\<close>

definition likeArgs :: "compareInfo \<Rightarrow> u32 \<Rightarrow> bool" where
  "likeArgs pInfo esc \<longleftrightarrow> pInfo = globInfo \<and> esc = 0 \<or> pInfo = likeInfoNorm \<or> pInfo = likeInfoAlt"

lemma likeArgs_bytes:
  assumes "likeArgs pInfo esc"
  shows "(ucast (matchAll pInfo) :: u32) \<noteq> 0" "(ucast (matchOne pInfo) :: u32) \<noteq> 0"
    "(ucast (matchAll pInfo) :: u32) \<noteq> ucast (matchOne pInfo)" "(ucast (matchSet pInfo) :: u32) = 0 \<or> esc = 0"
    "unat (matchSet pInfo) < 0x80"
  using assms by (auto simp: likeArgs_def globInfo_def likeInfoNorm_def likeInfoAlt_def)

lemma patMatch_Any_Any: "patMatch nc (Any # Any # ps) s \<longleftrightarrow> patMatch nc (Any # ps) s"
proof -
  have "(\<exists>a b. s = a @ b \<and> (\<exists>a' b'. b = a' @ b' \<and> patMatch nc ps b')) \<longleftrightarrow> (\<exists>a b. s = a @ b \<and> patMatch nc ps b)"
    by (metis append.assoc append_Nil)
  then show ?thesis by (simp add: patMatch_Any)
qed

lemma patMatch_Any_One:
  "patMatch nc (Any # One # ps) s \<longleftrightarrow> (case s of [] \<Rightarrow> False | x # t \<Rightarrow> patMatch nc (Any # ps) t)"
proof -
  have "(\<exists>a b. x # t = a @ b \<and> (\<exists>y u. b = y # u \<and> patMatch nc ps u)) \<longleftrightarrow> (\<exists>a b. t = a @ b \<and> patMatch nc ps b)" for x t
  proof
    assume "\<exists>a b. x # t = a @ b \<and> (\<exists>y u. b = y # u \<and> patMatch nc ps u)"
    then obtain a y u where "x # t = (a @ [y]) @ u" "patMatch nc ps u" by auto
    then show "\<exists>a b. t = a @ b \<and> patMatch nc ps b" by (metis append_is_Nil_conv list.sel(3) not_Cons_self2 tl_append2)
  next
    assume "\<exists>a b. t = a @ b \<and> patMatch nc ps b"
    then obtain a b where t: "t = a @ b" "patMatch nc ps b" by blast
    obtain c y where "x # a = c @ [y]" by (metis list.discI rev_exhaust)
    with t have "x # t = c @ y # b" by simp
    then show "\<exists>a b. x # t = a @ b \<and> (\<exists>y u. b = y # u \<and> patMatch nc ps u)" using t(2) by blast
  qed
  moreover have "patMatch nc (One # ps) b \<longleftrightarrow> (\<exists>y u. b = y # u \<and> patMatch nc ps u)" for b
    by (cases b) (simp_all add: patMatch_simps)
  ultimately show ?thesis by (cases s) (simp_all add: patMatch_Any)
qed

lemma wildLoop_correct:
  assumes "likeArgs pInfo esc" "0 \<in> set zP" "0 \<in> set zS"
  shows "wildLoop pInfo zP zS = Some None \<and> \<not> patMatch nc (Any # parsePattern pInfo esc True (utf8Chars zP)) (utf8Chars zS)
    \<or> (\<exists>c zP' zS'. wildLoop pInfo zP zS = Some (Some (c, zP', zS')) \<and> (c \<noteq> 0 \<longrightarrow> 0 \<in> set zP') \<and> 0 \<in> set zS'
        \<and> c \<noteq> ucast (matchAll pInfo) \<and> c \<noteq> ucast (matchOne pInfo)
        \<and> patMatch nc (Any # parsePattern pInfo esc True (utf8Chars zP)) (utf8Chars zS)
          = patMatch nc (Any # parsePattern pInfo esc True (if c = 0 then [] else c # utf8Chars zP')) (utf8Chars zS'))"
  using assms(2,3)
proof (induction "length zP" arbitrary: zP zS rule: less_induct)
  case less
  note b = likeArgs_bytes [OF assms(1)]
  from Utf8Read_cases [OF less.prems(1)] obtain c y where c: "sqlite3Utf8Read zP = Some (c, y)"
    "utf8Chars zP = (if c = 0 then [] else c # utf8Chars y)" "c \<noteq> 0 \<Longrightarrow> 0 \<in> set y" by blast
  from Utf8Read_cases [OF less.prems(2)] obtain d x where d: "sqlite3Utf8Read zS = Some (d, x)"
    "utf8Chars zS = (if d = 0 then [] else d # utf8Chars x)" "d \<noteq> 0 \<Longrightarrow> 0 \<in> set x" by blast
  note IH = less.hyps [OF Utf8Read_length [OF c(1)]]
  note w = wildLoop.simps [of pInfo zP zS, unfolded c(1) d(1) option.case prod.case]
  consider "c = ucast (matchAll pInfo)" | "c = ucast (matchOne pInfo)" "d = 0" | "c = ucast (matchOne pInfo)" "d \<noteq> 0"
    | "c \<noteq> ucast (matchAll pInfo)" "c \<noteq> ucast (matchOne pInfo)" by blast
  then show ?case
  proof cases
    case 1
    then have "c \<noteq> 0" "wildLoop pInfo zP zS = wildLoop pInfo y zS" using b w by auto
    then show ?thesis using IH [OF c(3) less.prems(2)] 1 by (simp add: c(2) patMatch_Any_Any)
  next
    case 2
    then show ?thesis using b w by (simp add: c(2) d(2) patMatch_Any_One)
  next
    case 3
    then have "c \<noteq> 0" "wildLoop pInfo zP zS = wildLoop pInfo y x" using b w by auto
    then show ?thesis using IH [OF c(3) d(3)] 3 b(3) by (simp add: c(2) d(2) patMatch_Any_One)
  next
    case 4
    then show ?thesis using w c less.prems(2) by auto
  qed
qed

lemma seekChar_correct:
  fixes pInfo :: compareInfo
  assumes "0 \<in> set z" "x \<noteq> 0" "c \<noteq> 0"
  defines "F \<equiv> foldChar (noCase pInfo \<noteq> 0)"
  obtains (none) z' where "seekChar pInfo c (F x) z = Some (0, z')" "\<forall>y \<in> set (x # utf8Chars z). F y \<noteq> c"
  | (found) a y z' where "seekChar pInfo c (F x) z = Some (c, z')" "x # utf8Chars z = a @ y # utf8Chars z'"
      "\<forall>w \<in> set a. F w \<noteq> c" "F y = c" "0 \<in> set z'"
proof -
  have "(\<exists>z'. seekChar pInfo c (F x) z = Some (0, z') \<and> (\<forall>y \<in> set (x # utf8Chars z). F y \<noteq> c))
    \<or> (\<exists>a y z'. seekChar pInfo c (F x) z = Some (c, z') \<and> x # utf8Chars z = a @ y # utf8Chars z'
        \<and> (\<forall>w \<in> set a. F w \<noteq> c) \<and> F y = c \<and> 0 \<in> set z')"
    using assms(1,2)
  proof (induction "length z" arbitrary: z x rule: less_induct)
    case less
    from Utf8Read_cases [OF less.prems(1)] obtain d y where d: "sqlite3Utf8Read z = Some (d, y)"
      "utf8Chars z = (if d = 0 then [] else d # utf8Chars y)" "d \<noteq> 0 \<Longrightarrow> 0 \<in> set y" by blast
    have f: "F d = (if noCase pInfo \<noteq> 0 then GlobUpperToLower d else d)" by (simp only: F_def foldChar_def)
    have "F x \<noteq> 0" using less.prems(2) by (simp add: F_def)
    then have s: "seekChar pInfo c (F x) z = (if F x \<noteq> c then seekChar pInfo c (F d) y else Some (c, z))"
      unfolding seekChar.simps [of pInfo c "F x" z] d(1) option.case prod.case f by auto
    consider "F x = c" | "F x \<noteq> c" "d = 0" | "F x \<noteq> c" "d \<noteq> 0" by blast
    then show ?case
    proof cases
      case 1
      then show ?thesis using s less.prems(1) by (intro disjI2 exI [of _ "[]"] exI [of _ x] exI [of _ z]) simp
    next
      case 2
      then have "F d = 0" by (simp add: F_def)
      then show ?thesis using 2 s d(2) by (simp add: seekChar.simps [of _ _ 0])
    next
      case 3
      show ?thesis
        using less.hyps [OF Utf8Read_length [OF d(1)] d(3) [OF 3(2)] 3(2)]
      proof (elim disjE exE conjE)
        fix z' assume "seekChar pInfo c (F d) y = Some (0, z')" "\<forall>w \<in> set (d # utf8Chars y). F w \<noteq> c"
        then show ?thesis using 3 s d(2) by simp
      next
        fix a w z' assume "seekChar pInfo c (F d) y = Some (c, z')" "d # utf8Chars y = a @ w # utf8Chars z'"
          "\<forall>w \<in> set a. F w \<noteq> c" "F w = c" "0 \<in> set z'"
        then show ?thesis using 3 s d(2) by (intro disjI2 exI [of _ "x # a"] exI [of _ w] exI [of _ z']) simp
      qed
    qed
  qed
  then show thesis using none found by blast
qed

lemma first_match:
  assumes "s = a @ y # b" "\<forall>w \<in> set a. \<not> Q w" "Q y"
  shows "(\<exists>a x t. s = a @ x # t \<and> Q x \<and> P t) \<longleftrightarrow> P b \<or> (\<exists>a x t. b = a @ x # t \<and> Q x \<and> P t)"
proof
  assume "\<exists>a x t. s = a @ x # t \<and> Q x \<and> P t"
  then obtain a' x t where x: "s = a' @ x # t" "Q x" "P t" by blast
  then have "x \<notin> set a" using assms(2) by blast
  with x(1) assms(1) have "a' @ x # t = a @ y # b" by simp
  then consider us where "a' = a @ us" "us @ x # t = y # b" | us where "a = a' @ us" "us @ y # b = x # t"
    by (auto simp: append_eq_append_conv2)
  then show "P b \<or> (\<exists>a x t. b = a @ x # t \<and> Q x \<and> P t)"
  proof cases
    case 1
    then show ?thesis using x by (cases us) auto
  next
    case 2
    then show ?thesis using x \<open>x \<notin> set a\<close> by (cases us) auto
  qed
next
  assume "P b \<or> (\<exists>a x t. b = a @ x # t \<and> Q x \<and> P t)"
  then show "\<exists>a x t. s = a @ x # t \<and> Q x \<and> P t"
  proof
    assume "P b"
    then show ?thesis using assms by blast
  next
    assume "\<exists>a x t. b = a @ x # t \<and> Q x \<and> P t"
    then obtain a' x t where "b = a' @ x # t" "Q x" "P t" by blast
    then show ?thesis using assms(1) by (intro exI [of _ "a @ y # a'"] exI [of _ x] exI [of _ t]) simp
  qed
qed

text \<open>The search tries every position: the first character that matches, and then the later ones.\<close>

lemma searchLoop_correct:
  assumes f: "\<And>z. 0 \<in> set z \<Longrightarrow> compare z = Some (P (utf8Chars z))" and "0 \<in> set zS" "c \<noteq> 0"
  shows "searchLoop compare pInfo c zS
    = Some (\<exists>a x t. utf8Chars zS = a @ x # t \<and> sameChar (noCase pInfo \<noteq> 0) c x \<and> P t)"
  using assms(2,3)
proof (induction "length zS" arbitrary: zS c rule: less_induct)
  case less
  let ?F = "foldChar (noCase pInfo \<noteq> 0)" and ?S = "sameChar (noCase pInfo \<noteq> 0)"
  from Utf8Read_cases [OF less.prems(1)] obtain d y where d: "sqlite3Utf8Read zS = Some (d, y)"
    "utf8Chars zS = (if d = 0 then [] else d # utf8Chars y)" "d \<noteq> 0 \<Longrightarrow> 0 \<in> set y" by blast
  note s = searchLoop.simps [of compare pInfo c zS, unfolded d(1) option.case prod.case Let_def,
      folded foldChar_def]
  show ?case
  proof (cases "d = 0")
    case True
    then show ?thesis using s d(2) by simp
  next
    case False
    have c: "?F c \<noteq> 0" using less.prems(2) by simp
    show ?thesis
    proof (cases rule: seekChar_correct [OF d(3) [OF False] False c, of pInfo])
      case none: (1 z')
      have "\<forall>x \<in> set (utf8Chars zS). \<not> ?S c x" using none(2) d(2) False by (auto simp: sameChar_def)
      then have "\<not> (\<exists>a x t. utf8Chars zS = a @ x # t \<and> ?S c x \<and> P t)" by auto
      then show ?thesis using s none(1) False by simp
    next
      case found: (2 a w z')
      have l: "length z' < length zS" using seekChar_length [OF found(1)] Utf8Read_length [OF d(1)] by simp
      have e: "utf8Chars zS = a @ w # utf8Chars z'" using d(2) False found(2) by simp
      have m: "\<forall>v \<in> set a. \<not> ?S c v" "?S c w" using found(3,4) unfolding sameChar_def by (metis, metis)
      have "searchLoop compare pInfo c zS
          = (if P (utf8Chars z') then Some True else searchLoop compare pInfo (?F c) z')"
        using s found(1) False c f [OF found(5)] by (simp split: bool.split)
      also have "\<dots> = Some (P (utf8Chars z') \<or> (\<exists>a x t. utf8Chars z' = a @ x # t \<and> ?S c x \<and> P t))"
        using less.hyps [OF l found(5) c] by simp
      also have "\<dots> = Some (\<exists>a x t. utf8Chars zS = a @ x # t \<and> ?S c x \<and> P t)"
        using first_match [OF e m, of P] by simp
      finally show ?thesis .
    qed
  qed
qed

lemma skipSearch_correct:
  assumes f: "\<And>z. 0 \<in> set z \<Longrightarrow> compare z = Some (P (utf8Chars z))" and "0 \<in> set zS" "\<not> P []"
  shows "skipSearch compare zS = Some (\<exists>a b. utf8Chars zS = a @ b \<and> P b)"
  using assms(2)
proof (induction "length zS" arbitrary: zS rule: less_induct)
  case less
  from Utf8Read_cases [OF less.prems] obtain d y where d: "sqlite3Utf8Read zS = Some (d, y)"
    "utf8Chars zS = (if d = 0 then [] else d # utf8Chars y)" "d \<noteq> 0 \<Longrightarrow> 0 \<in> set y" "zS \<noteq> []" by blast
  have z: "hd zS = 0 \<longleftrightarrow> d = 0" using Chars_empty [OF less.prems] d(2) by (simp split: if_splits)
  have s: "skipSearch compare zS
      = (if d \<noteq> 0 then if P (utf8Chars zS) then Some True else skipSearch compare y else Some False)"
    using d(4) z f [OF less.prems] Utf8Read_skip [OF d(1)]
    by (cases zS) (auto simp: skipSearch.simps [of _ "_ # _"] simp del: SQLITE_SKIP_UTF8.simps)
  show ?case
  proof (cases "d = 0")
    case True
    then show ?thesis using s d(2) assms(3) by simp
  next
    case False
    have "(\<exists>a b. d # t = a @ b \<and> P b) \<longleftrightarrow> P (d # t) \<or> (\<exists>a b. t = a @ b \<and> P b)" for t
      by (metis append_Cons append_Nil append_eq_Cons_conv)
    then show ?thesis
      using s False d(2) less.hyps [OF Utf8Read_length [OF d(1)] d(3) [OF False]] by auto
  qed
qed

lemma setLoop_correct:
  assumes "c2 \<noteq> 0 \<longrightarrow> 0 \<in> set zP"
  shows "case parseRanges (if prior_c = 0 then None else Some prior_c) (if c2 = 0 then [] else c2 # utf8Chars zP) of
      None \<Rightarrow> \<exists>seen' zP'. setLoop c prior_c seen c2 zP = Some (0, seen', zP')
    | Some (rs, cs) \<Rightarrow> \<exists>zP'. setLoop c prior_c seen c2 zP
        = Some (0x5D, seen \<or> (\<exists>(a, b) \<in> set rs. a \<le> c \<and> c \<le> b), zP') \<and> 0 \<in> set zP' \<and> utf8Chars zP' = cs"
  using assms
proof (induction "length zP" arbitrary: prior_c seen c2 zP rule: less_induct)
  case less
  note s = setLoop.simps [of c prior_c seen c2 zP]
  consider "c2 = 0" | "c2 = 0x5D" | "c2 \<noteq> 0" "c2 \<noteq> 0x5D" by blast
  then show ?case
  proof cases
    case 1
    then show ?thesis using s by simp
  next
    case 2
    then show ?thesis using s less.prems by (simp add: parseRanges.simps(2))
  next
    case 3
    with less.prems Utf8Read_cases [of zP] obtain d y where d: "sqlite3Utf8Read zP = Some (d, y)"
      "utf8Chars zP = (if d = 0 then [] else d # utf8Chars y)" "d \<noteq> 0 \<Longrightarrow> 0 \<in> set y" "zP \<noteq> []"
      "unat d < 0x80 \<or> unat (hd zP) < 0x80 \<Longrightarrow> d = ucast (hd zP)" by blast
    have h: "hd zP = 0x5D \<longleftrightarrow> d = 0x5D" "hd zP = 0 \<longleftrightarrow> d = 0"
      using d(5) by (auto simp: word_unat_eq_iff unat_u32_of_u8)
    show ?thesis
    proof (cases "c2 = 0x2D \<and> d \<noteq> 0x5D \<and> d \<noteq> 0 \<and> prior_c \<noteq> 0")
      case True
      with Utf8Read_cases [OF d(3)] obtain e x where e: "sqlite3Utf8Read y = Some (e, x)"
        "utf8Chars y = (if e = 0 then [] else e # utf8Chars x)" "e \<noteq> 0 \<Longrightarrow> 0 \<in> set x" by blast
      have "setLoop c prior_c seen c2 zP = setLoop c 0 (seen \<or> prior_c \<le> c \<and> c \<le> d) e x"
        using True h d(4) unfolding s d(1) by (simp add: e(1) word_gt_0)
      moreover have "length x < length zP" using Utf8Read_length [OF d(1)] Utf8Read_length [OF e(1)] by simp
      ultimately show ?thesis
        using less.hyps [of x e 0 "seen \<or> prior_c \<le> c \<and> c \<le> d"] e(2,3) d(2) True
        by (auto simp: parseRanges.simps(2) [of _ "0x2D"] split: option.splits)
    next
      case False
      have "setLoop c prior_c seen c2 zP = setLoop c c2 (seen \<or> c = c2) d y"
        using False 3 h d(4) unfolding s d(1) by (auto simp: word_gt_0)
      moreover have "parseRanges (if prior_c = 0 then None else Some prior_c) (c2 # utf8Chars zP)
          = map_option (map_prod (Cons (c2, c2)) id) (parseRanges (Some c2) (utf8Chars zP))"
        using False 3 d(2) by (auto simp: parseRanges.simps(2) [of _ c2] split: option.splits)
      ultimately show ?thesis
        using less.hyps [OF Utf8Read_length [OF d(1)], of d c2 "seen \<or> c = c2"] d(2,3) 3
        by (auto split: option.splits)
    qed
  qed
qed

text \<open>The end of the branch for a set, after the optional caret and bracket have been read.\<close>

lemma setFinish:
  fixes zS :: bytes and invert seen :: bool and c :: u32
  assumes "c2 \<noteq> 0 \<longrightarrow> 0 \<in> set zP"
  defines "R \<equiv> do { (c2, seen, zP) \<leftarrow> setLoop c 0 seen c2 zP; Some (if c2 = 0 \<or> seen = invert then None else Some (zP, zS)) }"
  shows "case parseRanges None (if c2 = 0 then [] else c2 # utf8Chars zP) of
      None \<Rightarrow> R = Some None
    | Some (rs, cs) \<Rightarrow>
        if (seen \<or> (\<exists>(a, b) \<in> set rs. a \<le> c \<and> c \<le> b)) = invert then R = Some None
        else \<exists>zP'. R = Some (Some (zP', zS)) \<and> 0 \<in> set zP' \<and> utf8Chars zP' = cs"
  using setLoop_correct [OF assms(1), where prior_c = 0 and c = c and seen = seen] unfolding R_def
  by (auto split: option.splits dest!: bspec)

lemma setCompare_correct:
  assumes "0 \<in> set zP" "0 \<in> set zS"
  shows "case parseClass (utf8Chars zP) of
      None \<Rightarrow> setCompare zP zS = Some None
    | Some (p, cs) \<Rightarrow>
        (case utf8Chars zS of
           [] \<Rightarrow> setCompare zP zS = Some None
         | x # t \<Rightarrow>
             if elemMatch nc p [x]
             then \<exists>zP' zS'. setCompare zP zS = Some (Some (zP', zS')) \<and> 0 \<in> set zP' \<and> utf8Chars zP' = cs
               \<and> 0 \<in> set zS' \<and> utf8Chars zS' = t
             else setCompare zP zS = Some None)"
proof -
  from Utf8Read_cases [OF assms(2)] obtain c x where c: "sqlite3Utf8Read zS = Some (c, x)"
    "utf8Chars zS = (if c = 0 then [] else c # utf8Chars x)" "c \<noteq> 0 \<Longrightarrow> 0 \<in> set x" by blast
  show ?thesis
  proof (cases "c = 0")
    case True
    then show ?thesis using c by (simp add: setCompare_def split: option.split)
  next
    case False
    from Utf8Read_cases [OF assms(1)] obtain d y where d: "sqlite3Utf8Read zP = Some (d, y)"
      "utf8Chars zP = (if d = 0 then [] else d # utf8Chars y)" "d \<noteq> 0 \<Longrightarrow> 0 \<in> set y" by blast
    define invert where "invert = (d = 0x5E)"
    obtain e w where e: "(if invert then sqlite3Utf8Read y else Some (d, y)) = Some (e, w)" "e \<noteq> 0 \<longrightarrow> 0 \<in> set w"
      "(if invert then utf8Chars y else utf8Chars zP) = (if e = 0 then [] else e # utf8Chars w)"
    proof (cases invert)
      case True
      then have "0 \<in> set y" using d(3) by (simp add: invert_def)
      from Utf8Read_cases [OF this] that True show thesis by fastforce
    next
      case False
      with d that [of d y] show thesis by simp
    qed
    obtain g v where g: "(if e = 0x5D then sqlite3Utf8Read w else Some (e, w)) = Some (g, v)" "g \<noteq> 0 \<longrightarrow> 0 \<in> set v"
      "(if e = 0x5D then utf8Chars w else if e = 0 then [] else e # utf8Chars w) = (if g = 0 then [] else g # utf8Chars v)"
    proof (cases "e = 0x5D")
      case True
      then have "0 \<in> set w" using e(2) by simp
      from Utf8Read_cases [OF this] that True show thesis by fastforce
    next
      case False
      with e that [of e w] show thesis by simp
    qed
    have s: "setCompare zP zS = do { (c2, seen, zP) \<leftarrow> setLoop c 0 (e = 0x5D \<and> c = 0x5D) g v;
        Some (if c2 = 0 \<or> seen = invert then None else Some (zP, x)) }"
      by (simp only: setCompare_def c(1) d(1) bind.simps prod.case if_not_P [OF False] Let_def invert_def [symmetric] e(1) g(1))
    have p: "parseClass (utf8Chars zP) = map_option (map_prod (\<lambda>rs. Class invert ((if e = 0x5D then [(e, e)] else []) @ rs)) id)
        (parseRanges None (if g = 0 then [] else g # utf8Chars v))"
    proof -
      have "parseClass (utf8Chars zP) = (case (if e = 0 then [] else e # utf8Chars w) of [] \<Rightarrow> None | c # ds \<Rightarrow>
          if c = 0x5D then map_option (map_prod (\<lambda>rs. Class invert ((c, c) # rs)) id) (parseRanges None ds)
          else map_option (map_prod (Class invert) id) (parseRanges None (c # ds)))"
        unfolding e(3) [symmetric] using d(2) by (auto simp: parseClass_def invert_def split: list.split)
      then show ?thesis using g(3) by (cases "e = 0x5D"; cases "e = 0") (auto simp: id_def)
    qed
    show ?thesis
      using setFinish [OF g(2), of c "e = 0x5D \<and> c = 0x5D" invert x] False c
      unfolding s p by (auto split: option.splits if_splits prod.splits simp: c(2))
  qed
qed

section \<open>The comparison is matching\<close>

lemma Chars_ascii:
  assumes "unat b < 0x80" "b \<noteq> 0" "0 \<in> set z"
  shows "utf8Chars (b # z) = ucast b # utf8Chars z"
proof -
  have "\<not> 0xc0 \<le> (ucast b :: u32)" "(ucast b :: u32) \<noteq> 0"
    using assms by (auto simp: word_le_nat_alt word_unat_eq_iff unat_u32_of_u8)
  then show ?thesis by (simp add: utf8Chars.simps [of "b # z"] sqlite3Utf8Read_def)
qed

lemma setCompare_step:
  assumes "0 \<in> set zP" "0 \<in> set zS"
    and IH: "\<And>zP' zS'. length zP' \<le> length zP \<Longrightarrow> 0 \<in> set zP' \<Longrightarrow> 0 \<in> set zS' \<Longrightarrow>
      run zP' zS' = Some (patMatch nc (parse (utf8Chars zP')) (utf8Chars zS'))"
  shows "(case setCompare zP zS of
       None \<Rightarrow> None
     | Some None \<Rightarrow> Some False
     | Some (Some (zPattern, zString)) \<Rightarrow> run zPattern zString)
     = Some (patMatch nc (case parseClass (utf8Chars zP) of None \<Rightarrow> [Never] | Some (p, ds) \<Rightarrow> p # parse ds) (utf8Chars zS))"
proof (cases "parseClass (utf8Chars zP)")
  case None
  then show ?thesis using setCompare_correct [OF assms(1,2), of nc] by (simp add: patMatch_simps(4))
next
  case (Some q)
  then obtain i rs ds where p: "parseClass (utf8Chars zP) = Some (Class i rs, ds)"
    by (cases q) (auto simp: parseClass_def Let_def split: if_splits list.splits)
  show ?thesis
  proof (cases "utf8Chars zS")
    case Nil
    then show ?thesis using setCompare_correct [OF assms(1,2), of nc] p by (simp add: patMatch_simps)
  next
    case (Cons x t)
    show ?thesis
    proof (cases "elemMatch nc (Class i rs) [x]")
      case True
      with p Cons setCompare_correct [OF assms(1,2), of nc] obtain zP' zS' where
        "setCompare zP zS = Some (Some (zP', zS'))" "0 \<in> set zP'" "utf8Chars zP' = ds" "0 \<in> set zS'" "utf8Chars zS' = t"
        by auto
      then show ?thesis using True p Cons IH [of zP' zS'] setCompare_length [of zP zS zP' zS'] by (simp add: patMatch_simps)
    next
      case False
      then show ?thesis using setCompare_correct [OF assms(1,2), of nc] p Cons by (auto simp: patMatch_simps)
    qed
  qed
qed

text \<open>After a \<open>matchAll\<close> and the wildcards behind it.\<close>

lemma starLoop_correct:
  assumes a: "likeArgs pInfo esc" and zP: "0 \<in> set zP" and zS: "0 \<in> set zS"
    and IH: "\<And>zP' zS'. length zP' \<le> length zP \<Longrightarrow> 0 \<in> set zP' \<Longrightarrow> 0 \<in> set zS' \<Longrightarrow>
      patternLoop pInfo esc False zP' zS'
        = Some (patMatch (noCase pInfo \<noteq> 0) (parsePattern pInfo esc False (utf8Chars zP')) (utf8Chars zS'))"
  shows "(case wildLoop pInfo zP zS of
           None \<Rightarrow> None
         | Some None \<Rightarrow> Some False
         | Some (Some (c, zPattern, zString)) \<Rightarrow>
             if c = 0 then Some True
             else if c = esc then
               case sqlite3Utf8Read zPattern of
                 None \<Rightarrow> None
               | Some (c, zPattern) \<Rightarrow>
                   if c = 0 then Some False
                   else searchLoop (\<lambda>z. patternLoop pInfo esc False zPattern z) pInfo c zString
             else if c = ucast (matchSet pInfo) then
               skipSearch (\<lambda>z. patternLoop pInfo esc False (matchSet pInfo # zPattern) z) zString
             else searchLoop (\<lambda>z. patternLoop pInfo esc False zPattern z) pInfo c zString)
      = Some (patMatch (noCase pInfo \<noteq> 0) (Any # parsePattern pInfo esc True (utf8Chars zP)) (utf8Chars zS))"
proof -
  let ?nc = "noCase pInfo \<noteq> 0"
  let ?M = "\<lambda>cs s. patMatch ?nc (Any # parsePattern pInfo esc True cs) s"
  note b = likeArgs_bytes [OF a]
  from wildLoop_correct [OF a zP zS, of ?nc] consider
      "wildLoop pInfo zP zS = Some None" "\<not> ?M (utf8Chars zP) (utf8Chars zS)"
    | c zP' zS' where "wildLoop pInfo zP zS = Some (Some (c, zP', zS'))" "c \<noteq> 0 \<longrightarrow> 0 \<in> set zP'" "0 \<in> set zS'"
      "c \<noteq> ucast (matchAll pInfo)" "c \<noteq> ucast (matchOne pInfo)"
      "?M (utf8Chars zP) (utf8Chars zS) = ?M (if c = 0 then [] else c # utf8Chars zP') (utf8Chars zS')"
    by blast
  then show ?thesis
  proof cases
    case 1
    then show ?thesis by simp
  next
    case (2 c zP' zS')
    have l: "length zP' < length zP" using wildLoop_length [OF 2(1)] .
    have search: "searchLoop (\<lambda>z. patternLoop pInfo esc False zQ z) pInfo d zS'
        = Some (patMatch ?nc (Any # Lit d # parsePattern pInfo esc False (utf8Chars zQ)) (utf8Chars zS'))"
      if "length zQ \<le> length zP" "0 \<in> set zQ" "d \<noteq> 0" for zQ d
    proof -
      have "searchLoop (\<lambda>z. patternLoop pInfo esc False zQ z) pInfo d zS'
          = Some (\<exists>a x t. utf8Chars zS' = a @ x # t \<and> sameChar ?nc d x
              \<and> patMatch ?nc (parsePattern pInfo esc False (utf8Chars zQ)) t)"
        using that 2(3) by (intro searchLoop_correct) (simp_all add: IH)
      also have "\<dots> = Some (patMatch ?nc (Any # Lit d # parsePattern pInfo esc False (utf8Chars zQ)) (utf8Chars zS'))"
        by (simp add: patMatch_Any patMatch_Lit; blast)
      finally show ?thesis .
    qed
    consider "c = 0" | "c \<noteq> 0" "c = esc" | "c \<noteq> 0" "c \<noteq> esc" "c = ucast (matchSet pInfo)"
      | "c \<noteq> 0" "c \<noteq> esc" "c \<noteq> ucast (matchSet pInfo)" by blast
    then show ?thesis
    proof cases
      case 1
      then show ?thesis using 2 by (simp add: patMatch_Any)
    next
      case esc: 2
      with 2 have "0 \<in> set zP'" by simp
      from Utf8Read_cases [OF this] obtain d y where d: "sqlite3Utf8Read zP' = Some (d, y)"
        "utf8Chars zP' = (if d = 0 then [] else d # utf8Chars y)" "d \<noteq> 0 \<Longrightarrow> 0 \<in> set y" by blast
      have set: "c \<noteq> ucast (matchSet pInfo)" using esc b(4) by auto
      show ?thesis
      proof (cases "d = 0")
        case True
        then show ?thesis using 2 esc d set by (simp add: patMatch_Any patMatch_simps(4))
      next
        case False
        then show ?thesis
          using 2 esc d set l Utf8Read_length [OF d(1)] search [of y d] by simp
      qed
    next
      case set: 3
      with 2 have z: "0 \<in> set zP'" by simp
      have m: "matchSet pInfo \<noteq> 0" using set by auto
      let ?ps = "parsePattern pInfo esc False (utf8Chars (matchSet pInfo # zP'))"
      have ps: "utf8Chars (matchSet pInfo # zP') = c # utf8Chars zP'" using Chars_ascii [OF b(5) m z] set by simp
      have same: "parsePattern pInfo esc True (c # utf8Chars zP') = ?ps" using set 2(4,5) by (simp add: ps)
      have "skipSearch (\<lambda>z. patternLoop pInfo esc False (matchSet pInfo # zP') z) zS'
          = Some (\<exists>a b. utf8Chars zS' = a @ b \<and> patMatch ?nc ?ps b)"
      proof (rule skipSearch_correct)
        show "\<not> patMatch ?nc ?ps []"
          using set 2(4,5) by (auto simp: ps parseClass_def patMatch_simps split: option.split if_splits list.splits)
      qed (use 2(3) z l in \<open>simp_all add: IH\<close>)
      then show ?thesis using 2 set same by (simp add: patMatch_Any)
    next
      case 4
      then show ?thesis using 2 l search [of zP' c] by simp
    qed
  qed
qed

text \<open>A character of the pattern that stands for itself.\<close>

lemma literal_step:
  assumes zS: "0 \<in> set zS" and c: "c \<noteq> 0"
    and IH: "\<And>zS'. 0 \<in> set zS' \<Longrightarrow> run zS' = Some (patMatch (noCase pInfo \<noteq> 0) ps (utf8Chars zS'))"
  shows "(case sqlite3Utf8Read zS of
       None \<Rightarrow> None
     | Some (c2, zString) \<Rightarrow>
         let c = (if noCase pInfo \<noteq> 0 then GlobUpperToLower c else c);
             c2 = (if noCase pInfo \<noteq> 0 then GlobUpperToLower c2 else c2) in
         if c \<noteq> c2 then Some False else run zString)
     = Some (patMatch (noCase pInfo \<noteq> 0) (Lit c # ps) (utf8Chars zS))"
proof -
  let ?F = "foldChar (noCase pInfo \<noteq> 0)"
  from Utf8Read_cases [OF zS] obtain d x where d: "sqlite3Utf8Read zS = Some (d, x)"
    "utf8Chars zS = (if d = 0 then [] else d # utf8Chars x)" "d \<noteq> 0 \<Longrightarrow> 0 \<in> set x" by blast
  have "?F c \<noteq> 0" using c by simp
  then have "(if ?F c \<noteq> ?F d then Some False else run x) = Some (patMatch (noCase pInfo \<noteq> 0) (Lit c # ps) (utf8Chars zS))"
    using IH [OF d(3)] d(2) by (cases "d = 0") (auto simp: patMatch_simps sameChar_def)
  then show ?thesis unfolding d(1) option.case prod.case Let_def foldChar_def .
qed

lemma patternLoop_correct:
  assumes a: "likeArgs pInfo esc" and "0 \<in> set zP" "0 \<in> set zS"
  shows "patternLoop pInfo esc False zP zS
      = Some (patMatch (noCase pInfo \<noteq> 0) (parsePattern pInfo esc False (utf8Chars zP)) (utf8Chars zS))
    \<and> (matchSet pInfo = 0 \<longrightarrow> patternLoop pInfo esc True zP zS
      = Some (patMatch (noCase pInfo \<noteq> 0)
          (case utf8Chars zP of [] \<Rightarrow> [] | d # ds \<Rightarrow> Lit d # parsePattern pInfo esc False ds) (utf8Chars zS)))"
  using assms(2,3)
proof (induction "length zP" arbitrary: zP zS rule: less_induct)
  case less
  let ?nc = "noCase pInfo \<noteq> 0"
  note b = likeArgs_bytes [OF a]
  from Utf8Read_cases [OF less.prems(1)] obtain c y where c: "sqlite3Utf8Read zP = Some (c, y)"
    "utf8Chars zP = (if c = 0 then [] else c # utf8Chars y)" "c \<noteq> 0 \<Longrightarrow> 0 \<in> set y" by blast
  from Utf8Read_cases [OF less.prems(2)] obtain d x where d: "sqlite3Utf8Read zS = Some (d, x)"
    "utf8Chars zS = (if d = 0 then [] else d # utf8Chars x)" "d \<noteq> 0 \<Longrightarrow> 0 \<in> set x" by blast
  have l: "length y < length zP" using Utf8Read_length [OF c(1)] .
  have IH: "patternLoop pInfo esc False zP' zS' = Some (patMatch ?nc (parsePattern pInfo esc False (utf8Chars zP')) (utf8Chars zS'))"
    if "length zP' \<le> length y" "0 \<in> set zP'" "0 \<in> set zS'" for zP' zS'
    using less.hyps [of zP' zS'] that l by simp
  note step = patternLoop.simps [of pInfo esc _ zP zS, unfolded c(1) option.case prod.case]
  show ?case
  proof (cases "c = 0")
    case True
    have "zS \<noteq> []" "hd zS = 0 \<longleftrightarrow> utf8Chars zS = []" using less.prems(2) Chars_empty by auto
    then show ?thesis unfolding step using True c(2) by (cases zS) auto
  next
    case False
    have y: "0 \<in> set y" by (rule c(3) [OF False])
    have literal: "(case sqlite3Utf8Read zS of
       None \<Rightarrow> None
     | Some (c2, zString) \<Rightarrow>
         let c = (if noCase pInfo \<noteq> 0 then GlobUpperToLower c else c);
             c2 = (if noCase pInfo \<noteq> 0 then GlobUpperToLower c2 else c2) in
         if c \<noteq> c2 then Some False else patternLoop pInfo esc False y zString)
       = Some (patMatch ?nc (Lit c # parsePattern pInfo esc False (utf8Chars y)) (utf8Chars zS))"
      using less.prems(2) False y IH by (intro literal_step) simp_all
    have two: "matchSet pInfo = 0 \<longrightarrow> patternLoop pInfo esc True zP zS
      = Some (patMatch ?nc (case utf8Chars zP of [] \<Rightarrow> [] | d # ds \<Rightarrow> Lit d # parsePattern pInfo esc False ds) (utf8Chars zS))"
      using literal False c(2) unfolding step by simp
    have "patternLoop pInfo esc False zP zS
      = Some (patMatch ?nc (parsePattern pInfo esc False (utf8Chars zP)) (utf8Chars zS))"
    proof -
      consider (all) "c = ucast (matchAll pInfo)"
        | (one) "c \<noteq> ucast (matchAll pInfo)" "c = ucast (matchOne pInfo)"
        | (set) "c \<noteq> ucast (matchAll pInfo)" "c \<noteq> ucast (matchOne pInfo)" "c = ucast (matchSet pInfo)"
        | (esc) "c \<noteq> ucast (matchAll pInfo)" "c \<noteq> ucast (matchOne pInfo)" "c \<noteq> ucast (matchSet pInfo)" "c = esc"
        | (lit) "c \<noteq> ucast (matchAll pInfo)" "c \<noteq> ucast (matchOne pInfo)" "c \<noteq> ucast (matchSet pInfo)" "c \<noteq> esc"
        by blast
      then show ?thesis
      proof cases
        case all
        then show ?thesis
          using starLoop_correct [OF a y less.prems(2) IH] False c(2) unfolding step by simp
      next
        case one
        then show ?thesis
          using False c(2) d IH [OF order_refl y d(3)] unfolding step by (simp add: patMatch_simps(1))
      next
        case set
        then show ?thesis
          using False c(2) setCompare_step [OF y less.prems(2), where run = "patternLoop pInfo esc False"
            and parse = "parsePattern pInfo esc False" and nc = ?nc, OF IH] unfolding step by simp
      next
        case esc
        then have "matchSet pInfo = 0" using False b(4) by (auto simp: word_unat_eq_iff unat_u32_of_u8)
        then show ?thesis
          using less.hyps [OF l y less.prems(2)] False c(2) esc unfolding step by (simp split: list.split)
      next
        case lit
        then show ?thesis using literal False c(2) unfolding step by simp
      qed
    qed
    with two show ?thesis by blast
  qed
qed

text \<open>Whether a string matches a pattern with an escape character, zero for none.\<close>

definition likeMatches :: "compareInfo \<Rightarrow> u32 \<Rightarrow> u32 list \<Rightarrow> u32 list \<Rightarrow> bool" where
  "likeMatches pInfo esc p s = patMatch (noCase pInfo \<noteq> 0) (parsePattern pInfo esc False p) s"

lemma patternCompare_correct:
  "likeArgs pInfo esc \<Longrightarrow> 0 \<in> set zPattern \<Longrightarrow> 0 \<in> set zString \<Longrightarrow>
   patternCompare zPattern zString pInfo esc = Some (likeMatches pInfo esc (utf8Chars zPattern) (utf8Chars zString))"
  using patternLoop_correct by (simp add: patternCompare_def likeMatches_def)

lemma charLen_chars: "0 \<in> set z \<Longrightarrow> charLenLoop None z r = Some (r + length (utf8Chars z))"
proof (induction "length z" arbitrary: z r rule: less_induct)
  case less
  from Utf8Read_cases [OF less.prems] obtain c y where c: "sqlite3Utf8Read z = Some (c, y)"
    "utf8Chars z = (if c = 0 then [] else c # utf8Chars y)" "c \<noteq> 0 \<Longrightarrow> 0 \<in> set y" "z \<noteq> []" by blast
  have "hd z = 0 \<longleftrightarrow> c = 0" using Chars_empty [OF less.prems] c(2) by (simp split: if_splits)
  then show ?case
    using c Utf8Read_skip [OF c(1)] less.hyps [OF Utf8Read_length [OF c(1)] c(3)]
    by (cases z) (auto simp: charLenLoop.simps [of _ "_ # _"] simp del: SQLITE_SKIP_UTF8.simps)
qed

text \<open>C22. The functions behind LIKE and GLOB, on zero-terminated texts of any bytes, never read outside
  a text and always have a result: the error for a pattern over the limit, NULL for a NULL argument,
  the error for an escape text that is not one character, and otherwise whether the string is a
  concatenation of segments that the elements of the pattern match one by one. The backtracking
  search is thus equivalent to the declarative reading of the pattern.\<close>

theorem likeFunc_correct:
  assumes "pInfo \<in> {globInfo, likeInfoNorm, likeInfoAlt}" "pInfo = globInfo \<longrightarrow> argv2 = None"
    and "\<forall>z \<in> set_option zA \<union> set_option zB \<union> set_option (Option.bind argv2 id). 0 \<in> set z"
  shows "likeFunc pInfo limit zB nPat zA argv2 = Some (
    let result = (\<lambda>esc. case (zA, zB) of
          (Some a, Some b) \<Rightarrow> LikeInt (likeMatches pInfo esc (utf8Chars b) (utf8Chars a))
        | _ \<Rightarrow> LikeNull) in
    if limit < nPat then LikeError ''LIKE or GLOB pattern too complex''
    else case argv2 of
        None \<Rightarrow> result 0
      | Some None \<Rightarrow> LikeNull
      | Some (Some zEsc) \<Rightarrow>
          (case utf8Chars zEsc of
             [esc] \<Rightarrow> result esc
           | _ \<Rightarrow> LikeError ''ESCAPE expression must be a single character''))"
proof -
  have compare: "(case (zA, zB) of (Some zA, Some zB) \<Rightarrow> map_option LikeInt (patternCompare zB zA pInfo esc) | _ \<Rightarrow> Some LikeNull)
      = Some (case (zA, zB) of (Some a, Some b) \<Rightarrow> LikeInt (likeMatches pInfo esc (utf8Chars b) (utf8Chars a)) | _ \<Rightarrow> LikeNull)"
    if "likeArgs pInfo esc" for esc
    using assms(3) patternCompare_correct [OF that] by (simp split: option.split)
  consider "argv2 = None" | "argv2 = Some None" | zEsc where "argv2 = Some (Some zEsc)" by (cases argv2) auto
  then show ?thesis
  proof cases
    case 1
    then have "likeArgs pInfo 0" using assms(1) by (auto simp: likeArgs_def)
    with 1 compare show ?thesis by (simp add: likeFunc_def Let_def)
  next
    case 2
    then show ?thesis by (simp add: likeFunc_def)
  next
    case (3 zEsc)
    then have z: "0 \<in> set zEsc" using assms(3) by simp
    from Utf8Read_cases [OF z] obtain c y where c: "sqlite3Utf8Read zEsc = Some (c, y)"
      "utf8Chars zEsc = (if c = 0 then [] else c # utf8Chars y)" by blast
    have "likeArgs pInfo c" using assms(1,2) 3 by (auto simp: likeArgs_def)
    with 3 compare [of c] show ?thesis
      using c charLen_chars [OF z, of 0]
      by (cases "c = 0"; cases "utf8Chars y") (simp_all add: likeFunc_def Let_def sqlite3Utf8CharLen_def)
  qed
qed

text \<open>The pattern \<open>%A_\<close> with the string \<open>xay\<close>, and the escape character \<open>!\<close>.\<close>

lemma likeFunc_correct_witness:
  "likeFunc likeInfoNorm 50000 (Some [37, 65, 95, 0]) 3 (Some [120, 97, 121, 0]) (Some (Some [33, 0])) = Some (LikeInt True)"
proof -
  have "utf8Chars [33, 0] = [33]" "utf8Chars [37, 65, 95, 0] = [37, 65, 95]" "utf8Chars [120, 97, 121, 0] = [120, 97, 121]"
    by code_simp+
  moreover have "patMatch True [Any, Lit 65, One] [120, 97, 121]"
    unfolding patMatch_def
    by (intro exI [of _ "[[120], [97], [121 :: u32]]"]) (simp add: sameChar_def foldChar_def word_unat_eq_iff GlobUpperToLower_unat)
  ultimately show ?thesis
    using likeFunc_correct [of likeInfoNorm "Some (Some [33, 0])" "Some [120, 97, 121, 0]" "Some [37, 65, 95, 0]" 50000 3]
    by (simp add: likeMatches_def likeInfoNorm_def globInfo_def)
qed

text \<open>
  An escape character at the end of a pattern is ignored behind a plain character, but makes the
  comparison fail behind a \<open>%\<close>: \<open>a\<close> is like \<open>a!\<close> and not like \<open>%!\<close>.
\<close>

lemma trailing_escape:
  "patternCompare [97, 33, 0] [97, 0] likeInfoNorm 33 = Some True"
  "patternCompare [37, 33, 0] [97, 0] likeInfoNorm 33 = Some False"
  by code_simp+

end
