(* ===== verification/Spec2Isabelle.thy ===== *)
theory Spec2Isabelle
  imports Varint_Decode Bitvec Rowset Memjournal Strings Numbers Atoi Hash Wal_Progress Run_Parser Complete
    Record_Compare Like
begin

text \<open>
  Verification of the storage core of the SQLite library (version 3.8.4.1) that the notifications
  service links through \<^verbatim>\<open>go-sqlite3\<close>. The source is the amalgamation
  \<^verbatim>\<open>src/Godeps/_workspace/src/github.com/mattn/go-sqlite3/sqlite3.c\<close>, called by its original file names below. The
  service itself is written in Go; this library is about the C code of the repository.

  \<^bold>\<open>The program.\<close> The SQL text of a statement goes through the tokenizer (\<^verbatim>\<open>tokenize.c\<close>, \<^verbatim>\<open>keywordhash.h\<close>) to a
  generated parser and a code generator; the virtual machine runs the result on B-trees, whose pages come from
  the pager. In WAL mode the pager reads and writes pages through \<^verbatim>\<open>wal.c\<close>: a commit appends frames to a log
  file, the shared wal-index finds the newest frame of a page, a checkpoint copies frames back to the
  database file, and connections in several threads or processes coordinate by read marks and locks. The
  pager records journalled pages in the bitmaps of \<^verbatim>\<open>bitvec.c\<close> and can keep its journal in memory
  (\<^verbatim>\<open>memjournal.c\<close>); the virtual machine collects rowids in \<^verbatim>\<open>rowset.c\<close>; schema objects are found by name in
  \<^verbatim>\<open>hash.c\<close>; rows and index keys are stored as records of serialized cells (\<^verbatim>\<open>vdbeaux.c\<close>, \<^verbatim>\<open>vdbemem.c\<close>), whose texts
  \<^verbatim>\<open>utf.c\<close> converts between encodings and \<^verbatim>\<open>func.c\<close> compares with patterns; \<^verbatim>\<open>util.c\<close> has the integer formats, string functions and checked arithmetic that all of them use.

  \<^bold>\<open>Theories and code.\<close>

  \<^item> \<^verbatim>\<open>Prelude\<close>: the C integer types as words, byte buffers, result codes, and the lemmas on lists and words that
    the components share. \<^verbatim>\<open>Probing\<close>: open addressing with linear probing, as the locale \<open>probing\<close> with the
    invariant of a table and the theorems on search and insertion; interpreted for the hash form of bitmaps and
    for the tables of the wal-index.
  \<^item> \<^verbatim>\<open>Varint\<close>, \<^verbatim>\<open>Varint_Decode\<close> (\<^verbatim>\<open>util.c\<close>): \<open>sqlite3PutVarint\<close>, \<open>sqlite3GetVarint\<close> and their 32-bit and inlined
    variants. The decoder, unrolled by hand over two interleaved registers, equals the documented format on
    every buffer; round trips, minimality and bounds follow.
  \<^item> \<^verbatim>\<open>Bitvec\<close> (\<^verbatim>\<open>bitvec.c\<close>): the bitmap, hash and tree forms; set, clear and test refine the operations on a set of page
    numbers (locale \<open>page_bitmap\<close>), also when memory runs out.
  \<^item> \<^verbatim>\<open>Rowset\<close> (\<^verbatim>\<open>rowset.c\<close>): insertion, sorting in buckets, the forest of trees and extraction; every history refines
    the batched set of the locale \<open>batched_set\<close>.
  \<^item> \<^verbatim>\<open>Memjournal\<close> (\<^verbatim>\<open>memjournal.c\<close>): the chunk list with both cursors refines a file that is appended to (locale
    \<open>append_file\<close>); one state in which a read dereferences a null pointer is shown.
  \<^item> \<^verbatim>\<open>Strings\<close>, \<^verbatim>\<open>Numbers\<close>, \<^verbatim>\<open>Atoi\<close> (\<^verbatim>\<open>global.c\<close>, \<^verbatim>\<open>sqliteInt.h\<close>, \<^verbatim>\<open>util.c\<close>): character classes, comparison, dequoting,
    hexadecimal text; 64-bit arithmetic with overflow detection, logarithmic estimates, decimal text to 32-bit
    and 64-bit integers in three encodings.
  \<^item> \<^verbatim>\<open>Hash\<close> (\<^verbatim>\<open>hash.c\<close>): the list of elements with the bucket array over it, growth and allocation failure, refines a
    map on case-folded names (locale \<open>name_map\<close>).
  \<^item> \<^verbatim>\<open>Wal_Index\<close> (\<^verbatim>\<open>wal.c\<close>): the hash tables of the wal-index. Appending, lookup, rollback, savepoints and the
    removal of the remnants of a crashed writer refine a log of page numbers (locale \<open>frame_index\<close>); a lookup
    returns the last frame of a page before the end of the reader's snapshot.
  \<^item> \<^verbatim>\<open>Wal_Frame\<close>, \<^verbatim>\<open>Wal_Write\<close> (\<^verbatim>\<open>wal.c\<close>): checksums, frame encoding, \<open>walIndexRecover\<close>, and \<open>sqlite3WalFrames\<close> with the
    restart of the log at its start and every write, sync and lock of the operating system, which may fail. A commit
    that succeeds is found by recovery, if what an earlier use of the log left behind it is not by chance a valid
    frame, and a failure leaves the published state unchanged or, after a restart, publishes an empty log.
  \<^item> \<^verbatim>\<open>Wal_Sort\<close>, \<^verbatim>\<open>Wal_Iter\<close>, \<^verbatim>\<open>Wal_Checkpoint\<close> (\<^verbatim>\<open>wal.c\<close>): the merge sort in place, the iterator over the segments of
    the wal-index, and \<open>walCheckpoint\<close> of one connection on the bytes of the files: it returns, it does not change a
    page that an active reader takes from the database file, for readers on the read lock 0 and on the others, and
    undisturbed it completes.
  \<^item> \<^verbatim>\<open>Rely_Guarantee\<close>: programs of atomic accesses to a shared state, their interleaving \<open>sys_step\<close>, and the locales
    \<open>rely_guarantee\<close> and \<open>rg_client\<close>, in which an invariant of a system follows from one proof per program.
  \<^item> \<^verbatim>\<open>Wal_Locks\<close>, \<^verbatim>\<open>Wal_Snapshot\<close>, \<^verbatim>\<open>Wal_Isolation\<close>, \<^verbatim>\<open>Wal_System\<close>, \<^verbatim>\<open>Wal_Progress\<close> (\<^verbatim>\<open>wal.c\<close>, \<open>unixShmLock\<close> of \<^verbatim>\<open>os_unix.c\<close>): the transaction
    functions (\<open>walTryBeginRead\<close>, \<open>walRestartLog\<close>, \<open>sqlite3WalBeginWriteTransaction\<close>, \<open>sqlite3WalCheckpoint\<close> and the
    others) as programs; the invariant of the shared memory and a lemma for each kind of access; the proof of
    each program; and the results for any number of connections, any interleaving and any answers of the
    operating system: snapshot isolation, repeatable reads, serial writers. They hold as long as no connection
    restarts the log while another one runs a checkpoint. The code does not ensure this, and \<open>wal_reset_race\<close> is a run
    in which a reader misses a commit for that reason although all calls succeed. Under the same restriction a reader
    makes progress when the other connections are between calls, at most one of them writing, and the system
    calls succeed.
  \<^item> \<^verbatim>\<open>Keywords\<close>, \<^verbatim>\<open>Tokenize\<close>, \<^verbatim>\<open>Run_Parser\<close> (\<^verbatim>\<open>keywordhash.h\<close>, \<^verbatim>\<open>tokenize.c\<close>): the keyword search with its tables equals a
    search of the keyword list; every token is non-empty and ends inside the text, with one exception that is
    stated; \<open>sqlite3RunParser\<close> feeds the tokens to the parser until that has finished a statement, or to the end of the
    text, with a semicolon and the end marker, and reports the first illegal token.
  \<^item> \<^verbatim>\<open>Complete\<close> (\<^verbatim>\<open>complete.c\<close>): \<open>sqlite3_complete\<close> equals a specification on the tokens of the input.

  \<^item> \<^verbatim>\<open>Serial\<close>, \<^verbatim>\<open>Vdbe_Record\<close>, \<^verbatim>\<open>Record_Compare\<close> (\<^verbatim>\<open>vdbemem.c\<close>, \<^verbatim>\<open>vdbeaux.c\<close>, \<open>OP_MakeRecord\<close> of \<^verbatim>\<open>vdbe.c\<close>): the cell \<open>Mem\<close>, serial
    types, the building and unpacking of records, and the comparison of a record with a key. A record is
    unpacked to the values it was built from, it stays inside its buffer as long as the int counter of the zero
    bytes at its end does not overflow, decoding of any bytes gives a cell
    of one type, and the comparison routine selected for a key is the order on rows, as the routine of debug
    builds has it; both walk the record as in the locale \<open>record_walk\<close>.
  \<^item> \<^verbatim>\<open>Utf\<close> (\<^verbatim>\<open>utf.c\<close>): characters in UTF-8 and UTF-16 and the conversion of a cell. The self-test of the code passes for
    every character; a conversion keeps the characters of a well-formed text, and on any bytes it stays inside
    its buffers, both for inputs of fewer than \<open>2 ^ 30 - 1\<close> bytes, beyond which the int size of the buffer overflows (locale \<open>converter\<close>, interpreted for the four loops).
  \<^item> \<^verbatim>\<open>Like\<close> (\<^verbatim>\<open>func.c\<close>): the pattern comparison of LIKE and GLOB is equivalent to splitting the string into segments
    that the elements of the pattern match, on zero-terminated texts of any bytes.

  \<^bold>\<open>Conventions.\<close> Structures are records, unions and enumerations datatypes; integers whose overflow matters are
  words, or numbers with a test that makes the result undefined. Memory allocation is a list of successes and
  failures, calls of the operating system get their answers from parameters or from the list of answers of a run,
  and the error paths of the modelled functions are branches of the model, with these exceptions: the operating
  system does not refuse to release a lock, and the conversion of a string for a collation of another encoding
  is part of the collation, which is a parameter. Buffers are lists of bytes, and reads outside of them are errors. Recursion follows the loops of the code.
  Where a loop has a bound in the model it is the bound of the code: forty buckets in the sort of row sets,
  100 attempts to start a read transaction, \<open>HASHTABLE_NSLOT\<close> probes in the wal-index, and the tables have a free slot,
  so that the probe ends; the busy handler is a number of attempts that is given with the call. Each such
  bound is shown to be enough in the theorem that uses it.

  \<^bold>\<open>The model of concurrency.\<close> An access to the lock table, to the wal-index or to a file is atomic, and memory is
  sequentially consistent. The header of the wal-index is read and written as a whole, since the code detects a
  torn copy and repeats the access. Three fields of the shared state are only for the specification: the content
  of the database for every header that was published, the last frame that a checkpoint may have copied, and
  the moment in the middle of a restart. Change counters and salts are numbers that do not repeat, where the code has
  32-bit words.

  \<^bold>\<open>Not modelled.\<close> B-trees, the pager and the page cache, the opcodes of the virtual machine other than the one
  that builds records, the code generator and the other SQL functions: large components on top of the modelled
  ones. Opening and closing of the log, exclusive locking mode, and recovery by one connection while others run.
  Floating-point conversion of text (\<open>sqlite3AtoF\<close>); reals are the bits of a double, with their order and the
  rounding of integers. The affinities that \<open>OP_MakeRecord\<close> applies first, and collations, which are parameters.
  The generated parser, the memory allocators and the system calls are parameters of the model. Of the
  extensions, R-trees are compiled in by the Go binding and not modelled, full-text search and ICU are left
  out of the build. The public headers have no executable code.
\<close>

end
